(* ===== verification/Rig_Prelude.thy ===== *)
theory Rig_Prelude
  imports Main "HOL-Library.Word" "HOL-Library.Char_ord" "HOL-Library.List_Lexorder"
    "HOL-Library.Product_Lexorder" "HOL-Library.Multiset"
begin

text \<open>
  Shared base of the library: the collections of simplification rules, the model of the
  standard containers the program uses (\<open>std::vector\<close> made unique, \<open>std::map\<close> as a
  key-sorted association list), the locale that states what the clients rely on of such a
  map, its interpretation on the association lists, and generic lemmas on lists.
\<close>

named_theorems vec_simps \<open>facts about sorted, unique vectors\<close>
named_theorems omap_simps \<open>facts about ordered maps\<close>

type_synonym value_id = "64 word"

abbreviation uint32_max :: nat where
  "uint32_max \<equiv> 4294967295"

section \<open>Vectors made unique\<close>

text \<open>\<open>std::sort\<close> followed by \<open>erase(unique(...))\<close>.\<close>

definition vec_unique :: "'a::linorder list \<Rightarrow> 'a list" where
  "vec_unique xs = remdups_adj (sort xs)"

lemma set_vec_unique [simp, vec_simps]: "set (vec_unique xs) = set xs"
  by (simp add: vec_unique_def)

lemma sorted_vec_unique [simp, vec_simps]: "sorted (vec_unique xs)"
  by (simp add: vec_unique_def sorted_remdups_adj)

lemma distinct_vec_unique [simp, vec_simps]: "distinct (vec_unique xs)"
proof -
  have "sorted ys \<Longrightarrow> distinct (remdups_adj ys)" for ys :: "'a list"
    by (induction ys rule: remdups_adj.induct) (auto simp: le_less)
  then show ?thesis by (simp add: vec_unique_def)
qed

lemma vec_unique_Nil [simp, vec_simps]: "vec_unique [] = []"
  by (simp add: vec_unique_def)

lemma vec_unique_cong: "set xs = set ys \<Longrightarrow> vec_unique xs = vec_unique ys"
  by (rule sorted_distinct_set_unique) simp_all

lemma vec_unique_id: "sorted xs \<Longrightarrow> distinct xs \<Longrightarrow> vec_unique xs = xs"
  by (rule sorted_distinct_set_unique) simp_all

lemma vec_unique_eq_iff: "vec_unique xs = vec_unique ys \<longleftrightarrow> set xs = set ys"
  by (metis set_vec_unique vec_unique_cong)

lemma singleton_list: "set xs = {x} \<Longrightarrow> distinct xs \<Longrightarrow> xs = [x]"
proof -
  assume xs: "set xs = {x}" "distinct xs"
  then have "length xs = 1" using distinct_card [of xs] by simp
  then show ?thesis using xs(1) by (cases xs) auto
qed

section \<open>Ordered maps\<close>

text \<open>
  A \<open>std::map\<close> is a list of pairs in ascending key order, so iterating it is walking the
  list. \<open>omap_put\<close> is \<open>m[k] = v\<close>, \<open>omap_emplace\<close> keeps a standing entry, \<open>omap_erase\<close>
  drops a key; a lookup is the library's \<open>map_of\<close>.
\<close>

type_synonym ('k, 'v) omap = "('k \<times> 'v) list"

definition omap_erase :: "'k \<Rightarrow> ('k, 'v) omap \<Rightarrow> ('k, 'v) omap" where
  "omap_erase k m = filter (\<lambda>e. fst e \<noteq> k) m"

definition omap_put :: "'k::linorder \<Rightarrow> 'v \<Rightarrow> ('k, 'v) omap \<Rightarrow> ('k, 'v) omap" where
  "omap_put k v m = insort_key fst (k, v) (omap_erase k m)"

definition omap_emplace :: "'k::linorder \<Rightarrow> 'v \<Rightarrow> ('k, 'v) omap \<Rightarrow> ('k, 'v) omap" where
  "omap_emplace k v m = (if map_of m k = None then omap_put k v m else m)"

definition omap_wf :: "('k::linorder, 'v) omap \<Rightarrow> bool" where
  "omap_wf m \<longleftrightarrow> sorted (map fst m) \<and> distinct (map fst m)"

lemma map_of_filter_key:
  "map_of (filter (\<lambda>e. P (fst e)) m) k = (if P k then map_of m k else None)"
  by (induction m) auto

lemma map_of_omap_erase [simp, omap_simps]: "map_of (omap_erase k m) = (map_of m)(k := None)"
proof
  fix x show "map_of (omap_erase k m) x = ((map_of m)(k := None)) x"
    by (induction m) (auto simp: omap_erase_def)
qed

lemma map_of_filter_value:
  "distinct (map fst m) \<Longrightarrow> map_of (filter (\<lambda>e. P (snd e)) m) k =
     (case map_of m k of None \<Rightarrow> None | Some v \<Rightarrow> if P v then Some v else None)"
proof (induction m)
  case (Cons e m)
  have "map_of m (fst e) = None" using Cons.prems by (simp add: map_of_eq_None_iff)
  then show ?case using Cons by (cases e) (auto split: option.splits)
qed simp

lemma map_of_insort_key_fresh:
  "k \<notin> fst ` set m \<Longrightarrow> map_of (insort_key fst (k, v) m) = (map_of m)(k \<mapsto> v)"
  by (induction m) (auto simp: fun_eq_iff)

lemma map_of_omap_put [simp, omap_simps]: "map_of (omap_put k v m) = (map_of m)(k \<mapsto> v)"
proof -
  have "k \<notin> fst ` set (omap_erase k m)"
    by (auto simp: omap_erase_def)
  then show ?thesis
    by (simp add: omap_put_def map_of_insort_key_fresh)
qed

lemma map_of_omap_emplace [simp, omap_simps]:
  "map_of (omap_emplace k v m) = (if map_of m k = None then (map_of m)(k \<mapsto> v) else map_of m)"
  by (simp add: omap_emplace_def)

lemma omap_wf_Nil [simp, omap_simps]: "omap_wf []"
  by (simp add: omap_wf_def)

lemma omap_wf_filter [simp, omap_simps]: "omap_wf m \<Longrightarrow> omap_wf (filter P m)"
  by (auto simp: omap_wf_def sorted_map_same intro: distinct_map_filter sorted_filter)

lemma omap_wf_erase [simp, omap_simps]: "omap_wf m \<Longrightarrow> omap_wf (omap_erase k m)"
  by (simp add: omap_erase_def)

lemma omap_wf_put [simp, omap_simps]: "omap_wf m \<Longrightarrow> omap_wf (omap_put k v m)"
proof -
  assume wf: "omap_wf m"
  have wf': "omap_wf (omap_erase k m)" using wf by simp
  have fresh: "k \<notin> fst ` set (omap_erase k m)"
    by (auto simp: omap_erase_def)
  have "mset (map fst (insort_key fst (k, v) (omap_erase k m))) = mset (k # map fst (omap_erase k m))"
    by simp
  then have "distinct (map fst (insort_key fst (k, v) (omap_erase k m)))"
    using wf' fresh by (metis distinct.simps(2) mset_eq_imp_distinct_iff omap_wf_def set_map)
  then show ?thesis
    using wf' by (simp add: omap_put_def omap_wf_def sorted_insort_key)
qed

lemma omap_wf_emplace [simp, omap_simps]: "omap_wf m \<Longrightarrow> omap_wf (omap_emplace k v m)"
  by (simp add: omap_emplace_def)

lemma omap_wf_distinct: "omap_wf m \<Longrightarrow> distinct (map fst m)"
  by (simp add: omap_wf_def)

lemma omap_wf_mem_iff: "omap_wf m \<Longrightarrow> (k, v) \<in> set m \<longleftrightarrow> map_of m k = Some v"
  by (auto simp: omap_wf_def)

lemma omap_wf_ext:
  assumes "omap_wf m" "omap_wf n" "map_of m = map_of n"
  shows "m = n"
proof -
  have "set m = set n"
    using assms by (auto simp: omap_wf_mem_iff)
  moreover have "inj_on fst (set m \<union> set n)"
    using assms by (auto simp: inj_on_def omap_wf_mem_iff)
  ultimately show ?thesis
    using assms unfolding omap_wf_def by (intro map_sorted_distinct_set_unique [of fst]) auto
qed

text \<open>The entries as a multiset.\<close>

lemma omap_erase_id: "map_of m k = None \<Longrightarrow> omap_erase k m = m"
  unfolding omap_erase_def by (rule filter_True) (auto simp: map_of_eq_None_iff)

lemma mset_omap_put: "map_of m k = None \<Longrightarrow> mset (omap_put k v m) = add_mset (k, v) (mset m)"
  by (simp add: omap_put_def omap_erase_id)

lemma mset_omap_erase:
  "omap_wf m \<Longrightarrow> map_of m k = Some v \<Longrightarrow> mset m = add_mset (k, v) (mset (omap_erase k m))"
proof (induction m)
  case (Cons e m)
  show ?case
  proof (cases "fst e = k")
    case True
    then have "map_of m k = None" using Cons.prems(1) by (auto simp: omap_wf_def map_of_eq_None_iff)
    then show ?thesis using True Cons.prems omap_erase_id [of m k]
      by (cases e) (simp add: omap_erase_def)
  next
    case False
    moreover have "omap_wf m" using Cons.prems(1) by (simp add: omap_wf_def)
    ultimately show ?thesis using Cons.IH Cons.prems(2) by (cases e) (simp add: omap_erase_def)
  qed
qed simp

lemma length_omap_put: "map_of m k = None \<Longrightarrow> length (omap_put k v m) = Suc (length m)"
  using arg_cong [OF mset_omap_put, of m k size v] by simp

lemma length_omap_erase: "omap_wf m \<Longrightarrow> map_of m k = Some v \<Longrightarrow> Suc (length (omap_erase k m)) = length m"
  using arg_cong [OF mset_omap_erase, of m k v size] by simp

text \<open>The entry an iteration meets first has the least key.\<close>

lemma omap_wf_Cons:
  "omap_wf (e # m) \<longleftrightarrow> omap_wf m \<and> (\<forall>k \<in> dom (map_of m). fst e < k)"
  by (auto simp: omap_wf_def dom_map_of_conv_image_fst order_le_less)

lemma omap_erase_hd: "omap_wf ((k, v) # m) \<Longrightarrow> omap_erase k ((k, v) # m) = m"
proof -
  assume "omap_wf ((k, v) # m)"
  then have "map_of m k = None" by (auto simp: omap_wf_Cons dom_def)
  then show ?thesis using omap_erase_id [of m k] by (simp add: omap_erase_def)
qed

text \<open>What the clients of a map rely on. The laws are those of \<open>std::map\<close>: a well-formed map
  answers the last value put under a key, nothing for an erased one, and two well-formed maps
  with the same answers are the same map (iteration order included).\<close>

locale key_map =
  fixes look :: "'m \<Rightarrow> 'k \<Rightarrow> 'v option"
    and put :: "'k \<Rightarrow> 'v \<Rightarrow> 'm \<Rightarrow> 'm"
    and erase :: "'k \<Rightarrow> 'm \<Rightarrow> 'm"
    and wf :: "'m \<Rightarrow> bool"
  assumes look_put: "look (put k v m) = (look m)(k \<mapsto> v)"
    and look_erase: "look (erase k m) = (look m)(k := None)"
    and wf_put: "wf m \<Longrightarrow> wf (put k v m)"
    and wf_erase: "wf m \<Longrightarrow> wf (erase k m)"
    and wf_ext: "wf m \<Longrightarrow> wf n \<Longrightarrow> look m = look n \<Longrightarrow> m = n"
begin

lemma put_put: "wf m \<Longrightarrow> put k v (put k u m) = put k v m"
  by (rule wf_ext) (simp_all add: wf_put look_put)

lemma put_commute: "wf m \<Longrightarrow> k \<noteq> l \<Longrightarrow> put k v (put l u m) = put l u (put k v m)"
  by (rule wf_ext) (simp_all add: wf_put look_put fun_upd_twist)

lemma erase_put: "wf m \<Longrightarrow> erase k (put k v m) = erase k m"
  by (rule wf_ext) (simp_all add: wf_put wf_erase look_put look_erase)

lemma put_erase: "wf m \<Longrightarrow> put k v (erase k m) = put k v m"
  by (rule wf_ext) (simp_all add: wf_put wf_erase look_put look_erase)

lemma erase_fresh: "wf m \<Longrightarrow> look m k = None \<Longrightarrow> erase k m = m"
  by (rule wf_ext) (simp_all add: wf_erase look_erase fun_upd_idem)

lemma put_same: "wf m \<Longrightarrow> look m k = Some v \<Longrightarrow> put k v m = m"
  by (rule wf_ext) (simp_all add: wf_put look_put fun_upd_idem)

lemma put_fresh_erase: "wf m \<Longrightarrow> look m k = None \<Longrightarrow> erase k (put k v m) = m"
  by (simp add: erase_put erase_fresh)

end

interpretation omap: key_map map_of omap_put omap_erase omap_wf
  by unfold_locales (simp_all add: omap_wf_ext)

lemmas omap_laws = omap.put_put omap.put_commute omap.erase_put omap.erase_fresh omap.put_same

section \<open>Fallible code\<close>

text \<open>A function that reports failure through a message and \<open>return false\<close> yields \<open>Inl\<close> of its
  error or \<open>Inr\<close> of its result; \<open>bind_err\<close> sequences two such steps and \<open>fold_err\<close> is a loop whose
  body may return early with an error.\<close>

fun bind_err :: "'e + 'a \<Rightarrow> ('a \<Rightarrow> 'e + 'b) \<Rightarrow> 'e + 'b" where
  "bind_err (Inl e) f = Inl e"
| "bind_err (Inr a) f = f a"

definition check_err :: "bool \<Rightarrow> 'e \<Rightarrow> 'e + unit" where
  "check_err ok e = (if ok then Inr () else Inl e)"

fun fold_err :: "('s \<Rightarrow> 'x \<Rightarrow> 'e + 's) \<Rightarrow> 's \<Rightarrow> 'x list \<Rightarrow> 'e + 's" where
  "fold_err f s [] = Inr s"
| "fold_err f s (x # xs) = bind_err (f s x) (\<lambda>s'. fold_err f s' xs)"

lemma bind_err_Inr_iff: "bind_err m f = Inr b \<longleftrightarrow> (\<exists>a. m = Inr a \<and> f a = Inr b)"
  by (cases m) auto

lemma bind_err_Inl_iff: "bind_err m f = Inl e \<longleftrightarrow> m = Inl e \<or> (\<exists>a. m = Inr a \<and> f a = Inl e)"
  by (cases m) auto

lemma check_err_iff [simp]: "check_err ok e = Inr u \<longleftrightarrow> ok" "check_err ok e = Inl e' \<longleftrightarrow> \<not> ok \<and> e' = e"
  by (auto simp: check_err_def)

lemma fold_err_append: "fold_err f s (xs @ ys) = bind_err (fold_err f s xs) (\<lambda>s'. fold_err f s' ys)"
proof (induction xs arbitrary: s)
  case (Cons x xs)
  then show ?case by (cases "f s x") auto
qed simp

text \<open>A loop fails at the first element whose step fails.\<close>

lemma fold_err_InlE:
  assumes "fold_err f s xs = Inl e"
  obtains ys x zs s' where "xs = ys @ x # zs" "fold_err f s ys = Inr s'" "f s' x = Inl e"
  using assms
proof (induction xs arbitrary: s thesis)
  case (Cons x xs)
  show ?case
  proof (cases "f s x")
    case (Inl e')
    then show ?thesis using Cons.prems(1) [of "[]" x xs s] Cons.prems(2) by simp
  next
    case (Inr s')
    with Cons.prems(2) have "fold_err f s' xs = Inl e" by simp
    from Cons.IH [OF _ this] obtain ys y zs t where "xs = ys @ y # zs" "fold_err f s' ys = Inr t" "f t y = Inl e" by blast
    then show ?thesis using Cons.prems(1) [of "x # ys" y zs t] Inr by simp
  qed
qed simp

lemma fold_err_snoc_iff:
  "fold_err f s (xs @ [x]) = Inr t \<longleftrightarrow> (\<exists>s'. fold_err f s xs = Inr s' \<and> f s' x = Inr t)"
proof -
  have "bind_err (f s' x) Inr = f s' x" for s' by (cases "f s' x") auto
  then show ?thesis by (auto simp: fold_err_append bind_err_Inr_iff)
qed

lemma fold_err_upt_Suc_iff:
  "m \<le> n \<Longrightarrow> fold_err f s [m..<Suc n] = Inr t \<longleftrightarrow> (\<exists>s'. fold_err f s [m..<n] = Inr s' \<and> f s' n = Inr t)"
  by (simp only: upt_Suc_append fold_err_snoc_iff)

lemma set_map_filter: "set (List.map_filter f xs) = {y. \<exists>x \<in> set xs. f x = Some y}"
  by (induction xs) (auto simp: List.map_filter_simps split: option.splits)

text \<open>An invariant of a loop that may leave early: it may depend on the elements already taken.\<close>

lemma fold_err_invariant:
  assumes "fold_err f s xs = Inr t" "I [] s"
    and "\<And>ys x zs a b. xs = ys @ x # zs \<Longrightarrow> I ys a \<Longrightarrow> f a x = Inr b \<Longrightarrow> I (ys @ [x]) b"
  shows "I xs t"
  using assms
proof (induction xs arbitrary: t rule: rev_induct)
  case (snoc x xs)
  from snoc.prems(1) obtain a where a: "fold_err f s xs = Inr a" "f a x = Inr t"
    by (auto simp: fold_err_append bind_err_Inr_iff)
  have "I xs a" using snoc.IH [OF a(1) snoc.prems(2)] snoc.prems(3) by simp
  with snoc.prems(3) [of xs x "[]"] a(2) show ?case by simp
qed simp

text \<open>The same for a loop that cannot fail.\<close>

lemma foldl_invariant:
  assumes "I [] s"
    and "\<And>ys x zs a. xs = ys @ x # zs \<Longrightarrow> I ys a \<Longrightarrow> I (ys @ [x]) (f a x)"
  shows "I xs (foldl f s xs)"
  using assms
proof (induction xs rule: rev_induct)
  case (snoc x xs)
  have "I xs (foldl f s xs)" using snoc.IH snoc.prems by simp
  with snoc.prems(2) [of xs x "[]"] show ?case by simp
qed simp

text \<open>A prefix of an index range is the range up to the element taken next.\<close>

lemma upt_prefix: "[m..<n] = ys @ x # zs \<Longrightarrow> ys = [m..<x] \<and> m \<le> x \<and> x < n"
proof (induction ys arbitrary: m)
  case Nil
  then show ?case by (auto simp: upt_eq_Cons_conv)
next
  case (Cons y ys)
  then have "y = m" "m < n" "[Suc m..<n] = ys @ x # zs" by (auto simp: upt_eq_Cons_conv)
  with Cons.IH [of "Suc m"] show ?case by (auto simp: upt_conv_Cons)
qed

text \<open>A nested loop over pairs is one loop over the list of pairs, and a loop whose body never
  fails on its elements is a plain fold.\<close>

definition pairs_of :: "('x \<Rightarrow> 'y list) \<Rightarrow> 'x list \<Rightarrow> ('x \<times> 'y) list" where
  "pairs_of h xs = concat (map (\<lambda>x. map (Pair x) (h x)) xs)"

lemma pairs_of_simps [simp]:
  "pairs_of h [] = []" "pairs_of h (x # xs) = map (Pair x) (h x) @ pairs_of h xs"
  by (simp_all add: pairs_of_def)

lemma set_pairs_of [simp]: "set (pairs_of h xs) = {(x, y). x \<in> set xs \<and> y \<in> set (h x)}"
  by (auto simp: pairs_of_def)

lemma fold_err_map: "fold_err f s (map g xs) = fold_err (\<lambda>s x. f s (g x)) s xs"
proof (induction xs arbitrary: s)
  case (Cons x xs)
  then show ?case by (cases "f s (g x)") auto
qed simp

lemma fold_err_nested:
  "fold_err (\<lambda>s x. fold_err (\<lambda>t y. f t x y) s (h x)) s xs = fold_err (\<lambda>s (x, y). f s x y) s (pairs_of h xs)"
proof (induction xs arbitrary: s)
  case (Cons x xs)
  then show ?case
    by (cases "fold_err (\<lambda>t y. f t x y) s (h x)") (auto simp: fold_err_append fold_err_map)
qed simp

lemma fold_err_pure:
  "(\<And>x s. x \<in> set xs \<Longrightarrow> f s x = Inr (g s x)) \<Longrightarrow> fold_err f s xs = Inr (foldl g s xs)"
  by (induction xs arbitrary: s) auto

text \<open>A loop that only checks its elements.\<close>

lemma fold_err_check:
  "fold_err (\<lambda>(u::unit) x. if bad x then Inl e else Inr ()) () xs = Inr () \<longleftrightarrow> (\<forall>x \<in> set xs. \<not> bad x)"
  by (induction xs) auto

text \<open>What every step of a loop checks holds of every element once the loop has succeeded.\<close>

lemma fold_err_all:
  assumes "fold_err f s xs = Inr t" "\<And>a x b. x \<in> set xs \<Longrightarrow> f a x = Inr b \<Longrightarrow> P x"
  shows "\<forall>x \<in> set xs. P x"
  using assms
proof (induction xs arbitrary: s)
  case (Cons x xs)
  from Cons.prems(1) obtain s' where "f s x = Inr s'" "fold_err f s' xs = Inr t"
    by (auto simp: bind_err_Inr_iff)
  with Cons.IH [of s'] Cons.prems(2) show ?case by fastforce
qed simp

end
