(* ===== verification/IEEE_Double.thy ===== *)
theory IEEE_Double
  imports Rig_Prelude Complex_Main
begin

text \<open>
  The C++ \<open>double\<close> as the modelled code uses it: a finite value is the rational it stands for,
  beside the infinities and NaN, and every operation is the exact result rounded to nearest,
  ties to even, in binary64. The two zeros are one value here, as every comparison of the
  program treats them; the bitwise digest of stored values is modelled on bytes instead.
\<close>

datatype double = Fin rat | PosInf | NegInf | NaN

function ilog2 :: "int \<Rightarrow> int" where
  "ilog2 n = (if n < 2 then 0 else 1 + ilog2 (n div 2))"
  by pat_completeness auto
termination
  by (relation "measure nat") auto

declare ilog2.simps [simp del]

definition pow2 :: "int \<Rightarrow> rat" where
  "pow2 e = (if 0 \<le> e then 2 ^ nat e else 1 / 2 ^ nat (- e))"

definition round_half_even :: "rat \<Rightarrow> int" where
  "round_half_even q =
     (let f = \<lfloor>q\<rfloor>; r = q - of_int f
      in if r < 1 / 2 then f else if 1 / 2 < r then f + 1 else if even f then f else f + 1)"

text \<open>The exponent of the leading bit of a positive rational.\<close>

definition leading_exponent :: "rat \<Rightarrow> int" where
  "leading_exponent q =
     (let (n, d) = quotient_of q; e = ilog2 n - ilog2 d
      in if pow2 e \<le> q then e else e - 1)"

definition round_double :: "rat \<Rightarrow> double" where
  "round_double q =
     (if q = 0 then Fin 0
      else let u = max (leading_exponent \<bar>q\<bar> - 52) (- 1074);
               r = of_int (round_half_even (q / pow2 u)) * pow2 u
           in if pow2 1024 \<le> r then PosInf else if r \<le> - pow2 1024 then NegInf else Fin r)"

fun double_add :: "double \<Rightarrow> double \<Rightarrow> double" where
  "double_add (Fin a) (Fin b) = round_double (a + b)"
| "double_add NaN y = NaN"
| "double_add x NaN = NaN"
| "double_add PosInf NegInf = NaN"
| "double_add NegInf PosInf = NaN"
| "double_add PosInf y = PosInf"
| "double_add x PosInf = PosInf"
| "double_add NegInf y = NegInf"
| "double_add x NegInf = NegInf"

text \<open>Division by a finite nonzero value, the only one the program makes.\<close>

fun double_div_fin :: "double \<Rightarrow> rat \<Rightarrow> double" where
  "double_div_fin (Fin a) b = round_double (a / b)"
| "double_div_fin PosInf b = (if 0 < b then PosInf else NegInf)"
| "double_div_fin NegInf b = (if 0 < b then NegInf else PosInf)"
| "double_div_fin NaN b = NaN"

definition double_of_int :: "int \<Rightarrow> double" where
  "double_of_int i = round_double (of_int i)"

fun double_finite :: "double \<Rightarrow> bool" where
  "double_finite (Fin a) = True"
| "double_finite _ = False"

text \<open>The ordered comparisons are false when either side is NaN.\<close>

fun double_less :: "double \<Rightarrow> double \<Rightarrow> bool" where
  "double_less (Fin a) (Fin b) = (a < b)"
| "double_less NaN y = False"
| "double_less x NaN = False"
| "double_less NegInf y = (y \<noteq> NegInf)"
| "double_less x PosInf = (x \<noteq> PosInf)"
| "double_less x y = False"

fun double_eq :: "double \<Rightarrow> double \<Rightarrow> bool" where
  "double_eq NaN y = False"
| "double_eq x NaN = False"
| "double_eq x y = (x = y)"

abbreviation double_greater :: "double \<Rightarrow> double \<Rightarrow> bool" where
  "double_greater x y \<equiv> double_less y x"

lemma double_finiteE: "double_finite x \<Longrightarrow> (\<And>a. x = Fin a \<Longrightarrow> P) \<Longrightarrow> P"
  by (cases x) auto

lemma double_eq_finite: "double_finite x \<Longrightarrow> double_eq x y \<longleftrightarrow> x = y"
  by (cases x; cases y) auto

lemma double_eq_refl_iff: "double_eq x x \<longleftrightarrow> x \<noteq> NaN"
  by (cases x) auto

lemma double_less_irrefl [simp]: "\<not> double_less x x"
  by (cases x) auto

lemma double_less_trans: "double_less x y \<Longrightarrow> double_less y z \<Longrightarrow> double_less x z"
  by (cases x; cases y; cases z) auto

definition double_le :: "double \<Rightarrow> double \<Rightarrow> bool" where
  "double_le x y \<longleftrightarrow> double_less x y \<or> double_eq x y"

text \<open>The order of a \<open>std::map\<close> keyed by doubles is the one of \<open>operator<\<close>; it is a linear order
  on every double but NaN, which the program keeps out of its keys. NaN comes last here.\<close>

instantiation double :: linorder
begin

definition less_double :: "double \<Rightarrow> double \<Rightarrow> bool" where
  "less_double x y \<longleftrightarrow> double_less x y \<or> (x \<noteq> NaN \<and> y = NaN)"

definition less_eq_double :: "double \<Rightarrow> double \<Rightarrow> bool" where
  "less_eq_double x y \<longleftrightarrow> x = y \<or> x < y"

instance
proof
  fix x y z :: double
  show "x < y \<longleftrightarrow> x \<le> y \<and> \<not> y \<le> x"
    by (cases x; cases y) (auto simp: less_double_def less_eq_double_def)
  show "x \<le> x" by (simp add: less_eq_double_def)
  show "x \<le> y \<Longrightarrow> y \<le> z \<Longrightarrow> x \<le> z"
    by (cases x; cases y; cases z) (auto simp: less_double_def less_eq_double_def)
  show "x \<le> y \<Longrightarrow> y \<le> x \<Longrightarrow> x = y"
    by (cases x; cases y) (auto simp: less_double_def less_eq_double_def)
  show "x \<le> y \<or> y \<le> x"
    by (cases x; cases y) (auto simp: less_double_def less_eq_double_def)
qed

end

lemma less_double_iff: "y \<noteq> NaN \<Longrightarrow> x < y \<longleftrightarrow> double_less x y"
  by (simp add: less_double_def)

text \<open>Integers of fewer than 54 bits are exact, so small sums and offsets carry no rounding.\<close>

lemma ilog2_bound: "n < 2 ^ Suc k \<Longrightarrow> ilog2 n \<le> int k"
proof (induction k arbitrary: n)
  case 0
  then show ?case by (simp add: ilog2.simps [of n])
next
  case (Suc k)
  then have "ilog2 (n div 2) \<le> int k" by (intro Suc.IH) auto
  then show ?case by (simp add: ilog2.simps [of n])
qed

lemma pow2_neg_cancel: "u \<le> 0 \<Longrightarrow> q / pow2 u = q * 2 ^ nat (- u)" "pow2 u \<noteq> 0"
  by (auto simp: pow2_def)

lemma round_half_even_of_int [simp]: "round_half_even (of_int i) = i"
  by (simp add: round_half_even_def)

lemma round_double_exact:
  assumes "\<bar>i\<bar> < 2 ^ 53"
  shows "round_double (of_int i) = Fin (of_int i)"
proof (cases "i = 0")
  case False
  define u where "u = max (leading_exponent (of_int \<bar>i\<bar>) - 52) (- 1074)"
  have "ilog2 \<bar>i\<bar> \<le> int 52" using assms by (intro ilog2_bound) simp
  then have "leading_exponent (of_int \<bar>i\<bar>) \<le> 52"
    by (simp add: leading_exponent_def quotient_of_int ilog2.simps [of 1] Let_def del: of_int_abs)
  then have u: "u \<le> 0" by (simp add: u_def)
  have "(of_int i :: rat) / pow2 u = of_int (i * 2 ^ nat (- u))"
    using pow2_neg_cancel(1) [OF u] by simp
  then have "round_half_even (of_int i / pow2 u) = i * 2 ^ nat (- u)"
    by (metis round_half_even_of_int)
  then have r: "of_int (round_half_even (of_int i / pow2 u)) * pow2 u = (of_int i :: rat)"
    using u by (simp add: pow2_def)
  have "(of_int \<bar>i\<bar> :: rat) < of_int (2 ^ 53)" using assms by linarith
  also have "\<dots> \<le> pow2 1024" by (simp add: pow2_def)
  finally have "\<bar>of_int i\<bar> < pow2 1024" by simp
  then show ?thesis
    using False r u_def unfolding round_double_def Let_def by (simp add: abs_less_iff)
qed (simp add: round_double_def)

lemma double_of_int_exact: "\<bar>i\<bar> < 2 ^ 53 \<Longrightarrow> double_of_int i = Fin (of_int i)"
  by (simp add: double_of_int_def round_double_exact)

lemma double_add_exact:
  "\<bar>i + j\<bar> < 2 ^ 53 \<Longrightarrow> double_add (Fin (of_int i)) (Fin (of_int j)) = Fin (of_int (i + j))"
  using round_double_exact [of "i + j"] by simp

end
