(* ===== verification/Op_Graph.thy ===== *)
theory Op_Graph
  imports Rig_Prelude IEEE_Double
begin

text \<open>
  The records of \<open>libs/rigExecGraph/opGraph.h\<close>: the operation descriptor a backend
  supplies, the compiled operation, the cluster and the compiled graph, the retained
  exclusion proof, and every message the compiler, the cluster lowering, the validator
  and the executor can fail with. A \<open>uint32_t\<close> index is a natural number; the compiler's
  own guard keeps it below \<open>UINT32_MAX\<close>.
\<close>

record op_descriptor =
  desc_key :: string
  desc_kind :: "32 word"
  desc_reads :: "value_id list"
  desc_writes :: "value_id list"
  desc_predecessors :: "nat list"
  desc_volatileInput :: bool

record compiled_op =
  op_descriptor :: op_descriptor
  op_originalIndex :: nat
  op_predecessors :: "nat list"
  op_successors :: "nat list"

record op_cluster =
  cl_members :: "nat list"
  cl_predecessors :: "nat list"
  cl_successors :: "nat list"

record compiled_graph =
  g_ops :: "compiled_op list"
  g_canonicalIndex :: "int list"
  g_readers :: "value_id \<Rightarrow> nat list option"
  g_cycles :: "string list list"
  g_cycleMembers :: "string list list"
  g_longestPath :: nat
  g_clusters :: "op_cluster list"
  g_opClusters :: "nat list"
  g_volatileOps :: "nat list"

definition empty_graph :: compiled_graph where
  "empty_graph = \<lparr>g_ops = [], g_canonicalIndex = [], g_readers = Map.empty, g_cycles = [],
     g_cycleMembers = [], g_longestPath = 0, g_clusters = [], g_opClusters = [], g_volatileOps = []\<rparr>"

datatype cycle_policy = Reject | SetAside

record exclusion_proof =
  ex_keys :: "string list"
  ex_removedKeys :: "string list"
  ex_cycles :: "string list list"
  ex_cycleMembers :: "string list list"

datatype graph_error =
    TooManyOperations
  | BadOperationKey string
  | MultipleProducers value_id string string
  | WritesSampledLeaf string
  | PredecessorOutOfRange string
  | ReadHasNoProducer string
  | RetainedCardinalityMismatch
  | InvalidRetainedReport
  | EmptyRetainedMember
  | RetainedLoopOutside
  | UnprovedRetainedKey string
  | RetainedKeyUnknown string
  | UnprovedRemovedKey string
  | RemovedKeyPresent string
  | RetainedMemberUnmapped string
  | OperationCycle "string list list"
  | InvalidGrain
  | CostCountMismatch
  | InvalidOperationCost
  | NonTopologicalGraph
  | NonTopologicalPredecessor
  | ClusterCardinality
  | ClusterSize
  | ClusterOrder
  | ClusterMember
  | ClusterCausal
  | OperationUnclustered
  | PredecessorNotTopological
  | ClusterPredecessorNotTopological
  | ClusterEdges

text \<open>What every compiled graph keeps: edges are listed once, ascending, in both directions, and
  point forward in canonical order.\<close>

definition op_edges_ok :: "nat \<Rightarrow> nat \<Rightarrow> compiled_op \<Rightarrow> bool" where
  "op_edges_ok n i oper \<longleftrightarrow>
     sorted (op_predecessors oper) \<and> distinct (op_predecessors oper) \<and>
     sorted (op_successors oper) \<and> distinct (op_successors oper) \<and>
     (\<forall>p \<in> set (op_predecessors oper). p < i) \<and>
     (\<forall>s \<in> set (op_successors oper). i < s \<and> s < n)"

definition canonical_ops :: "compiled_op list \<Rightarrow> bool" where
  "canonical_ops ops \<longleftrightarrow>
     (\<forall>i < length ops. op_edges_ok (length ops) i (ops ! i)) \<and>
     (\<forall>i < length ops. \<forall>j < length ops.
        i \<in> set (op_predecessors (ops ! j)) \<longleftrightarrow> j \<in> set (op_successors (ops ! i)))"

lemma op_edges_okD:
  assumes "op_edges_ok n i oper"
  shows "sorted (op_predecessors oper)" "distinct (op_predecessors oper)"
    "sorted (op_successors oper)" "distinct (op_successors oper)"
    "\<And>p. p \<in> set (op_predecessors oper) \<Longrightarrow> p < i"
    "\<And>s. s \<in> set (op_successors oper) \<Longrightarrow> i < s"
    "\<And>s. s \<in> set (op_successors oper) \<Longrightarrow> s < n"
  using assms by (simp_all add: op_edges_ok_def)

lemma canonical_opsD: "canonical_ops ops \<Longrightarrow> i < length ops \<Longrightarrow> op_edges_ok (length ops) i (ops ! i)"
  by (simp add: canonical_ops_def)

lemma canonical_ops_mutual:
  "canonical_ops ops \<Longrightarrow> i < length ops \<Longrightarrow> j < length ops \<Longrightarrow>
     i \<in> set (op_predecessors (ops ! j)) \<longleftrightarrow> j \<in> set (op_successors (ops ! i))"
  by (simp add: canonical_ops_def)

end
