(* ===== verification/Op_Execute.thy ===== *)
theory Op_Execute
  imports Op_Graph
begin

text \<open>
  The executor of \<open>opGraph.cpp\<close>: \<open>RigExecOpAscending\<close>, \<open>RigExecOpResetExecution\<close> and the
  serial path of \<open>RigExecExecuteOpGraph\<close>. The backend is a record of callbacks over a state
  \<open>'s\<close>, as the \<open>std::function\<close> members of \<open>RigExecOpCallbacks\<close> are; a byte flag is a
  boolean. The asynchronous path (a \<open>dispatch\<close> callback) is modelled in its own theory as
  a step relation over the same cluster body.
\<close>

section \<open>State\<close>

record 's op_callbacks =
  cb_run :: "nat \<Rightarrow> 's \<Rightarrow> bool \<times> 's"
  cb_skip :: "nat \<Rightarrow> 's \<Rightarrow> 's"
  cb_skipEffects :: "nat list option"
  cb_changed :: "value_id \<Rightarrow> 's \<Rightarrow> bool \<times> 's"
  cb_inputChanged :: "(nat \<Rightarrow> value_id \<Rightarrow> 's \<Rightarrow> bool \<times> 's) option"
  cb_inputsChanged :: "(nat \<Rightarrow> 's \<Rightarrow> bool \<times> 's) option"

record op_execution =
  x_candidates :: "bool list"
  x_ran :: "bool list"
  x_completion :: "nat list"
  x_executed :: nat
  x_skipped :: nat
  x_touched :: "nat list"
  x_touchedValid :: bool

record op_workspace =
  w_seeded :: "bool list"
  w_clusterCandidates :: "bool list"
  w_pending :: "nat list"
  w_ready :: "nat list"
  w_unresolved :: "nat list"
  w_candidateClusters :: "nat list"
  w_listsValid :: bool
  w_verifyReset :: bool

datatype exec_error =
    NoClusterLowering
  | SeedOutOfRange
  | CandidateOutOfRange
  | VolatileOutOfRange
  | SkipEffectOutOfRange
  | ResetMissedEntry
  | OperationFailed

section \<open>Ascending lists\<close>

definition RigExecOpAscending :: "nat list \<Rightarrow> bool list \<Rightarrow> nat \<Rightarrow> nat list" where
  "RigExecOpAscending listed flags n =
     (let limit = min n (length flags) in
      if n \<le> length listed * 16 then filter (\<lambda>i. flags ! i) [0..<limit]
      else vec_unique (filter (\<lambda>i. \<not> (limit \<le> i \<or> \<not> flags ! i)) listed))"

section \<open>Reset\<close>

definition clear_at :: "nat \<Rightarrow> 'a \<Rightarrow> nat list \<Rightarrow> 'a list \<Rightarrow> 'a list" where
  "clear_at n zero is xs = foldl (\<lambda>xs i. if i < n then xs[i := zero] else xs) xs is"

definition reset_execution :: "nat \<Rightarrow> op_execution \<Rightarrow> bool \<times> op_execution" where
  "reset_execution ops x =
     (let listed = x_touchedValid x \<and> length (x_candidates x) = ops \<and> length (x_ran x) = ops \<and>
            length (x_completion x) = ops;
          x' = (if listed
             then x\<lparr>x_candidates := clear_at ops False (x_touched x) (x_candidates x),
                    x_ran := clear_at ops False (x_touched x) (x_ran x),
                    x_completion := clear_at ops 0 (x_touched x) (x_completion x)\<rparr>
             else x\<lparr>x_candidates := replicate ops False, x_ran := replicate ops False,
                    x_completion := replicate ops 0\<rparr>)
      in (listed, x'\<lparr>x_touched := [], x_touchedValid := True, x_executed := 0, x_skipped := 0\<rparr>))"

definition reset_workspace :: "nat \<Rightarrow> nat \<Rightarrow> op_workspace \<Rightarrow> bool \<times> op_workspace" where
  "reset_workspace ops clusters w =
     (let listed = w_listsValid w \<and> length (w_seeded w) = ops \<and> length (w_clusterCandidates w) = clusters;
          w' = (if listed
             then w\<lparr>w_seeded := clear_at ops False (w_pending w) (w_seeded w),
                    w_clusterCandidates := clear_at clusters False (w_candidateClusters w) (w_clusterCandidates w)\<rparr>
             else w\<lparr>w_seeded := replicate ops False, w_clusterCandidates := replicate clusters False\<rparr>)
      in (listed, w'\<lparr>w_candidateClusters := []\<rparr>))"

text \<open>The judge: every flag is set to zero, and the result says whether all of them were.\<close>

definition zero_flags :: "bool list \<Rightarrow> bool \<times> bool list" where
  "zero_flags xs = (True \<notin> set xs, replicate (length xs) False)"

definition zero_numbers :: "nat list \<Rightarrow> bool \<times> nat list" where
  "zero_numbers xs = (\<forall>x \<in> set xs. x = 0, replicate (length xs) 0)"

definition RigExecOpResetExecution ::
  "op_execution option \<Rightarrow> op_workspace option \<Rightarrow> nat \<Rightarrow> nat \<Rightarrow> bool \<times> op_execution option \<times> op_workspace option" where
  "RigExecOpResetExecution out workspace ops clusters =
     (let (listed_x, out') = (case out of None \<Rightarrow> (False, None)
            | Some x \<Rightarrow> let (l, x') = reset_execution ops x in (l, Some x')) in
      case workspace of None \<Rightarrow> (True, out', None)
      | Some w \<Rightarrow>
        let (listed_w, w') = reset_workspace ops clusters w in
        if \<not> (listed_x \<or> listed_w) \<or> \<not> w_verifyReset w' then (True, out', Some w')
        else
          let ok_x = (case out' of None \<Rightarrow> True
                | Some x \<Rightarrow> fst (zero_flags (x_candidates x)) \<and> fst (zero_flags (x_ran x)) \<and>
                    fst (zero_numbers (x_completion x)));
              zero_x = (case out' of None \<Rightarrow> None
                | Some x \<Rightarrow> Some (x\<lparr>x_candidates := snd (zero_flags (x_candidates x)),
                    x_ran := snd (zero_flags (x_ran x)), x_completion := snd (zero_numbers (x_completion x))\<rparr>));
              (ok_s, seeded) = zero_flags (w_seeded w');
              (ok_c, marks) = zero_flags (w_clusterCandidates w')
          in (ok_x \<and> ok_s \<and> ok_c, zero_x, Some (w'\<lparr>w_seeded := seeded, w_clusterCandidates := marks\<rparr>)))"

section \<open>Candidates\<close>

text \<open>The \<open>seed\<close> lambda, on the seeded flags, the candidate flags and the pending list.\<close>

type_synonym seed_state = "bool list \<times> bool list \<times> nat list"

definition seed_op :: "bool \<Rightarrow> seed_state \<Rightarrow> nat \<Rightarrow> seed_state" where
  "seed_op mandatory = (\<lambda>(seeded, candidates, pending) i.
     let seeded' = (if mandatory then seeded[i := True] else seeded) in
     if \<not> candidates ! i then (seeded', candidates[i := True], pending @ [i])
     else (seeded', candidates, pending))"

definition seed_all ::
  "compiled_graph \<Rightarrow> value_id list \<Rightarrow> nat list \<Rightarrow> bool \<Rightarrow> nat list option \<Rightarrow> seed_state \<Rightarrow> seed_state" where
  "seed_all graph changedLeaves seedOps force candidateOps start =
     (let s1 = foldl (seed_op True) start seedOps;
          s2 = (case candidateOps of None \<Rightarrow> s1 | Some cs \<Rightarrow> foldl (seed_op False) s1 cs);
          s3 = foldl (\<lambda>s v. case g_readers graph v of None \<Rightarrow> s | Some rs \<Rightarrow> foldl (seed_op False) s rs) s2 changedLeaves
      in if force then foldl (seed_op True) s3 [0..<length (g_ops graph)]
         else foldl (seed_op True) s3 (g_volatileOps graph))"

text \<open>The growing scan of \<open>pending\<close>. A successor outside the flags cannot occur in a compiled
  graph.\<close>

definition push_candidate :: "bool list \<times> nat list \<Rightarrow> nat \<Rightarrow> bool list \<times> nat list" where
  "push_candidate = (\<lambda>(candidates, pending) next.
     if next < length candidates \<and> \<not> candidates ! next then (candidates[next := True], pending @ [next])
     else (candidates, pending))"

lemma push_candidates_measure:
  "length (snd (foldl push_candidate (candidates, pending) nexts)) +
     count_list (fst (foldl push_candidate (candidates, pending) nexts)) False =
   length pending + count_list candidates False"
proof (induction nexts arbitrary: candidates pending)
  case (Cons x xs)
  have flip: "i < length cs \<Longrightarrow> \<not> cs ! i \<Longrightarrow> Suc (count_list (cs[i := True]) False) = count_list cs False" for i and cs :: "bool list"
    by (induction cs arbitrary: i) (auto split: nat.splits)
  obtain c p where step: "push_candidate (candidates, pending) x = (c, p)" by fastforce
  then have "length p + count_list c False = length pending + count_list candidates False"
    using flip [of x candidates] by (auto simp: push_candidate_def split: if_splits)
  with Cons.IH [of c p] show ?case by (simp add: step)
qed simp

function spread :: "compiled_op list \<Rightarrow> bool list \<Rightarrow> nat list \<Rightarrow> nat \<Rightarrow> bool list \<times> nat list" where
  "spread ops candidates pending pos =
     (if length pending \<le> pos then (candidates, pending)
      else let (candidates', pending') = foldl push_candidate (candidates, pending) (op_successors (ops ! (pending ! pos)))
           in spread ops candidates' pending' (Suc pos))"
  by pat_completeness auto
termination
proof (relation "measure (\<lambda>(ops, candidates, pending, pos). length pending + count_list candidates False - pos)",
    goal_cases)
  case (2 ops candidates pending pos grown candidates' pending')
  then have grown: "foldl push_candidate (candidates, pending) (op_successors (ops ! (pending ! pos))) =
      (candidates', pending')" by simp
  show ?case
    using push_candidates_measure [of candidates pending "op_successors (ops ! (pending ! pos))", unfolded grown] 2(1) by simp
qed simp

declare spread.simps [simp del]

definition mark_clusters :: "compiled_graph \<Rightarrow> nat list \<Rightarrow> bool list \<Rightarrow> bool list \<times> nat list" where
  "mark_clusters graph pending marks =
     foldl (\<lambda>(marks, ready) oper. let cluster = g_opClusters graph ! oper in
        if \<not> marks ! cluster then (marks[cluster := True], ready @ [cluster]) else (marks, ready))
       (marks, []) pending"

definition start_counts ::
  "compiled_graph \<Rightarrow> bool list \<Rightarrow> nat list \<Rightarrow> nat list \<Rightarrow> nat list \<times> nat list" where
  "start_counts graph marks candidateClusters unresolved =
     foldl (\<lambda>(unresolved, ready) i.
        let dependencies = length (filter (\<lambda>p. marks ! p) (cl_predecessors (g_clusters graph ! i))) in
        (unresolved[i := dependencies], if dependencies = 0 then ready @ [i] else ready))
       (unresolved, []) candidateClusters"

section \<open>Bodies\<close>

record 's exec_state =
  e_ran :: "bool list"
  e_completion :: "nat list"
  e_succeeded :: bool
  e_state :: 's

definition input_changed :: "'s op_callbacks \<Rightarrow> nat \<Rightarrow> value_id \<Rightarrow> 's \<Rightarrow> bool \<times> 's" where
  "input_changed cb i v s = (case cb_inputChanged cb of Some f \<Rightarrow> f i v s | None \<Rightarrow> cb_changed cb v s)"

definition op_needed :: "compiled_graph \<Rightarrow> 's op_callbacks \<Rightarrow> bool list \<Rightarrow> nat \<Rightarrow> 's \<Rightarrow> bool \<times> 's" where
  "op_needed graph cb seeded i s =
     (case cb_inputsChanged cb of
        Some f \<Rightarrow> let (c, s') = f i s in (c \<or> seeded ! i, s')
      | None \<Rightarrow> foldl (\<lambda>(needed, s) v. let (c, s') = input_changed cb i v s in (c \<or> needed, s'))
          (seeded ! i, s) (desc_reads (op_descriptor (g_ops graph ! i))))"

definition op_body ::
  "compiled_graph \<Rightarrow> 's op_callbacks \<Rightarrow> bool list \<Rightarrow> 's exec_state \<Rightarrow> nat \<Rightarrow> 's exec_state" where
  "op_body graph cb seeded e i =
     (if \<not> e_succeeded e then e\<lparr>e_state := cb_skip cb i (e_state e)\<rparr>
      else let (needed, s) = op_needed graph cb seeded i (e_state e) in
        if needed
        then let (ok, s') = cb_run cb i s in
          e\<lparr>e_ran := (e_ran e)[i := True], e_succeeded := ok, e_state := s'\<rparr>
        else e\<lparr>e_state := cb_skip cb i s\<rparr>)"

definition cluster_candidates :: "compiled_graph \<Rightarrow> bool list \<Rightarrow> nat \<Rightarrow> nat list" where
  "cluster_candidates graph candidates cluster =
     filter (\<lambda>oper. candidates ! oper) (cl_members (g_clusters graph ! cluster))"

definition cluster_body ::
  "compiled_graph \<Rightarrow> 's op_callbacks \<Rightarrow> bool list \<Rightarrow> bool list \<Rightarrow> 's exec_state \<Rightarrow> nat \<Rightarrow> nat \<times> 's exec_state" where
  "cluster_body graph cb seeded candidates e cluster =
     foldl (\<lambda>(bodies, e) oper. if candidates ! oper then (bodies + 1, op_body graph cb seeded e oper) else (bodies, e))
       (0, e) (cl_members (g_clusters graph ! cluster))"

definition complete_cluster ::
  "compiled_graph \<Rightarrow> bool list \<Rightarrow> nat \<Rightarrow> nat \<Rightarrow> nat list \<Rightarrow> nat list" where
  "complete_cluster graph candidates cluster start completion =
     snd (foldl (\<lambda>(n, completion) oper. if candidates ! oper then (n + 1, completion[oper := n + 1]) else (n, completion))
       (start, completion) (cl_members (g_clusters graph ! cluster)))"

text \<open>One successor cluster of a finished cluster; its count is positive whenever it is released
  (each cluster edge is counted once and released once), so the decrement does not wrap.\<close>

definition release_cluster :: "bool list \<Rightarrow> nat list \<times> nat list \<Rightarrow> nat \<Rightarrow> nat list \<times> nat list" where
  "release_cluster marks = (\<lambda>(unresolved, ready) next.
     if next < length unresolved \<and> marks ! next
     then (unresolved[next := unresolved ! next - 1], if unresolved ! next = 1 then ready @ [next] else ready)
     else (unresolved, ready))"

lemma release_cluster_measure:
  "sum_list (fst (foldl (release_cluster marks) (unresolved, ready) nexts)) +
     length (snd (foldl (release_cluster marks) (unresolved, ready) nexts))
   \<le> sum_list unresolved + length ready"
proof (induction nexts arbitrary: unresolved ready)
  case (Cons x xs)
  obtain u r where step: "release_cluster marks (unresolved, ready) x = (u, r)" by fastforce
  then have "sum_list u + length r \<le> sum_list unresolved + length ready"
    using elem_le_sum_list [of x unresolved]
    by (auto simp: release_cluster_def sum_list_update split: if_splits)
  with Cons.IH [of u r] show ?case by (simp add: step)
qed simp

text \<open>The serial loop over the growing \<open>ready\<close> list.\<close>

function run_ready ::
  "compiled_graph \<Rightarrow> 's op_callbacks \<Rightarrow> bool list \<Rightarrow> bool list \<Rightarrow> bool list \<Rightarrow>
     nat list \<Rightarrow> nat list \<Rightarrow> nat \<Rightarrow> nat \<Rightarrow> 's exec_state \<Rightarrow> nat list \<times> nat list \<times> 's exec_state" where
  "run_ready graph cb seeded candidates marks unresolved ready pos finished e =
     (if length ready \<le> pos then (unresolved, ready, e)
      else let cluster = ready ! pos;
               (bodies, e1) = cluster_body graph cb seeded candidates e cluster;
               e2 = e1\<lparr>e_completion := complete_cluster graph candidates cluster finished (e_completion e1)\<rparr>;
               (unresolved', ready') = foldl (release_cluster marks) (unresolved, ready)
                  (cl_successors (g_clusters graph ! cluster))
           in run_ready graph cb seeded candidates marks unresolved' ready' (Suc pos) (finished + bodies) e2)"
  by pat_completeness auto
termination
proof (relation "measure (\<lambda>(graph, cb, seeded, candidates, marks, unresolved, ready, pos, finished, e).
      sum_list unresolved + length ready - pos)", goal_cases)
  case (2 graph cb seeded candidates marks unresolved ready pos finished e cluster run bodies e1 e2 released unresolved' ready')
  then have released: "foldl (release_cluster marks) (unresolved, ready) (cl_successors (g_clusters graph ! cluster)) =
      (unresolved', ready')" by simp
  show ?case
    using release_cluster_measure [of marks unresolved ready "cl_successors (g_clusters graph ! cluster)", unfolded released] 2(1)
    by simp
qed simp

declare run_ready.simps [simp del]

section \<open>The executor\<close>

definition skip_others :: "compiled_graph \<Rightarrow> 's op_callbacks \<Rightarrow> bool list \<Rightarrow> 's \<Rightarrow> 's" where
  "skip_others graph cb candidates s =
     foldl (\<lambda>s i. if \<not> candidates ! i then cb_skip cb i s else s) s
       (case cb_skipEffects cb of Some is \<Rightarrow> is | None \<Rightarrow> [0..<length (g_ops graph)])"

definition execute_checks ::
  "compiled_graph \<Rightarrow> nat list \<Rightarrow> 's op_callbacks \<Rightarrow> nat list option \<Rightarrow> exec_error + unit" where
  "execute_checks graph seedOps cb candidateOps =
     (let n = length (g_ops graph) in
      if length (g_opClusters graph) \<noteq> n \<or> (n \<noteq> 0 \<and> length (g_clusters graph) = 0) then Inl NoClusterLowering
      else if \<exists>i \<in> set seedOps. n \<le> i then Inl SeedOutOfRange
      else if \<exists>i \<in> set (case candidateOps of None \<Rightarrow> [] | Some cs \<Rightarrow> cs). n \<le> i then Inl CandidateOutOfRange
      else if \<exists>i \<in> set (g_volatileOps graph). n \<le> i then Inl VolatileOutOfRange
      else if \<exists>i \<in> set (case cb_skipEffects cb of None \<Rightarrow> [] | Some is \<Rightarrow> is). n \<le> i then Inl SkipEffectOutOfRange
      else Inr ())"

text \<open>What both paths prepare before the first cluster starts.\<close>

record 's run_plan =
  rp_seeded :: "bool list"
  rp_candidates :: "bool list"
  rp_pending :: "nat list"
  rp_marks :: "bool list"
  rp_clusters :: "nat list"
  rp_unresolved :: "nat list"
  rp_ready :: "nat list"
  rp_start :: "'s exec_state"

definition plan_run ::
  "compiled_graph \<Rightarrow> value_id list \<Rightarrow> nat list \<Rightarrow> bool \<Rightarrow> 's op_callbacks \<Rightarrow> op_execution \<Rightarrow> op_workspace \<Rightarrow>
     nat list option \<Rightarrow> 's \<Rightarrow> 's run_plan" where
  "plan_run graph changedLeaves seedOps force cb x w candidateOps s =
     (let n = length (g_ops graph); clusterCount = length (g_clusters graph);
          seeded0 = (if force then replicate n True else w_seeded w);
          (seeded, marked, pending0) = seed_all graph changedLeaves seedOps force candidateOps (seeded0, x_candidates x, []);
          (candidates, pending) = spread (g_ops graph) marked pending0 0;
          (marks, found) = mark_clusters graph pending (w_clusterCandidates w);
          candidateClusters = RigExecOpAscending found marks clusterCount;
          unresolved0 = take clusterCount (w_unresolved w) @ replicate (clusterCount - length (w_unresolved w)) 0;
          s1 = skip_others graph cb candidates s;
          (unresolved, ready) = start_counts graph marks candidateClusters unresolved0
      in \<lparr>rp_seeded = seeded, rp_candidates = candidates, rp_pending = pending, rp_marks = marks,
          rp_clusters = candidateClusters, rp_unresolved = unresolved, rp_ready = ready,
          rp_start = \<lparr>e_ran = x_ran x, e_completion = x_completion x, e_succeeded = True, e_state = s1\<rparr>\<rparr>)"

text \<open>What both paths record after the last cluster: \<open>ready\<close> is the workspace's list as the run left it.\<close>

definition finish_run ::
  "compiled_graph \<Rightarrow> op_execution \<Rightarrow> op_workspace \<Rightarrow> 's run_plan \<Rightarrow> nat list \<Rightarrow> nat list \<Rightarrow> 's exec_state \<Rightarrow>
     exec_error option \<times> op_execution \<times> op_workspace \<times> 's" where
  "finish_run graph x w p unresolved ready e =
     (let n = length (g_ops graph);
          touched = RigExecOpAscending (rp_pending p) (rp_candidates p) n;
          executed = length (filter (\<lambda>i. e_ran e ! i) touched)
      in (if e_succeeded e then None else Some OperationFailed,
          x\<lparr>x_candidates := rp_candidates p, x_ran := e_ran e, x_completion := e_completion e,
            x_touched := touched, x_touchedValid := True, x_executed := executed, x_skipped := n - executed\<rparr>,
          w\<lparr>w_seeded := rp_seeded p, w_clusterCandidates := rp_marks p, w_pending := rp_pending p, w_ready := ready,
            w_unresolved := unresolved, w_candidateClusters := rp_clusters p, w_listsValid := True\<rparr>,
          e_state e))"

definition execute_serial ::
  "compiled_graph \<Rightarrow> value_id list \<Rightarrow> nat list \<Rightarrow> bool \<Rightarrow> 's op_callbacks \<Rightarrow> op_execution \<Rightarrow> op_workspace \<Rightarrow>
     nat list option \<Rightarrow> 's \<Rightarrow> exec_error option \<times> op_execution \<times> op_workspace \<times> 's" where
  "execute_serial graph changedLeaves seedOps force cb x w candidateOps s =
     (let p = plan_run graph changedLeaves seedOps force cb x w candidateOps s;
          (unresolved, ready, e) = run_ready graph cb (rp_seeded p) (rp_candidates p) (rp_marks p)
             (rp_unresolved p) (rp_ready p) 0 0 (rp_start p)
      in finish_run graph x w p unresolved ready e)"

text \<open>The whole serial execution: the argument checks, the reset, and the run. The caller's
  workspace is optional; without one a fresh workspace is used and dropped.\<close>

definition fresh_workspace :: op_workspace where
  "fresh_workspace = \<lparr>w_seeded = [], w_clusterCandidates = [], w_pending = [], w_ready = [], w_unresolved = [],
     w_candidateClusters = [], w_listsValid = False, w_verifyReset = False\<rparr>"

definition RigExecExecuteOpGraph ::
  "compiled_graph \<Rightarrow> value_id list \<Rightarrow> nat list \<Rightarrow> bool \<Rightarrow> 's op_callbacks \<Rightarrow> op_execution \<Rightarrow> op_workspace option \<Rightarrow>
     nat list option \<Rightarrow> 's \<Rightarrow> exec_error option \<times> op_execution \<times> op_workspace option \<times> 's" where
  "RigExecExecuteOpGraph graph changedLeaves seedOps force cb out supplied candidateOps s =
     (case execute_checks graph seedOps cb candidateOps of
        Inl e \<Rightarrow> (Some e, out, supplied, s)
      | Inr _ \<Rightarrow>
        let workspace = (case supplied of None \<Rightarrow> fresh_workspace | Some w \<Rightarrow> w);
            (complete, out', workspace') =
              RigExecOpResetExecution (Some out) (Some workspace) (length (g_ops graph)) (length (g_clusters graph));
            x = the out'; w = the workspace'
        in if \<not> complete then (Some ResetMissedEntry, x, (if supplied = None then None else Some w), s)
           else let (err, x', w', s') =
                  execute_serial graph changedLeaves seedOps force cb
                    (x\<lparr>x_touchedValid := False\<rparr>) (w\<lparr>w_listsValid := False\<rparr>) candidateOps s
                in (err, x', (if supplied = None then None else Some w'), s'))"

end
