(* ===== verification/Op_Reset.thy ===== *)
theory Op_Reset
  imports Op_Execute
begin

text \<open>
  The records an execution leaves behind and the reset that uses them: the two strategies of
  \<open>RigExecOpAscending\<close> agree, and a reset driven by a truthful record leaves the same zeroed
  state as a whole reset, so its judge never objects.
\<close>

section \<open>Ascending lists\<close>

text \<open>The contract of \<open>RigExecOpAscending\<close>: the list names every flagged index below the bound.\<close>

definition lists_flags :: "nat list \<Rightarrow> bool list \<Rightarrow> nat \<Rightarrow> bool" where
  "lists_flags listed flags n \<longleftrightarrow> (\<forall>i < n. i < length flags \<longrightarrow> flags ! i \<longrightarrow> i \<in> set listed)"

lemma ascending_spec:
  assumes "lists_flags listed flags n"
  shows "RigExecOpAscending listed flags n = filter (\<lambda>i. flags ! i) [0..<min n (length flags)]"
proof (cases "n \<le> length listed * 16")
  case False
  let ?limit = "min n (length flags)"
  let ?kept = "filter (\<lambda>i. \<not> (?limit \<le> i \<or> \<not> flags ! i)) listed"
  have "set ?kept = set (filter (\<lambda>i. flags ! i) [0..<?limit])"
    using assms by (auto simp: lists_flags_def)
  then have "vec_unique ?kept = vec_unique (filter (\<lambda>i. flags ! i) [0..<?limit])"
    by (rule vec_unique_cong)
  also have "\<dots> = filter (\<lambda>i. flags ! i) [0..<?limit]"
    by (rule vec_unique_id) (auto intro: sorted_wrt_filter)
  finally show ?thesis using False by (simp add: RigExecOpAscending_def Let_def)
qed (simp add: RigExecOpAscending_def Let_def)

section \<open>Records\<close>

text \<open>The record of an execution names every index whose flags or number may be set; that of a
  workspace every seeded operation and every marked cluster.\<close>

definition execution_record :: "op_execution \<Rightarrow> bool" where
  "execution_record x \<longleftrightarrow> (x_touchedValid x \<longrightarrow>
     (\<forall>i < length (x_candidates x). x_candidates x ! i \<longrightarrow> i \<in> set (x_touched x)) \<and>
     (\<forall>i < length (x_ran x). x_ran x ! i \<longrightarrow> i \<in> set (x_touched x)) \<and>
     (\<forall>i < length (x_completion x). x_completion x ! i \<noteq> 0 \<longrightarrow> i \<in> set (x_touched x)))"

definition workspace_record :: "op_workspace \<Rightarrow> bool" where
  "workspace_record w \<longleftrightarrow> (w_listsValid w \<longrightarrow>
     (\<forall>i < length (w_seeded w). w_seeded w ! i \<longrightarrow> i \<in> set (w_pending w)) \<and>
     (\<forall>c < length (w_clusterCandidates w). w_clusterCandidates w ! c \<longrightarrow> c \<in> set (w_candidateClusters w)))"

lemma length_clear_at [simp]: "length (clear_at n z is xs) = length xs"
  unfolding clear_at_def by (induction "is" arbitrary: xs) auto

lemma clear_at_nth:
  "i < length xs \<Longrightarrow> clear_at n z is xs ! i = (if i \<in> set is \<and> i < n then z else xs ! i)"
  unfolding clear_at_def by (induction "is" arbitrary: xs) (auto simp: nth_list_update)

lemma clear_at_all:
  assumes "length xs = n" "\<forall>i < length xs. xs ! i \<noteq> z \<longrightarrow> i \<in> set is"
  shows "clear_at n z is xs = replicate n z"
proof (rule nth_equalityI)
  fix i assume "i < length (clear_at n z is xs)"
  then show "clear_at n z is xs ! i = replicate n z ! i" using assms by (auto simp: clear_at_nth)
qed (simp add: assms)

definition clean_execution :: "nat \<Rightarrow> op_execution \<Rightarrow> bool" where
  "clean_execution n x \<longleftrightarrow> x_candidates x = replicate n False \<and> x_ran x = replicate n False \<and>
     x_completion x = replicate n 0 \<and> x_touched x = [] \<and> x_touchedValid x \<and> x_executed x = 0 \<and> x_skipped x = 0"

definition clean_workspace :: "nat \<Rightarrow> nat \<Rightarrow> op_workspace \<Rightarrow> bool" where
  "clean_workspace n clusters w \<longleftrightarrow> w_seeded w = replicate n False \<and>
     w_clusterCandidates w = replicate clusters False \<and> w_candidateClusters w = []"

lemma reset_execution_clean:
  assumes "execution_record x"
  shows "clean_execution n (snd (reset_execution n x))"
proof -
  have "clear_at n False (x_touched x) (x_candidates x) = replicate n False \<and>
      clear_at n False (x_touched x) (x_ran x) = replicate n False \<and>
      clear_at n 0 (x_touched x) (x_completion x) = replicate n 0"
    if "x_touchedValid x" "length (x_candidates x) = n" "length (x_ran x) = n" "length (x_completion x) = n"
    using assms that unfolding execution_record_def by (intro conjI clear_at_all) auto
  then show ?thesis by (auto simp: reset_execution_def clean_execution_def Let_def)
qed

lemma reset_workspace_clean:
  assumes "workspace_record w"
  shows "clean_workspace n clusters (snd (reset_workspace n clusters w))"
    "w_verifyReset (snd (reset_workspace n clusters w)) = w_verifyReset w"
    "w_pending (snd (reset_workspace n clusters w)) = w_pending w"
proof -
  have "clear_at n False (w_pending w) (w_seeded w) = replicate n False \<and>
      clear_at clusters False (w_candidateClusters w) (w_clusterCandidates w) = replicate clusters False"
    if "w_listsValid w" "length (w_seeded w) = n" "length (w_clusterCandidates w) = clusters"
    using assms that unfolding workspace_record_def by (intro conjI clear_at_all) auto
  then show "clean_workspace n clusters (snd (reset_workspace n clusters w))"
    by (auto simp: reset_workspace_def clean_workspace_def Let_def)
qed (simp_all add: reset_workspace_def Let_def)

lemma zero_flags_clean [simp]: "zero_flags (replicate n False) = (True, replicate n False)"
  by (simp add: zero_flags_def)

lemma zero_numbers_clean [simp]: "zero_numbers (replicate n 0) = (True, replicate n 0)"
  by (simp add: zero_numbers_def)

lemma reset_spec:
  assumes "execution_record x" "workspace_record w"
  obtains x' w' where "RigExecOpResetExecution (Some x) (Some w) n clusters = (True, Some x', Some w')"
    "clean_execution n x'" "clean_workspace n clusters w'"
proof -
  obtain lx x' where rx: "reset_execution n x = (lx, x')" by fastforce
  obtain lw w' where rw: "reset_workspace n clusters w = (lw, w')" by fastforce
  have clean: "clean_execution n x'" "clean_workspace n clusters w'"
    using reset_execution_clean [OF assms(1), of n] reset_workspace_clean(1) [OF assms(2), of n clusters] rx rw
    by simp_all
  have "x'\<lparr>x_candidates := replicate n False, x_ran := replicate n False, x_completion := replicate n 0\<rparr> = x'"
    "w'\<lparr>w_seeded := replicate n False, w_clusterCandidates := replicate clusters False\<rparr> = w'"
    using clean by (simp_all add: clean_execution_def clean_workspace_def)
  then have "RigExecOpResetExecution (Some x) (Some w) n clusters = (True, Some x', Some w')"
    using clean by (simp add: RigExecOpResetExecution_def rx rw clean_execution_def clean_workspace_def)
  then show thesis using clean by (rule that)
qed

end
