(* ===== verification/Op_Components.thy ===== *)
theory Op_Components
  imports Rig_Prelude
begin

text \<open>
  The strongly connected components of the operation graph, as the anonymous-namespace
  helpers of \<open>libs/rigExecGraph/opGraph.cpp\<close> find them: an iterative depth-first search
  that records finish order, then a sweep of the reverse order that collects, over
  predecessor edges, what is not yet visited. A component of more than one member or with
  a self edge is a cycle. \<open>Loop\<close> then names one closed walk inside a component.

  A vector of node indices is a list of naturals, a \<open>vector<char>\<close> of flags a list of
  booleans, and a stack a list whose head is the back of the C++ vector. The lemmas prove
  that the result is exactly the set of cyclic strongly connected components and that the
  loop is a closed walk of real edges.
\<close>

section \<open>The program\<close>

lemma unvisited_decreases:
  assumes "i < length xs" "\<not> xs ! i"
  shows "length (filter Not (xs[i := True])) < length (filter Not xs)"
  using assms
proof (induction xs arbitrary: i)
  case (Cons x xs)
  then show ?case by (cases i) auto
qed simp

text \<open>One run of the inner \<open>while\<close>: the stack holds a node and its next successor slot.
  An index at or past the successor count is the \<open>top.second == size\<close> exit; a successor
  outside the flag vector cannot occur once the compiler has range-checked the edges.\<close>

function dfs_finish :: "nat list list \<Rightarrow> (nat \<times> nat) list \<Rightarrow> bool list \<Rightarrow> nat list \<Rightarrow> bool list \<times> nat list"
where
  "dfs_finish succs [] visited finish = (visited, finish)"
| "dfs_finish succs ((v, i) # stack) visited finish =
     (if length (succs ! v) \<le> i then dfs_finish succs stack visited (finish @ [v])
      else let next = succs ! v ! i in
        if next < length visited \<and> \<not> visited ! next
        then dfs_finish succs ((next, 0) # (v, Suc i) # stack) (visited[next := True]) finish
        else dfs_finish succs ((v, Suc i) # stack) visited finish)"
  by pat_completeness auto

termination
  by (relation "measures [\<lambda>(s, st, vis, f). length (filter Not vis),
        \<lambda>(s, st, vis, f). \<Sum>(v, i) \<leftarrow> st. Suc (length (s ! v) - i)]")
     (auto simp: unvisited_decreases)

definition finish_order :: "nat list list \<Rightarrow> bool list \<times> nat list" where
  "finish_order succs =
     foldl (\<lambda>(visited, finish) start.
              if visited ! start then (visited, finish)
              else dfs_finish succs [(start, 0)] (visited[start := True]) finish)
       (replicate (length succs) False, []) [0..<length succs]"

text \<open>The pushes of one popped node, then the pops of one component.\<close>

definition push_unvisited :: "nat list \<Rightarrow> bool list \<Rightarrow> nat list \<Rightarrow> bool list \<times> nat list" where
  "push_unvisited nexts visited pending =
     foldl (\<lambda>(vis, pend) next.
              if next < length vis \<and> \<not> vis ! next then (vis[next := True], next # pend)
              else (vis, pend)) (visited, pending) nexts"

lemma push_unvisited_simps [simp]:
  "push_unvisited [] vis pend = (vis, pend)"
  "push_unvisited (x # xs) vis pend =
     (if x < length vis \<and> \<not> vis ! x then push_unvisited xs (vis[x := True]) (x # pend)
      else push_unvisited xs vis pend)"
  by (simp_all add: push_unvisited_def)

lemma push_unvisited_measure:
  "push_unvisited nexts vis pend = (vis', pend') \<Longrightarrow>
     length (filter Not vis') < length (filter Not vis) \<or> (vis' = vis \<and> pend' = pend)"
proof (induction nexts arbitrary: vis pend)
  case (Cons x xs)
  show ?case
  proof (cases "x < length vis \<and> \<not> vis ! x")
    case True
    with Cons.IH [of "vis[x := True]" "x # pend"] Cons.prems
      unvisited_decreases [of x vis]
    show ?thesis by fastforce
  next
    case False
    with Cons.prems have "push_unvisited xs vis pend = (vis', pend')" by (auto split: if_splits)
    then show ?thesis by (rule Cons.IH)
  qed
qed simp

function collect_component :: "nat list list \<Rightarrow> nat list \<Rightarrow> bool list \<Rightarrow> nat list \<Rightarrow> bool list \<times> nat list"
where
  "collect_component preds [] visited component = (visited, component)"
| "collect_component preds (at # pending) visited component =
     (let (visited', pending') = push_unvisited (preds ! at) visited pending
      in collect_component preds pending' visited' (component @ [at]))"
  by pat_completeness auto
termination
proof (relation "measures [\<lambda>(p, pend, vis, c). length (filter Not vis), \<lambda>(p, pend, vis, c). length pend]",
    goal_cases)
  case (2 preds at pending visited component x visited' pending')
  then show ?case
    using push_unvisited_measure [of "preds ! at" visited pending visited' pending'] by auto
qed simp

definition cyclic_component :: "nat list list \<Rightarrow> nat list \<Rightarrow> bool" where
  "cyclic_component succs component \<longleftrightarrow>
     1 < length component \<or> hd component \<in> set (succs ! hd component)"

definition Components :: "nat list list \<Rightarrow> nat list list \<Rightarrow> nat list list" where
  "Components succs preds =
     snd (foldl (\<lambda>(visited, result) root.
            if visited ! root then (visited, result)
            else let (visited', component) =
                   collect_component preds [root] (visited[root := True]) []
                 in (visited', if cyclic_component succs component then result @ [component] else result))
       (replicate (length succs) False, []) (rev (snd (finish_order succs))))"

section \<open>Reachability along successor edges\<close>

definition edges :: "nat list list \<Rightarrow> (nat \<times> nat) set" where
  "edges succs = {(u, v). u < length succs \<and> v \<in> set (succs ! u)}"

definition closed_graph :: "nat list list \<Rightarrow> bool" where
  "closed_graph succs \<longleftrightarrow> (\<forall>u < length succs. \<forall>v \<in> set (succs ! u). v < length succs)"

definition reaches :: "nat list list \<Rightarrow> nat \<Rightarrow> nat \<Rightarrow> bool" where
  "reaches succs u v \<longleftrightarrow> (u, v) \<in> (edges succs)\<^sup>*"

definition same_scc :: "nat list list \<Rightarrow> nat \<Rightarrow> nat \<Rightarrow> bool" where
  "same_scc succs u v \<longleftrightarrow> reaches succs u v \<and> reaches succs v u"

lemma reaches_refl [simp]: "reaches succs u u"
  by (simp add: reaches_def)

lemma reaches_trans: "reaches succs u v \<Longrightarrow> reaches succs v w \<Longrightarrow> reaches succs u w"
  by (simp add: reaches_def)

lemma reaches_edge: "u < length succs \<Longrightarrow> v \<in> set (succs ! u) \<Longrightarrow> reaches succs u v"
  by (auto simp: reaches_def edges_def)

lemma reaches_nth: "u < length succs \<Longrightarrow> i < length (succs ! u) \<Longrightarrow> reaches succs u (succs ! u ! i)"
  by (auto intro: reaches_edge)

lemma same_scc_refl [simp]: "same_scc succs u u"
  by (simp add: same_scc_def)

lemma same_scc_sym: "same_scc succs u v \<Longrightarrow> same_scc succs v u"
  by (simp add: same_scc_def)

lemma same_scc_trans: "same_scc succs u v \<Longrightarrow> same_scc succs v w \<Longrightarrow> same_scc succs u w"
  by (auto simp: same_scc_def intro: reaches_trans)

lemma closed_graphD: "closed_graph succs \<Longrightarrow> u < length succs \<Longrightarrow> v \<in> set (succs ! u) \<Longrightarrow> v < length succs"
  by (auto simp: closed_graph_def)

lemma reaches_closed: "reaches succs u v \<Longrightarrow> closed_graph succs \<Longrightarrow> u < length succs \<Longrightarrow> v < length succs"
  unfolding reaches_def by (induction rule: rtrancl_induct) (auto simp: edges_def closed_graph_def)

section \<open>The finish order\<close>

definition marks :: "bool list \<Rightarrow> nat set" where
  "marks vis = {v. v < length vis \<and> vis ! v}"

lemma marks_update: "x < length vis \<Longrightarrow> marks (vis[x := True]) = insert x (marks vis)"
  by (auto simp: marks_def nth_list_update split: if_splits)

lemma marks_replicate [simp]: "marks (replicate n False) = {}"
  by (auto simp: marks_def)

text \<open>
  What the search keeps true of its stack, its flags and its finish list: stacked and
  finished nodes are the visited ones, lower stack entries reach higher ones, every edge
  walked so far leads to a visited node, and a finished node has either everything it
  reaches finished before it or a member of its component that finishes later.
\<close>

definition dfs_settled :: "nat list list \<Rightarrow> nat set \<Rightarrow> nat list \<Rightarrow> bool" where
  "dfs_settled succs open_nodes finish \<longleftrightarrow>
     (\<forall>xs x ys. finish = xs @ x # ys \<longrightarrow>
        (\<forall>w. reaches succs x w \<longrightarrow> w \<in> insert x (set xs)) \<or>
        (\<exists>y \<in> set ys \<union> open_nodes. same_scc succs x y))"

definition dfs_walked :: "nat list list \<Rightarrow> (nat \<times> nat) list \<Rightarrow> nat list \<Rightarrow> nat set \<Rightarrow> bool" where
  "dfs_walked succs stack finish seen \<longleftrightarrow>
     (\<forall>v i. (v, i) \<in> set stack \<longrightarrow> i \<le> length (succs ! v) \<and> (\<forall>j < i. succs ! v ! j \<in> seen)) \<and>
     (\<forall>u \<in> set finish. set (succs ! u) \<subseteq> seen)"

definition dfs_inv :: "nat list list \<Rightarrow> (nat \<times> nat) list \<Rightarrow> bool list \<Rightarrow> nat list \<Rightarrow> bool" where
  "dfs_inv succs stack visited finish \<longleftrightarrow>
     length visited = length succs \<and>
     distinct (map fst stack @ finish) \<and>
     marks visited = fst ` set stack \<union> set finish \<and>
     sorted_wrt (\<lambda>upper lower. reaches succs (fst lower) (fst upper)) stack \<and>
     dfs_walked succs stack finish (marks visited) \<and>
     dfs_settled succs (fst ` set stack) finish"

lemma dfs_invD:
  assumes "dfs_inv succs stack visited finish"
  shows "length visited = length succs" "distinct (map fst stack @ finish)"
    "marks visited = fst ` set stack \<union> set finish"
    "sorted_wrt (\<lambda>upper lower. reaches succs (fst lower) (fst upper)) stack"
    "dfs_walked succs stack finish (marks visited)"
    "dfs_settled succs (fst ` set stack) finish"
  using assms unfolding dfs_inv_def by blast+

lemma walked_slot: "dfs_walked succs stack finish seen \<Longrightarrow> (v, i) \<in> set stack \<Longrightarrow> i \<le> length (succs ! v)"
  and walked_edge: "dfs_walked succs stack finish seen \<Longrightarrow> (v, i) \<in> set stack \<Longrightarrow> j < i \<Longrightarrow> succs ! v ! j \<in> seen"
  and walked_finished: "dfs_walked succs stack finish seen \<Longrightarrow> u \<in> set finish \<Longrightarrow> set (succs ! u) \<subseteq> seen"
  by (auto simp: dfs_walked_def)

lemma walked_pop:
  "dfs_walked succs ((v, i) # stack) finish seen \<Longrightarrow> set (succs ! v) \<subseteq> seen \<Longrightarrow> dfs_walked succs stack (finish @ [v]) seen"
  by (auto simp: dfs_walked_def)

lemma walked_advance:
  "dfs_walked succs ((v, i) # stack) finish seen \<Longrightarrow> i < length (succs ! v) \<Longrightarrow> succs ! v ! i \<in> seen \<Longrightarrow>
     dfs_walked succs ((v, Suc i) # stack) finish seen"
  by (auto simp: dfs_walked_def less_Suc_eq)

lemma walked_push: "dfs_walked succs stack finish seen \<Longrightarrow> dfs_walked succs ((w, 0) # stack) finish seen"
  by (auto simp: dfs_walked_def)

lemma walked_mono: "dfs_walked succs stack finish seen \<Longrightarrow> seen \<subseteq> seen' \<Longrightarrow> dfs_walked succs stack finish seen'"
  by (fastforce simp: dfs_walked_def)

lemma marks_less: "v \<in> marks vis \<Longrightarrow> v < length vis"
  by (simp add: marks_def)

lemma dfs_settled_snoc:
  assumes old: "dfs_settled succs (insert v open_nodes) finish"
    and new: "(\<forall>w. reaches succs v w \<longrightarrow> w \<in> insert v (set finish)) \<or> (\<exists>y \<in> open_nodes. same_scc succs v y)"
  shows "dfs_settled succs open_nodes (finish @ [v])"
  unfolding dfs_settled_def
proof (intro allI impI)
  fix xs x ys
  assume split: "finish @ [v] = xs @ x # ys"
  show "(\<forall>w. reaches succs x w \<longrightarrow> w \<in> insert x (set xs)) \<or> (\<exists>y \<in> set ys \<union> open_nodes. same_scc succs x y)"
  proof (cases ys rule: rev_cases)
    case Nil
    with split have "xs = finish" "x = v" by auto
    with new Nil show ?thesis by auto
  next
    case (snoc zs z)
    with split have "finish = xs @ x # zs" "z = v" by (simp_all flip: append_Cons append_assoc)
    with old snoc show ?thesis unfolding dfs_settled_def by fastforce
  qed
qed

lemma dfs_settled_mono: "dfs_settled succs A fin \<Longrightarrow> A \<subseteq> B \<Longrightarrow> dfs_settled succs B fin"
  unfolding dfs_settled_def by blast

lemma dfs_inv_pop:
  assumes inv: "dfs_inv succs ((v, i) # stack) visited finish" and closed: "closed_graph succs"
    and exhausted: "length (succs ! v) \<le> i"
  shows "dfs_inv succs stack visited (finish @ [v])"
proof -
  note I = dfs_invD [OF inv]
  have v: "v < length succs"
    using I(1,3) by (auto dest!: marks_less simp: set_eq_iff)
  have i: "i = length (succs ! v)" using walked_slot [OF I(5), of v i] exhausted by simp
  have succ_v: "set (succs ! v) \<subseteq> marks visited"
    using walked_edge [OF I(5), of v i] i by (auto simp: in_set_conv_nth)
  have below: "reaches succs w v" if "w \<in> fst ` set stack" for w
    using I(4) that by auto
  have "(\<forall>w. reaches succs v w \<longrightarrow> w \<in> insert v (set finish)) \<or> (\<exists>y \<in> fst ` set stack. same_scc succs v y)"
  proof (rule disjCI)
    assume none: "\<not> (\<exists>y \<in> fst ` set stack. same_scc succs v y)"
    show "\<forall>w. reaches succs v w \<longrightarrow> w \<in> insert v (set finish)"
    proof (intro allI impI)
      fix w assume "reaches succs v w"
      then have "(v, w) \<in> (edges succs)\<^sup>*" by (simp add: reaches_def)
      then show "w \<in> insert v (set finish)"
      proof (induction rule: rtrancl_induct)
        case (step w w')
        have reach: "reaches succs v w'" using step.hyps by (simp add: reaches_def)
        have "w' \<in> marks visited"
          using step succ_v walked_finished [OF I(5)] by (auto simp: edges_def)
        moreover have "w' \<notin> fst ` set stack"
          using none reach below by (auto simp: same_scc_def)
        ultimately show ?case using I(3) by auto
      qed simp
    qed
  qed
  then have "dfs_settled succs (fst ` set stack) (finish @ [v])"
    using I(6) by (intro dfs_settled_snoc) auto
  then show ?thesis
    using I(1-4) walked_pop [OF I(5) succ_v] unfolding dfs_inv_def by auto
qed

lemma dfs_inv_push:
  assumes inv: "dfs_inv succs ((v, i) # stack) visited finish" and closed: "closed_graph succs"
    and more: "i < length (succs ! v)" and fresh: "\<not> visited ! (succs ! v ! i)"
  shows "dfs_inv succs ((succs ! v ! i, 0) # (v, Suc i) # stack) (visited[succs ! v ! i := True]) finish"
proof -
  note I = dfs_invD [OF inv]
  let ?next = "succs ! v ! i"
  have v: "v < length succs"
    using I(1,3) by (auto dest!: marks_less simp: set_eq_iff)
  have in_range: "?next < length visited" using closed v more I(1) by (auto simp: closed_graph_def)
  have marks': "marks (visited[?next := True]) = insert ?next (marks visited)"
    using in_range by (rule marks_update)
  have new: "?next \<notin> marks visited" using fresh by (simp add: marks_def)
  have edge: "reaches succs v ?next" using v more by (rule reaches_nth)
  have "dfs_walked succs ((?next, 0) # (v, Suc i) # stack) finish (marks (visited[?next := True]))"
    unfolding marks' by (intro walked_push walked_advance walked_mono [OF I(5)] more) auto
  moreover have "dfs_settled succs (fst ` set ((?next, 0) # (v, Suc i) # stack)) finish"
    using I(6) by (rule dfs_settled_mono) auto
  moreover have "sorted_wrt (\<lambda>upper lower. reaches succs (fst lower) (fst upper))
      ((?next, 0) # (v, Suc i) # stack)"
    using I(4) edge by (auto intro: reaches_trans)
  ultimately show ?thesis
    using I(1-3) new unfolding dfs_inv_def marks' by auto
qed

lemma dfs_inv_skip:
  assumes inv: "dfs_inv succs ((v, i) # stack) visited finish"
    and more: "i < length (succs ! v)" and seen: "succs ! v ! i \<in> marks visited"
  shows "dfs_inv succs ((v, Suc i) # stack) visited finish"
proof -
  note I = dfs_invD [OF inv]
  show ?thesis
    using I walked_advance [OF I(5) more seen] unfolding dfs_inv_def by auto
qed

lemma dfs_finish_inv:
  "closed_graph succs \<Longrightarrow> dfs_inv succs stack visited finish \<Longrightarrow>
     dfs_finish succs stack visited finish = (visited', finish') \<Longrightarrow>
     dfs_inv succs [] visited' finish' \<and> marks visited \<subseteq> marks visited'"
proof (induction succs stack visited finish rule: dfs_finish.induct)
  case (2 succs v i stack visited finish)
  note I = dfs_invD [OF "2.prems"(2)]
  let ?next = "succs ! v ! i"
  show ?case
  proof (cases "length (succs ! v) \<le> i")
    case True
    with "2.IH"(1) "2.prems" dfs_inv_pop show ?thesis by auto
  next
    case False
    then have more: "i < length (succs ! v)" by simp
    show ?thesis
    proof (cases "?next < length visited \<and> \<not> visited ! ?next")
      case True
      then have "marks visited \<subseteq> marks (visited[?next := True])"
        by (auto simp: marks_update)
      with "2.IH"(2) [OF False refl True "2.prems"(1) dfs_inv_push [OF "2.prems"(2,1) more]] True "2.prems"(3) more
      show ?thesis by (auto simp: Let_def)
    next
      case seen: False
      have v: "v < length succs"
        using I(1,3) by (auto dest!: marks_less simp: set_eq_iff)
      have "?next < length succs" using "2.prems"(1) v more by (auto simp: closed_graph_def)
      with seen I(1) have "?next \<in> marks visited" by (auto simp: marks_def)
      with "2.IH"(3) [OF False refl seen "2.prems"(1)] dfs_inv_skip [OF "2.prems"(2) more] "2.prems"(3) seen more
      show ?thesis by (auto simp: Let_def)
    qed
  qed
qed simp

lemma dfs_inv_start:
  "dfs_inv succs [] visited finish \<Longrightarrow> start < length succs \<Longrightarrow> \<not> visited ! start \<Longrightarrow>
     dfs_inv succs [(start, 0)] (visited[start := True]) finish"
  unfolding dfs_inv_def
  by (auto simp: marks_update dfs_walked_def intro: dfs_settled_mono) (auto simp: marks_def)

abbreviation finish_step :: "nat list list \<Rightarrow> bool list \<times> nat list \<Rightarrow> nat \<Rightarrow> bool list \<times> nat list" where
  "finish_step succs \<equiv> (\<lambda>(visited, finish) start.
      if visited ! start then (visited, finish)
      else dfs_finish succs [(start, 0)] (visited[start := True]) finish)"

lemma finish_fold:
  assumes closed: "closed_graph succs"
  shows "m \<le> length succs \<Longrightarrow>
     foldl (finish_step succs) (replicate (length succs) False, []) [0..<m] = (visited, finish) \<Longrightarrow>
     dfs_inv succs [] visited finish \<and> {..<m} \<subseteq> marks visited"
proof (induction m arbitrary: visited finish)
  case 0
  then show ?case by (auto simp: dfs_inv_def dfs_walked_def dfs_settled_def)
next
  case (Suc m)
  obtain vis fin where prev: "foldl (finish_step succs) (replicate (length succs) False, []) [0..<m] = (vis, fin)"
    by fastforce
  have IH: "dfs_inv succs [] vis fin" "{..<m} \<subseteq> marks vis" using Suc.IH prev Suc.prems by auto
  show ?case
  proof (cases "vis ! m")
    case True
    with Suc.prems prev IH have "m \<in> marks vis" by (auto simp: marks_def dfs_inv_def)
    with True Suc.prems prev IH show ?thesis by (auto simp: lessThan_Suc)
  next
    case False
    have inv: "dfs_inv succs [(m, 0)] (vis[m := True]) fin"
      using IH(1) False Suc.prems by (intro dfs_inv_start) auto
    have "dfs_inv succs [] visited finish \<and> marks (vis[m := True]) \<subseteq> marks visited"
      using dfs_finish_inv [OF closed inv] False Suc.prems prev by simp
    moreover have "marks (vis[m := True]) = insert m (marks vis)"
      using IH(1) Suc.prems by (auto simp: marks_update dfs_inv_def)
    ultimately show ?thesis using IH(2) by (auto simp: lessThan_Suc)
  qed
qed

lemma finish_order_correct:
  assumes "closed_graph succs"
  shows "set (snd (finish_order succs)) = {..<length succs}"
    and "distinct (snd (finish_order succs))"
    and "dfs_settled succs {} (snd (finish_order succs))"
proof -
  obtain visited finish where r: "finish_order succs = (visited, finish)" by fastforce
  then have inv: "dfs_inv succs [] visited finish" "{..<length succs} \<subseteq> marks visited"
    using finish_fold [OF assms order_refl] by (auto simp: finish_order_def)
  note I = dfs_invD [OF inv(1)]
  show "set (snd (finish_order succs)) = {..<length succs}"
  proof -
    have "marks visited \<subseteq> {..<length succs}" using I(1) by (auto dest: marks_less)
    then show ?thesis using inv(2) I(3) r by auto
  qed
  show "distinct (snd (finish_order succs))" "dfs_settled succs {} (snd (finish_order succs))"
    using I r by auto
qed

text \<open>A node outside a union of components that reaches the last unvisited node of the finish
  order lies in that node's component.\<close>

lemma finish_root:
  assumes dfs_settled: "dfs_settled succs {} finish" and distinct: "distinct finish"
    and split: "finish = older @ root # newer"
    and newer: "set newer \<subseteq> visited"
    and union: "\<And>u v. u \<in> visited \<Longrightarrow> same_scc succs u v \<Longrightarrow> v \<in> visited"
    and w: "w \<in> set finish" "w \<notin> visited" "reaches succs w root"
  shows "reaches succs root w"
proof -
  have "\<exists>x \<in> set finish. same_scc succs w x" using w(1) by (auto intro: same_scc_refl)
  then obtain xs x ys where x: "finish = xs @ x # ys" "same_scc succs w x"
    and last: "\<And>y. y \<in> set ys \<Longrightarrow> \<not> same_scc succs w y"
    by (metis split_list_last_prop)
  have "\<not> (\<exists>y \<in> set ys \<union> {}. same_scc succs x y)"
    using last x(2) by (auto dest: same_scc_trans)
  with dfs_settled x(1) have before: "\<And>v. reaches succs x v \<Longrightarrow> v \<in> insert x (set xs)"
    unfolding dfs_settled_def by blast
  have "reaches succs x root"
    using x(2) w(3) by (auto simp: same_scc_def intro: reaches_trans)
  then have "root = x \<or> root \<in> set xs" using before by auto
  moreover have "root \<notin> set xs"
  proof
    assume "root \<in> set xs"
    then obtain a b where "xs = a @ root # b" by (auto simp: in_set_conv_decomp)
    with x(1) split distinct have "newer = b @ x # ys"
      by (metis append_Cons append_assoc append_Cons_eq_iff distinct_append in_set_conv_decomp
          not_distinct_conv_prefix distinct.simps(2) disjoint_insert(1) list.simps(15))
    then have "x \<in> visited" using newer by auto
    with union x(2) w(2) show False by (auto dest: same_scc_sym)
  qed
  ultimately show ?thesis using x(2) by (simp add: same_scc_def)
qed

section \<open>Collecting one component\<close>

definition mutual_edges :: "nat list list \<Rightarrow> nat list list \<Rightarrow> bool" where
  "mutual_edges succs preds \<longleftrightarrow> length preds = length succs \<and>
     (\<forall>u < length succs. \<forall>v < length succs. v \<in> set (succs ! u) \<longleftrightarrow> u \<in> set (preds ! v)) \<and>
     (\<forall>v < length succs. \<forall>u \<in> set (preds ! v). u < length succs)"

lemma push_unvisited_spec:
  assumes "push_unvisited nexts vis pend = (vis', pend')" "\<forall>x \<in> set nexts. x < length vis"
    "distinct pend" "set pend \<subseteq> marks vis"
  shows "length vis' = length vis \<and> marks vis' = marks vis \<union> set nexts \<and> distinct pend' \<and>
     set pend' = set pend \<union> (set nexts - marks vis)"
  using assms
proof (induction nexts arbitrary: vis pend)
  case (Cons x xs)
  show ?case
  proof (cases "vis ! x")
    case True
    with Cons.prems have "x \<in> marks vis" by (simp add: marks_def)
    with True Cons.IH [of vis pend] Cons.prems show ?thesis by auto
  next
    case False
    with Cons.prems have new: "x < length vis" "x \<notin> marks vis" by (auto simp: marks_def)
    then have "distinct (x # pend)" "set (x # pend) \<subseteq> marks (vis[x := True])"
      using Cons.prems by (auto simp: marks_update)
    with False new Cons.IH [of "vis[x := True]" "x # pend"] Cons.prems show ?thesis
      by (auto simp: marks_update)
  qed
qed simp

lemma collect_component_prefix:
  "\<exists>rest. snd (collect_component preds pending vis part) = part @ rest"
proof (induction preds pending vis part rule: collect_component.induct)
  case (2 preds at pending visited component)
  obtain vis' pend' where "push_unvisited (preds ! at) visited pending = (vis', pend')" by fastforce
  with "2.IH" [OF this [symmetric]] show ?case by fastforce
qed simp

lemma collect_component_head:
  "snd (collect_component preds [root] vis []) \<noteq> [] \<and>
     hd (snd (collect_component preds [root] vis [])) = root"
proof -
  obtain vis' pend' where "push_unvisited (preds ! root) vis [] = (vis', pend')" by fastforce
  then show ?thesis
    using collect_component_prefix [of preds pend' vis' "[root]"] by auto
qed

lemma collect_component_spec:
  assumes "mutual_edges succs preds" "closed_graph succs"
    and "root < length succs" "root \<notin> base"
    and "\<And>w. w < length succs \<Longrightarrow> w \<notin> base \<Longrightarrow> reaches succs w root \<Longrightarrow> reaches succs root w"
    and "collect_component preds pending visited component = (visited', component')"
    and "length visited = length succs" "distinct (component @ pending)"
    and "marks visited = base \<union> set component \<union> set pending" "set pending \<inter> base = {}"
    and "set component \<inter> base = {}"
    and "set component \<union> set pending \<subseteq> {w. w < length succs \<and> same_scc succs root w}"
    and "\<forall>c \<in> set component. set (preds ! c) \<subseteq> marks visited"
  shows "length visited' = length succs \<and> distinct component' \<and>
     marks visited' = base \<union> set component' \<and> set component' \<inter> base = {} \<and>
     set component' \<subseteq> {w. w < length succs \<and> same_scc succs root w} \<and>
     (\<forall>c \<in> set component'. set (preds ! c) \<subseteq> marks visited')"
  using assms
proof (induction preds pending visited component rule: collect_component.induct)
  case (2 preds at pending visited component)
  note prems = "2.prems"
  obtain vis' pend' where push: "push_unvisited (preds ! at) visited pending = (vis', pend')" by fastforce
  have at: "at < length succs" "same_scc succs root at" "at \<notin> base" "at \<notin> set pending" "at \<in> marks visited"
    using prems(8,9,10,12) by auto
  have in_range: "\<forall>x \<in> set (preds ! at). x < length visited"
    using prems(1,7) at(1) by (auto simp: mutual_edges_def)
  have pend: "distinct pending" "set pending \<subseteq> marks visited" using prems(8,9) by auto
  note P = push_unvisited_spec [OF push in_range pend]
  have found: "w < length succs \<and> same_scc succs root w" if "w \<in> set (preds ! at)" "w \<notin> marks visited" for w
  proof -
    have w: "w < length succs" using in_range that(1) prems(7) by auto
    have "at \<in> set (succs ! w)" using prems(1) w at(1) that(1) by (auto simp: mutual_edges_def)
    then have "reaches succs w at" using w by (intro reaches_edge)
    moreover have "reaches succs at root" using at(2) by (simp add: same_scc_def)
    ultimately have "reaches succs w root" by (rule reaches_trans)
    moreover have "w \<notin> base" using that(2) prems(9) by auto
    ultimately show ?thesis using w prems(5) by (auto simp: same_scc_def)
  qed
  have run: "collect_component preds pend' vis' (component @ [at]) = (visited', component')"
    using prems(6) push by simp
  have len: "length vis' = length succs" using P prems(7) by simp
  have off: "set (component @ [at]) \<inter> base = {}" using prems(11) at(3) by auto
  have "distinct ((component @ [at]) @ pend')"
    using prems(8,9) P by auto
  moreover have "marks vis' = base \<union> set (component @ [at]) \<union> set pend'"
    using prems(9) P by auto
  moreover have "set pend' \<inter> base = {}" using prems(9,10) P by auto
  moreover have "set (component @ [at]) \<union> set pend' \<subseteq> {w. w < length succs \<and> same_scc succs root w}"
    using prems(12) P found at by auto
  moreover have "\<forall>c \<in> set (component @ [at]). set (preds ! c) \<subseteq> marks vis'"
    using prems(13) P by auto
  ultimately show ?case
    by (intro "2.IH" [OF refl push [symmetric] prems(1-5) run len _ _ _ off])
qed auto

definition scc_union :: "nat list list \<Rightarrow> nat set \<Rightarrow> bool" where
  "scc_union succs nodes \<longleftrightarrow> (\<forall>u \<in> nodes. \<forall>v. same_scc succs u v \<longrightarrow> v \<in> nodes)"

lemma component_is_scc:
  assumes "mutual_edges succs preds" "closed_graph succs" "length visited = length succs"
    and root: "root < length succs" "root \<notin> marks visited"
    and returns: "\<And>w. w < length succs \<Longrightarrow> w \<notin> marks visited \<Longrightarrow> reaches succs w root \<Longrightarrow> reaches succs root w"
    and union: "scc_union succs (marks visited)"
    and run: "collect_component preds [root] (visited[root := True]) [] = (visited', component)"
  shows "length visited' = length succs" "distinct component" "component \<noteq> []" "hd component = root"
    "set component = {w. w < length succs \<and> same_scc succs root w}"
    "marks visited' = marks visited \<union> set component" "set component \<inter> marks visited = {}"
proof -
  have spec: "length visited' = length succs \<and> distinct component \<and>
     marks visited' = marks visited \<union> set component \<and> set component \<inter> marks visited = {} \<and>
     set component \<subseteq> {w. w < length succs \<and> same_scc succs root w} \<and>
     (\<forall>c \<in> set component. set (preds ! c) \<subseteq> marks visited')"
    using assms by (intro collect_component_spec [OF assms(1,2) root returns run]) (auto simp: marks_update)
  have head: "component \<noteq> []" "hd component = root"
    using collect_component_head [of preds root "visited[root := True]"] run by auto
  have all: "w \<in> set component" if "same_scc succs root w" "w < length succs" for w
  proof -
    have "(w, root) \<in> (edges succs)\<^sup>*" using that by (simp add: same_scc_def reaches_def)
    moreover have "reaches succs root w" using that by (simp add: same_scc_def)
    ultimately show ?thesis
    proof (induction rule: converse_rtrancl_induct)
      case base
      then show ?case using head by (metis hd_in_set)
    next
      case (step x y)
      have xy: "x < length succs" "y \<in> set (succs ! x)" "y < length succs"
        using step.hyps(1) assms(2) by (auto simp: edges_def closed_graph_def)
      have "reaches succs root y" using step.prems xy by (blast intro: reaches_trans reaches_edge)
      then have "y \<in> set component" by (rule step.IH)
      moreover have "x \<in> set (preds ! y)" using assms(1) xy by (auto simp: mutual_edges_def)
      ultimately have "x \<in> marks visited \<union> set component" using spec by blast
      moreover have "x \<notin> marks visited"
      proof
        assume x: "x \<in> marks visited"
        have "reaches succs y root" using step.hyps(2) by (simp add: reaches_def)
        then have "same_scc succs x root"
          using step.prems xy by (auto simp: same_scc_def intro: reaches_trans reaches_edge)
        with union x root show False by (auto simp: scc_union_def)
      qed
      ultimately show ?case by auto
    qed
  qed
  show "set component = {w. w < length succs \<and> same_scc succs root w}"
    using spec all by auto
  show "length visited' = length succs" "distinct component" "component \<noteq> []" "hd component = root"
    "marks visited' = marks visited \<union> set component" "set component \<inter> marks visited = {}"
    using spec head by blast+
qed

section \<open>The components are the cyclic strongly connected components\<close>

definition on_cycle :: "nat list list \<Rightarrow> nat \<Rightarrow> bool" where
  "on_cycle succs v \<longleftrightarrow> (v, v) \<in> (edges succs)\<^sup>+"

lemma on_cycleE:
  assumes "on_cycle succs v"
  obtains w where "v < length succs" "w \<in> set (succs ! v)" "reaches succs w v"
  using assms unfolding on_cycle_def reaches_def by (auto dest!: tranclD simp: edges_def)

lemma on_cycleI: "v < length succs \<Longrightarrow> w \<in> set (succs ! v) \<Longrightarrow> reaches succs w v \<Longrightarrow> on_cycle succs v"
  unfolding on_cycle_def reaches_def
  by (rule rtrancl_into_trancl2 [of _ w]) (simp_all add: edges_def)

lemma on_cycle_scc:
  assumes "same_scc succs u v" "u \<noteq> v"
  shows "on_cycle succs u"
proof -
  have "(u, v) \<in> (edges succs)\<^sup>+" "(v, u) \<in> (edges succs)\<^sup>*"
    using assms by (auto simp: same_scc_def reaches_def rtrancl_eq_or_trancl)
  then show ?thesis by (simp add: on_cycle_def)
qed

lemma on_cycle_same_scc: "same_scc succs u v \<Longrightarrow> on_cycle succs u \<longleftrightarrow> on_cycle succs v"
  by (metis on_cycle_scc same_scc_sym)

lemma cyclic_component_iff:
  assumes "closed_graph succs" "distinct component" "component \<noteq> []"
    and "set component = {w. w < length succs \<and> same_scc succs (hd component) w}"
  shows "cyclic_component succs component \<longleftrightarrow> on_cycle succs (hd component)"
proof
  let ?r = "hd component"
  have r: "?r < length succs" using assms(3,4) by (metis (mono_tags, lifting) hd_in_set mem_Collect_eq)
  assume "cyclic_component succs component"
  then show "on_cycle succs ?r" unfolding cyclic_component_def
  proof
    assume "1 < length component"
    then obtain x y rest where "component = x # y # rest"
      by (cases component; cases "tl component") auto
    with assms have "same_scc succs ?r y" "?r \<noteq> y" by auto
    then show ?thesis by (rule on_cycle_scc)
  next
    assume "?r \<in> set (succs ! ?r)"
    with r show ?thesis by (auto intro: on_cycleI)
  qed
next
  let ?r = "hd component"
  assume "on_cycle succs ?r"
  then obtain w where w: "?r < length succs" "w \<in> set (succs ! ?r)" "reaches succs w ?r"
    by (rule on_cycleE)
  show "cyclic_component succs component"
  proof (cases "w = ?r")
    case True
    with w show ?thesis by (simp add: cyclic_component_def)
  next
    case False
    have "w \<in> set component"
      using w assms(1,4) by (auto simp: same_scc_def closed_graph_def intro: reaches_edge)
    with False assms(3) have "1 < length component"
      by (cases component; cases "tl component") auto
    then show ?thesis by (simp add: cyclic_component_def)
  qed
qed

definition is_cyclic_scc :: "nat list list \<Rightarrow> nat list \<Rightarrow> bool" where
  "is_cyclic_scc succs component \<longleftrightarrow> distinct component \<and> component \<noteq> [] \<and>
     (\<forall>u \<in> set component. u < length succs \<and> on_cycle succs u \<and>
        set component = {w. w < length succs \<and> same_scc succs u w})"

abbreviation component_step :: "nat list list \<Rightarrow> nat list list \<Rightarrow> bool list \<times> nat list list \<Rightarrow> nat \<Rightarrow> bool list \<times> nat list list" where
  "component_step succs preds \<equiv> (\<lambda>(visited, result) root.
      if visited ! root then (visited, result)
      else let (visited', component) = collect_component preds [root] (visited[root := True]) []
           in (visited', if cyclic_component succs component then result @ [component] else result))"

definition components_inv :: "nat list list \<Rightarrow> nat set \<Rightarrow> bool list \<times> nat list list \<Rightarrow> bool" where
  "components_inv succs processed = (\<lambda>(visited, result).
     length visited = length succs \<and> scc_union succs (marks visited) \<and> processed \<subseteq> marks visited \<and>
     (\<forall>c \<in> set result. is_cyclic_scc succs c \<and> set c \<subseteq> marks visited) \<and>
     (\<forall>v \<in> marks visited. on_cycle succs v \<longrightarrow> (\<exists>c \<in> set result. v \<in> set c)) \<and>
     sorted_wrt (\<lambda>a b. set a \<inter> set b = {}) result)"

lemma component_step_inv:
  assumes graph: "mutual_edges succs preds" "closed_graph succs"
    and order: "dfs_settled succs {} finish" "distinct finish" "set finish = {..<length succs}"
    and split: "finish = older @ root # newer"
    and inv: "components_inv succs (set newer) (visited, result)"
  shows "components_inv succs (insert root (set newer)) (component_step succs preds (visited, result) root)"
proof (cases "visited ! root")
  case True
  have "root < length succs" using order(3) split by auto
  with True inv have "root \<in> marks visited" by (auto simp: components_inv_def marks_def)
  with True inv show ?thesis by (auto simp: components_inv_def)
next
  case False
  have len: "length visited = length succs" and union: "scc_union succs (marks visited)"
    and newer: "set newer \<subseteq> marks visited"
    using inv by (auto simp: components_inv_def)
  have root: "root < length succs" "root \<notin> marks visited" using order(3) split False by (auto simp: marks_def)
  have returns: "reaches succs root w"
    if "w < length succs" "w \<notin> marks visited" "reaches succs w root" for w
    using finish_root [OF order(1,2) split newer, of w] union that order(3)
    by (auto simp: scc_union_def)
  obtain visited' component where run:
    "collect_component preds [root] (visited[root := True]) [] = (visited', component)" by fastforce
  have union': "\<And>u v. u \<in> marks visited \<Longrightarrow> same_scc succs u v \<Longrightarrow> v \<in> marks visited"
    using union by (auto simp: scc_union_def)
  note C = component_is_scc [OF graph len root returns union run]
  have scc: "set component = {w. w < length succs \<and> same_scc succs root w}" by (rule C(5))
  have each: "set component = {w. w < length succs \<and> same_scc succs u w}" if "u \<in> set component" for u
    using that scc by (auto intro: same_scc_trans same_scc_sym)
  have cyc: "cyclic_component succs component \<longleftrightarrow> on_cycle succs root"
    using cyclic_component_iff [OF graph(2) C(2,3)] C(4,5) by simp
  have is_cyc: "is_cyclic_scc succs component" if "on_cycle succs root"
    unfolding is_cyclic_scc_def using C(2,3) each scc that on_cycle_same_scc by auto
  have marks': "marks visited' = marks visited \<union> set component" by (rule C(6))
  have union'': "scc_union succs (marks visited')"
    unfolding scc_union_def marks'
  proof (intro ballI allI impI)
    fix u v assume u: "u \<in> marks visited \<union> set component" and uv: "same_scc succs u v"
    show "v \<in> marks visited \<union> set component"
    proof (cases "u \<in> set component")
      case True
      then have "same_scc succs root v" using scc uv by (auto intro: same_scc_trans)
      moreover from this have "v < length succs"
        using reaches_closed [OF _ graph(2) root(1)] by (simp add: same_scc_def)
      ultimately show ?thesis using scc by auto
    qed (use u uv union' in blast)
  qed
  have root': "root \<in> set component" using C(3,4) hd_in_set by force
  let ?result = "if cyclic_component succs component then result @ [component] else result"
  have R: "\<forall>c \<in> set result. is_cyclic_scc succs c \<and> set c \<subseteq> marks visited"
    "\<forall>v \<in> marks visited. on_cycle succs v \<longrightarrow> (\<exists>c \<in> set result. v \<in> set c)"
    "sorted_wrt (\<lambda>a b. set a \<inter> set b = {}) result"
    using inv by (simp_all add: components_inv_def)
  have "\<forall>c \<in> set ?result. is_cyclic_scc succs c \<and> set c \<subseteq> marks visited'"
    using R(1) cyc is_cyc by (auto simp: marks')
  moreover have "\<forall>v \<in> marks visited'. on_cycle succs v \<longrightarrow> (\<exists>c \<in> set ?result. v \<in> set c)"
  proof (intro ballI impI)
    fix v assume v: "v \<in> marks visited'" "on_cycle succs v"
    show "\<exists>c \<in> set ?result. v \<in> set c"
    proof (cases "v \<in> set component")
      case True
      then have "on_cycle succs root" using v(2) scc on_cycle_same_scc by auto
      with True cyc show ?thesis by auto
    qed (use v R(2) marks' in auto)
  qed
  moreover have "sorted_wrt (\<lambda>a b. set a \<inter> set b = {}) ?result"
    using R(1,3) C(7) by (auto simp: sorted_wrt_append)
  ultimately have "components_inv succs (insert root (set newer)) (visited', ?result)"
    using C(1) union'' newer root' by (auto simp: components_inv_def marks')
  then show ?thesis using False run by simp
qed

lemma components_fold:
  assumes graph: "mutual_edges succs preds" "closed_graph succs"
    and order: "dfs_settled succs {} finish" "distinct finish" "set finish = {..<length succs}"
  shows "finish = older @ newer \<Longrightarrow> components_inv succs (set newer)
     (foldl (component_step succs preds) (replicate (length succs) False, []) (rev newer))"
proof (induction newer arbitrary: older)
  case Nil
  show ?case by (simp add: components_inv_def scc_union_def)
next
  case (Cons root newer)
  obtain visited result where prev:
    "foldl (component_step succs preds) (replicate (length succs) False, []) (rev newer) = (visited, result)"
    by fastforce
  have "components_inv succs (set newer) (visited, result)"
    using Cons.IH [of "older @ [root]"] Cons.prems prev by simp
  from component_step_inv [OF graph order Cons.prems this] prev show ?case by simp
qed

lemma Components_inv:
  assumes "mutual_edges succs preds" "closed_graph succs"
  shows "\<exists>visited. components_inv succs {..<length succs} (visited, Components succs preds)"
proof -
  note F = finish_order_correct [OF assms(2)]
  have "components_inv succs (set (snd (finish_order succs)))
     (foldl (component_step succs preds) (replicate (length succs) False, []) (rev (snd (finish_order succs))))"
    using components_fold [OF assms F(3,2,1), of "[]"] by simp
  then show ?thesis unfolding F(1) Components_def
    by (intro exI [where x = "fst (foldl (component_step succs preds) (replicate (length succs) False, [])
        (rev (snd (finish_order succs))))"]) simp
qed

lemma Components_scc:
  assumes "mutual_edges succs preds" "closed_graph succs" "component \<in> set (Components succs preds)"
  shows "is_cyclic_scc succs component"
  using Components_inv [OF assms(1,2)] assms(3) by (auto simp: components_inv_def)

lemma Components_cover:
  assumes "mutual_edges succs preds" "closed_graph succs"
  shows "(\<exists>component \<in> set (Components succs preds). v \<in> set component) \<longleftrightarrow> on_cycle succs v"
proof
  assume "on_cycle succs v"
  moreover from this have "v < length succs" by (auto elim: on_cycleE)
  ultimately show "\<exists>component \<in> set (Components succs preds). v \<in> set component"
    using Components_inv [OF assms] by (auto simp: components_inv_def)
next
  assume "\<exists>component \<in> set (Components succs preds). v \<in> set component"
  then show "on_cycle succs v"
    using Components_scc [OF assms] by (auto simp: is_cyclic_scc_def)
qed

lemma Components_disjoint:
  assumes "mutual_edges succs preds" "closed_graph succs"
  shows "sorted_wrt (\<lambda>a b. set a \<inter> set b = {}) (Components succs preds)"
  using Components_inv [OF assms] by (auto simp: components_inv_def)

lemma is_cyclic_scc_successor:
  assumes "closed_graph succs" "is_cyclic_scc succs component" "u \<in> set component"
  shows "\<exists>v \<in> set (succs ! u). v \<in> set component"
proof -
  have u: "u < length succs" "on_cycle succs u" and scc: "set component = {w. w < length succs \<and> same_scc succs u w}"
    using assms(2,3) by (auto simp: is_cyclic_scc_def)
  from u(2) obtain w where "w \<in> set (succs ! u)" "reaches succs w u" by (rule on_cycleE)
  with u(1) assms(1) show ?thesis
    by (auto simp: scc same_scc_def closed_graph_def intro: reaches_edge)
qed

section \<open>The loop reported for a component\<close>

lemma zeros_update: "x \<noteq> 0 \<Longrightarrow> count_list (xs[i := x]) (0::nat) \<le> count_list xs 0"
proof (induction xs arbitrary: i)
  case (Cons y ys)
  from Cons.prems show ?case
    using Cons.IH [of "i - 1"] by (cases i) auto
qed simp

lemma zeros_decrease: "i < length xs \<Longrightarrow> xs ! i = 0 \<Longrightarrow> x \<noteq> 0 \<Longrightarrow> count_list (xs[i := x]) (0::nat) < count_list xs 0"
proof (induction xs arbitrary: i)
  case (Cons y ys)
  from Cons.prems show ?case
    using Cons.IH [of "i - 1"] by (cases i) auto
qed simp

text \<open>The depth-first walk of \<open>Loop\<close>: flag 0 is unseen, 1 on the stack, 2 left; the position is
  the slot on the stack counted from its bottom, -1 off it.\<close>

function loop_walk :: "nat list \<Rightarrow> nat list list \<Rightarrow> string list \<Rightarrow> (nat \<times> nat) list \<Rightarrow> nat list \<Rightarrow> int list \<Rightarrow> string list"
where
  "loop_walk members succs keys [] state position = []"
| "loop_walk members succs keys ((v, i) # stack) state position =
     (if length (succs ! v) \<le> i
      then loop_walk members succs keys stack (state[v := 2]) (position[v := -1])
      else let next = succs ! v ! i; stack' = (v, Suc i) # stack in
        if next \<notin> set members then loop_walk members succs keys stack' state position
        else if state ! next = 1
        then map (\<lambda>n. keys ! n) (drop (nat (position ! next)) (rev (map fst stack'))) @ [keys ! next]
        else if next < length state \<and> state ! next = 0
        then loop_walk members succs keys ((next, 0) # stack') (state[next := 1])
               (position[next := int (length stack')])
        else loop_walk members succs keys stack' state position)"
  by pat_completeness auto

termination
  by (relation "measures [\<lambda>(m, s, k, st, state, p). count_list state 0,
        \<lambda>(m, s, k, st, state, p). \<Sum>(v, i) \<leftarrow> st. Suc (length (s ! v) - i)]")
     (auto simp: zeros_decrease, metis le_neq_implies_less zeros_update zero_neq_numeral)

definition Loop :: "nat list \<Rightarrow> nat list list \<Rightarrow> string list \<Rightarrow> string list" where
  "Loop component succs keys =
     (let starts = sort_key (\<lambda>n. keys ! n) component;
          sorted_edges = map (\<lambda>n. if n \<in> set component then sort_key (\<lambda>m. keys ! m) (succs ! n)
                                 else succs ! n) [0..<length succs];
          start = hd starts
      in loop_walk component sorted_edges keys [(start, 0)]
           ((replicate (length keys) 0)[start := 1]) ((replicate (length keys) (-1))[start := 0]))"

definition closed_walk :: "nat list list \<Rightarrow> nat list \<Rightarrow> nat list \<Rightarrow> bool" where
  "closed_walk succs members walk \<longleftrightarrow> 2 \<le> length walk \<and> hd walk = last walk \<and> set walk \<subseteq> set members \<and>
     successively (\<lambda>u v. v \<in> set (succs ! u)) walk"

text \<open>Every member keeps a member successor, so the walk never leaves a node and its stack is a
  path that can only end by meeting itself.\<close>

definition walk_inv :: "nat list \<Rightarrow> nat list list \<Rightarrow> (nat \<times> nat) list \<Rightarrow> nat list \<Rightarrow> int list \<Rightarrow> bool" where
  "walk_inv members succs stack state position \<longleftrightarrow> stack \<noteq> [] \<and>
     length position = length state \<and> (\<forall>m \<in> set members. m < length state) \<and>
     fst ` set stack \<subseteq> set members \<and>
     (\<forall>n < length state. state ! n = (if n \<in> fst ` set stack then 1 else 0)) \<and>
     (\<forall>p < length stack. position ! (map fst (rev stack) ! p) = int p) \<and>
     successively (\<lambda>u v. v \<in> set (succs ! u)) (map fst (rev stack)) \<and>
     snd (hd stack) \<le> length (succs ! fst (hd stack)) \<and>
     (\<forall>j < snd (hd stack). succs ! fst (hd stack) ! j \<notin> set members)"

lemma successively_snoc:
  "successively P (xs @ [y]) \<longleftrightarrow> successively P xs \<and> (xs = [] \<or> P (last xs) y)"
  by (auto simp: successively_append_iff)

lemma successively_drop: "successively P xs \<Longrightarrow> successively P (drop n xs)"
  by (metis append_take_drop_id successively_append_iff)

lemma loop_walk_closed:
  assumes "\<And>m. m \<in> set members \<Longrightarrow> \<exists>w \<in> set (succs ! m). w \<in> set members"
  shows "walk_inv members succs stack state position \<Longrightarrow>
     \<exists>walk. loop_walk members succs keys stack state position = map (\<lambda>n. keys ! n) walk \<and>
       closed_walk succs members walk"
  using assms
proof (induction members succs keys stack state position rule: loop_walk.induct)
  case (2 members succs keys v i stack state position)
  note inv = "2.prems"(1) [unfolded walk_inv_def]
  have v: "v \<in> set members" using inv by auto
  obtain w where w: "w \<in> set (succs ! v)" "w \<in> set members" using "2.prems"(2) [OF v] by auto
  have more: "i < length (succs ! v)"
  proof (rule ccontr)
    assume "\<not> ?thesis"
    with inv have "i = length (succs ! v)" by simp
    with w inv show False by (auto simp: in_set_conv_nth)
  qed
  let ?next = "succs ! v ! i"
  let ?stack = "(v, Suc i) # stack"
  have nodes: "map fst (rev ?stack) = map fst (rev ((v, i) # stack))" by simp
  show ?case
  proof (cases "?next \<in> set members")
    case False
    have "walk_inv members succs ?stack state position"
      using inv more False unfolding walk_inv_def by (auto simp: less_Suc_eq)
    with "2.IH"(2) [OF _ refl refl False _ "2.prems"(2)] more False show ?thesis by (auto simp: Let_def)
  next
    case member: True
    then have range: "?next < length state" using inv by auto
    show ?thesis
    proof (cases "?next \<in> fst ` set ((v, i) # stack)")
      case True
      then have "?next \<in> set (map fst (rev ?stack))" by auto
      then obtain p where p: "p < length ?stack" "map fst (rev ?stack) ! p = ?next"
        by (metis in_set_conv_nth length_map length_rev)
      have pos: "position ! ?next = int p"
        using inv p nodes by (metis length_Cons)
      let ?path = "map fst (rev ?stack)"
      let ?walk = "drop p ?path @ [?next]"
      have len: "p < length ?path" using p(1) by simp
      have "successively (\<lambda>u v. v \<in> set (succs ! u)) (?path @ [?next])"
        using inv more by (auto simp: successively_append_iff)
      then have "successively (\<lambda>u v. v \<in> set (succs ! u)) (drop p (?path @ [?next]))"
        by (rule successively_drop)
      moreover have "drop p (?path @ [?next]) = ?walk" using len by simp
      moreover have "hd ?walk = ?next" using len p(2) by (metis hd_append2 hd_drop_conv_nth drop_eq_Nil not_le)
      moreover have "set ?walk \<subseteq> set members" using inv member by (auto dest!: in_set_dropD)
      moreover have "2 \<le> length ?walk" using len by simp
      ultimately have "closed_walk succs members ?walk" unfolding closed_walk_def by simp
      moreover have "loop_walk members succs keys ((v, i) # stack) state position = map (\<lambda>n. keys ! n) ?walk"
        using more member True range inv pos by (simp add: Let_def rev_map drop_map)
      ultimately show ?thesis by blast
    next
      case False
      let ?new = "(?next, 0) # ?stack"
      have zero: "state ! ?next = 0" using inv range False by auto
      have "\<forall>q < length ?new. (position[?next := int (length ?stack)]) ! (map fst (rev ?new) ! q) = int q"
      proof (intro allI impI)
        fix q assume q: "q < length ?new"
        show "(position[?next := int (length ?stack)]) ! (map fst (rev ?new) ! q) = int q"
        proof (cases "q = length ?stack")
          case True
          then show ?thesis using range inv by (simp add: nth_append)
        next
          case neq: False
          with q have q': "q < length ((v, i) # stack)" by simp
          then have node: "map fst (rev ?new) ! q = map fst (rev ((v, i) # stack)) ! q"
            by (simp add: nth_append)
          have "map fst (rev ((v, i) # stack)) ! q \<in> fst ` set ((v, i) # stack)"
            using q' by (metis length_map length_rev list.set_map nth_mem set_rev)
          with False have "map fst (rev ((v, i) # stack)) ! q \<noteq> ?next" by metis
          then show ?thesis using inv q' unfolding node by simp
        qed
      qed
      then have "walk_inv members succs ?new (state[?next := 1]) (position[?next := int (length ?stack)])"
        using inv more member range False unfolding walk_inv_def
        by (auto simp: nth_list_update successively_append_iff)
      with "2.IH"(3) [OF _ refl refl _ _ _ _ "2.prems"(2)] more member zero range show ?thesis
        by (auto simp: Let_def)
    qed
  qed
qed (simp add: walk_inv_def)

lemma Loop_closed:
  assumes "closed_graph succs" "is_cyclic_scc succs component" "length keys = length succs"
  shows "\<exists>walk. Loop component succs keys = map (\<lambda>n. keys ! n) walk \<and> closed_walk succs component walk"
proof -
  define se where "se = map (\<lambda>n. if n \<in> set component then sort_key (\<lambda>m. keys ! m) (succs ! n) else succs ! n) [0..<length succs]"
  define start where "start = hd (sort_key (\<lambda>n. keys ! n) component)"
  have comp: "component \<noteq> []" "\<And>u. u \<in> set component \<Longrightarrow> u < length succs"
    using assms(2) by (auto simp: is_cyclic_scc_def)
  have se: "set (se ! u) = set (succs ! u)" if "u \<in> set component" for u
    using comp(2) [OF that] by (simp add: se_def)
  have start: "start \<in> set component"
    using comp(1) by (metis hd_in_set length_0_conv length_sort set_sort start_def)
  have "\<exists>w \<in> set (se ! m). w \<in> set component" if "m \<in> set component" for m
    using is_cyclic_scc_successor [OF assms(1,2) that] se [OF that] by simp
  moreover have "walk_inv component se [(start, 0)]
      ((replicate (length keys) 0)[start := 1]) ((replicate (length keys) (-1))[start := 0])"
    using start comp assms(3) by (auto simp: walk_inv_def nth_list_update)
  ultimately obtain walk where walk: "Loop component succs keys = map (\<lambda>n. keys ! n) walk"
    and closed: "closed_walk se component walk"
    using loop_walk_closed [of component se] unfolding Loop_def Let_def se_def start_def by blast
  have "successively (\<lambda>u v. v \<in> set (succs ! u)) walk"
    using closed se unfolding closed_walk_def
    by (auto intro: successively_mono [of "\<lambda>u v. v \<in> set (se ! u)"] dest: subsetD)
  with closed walk show ?thesis by (auto simp: closed_walk_def)
qed

end
