(* ===== verification/Op_Clusters.thy ===== *)
theory Op_Clusters
  imports Op_Graph
begin

text \<open>
  Cluster lowering of \<open>opGraph.cpp\<close>: \<open>RigExecLowerOpClusters\<close> coarsens linear chains up to
  a cost grain and 64 members, and \<open>RigExecValidateOpClusters\<close> judges a serialized
  clustering against the canonical operations. The main lemma is that everything the
  lowering produces passes the judge; the judge's own lemmas say what an accepted
  clustering guarantees to the executor.
\<close>

section \<open>Lowering\<close>

text \<open>The body of the inner \<open>while (true)\<close>: append the current operation and, unless a break
  condition holds, go on with its only successor. \<open>cost\<close> is the lambda of that name.\<close>

definition op_cost :: "double list \<Rightarrow> nat \<Rightarrow> double" where
  "op_cost costs op = (if costs = [] then Fin 1 else costs ! op)"

function grow_cluster ::
  "compiled_op list \<Rightarrow> double list \<Rightarrow> double \<Rightarrow> nat \<Rightarrow> nat \<Rightarrow> double \<Rightarrow> nat list \<Rightarrow> nat list \<Rightarrow>
     graph_error + nat list \<times> nat list"
where
  "grow_cluster ops costs grain cluster current cost_sum members membership =
     (let members' = members @ [current];
          membership' = membership[current := cluster];
          cost_sum' = double_add cost_sum (op_cost costs current);
          succs = op_successors (ops ! current)
      in if grain = Fin 0 \<or> length members' = 64 \<or> length succs \<noteq> 1 then Inr (members', membership')
         else let next = hd succs in
           if length ops \<le> next \<or> next \<le> current then Inl NonTopologicalGraph
           else let preds = op_predecessors (ops ! next) in
             if membership' ! next \<noteq> uint32_max \<or> length preds \<noteq> 1 \<or> hd preds \<noteq> current \<or>
                double_greater (double_add cost_sum' (op_cost costs next)) grain
             then Inr (members', membership')
             else grow_cluster ops costs grain cluster next cost_sum' members' membership')"
  by pat_completeness auto
termination
  by (relation "measure (\<lambda>(ops, costs, grain, cluster, current, cost_sum, members, membership).
        length ops - current)") (auto simp: Let_def)

declare grow_cluster.simps [simp del]

text \<open>One start of the outer loop: an operation already in a cluster is passed over.\<close>

definition lower_start ::
  "compiled_op list \<Rightarrow> double list \<Rightarrow> double \<Rightarrow> op_cluster list \<times> nat list \<Rightarrow> nat \<Rightarrow>
     graph_error + op_cluster list \<times> nat list" where
  "lower_start ops costs grain = (\<lambda>(clusters, membership) start.
     if membership ! start \<noteq> uint32_max then Inr (clusters, membership)
     else bind_err (grow_cluster ops costs grain (length clusters) start (Fin 0) [] membership)
       (\<lambda>(members, membership').
          Inr (clusters @ [\<lparr>cl_members = members, cl_predecessors = [], cl_successors = []\<rparr>], membership')))"

definition add_cluster_edge :: "nat \<Rightarrow> nat \<Rightarrow> op_cluster list \<Rightarrow> op_cluster list" where
  "add_cluster_edge prior after clusters =
     (let c1 = clusters[after := (clusters ! after)
                  \<lparr>cl_predecessors := cl_predecessors (clusters ! after) @ [prior]\<rparr>]
      in c1[prior := (c1 ! prior)\<lparr>cl_successors := cl_successors (c1 ! prior) @ [after]\<rparr>])"

definition lower_edges ::
  "compiled_op list \<Rightarrow> nat list \<Rightarrow> op_cluster list \<Rightarrow> nat \<Rightarrow> graph_error + op_cluster list" where
  "lower_edges ops membership clusters op =
     fold_err (\<lambda>cs predecessor.
        if op \<le> predecessor then Inl NonTopologicalPredecessor
        else let prior = membership ! predecessor; after = membership ! op in
          Inr (if prior \<noteq> after then add_cluster_edge prior after cs else cs))
       clusters (op_predecessors (ops ! op))"

definition RigExecLowerOpClusters ::
  "compiled_graph \<Rightarrow> double list \<Rightarrow> double \<Rightarrow> graph_error + compiled_graph" where
  "RigExecLowerOpClusters graph costs grain =
     (let ops = g_ops graph; count = length ops in
      if \<not> double_finite grain \<or> double_less grain (Fin 0) then Inl InvalidGrain
      else if uint32_max < count \<or> (costs \<noteq> [] \<and> length costs \<noteq> count) then Inl CostCountMismatch
      else if \<exists>cost \<in> set costs. \<not> double_finite cost \<or> double_less cost (Fin 0) then Inl InvalidOperationCost
      else bind_err (fold_err (lower_start ops costs grain) ([], replicate count uint32_max) [0..<count])
        (\<lambda>(clusters, membership).
         bind_err (fold_err (lower_edges ops membership) clusters [0..<count])
        (\<lambda>clusters'.
         Inr (graph\<lparr>g_clusters := map (\<lambda>c. c\<lparr>cl_predecessors := vec_unique (cl_predecessors c),
                                            cl_successors := vec_unique (cl_successors c)\<rparr>) clusters',
                    g_opClusters := membership\<rparr>))))"

section \<open>Validation\<close>

definition validate_member ::
  "compiled_graph \<Rightarrow> nat \<Rightarrow> bool list \<Rightarrow> nat \<Rightarrow> graph_error + bool list" where
  "validate_member graph grp seen part =
     (let members = cl_members (g_clusters graph ! grp); op = members ! part in
      if length (g_ops graph) \<le> op \<or> seen ! op \<or> g_opClusters graph ! op \<noteq> grp then Inl ClusterMember
      else let seen' = seen[op := True] in
        if 0 < part
        then let prior = members ! (part - 1) in
          if op \<le> prior \<or> op_successors (g_ops graph ! prior) \<noteq> [op] \<or>
             op_predecessors (g_ops graph ! op) \<noteq> [prior] then Inl ClusterCausal
          else Inr seen'
        else Inr seen')"

definition validate_group ::
  "compiled_graph \<Rightarrow> bool list \<times> nat \<Rightarrow> nat \<Rightarrow> graph_error + bool list \<times> nat" where
  "validate_group graph = (\<lambda>(seen, previousStart) grp.
     let members = cl_members (g_clusters graph ! grp) in
     if members = [] \<or> 64 < length members then Inl ClusterSize
     else if 0 < grp \<and> hd members \<le> previousStart then Inl ClusterOrder
     else bind_err (fold_err (validate_member graph grp) seen [0..<length members])
       (\<lambda>seen'. Inr (seen', hd members)))"

definition validate_edges ::
  "compiled_graph \<Rightarrow> nat list list \<times> nat list list \<Rightarrow> nat \<Rightarrow> graph_error + nat list list \<times> nat list list" where
  "validate_edges graph edges op =
     fold_err (\<lambda>(preds, succs) prior.
        if op \<le> prior then Inl PredecessorNotTopological
        else let a = g_opClusters graph ! prior; b = g_opClusters graph ! op in
          if a \<noteq> b then
            if b \<le> a then Inl ClusterPredecessorNotTopological
            else Inr (preds[b := preds ! b @ [a]], succs[a := succs ! a @ [b]])
          else Inr (preds, succs))
       edges (op_predecessors (g_ops graph ! op))"

definition RigExecValidateOpClusters :: "compiled_graph \<Rightarrow> graph_error + unit" where
  "RigExecValidateOpClusters graph =
     (let count = length (g_ops graph); groups = length (g_clusters graph) in
      if length (g_opClusters graph) \<noteq> count \<or> (count = 0 \<and> groups \<noteq> 0) then Inl ClusterCardinality
      else bind_err (fold_err (validate_group graph) (replicate count False, 0) [0..<groups])
        (\<lambda>(seen, previousStart).
         if False \<in> set seen then Inl OperationUnclustered
         else bind_err (fold_err (validate_edges graph) (replicate groups [], replicate groups []) [0..<count])
           (\<lambda>(preds, succs).
            fold_err (\<lambda>_ grp.
               if cl_predecessors (g_clusters graph ! grp) \<noteq> vec_unique (preds ! grp) \<or>
                  cl_successors (g_clusters graph ! grp) \<noteq> vec_unique (succs ! grp)
               then Inl ClusterEdges else Inr ()) () [0..<groups])))"

section \<open>What a clustering guarantees\<close>

definition linked :: "compiled_op list \<Rightarrow> nat list \<Rightarrow> bool" where
  "linked ops members \<longleftrightarrow>
     successively (\<lambda>a b. a < b \<and> op_successors (ops ! a) = [b] \<and> op_predecessors (ops ! b) = [a]) members"

text \<open>The clusters an operation's cluster depends on, and those depending on it.\<close>

definition before_clusters :: "compiled_op list \<Rightarrow> nat list \<Rightarrow> nat \<Rightarrow> nat set" where
  "before_clusters ops membership g =
     {membership ! p | p op. op < length ops \<and> membership ! op = g \<and> p \<in> set (op_predecessors (ops ! op)) \<and>
        membership ! p \<noteq> g}"

definition after_clusters :: "compiled_op list \<Rightarrow> nat list \<Rightarrow> nat \<Rightarrow> nat set" where
  "after_clusters ops membership g =
     {membership ! op | p op. op < length ops \<and> membership ! p = g \<and> p \<in> set (op_predecessors (ops ! op)) \<and>
        membership ! op \<noteq> g}"

text \<open>The members part of a clustering: a partition of the operations into linked runs of at
  most 64, in order of their first members.\<close>

definition partition_ok :: "compiled_op list \<Rightarrow> nat list list \<Rightarrow> nat list \<Rightarrow> bool" where
  "partition_ok ops groups membership \<longleftrightarrow>
     length membership = length ops \<and>
     (\<forall>g < length groups. groups ! g \<noteq> [] \<and> length (groups ! g) \<le> 64 \<and> linked ops (groups ! g) \<and>
        (\<forall>m \<in> set (groups ! g). m < length ops \<and> membership ! m = g)) \<and>
     sorted_wrt (<) (map hd groups) \<and>
     (\<forall>op < length ops. membership ! op < length groups \<and> op \<in> set (groups ! (membership ! op)))"

definition clusters_ok :: "compiled_graph \<Rightarrow> bool" where
  "clusters_ok graph \<longleftrightarrow>
     partition_ok (g_ops graph) (map cl_members (g_clusters graph)) (g_opClusters graph) \<and>
     (\<forall>op < length (g_ops graph). \<forall>p \<in> set (op_predecessors (g_ops graph ! op)).
        p < op \<and> g_opClusters graph ! p \<le> g_opClusters graph ! op) \<and>
     (\<forall>g < length (g_clusters graph).
        sorted (cl_predecessors (g_clusters graph ! g)) \<and> distinct (cl_predecessors (g_clusters graph ! g)) \<and>
        set (cl_predecessors (g_clusters graph ! g)) = before_clusters (g_ops graph) (g_opClusters graph) g \<and>
        sorted (cl_successors (g_clusters graph ! g)) \<and> distinct (cl_successors (g_clusters graph ! g)) \<and>
        set (cl_successors (g_clusters graph ! g)) = after_clusters (g_ops graph) (g_opClusters graph) g)"

lemma linked_sorted: "linked ops members \<Longrightarrow> sorted_wrt (<) members"
proof -
  assume "linked ops members"
  then have "successively (<) members"
    unfolding linked_def by (rule successively_mono) simp_all
  then show ?thesis by (subst (asm) successively_conv_sorted_wrt) (auto simp: transp_def)
qed

lemma linked_distinct: "linked ops members \<Longrightarrow> distinct members"
  by (auto dest!: linked_sorted simp: strict_sorted_iff)

lemma linked_snoc: "linked ops (members @ [m]) \<longleftrightarrow> linked ops members \<and>
    (members = [] \<or> last members < m \<and> op_successors (ops ! last members) = [m] \<and>
       op_predecessors (ops ! m) = [last members])"
  by (auto simp: linked_def successively_append_iff)

text \<open>A member other than the first has only its neighbour as predecessor, in the same cluster.\<close>

lemma linked_inner:
  "linked ops members \<Longrightarrow> m \<in> set members \<Longrightarrow> m \<noteq> hd members \<Longrightarrow>
     \<exists>p \<in> set members. op_predecessors (ops ! m) = [p]"
proof (induction members rule: rev_induct)
  case (snoc x xs)
  show ?case
  proof (cases "m \<in> set xs")
    case True
    then have "xs \<noteq> []" by auto
    with snoc.prems have "linked ops xs" "m \<noteq> hd xs" by (auto simp: linked_snoc)
    with True snoc.IH show ?thesis by auto
  next
    case False
    with snoc.prems have "m = x" "xs \<noteq> []" by (auto split: if_splits)
    with snoc.prems(1) show ?thesis by (auto simp: linked_snoc)
  qed
qed simp

lemma partition_ok_sub:
  assumes "partition_ok ops groups membership" "g < length groups"
  shows "groups ! g \<noteq> []" "linked ops (groups ! g)" "length (groups ! g) \<le> 64"
    "\<And>m. m \<in> set (groups ! g) \<Longrightarrow> m < length ops \<and> membership ! m = g"
  using assms by (auto simp: partition_ok_def)

text \<open>In a canonical graph an edge between clusters goes to a later cluster.\<close>

lemma partition_topological:
  assumes canonical: "canonical_ops ops" and part: "partition_ok ops groups membership"
    and op: "oper < length ops" and p: "p \<in> set (op_predecessors (ops ! oper))"
  shows "membership ! p \<le> membership ! oper"
proof (rule ccontr)
  assume "\<not> ?thesis"
  then have less: "membership ! oper < membership ! p" by simp
  have p_less: "p < oper" using op_edges_okD(5) [OF canonical_opsD [OF canonical op] p] .
  define b where "b = membership ! oper"
  define a where "a = membership ! p"
  have in_b: "b < length groups" "oper \<in> set (groups ! b)" and in_a: "a < length groups" "p \<in> set (groups ! a)"
    using part op p_less by (auto simp: partition_ok_def a_def b_def)
  have "oper = hd (groups ! b)"
  proof (rule ccontr)
    assume "oper \<noteq> hd (groups ! b)"
    then obtain q where "q \<in> set (groups ! b)" "op_predecessors (ops ! oper) = [q]"
      using linked_inner partition_ok_sub(2) [OF part in_b(1)] in_b(2) by metis
    with p partition_ok_sub(4) [OF part in_b(1)] less show False by (auto simp: b_def)
  qed
  moreover have "hd (groups ! b) < hd (groups ! a)"
  proof -
    have "sorted_wrt (<) (map hd groups)" using part by (simp add: partition_ok_def)
    from sorted_wrt_nth_less [OF this, of b a] show ?thesis
      using less in_a(1) in_b(1) by (simp add: a_def b_def)
  qed
  moreover have "hd (groups ! a) \<le> p"
  proof (cases "groups ! a")
    case (Cons m ms)
    then show ?thesis
      using in_a(2) linked_sorted [OF partition_ok_sub(2) [OF part in_a(1)]] by auto
  qed (use in_a in simp)
  ultimately show False using p_less by simp
qed

section \<open>The lowering builds a partition\<close>

lemma grow_cluster_spec:
  assumes "canonical_ops ops" "length membership = length ops" "current < length ops"
    and "membership ! current = uint32_max" "c \<noteq> uint32_max"
    and "linked ops (members @ [current])" "length members < 64"
  shows "\<exists>more. grow_cluster ops costs grain c current cost_sum members membership =
       Inr (members @ more, foldl (\<lambda>M m. M[m := c]) membership more) \<and>
     linked ops (members @ more) \<and> length (members @ more) \<le> 64 \<and> more \<noteq> [] \<and> hd more = current \<and>
     (\<forall>m \<in> set more. m < length ops \<and> membership ! m = uint32_max)"
  using assms
proof (induction ops costs grain c current cost_sum members membership rule: grow_cluster.induct)
  case (1 ops costs grain c current cost_sum members membership)
  note prems = "1.prems"
  let ?op = "ops ! current"
  let ?members = "members @ [current]"
  let ?membership = "membership[current := c]"
  let ?sum = "double_add cost_sum (op_cost costs current)"
  let ?next = "hd (op_successors ?op)"
  let ?stop1 = "grain = Fin 0 \<or> length ?members = 64 \<or> length (op_successors ?op) \<noteq> 1"
  let ?stop2 = "?membership ! ?next \<noteq> uint32_max \<or> length (op_predecessors (ops ! ?next)) \<noteq> 1 \<or>
      hd (op_predecessors (ops ! ?next)) \<noteq> current \<or>
      double_greater (double_add ?sum (op_cost costs ?next)) grain"
  have stop: ?case if "grow_cluster ops costs grain c current cost_sum members membership = Inr (?members, ?membership)"
    using that prems by (intro exI [where x = "[current]"]) simp
  show ?case
  proof (cases ?stop1)
    case True
    then show ?thesis by (intro stop) (subst grow_cluster.simps, simp add: Let_def)
  next
    case False
    then obtain s where succs: "op_successors ?op = [s]" by (auto simp: length_Suc_conv)
    have forward: "current < ?next" "?next < length ops"
      using op_edges_okD(6,7) [OF canonical_opsD [OF prems(1,3)]] succs by auto
    show ?thesis
    proof (cases ?stop2)
      case True
      then show ?thesis using False forward
        by (intro stop) (subst grow_cluster.simps, auto simp: Let_def)
    next
      case cont: False
      then have preds: "op_predecessors (ops ! ?next) = [current]"
        by (cases "op_predecessors (ops ! ?next)") auto
      have step: "grow_cluster ops costs grain c current cost_sum members membership =
          grow_cluster ops costs grain c ?next ?sum ?members ?membership"
        using False cont forward by (subst grow_cluster.simps) (simp add: Let_def)
      have "linked ops (?members @ [?next])"
        using prems(6) forward succs preds by (subst linked_snoc) simp
      moreover have "length ?members < 64" using False prems(7) by simp
      ultimately obtain more where more:
        "grow_cluster ops costs grain c ?next ?sum ?members ?membership =
           Inr (?members @ more, foldl (\<lambda>M m. M[m := c]) ?membership more)"
        "linked ops (?members @ more)" "length (?members @ more) \<le> 64" "more \<noteq> []" "hd more = ?next"
        "\<forall>m \<in> set more. m < length ops \<and> ?membership ! m = uint32_max"
        using "1.IH" [OF refl refl refl refl _ refl _ refl] False cont forward prems by auto
      have "membership ! m = uint32_max" if "m \<in> set more" for m
        using more(6) that prems(4) by (cases "m = current") auto
      then show ?thesis using step more prems(3,4)
        by (intro exI [where x = "current # more"]) auto
    qed
  qed
qed

lemma foldl_update_nth:
  "(\<forall>m \<in> set ms. m < length M) \<Longrightarrow> i < length M \<Longrightarrow>
     foldl (\<lambda>M m. M[m := c]) M ms ! i = (if i \<in> set ms then c else M ! i)"
  by (induction ms arbitrary: M) auto

lemma length_foldl_update [simp]: "length (foldl (\<lambda>M m. M[m := c]) M ms) = length M"
  by (induction ms arbitrary: M) auto

text \<open>After the starts below \<open>k\<close>: the clusters built are linked runs in order of their first
  members, exactly the operations they hold are marked, and everything below \<open>k\<close> is.\<close>

definition lower_inv :: "compiled_op list \<Rightarrow> nat \<Rightarrow> op_cluster list \<times> nat list \<Rightarrow> bool" where
  "lower_inv ops k = (\<lambda>(clusters, membership).
     length membership = length ops \<and> length clusters \<le> k \<and>
     (\<forall>g < length clusters. cl_predecessors (clusters ! g) = [] \<and> cl_successors (clusters ! g) = []) \<and>
     (\<forall>g < length clusters. cl_members (clusters ! g) \<noteq> [] \<and> length (cl_members (clusters ! g)) \<le> 64 \<and>
        linked ops (cl_members (clusters ! g)) \<and> hd (cl_members (clusters ! g)) < k \<and>
        (\<forall>m \<in> set (cl_members (clusters ! g)). m < length ops \<and> membership ! m = g)) \<and>
     sorted_wrt (<) (map (hd \<circ> cl_members) clusters) \<and>
     (\<forall>op < length ops. membership ! op = uint32_max \<or>
        membership ! op < length clusters \<and> op \<in> set (cl_members (clusters ! (membership ! op)))) \<and>
     (\<forall>op < k. membership ! op \<noteq> uint32_max))"

lemma lower_start_inv:
  assumes canonical: "canonical_ops ops" and small: "length ops \<le> uint32_max" and k: "k < length ops"
    and inv: "lower_inv ops k (clusters, membership)"
  shows "\<exists>state. lower_start ops costs grain (clusters, membership) k = Inr state \<and> lower_inv ops (Suc k) state"
proof (cases "membership ! k = uint32_max")
  case False
  with inv show ?thesis
    by (auto simp: lower_start_def lower_inv_def less_Suc_eq)
next
  case True
  let ?c = "length clusters"
  have len: "length membership = length ops" and few: "?c \<le> k" using inv by (auto simp: lower_inv_def)
  then have c: "?c < uint32_max" using small k by simp
  have "linked ops [k]" by (simp add: linked_def)
  then obtain more where more:
    "grow_cluster ops costs grain ?c k (Fin 0) [] membership =
       Inr (more, foldl (\<lambda>M m. M[m := ?c]) membership more)"
    "linked ops more" "length more \<le> 64" "more \<noteq> []" "hd more = k"
    "\<forall>m \<in> set more. m < length ops \<and> membership ! m = uint32_max"
    using grow_cluster_spec [OF canonical len k True, of ?c "[]" costs grain "Fin 0"] c by auto
  define membership' where "membership' = foldl (\<lambda>M m. M[m := ?c]) membership more"
  define cluster where "cluster = \<lparr>cl_members = more, cl_predecessors = [], cl_successors = []\<rparr>"
  have at: "membership' ! i = (if i \<in> set more then ?c else membership ! i)" if "i < length ops" for i
    using more(6) len that by (auto simp: membership'_def foldl_update_nth)
  have k_more: "k \<in> set more" using more(4,5) hd_in_set by force
  have run: "lower_start ops costs grain (clusters, membership) k = Inr (clusters @ [cluster], membership')"
    using True more(1) by (simp add: lower_start_def membership'_def cluster_def)
  have keep: "membership' ! m = g"
    if "g < ?c" "m \<in> set (cl_members (clusters ! g))" for g m
    using inv that at [of m] more(6) c by (auto simp: lower_inv_def)
  have "lower_inv ops (Suc k) (clusters @ [cluster], membership')"
    unfolding lower_inv_def prod.case
  proof (intro conjI)
    show "length membership' = length ops" using len by (simp add: membership'_def)
    show "length (clusters @ [cluster]) \<le> Suc k" using few by simp
    show "\<forall>g < length (clusters @ [cluster]). cl_predecessors ((clusters @ [cluster]) ! g) = [] \<and>
        cl_successors ((clusters @ [cluster]) ! g) = []"
      using inv by (auto simp: lower_inv_def nth_append cluster_def)
    show "\<forall>g < length (clusters @ [cluster]). cl_members ((clusters @ [cluster]) ! g) \<noteq> [] \<and>
        length (cl_members ((clusters @ [cluster]) ! g)) \<le> 64 \<and>
        linked ops (cl_members ((clusters @ [cluster]) ! g)) \<and>
        hd (cl_members ((clusters @ [cluster]) ! g)) < Suc k \<and>
        (\<forall>m \<in> set (cl_members ((clusters @ [cluster]) ! g)). m < length ops \<and> membership' ! m = g)"
    proof (intro allI impI)
      fix g assume g: "g < length (clusters @ [cluster])"
      show "cl_members ((clusters @ [cluster]) ! g) \<noteq> [] \<and>
        length (cl_members ((clusters @ [cluster]) ! g)) \<le> 64 \<and>
        linked ops (cl_members ((clusters @ [cluster]) ! g)) \<and>
        hd (cl_members ((clusters @ [cluster]) ! g)) < Suc k \<and>
        (\<forall>m \<in> set (cl_members ((clusters @ [cluster]) ! g)). m < length ops \<and> membership' ! m = g)"
      proof (cases "g = ?c")
        case True
        then show ?thesis using more(2-6) at by (simp add: cluster_def)
      next
        case False
        with g have g': "g < ?c" by simp
        with inv keep [OF g'] show ?thesis by (auto simp: lower_inv_def nth_append less_SucI)
      qed
    qed
    show "sorted_wrt (<) (map (hd \<circ> cl_members) (clusters @ [cluster]))"
      using inv more(5) by (auto simp: lower_inv_def sorted_wrt_append cluster_def in_set_conv_nth)
    show "\<forall>op < length ops. membership' ! op = uint32_max \<or>
        membership' ! op < length (clusters @ [cluster]) \<and>
        op \<in> set (cl_members ((clusters @ [cluster]) ! (membership' ! op)))"
    proof (intro allI impI)
      fix op assume op: "op < length ops"
      show "membership' ! op = uint32_max \<or>
        membership' ! op < length (clusters @ [cluster]) \<and>
        op \<in> set (cl_members ((clusters @ [cluster]) ! (membership' ! op)))"
        using inv op at [OF op] by (auto simp: lower_inv_def nth_append cluster_def)
    qed
    show "\<forall>op < Suc k. membership' ! op \<noteq> uint32_max"
      using inv at k k_more c by (auto simp: lower_inv_def less_Suc_eq)
  qed
  with run show ?thesis by blast
qed

lemma lower_starts:
  assumes "canonical_ops ops" "length ops \<le> uint32_max" "k \<le> length ops"
  shows "\<exists>state. fold_err (lower_start ops costs grain) ([], replicate (length ops) uint32_max) [0..<k] = Inr state \<and>
     lower_inv ops k state"
  using assms(3)
proof (induction k)
  case 0
  show ?case by (auto simp: lower_inv_def)
next
  case (Suc k)
  then obtain clusters membership where
    "fold_err (lower_start ops costs grain) ([], replicate (length ops) uint32_max) [0..<k] = Inr (clusters, membership)"
    "lower_inv ops k (clusters, membership)" by auto
  with lower_start_inv [OF assms(1,2), of k clusters membership costs grain] Suc.prems
  show ?case by (auto simp: fold_err_append)
qed

lemma lower_inv_partition:
  assumes "lower_inv ops (length ops) (clusters, membership)"
  shows "partition_ok ops (map cl_members clusters) membership"
  using assms unfolding lower_inv_def partition_ok_def by (auto simp: comp_def)

section \<open>The cluster edges\<close>

text \<open>Both the lowering and the validator walk every edge of the operations; a fold over the
  list of edges describes either.\<close>

abbreviation op_edges :: "compiled_op list \<Rightarrow> (nat \<times> nat) list" where
  "op_edges ops \<equiv> pairs_of (\<lambda>oper. op_predecessors (ops ! oper)) [0..<length ops]"

lemma lower_edges_fold:
  assumes "canonical_ops ops"
  shows "fold_err (lower_edges ops membership) clusters [0..<length ops] =
     Inr (foldl (\<lambda>cs (oper, p). if membership ! p \<noteq> membership ! oper
                  then add_cluster_edge (membership ! p) (membership ! oper) cs else cs) clusters (op_edges ops))"
proof -
  have "fold_err (lower_edges ops membership) clusters [0..<length ops] =
    fold_err (\<lambda>cs (oper, p). if oper \<le> p then Inl NonTopologicalPredecessor
        else let prior = membership ! p; after = membership ! oper in
          Inr (if prior \<noteq> after then add_cluster_edge prior after cs else cs)) clusters (op_edges ops)"
    unfolding lower_edges_def by (subst fold_err_nested) simp
  also have "\<dots> = Inr (foldl (\<lambda>cs (oper, p). if membership ! p \<noteq> membership ! oper
                  then add_cluster_edge (membership ! p) (membership ! oper) cs else cs) clusters (op_edges ops))"
    using op_edges_okD(5) [OF canonical_opsD [OF assms]]
    by (intro fold_err_pure) (auto simp: Let_def not_le)
  finally show ?thesis .
qed

lemma add_cluster_edge_simps [simp]:
  "length (add_cluster_edge a b cs) = length cs"
  "a < length cs \<Longrightarrow> b < length cs \<Longrightarrow> g < length cs \<Longrightarrow>
     cl_members (add_cluster_edge a b cs ! g) = cl_members (cs ! g)"
  "a < length cs \<Longrightarrow> b < length cs \<Longrightarrow> g < length cs \<Longrightarrow>
     cl_predecessors (add_cluster_edge a b cs ! g) = cl_predecessors (cs ! g) @ (if g = b then [a] else [])"
  "a < length cs \<Longrightarrow> b < length cs \<Longrightarrow> g < length cs \<Longrightarrow>
     cl_successors (add_cluster_edge a b cs ! g) = cl_successors (cs ! g) @ (if g = a then [b] else [])"
  by (auto simp: add_cluster_edge_def Let_def nth_list_update)

definition edges_before :: "nat list \<Rightarrow> (nat \<times> nat) list \<Rightarrow> nat \<Rightarrow> nat set" where
  "edges_before membership es g =
     {membership ! p | oper p. (oper, p) \<in> set es \<and> membership ! oper = g \<and> membership ! p \<noteq> g}"

definition edges_after :: "nat list \<Rightarrow> (nat \<times> nat) list \<Rightarrow> nat \<Rightarrow> nat set" where
  "edges_after membership es g =
     {membership ! oper | oper p. (oper, p) \<in> set es \<and> membership ! p = g \<and> membership ! oper \<noteq> g}"

lemma edges_simps [simp]:
  "edges_before M [] g = {}" "edges_after M [] g = {}"
  "edges_before M ((oper, p) # es) g =
     (if M ! oper = g \<and> M ! p \<noteq> g then {M ! p} else {}) \<union> edges_before M es g"
  "edges_after M ((oper, p) # es) g =
     (if M ! p = g \<and> M ! oper \<noteq> g then {M ! oper} else {}) \<union> edges_after M es g"
  by (auto simp: edges_before_def edges_after_def)

lemma edges_op_edges:
  "edges_before M (op_edges ops) g = before_clusters ops M g"
  "edges_after M (op_edges ops) g = after_clusters ops M g"
  by (auto simp: edges_before_def edges_after_def before_clusters_def after_clusters_def)

lemma lower_edges_spec:
  assumes "\<forall>(oper, p) \<in> set es. M ! oper < length cs \<and> M ! p < length cs"
  shows "length (foldl (\<lambda>cs (oper, p). if M ! p \<noteq> M ! oper then add_cluster_edge (M ! p) (M ! oper) cs else cs) cs es) = length cs \<and>
    (\<forall>g < length cs.
      cl_members (foldl (\<lambda>cs (oper, p). if M ! p \<noteq> M ! oper then add_cluster_edge (M ! p) (M ! oper) cs else cs) cs es ! g) =
        cl_members (cs ! g) \<and>
      set (cl_predecessors (foldl (\<lambda>cs (oper, p). if M ! p \<noteq> M ! oper then add_cluster_edge (M ! p) (M ! oper) cs else cs) cs es ! g)) =
        set (cl_predecessors (cs ! g)) \<union> edges_before M es g \<and>
      set (cl_successors (foldl (\<lambda>cs (oper, p). if M ! p \<noteq> M ! oper then add_cluster_edge (M ! p) (M ! oper) cs else cs) cs es ! g)) =
        set (cl_successors (cs ! g)) \<union> edges_after M es g)"
  using assms
proof (induction es arbitrary: cs)
  case (Cons e es)
  obtain oper p where e: "e = (oper, p)" by fastforce
  show ?case
  proof (cases "M ! p = M ! oper")
    case True
    with Cons e show ?thesis by auto
  next
    case False
    let ?cs = "add_cluster_edge (M ! p) (M ! oper) cs"
    have "\<forall>(oper, p) \<in> set es. M ! oper < length ?cs \<and> M ! p < length ?cs"
      using Cons.prems by auto
    note IH = Cons.IH [OF this]
    have range: "M ! oper < length cs" "M ! p < length cs" using Cons.prems e by auto
    show ?thesis using IH e False range by auto
  qed
qed simp

lemma validate_edges_fold:
  assumes "\<forall>oper < length (g_ops graph). \<forall>p \<in> set (op_predecessors (g_ops graph ! oper)).
     p < oper \<and> g_opClusters graph ! p \<le> g_opClusters graph ! oper"
  shows "fold_err (validate_edges graph) edges [0..<length (g_ops graph)] =
    Inr (foldl (\<lambda>(preds, succs) (oper, p).
       let a = g_opClusters graph ! p; b = g_opClusters graph ! oper in
       if a \<noteq> b then (preds[b := preds ! b @ [a]], succs[a := succs ! a @ [b]]) else (preds, succs))
      edges (op_edges (g_ops graph)))"
proof -
  let ?step = "\<lambda>(preds, succs) (oper, p).
     if oper \<le> p then Inl PredecessorNotTopological
     else let a = g_opClusters graph ! p; b = g_opClusters graph ! oper in
       if a \<noteq> b then
         if b \<le> a then Inl ClusterPredecessorNotTopological
         else Inr (preds[b := preds ! b @ [a]], succs[a := succs ! a @ [b]])
       else Inr (preds, succs)"
  have "fold_err (validate_edges graph) edges [0..<length (g_ops graph)] =
    fold_err ?step edges (op_edges (g_ops graph))"
    unfolding validate_edges_def by (subst fold_err_nested) (simp add: case_prod_beta')
  also have "\<dots> = Inr (foldl (\<lambda>(preds, succs) (oper, p).
       let a = g_opClusters graph ! p; b = g_opClusters graph ! oper in
       if a \<noteq> b then (preds[b := preds ! b @ [a]], succs[a := succs ! a @ [b]]) else (preds, succs))
      edges (op_edges (g_ops graph)))"
    using assms by (intro fold_err_pure) (fastforce simp: Let_def not_le split: prod.splits)
  finally show ?thesis .
qed

lemma validate_edges_spec:
  assumes "\<forall>(oper, p) \<in> set es. M ! oper < n \<and> M ! p < n" "length preds = n" "length succs = n"
    and "foldl (\<lambda>(preds, succs) (oper, p).
       let a = M ! p; b = M ! oper in
       if a \<noteq> b then (preds[b := preds ! b @ [a]], succs[a := succs ! a @ [b]]) else (preds, succs))
      (preds, succs) es = (preds', succs')"
  shows "\<forall>g < n. set (preds' ! g) = set (preds ! g) \<union> edges_before M es g \<and>
      set (succs' ! g) = set (succs ! g) \<union> edges_after M es g"
  using assms
proof (induction es arbitrary: preds succs)
  case (Cons e es)
  obtain oper p where e: "e = (oper, p)" by fastforce
  show ?case
  proof (cases "M ! p = M ! oper")
    case True
    with Cons e show ?thesis by auto
  next
    case False
    let ?preds = "preds[M ! oper := preds ! (M ! oper) @ [M ! p]]"
    let ?succs = "succs[M ! p := succs ! (M ! p) @ [M ! oper]]"
    have "\<forall>g < n. set (preds' ! g) = set (?preds ! g) \<union> edges_before M es g \<and>
      set (succs' ! g) = set (?succs ! g) \<union> edges_after M es g"
      using Cons.prems e False by (intro Cons.IH) (auto simp: Let_def)
    then show ?thesis using Cons.prems e False by (auto simp: nth_list_update)
  qed
qed simp

section \<open>The validator decides exactly the guarantees\<close>

text \<open>The flags after a number of members have been taken.\<close>

abbreviation mark_seen :: "bool list \<Rightarrow> nat list \<Rightarrow> bool list" where
  "mark_seen seen ms \<equiv> foldl (\<lambda>M m. M[m := True]) seen ms"

definition members_ok :: "compiled_graph \<Rightarrow> nat \<Rightarrow> bool list \<Rightarrow> nat list \<Rightarrow> bool" where
  "members_ok graph g seen ms \<longleftrightarrow> distinct ms \<and> linked (g_ops graph) ms \<and>
     (\<forall>m \<in> set ms. m < length (g_ops graph) \<and> \<not> seen ! m \<and> g_opClusters graph ! m = g)"

lemma members_ok_snoc:
  "members_ok graph g seen (ms @ [m]) \<longleftrightarrow> members_ok graph g seen ms \<and> m \<notin> set ms \<and>
     m < length (g_ops graph) \<and> \<not> seen ! m \<and> g_opClusters graph ! m = g \<and>
     (ms = [] \<or> last ms < m \<and> op_successors (g_ops graph ! last ms) = [m] \<and>
        op_predecessors (g_ops graph ! m) = [last ms])"
  by (auto simp: members_ok_def linked_snoc)

lemma validate_members_iff:
  assumes "length seen = length (g_ops graph)" "g < length (g_clusters graph)"
    and "k \<le> length (cl_members (g_clusters graph ! g))"
  shows "fold_err (validate_member graph g) seen [0..<k] = Inr seen' \<longleftrightarrow>
     members_ok graph g seen (take k (cl_members (g_clusters graph ! g))) \<and>
     seen' = mark_seen seen (take k (cl_members (g_clusters graph ! g)))"
  using assms(3)
proof (induction k arbitrary: seen')
  case 0
  show ?case by (auto simp: members_ok_def linked_def)
next
  case (Suc k)
  define ms where "ms = cl_members (g_clusters graph ! g)"
  define pre where "pre = take k ms"
  have k: "k < length ms" and IH: "\<And>s. fold_err (validate_member graph g) seen [0..<k] = Inr s \<longleftrightarrow>
      members_ok graph g seen pre \<and> s = mark_seen seen pre"
    using Suc by (auto simp: ms_def pre_def)
  have take_Suc: "take (Suc k) ms = pre @ [ms ! k]" using k by (simp add: take_Suc_conv_app_nth pre_def)
  have nonempty: "pre \<noteq> []" if "0 < k" using that k by (auto simp: pre_def)
  have prior: "ms ! (k - Suc 0) = last pre" if "0 < k"
    using that k nonempty [OF that] by (simp add: last_conv_nth pre_def min_def)
  have step: "validate_member graph g (mark_seen seen pre) k = Inr seen' \<longleftrightarrow>
      ms ! k \<notin> set pre \<and> ms ! k < length (g_ops graph) \<and> \<not> seen ! (ms ! k) \<and> g_opClusters graph ! (ms ! k) = g \<and>
      (pre = [] \<or> last pre < ms ! k \<and> op_successors (g_ops graph ! last pre) = [ms ! k] \<and>
        op_predecessors (g_ops graph ! (ms ! k)) = [last pre]) \<and>
      seen' = (mark_seen seen pre)[ms ! k := True]" if "members_ok graph g seen pre"
  proof -
    have in_range: "\<forall>m \<in> set pre. m < length seen" using that assms(1) by (auto simp: members_ok_def)
    show ?thesis
    proof (cases "ms ! k < length (g_ops graph)")
      case True
      then have "mark_seen seen pre ! (ms ! k) \<longleftrightarrow> ms ! k \<in> set pre \<or> seen ! (ms ! k)"
        using in_range assms(1) by (simp add: foldl_update_nth)
      moreover have "pre = [] \<longleftrightarrow> k = 0" using k by (auto simp: pre_def)
      ultimately show ?thesis
        using prior nonempty unfolding validate_member_def ms_def [symmetric] Let_def
        by (cases "k = 0") (auto simp: not_le)
    qed (simp add: validate_member_def ms_def [symmetric] Let_def)
  qed
  show ?case
    unfolding ms_def [symmetric] take_Suc members_ok_snoc
    using IH step by (auto simp: fold_err_append bind_err_Inr_iff)
qed

text \<open>The clusters already judged: the partition conditions on the first \<open>k\<close> of them.\<close>

abbreviation members_of :: "compiled_graph \<Rightarrow> nat \<Rightarrow> nat list" where
  "members_of graph g \<equiv> cl_members (g_clusters graph ! g)"

definition group_ok :: "compiled_graph \<Rightarrow> nat \<Rightarrow> bool" where
  "group_ok graph g \<longleftrightarrow> members_of graph g \<noteq> [] \<and> length (members_of graph g) \<le> 64 \<and>
     linked (g_ops graph) (members_of graph g) \<and>
     (\<forall>m \<in> set (members_of graph g). m < length (g_ops graph) \<and> g_opClusters graph ! m = g) \<and>
     (0 < g \<longrightarrow> hd (members_of graph (g - 1)) < hd (members_of graph g))"

abbreviation seen_upto :: "compiled_graph \<Rightarrow> nat \<Rightarrow> bool list" where
  "seen_upto graph k \<equiv>
     mark_seen (replicate (length (g_ops graph)) False) (concat (map (members_of graph) [0..<k]))"

lemma seen_upto_nth:
  assumes "\<forall>g < k. group_ok graph g" "i < length (g_ops graph)"
  shows "seen_upto graph k ! i \<longleftrightarrow> (\<exists>g < k. i \<in> set (members_of graph g))"
  using assms by (subst foldl_update_nth) (auto simp: group_ok_def)

lemma validate_group_iff:
  assumes "\<forall>g < k. group_ok graph g" "k < length (g_clusters graph)"
    and start: "0 < k \<longrightarrow> start = hd (members_of graph (k - 1))"
  shows "validate_group graph (seen_upto graph k, start) k = Inr t \<longleftrightarrow>
     group_ok graph k \<and> t = (seen_upto graph (Suc k), hd (members_of graph k))"
proof -
  have members: "fold_err (validate_member graph k) (seen_upto graph k) [0..<length (members_of graph k)] = Inr seen' \<longleftrightarrow>
      members_ok graph k (seen_upto graph k) (members_of graph k) \<and>
      seen' = seen_upto graph (Suc k)" for seen'
    using validate_members_iff [of "seen_upto graph k" graph k "length (members_of graph k)" seen'] assms(2)
    by simp
  have fresh: "members_ok graph k (seen_upto graph k) (members_of graph k) \<longleftrightarrow>
      linked (g_ops graph) (members_of graph k) \<and>
      (\<forall>m \<in> set (members_of graph k). m < length (g_ops graph) \<and> g_opClusters graph ! m = k)"
  proof -
    have "\<not> seen_upto graph k ! m" if "m < length (g_ops graph)" "g_opClusters graph ! m = k" for m
      using that assms(1) by (subst seen_upto_nth) (auto simp: group_ok_def)
    then show ?thesis using linked_distinct unfolding members_ok_def by blast
  qed
  show ?thesis
    unfolding validate_group_def group_ok_def using start members fresh
    by (auto simp: Let_def bind_err_Inr_iff not_le)
qed

lemma validate_groups_iff:
  assumes "k \<le> length (g_clusters graph)"
  shows "fold_err (validate_group graph) (replicate (length (g_ops graph)) False, 0) [0..<k] = Inr t \<longleftrightarrow>
     (\<forall>g < k. group_ok graph g) \<and>
     t = (seen_upto graph k, if k = 0 then 0 else hd (members_of graph (k - 1)))"
  using assms
proof (induction k arbitrary: t)
  case (Suc k)
  define start where "start = (if k = 0 then 0 else hd (members_of graph (k - 1)))"
  have IH: "fold_err (validate_group graph) (replicate (length (g_ops graph)) False, 0) [0..<k] = Inr s \<longleftrightarrow>
      (\<forall>g < k. group_ok graph g) \<and> s = (seen_upto graph k, start)" for s
    using Suc.IH [of s] Suc.prems unfolding start_def by simp
  have step: "(\<forall>g < Suc k. P g) \<longleftrightarrow> (\<forall>g < k. P g) \<and> P k" for P by (auto simp: less_Suc_eq)
  have "fold_err (validate_group graph) (replicate (length (g_ops graph)) False, 0) [0..<Suc k] = Inr t \<longleftrightarrow>
     (\<exists>s. ((\<forall>g < k. group_ok graph g) \<and> s = (seen_upto graph k, start)) \<and> validate_group graph s k = Inr t)"
    unfolding upt_Suc_append [OF le0] fold_err_append bind_err_Inr_iff IH
    by (cases t) (simp add: bind_err_Inr_iff)
  also have "\<dots> \<longleftrightarrow> (\<forall>g < k. group_ok graph g) \<and> validate_group graph (seen_upto graph k, start) k = Inr t"
    by blast
  also have "\<dots> \<longleftrightarrow> (\<forall>g < k. group_ok graph g) \<and> group_ok graph k \<and>
      t = (seen_upto graph (Suc k), hd (members_of graph k))"
    using validate_group_iff [of k graph start t] Suc.prems unfolding start_def by fastforce
  finally show ?case unfolding step by simp
qed auto

lemma chain_sorted:
  fixes f :: "nat \<Rightarrow> nat"
  shows "(\<forall>g < n. 0 < g \<longrightarrow> f (g - 1) < f g) \<longleftrightarrow> sorted_wrt (<) (map f [0..<n])"
proof (induction n)
  case (Suc n)
  have step: "(\<forall>g < Suc n. P g) \<longleftrightarrow> (\<forall>g < n. P g) \<and> P n" for P by (auto simp: less_Suc_eq)
  have last: "(0 < n \<longrightarrow> f (n - 1) < f n) \<longleftrightarrow> (\<forall>g < n. f g < f n)" if sorted: "sorted_wrt (<) (map f [0..<n])"
  proof (cases n)
    case (Suc m)
    have "f g \<le> f m" if "g < n" for g
      using that Suc sorted_wrt_nth_less [OF sorted, of g m] by (cases "g = m") (auto simp del: upt_Suc)
    then have "f g < f n" if "g < n" "f m < f n" for g using that by (meson le_less_trans)
    moreover have "(0 < n \<longrightarrow> f (n - 1) < f n) \<longleftrightarrow> f m < f n" "m < n" by (simp_all add: Suc)
    ultimately show ?thesis by blast
  qed simp
  show ?case unfolding step Suc using last by (auto simp: sorted_wrt_append)
qed simp

lemma groups_partition:
  assumes "length (g_opClusters graph) = length (g_ops graph)"
  shows "(\<forall>g < length (g_clusters graph). group_ok graph g) \<and>
      False \<notin> set (seen_upto graph (length (g_clusters graph))) \<longleftrightarrow>
    partition_ok (g_ops graph) (map cl_members (g_clusters graph)) (g_opClusters graph)"
proof -
  let ?n = "length (g_clusters graph)"
  have order: "(\<forall>g < ?n. 0 < g \<longrightarrow> hd (members_of graph (g - 1)) < hd (members_of graph g)) \<longleftrightarrow>
      sorted_wrt (<) (map hd (map cl_members (g_clusters graph)))"
  proof -
    have "map hd (map cl_members (g_clusters graph)) = map (\<lambda>g. hd (members_of graph g)) [0..<?n]"
      by (rule nth_equalityI) auto
    then show ?thesis using chain_sorted [of ?n "\<lambda>g. hd (members_of graph g)"] by simp
  qed
  have all_seen: "False \<notin> set (seen_upto graph ?n) \<longleftrightarrow>
      (\<forall>op < length (g_ops graph). g_opClusters graph ! op < ?n \<and> op \<in> set (members_of graph (g_opClusters graph ! op)))"
    if ok: "\<forall>g < ?n. group_ok graph g"
  proof -
    have "False \<notin> set (seen_upto graph ?n) \<longleftrightarrow>
        (\<forall>op < length (g_ops graph). \<exists>g < ?n. op \<in> set (members_of graph g))"
      using seen_upto_nth [OF ok] by (auto simp: in_set_conv_nth)
    also have "\<dots> \<longleftrightarrow> (\<forall>op < length (g_ops graph). g_opClusters graph ! op < ?n \<and>
        op \<in> set (members_of graph (g_opClusters graph ! op)))"
      using ok by (auto simp: group_ok_def)
    finally show ?thesis .
  qed
  have ok_iff: "(\<forall>g < ?n. group_ok graph g) \<longleftrightarrow>
      (\<forall>g < ?n. members_of graph g \<noteq> [] \<and> length (members_of graph g) \<le> 64 \<and>
         linked (g_ops graph) (members_of graph g) \<and>
         (\<forall>m \<in> set (members_of graph g). m < length (g_ops graph) \<and> g_opClusters graph ! m = g)) \<and>
      sorted_wrt (<) (map hd (map cl_members (g_clusters graph)))"
    unfolding group_ok_def order [symmetric] by blast
  have part: "partition_ok (g_ops graph) (map cl_members (g_clusters graph)) (g_opClusters graph) \<longleftrightarrow>
      (\<forall>g < ?n. group_ok graph g) \<and>
      (\<forall>op < length (g_ops graph). g_opClusters graph ! op < ?n \<and> op \<in> set (members_of graph (g_opClusters graph ! op)))"
    unfolding partition_ok_def ok_iff using assms by (simp cong: conj_cong)
  show ?thesis
    using all_seen part by blast
qed

text \<open>The derived edges, once every edge has been taken: the clusters before and after each.\<close>

definition edge_order_ok :: "compiled_graph \<Rightarrow> bool" where
  "edge_order_ok graph \<longleftrightarrow> (\<forall>oper < length (g_ops graph). \<forall>p \<in> set (op_predecessors (g_ops graph ! oper)).
     p < oper \<and> g_opClusters graph ! p \<le> g_opClusters graph ! oper)"

definition cluster_edges_ok :: "compiled_graph \<Rightarrow> bool" where
  "cluster_edges_ok graph \<longleftrightarrow> (\<forall>g < length (g_clusters graph).
     cl_predecessors (g_clusters graph ! g) = sorted_list_of_set (before_clusters (g_ops graph) (g_opClusters graph) g) \<and>
     cl_successors (g_clusters graph ! g) = sorted_list_of_set (after_clusters (g_ops graph) (g_opClusters graph) g))"

lemma vec_unique_of_set: "set xs = A \<Longrightarrow> vec_unique xs = sorted_list_of_set A"
  by (rule sorted_distinct_set_unique) auto

lemma sorted_list_of_set_iff:
  "finite A \<Longrightarrow> xs = sorted_list_of_set A \<longleftrightarrow> sorted xs \<and> distinct xs \<and> set xs = A"
  by (auto intro: sorted_distinct_set_unique)

lemma finite_before_clusters [simp]: "finite (before_clusters ops M g)"
proof -
  have "before_clusters ops M g \<subseteq> (\<lambda>p. M ! p) ` (\<Union>oper \<in> {..<length ops}. set (op_predecessors (ops ! oper)))"
    by (auto simp: before_clusters_def)
  then show ?thesis by (rule finite_subset) auto
qed

lemma finite_after_clusters [simp]: "finite (after_clusters ops M g)"
proof -
  have "after_clusters ops M g \<subseteq> (\<lambda>oper. M ! oper) ` {..<length ops}"
    by (auto simp: after_clusters_def)
  then show ?thesis by (rule finite_subset) auto
qed

lemma clusters_ok_alt:
  "clusters_ok graph \<longleftrightarrow>
     partition_ok (g_ops graph) (map cl_members (g_clusters graph)) (g_opClusters graph) \<and>
     edge_order_ok graph \<and> cluster_edges_ok graph"
  unfolding clusters_ok_def edge_order_ok_def cluster_edges_ok_def
  by (simp add: sorted_list_of_set_iff conj_assoc)

lemma validate_edges_order:
  assumes "fold_err (validate_edges graph) edges [0..<length (g_ops graph)] = Inr edges'"
  shows "edge_order_ok graph"
proof -
  have one: "p < oper \<and> g_opClusters graph ! p \<le> g_opClusters graph ! oper"
    if "validate_edges graph e oper = Inr e'" "p \<in> set (op_predecessors (g_ops graph ! oper))" for e e' oper p
    using fold_err_all [OF that(1) [unfolded validate_edges_def],
        of "\<lambda>p. p < oper \<and> g_opClusters graph ! p \<le> g_opClusters graph ! oper"] that(2)
    by (fastforce simp: Let_def split: prod.splits if_splits)
  show ?thesis
    using fold_err_all [OF assms, of "\<lambda>oper. \<forall>p \<in> set (op_predecessors (g_ops graph ! oper)).
        p < oper \<and> g_opClusters graph ! p \<le> g_opClusters graph ! oper"] one
    unfolding edge_order_ok_def by auto
qed

lemma validate_edges_result:
  assumes "edge_order_ok graph"
    and part: "partition_ok (g_ops graph) (map cl_members (g_clusters graph)) (g_opClusters graph)"
  shows "\<exists>preds succs. fold_err (validate_edges graph)
       (replicate (length (g_clusters graph)) [], replicate (length (g_clusters graph)) []) [0..<length (g_ops graph)] =
       Inr (preds, succs) \<and>
     (\<forall>g < length (g_clusters graph). set (preds ! g) = before_clusters (g_ops graph) (g_opClusters graph) g \<and>
        set (succs ! g) = after_clusters (g_ops graph) (g_opClusters graph) g)"
proof -
  let ?n = "length (g_clusters graph)"
  obtain preds succs where fold: "foldl (\<lambda>(preds, succs) (oper, p).
       let a = g_opClusters graph ! p; b = g_opClusters graph ! oper in
       if a \<noteq> b then (preds[b := preds ! b @ [a]], succs[a := succs ! a @ [b]]) else (preds, succs))
      (replicate ?n [], replicate ?n []) (op_edges (g_ops graph)) = (preds, succs)"
    by (meson surj_pair)
  have run: "fold_err (validate_edges graph) (replicate ?n [], replicate ?n []) [0..<length (g_ops graph)] =
      Inr (preds, succs)"
    using validate_edges_fold [of graph "(replicate ?n [], replicate ?n [])"] assms(1) fold
    unfolding edge_order_ok_def by simp
  have range: "g_opClusters graph ! oper < ?n" if "oper < length (g_ops graph)" for oper
    using part that by (simp add: partition_ok_def)
  have "g_opClusters graph ! oper < ?n \<and> g_opClusters graph ! p < ?n"
    if "(oper, p) \<in> set (op_edges (g_ops graph))" for oper p
  proof -
    have "oper < length (g_ops graph)" "p < oper" using that assms(1) by (auto simp: edge_order_ok_def)
    then show ?thesis using range by simp
  qed
  then have "\<forall>(oper, p) \<in> set (op_edges (g_ops graph)). g_opClusters graph ! oper < ?n \<and> g_opClusters graph ! p < ?n"
    by blast
  from validate_edges_spec [OF this _ _ fold]
  have "\<forall>g < ?n. set (preds ! g) = before_clusters (g_ops graph) (g_opClusters graph) g \<and>
        set (succs ! g) = after_clusters (g_ops graph) (g_opClusters graph) g"
    by (simp add: edges_op_edges)
  with run show ?thesis by blast
qed


definition validate_tail :: "compiled_graph \<Rightarrow> graph_error + unit" where
  "validate_tail graph =
     bind_err (fold_err (validate_edges graph) (replicate (length (g_clusters graph)) [], replicate (length (g_clusters graph)) [])
        [0..<length (g_ops graph)])
     (\<lambda>(preds, succs).
        fold_err (\<lambda>_ grp.
           if cl_predecessors (g_clusters graph ! grp) \<noteq> vec_unique (preds ! grp) \<or>
              cl_successors (g_clusters graph ! grp) \<noteq> vec_unique (succs ! grp)
           then Inl ClusterEdges else Inr ()) () [0..<length (g_clusters graph)])"

lemma validate_tail_iff:
  assumes part: "partition_ok (g_ops graph) (map cl_members (g_clusters graph)) (g_opClusters graph)"
  shows "validate_tail graph = Inr () \<longleftrightarrow> edge_order_ok graph \<and> cluster_edges_ok graph"
proof (cases "edge_order_ok graph")
  case True
  let ?groups = "length (g_clusters graph)"
  from validate_edges_result [OF True part] obtain preds succs where run:
    "fold_err (validate_edges graph) (replicate ?groups [], replicate ?groups []) [0..<length (g_ops graph)] = Inr (preds, succs)"
    "\<forall>g < ?groups. set (preds ! g) = before_clusters (g_ops graph) (g_opClusters graph) g \<and>
      set (succs ! g) = after_clusters (g_ops graph) (g_opClusters graph) g" by blast
  have sets: "vec_unique (preds ! g) = sorted_list_of_set (before_clusters (g_ops graph) (g_opClusters graph) g)"
    "vec_unique (succs ! g) = sorted_list_of_set (after_clusters (g_ops graph) (g_opClusters graph) g)"
    if "g < ?groups" for g
    using run(2) that by (simp_all add: vec_unique_of_set)
  have "validate_tail graph = Inr () \<longleftrightarrow>
      (\<forall>g \<in> set [0..<?groups]. \<not> (cl_predecessors (g_clusters graph ! g) \<noteq> vec_unique (preds ! g) \<or>
            cl_successors (g_clusters graph ! g) \<noteq> vec_unique (succs ! g)))"
    unfolding validate_tail_def run(1) bind_err.simps prod.case by (rule fold_err_check)
  also have "\<dots> \<longleftrightarrow> cluster_edges_ok graph"
    unfolding cluster_edges_ok_def using sets by (simp add: Ball_def)
  finally show ?thesis using True by simp
next
  case False
  have "validate_tail graph \<noteq> Inr ()"
  proof
    assume "validate_tail graph = Inr ()"
    then obtain edges' where "fold_err (validate_edges graph) (replicate (length (g_clusters graph)) [], replicate (length (g_clusters graph)) [])
        [0..<length (g_ops graph)] = Inr edges'"
      unfolding validate_tail_def bind_err_Inr_iff by blast
    from validate_edges_order [OF this] False show False by simp
  qed
  then show ?thesis using False by simp
qed

lemma validate_unfold:
  "RigExecValidateOpClusters graph =
    (if length (g_opClusters graph) \<noteq> length (g_ops graph) \<or> (length (g_ops graph) = 0 \<and> length (g_clusters graph) \<noteq> 0)
     then Inl ClusterCardinality
     else bind_err (fold_err (validate_group graph) (replicate (length (g_ops graph)) False, 0) [0..<length (g_clusters graph)])
        (\<lambda>(seen, previousStart). if False \<in> set seen then Inl OperationUnclustered else validate_tail graph))"
  unfolding RigExecValidateOpClusters_def Let_def validate_tail_def by (rule refl)

lemma validate_groups_then:
  "bind_err (fold_err (validate_group graph) (replicate (length (g_ops graph)) False, 0) [0..<length (g_clusters graph)])
        (\<lambda>(seen, previousStart). if False \<in> set seen then Inl OperationUnclustered else rest) = Inr () \<longleftrightarrow>
   (\<forall>g < length (g_clusters graph). group_ok graph g) \<and>
   False \<notin> set (seen_upto graph (length (g_clusters graph))) \<and> rest = Inr ()"
  (is "bind_err ?fold ?cont = _ \<longleftrightarrow> ?ok")
proof -
  define last where "last = (if length (g_clusters graph) = 0 then 0
      else hd (members_of graph (length (g_clusters graph) - 1)))"
  have "bind_err ?fold ?cont = Inr () \<longleftrightarrow> (\<exists>t. ?fold = Inr t \<and> ?cont t = Inr ())"
    by (rule bind_err_Inr_iff)
  also have "\<dots> \<longleftrightarrow> (\<exists>t. ((\<forall>g < length (g_clusters graph). group_ok graph g) \<and>
      t = (seen_upto graph (length (g_clusters graph)), last)) \<and> ?cont t = Inr ())"
    unfolding last_def validate_groups_iff [OF order_refl] by (rule refl)
  also have "\<dots> \<longleftrightarrow> (\<forall>g < length (g_clusters graph). group_ok graph g) \<and>
      ?cont (seen_upto graph (length (g_clusters graph)), last) = Inr ()"
    by blast
  also have "\<dots> \<longleftrightarrow> ?ok"
    by (cases "False \<in> set (seen_upto graph (length (g_clusters graph)))") simp_all
  finally show ?thesis .
qed

lemma partition_empty:
  assumes "partition_ok ops groups membership" "length ops = 0"
  shows "length groups = 0"
proof (rule ccontr)
  assume "length groups \<noteq> 0"
  then have "groups ! 0 \<noteq> []" "\<forall>m \<in> set (groups ! 0). m < length ops"
    using partition_ok_sub(1,4) [OF assms(1), of 0] by auto
  then show False using assms(2) by (cases "groups ! 0") auto
qed

lemma validate_iff: "RigExecValidateOpClusters graph = Inr () \<longleftrightarrow> clusters_ok graph"
proof -
  let ?part = "partition_ok (g_ops graph) (map cl_members (g_clusters graph)) (g_opClusters graph)"
  have card: "length (g_opClusters graph) = length (g_ops graph)"
    "length (g_ops graph) = 0 \<Longrightarrow> length (g_clusters graph) = 0" if ?part
    using that partition_empty [OF that] by (simp_all add: partition_ok_def)
  have "RigExecValidateOpClusters graph = Inr () \<longleftrightarrow> ?part \<and> validate_tail graph = Inr ()"
  proof (cases "length (g_opClusters graph) \<noteq> length (g_ops graph) \<or> (length (g_ops graph) = 0 \<and> length (g_clusters graph) \<noteq> 0)")
    case True
    then show ?thesis using card unfolding validate_unfold by auto
  next
    case False
    then have len: "length (g_opClusters graph) = length (g_ops graph)" by simp
    show ?thesis
      unfolding validate_unfold if_not_P [OF False] validate_groups_then groups_partition [OF len, symmetric] by simp
  qed
  then show ?thesis unfolding clusters_ok_alt using validate_tail_iff by blast
qed

section \<open>The lowering passes the judge\<close>

lemma lower_unfold:
  "RigExecLowerOpClusters graph costs grain = Inr out \<longleftrightarrow>
     double_finite grain \<and> \<not> double_less grain (Fin 0) \<and>
     length (g_ops graph) \<le> uint32_max \<and> (costs = [] \<or> length costs = length (g_ops graph)) \<and>
     (\<forall>cost \<in> set costs. double_finite cost \<and> \<not> double_less cost (Fin 0)) \<and>
     (\<exists>clusters membership clusters'.
        fold_err (lower_start (g_ops graph) costs grain) ([], replicate (length (g_ops graph)) uint32_max)
          [0..<length (g_ops graph)] = Inr (clusters, membership) \<and>
        fold_err (lower_edges (g_ops graph) membership) clusters [0..<length (g_ops graph)] = Inr clusters' \<and>
        out = graph\<lparr>g_clusters := map (\<lambda>c. c\<lparr>cl_predecessors := vec_unique (cl_predecessors c),
                                         cl_successors := vec_unique (cl_successors c)\<rparr>) clusters',
                    g_opClusters := membership\<rparr>)"
  (is "?lhs \<longleftrightarrow> ?grain1 \<and> ?grain2 \<and> ?small \<and> ?count \<and> ?costs \<and> ?run")
proof -
  define body where "body =
     bind_err (fold_err (lower_start (g_ops graph) costs grain) ([], replicate (length (g_ops graph)) uint32_max)
          [0..<length (g_ops graph)])
       (\<lambda>(clusters, membership).
         bind_err (fold_err (lower_edges (g_ops graph) membership) clusters [0..<length (g_ops graph)])
        (\<lambda>clusters'.
         Inr (graph\<lparr>g_clusters := map (\<lambda>c. c\<lparr>cl_predecessors := vec_unique (cl_predecessors c),
                                            cl_successors := vec_unique (cl_successors c)\<rparr>) clusters',
                    g_opClusters := membership\<rparr>)))"
  have guards: "(if A then Inl e1 else if B then Inl e2 else if C then Inl e3 else r) = Inr out \<longleftrightarrow>
      \<not> A \<and> \<not> B \<and> \<not> C \<and> r = Inr out" for A B C and e1 e2 e3 :: graph_error and r
    by simp
  have "?lhs \<longleftrightarrow> \<not> (\<not> double_finite grain \<or> double_less grain (Fin 0)) \<and>
      \<not> (uint32_max < length (g_ops graph) \<or> costs \<noteq> [] \<and> length costs \<noteq> length (g_ops graph)) \<and>
      \<not> (\<exists>cost \<in> set costs. \<not> double_finite cost \<or> double_less cost (Fin 0)) \<and> body = Inr out"
    unfolding RigExecLowerOpClusters_def Let_def body_def [symmetric] by (rule guards)
  moreover have "body = Inr out \<longleftrightarrow> ?run"
  proof
    assume "body = Inr out"
    then show ?run unfolding body_def bind_err_Inr_iff by (auto simp del: upt_Suc simp: bind_err_Inr_iff)
  next
    assume ?run
    then show "body = Inr out" unfolding body_def by (elim exE conjE) simp
  qed
  ultimately show ?thesis by (simp only: de_Morgan_disj not_not not_less bex_simps not_imp de_Morgan_conj) blast
qed

lemma lower_ok:
  assumes canonical: "canonical_ops (g_ops graph)"
    and run: "RigExecLowerOpClusters graph costs grain = Inr out"
  shows "clusters_ok out \<and> out = graph\<lparr>g_clusters := g_clusters out, g_opClusters := g_opClusters out\<rparr>"
proof -
  let ?ops = "g_ops graph"
  let ?n = "length ?ops"
  let ?uniq = "map (\<lambda>c. c\<lparr>cl_predecessors := vec_unique (cl_predecessors c), cl_successors := vec_unique (cl_successors c)\<rparr>)"
  have small: "?n \<le> uint32_max" using run by (simp only: lower_unfold)
  obtain clusters membership where starts:
    "fold_err (lower_start ?ops costs grain) ([], replicate ?n uint32_max) [0..<?n] = Inr (clusters, membership)"
    "lower_inv ?ops ?n (clusters, membership)"
    using lower_starts [OF canonical small, of ?n costs grain] by auto
  define clusters' where "clusters' = foldl (\<lambda>cs (oper, p). if membership ! p \<noteq> membership ! oper
                  then add_cluster_edge (membership ! p) (membership ! oper) cs else cs) clusters (op_edges ?ops)"
  have out: "out = graph\<lparr>g_clusters := ?uniq clusters', g_opClusters := membership\<rparr>"
  proof -
    obtain c m c' where result:
      "fold_err (lower_start ?ops costs grain) ([], replicate ?n uint32_max) [0..<?n] = Inr (c, m)"
      "fold_err (lower_edges ?ops m) c [0..<?n] = Inr c'"
      "out = graph\<lparr>g_clusters := ?uniq c', g_opClusters := m\<rparr>"
      using run unfolding lower_unfold by blast
    moreover have "c = clusters" "m = membership" using result(1) starts(1) by simp_all
    moreover have "c' = clusters'"
      using result(2) lower_edges_fold [OF canonical, of membership clusters] calculation(4,5)
      unfolding clusters'_def by simp
    ultimately show ?thesis by simp
  qed
  have part: "partition_ok ?ops (map cl_members clusters) membership"
    using lower_inv_partition starts(2) by blast
  have pred_less: "p < oper" if "oper < ?n" "p \<in> set (op_predecessors (?ops ! oper))" for oper p
    using op_edges_okD(5) [OF canonical_opsD [OF canonical that(1)] that(2)] .
  have range: "\<forall>(oper, p) \<in> set (op_edges ?ops). membership ! oper < length clusters \<and> membership ! p < length clusters"
  proof -
    have "membership ! oper < length clusters" if "oper < ?n" for oper
      using part that by (simp add: partition_ok_def)
    moreover have "p < ?n" if "oper < ?n" "p \<in> set (op_predecessors (?ops ! oper))" for oper p
      using pred_less [OF that] that(1) by simp
    ultimately show ?thesis by auto
  qed
  have empty: "\<forall>g < length clusters. cl_predecessors (clusters ! g) = [] \<and> cl_successors (clusters ! g) = []"
    using starts(2) by (auto simp: lower_inv_def)
  from lower_edges_spec [OF range] have spec: "length clusters' = length clusters"
    "\<forall>g < length clusters. cl_members (clusters' ! g) = cl_members (clusters ! g) \<and>
       set (cl_predecessors (clusters' ! g)) = before_clusters ?ops membership g \<and>
       set (cl_successors (clusters' ! g)) = after_clusters ?ops membership g"
    unfolding clusters'_def [symmetric] using empty by (simp_all add: edges_op_edges)
  have members: "map cl_members (?uniq clusters') = map cl_members clusters"
    by (rule nth_equalityI) (simp_all add: spec)
  have "edge_order_ok out"
    using partition_topological [OF canonical part] pred_less by (simp add: edge_order_ok_def out)
  moreover have "cluster_edges_ok out"
    using spec by (simp add: cluster_edges_ok_def out vec_unique_of_set)
  ultimately have "clusters_ok out"
    unfolding clusters_ok_alt using part members by (simp add: out)
  then show ?thesis by (simp add: out)
qed

text \<open>On a canonical graph the lowering fails only on its own argument checks.\<close>

lemma lower_total:
  assumes canonical: "canonical_ops (g_ops graph)" and small: "length (g_ops graph) \<le> uint32_max"
    and "costs = [] \<or> length costs = length (g_ops graph)"
    and "\<forall>cost \<in> set costs. double_finite cost \<and> \<not> double_less cost (Fin 0)"
    and "double_finite grain" "\<not> double_less grain (Fin 0)"
  shows "\<exists>out. RigExecLowerOpClusters graph costs grain = Inr out"
proof -
  let ?ops = "g_ops graph"
  obtain clusters membership where
    "fold_err (lower_start ?ops costs grain) ([], replicate (length ?ops) uint32_max) [0..<length ?ops] = Inr (clusters, membership)"
    using lower_starts [OF canonical small, of "length ?ops" costs grain] by auto
  then show ?thesis
    unfolding lower_unfold using small assms(3-6) lower_edges_fold [OF canonical, of membership clusters] by blast
qed

end
