(* ===== verification/Op_Compile.thy ===== *)
theory Op_Compile
  imports Op_Components Op_Clusters
begin

text \<open>
  \<open>RigExecCompileOpGraph\<close> of \<open>opGraph.cpp\<close>: the descriptors are scanned for duplicate keys
  and producers, the dependencies resolved into predecessor and successor lists, the
  cycles set aside (those a retained proof names first, then those found), the remaining
  operations put into canonical order by a priority queue on the key, and the compiled
  graph with its readers, volatile operations and critical path built and clustered.
\<close>

section \<open>Scanning the descriptors\<close>

abbreviation op_key :: "op_descriptor list \<Rightarrow> nat \<Rightarrow> string" where
  "op_key descs i \<equiv> desc_key (descs ! i)"

definition scan_write ::
  "op_descriptor list \<Rightarrow> value_id set \<Rightarrow> nat \<Rightarrow> (value_id \<Rightarrow> nat option) \<Rightarrow> value_id \<Rightarrow>
     graph_error + (value_id \<Rightarrow> nat option)" where
  "scan_write descs leafSet i producers v =
     (let producers' = (if producers v = None then producers(v \<mapsto> i) else producers);
          first = the (producers' v) in
      if first \<noteq> i then Inl (MultipleProducers v (op_key descs first) (op_key descs i))
      else if v \<in> leafSet then Inl (WritesSampledLeaf (op_key descs i))
      else Inr producers')"

definition scan_descriptor ::
  "op_descriptor list \<Rightarrow> value_id set \<Rightarrow> (value_id \<Rightarrow> nat option) \<times> string set \<Rightarrow> nat \<Rightarrow>
     graph_error + (value_id \<Rightarrow> nat option) \<times> string set" where
  "scan_descriptor descs leafSet = (\<lambda>(producers, keys) i.
     let key = op_key descs i in
     if key = [] \<or> key \<in> keys then Inl (BadOperationKey key)
     else bind_err (fold_err (scan_write descs leafSet i) producers (desc_writes (descs ! i)))
       (\<lambda>producers'. Inr (producers', insert key keys)))"

section \<open>Resolving the dependencies\<close>

definition link_reads ::
  "op_descriptor list \<Rightarrow> value_id set \<Rightarrow> (value_id \<Rightarrow> nat option) \<Rightarrow> nat \<Rightarrow> graph_error + nat list" where
  "link_reads descs leafSet producers i =
     fold_err (\<lambda>ps v. case producers v of Some p \<Rightarrow> Inr (ps @ [p])
         | None \<Rightarrow> if v \<in> leafSet then Inr ps else Inl (ReadHasNoProducer (op_key descs i)))
       (desc_predecessors (descs ! i)) (desc_reads (descs ! i))"

definition link_descriptor ::
  "op_descriptor list \<Rightarrow> value_id set \<Rightarrow> (value_id \<Rightarrow> nat option) \<Rightarrow> nat list list \<times> nat list list \<Rightarrow> nat \<Rightarrow>
     graph_error + nat list list \<times> nat list list" where
  "link_descriptor descs leafSet producers = (\<lambda>(preds, succs) i.
     if \<exists>p \<in> set (desc_predecessors (descs ! i)). length descs \<le> p
     then Inl (PredecessorOutOfRange (op_key descs i))
     else bind_err (link_reads descs leafSet producers i)
       (\<lambda>ps. let linked = vec_unique ps in
          Inr (preds[i := linked], foldl (\<lambda>ss p. ss[p := ss ! p @ [i]]) succs linked)))"

definition resolve_graph ::
  "op_descriptor list \<Rightarrow> value_id set \<Rightarrow> graph_error + string set \<times> nat list list \<times> nat list list" where
  "resolve_graph descs leafSet =
     bind_err (fold_err (scan_descriptor descs leafSet) (Map.empty, {}) [0..<length descs])
       (\<lambda>(producers, keys).
     bind_err (fold_err (link_descriptor descs leafSet producers)
         (replicate (length descs) [], replicate (length descs) []) [0..<length descs])
       (\<lambda>(preds, succs). Inr (keys, preds, map vec_unique succs)))"

section \<open>Retained exclusions\<close>

type_synonym cycle_report = "string list \<times> string list"

definition retain_report ::
  "string list \<times> cycle_report list \<Rightarrow> string list \<times> string list \<Rightarrow> graph_error + string list \<times> cycle_report list" where
  "retain_report = (\<lambda>(members, reports) (loop, component).
     if length loop < 2 \<or> hd loop \<noteq> last loop \<or> component = [] \<or> \<not> sorted component \<or> \<not> distinct_adj component
     then Inl InvalidRetainedReport
     else if [] \<in> set component then Inl EmptyRetainedMember
     else if \<exists>key \<in> set loop. key \<notin> set component then Inl RetainedLoopOutside
     else Inr (members @ component, reports @ [(loop, component)]))"

definition retain_key ::
  "op_descriptor list \<Rightarrow> string list \<Rightarrow> string set \<times> bool list \<Rightarrow> string \<Rightarrow> graph_error + string set \<times> bool list" where
  "retain_key descs members = (\<lambda>(retained, excluded) key.
     if key \<in> retained \<or> key \<notin> set members then Inl (UnprovedRetainedKey key)
     else case find (\<lambda>i. op_key descs i = key) [0..<length descs] of
         None \<Rightarrow> Inl (RetainedKeyUnknown key)
       | Some i \<Rightarrow> Inr (insert key retained, excluded[i := True]))"

definition remove_key ::
  "string set \<Rightarrow> string list \<Rightarrow> string set \<Rightarrow> string set \<Rightarrow> string \<Rightarrow> graph_error + string set" where
  "remove_key keys members retained removed key =
     (if key \<in> removed \<or> key \<in> retained \<or> key \<notin> set members then Inl (UnprovedRemovedKey key)
      else if key \<in> keys then Inl (RemovedKeyPresent key)
      else Inr (insert key removed))"

definition retain_exclusions ::
  "op_descriptor list \<Rightarrow> string set \<Rightarrow> exclusion_proof \<Rightarrow> graph_error + bool list \<times> cycle_report list" where
  "retain_exclusions descs keys proven =
     (if length (ex_cycles proven) \<noteq> length (ex_cycleMembers proven) then Inl RetainedCardinalityMismatch
      else bind_err (fold_err retain_report ([], []) (zip (ex_cycles proven) (ex_cycleMembers proven)))
        (\<lambda>(members, reports).
      bind_err (fold_err (retain_key descs members) ({}, replicate (length descs) False) (ex_keys proven))
        (\<lambda>(retained, excluded).
      bind_err (fold_err (remove_key keys members retained) {} (ex_removedKeys proven))
        (\<lambda>removed.
      case find (\<lambda>key. key \<notin> retained \<and> key \<notin> removed) (vec_unique members) of
          Some key \<Rightarrow> Inl (RetainedMemberUnmapped key)
        | None \<Rightarrow> Inr (excluded, reports)))))"

definition drop_excluded :: "bool list \<Rightarrow> nat list list \<Rightarrow> nat list list" where
  "drop_excluded excluded es =
     map (\<lambda>i. if excluded ! i then [] else filter (\<lambda>other. \<not> excluded ! other) (es ! i)) [0..<length es]"

section \<open>Setting cycles aside\<close>

definition report_component ::
  "op_descriptor list \<Rightarrow> nat list list \<Rightarrow> bool list \<times> cycle_report list \<Rightarrow> nat list \<Rightarrow> bool list \<times> cycle_report list" where
  "report_component descs succs = (\<lambda>(excluded, reports) component.
     (foldl (\<lambda>ex i. ex[i := True]) excluded component,
      reports @ [(Loop component succs (map desc_key descs), sort (map (op_key descs) component))]))"

section \<open>The canonical order\<close>

text \<open>One successor of the operation just taken. Its count cannot be zero here (each edge is
  counted once and released once), so the decrement does not wrap.\<close>

definition release ::
  "bool list \<Rightarrow> nat list \<times> nat list \<Rightarrow> nat \<Rightarrow> nat list \<times> nat list" where
  "release excluded = (\<lambda>(unresolved, ready) next.
     if next < length unresolved \<and> \<not> excluded ! next
     then (unresolved[next := unresolved ! next - 1],
           if unresolved ! next = 1 then ready @ [next] else ready)
     else (unresolved, ready))"

lemma release_measure:
  "sum_list (fst (foldl (release excluded) (unresolved, ready) nexts)) +
     length (snd (foldl (release excluded) (unresolved, ready) nexts))
   \<le> sum_list unresolved + length ready"
proof (induction nexts arbitrary: unresolved ready)
  case (Cons x xs)
  obtain u r where step: "release excluded (unresolved, ready) x = (u, r)" by fastforce
  then have "sum_list u + length r \<le> sum_list unresolved + length ready"
    using elem_le_sum_list [of x unresolved]
    by (auto simp: release_def sum_list_update split: if_splits)
  with Cons.IH [of u r] show ?case by (simp add: step)
qed simp

text \<open>The main loop: the ready operation of least key is taken until none is left.\<close>

function drain_ready ::
  "(nat \<Rightarrow> string) \<Rightarrow> nat list list \<Rightarrow> bool list \<Rightarrow> nat list \<Rightarrow> nat list \<Rightarrow> nat list \<Rightarrow> nat list" where
  "drain_ready key succs excluded unresolved ready order =
     (if ready = [] then order
      else let taken = arg_min_list key ready;
               (unresolved', ready') = foldl (release excluded) (unresolved, remove1 taken ready) (succs ! taken)
           in drain_ready key succs excluded unresolved' ready' (order @ [taken]))"
  by pat_completeness auto
termination
proof (relation "measure (\<lambda>(key, succs, excluded, unresolved, ready, order). sum_list unresolved + length ready)",
    goal_cases)
  case (2 key succs excluded unresolved ready order taken released unresolved' ready')
  have "taken \<in> set ready" using 2 arg_min_list_in by metis
  then have "length (remove1 taken ready) < length ready"
    using length_pos_if_in_set [of taken ready] by (simp add: length_remove1)
  moreover have "foldl (release excluded) (unresolved, remove1 taken ready) (succs ! taken) = (unresolved', ready')"
    using 2 by simp
  ultimately show ?case
    using release_measure [of excluded unresolved "remove1 taken ready" "succs ! taken"] by simp
qed simp

declare drain_ready.simps [simp del]

definition count_unresolved :: "bool list \<Rightarrow> nat list list \<Rightarrow> nat list" where
  "count_unresolved excluded preds =
     map (\<lambda>i. if excluded ! i then 0 else length (filter (\<lambda>p. \<not> excluded ! p) (preds ! i))) [0..<length preds]"

definition canonical_order ::
  "(nat \<Rightarrow> string) \<Rightarrow> nat list list \<Rightarrow> nat list list \<Rightarrow> bool list \<Rightarrow> nat list" where
  "canonical_order key preds succs excluded =
     (let unresolved = count_unresolved excluded preds;
          ready = filter (\<lambda>i. \<not> excluded ! i \<and> unresolved ! i = 0) [0..<length preds]
      in drain_ready key succs excluded unresolved ready [])"

section \<open>Building the graph\<close>

text \<open>\<open>int32_t(i)\<close> and \<open>uint32_t(x)\<close>: the canonical index is kept signed, with -1 for an
  excluded operation.\<close>

definition int32_of :: "nat \<Rightarrow> int" where
  "int32_of i = signed_take_bit 31 (int i)"

definition uint32_of :: "int \<Rightarrow> nat" where
  "uint32_of x = nat (take_bit 32 x)"

definition canonical_index :: "nat \<Rightarrow> nat list \<Rightarrow> int list" where
  "canonical_index n order = foldl (\<lambda>c i. c[order ! i := int32_of i]) (replicate n (- 1)) [0..<length order]"

record build_state =
  b_ops :: "compiled_op list"
  b_distance :: "nat list"
  b_readers :: "value_id \<Rightarrow> nat list option"
  b_volatileOps :: "nat list"
  b_longestPath :: nat

definition add_reader :: "nat \<Rightarrow> (value_id \<Rightarrow> nat list option) \<Rightarrow> value_id \<Rightarrow> value_id \<Rightarrow> nat list option" where
  "add_reader i readers v = readers(v \<mapsto> (case readers v of None \<Rightarrow> [] | Some is \<Rightarrow> is) @ [i])"

definition build_op ::
  "op_descriptor list \<Rightarrow> nat list list \<Rightarrow> nat list list \<Rightarrow> bool list \<Rightarrow> nat list \<Rightarrow> int list \<Rightarrow>
     build_state \<Rightarrow> nat \<Rightarrow> build_state" where
  "build_op descs preds succs excluded order index b i =
     (let old = order ! i;
          canonical = (\<lambda>other. uint32_of (index ! other));
          prior = map canonical (filter (\<lambda>p. \<not> excluded ! p) (preds ! old));
          distance = foldl max (b_distance b ! i) (map (\<lambda>c. b_distance b ! c + 1) prior);
          after = map canonical (filter (\<lambda>s. \<not> excluded ! s) (succs ! old))
      in \<lparr>b_ops = b_ops b @ [\<lparr>op_descriptor = (descs ! old)\<lparr>desc_predecessors := []\<rparr>, op_originalIndex = old,
             op_predecessors = vec_unique prior, op_successors = vec_unique after\<rparr>],
          b_distance = (b_distance b)[i := distance],
          b_readers = foldl (add_reader i) (b_readers b) (desc_reads (descs ! old)),
          b_volatileOps = (if desc_volatileInput (descs ! old) then b_volatileOps b @ [i] else b_volatileOps b),
          b_longestPath = max (b_longestPath b) distance\<rparr>)"

definition build_graph ::
  "op_descriptor list \<Rightarrow> nat list list \<Rightarrow> nat list list \<Rightarrow> bool list \<Rightarrow> nat list \<Rightarrow> cycle_report list \<Rightarrow>
     compiled_graph" where
  "build_graph descs preds succs excluded order reports =
     (let index = canonical_index (length descs) order;
          b = foldl (build_op descs preds succs excluded order index)
                \<lparr>b_ops = [], b_distance = replicate (length order) 1, b_readers = Map.empty,
                 b_volatileOps = [], b_longestPath = 0\<rparr> [0..<length order]
      in empty_graph\<lparr>g_ops := b_ops b, g_canonicalIndex := index,
           g_readers := (\<lambda>v. map_option vec_unique (b_readers b v)),
           g_cycles := map fst reports, g_cycleMembers := map snd reports,
           g_longestPath := b_longestPath b, g_volatileOps := b_volatileOps b\<rparr>)"

definition RigExecCompileOpGraph ::
  "op_descriptor list \<Rightarrow> value_id list \<Rightarrow> cycle_policy \<Rightarrow> exclusion_proof option \<Rightarrow> graph_error + compiled_graph" where
  "RigExecCompileOpGraph descs leaves policy retainedExclusions =
     (if uint32_max < length descs then Inl TooManyOperations
      else bind_err (resolve_graph descs (set leaves))
        (\<lambda>(keys, preds, succs).
      bind_err (case retainedExclusions of None \<Rightarrow> Inr (replicate (length descs) False, [])
                | Some proven \<Rightarrow> retain_exclusions descs keys proven)
        (\<lambda>(excluded, reports).
         let drop = (case retainedExclusions of None \<Rightarrow> False | Some proven \<Rightarrow> ex_keys proven \<noteq> []);
             preds' = (if drop then drop_excluded excluded preds else preds);
             succs' = (if drop then drop_excluded excluded succs else succs);
             (excluded', reports') = foldl (report_component descs succs') (excluded, reports) (Components succs' preds');
             reports'' = vec_unique reports'
         in if reports'' \<noteq> [] \<and> policy = Reject then Inl (OperationCycle (map fst reports''))
            else RigExecLowerOpClusters
              (build_graph descs preds' succs' excluded'
                 (canonical_order (op_key descs) preds' succs' excluded') reports'') [] (Fin 0))))"

end
