(* ===== verification/Op_Resolve.thy ===== *)
theory Op_Resolve
  imports Op_Compile
begin

text \<open>
  What the first half of \<open>RigExecCompileOpGraph\<close> decides. \<open>descs_ok\<close> is the condition under
  which the descriptors are accepted and \<open>depends\<close> the dependency relation they state; the
  lemmas show that the scan and the link loops succeed exactly on \<open>descs_ok\<close> and build
  exactly the sorted, unique lists of that relation, in both directions.
\<close>

definition depends :: "op_descriptor list \<Rightarrow> nat \<Rightarrow> nat \<Rightarrow> bool" where
  "depends descs p i \<longleftrightarrow> p < length descs \<and> i < length descs \<and>
     (p \<in> set (desc_predecessors (descs ! i)) \<or>
      (\<exists>v \<in> set (desc_reads (descs ! i)). v \<in> set (desc_writes (descs ! p))))"

definition keys_ok :: "op_descriptor list \<Rightarrow> value_id set \<Rightarrow> nat \<Rightarrow> bool" where
  "keys_ok descs leafSet i \<longleftrightarrow> op_key descs i \<noteq> [] \<and> (\<forall>j < i. op_key descs j \<noteq> op_key descs i) \<and>
     (\<forall>v \<in> set (desc_writes (descs ! i)). v \<notin> leafSet \<and> (\<forall>j < i. v \<notin> set (desc_writes (descs ! j))))"

definition inputs_ok :: "op_descriptor list \<Rightarrow> value_id set \<Rightarrow> nat \<Rightarrow> bool" where
  "inputs_ok descs leafSet i \<longleftrightarrow> (\<forall>p \<in> set (desc_predecessors (descs ! i)). p < length descs) \<and>
     (\<forall>v \<in> set (desc_reads (descs ! i)). v \<in> leafSet \<or> (\<exists>p < length descs. v \<in> set (desc_writes (descs ! p))))"

definition descs_ok :: "op_descriptor list \<Rightarrow> value_id set \<Rightarrow> bool" where
  "descs_ok descs leafSet \<longleftrightarrow>
     (\<forall>i < length descs. keys_ok descs leafSet i) \<and> (\<forall>i < length descs. inputs_ok descs leafSet i)"

section \<open>The scan\<close>

definition producer_upto :: "op_descriptor list \<Rightarrow> nat \<Rightarrow> value_id \<Rightarrow> nat option" where
  "producer_upto descs k v = find (\<lambda>i. v \<in> set (desc_writes (descs ! i))) [0..<k]"

lemma producer_upto_Suc:
  "producer_upto descs (Suc k) v = (case producer_upto descs k v of Some i \<Rightarrow> Some i
     | None \<Rightarrow> if v \<in> set (desc_writes (descs ! k)) then Some k else None)"
proof -
  have "find P (xs @ ys) = (case find P xs of Some x \<Rightarrow> Some x | None \<Rightarrow> find P ys)"
    for P and xs ys :: "nat list"
    by (induction xs) auto
  then show ?thesis by (auto simp: producer_upto_def split: option.split)
qed

lemma producer_upto_None: "producer_upto descs k v = None \<longleftrightarrow> (\<forall>j < k. v \<notin> set (desc_writes (descs ! j)))"
  by (auto simp: producer_upto_def find_None_iff)

lemma producer_upto_Some: "producer_upto descs k v = Some i \<Longrightarrow> i < k \<and> v \<in> set (desc_writes (descs ! i))"
  by (auto simp: producer_upto_def find_Some_iff)

lemma scan_writes_iff:
  "fold_err (scan_write descs leafSet i) producers vs = Inr out \<longleftrightarrow>
     (\<forall>v \<in> set vs. v \<notin> leafSet \<and> (producers v = None \<or> producers v = Some i)) \<and>
     out = (\<lambda>v. if v \<in> set vs then Some i else producers v)"
proof (induction vs arbitrary: producers)
  case (Cons v vs)
  have step: "scan_write descs leafSet i producers v = Inr p1 \<longleftrightarrow>
      v \<notin> leafSet \<and> (producers v = None \<or> producers v = Some i) \<and> p1 = producers(v \<mapsto> i)" for p1
    by (auto simp: scan_write_def Let_def)
  show ?case
  proof -
    have result: "(\<lambda>w. if w \<in> set vs then Some i else (producers(v \<mapsto> i)) w) =
        (\<lambda>w. if w \<in> set (v # vs) then Some i else producers w)" by auto
    have rest: "(\<forall>w \<in> set vs. w \<notin> leafSet \<and> ((producers(v \<mapsto> i)) w = None \<or> (producers(v \<mapsto> i)) w = Some i)) \<longleftrightarrow>
        (\<forall>w \<in> set vs. w \<notin> leafSet \<and> (producers w = None \<or> producers w = Some i))"
      if "producers v = None \<or> producers v = Some i"
      using that by auto
    have "fold_err (scan_write descs leafSet i) producers (v # vs) = Inr out \<longleftrightarrow>
        v \<notin> leafSet \<and> (producers v = None \<or> producers v = Some i) \<and>
        (\<forall>w \<in> set vs. w \<notin> leafSet \<and> ((producers(v \<mapsto> i)) w = None \<or> (producers(v \<mapsto> i)) w = Some i)) \<and>
        out = (\<lambda>w. if w \<in> set vs then Some i else (producers(v \<mapsto> i)) w)"
      unfolding fold_err.simps bind_err_Inr_iff step Cons.IH by blast
    then show ?thesis unfolding result using rest by auto
  qed
qed auto

lemma scan_descriptor_iff:
  "scan_descriptor descs leafSet (producer_upto descs k, op_key descs ` {..<k}) k = Inr out \<longleftrightarrow>
     keys_ok descs leafSet k \<and> out = (producer_upto descs (Suc k), op_key descs ` {..<Suc k})"
proof -
  have "(producer_upto descs k v = None \<or> producer_upto descs k v = Some k) \<longleftrightarrow>
      (\<forall>j < k. v \<notin> set (desc_writes (descs ! j)))" for v
    using producer_upto_Some [of descs k v k] by (auto simp: producer_upto_None)
  moreover have "(\<lambda>v. if v \<in> set (desc_writes (descs ! k)) then Some k else producer_upto descs k v) =
      producer_upto descs (Suc k)"
    if "\<forall>v \<in> set (desc_writes (descs ! k)). \<forall>j < k. v \<notin> set (desc_writes (descs ! j))"
  proof
    fix v
    show "(if v \<in> set (desc_writes (descs ! k)) then Some k else producer_upto descs k v) =
        producer_upto descs (Suc k) v"
      using that producer_upto_None [of descs k v] by (auto simp: producer_upto_Suc split: option.split)
  qed
  moreover have "op_key descs k \<in> op_key descs ` {..<k} \<longleftrightarrow> (\<exists>j < k. op_key descs j = op_key descs k)"
    by (auto simp: image_iff) (metis lessThan_iff)
  moreover have "op_key descs ` {..<Suc k} = insert (op_key descs k) (op_key descs ` {..<k})"
    by (simp add: lessThan_Suc)
  ultimately show ?thesis
    unfolding scan_descriptor_def keys_ok_def Let_def prod.case
    by (simp only: bind_err_Inr_iff scan_writes_iff split: if_splits) fastforce
qed

lemma scan_iff:
  "fold_err (scan_descriptor descs leafSet) (Map.empty, {}) [0..<k] = Inr out \<longleftrightarrow>
     (\<forall>i < k. keys_ok descs leafSet i) \<and> out = (producer_upto descs k, op_key descs ` {..<k})"
proof (induction k arbitrary: out)
  case 0
  show ?case by (auto simp: producer_upto_def fun_eq_iff)
next
  case (Suc k)
  have all: "(\<forall>i < Suc k. keys_ok descs leafSet i) \<longleftrightarrow> (\<forall>i < k. keys_ok descs leafSet i) \<and> keys_ok descs leafSet k"
    by (auto simp: less_Suc_eq)
  have "fold_err (scan_descriptor descs leafSet) (Map.empty, {}) [0..<Suc k] = Inr out \<longleftrightarrow>
      (\<exists>s. fold_err (scan_descriptor descs leafSet) (Map.empty, {}) [0..<k] = Inr s \<and>
         scan_descriptor descs leafSet s k = Inr out)"
    by (rule fold_err_upt_Suc_iff) simp
  also have "\<dots> \<longleftrightarrow> (\<forall>i < k. keys_ok descs leafSet i) \<and>
      scan_descriptor descs leafSet (producer_upto descs k, op_key descs ` {..<k}) k = Inr out"
    unfolding Suc by blast
  finally show ?case unfolding all scan_descriptor_iff by blast
qed

section \<open>The links\<close>

definition linked_preds :: "op_descriptor list \<Rightarrow> nat \<Rightarrow> nat list" where
  "linked_preds descs i = sorted_list_of_set {p. depends descs p i}"

definition linked_succs :: "op_descriptor list \<Rightarrow> nat \<Rightarrow> nat list" where
  "linked_succs descs p = sorted_list_of_set {i. depends descs p i}"

lemma finite_depends [simp]: "finite {p. depends descs p i}" "finite {i. depends descs p i}"
  by (auto intro: finite_subset [of _ "{..<length descs}"] simp: depends_def)

lemma link_reads_iff:
  "link_reads descs leafSet producers i = Inr ps \<longleftrightarrow>
     (\<forall>v \<in> set (desc_reads (descs ! i)). v \<in> leafSet \<or> producers v \<noteq> None) \<and>
     ps = desc_predecessors (descs ! i) @ List.map_filter producers (desc_reads (descs ! i))"
proof -
  have "fold_err (\<lambda>ps v. case producers v of Some p \<Rightarrow> Inr (ps @ [p])
         | None \<Rightarrow> if v \<in> leafSet then Inr ps else Inl (ReadHasNoProducer (op_key descs i))) start vs = Inr ps \<longleftrightarrow>
     (\<forall>v \<in> set vs. v \<in> leafSet \<or> producers v \<noteq> None) \<and> ps = start @ List.map_filter producers vs" for start vs
    by (induction vs arbitrary: start) (auto simp: List.map_filter_simps split: option.splits)
  then show ?thesis unfolding link_reads_def .
qed

lemma vec_unique_linked:
  assumes "\<forall>i < length descs. keys_ok descs leafSet i" "i < length descs" "inputs_ok descs leafSet i"
  shows "vec_unique (desc_predecessors (descs ! i) @
     List.map_filter (producer_upto descs (length descs)) (desc_reads (descs ! i))) = linked_preds descs i"
proof -
  let ?P = "producer_upto descs (length descs)"
  have unique: "?P v = Some p \<longleftrightarrow> p < length descs \<and> v \<in> set (desc_writes (descs ! p))" for v p
  proof
    assume p: "p < length descs \<and> v \<in> set (desc_writes (descs ! p))"
    then obtain q where q: "?P v = Some q" using producer_upto_None [of descs "length descs" v] by auto
    then have "q < length descs" "v \<in> set (desc_writes (descs ! q))"
      using producer_upto_Some by blast+
    then have "q = p" using p assms(1) unfolding keys_ok_def by (metis nat_neq_iff)
    then show "?P v = Some p" using q by simp
  qed (simp add: producer_upto_Some)
  have "set (desc_predecessors (descs ! i) @ List.map_filter ?P (desc_reads (descs ! i))) = {p. depends descs p i}"
    using assms(2,3) unique by (auto simp: set_map_filter depends_def inputs_ok_def)
  then show ?thesis unfolding linked_preds_def by (rule vec_unique_of_set)
qed

lemma push_successors_nth:
  assumes "distinct ps" "q < length ss"
  shows "foldl (\<lambda>ss p. ss[p := ss ! p @ [i]]) ss ps ! q = ss ! q @ (if q \<in> set ps then [i] else [])"
  using assms
proof (induction ps arbitrary: ss)
  case (Cons p ps)
  then show ?case by (cases "q = p") auto
qed simp

lemma length_push_successors [simp]: "length (foldl (\<lambda>ss p. ss[p := ss ! p @ [i]]) ss ps) = length ss"
  by (induction ps arbitrary: ss) auto

definition link_state :: "op_descriptor list \<Rightarrow> nat \<Rightarrow> nat list list \<times> nat list list" where
  "link_state descs k =
     (map (\<lambda>i. if i < k then linked_preds descs i else []) [0..<length descs],
      map (\<lambda>p. filter (depends descs p) [0..<k]) [0..<length descs])"

lemma link_descriptor_iff:
  assumes "\<forall>i < length descs. keys_ok descs leafSet i" "k < length descs"
  shows "link_descriptor descs leafSet (producer_upto descs (length descs)) (link_state descs k) k = Inr out \<longleftrightarrow>
     inputs_ok descs leafSet k \<and> out = link_state descs (Suc k)"
proof -
  let ?P = "producer_upto descs (length descs)"
  let ?preds = "map (\<lambda>i. if i < k then linked_preds descs i else []) [0..<length descs]"
  let ?succs = "map (\<lambda>p. filter (depends descs p) [0..<k]) [0..<length descs]"
  have state: "link_state descs k = (?preds, ?succs)" by (simp add: link_state_def)
  have inputs: "inputs_ok descs leafSet k \<longleftrightarrow> \<not> (\<exists>p \<in> set (desc_predecessors (descs ! k)). length descs \<le> p) \<and>
      (\<forall>v \<in> set (desc_reads (descs ! k)). v \<in> leafSet \<or> ?P v \<noteq> None)"
    by (auto simp: inputs_ok_def producer_upto_None not_le)
  have next_state: "(?preds[k := linked_preds descs k],
      foldl (\<lambda>ss p. ss[p := ss ! p @ [k]]) ?succs (linked_preds descs k)) = link_state descs (Suc k)"
  proof -
    have "?preds[k := linked_preds descs k] = map (\<lambda>i. if i < Suc k then linked_preds descs i else []) [0..<length descs]"
      using assms(2) by (intro nth_equalityI) (auto simp: nth_list_update)
    moreover have "foldl (\<lambda>ss p. ss[p := ss ! p @ [k]]) ?succs (linked_preds descs k) =
        map (\<lambda>p. filter (depends descs p) [0..<Suc k]) [0..<length descs]"
      by (rule nth_equalityI) (simp_all add: push_successors_nth linked_preds_def)
    ultimately show ?thesis by (simp only: link_state_def)
  qed
  have "link_descriptor descs leafSet ?P (link_state descs k) k = Inr out \<longleftrightarrow>
      inputs_ok descs leafSet k \<and>
      out = (let linked = vec_unique (desc_predecessors (descs ! k) @ List.map_filter ?P (desc_reads (descs ! k)))
             in (?preds[k := linked], foldl (\<lambda>ss p. ss[p := ss ! p @ [k]]) ?succs linked))"
    unfolding link_descriptor_def state prod.case inputs
    by (cases "\<exists>p \<in> set (desc_predecessors (descs ! k)). length descs \<le> p")
       (auto simp: bind_err_Inr_iff link_reads_iff Let_def)
  then show ?thesis
    using vec_unique_linked [OF assms] next_state by (auto simp: Let_def)
qed

lemma link_iff:
  assumes "\<forall>i < length descs. keys_ok descs leafSet i" "k \<le> length descs"
  shows "fold_err (link_descriptor descs leafSet (producer_upto descs (length descs)))
      (replicate (length descs) [], replicate (length descs) []) [0..<k] = Inr out \<longleftrightarrow>
    (\<forall>i < k. inputs_ok descs leafSet i) \<and> out = link_state descs k"
  using assms(2)
proof (induction k arbitrary: out)
  case 0
  have "link_state descs 0 = (replicate (length descs) [], replicate (length descs) [])"
    unfolding link_state_def by (auto intro: nth_equalityI)
  then show ?case by auto
next
  case (Suc k)
  have all: "(\<forall>i < Suc k. inputs_ok descs leafSet i) \<longleftrightarrow> (\<forall>i < k. inputs_ok descs leafSet i) \<and> inputs_ok descs leafSet k"
    by (auto simp: less_Suc_eq)
  let ?f = "link_descriptor descs leafSet (producer_upto descs (length descs))"
  let ?s = "(replicate (length descs) [], replicate (length descs) [])"
  have IH: "fold_err ?f ?s [0..<k] = Inr s \<longleftrightarrow> (\<forall>i < k. inputs_ok descs leafSet i) \<and> s = link_state descs k" for s
    using Suc by simp
  have "fold_err ?f ?s [0..<Suc k] = Inr out \<longleftrightarrow> (\<exists>s. fold_err ?f ?s [0..<k] = Inr s \<and> ?f s k = Inr out)"
    by (rule fold_err_upt_Suc_iff) simp
  also have "\<dots> \<longleftrightarrow> (\<forall>i < k. inputs_ok descs leafSet i) \<and> ?f (link_state descs k) k = Inr out"
    unfolding IH by blast
  also have "\<dots> \<longleftrightarrow> (\<forall>i < k. inputs_ok descs leafSet i) \<and> inputs_ok descs leafSet k \<and> out = link_state descs (Suc k)"
    using link_descriptor_iff [OF assms(1), of k out] Suc.prems by simp
  finally show ?case unfolding all by blast
qed

lemma link_state_done:
  "fst (link_state descs (length descs)) = map (linked_preds descs) [0..<length descs]"
  "map vec_unique (snd (link_state descs (length descs))) = map (linked_succs descs) [0..<length descs]"
proof -
  show "fst (link_state descs (length descs)) = map (linked_preds descs) [0..<length descs]"
    by (simp add: link_state_def)
  have "vec_unique (filter (depends descs p) [0..<length descs]) = linked_succs descs p" for p
    unfolding linked_succs_def by (rule vec_unique_of_set) (auto simp: depends_def)
  then show "map vec_unique (snd (link_state descs (length descs))) = map (linked_succs descs) [0..<length descs]"
    by (simp add: link_state_def)
qed

lemma resolve_iff:
  "resolve_graph descs leafSet = Inr out \<longleftrightarrow> descs_ok descs leafSet \<and>
     out = (desc_key ` set descs, map (linked_preds descs) [0..<length descs], map (linked_succs descs) [0..<length descs])"
proof (cases "\<forall>i < length descs. keys_ok descs leafSet i")
  case True
  have keys: "op_key descs ` {..<length descs} = desc_key ` set descs"
    by (auto simp: set_conv_nth)
  let ?scan = "(producer_upto descs (length descs), op_key descs ` {..<length descs})"
  have "fold_err (scan_descriptor descs leafSet) (Map.empty, {}) [0..<length descs] = Inr ?scan"
    unfolding scan_iff using True by blast
  then have "resolve_graph descs leafSet = bind_err
      (fold_err (link_descriptor descs leafSet (producer_upto descs (length descs)))
         (replicate (length descs) [], replicate (length descs) []) [0..<length descs])
       (\<lambda>(preds, succs). Inr (desc_key ` set descs, preds, map vec_unique succs))"
    unfolding resolve_graph_def keys [symmetric] by simp
  also have "\<dots> = Inr out \<longleftrightarrow> (\<exists>s. fold_err (link_descriptor descs leafSet (producer_upto descs (length descs)))
         (replicate (length descs) [], replicate (length descs) []) [0..<length descs] = Inr s \<and>
       out = (desc_key ` set descs, fst s, map vec_unique (snd s)))"
    unfolding bind_err_Inr_iff by auto
  also have "\<dots> \<longleftrightarrow> (\<forall>i < length descs. inputs_ok descs leafSet i) \<and>
      out = (desc_key ` set descs, map (linked_preds descs) [0..<length descs], map (linked_succs descs) [0..<length descs])"
    unfolding link_iff [OF True order_refl] link_state_done [symmetric] by blast
  finally show ?thesis using True by (simp add: descs_ok_def)
next
  case False
  have "\<not> resolve_graph descs leafSet = Inr out"
    unfolding resolve_graph_def bind_err_Inr_iff scan_iff using False by blast
  then show ?thesis using False by (simp add: descs_ok_def)
qed

text \<open>The resolved lists are one graph read from both ends.\<close>

definition resolved_edges :: "nat list list \<Rightarrow> nat list list \<Rightarrow> bool" where
  "resolved_edges preds succs \<longleftrightarrow> mutual_edges succs preds \<and> closed_graph succs \<and>
     (\<forall>es \<in> set preds \<union> set succs. sorted es \<and> distinct es)"

lemma resolved_linked:
  "resolved_edges (map (linked_preds descs) [0..<length descs]) (map (linked_succs descs) [0..<length descs])"
  unfolding resolved_edges_def mutual_edges_def closed_graph_def
  by (auto simp: linked_preds_def linked_succs_def) (auto simp: depends_def)

lemma edges_linked: "edges (map (linked_succs descs) [0..<length descs]) = {(p, i). depends descs p i}"
  by (auto simp: edges_def linked_succs_def depends_def)

lemma resolved_edgesD:
  assumes "resolved_edges preds succs"
  shows "mutual_edges succs preds" "closed_graph succs" "length preds = length succs"
    "\<And>u v. u < length succs \<Longrightarrow> v < length succs \<Longrightarrow> v \<in> set (succs ! u) \<longleftrightarrow> u \<in> set (preds ! v)"
    "\<And>v u. v < length succs \<Longrightarrow> u \<in> set (preds ! v) \<Longrightarrow> u < length succs"
    "\<And>v u. v < length succs \<Longrightarrow> u \<in> set (succs ! v) \<Longrightarrow> u < length succs"
    "\<And>v. v < length succs \<Longrightarrow> sorted (preds ! v) \<and> distinct (preds ! v)"
    "\<And>v. v < length succs \<Longrightarrow> sorted (succs ! v) \<and> distinct (succs ! v)"
proof -
  have mutual: "mutual_edges succs preds" and closed: "closed_graph succs"
    and lists: "\<And>es. es \<in> set preds \<union> set succs \<Longrightarrow> sorted es \<and> distinct es"
    using assms by (simp_all add: resolved_edges_def)
  show "mutual_edges succs preds" "closed_graph succs" by fact+
  show len: "length preds = length succs" using mutual by (simp add: mutual_edges_def)
  show "\<And>u v. u < length succs \<Longrightarrow> v < length succs \<Longrightarrow> v \<in> set (succs ! u) \<longleftrightarrow> u \<in> set (preds ! v)"
    using mutual by (simp add: mutual_edges_def)
  show "\<And>v u. v < length succs \<Longrightarrow> u \<in> set (preds ! v) \<Longrightarrow> u < length succs"
    using mutual by (simp add: mutual_edges_def)
  show "\<And>v u. v < length succs \<Longrightarrow> u \<in> set (succs ! v) \<Longrightarrow> u < length succs"
    using closed by (simp add: closed_graph_def)
  show "\<And>v. v < length succs \<Longrightarrow> sorted (preds ! v) \<and> distinct (preds ! v)"
    by (rule lists) (simp add: len)
  show "\<And>v. v < length succs \<Longrightarrow> sorted (succs ! v) \<and> distinct (succs ! v)"
    by (rule lists) simp
qed

end
