(* ===== verification/Op_Order.thy ===== *)
theory Op_Order
  imports Op_Resolve
begin

text \<open>
  The canonical order of \<open>RigExecCompileOpGraph\<close>. The loop over the priority queue keeps
  that a counter is the number of active predecessors not yet taken and that the queue
  holds exactly the operations whose counter is zero; so on an acyclic active graph it
  takes every active operation once, after its predecessors, and always the one of least
  key among those that could be taken.
\<close>

definition waits :: "nat list list \<Rightarrow> bool list \<Rightarrow> nat list \<Rightarrow> nat \<Rightarrow> nat set" where
  "waits preds excluded order i = {p \<in> set (preds ! i). \<not> excluded ! p \<and> p \<notin> set order}"

definition active :: "bool list \<Rightarrow> nat \<Rightarrow> nat \<Rightarrow> bool" where
  "active excluded n i \<longleftrightarrow> i < n \<and> \<not> excluded ! i"

definition active_edges :: "nat list list \<Rightarrow> bool list \<Rightarrow> (nat \<times> nat) set" where
  "active_edges preds excluded =
     {(p, i). active excluded (length preds) p \<and> active excluded (length preds) i \<and> p \<in> set (preds ! i)}"

text \<open>Every operation of an order follows its active predecessors and has the least key of
  those that could have been taken in its place.\<close>

definition least_next ::
  "(nat \<Rightarrow> string) \<Rightarrow> nat list list \<Rightarrow> bool list \<Rightarrow> nat list \<Rightarrow> nat \<Rightarrow> bool" where
  "least_next key preds excluded order x \<longleftrightarrow> waits preds excluded order x = {} \<and>
     (\<forall>i. active excluded (length preds) i \<and> i \<notin> set order \<and> i \<noteq> x \<and>
        waits preds excluded order i = {} \<longrightarrow> key x < key i)"

definition least_first :: "(nat \<Rightarrow> string) \<Rightarrow> nat list list \<Rightarrow> bool list \<Rightarrow> nat list \<Rightarrow> bool" where
  "least_first key preds excluded order \<longleftrightarrow>
     (\<forall>k < length order. least_next key preds excluded (take k order) (order ! k))"

lemma finite_waits [simp]: "finite (waits preds excluded order i)"
  by (simp add: waits_def)

lemma waits_snoc: "waits preds excluded (order @ [x]) i = waits preds excluded order i - {x}"
  by (auto simp: waits_def)

lemma least_first_snoc:
  "least_first key preds excluded (order @ [x]) \<longleftrightarrow>
     least_first key preds excluded order \<and> least_next key preds excluded order x"
proof -
  have split: "(\<forall>k < Suc m. P k) \<longleftrightarrow> (\<forall>k < m. P k) \<and> P m" for P and m :: nat
    by (auto simp: less_Suc_eq)
  show ?thesis unfolding least_first_def length_append_singleton split by (simp add: nth_append)
qed

section \<open>Releasing the successors of one operation\<close>

lemma release_fold:
  assumes "distinct nexts" "\<forall>s \<in> set nexts. s < length unresolved"
  shows "length (fst (foldl (release excluded) (unresolved, ready) nexts)) = length unresolved \<and>
    (\<forall>i < length unresolved. fst (foldl (release excluded) (unresolved, ready) nexts) ! i =
       (if i \<in> set nexts \<and> \<not> excluded ! i then unresolved ! i - 1 else unresolved ! i)) \<and>
    snd (foldl (release excluded) (unresolved, ready) nexts) =
       ready @ filter (\<lambda>i. \<not> excluded ! i \<and> unresolved ! i = 1) nexts"
  using assms
proof (induction nexts arbitrary: unresolved ready)
  case (Cons x xs)
  obtain u r where step: "release excluded (unresolved, ready) x = (u, r)" by fastforce
  have u: "length u = length unresolved"
    "\<And>i. i < length unresolved \<Longrightarrow> u ! i = (if i = x \<and> \<not> excluded ! x then unresolved ! i - 1 else unresolved ! i)"
    "r = ready @ (if \<not> excluded ! x \<and> unresolved ! x = 1 then [x] else [])"
    using step Cons.prems by (auto simp: release_def nth_list_update split: if_splits)
  have "filter (\<lambda>i. \<not> excluded ! i \<and> u ! i = 1) xs = filter (\<lambda>i. \<not> excluded ! i \<and> unresolved ! i = 1) xs"
    using Cons.prems u(2) by (intro filter_cong) auto
  moreover note Cons.IH [of u r]
  ultimately show ?case
    using Cons.prems u by (auto simp: step)
qed simp

section \<open>The invariant of the loop\<close>

definition drain_inv ::
  "(nat \<Rightarrow> string) \<Rightarrow> nat list list \<Rightarrow> bool list \<Rightarrow> nat list \<Rightarrow> nat list \<Rightarrow> nat list \<Rightarrow> bool" where
  "drain_inv key preds excluded unresolved ready order \<longleftrightarrow>
     length unresolved = length preds \<and> distinct (order @ ready) \<and>
     (\<forall>i \<in> set (order @ ready). active excluded (length preds) i) \<and>
     (\<forall>i. active excluded (length preds) i \<longrightarrow>
        unresolved ! i = card (waits preds excluded order i) \<and>
        (i \<in> set (order @ ready) \<longleftrightarrow> waits preds excluded order i = {})) \<and>
     least_first key preds excluded order"

lemma drain_inv_count:
  "drain_inv key preds excluded unresolved ready order \<Longrightarrow> active excluded (length preds) i \<Longrightarrow>
     unresolved ! i = card (waits preds excluded order i)"
  and drain_inv_ready:
  "drain_inv key preds excluded unresolved ready order \<Longrightarrow> active excluded (length preds) i \<Longrightarrow>
     i \<in> set order \<or> i \<in> set ready \<longleftrightarrow> waits preds excluded order i = {}"
  by (auto simp: drain_inv_def)

lemma drain_inv_step:
  assumes graph: "resolved_edges preds succs"
    and keys: "inj_on key {i. active excluded (length preds) i}"
    and inv: "drain_inv key preds excluded unresolved ready order" and ready: "ready \<noteq> []"
    and taken: "taken = arg_min_list key ready"
    and released: "foldl (release excluded) (unresolved, remove1 taken ready) (succs ! taken) = (unresolved', ready')"
  shows "drain_inv key preds excluded unresolved' ready' (order @ [taken])"
proof -
  let ?n = "length preds"
  let ?act = "active excluded ?n"
  let ?waits = "waits preds excluded order"
  have n: "?n = length succs" using resolved_edgesD(3) [OF graph] .
  have t_ready: "taken \<in> set ready" using arg_min_list_in [OF ready] taken by simp
  have t: "?act taken" "taken \<notin> set order" and distinct: "distinct order" "distinct ready" "set order \<inter> set ready = {}"
    and len: "length unresolved = ?n"
    using inv t_ready by (auto simp: drain_inv_def)
  have t_less: "taken < length succs" using t(1) n by (simp add: active_def)
  have edge: "taken \<in> ?waits i \<longleftrightarrow> i \<in> set (succs ! taken)" if "?act i" for i
    using resolved_edgesD(4) [OF graph t_less, of i] t that n by (auto simp: waits_def active_def)
  have succs: "distinct (succs ! taken)" "\<forall>s \<in> set (succs ! taken). s < length unresolved"
    using resolved_edgesD(6,8) [OF graph t_less] n len by auto
  note rel = release_fold [OF succs, of excluded "remove1 taken ready", unfolded released fst_conv snd_conv]
  have count: "unresolved ! i = card (?waits i)" if "?act i" for i by (rule drain_inv_count [OF inv that])
  have ready': "set ready' = set ready - {taken} \<union> {i \<in> set (succs ! taken). \<not> excluded ! i \<and> unresolved ! i = 1}"
    using rel distinct(2) by auto
  have new: "?act i \<and> taken \<in> ?waits i \<and> card (?waits i) = 1"
    if "i \<in> set (succs ! taken)" "\<not> excluded ! i" "unresolved ! i = 1" for i
    using that succs(2) len edge [of i] count [of i] by (auto simp: active_def)
  have fresh: "i \<notin> set order \<and> i \<notin> set ready" if "taken \<in> ?waits i" "?act i" for i
    using drain_inv_ready [OF inv that(2)] that(1) by auto
  have part1: "length unresolved' = ?n" using rel len by simp
  have part2: "distinct ((order @ [taken]) @ ready')"
  proof -
    have "distinct ready'"
      using rel distinct(2) succs(1) new fresh by (auto dest: notin_set_remove1)
    moreover have "taken \<notin> set ready'"
      using ready' new fresh [of taken] t_ready by auto
    moreover have "set order \<inter> set ready' = {}"
      using ready' distinct(3) new fresh by blast
    ultimately show ?thesis using distinct t by auto
  qed
  have part3: "\<forall>i \<in> set ((order @ [taken]) @ ready'). ?act i"
  proof -
    have "\<forall>i \<in> set order \<union> set ready. ?act i" using inv by (auto simp: drain_inv_def)
    then show ?thesis using ready' new t_ready by auto
  qed
  have part4: "unresolved' ! i = card (waits preds excluded (order @ [taken]) i) \<and>
      (i \<in> set ((order @ [taken]) @ ready') \<longleftrightarrow> waits preds excluded (order @ [taken]) i = {})" if i: "?act i" for i
  proof (cases "i \<in> set (succs ! taken)")
    case True
    then have w: "taken \<in> ?waits i" using edge [OF i] by simp
    then have card: "card (?waits i - {taken}) = card (?waits i) - 1" by simp
    have "unresolved' ! i = unresolved ! i - 1" using rel True i len by (auto simp: active_def)
    then have "unresolved' ! i = card (?waits i - {taken})" using card count [OF i] by simp
    moreover have "i \<in> set ((order @ [taken]) @ ready') \<longleftrightarrow> card (?waits i) = 1"
      using fresh [OF w i] True i count [OF i] ready' t_ready by (auto simp: active_def)
    moreover have "card (?waits i) = 1 \<longleftrightarrow> ?waits i - {taken} = {}"
      using w by (auto simp: card_1_singleton_iff)
    ultimately show ?thesis unfolding waits_snoc by simp
  next
    case False
    then have "taken \<notin> ?waits i" using edge [OF i] by simp
    then have same: "?waits i - {taken} = ?waits i" by simp
    have "unresolved' ! i = unresolved ! i" using rel False i len by (auto simp: active_def)
    moreover have "i \<in> set ((order @ [taken]) @ ready') \<longleftrightarrow> i \<in> set order \<or> i \<in> set ready"
      using ready' False t_ready by auto
    ultimately show ?thesis
      unfolding waits_snoc same using count [OF i] drain_inv_ready [OF inv i] by simp
  qed
  have part5: "least_first key preds excluded (order @ [taken])"
    unfolding least_first_snoc least_next_def
  proof (intro conjI allI impI)
    show "least_first key preds excluded order" using inv by (simp add: drain_inv_def)
    show "?waits taken = {}" using drain_inv_ready [OF inv t(1)] t_ready by auto
    fix i assume i: "?act i \<and> i \<notin> set order \<and> i \<noteq> taken \<and> ?waits i = {}"
    then have "i \<in> set ready" using drain_inv_ready [OF inv, of i] by auto
    then have "key taken \<le> key i"
      unfolding taken f_arg_min_list_f [OF ready] by auto
    moreover have "key taken \<noteq> key i" using keys i t(1) by (auto simp: inj_on_def)
    ultimately show "key taken < key i" by simp
  qed
  show ?thesis unfolding drain_inv_def using part1 part2 part3 part4 part5 by blast
qed

text \<open>When the queue is empty, an acyclic active graph has been taken completely.\<close>

lemma drain_inv_end:
  assumes inv: "drain_inv key preds excluded unresolved [] order"
    and acyclic: "acyclic (active_edges preds excluded)"
    and range: "\<forall>i < length preds. \<forall>p \<in> set (preds ! i). p < length preds"
  shows "set order = {i. active excluded (length preds) i}"
proof (rule ccontr)
  let ?left = "{i. active excluded (length preds) i} - set order"
  assume "set order \<noteq> {i. active excluded (length preds) i}"
  moreover have "set order \<subseteq> {i. active excluded (length preds) i}" using inv by (auto simp: drain_inv_def)
  ultimately have left: "?left \<noteq> {}" by auto
  have "active_edges preds excluded \<subseteq> {..<length preds} \<times> {..<length preds}"
    by (auto simp: active_edges_def active_def)
  then have "finite (active_edges preds excluded)" by (rule finite_subset) simp
  then have "wf (active_edges preds excluded)" using acyclic by (rule finite_acyclic_wf)
  then obtain i where i: "i \<in> ?left" "\<And>p. (p, i) \<in> active_edges preds excluded \<Longrightarrow> p \<notin> ?left"
    using left by (metis wf_eq_minimal ex_in_conv)
  have act: "active excluded (length preds) i" using i(1) by simp
  have "waits preds excluded order i \<noteq> {}" using drain_inv_ready [OF inv act] i(1) by auto
  then obtain p where p: "p \<in> set (preds ! i)" "\<not> excluded ! p" "p \<notin> set order" by (auto simp: waits_def)
  then have "active excluded (length preds) p" using range act by (auto simp: active_def)
  then show False using i(2) [of p] p act by (auto simp: active_edges_def)
qed

lemma drain_ready_spec:
  assumes "resolved_edges preds succs" "inj_on key {i. active excluded (length preds) i}"
    and "acyclic (active_edges preds excluded)" "drain_inv key preds excluded unresolved ready order"
  shows "distinct (drain_ready key succs excluded unresolved ready order) \<and>
    set (drain_ready key succs excluded unresolved ready order) = {i. active excluded (length preds) i} \<and>
    least_first key preds excluded (drain_ready key succs excluded unresolved ready order)"
  using assms
proof (induction key succs excluded unresolved ready order rule: drain_ready.induct)
  case (1 key succs excluded unresolved ready order)
  show ?case
  proof (cases "ready = []")
    case True
    have "\<forall>i < length preds. \<forall>p \<in> set (preds ! i). p < length preds"
      using resolved_edgesD(3,5) [OF "1.prems"(1)] by auto
    from drain_inv_end [OF _ "1.prems"(3) this] "1.prems"(4) True
    have "set order = {i. active excluded (length preds) i}" by blast
    then show ?thesis using "1.prems"(4) True by (simp add: drain_ready.simps drain_inv_def)
  next
    case False
    define taken where "taken = arg_min_list key ready"
    obtain u r where run: "foldl (release excluded) (unresolved, remove1 taken ready) (succs ! taken) = (u, r)"
      by fastforce
    have "drain_inv key preds excluded u r (order @ [taken])"
      by (rule drain_inv_step [OF "1.prems"(1,2,4) False taken_def run])
    from "1.IH" [OF False taken_def run [symmetric] refl "1.prems"(1-3) this]
    have IH: "distinct (drain_ready key succs excluded u r (order @ [taken])) \<and>
      set (drain_ready key succs excluded u r (order @ [taken])) = {i. active excluded (length preds) i} \<and>
      least_first key preds excluded (drain_ready key succs excluded u r (order @ [taken]))" .
    have "drain_ready key succs excluded unresolved ready order = drain_ready key succs excluded u r (order @ [taken])"
      by (subst drain_ready.simps) (simp add: False Let_def taken_def [symmetric] run)
    then show ?thesis using IH by simp
  qed
qed

lemma canonical_order_spec:
  assumes graph: "resolved_edges preds succs" and keys: "inj_on key {i. active excluded (length preds) i}"
    and acyclic: "acyclic (active_edges preds excluded)"
  shows "distinct (canonical_order key preds succs excluded)"
    "set (canonical_order key preds succs excluded) = {i. active excluded (length preds) i}"
    "least_first key preds excluded (canonical_order key preds succs excluded)"
proof -
  let ?unresolved = "count_unresolved excluded preds"
  let ?ready = "filter (\<lambda>i. \<not> excluded ! i \<and> ?unresolved ! i = 0) [0..<length preds]"
  have count: "?unresolved ! i = card (waits preds excluded [] i)" if "active excluded (length preds) i" for i
  proof -
    have "distinct (preds ! i)"
      using that resolved_edgesD(3,7) [OF graph] by (auto simp: active_def)
    then have "length (filter (\<lambda>p. \<not> excluded ! p) (preds ! i)) = card (waits preds excluded [] i)"
      by (simp add: waits_def distinct_length_filter Int_def conj_commute)
    then show ?thesis using that by (simp add: count_unresolved_def active_def)
  qed
  then have "drain_inv key preds excluded ?unresolved ?ready []"
    by (auto simp: drain_inv_def count_unresolved_def least_first_def active_def)
  from drain_ready_spec [OF graph keys acyclic this]
  show "distinct (canonical_order key preds succs excluded)"
    "set (canonical_order key preds succs excluded) = {i. active excluded (length preds) i}"
    "least_first key preds excluded (canonical_order key preds succs excluded)"
    by (simp_all add: canonical_order_def Let_def)
qed

end
