(* ===== verification/Op_Run.thy ===== *)
theory Op_Run
  imports Op_Reset Op_Order Op_Clusters
begin

text \<open>
  The serial executor is a topological sweep. The lemmas follow the run: the seeds and their
  spread give exactly the operations reachable from a seed; the marked clusters are
  theirs; the loop over the growing ready list takes every marked cluster once, after the
  marked clusters before it; so the candidates' bodies run once each, predecessors first,
  and are numbered in that order.
\<close>

section \<open>The graph the executor expects\<close>

definition exec_graph :: "compiled_graph \<Rightarrow> bool" where
  "exec_graph graph \<longleftrightarrow> canonical_ops (g_ops graph) \<and> clusters_ok graph \<and>
     (\<forall>v rs. g_readers graph v = Some rs \<longrightarrow> (\<forall>i \<in> set rs. i < length (g_ops graph))) \<and>
     (\<forall>i \<in> set (g_volatileOps graph). i < length (g_ops graph))"

abbreviation op_count :: "compiled_graph \<Rightarrow> nat" where
  "op_count graph \<equiv> length (g_ops graph)"

definition op_succ :: "compiled_graph \<Rightarrow> (nat \<times> nat) set" where
  "op_succ graph = {(p, i). p < op_count graph \<and> i \<in> set (op_successors (g_ops graph ! p))}"

lemma exec_graph_succ:
  assumes "exec_graph graph" "(p, i) \<in> op_succ graph"
  shows "p < i" "i < op_count graph" "p \<in> set (op_predecessors (g_ops graph ! i))"
proof -
  have c: "canonical_ops (g_ops graph)" using assms(1) by (simp add: exec_graph_def)
  have p: "p < op_count graph" "i \<in> set (op_successors (g_ops graph ! p))" using assms(2) by (auto simp: op_succ_def)
  show "p < i" "i < op_count graph" using op_edges_okD(6,7) [OF canonical_opsD [OF c p(1)] p(2)] .
  then show "p \<in> set (op_predecessors (g_ops graph ! i))" using canonical_ops_mutual [OF c p(1), of i] p(2) by simp
qed

section \<open>Seeds\<close>

definition seed_inv :: "nat \<Rightarrow> seed_state \<Rightarrow> bool" where
  "seed_inv n = (\<lambda>(seeded, candidates, pending). length seeded = n \<and> length candidates = n \<and> distinct pending \<and>
     (\<forall>i < n. candidates ! i \<longleftrightarrow> i \<in> set pending) \<and> (\<forall>i \<in> set pending. i < n))"

lemma seed_op_inv:
  assumes "seed_inv n (seeded, candidates, pending)" "i < n"
    and "seed_op mandatory (seeded, candidates, pending) i = (seeded', candidates', pending')"
  shows "seed_inv n (seeded', candidates', pending') \<and> set pending' = insert i (set pending) \<and>
    (\<forall>j < n. seeded' ! j \<longleftrightarrow> seeded ! j \<or> mandatory \<and> j = i)"
  using assms by (auto simp: seed_inv_def seed_op_def Let_def nth_list_update split: if_splits)

lemma seed_ops_inv:
  assumes "seed_inv n (seeded, candidates, pending)" "\<forall>i \<in> set is. i < n"
    and "foldl (seed_op mandatory) (seeded, candidates, pending) is = (seeded', candidates', pending')"
  shows "seed_inv n (seeded', candidates', pending') \<and> set pending' = set pending \<union> set is \<and>
    (\<forall>j < n. seeded' ! j \<longleftrightarrow> seeded ! j \<or> mandatory \<and> j \<in> set is)"
  using assms
proof (induction "is" arbitrary: seeded candidates pending)
  case (Cons i "is")
  obtain s c p where step: "seed_op mandatory (seeded, candidates, pending) i = (s, c, p)" by (rule prod_cases3)
  from seed_op_inv [OF Cons.prems(1) _ step] Cons.prems(2)
  have one: "seed_inv n (s, c, p)" "set p = insert i (set pending)" "\<forall>j < n. s ! j \<longleftrightarrow> seeded ! j \<or> mandatory \<and> j = i"
    by auto
  have "foldl (seed_op mandatory) (s, c, p) is = (seeded', candidates', pending')"
    using Cons.prems(3) step by simp
  from Cons.IH [OF one(1) _ this] Cons.prems(2) one show ?case by auto
qed auto

definition seed_set :: "compiled_graph \<Rightarrow> value_id list \<Rightarrow> nat list \<Rightarrow> bool \<Rightarrow> nat list option \<Rightarrow> nat set" where
  "seed_set graph changedLeaves seedOps force candidateOps =
     set seedOps \<union> set (case candidateOps of None \<Rightarrow> [] | Some cs \<Rightarrow> cs) \<union>
     (\<Union>v \<in> set changedLeaves. set (case g_readers graph v of None \<Rightarrow> [] | Some rs \<Rightarrow> rs)) \<union>
     (if force then {..<op_count graph} else set (g_volatileOps graph))"

definition mandatory_set :: "compiled_graph \<Rightarrow> nat list \<Rightarrow> bool \<Rightarrow> nat set" where
  "mandatory_set graph seedOps force =
     set seedOps \<union> (if force then {..<op_count graph} else set (g_volatileOps graph))"

lemma seed_leaves_inv:
  assumes "seed_inv n (seeded, candidates, pending)"
    and "\<forall>v \<in> set vs. \<forall>rs. readers v = Some rs \<longrightarrow> (\<forall>i \<in> set rs. i < n)"
    and "foldl (\<lambda>s v. case readers v of None \<Rightarrow> s | Some rs \<Rightarrow> foldl (seed_op False) s rs)
       (seeded, candidates, pending) vs = (seeded', candidates', pending')"
  shows "seed_inv n (seeded', candidates', pending') \<and>
    set pending' = set pending \<union> (\<Union>v \<in> set vs. set (case readers v of None \<Rightarrow> [] | Some rs \<Rightarrow> rs)) \<and>
    (\<forall>j < n. seeded' ! j \<longleftrightarrow> seeded ! j)"
  using assms
proof (induction vs arbitrary: seeded candidates pending)
  case (Cons v vs)
  obtain s c p where step: "foldl (seed_op False) (seeded, candidates, pending)
      (case readers v of None \<Rightarrow> [] | Some rs \<Rightarrow> rs) = (s, c, p)" by (rule prod_cases3)
  have "\<forall>i \<in> set (case readers v of None \<Rightarrow> [] | Some rs \<Rightarrow> rs). i < n"
    using Cons.prems(2) by (cases "readers v") auto
  from seed_ops_inv [OF Cons.prems(1) this step]
  have one: "seed_inv n (s, c, p)" "set p = set pending \<union> set (case readers v of None \<Rightarrow> [] | Some rs \<Rightarrow> rs)"
    "\<forall>j < n. s ! j \<longleftrightarrow> seeded ! j" by simp_all
  have "foldl (\<lambda>s v. case readers v of None \<Rightarrow> s | Some rs \<Rightarrow> foldl (seed_op False) s rs) (s, c, p) vs =
      (seeded', candidates', pending')"
    using Cons.prems(3) step by (cases "readers v") simp_all
  from Cons.IH [OF one(1) _ this] Cons.prems(2) one show ?case by auto
qed auto

lemma seed_all_inv:
  assumes graph: "exec_graph graph" and start: "seed_inv (op_count graph) (seeded, candidates, [])"
    and range: "\<forall>i \<in> set seedOps. i < op_count graph"
      "\<forall>i \<in> set (case candidateOps of None \<Rightarrow> [] | Some cs \<Rightarrow> cs). i < op_count graph"
    and run: "seed_all graph changedLeaves seedOps force candidateOps (seeded, candidates, []) =
      (seeded', candidates', pending')"
  shows "seed_inv (op_count graph) (seeded', candidates', pending')"
    "set pending' = seed_set graph changedLeaves seedOps force candidateOps"
    "\<forall>j < op_count graph. seeded' ! j \<longleftrightarrow> seeded ! j \<or> j \<in> mandatory_set graph seedOps force"
proof -
  let ?n = "op_count graph"
  let ?last = "if force then [0..<?n] else g_volatileOps graph"
  obtain s1 c1 p1 where r1: "foldl (seed_op True) (seeded, candidates, []) seedOps = (s1, c1, p1)" by (rule prod_cases3)
  obtain s2 c2 p2 where r2: "foldl (seed_op False) (s1, c1, p1) (case candidateOps of None \<Rightarrow> [] | Some cs \<Rightarrow> cs) = (s2, c2, p2)"
    by (rule prod_cases3)
  obtain s3 c3 p3 where r3: "foldl (\<lambda>s v. case g_readers graph v of None \<Rightarrow> s | Some rs \<Rightarrow> foldl (seed_op False) s rs)
      (s2, c2, p2) changedLeaves = (s3, c3, p3)" by (rule prod_cases3)
  have r4: "foldl (seed_op True) (s3, c3, p3) ?last = (seeded', candidates', pending')"
  proof -
    have "(case candidateOps of None \<Rightarrow> (s1, c1, p1) | Some cs \<Rightarrow> foldl (seed_op False) (s1, c1, p1) cs) = (s2, c2, p2)"
      using r2 by (cases candidateOps) simp_all
    then have "(if force then foldl (seed_op True) (s3, c3, p3) [0..<?n]
        else foldl (seed_op True) (s3, c3, p3) (g_volatileOps graph)) = (seeded', candidates', pending')"
      using run unfolding seed_all_def Let_def r1 by (simp only: r3)
    then show ?thesis by (cases force) simp_all
  qed
  have readers: "\<forall>v \<in> set changedLeaves. \<forall>rs. g_readers graph v = Some rs \<longrightarrow> (\<forall>i \<in> set rs. i < ?n)"
    using graph by (simp add: exec_graph_def)
  have last: "\<forall>i \<in> set ?last. i < ?n" using graph by (simp add: exec_graph_def)
  note i1 = seed_ops_inv [OF start range(1) r1]
  note i2 = seed_ops_inv [OF conjunct1 [OF i1] range(2) r2]
  note i3 = seed_leaves_inv [OF conjunct1 [OF i2] readers r3]
  note i4 = seed_ops_inv [OF conjunct1 [OF i3] last r4]
  show "seed_inv ?n (seeded', candidates', pending')" using i4 by blast
  show "set pending' = seed_set graph changedLeaves seedOps force candidateOps"
  proof -
    have "set p1 = set seedOps" "set p2 = set p1 \<union> set (case candidateOps of None \<Rightarrow> [] | Some cs \<Rightarrow> cs)"
      "set p3 = set p2 \<union> (\<Union>v \<in> set changedLeaves. set (case g_readers graph v of None \<Rightarrow> [] | Some rs \<Rightarrow> rs))"
      "set pending' = set p3 \<union> set ?last"
      using i1 i2 i3 i4 by simp_all
    moreover have "set ?last = (if force then {..<?n} else set (g_volatileOps graph))" by auto
    ultimately show ?thesis unfolding seed_set_def by (simp only:)
  qed
  show "\<forall>j < ?n. seeded' ! j \<longleftrightarrow> seeded ! j \<or> j \<in> mandatory_set graph seedOps force"
  proof (intro allI impI)
    fix j assume j: "j < ?n"
    then have "s1 ! j \<longleftrightarrow> seeded ! j \<or> j \<in> set seedOps" "s2 ! j \<longleftrightarrow> s1 ! j" "s3 ! j \<longleftrightarrow> s2 ! j"
      "seeded' ! j \<longleftrightarrow> s3 ! j \<or> j \<in> set ?last"
      using i1 i2 i3 i4 by simp_all
    moreover have "set ?last = (if force then {..<?n} else set (g_volatileOps graph))" by auto
    ultimately show "seeded' ! j \<longleftrightarrow> seeded ! j \<or> j \<in> mandatory_set graph seedOps force"
      unfolding mandatory_set_def by simp
  qed
qed

section \<open>The spread\<close>

definition spread_inv :: "compiled_graph \<Rightarrow> nat set \<Rightarrow> bool list \<Rightarrow> nat list \<Rightarrow> nat \<Rightarrow> bool" where
  "spread_inv graph seeds candidates pending pos \<longleftrightarrow> length candidates = op_count graph \<and> distinct pending \<and>
     (\<forall>i < op_count graph. candidates ! i \<longleftrightarrow> i \<in> set pending) \<and> (\<forall>i \<in> set pending. i < op_count graph) \<and>
     seeds \<subseteq> set pending \<and> set pending \<subseteq> (op_succ graph)\<^sup>* `` seeds \<and>
     (\<forall>k < pos. k < length pending \<longrightarrow> set (op_successors (g_ops graph ! (pending ! k))) \<subseteq> set pending)"

lemma push_candidates_spec:
  assumes "length candidates = n" "\<forall>i < n. candidates ! i \<longleftrightarrow> i \<in> set pending" "distinct pending"
    and "\<forall>i \<in> set pending. i < n" "\<forall>j \<in> set nexts. j < n"
    and "foldl push_candidate (candidates, pending) nexts = (candidates', pending')"
  shows "length candidates' = n \<and> (\<forall>i < n. candidates' ! i \<longleftrightarrow> i \<in> set pending') \<and> distinct pending' \<and>
    set pending' = set pending \<union> set nexts \<and> (\<exists>more. pending' = pending @ more)"
  using assms
proof (induction nexts arbitrary: candidates pending)
  case (Cons x xs)
  obtain c p where step: "push_candidate (candidates, pending) x = (c, p)" by fastforce
  have one: "length c = n" "\<forall>i < n. c ! i \<longleftrightarrow> i \<in> set p" "distinct p" "\<forall>i \<in> set p. i < n"
    "set p = insert x (set pending)" "\<exists>more. p = pending @ more"
    using step Cons.prems by (auto simp: push_candidate_def nth_list_update split: if_splits)
  have "foldl push_candidate (c, p) xs = (candidates', pending')" using Cons.prems(6) step by simp
  from Cons.IH [OF one(1-4) _ this] Cons.prems(5) one(5,6) show ?case by auto
qed auto

lemma spread_spec:
  assumes "exec_graph graph" "spread_inv graph seeds candidates pending pos"
    and "spread (g_ops graph) candidates pending pos = (candidates', pending')"
  shows "spread_inv graph seeds candidates' pending' (length pending')"
  using assms
proof (induction "g_ops graph" candidates pending pos rule: spread.induct)
  case (1 candidates pending pos)
  show ?case
  proof (cases "length pending \<le> pos")
    case True
    then have same: "candidates' = candidates" "pending' = pending" using "1.prems"(3) by (simp_all add: spread.simps)
    then show ?thesis using "1.prems"(2) True by (auto simp: spread_inv_def)
  next
    case False
    let ?at = "pending ! pos" and ?nexts = "op_successors (g_ops graph ! (pending ! pos))"
    obtain c p where grown: "foldl push_candidate (candidates, pending) ?nexts = (c, p)" by fastforce
    have inv: "length candidates = op_count graph" "distinct pending"
      "\<forall>i < op_count graph. candidates ! i \<longleftrightarrow> i \<in> set pending" "\<forall>i \<in> set pending. i < op_count graph"
      "seeds \<subseteq> set pending" "set pending \<subseteq> (op_succ graph)\<^sup>* `` seeds"
      "\<forall>k < pos. k < length pending \<longrightarrow> set (op_successors (g_ops graph ! (pending ! k))) \<subseteq> set pending"
      using "1.prems"(2) by (simp_all add: spread_inv_def)
    have at_ok: "?at < op_count graph" "?at \<in> set pending" using inv(4) False by auto
    have edge: "(?at, j) \<in> op_succ graph" if "j \<in> set ?nexts" for j using at_ok that by (simp add: op_succ_def)
    have next_range: "\<forall>j \<in> set ?nexts. j < op_count graph" using exec_graph_succ(2) [OF "1.prems"(1) edge] by blast
    from push_candidates_spec [OF inv(1,3,2,4) this grown] obtain more where
      new: "length c = op_count graph" "\<forall>i < op_count graph. c ! i \<longleftrightarrow> i \<in> set p" "distinct p"
        "set p = set pending \<union> set ?nexts" "p = pending @ more" by auto
    have "set ?nexts \<subseteq> (op_succ graph)\<^sup>* `` seeds"
    proof
      fix j assume j: "j \<in> set ?nexts"
      obtain s where "s \<in> seeds" "(s, ?at) \<in> (op_succ graph)\<^sup>*" using inv(6) at_ok(2) by blast
      then show "j \<in> (op_succ graph)\<^sup>* `` seeds" using edge [OF j] by (blast intro: rtrancl_into_rtrancl)
    qed
    note reach = this
    have "spread_inv graph seeds c p (Suc pos)"
      unfolding spread_inv_def
    proof (intro conjI allI impI)
      fix k assume "k < Suc pos" "k < length p"
      then consider "k = pos" | "k < pos" by linarith
      then show "set (op_successors (g_ops graph ! (p ! k))) \<subseteq> set p"
        using inv(7) new(4,5) False by cases (auto simp: nth_append)
    next
      show "\<forall>i \<in> set p. i < op_count graph" unfolding new(4) using inv(4) next_range by blast
      show "set p \<subseteq> (op_succ graph)\<^sup>* `` seeds" unfolding new(4) using inv(6) reach by blast
    qed (use new inv in auto)
    moreover have "spread (g_ops graph) c p (Suc pos) = (candidates', pending')"
      using "1.prems"(3) False grown by (simp add: spread.simps [of _ candidates])
    ultimately show ?thesis using "1.hyps" [OF False grown [symmetric] refl "1.prems"(1)] by blast
  qed
qed

text \<open>At the end the candidates are the operations reachable from a seed.\<close>

definition affected :: "compiled_graph \<Rightarrow> nat set \<Rightarrow> nat set" where
  "affected graph seeds = (op_succ graph)\<^sup>* `` seeds"

lemma spread_inv_end:
  assumes inv: "spread_inv graph seeds candidates pending (length pending)"
  shows "set pending = affected graph seeds"
proof
  show "set pending \<subseteq> affected graph seeds" using inv by (simp add: spread_inv_def affected_def)
  have "i \<in> set pending" if "(s, i) \<in> (op_succ graph)\<^sup>*" "s \<in> seeds" for s i
    using that
  proof (induction rule: rtrancl_induct)
    case base
    then show ?case using inv by (auto simp: spread_inv_def)
  next
    case (step p i)
    then obtain k where "k < length pending" "pending ! k = p" by (auto simp: in_set_conv_nth)
    then show ?case using inv step(2) by (auto simp: spread_inv_def op_succ_def)
  qed
  then show "affected graph seeds \<subseteq> set pending" by (auto simp: affected_def)
qed

end
