(* ===== verification/Op_Sweep.thy ===== *)
theory Op_Sweep
  imports Op_Run
begin

text \<open>
  The ready loop of the executor. Clusters form an acyclic graph of their own, on which the
  loop over the growing ready list is a topological traversal; flattening the clusters
  gives one list of operation bodies, in which predecessors come first and whose positions
  are the completion numbers.
\<close>

section \<open>The cluster graph\<close>

abbreviation cluster_preds :: "compiled_graph \<Rightarrow> nat list list" where
  "cluster_preds graph \<equiv> map cl_predecessors (g_clusters graph)"

abbreviation cluster_succs :: "compiled_graph \<Rightarrow> nat list list" where
  "cluster_succs graph \<equiv> map cl_successors (g_clusters graph)"

lemma exec_graph_clusters:
  assumes "exec_graph graph"
  shows "partition_ok (g_ops graph) (map cl_members (g_clusters graph)) (g_opClusters graph)"
    "edge_order_ok graph" "cluster_edges_ok graph" "canonical_ops (g_ops graph)"
  using assms by (simp_all add: exec_graph_def clusters_ok_alt)

lemma op_cluster_range:
  assumes "exec_graph graph" "i < op_count graph"
  shows "g_opClusters graph ! i < length (g_clusters graph)"
    "i \<in> set (cl_members (g_clusters graph ! (g_opClusters graph ! i)))"
proof -
  have "g_opClusters graph ! i < length (map cl_members (g_clusters graph)) \<and>
      i \<in> set (map cl_members (g_clusters graph) ! (g_opClusters graph ! i))"
    using exec_graph_clusters(1) [OF assms(1)] assms(2) unfolding partition_ok_def by blast
  then show "g_opClusters graph ! i < length (g_clusters graph)"
    "i \<in> set (cl_members (g_clusters graph ! (g_opClusters graph ! i)))" by auto
qed

lemma cluster_member:
  assumes "exec_graph graph" "c < length (g_clusters graph)" "i \<in> set (cl_members (g_clusters graph ! c))"
  shows "i < op_count graph" "g_opClusters graph ! i = c"
  using partition_ok_sub(4) [OF exec_graph_clusters(1) [OF assms(1)], of c i] assms(2,3) by auto

lemma cluster_pred_set:
  assumes "exec_graph graph" "c < length (g_clusters graph)"
  shows "set (cl_predecessors (g_clusters graph ! c)) = before_clusters (g_ops graph) (g_opClusters graph) c"
    "set (cl_successors (g_clusters graph ! c)) = after_clusters (g_ops graph) (g_opClusters graph) c"
    "sorted (cl_predecessors (g_clusters graph ! c)) \<and> distinct (cl_predecessors (g_clusters graph ! c))"
    "sorted (cl_successors (g_clusters graph ! c)) \<and> distinct (cl_successors (g_clusters graph ! c))"
  using exec_graph_clusters(3) [OF assms(1)] assms(2) by (simp_all add: cluster_edges_ok_def)

lemma pred_less:
  assumes "exec_graph graph" "i < op_count graph" "p \<in> set (op_predecessors (g_ops graph ! i))"
  shows "p < i" "g_opClusters graph ! p \<le> g_opClusters graph ! i"
  using exec_graph_clusters(2) [OF assms(1)] assms(2,3) by (auto simp: edge_order_ok_def)

lemma before_cluster_less:
  assumes "exec_graph graph" "p \<in> before_clusters (g_ops graph) (g_opClusters graph) c"
  shows "p < c" "p < length (g_clusters graph)"
proof -
  from assms(2) obtain q i where q: "i < op_count graph" "g_opClusters graph ! i = c"
    "q \<in> set (op_predecessors (g_ops graph ! i))" "p = g_opClusters graph ! q" "p \<noteq> c"
    by (auto simp: before_clusters_def)
  have "q < i" "p \<le> c" using pred_less [OF assms(1) q(1,3)] q(2,4) by auto
  then show "p < c" "p < length (g_clusters graph)"
    using q op_cluster_range(1) [OF assms(1), of q] by auto
qed

lemma after_cluster_range:
  assumes "exec_graph graph" "s \<in> after_clusters (g_ops graph) (g_opClusters graph) c"
  shows "s < length (g_clusters graph)"
  using assms op_cluster_range(1) [OF assms(1)] by (auto simp: after_clusters_def)

lemma clusters_resolved:
  assumes "exec_graph graph"
  shows "resolved_edges (cluster_preds graph) (cluster_succs graph)"
proof -
  let ?k = "length (g_clusters graph)"
  have mutual: "v \<in> after_clusters (g_ops graph) (g_opClusters graph) u \<longleftrightarrow>
      u \<in> before_clusters (g_ops graph) (g_opClusters graph) v" for u v
  proof -
    have "v \<in> after_clusters (g_ops graph) (g_opClusters graph) u \<longleftrightarrow> (\<exists>p oper. oper < op_count graph \<and>
        g_opClusters graph ! oper = v \<and> g_opClusters graph ! p = u \<and> p \<in> set (op_predecessors (g_ops graph ! oper)) \<and> u \<noteq> v)"
      unfolding after_clusters_def mem_Collect_eq by (intro iff_exI) auto
    moreover have "u \<in> before_clusters (g_ops graph) (g_opClusters graph) v \<longleftrightarrow> (\<exists>p oper. oper < op_count graph \<and>
        g_opClusters graph ! oper = v \<and> g_opClusters graph ! p = u \<and> p \<in> set (op_predecessors (g_ops graph ! oper)) \<and> u \<noteq> v)"
      unfolding before_clusters_def mem_Collect_eq by (intro iff_exI) auto
    ultimately show ?thesis by simp
  qed
  have "mutual_edges (cluster_succs graph) (cluster_preds graph)"
    unfolding mutual_edges_def
    using cluster_pred_set(1,2) [OF assms] mutual before_cluster_less(2) [OF assms] by auto
  moreover have "closed_graph (cluster_succs graph)"
    unfolding closed_graph_def using cluster_pred_set(2) [OF assms] after_cluster_range [OF assms] by auto
  moreover have "sorted es \<and> distinct es" if "es \<in> set (cluster_preds graph) \<union> set (cluster_succs graph)" for es
  proof -
    from that obtain c where "c < ?k" "es = cl_predecessors (g_clusters graph ! c) \<or> es = cl_successors (g_clusters graph ! c)"
      by (auto simp: in_set_conv_nth)
    then show ?thesis using cluster_pred_set(3,4) [OF assms] by auto
  qed
  ultimately show ?thesis by (simp add: resolved_edges_def)
qed

section \<open>Marks and counts\<close>

lemma mark_clusters_spec:
  assumes "length flags = k" "\<forall>i \<in> set pending. g_opClusters graph ! i < k" "flags = replicate k False"
    and "mark_clusters graph pending flags = (flags', found)"
  shows "length flags' = k \<and> distinct found \<and> (\<forall>c < k. flags' ! c \<longleftrightarrow> c \<in> set found) \<and>
    set found = (\<lambda>i. g_opClusters graph ! i) ` set pending"
proof -
  let ?step = "\<lambda>(flags, ready) oper. let cluster = g_opClusters graph ! oper in
        if \<not> flags ! cluster then (flags[cluster := True], ready @ [cluster]) else (flags, ready)"
  let ?I = "\<lambda>ys (flags, ready). length flags = k \<and> distinct ready \<and> (\<forall>c < k. flags ! c \<longleftrightarrow> c \<in> set ready) \<and>
      set ready = (\<lambda>i. g_opClusters graph ! i) ` set ys"
  have "?I pending (foldl ?step (flags, []) pending)"
  proof (rule foldl_invariant [where I = ?I])
    show "?I [] (flags, [])" using assms(1,3) by auto
    fix ys x zs a assume split: "pending = ys @ x # zs" and I: "?I ys a"
    have "g_opClusters graph ! x < k" using assms(2) split by auto
    with I show "?I (ys @ [x]) (?step a x)"
      by (cases a) (auto simp: Let_def nth_list_update)
  qed
  then show ?thesis using assms(4) by (simp add: mark_clusters_def)
qed

lemma start_counts_spec:
  assumes "distinct cc" "\<forall>c \<in> set cc. c < length unresolved"
    and "start_counts graph flags cc unresolved = (unresolved', ready)"
  shows "length unresolved' = length unresolved \<and>
    (\<forall>c \<in> set cc. unresolved' ! c = length (filter (\<lambda>p. flags ! p) (cl_predecessors (g_clusters graph ! c)))) \<and>
    ready = filter (\<lambda>c. filter (\<lambda>p. flags ! p) (cl_predecessors (g_clusters graph ! c)) = []) cc"
proof -
  let ?deps = "\<lambda>i. length (filter (\<lambda>p. flags ! p) (cl_predecessors (g_clusters graph ! i)))"
  let ?step = "\<lambda>(unresolved, ready) i. let dependencies = ?deps i in
        (unresolved[i := dependencies], if dependencies = 0 then ready @ [i] else ready)"
  let ?I = "\<lambda>ys (u, r). length u = length unresolved \<and> (\<forall>c \<in> set ys. u ! c = ?deps c) \<and>
      r = filter (\<lambda>c. filter (\<lambda>p. flags ! p) (cl_predecessors (g_clusters graph ! c)) = []) ys"
  have "?I cc (foldl ?step (unresolved, []) cc)"
  proof (rule foldl_invariant [where I = ?I])
    fix ys x zs a assume split: "cc = ys @ x # zs" and I: "?I ys a"
    have "x < length unresolved" "x \<notin> set ys" using assms(1,2) split by auto
    with I show "?I (ys @ [x]) (?step a x)" by (cases a) (auto simp: Let_def nth_list_update)
  qed simp
  then show ?thesis using assms(3) by (simp add: start_counts_def)
qed

section \<open>The loop\<close>

definition run_inv :: "compiled_graph \<Rightarrow> bool list \<Rightarrow> nat list \<Rightarrow> nat list \<Rightarrow> nat \<Rightarrow> bool" where
  "run_inv graph flags unresolved ready pos \<longleftrightarrow>
     length unresolved = length (g_clusters graph) \<and> length flags = length (g_clusters graph) \<and> distinct ready \<and>
     pos \<le> length ready \<and> (\<forall>c \<in> set ready. c < length (g_clusters graph) \<and> flags ! c) \<and>
     (\<forall>c < length (g_clusters graph). flags ! c \<longrightarrow>
        unresolved ! c = card (waits (cluster_preds graph) (map Not flags) (take pos ready) c) \<and>
        (c \<in> set ready \<longleftrightarrow> waits (cluster_preds graph) (map Not flags) (take pos ready) c = {})) \<and>
     (\<forall>k < pos. waits (cluster_preds graph) (map Not flags) (take k ready) (ready ! k) = {})"

lemma release_cluster_eq:
  "length flags = length unresolved \<Longrightarrow> \<forall>s \<in> set nexts. s < length unresolved \<Longrightarrow>
     foldl (release_cluster flags) (unresolved, ready) nexts = foldl (release (map Not flags)) (unresolved, ready) nexts"
proof (induction nexts arbitrary: unresolved ready)
  case (Cons x xs)
  obtain u r where step: "release (map Not flags) (unresolved, ready) x = (u, r)" by fastforce
  have "release_cluster flags (unresolved, ready) x = (u, r)"
    using step Cons.prems by (simp add: release_cluster_def release_def)
  moreover have "length u = length unresolved" using step by (auto simp: release_def split: if_splits)
  ultimately show ?case using Cons step by simp
qed simp

lemma run_inv_step:
  assumes graph: "exec_graph graph" and inv: "run_inv graph flags unresolved ready pos" and more: "pos < length ready"
    and rel: "foldl (release_cluster flags) (unresolved, ready) (cl_successors (g_clusters graph ! (ready ! pos))) =
      (unresolved', ready')"
  shows "run_inv graph flags unresolved' ready' (Suc pos) \<and> (\<exists>new. ready' = ready @ new)"
proof -
  let ?K = "length (g_clusters graph)" and ?ex = "map Not flags" and ?P = "cluster_preds graph"
  let ?c = "ready ! pos"
  let ?W = "waits ?P ?ex (take pos ready)"
  have len: "length unresolved = ?K" "length flags = ?K" and distinct: "distinct ready"
    and marked: "\<forall>c \<in> set ready. c < ?K \<and> flags ! c"
    and counts: "\<And>c. c < ?K \<Longrightarrow> flags ! c \<Longrightarrow> unresolved ! c = card (?W c)"
    and readies: "\<And>c. c < ?K \<Longrightarrow> flags ! c \<Longrightarrow> c \<in> set ready \<longleftrightarrow> ?W c = {}"
    and past: "\<And>k. k < pos \<Longrightarrow> waits ?P ?ex (take k ready) (ready ! k) = {}"
    using inv by (simp_all add: run_inv_def)
  have c: "?c < ?K" "flags ! ?c" "?c \<in> set ready" using marked more by auto
  have fresh: "?c \<notin> set (take pos ready)"
    using distinct more by (auto simp: in_set_conv_nth nth_eq_iff_index_eq)
  note g = clusters_resolved [OF graph]
  let ?nexts = "cl_successors (g_clusters graph ! ?c)"
  have nexts: "distinct ?nexts" "\<forall>s \<in> set ?nexts. s < length unresolved"
    using cluster_pred_set(2,4) [OF graph c(1)] after_cluster_range [OF graph] len by auto
  have edge: "?c \<in> ?W d \<longleftrightarrow> d \<in> set ?nexts" if "d < ?K" for d
    using resolved_edgesD(4) [OF g, of ?c d] that c fresh len by (auto simp: waits_def)
  note spec = release_fold [OF nexts, of ?ex ready]
  have run: "foldl (release ?ex) (unresolved, ready) ?nexts = (unresolved', ready')"
    using rel release_cluster_eq [of flags unresolved ?nexts ready] nexts(2) len by simp
  have u': "length unresolved' = ?K" "\<And>d. d < ?K \<Longrightarrow> unresolved' ! d =
      (if d \<in> set ?nexts \<and> flags ! d then unresolved ! d - 1 else unresolved ! d)"
    and r': "ready' = ready @ filter (\<lambda>d. \<not> ?ex ! d \<and> unresolved ! d = 1) ?nexts"
    using spec len unfolding run by auto
  let ?new = "filter (\<lambda>d. \<not> ?ex ! d \<and> unresolved ! d = 1) ?nexts"
  have new: "d < ?K \<and> flags ! d \<and> card (?W d) = 1 \<and> ?c \<in> ?W d" if "d \<in> set ?new" for d
    using that nexts(2) len counts [of d] edge [of d] by auto
  have new_fresh: "set ?new \<inter> set ready = {}"
  proof -
    have "d \<notin> set ready" if "d \<in> set ?new" for d using new [OF that] readies [of d] by auto
    then show ?thesis by blast
  qed
  have take': "take (Suc pos) ready' = take pos ready @ [?c]"
    using more by (simp add: r' take_Suc_conv_app_nth)
  have part1: "unresolved' ! d = card (waits ?P ?ex (take (Suc pos) ready') d) \<and>
      (d \<in> set ready' \<longleftrightarrow> waits ?P ?ex (take (Suc pos) ready') d = {})" if d: "d < ?K" "flags ! d" for d
  proof (cases "d \<in> set ?nexts")
    case True
    then have w: "?c \<in> ?W d" using edge [OF d(1)] by simp
    then have ne: "d \<notin> set ready" using readies [OF d] by auto
    have "unresolved' ! d = card (?W d - {?c})" using u'(2) [OF d(1)] True d(2) counts [OF d] w by simp
    moreover have "d \<in> set ready' \<longleftrightarrow> card (?W d) = 1"
      using ne True d counts [OF d] len by (auto simp: r')
    moreover have "card (?W d) = 1 \<longleftrightarrow> ?W d - {?c} = {}" using w by (auto simp: card_1_singleton_iff)
    ultimately show ?thesis unfolding take' waits_snoc by simp
  next
    case False
    then have "?W d - {?c} = ?W d" using edge [OF d(1)] by auto
    moreover have "unresolved' ! d = unresolved ! d" using u'(2) [OF d(1)] False by simp
    moreover have "d \<in> set ready' \<longleftrightarrow> d \<in> set ready" using False by (auto simp: r')
    ultimately show ?thesis unfolding take' waits_snoc using counts [OF d] readies [OF d] by simp
  qed
  have part2: "waits ?P ?ex (take k ready') (ready' ! k) = {}" if "k < Suc pos" for k
  proof (cases "k = pos")
    case True
    then show ?thesis using readies [OF c(1,2)] c(3) more by (simp add: r' nth_append)
  next
    case False
    then show ?thesis using past [of k] that more by (simp add: r' nth_append)
  qed
  have part3: "distinct ready'" using distinct nexts(1) new_fresh by (auto simp: r')
  have part4: "\<forall>c \<in> set ready'. c < ?K \<and> flags ! c" using marked new by (auto simp: r')
  have part5: "Suc pos \<le> length ready'" using more by (simp add: r')
  have "run_inv graph flags unresolved' ready' (Suc pos)"
    unfolding run_inv_def using u'(1) len(2) part1 part2 part3 part4 part5 by blast
  then show ?thesis using r' by blast
qed

lemma run_inv_end:
  assumes graph: "exec_graph graph" and inv: "run_inv graph flags unresolved ready (length ready)"
  shows "set ready = {c. c < length (g_clusters graph) \<and> flags ! c}"
proof -
  have "c \<in> set ready" if "c < length (g_clusters graph)" "flags ! c" for c
    using that
  proof (induction c rule: less_induct)
    case (less c)
    have "waits (cluster_preds graph) (map Not flags) ready c = {}"
    proof (rule ccontr)
      assume "\<not> ?thesis"
      then obtain p where p: "p \<in> set (cl_predecessors (g_clusters graph ! c))" "\<not> map Not flags ! p" "p \<notin> set ready"
        using less.prems(1) by (auto simp: waits_def)
      then have "p \<in> before_clusters (g_ops graph) (g_opClusters graph) c"
        using cluster_pred_set(1) [OF graph less.prems(1)] by simp
      note range = before_cluster_less [OF graph this]
      have "flags ! p" using p(2) range inv by (simp add: run_inv_def)
      then show False using less.IH [OF range] p(3) by blast
    qed
    then show ?case using inv less.prems by (simp add: run_inv_def)
  qed
  then show ?thesis using inv by (auto simp: run_inv_def)
qed

definition process_cluster ::
  "compiled_graph \<Rightarrow> 's op_callbacks \<Rightarrow> bool list \<Rightarrow> bool list \<Rightarrow> nat \<times> 's exec_state \<Rightarrow> nat \<Rightarrow> nat \<times> 's exec_state" where
  "process_cluster graph cb seeded candidates = (\<lambda>(finished, e) cluster.
     let (bodies, e1) = cluster_body graph cb seeded candidates e cluster in
     (finished + bodies, e1\<lparr>e_completion := complete_cluster graph candidates cluster finished (e_completion e1)\<rparr>))"

lemma run_ready_spec:
  assumes "exec_graph graph" "run_inv graph flags unresolved ready pos"
    and "run_ready graph cb seeded candidates flags unresolved ready pos finished e = (unresolved', ready', e')"
  shows "(\<exists>new. ready' = ready @ new) \<and> run_inv graph flags unresolved' ready' (length ready') \<and>
    e' = snd (foldl (process_cluster graph cb seeded candidates) (finished, e) (drop pos ready'))"
  using assms
proof (induction graph cb seeded candidates flags unresolved ready pos finished e rule: run_ready.induct)
  case (1 graph cb seeded candidates flags unresolved ready pos finished e)
  show ?case
  proof (cases "length ready \<le> pos")
    case True
    then have "pos = length ready" using "1.prems"(2) by (simp add: run_inv_def)
    then show ?thesis using "1.prems"(2,3) by (simp add: run_ready.simps)
  next
    case False
    let ?c = "ready ! pos"
    obtain bodies e1 where body: "cluster_body graph cb seeded candidates e ?c = (bodies, e1)" by fastforce
    obtain u r where rel: "foldl (release_cluster flags) (unresolved, ready) (cl_successors (g_clusters graph ! ?c)) = (u, r)"
      by fastforce
    let ?e2 = "e1\<lparr>e_completion := complete_cluster graph candidates ?c finished (e_completion e1)\<rparr>"
    from run_inv_step [OF "1.prems"(1,2) _ rel] False
    obtain new where step: "run_inv graph flags u r (Suc pos)" "r = ready @ new" by auto
    have run: "run_ready graph cb seeded candidates flags u r (Suc pos) (finished + bodies) ?e2 = (unresolved', ready', e')"
      using "1.prems"(3) False body rel by (simp add: run_ready.simps [of _ _ _ _ _ unresolved] Let_def)
    from "1.IH" [OF False refl body [symmetric] refl refl rel [symmetric] refl "1.prems"(1) step(1) run]
    obtain new' where IH: "ready' = r @ new'" "run_inv graph flags unresolved' ready' (length ready')"
      "e' = snd (foldl (process_cluster graph cb seeded candidates) (finished + bodies, ?e2) (drop (Suc pos) ready'))"
      by blast
    have "drop pos ready' = ?c # drop (Suc pos) ready'"
      using False IH(1) step(2) by (subst Cons_nth_drop_Suc [symmetric]) (auto simp: nth_append)
    moreover have "process_cluster graph cb seeded candidates (finished, e) ?c = (finished + bodies, ?e2)"
      by (simp add: process_cluster_def body)
    ultimately show ?thesis using IH step(2) by simp
  qed
qed

end
