(* ===== verification/Op_Exec_Props.thy ===== *)
theory Op_Exec_Props
  imports Op_Sweep
begin

text \<open>
  The properties of the executor: which operations are candidates, the equivalence of the
  clustered run with one flat topological sweep of operation bodies, completion numbers,
  counts, failure, and the truth of the records the next reset relies on.
\<close>

section \<open>Flattening the clusters\<close>

definition numbered :: "nat \<Rightarrow> nat list \<Rightarrow> nat list \<Rightarrow> nat \<times> nat list" where
  "numbered start is completion = foldl (\<lambda>(n, completion) i. (n + 1, completion[i := n + 1])) (start, completion) is"

definition sweep_order :: "compiled_graph \<Rightarrow> bool list \<Rightarrow> nat list \<Rightarrow> nat list" where
  "sweep_order graph candidates ready = concat (map (cluster_candidates graph candidates) ready)"

lemma numbered_append:
  "numbered start (xs @ ys) completion =
     numbered (fst (numbered start xs completion)) ys (snd (numbered start xs completion))"
  by (simp add: numbered_def)

lemma numbered_fst [simp]: "fst (numbered start is completion) = start + length is"
proof -
  have "fst (foldl (\<lambda>(n, completion) i. (n + 1, completion[i := n + 1])) (start, completion) is) = start + length is"
    by (induction "is" arbitrary: start completion) auto
  then show ?thesis by (simp add: numbered_def)
qed

lemma numbered_spec:
  assumes "distinct is" "\<forall>i \<in> set is. i < length completion"
  shows "length (snd (numbered start is completion)) = length completion"
    "k < length is \<Longrightarrow> snd (numbered start is completion) ! (is ! k) = start + k + 1"
    "j < length completion \<Longrightarrow> j \<notin> set is \<Longrightarrow> snd (numbered start is completion) ! j = completion ! j"
proof -
  let ?I = "\<lambda>ys (n, c). n = start + length ys \<and> length c = length completion \<and>
      (\<forall>k < length ys. c ! (ys ! k) = start + k + 1) \<and> (\<forall>j < length completion. j \<notin> set ys \<longrightarrow> c ! j = completion ! j)"
  have "?I is (foldl (\<lambda>(n, completion) i. (n + 1, completion[i := n + 1])) (start, completion) is)"
  proof (rule foldl_invariant [where I = ?I])
    fix ys x zs a assume split: "is = ys @ x # zs" and I: "?I ys a"
    have x: "x \<notin> set ys" "x < length completion" using assms split by auto
    obtain n c where a: "a = (n, c)" by fastforce
    have "c[x := n + 1] ! ((ys @ [x]) ! k) = start + k + 1" if "k < Suc (length ys)" for k
    proof (cases "k = length ys")
      case True
      then show ?thesis using I x a by simp
    next
      case False
      then have k: "k < length ys" using that by simp
      then have "ys ! k \<noteq> x" using x(1) nth_mem by metis
      then show ?thesis using I k a by (simp add: nth_append)
    qed
    then show "?I (ys @ [x]) ((\<lambda>(n, completion) i. (n + 1, completion[i := n + 1])) a x)"
      using I x a by auto
  qed simp
  then show "length (snd (numbered start is completion)) = length completion"
    "k < length is \<Longrightarrow> snd (numbered start is completion) ! (is ! k) = start + k + 1"
    "j < length completion \<Longrightarrow> j \<notin> set is \<Longrightarrow> snd (numbered start is completion) ! j = completion ! j"
    unfolding numbered_def by auto
qed

lemma cluster_body_flat:
  "cluster_body graph cb seeded candidates e c =
     (length (cluster_candidates graph candidates c),
      foldl (op_body graph cb seeded) e (cluster_candidates graph candidates c))"
proof -
  have "foldl (\<lambda>(bodies, e) oper. if candidates ! oper then (bodies + 1, op_body graph cb seeded e oper) else (bodies, e)) (b, e) ms =
      (b + length (filter (\<lambda>oper. candidates ! oper) ms), foldl (op_body graph cb seeded) e (filter (\<lambda>oper. candidates ! oper) ms))"
    for b ms by (induction ms arbitrary: b e) auto
  then show ?thesis by (simp add: cluster_body_def cluster_candidates_def)
qed

lemma complete_cluster_flat:
  "complete_cluster graph candidates c start completion =
     snd (numbered start (cluster_candidates graph candidates c) completion)"
proof -
  have "foldl (\<lambda>(n, completion) oper. if candidates ! oper then (n + 1, completion[oper := n + 1]) else (n, completion)) s ms =
      foldl (\<lambda>(n, completion) i. (n + 1, completion[i := n + 1])) s (filter (\<lambda>oper. candidates ! oper) ms)" for s :: "nat \<times> nat list" and ms
    by (induction ms arbitrary: s) (auto split: prod.split)
  then show ?thesis unfolding complete_cluster_def cluster_candidates_def numbered_def by (simp only:)
qed

text \<open>A body neither reads nor writes the completion numbers.\<close>

lemma op_body_completion:
  "op_body graph cb seeded (e\<lparr>e_completion := c\<rparr>) i = (op_body graph cb seeded e i)\<lparr>e_completion := c\<rparr>"
  "e_completion (op_body graph cb seeded e i) = e_completion e"
  by (simp_all add: op_body_def Let_def split: prod.split)

lemma op_bodies_completion:
  "foldl (op_body graph cb seeded) (e\<lparr>e_completion := c\<rparr>) is = (foldl (op_body graph cb seeded) e is)\<lparr>e_completion := c\<rparr>"
  "e_completion (foldl (op_body graph cb seeded) e is) = e_completion e"
  by (induction "is" arbitrary: e) (simp_all add: op_body_completion)

lemma process_flat:
  "foldl (process_cluster graph cb seeded candidates) (n, e) ready =
     (n + length (sweep_order graph candidates ready),
      (foldl (op_body graph cb seeded) e (sweep_order graph candidates ready))
        \<lparr>e_completion := snd (numbered n (sweep_order graph candidates ready) (e_completion e))\<rparr>)"
proof (induction ready rule: rev_induct)
  case Nil
  then show ?case by (simp add: sweep_order_def numbered_def)
next
  case (snoc c cs)
  let ?cc = "cluster_candidates graph candidates c" and ?s = "sweep_order graph candidates cs"
  have s: "sweep_order graph candidates (cs @ [c]) = ?s @ ?cc" by (simp add: sweep_order_def)
  show ?case
    unfolding s foldl_append snoc
    by (simp add: process_cluster_def cluster_body_flat complete_cluster_flat op_bodies_completion numbered_append)
qed

section \<open>The sweep is topological\<close>

definition topological_sweep :: "compiled_graph \<Rightarrow> nat list \<Rightarrow> bool" where
  "topological_sweep graph bodies \<longleftrightarrow> distinct bodies \<and>
     (\<forall>xs i ys. bodies = xs @ i # ys \<longrightarrow>
        (\<forall>p \<in> set (op_predecessors (g_ops graph ! i)). p \<in> set bodies \<longrightarrow> p \<in> set xs))"

lemma concat_split_element:
  "concat xss = xs @ i # ys \<Longrightarrow>
     \<exists>as bs us vs. xss = as @ (us @ i # vs) # bs \<and> xs = concat as @ us \<and> ys = vs @ concat bs"
proof (induction xss arbitrary: xs)
  case (Cons zs xss)
  show ?case
  proof (cases "length xs < length zs")
    case True
    from Cons.prems have "zs @ concat xss = xs @ i # ys" by simp
    then obtain us where "xs @ us = zs" "us @ concat xss = i # ys"
      using True by (metis (no_types, lifting) append_eq_append_conv2 less_not_refl2 not_add_less1 length_append)
    moreover from this True obtain vs where "us = i # vs" by (cases us) auto
    ultimately show ?thesis
      by (intro exI [where x = "[]"] exI [where x = xss] exI [where x = xs] exI [where x = vs]) auto
  next
    case False
    from Cons.prems have "zs @ concat xss = xs @ i # ys" by simp
    then obtain ws where ws: "xs = zs @ ws" "concat xss = ws @ i # ys"
      using False by (metis append_eq_append_conv_if append_take_drop_id not_less_iff_gr_or_eq le_less linear)
    from Cons.IH [OF ws(2)] obtain as bs us vs where
      "xss = as @ (us @ i # vs) # bs" "ws = concat as @ us" "ys = vs @ concat bs" by blast
    then show ?thesis using ws(1)
      by (intro exI [where x = "zs # as"] exI [where x = bs] exI [where x = us] exI [where x = vs]) auto
  qed
qed simp

lemma cluster_candidates_sorted:
  assumes "exec_graph graph" "c < length (g_clusters graph)"
  shows "sorted_wrt (<) (cluster_candidates graph candidates c)"
  using linked_sorted [of "g_ops graph" "cl_members (g_clusters graph ! c)"]
    partition_ok_sub(2) [OF exec_graph_clusters(1) [OF assms(1)], of c] assms(2)
  by (simp add: cluster_candidates_def sorted_wrt_filter)

lemma sweep_order_set:
  assumes "exec_graph graph" "\<forall>c \<in> set ready. c < length (g_clusters graph)"
  shows "set (sweep_order graph candidates ready) =
      {i. i < op_count graph \<and> candidates ! i \<and> g_opClusters graph ! i \<in> set ready}"
proof (intro set_eqI iffI)
  fix i assume "i \<in> set (sweep_order graph candidates ready)"
  then obtain c where c: "c \<in> set ready" "i \<in> set (cl_members (g_clusters graph ! c))" "candidates ! i"
    by (auto simp: sweep_order_def cluster_candidates_def)
  then show "i \<in> {i. i < op_count graph \<and> candidates ! i \<and> g_opClusters graph ! i \<in> set ready}"
    using cluster_member [OF assms(1), of c i] assms(2) by simp
next
  fix i assume "i \<in> {i. i < op_count graph \<and> candidates ! i \<and> g_opClusters graph ! i \<in> set ready}"
  then show "i \<in> set (sweep_order graph candidates ready)"
    using op_cluster_range(2) [OF assms(1), of i] unfolding sweep_order_def cluster_candidates_def by auto
qed

lemma sweep_order_distinct:
  assumes "exec_graph graph" "\<forall>c \<in> set ready. c < length (g_clusters graph)" "distinct ready"
  shows "distinct (sweep_order graph candidates ready)"
  using assms(2,3)
proof (induction ready)
  case (Cons c cs)
  have "distinct (cluster_candidates graph candidates c)"
    using cluster_candidates_sorted [OF assms(1), of c candidates] Cons.prems by (simp add: strict_sorted_iff)
  moreover have "set (cluster_candidates graph candidates c) \<inter> set (sweep_order graph candidates cs) = {}"
    using sweep_order_set [OF assms(1), of cs candidates] cluster_member(2) [OF assms(1), of c] Cons.prems
    by (auto simp: cluster_candidates_def)
  ultimately show ?case using Cons by (simp add: sweep_order_def)
qed (simp add: sweep_order_def)

lemma sweep_topological:
  assumes graph: "exec_graph graph" and range: "\<forall>c \<in> set ready. c < length (g_clusters graph)"
    and distinct: "distinct ready"
    and order: "\<forall>k < length ready. waits (cluster_preds graph) (map Not flags) (take k ready) (ready ! k) = {}"
    and flags: "length flags = length (g_clusters graph)"
      "\<forall>i < op_count graph. candidates ! i \<longrightarrow> flags ! (g_opClusters graph ! i)"
  shows "topological_sweep graph (sweep_order graph candidates ready)"
  unfolding topological_sweep_def
proof (intro conjI allI impI ballI)
  show "distinct (sweep_order graph candidates ready)" by (rule sweep_order_distinct [OF graph range distinct])
  fix xs i ys p
  assume split: "sweep_order graph candidates ready = xs @ i # ys"
    and p: "p \<in> set (op_predecessors (g_ops graph ! i))" "p \<in> set (sweep_order graph candidates ready)"
  from concat_split_element [OF split [unfolded sweep_order_def]] obtain as bs us vs where
    parts: "map (cluster_candidates graph candidates) ready = as @ (us @ i # vs) # bs" "xs = concat as @ us" by blast
  define k where "k = length as"
  have k: "k < length ready" using arg_cong [OF parts(1), of length] by (simp add: k_def)
  have cc: "cluster_candidates graph candidates (ready ! k) = us @ i # vs"
    using arg_cong [OF parts(1), of "\<lambda>l. l ! k"] k by (simp add: k_def nth_append)
  have as: "as = map (cluster_candidates graph candidates) (take k ready)"
    using arg_cong [OF parts(1), of "take k"] by (simp add: k_def take_map)
  let ?c = "ready ! k"
  have c: "?c < length (g_clusters graph)" using range k by simp
  have "i \<in> set (cluster_candidates graph candidates ?c)" using cc by simp
  then have i: "i < op_count graph" "g_opClusters graph ! i = ?c"
    using cluster_member [OF graph c, of i] by (auto simp: cluster_candidates_def)
  have pc: "p < op_count graph" "candidates ! p" using p(2) sweep_order_set [OF graph range] by auto
  have less: "p < i" using pred_less(1) [OF graph i(1) p(1)] .
  let ?b = "g_opClusters graph ! p"
  show "p \<in> set xs"
  proof (cases "?b = ?c")
    case True
    then have "p \<in> set (cluster_candidates graph candidates ?c)"
      using op_cluster_range(2) [OF graph pc(1)] pc(2) by (simp add: cluster_candidates_def)
    moreover have "sorted_wrt (<) (us @ i # vs)" using cluster_candidates_sorted [OF graph c] cc by metis
    ultimately have "p \<in> set us" using less unfolding cc by (auto simp: sorted_wrt_append)
    then show ?thesis using parts(2) by simp
  next
    case False
    then have "?b \<in> before_clusters (g_ops graph) (g_opClusters graph) ?c"
      using i p(1) by (auto simp: before_clusters_def)
    then have b: "?b \<in> set (cl_predecessors (g_clusters graph ! ?c))" "?b < length (g_clusters graph)"
      using cluster_pred_set(1) [OF graph c] op_cluster_range(1) [OF graph pc(1)] by auto
    have "flags ! ?b" using flags(2) pc by simp
    then have "?b \<in> waits (cluster_preds graph) (map Not flags) (take k ready) ?c" if "?b \<notin> set (take k ready)"
      using that b c flags(1) by (simp add: waits_def)
    moreover have "waits (cluster_preds graph) (map Not flags) (take k ready) ?c = {}" using order k by blast
    ultimately have "?b \<in> set (take k ready)" by blast
    moreover have "p \<in> set (cluster_candidates graph candidates ?b)"
      using op_cluster_range(2) [OF graph pc(1)] pc(2) by (simp add: cluster_candidates_def)
    ultimately show ?thesis unfolding parts(2) as by auto
  qed
qed

section \<open>The serial run\<close>

text \<open>The reference: skip every operation that is not affected, then run the bodies one by one.\<close>

definition flags_of :: "nat \<Rightarrow> nat set \<Rightarrow> bool list" where
  "flags_of n A = map (\<lambda>i. i \<in> A) [0..<n]"

lemma flags_of_simps [simp]: "length (flags_of n A) = n" "i < n \<Longrightarrow> flags_of n A ! i \<longleftrightarrow> i \<in> A"
  by (simp_all add: flags_of_def)

lemma flags_ofI: "length xs = n \<Longrightarrow> (\<And>i. i < n \<Longrightarrow> xs ! i \<longleftrightarrow> i \<in> A) \<Longrightarrow> xs = flags_of n A"
  by (rule nth_equalityI) simp_all

definition flat_sweep ::
  "compiled_graph \<Rightarrow> 's op_callbacks \<Rightarrow> nat set \<Rightarrow> nat set \<Rightarrow> nat list \<Rightarrow> 's \<Rightarrow> 's exec_state" where
  "flat_sweep graph cb mandatory A bodies s =
     foldl (op_body graph cb (flags_of (op_count graph) mandatory))
       \<lparr>e_ran = replicate (op_count graph) False, e_completion = replicate (op_count graph) 0, e_succeeded = True,
        e_state = skip_others graph cb (flags_of (op_count graph) A) s\<rparr> bodies"

definition exec_result ::
  "compiled_graph \<Rightarrow> 's op_callbacks \<Rightarrow> nat set \<Rightarrow> nat set \<Rightarrow> nat list \<Rightarrow> 's \<Rightarrow>
     exec_error option \<Rightarrow> op_execution \<Rightarrow> op_workspace \<Rightarrow> 's \<Rightarrow> bool" where
  "exec_result graph cb mandatory A bodies s err x w s' \<longleftrightarrow>
     topological_sweep graph bodies \<and> set bodies = A \<and>
     err = (if e_succeeded (flat_sweep graph cb mandatory A bodies s) then None else Some OperationFailed) \<and>
     s' = e_state (flat_sweep graph cb mandatory A bodies s) \<and>
     x_ran x = e_ran (flat_sweep graph cb mandatory A bodies s) \<and>
     x_candidates x = flags_of (op_count graph) A \<and>
     x_completion x = snd (numbered 0 bodies (replicate (op_count graph) 0)) \<and>
     x_touched x = filter (\<lambda>i. i \<in> A) [0..<op_count graph] \<and> x_touchedValid x \<and>
     x_executed x = length (filter (\<lambda>i. x_ran x ! i) (x_touched x)) \<and> x_skipped x = op_count graph - x_executed x \<and>
     w_seeded w = flags_of (op_count graph) mandatory \<and> set (w_pending w) = A \<and> mandatory \<subseteq> A \<and>
     w_clusterCandidates w = flags_of (length (g_clusters graph)) ((\<lambda>i. g_opClusters graph ! i) ` A) \<and>
     w_candidateClusters w = filter (\<lambda>c. w_clusterCandidates w ! c) [0..<length (g_clusters graph)]"

lemma affected_range:
  assumes "exec_graph graph" "\<forall>i \<in> seeds. i < op_count graph"
  shows "affected graph seeds \<subseteq> {..<op_count graph}"
proof -
  have "i < op_count graph" if "(s, i) \<in> (op_succ graph)\<^sup>*" "s \<in> seeds" for s i
    using that by (induction rule: rtrancl_induct) (auto simp: assms(2) exec_graph_succ(2) [OF assms(1)])
  then show ?thesis by (auto simp: affected_def)
qed

text \<open>What the preparation yields: the flags of the seeds and of the operations reachable from
  them, the marked clusters, and the counts the loop invariant starts from.\<close>

lemma plan_run_spec:
  assumes graph: "exec_graph graph" and range: "\<forall>i \<in> set seedOps. i < op_count graph"
      "\<forall>i \<in> set (case candidateOps of None \<Rightarrow> [] | Some cs \<Rightarrow> cs). i < op_count graph"
    and x: "x_candidates x = replicate (op_count graph) False" "x_ran x = replicate (op_count graph) False"
      "x_completion x = replicate (op_count graph) 0"
    and w: "w_seeded w = replicate (op_count graph) False"
      "w_clusterCandidates w = replicate (length (g_clusters graph)) False"
    and A: "A = affected graph (seed_set graph changedLeaves seedOps force candidateOps)"
  shows "\<exists>pending unresolved ready. plan_run graph changedLeaves seedOps force cb x w candidateOps s =
       \<lparr>rp_seeded = flags_of (op_count graph) (mandatory_set graph seedOps force),
        rp_candidates = flags_of (op_count graph) A, rp_pending = pending,
        rp_marks = flags_of (length (g_clusters graph)) ((\<lambda>i. g_opClusters graph ! i) ` A),
        rp_clusters = filter (\<lambda>c. flags_of (length (g_clusters graph)) ((\<lambda>i. g_opClusters graph ! i) ` A) ! c)
          [0..<length (g_clusters graph)],
        rp_unresolved = unresolved, rp_ready = ready,
        rp_start = \<lparr>e_ran = replicate (op_count graph) False, e_completion = replicate (op_count graph) 0, e_succeeded = True,
          e_state = skip_others graph cb (flags_of (op_count graph) A) s\<rparr>\<rparr> \<and>
     set pending = A \<and> A \<subseteq> {..<op_count graph} \<and> mandatory_set graph seedOps force \<subseteq> A \<and>
     run_inv graph (flags_of (length (g_clusters graph)) ((\<lambda>i. g_opClusters graph ! i) ` A)) unresolved ready 0"
proof -
  let ?n = "op_count graph" and ?K = "length (g_clusters graph)"
  let ?seeds = "seed_set graph changedLeaves seedOps force candidateOps" and ?M = "mandatory_set graph seedOps force"
  let ?A = "affected graph ?seeds"
  define seeded0 where "seeded0 = (if force then replicate ?n True else w_seeded w)"
  obtain seeded marked pending0 where seed: "seed_all graph changedLeaves seedOps force candidateOps
      (seeded0, x_candidates x, []) = (seeded, marked, pending0)" by (rule prod_cases3)
  have "seed_inv ?n (seeded0, x_candidates x, [])" by (simp add: seed_inv_def seeded0_def x w)
  note seeds = seed_all_inv [OF graph this range seed]
  have M_range: "?M \<subseteq> {..<?n}" using range graph by (auto simp: mandatory_set_def exec_graph_def)
  have seeded: "seeded = flags_of ?n ?M"
  proof (rule flags_ofI)
    show "length seeded = ?n" using seeds(1) by (simp add: seed_inv_def)
    show "seeded ! i \<longleftrightarrow> i \<in> ?M" if "i < ?n" for i
      using seeds(3) that by (auto simp: seeded0_def w mandatory_set_def)
  qed
  obtain candidates pending where spread: "spread (g_ops graph) marked pending0 0 = (candidates, pending)" by fastforce
  have "spread_inv graph ?seeds marked pending0 0"
    using seeds(1,2) by (auto simp: spread_inv_def seed_inv_def)
  note sp = spread_spec [OF graph this spread]
  have pend: "set pending = ?A" by (rule spread_inv_end [OF sp])
  have A_range: "?A \<subseteq> {..<?n}" using sp pend by (auto simp: spread_inv_def)
  have candidates: "candidates = flags_of ?n ?A"
    using sp pend by (intro flags_ofI) (auto simp: spread_inv_def)
  obtain flags found where mark: "mark_clusters graph pending (w_clusterCandidates w) = (flags, found)" by fastforce
  have "\<forall>i \<in> set pending. g_opClusters graph ! i < ?K"
    using pend A_range op_cluster_range(1) [OF graph] by auto
  from mark_clusters_spec [OF _ this w(2) mark] have mk: "length flags = ?K" "distinct found"
    "\<forall>c < ?K. flags ! c \<longleftrightarrow> c \<in> set found" "set found = (\<lambda>i. g_opClusters graph ! i) ` ?A"
    unfolding pend [symmetric] by (simp_all add: w)
  have flags: "flags = flags_of ?K ((\<lambda>i. g_opClusters graph ! i) ` ?A)" using mk by (intro flags_ofI) auto
  define cc where "cc = RigExecOpAscending found flags ?K"
  have cc: "cc = filter (\<lambda>c. flags ! c) [0..<?K]"
    unfolding cc_def using mk(1,3) by (subst ascending_spec) (auto simp: lists_flags_def)
  define unresolved0 where "unresolved0 = take ?K (w_unresolved w) @ replicate (?K - length (w_unresolved w)) 0"
  have len0: "length unresolved0 = ?K" by (simp add: unresolved0_def)
  obtain unresolved1 ready0 where counts: "start_counts graph flags cc unresolved0 = (unresolved1, ready0)" by fastforce
  have "distinct cc" "\<forall>c \<in> set cc. c < length unresolved0" by (auto simp: cc len0)
  note sc = start_counts_spec [OF this counts]
  have filter_waits: "set (filter (\<lambda>p. flags ! p) (cl_predecessors (g_clusters graph ! c))) =
      waits (cluster_preds graph) (map Not flags) [] c" if "c < ?K" for c
    using that mk(1) cluster_pred_set(1) [OF graph that] before_cluster_less(2) [OF graph]
    by (auto simp: waits_def)
  have "run_inv graph flags unresolved1 ready0 0"
    unfolding run_inv_def
  proof (intro conjI allI impI ballI)
    fix c assume c: "c < ?K" "flags ! c"
    then have in_cc: "c \<in> set cc" by (simp add: cc)
    have "distinct (filter (\<lambda>p. flags ! p) (cl_predecessors (g_clusters graph ! c)))"
      using cluster_pred_set(3) [OF graph c(1)] by simp
    then show "unresolved1 ! c = card (waits (cluster_preds graph) (map Not flags) (take 0 ready0) c)"
      using sc in_cc filter_waits [OF c(1)] distinct_card by fastforce
    have "c \<in> set ready0 \<longleftrightarrow> filter (\<lambda>p. flags ! p) (cl_predecessors (g_clusters graph ! c)) = []"
      using sc in_cc by simp
    also have "\<dots> \<longleftrightarrow> set (filter (\<lambda>p. flags ! p) (cl_predecessors (g_clusters graph ! c))) = {}"
      by (simp only: set_empty)
    finally show "c \<in> set ready0 \<longleftrightarrow> waits (cluster_preds graph) (map Not flags) (take 0 ready0) c = {}"
      unfolding filter_waits [OF c(1)] by simp
  qed (use sc len0 mk(1) cc in auto)
  note start = this
  have M_sub: "?M \<subseteq> ?A"
  proof -
    have "?M \<subseteq> ?seeds" by (auto simp: mandatory_set_def seed_set_def)
    then show ?thesis by (auto simp: affected_def)
  qed
  have "plan_run graph changedLeaves seedOps force cb x w candidateOps s =
      \<lparr>rp_seeded = seeded, rp_candidates = candidates, rp_pending = pending, rp_marks = flags, rp_clusters = cc,
        rp_unresolved = unresolved1, rp_ready = ready0,
        rp_start = \<lparr>e_ran = x_ran x, e_completion = x_completion x, e_succeeded = True,
          e_state = skip_others graph cb candidates s\<rparr>\<rparr>"
    unfolding plan_run_def Let_def seeded0_def [symmetric] seed prod.case spread mark cc_def [symmetric]
      unresolved0_def [symmetric] counts by (rule refl)
  then show ?thesis
    using start pend A_range M_sub unfolding x seeded candidates cc flags A by blast
qed

lemma finish_run_touched:
  assumes "rp_candidates p = flags_of (op_count graph) A" "set (rp_pending p) = A" "A \<subseteq> {..<op_count graph}"
  shows "RigExecOpAscending (rp_pending p) (rp_candidates p) (op_count graph) = filter (\<lambda>i. i \<in> A) [0..<op_count graph]"
  using assms by (subst ascending_spec) (auto simp: lists_flags_def intro!: filter_cong)

lemma execute_serial_spec:
  assumes graph: "exec_graph graph" and range: "\<forall>i \<in> set seedOps. i < op_count graph"
      "\<forall>i \<in> set (case candidateOps of None \<Rightarrow> [] | Some cs \<Rightarrow> cs). i < op_count graph"
    and x: "x_candidates x = replicate (op_count graph) False" "x_ran x = replicate (op_count graph) False"
      "x_completion x = replicate (op_count graph) 0"
    and w: "w_seeded w = replicate (op_count graph) False"
      "w_clusterCandidates w = replicate (length (g_clusters graph)) False"
    and run: "execute_serial graph changedLeaves seedOps force cb x w candidateOps s = (err, x', w', s')"
  shows "\<exists>bodies. exec_result graph cb (mandatory_set graph seedOps force)
     (affected graph (seed_set graph changedLeaves seedOps force candidateOps)) bodies s err x' w' s'"
proof -
  let ?n = "op_count graph" and ?K = "length (g_clusters graph)" and ?M = "mandatory_set graph seedOps force"
  define A where "A = affected graph (seed_set graph changedLeaves seedOps force candidateOps)"
  define flags where "flags = flags_of ?K ((\<lambda>i. g_opClusters graph ! i) ` A)"
  define candidates where "candidates = flags_of ?n A"
  define e0 where "e0 = \<lparr>e_ran = replicate ?n False, e_completion = replicate ?n 0, e_succeeded = True,
      e_state = skip_others graph cb candidates s\<rparr>"
  from plan_run_spec [OF graph range x w A_def, of cb s] obtain pending unresolved0 ready0 where
    plan: "plan_run graph changedLeaves seedOps force cb x w candidateOps s =
       \<lparr>rp_seeded = flags_of ?n ?M, rp_candidates = candidates, rp_pending = pending, rp_marks = flags,
        rp_clusters = filter (\<lambda>c. flags ! c) [0..<?K], rp_unresolved = unresolved0, rp_ready = ready0, rp_start = e0\<rparr>"
    and pending: "set pending = A" and A: "A \<subseteq> {..<?n}" "?M \<subseteq> A" and start: "run_inv graph flags unresolved0 ready0 0"
    unfolding flags_def [symmetric] candidates_def [symmetric] e0_def [symmetric] by blast
  obtain unresolved ready e where loop: "run_ready graph cb (flags_of ?n ?M) candidates flags unresolved0 ready0 0 0 e0 =
      (unresolved, ready, e)" by (rule prod_cases3)
  from run_ready_spec [OF graph start loop] have inv: "run_inv graph flags unresolved ready (length ready)"
    and e: "e = snd (foldl (process_cluster graph cb (flags_of ?n ?M) candidates) (0, e0) ready)" by simp_all
  define bodies where "bodies = sweep_order graph candidates ready"
  have ready: "set ready = {c. c < ?K \<and> flags ! c}" by (rule run_inv_end [OF graph inv])
  have topo: "topological_sweep graph bodies"
    unfolding bodies_def
  proof (rule sweep_topological [OF graph, of ready flags])
    show "\<forall>i < ?n. candidates ! i \<longrightarrow> flags ! (g_opClusters graph ! i)"
      using op_cluster_range(1) [OF graph] by (auto simp: candidates_def flags_def)
  qed (use inv in \<open>auto simp: run_inv_def\<close>)
  have bodies_set: "set bodies = A"
  proof -
    have "set bodies = {i. i < ?n \<and> candidates ! i \<and> g_opClusters graph ! i \<in> set ready}"
      unfolding bodies_def by (rule sweep_order_set [OF graph]) (simp add: ready)
    also have "\<dots> = A"
      using A(1) op_cluster_range(1) [OF graph] by (auto simp: ready candidates_def flags_def)
    finally show ?thesis .
  qed
  have flat: "e = (flat_sweep graph cb ?M A bodies s)\<lparr>e_completion := snd (numbered 0 bodies (replicate ?n 0))\<rparr>"
    unfolding e process_flat bodies_def [symmetric] by (simp add: flat_sweep_def e0_def candidates_def)
  let ?p = "\<lparr>rp_seeded = flags_of ?n ?M, rp_candidates = candidates, rp_pending = pending, rp_marks = flags,
        rp_clusters = filter (\<lambda>c. flags ! c) [0..<?K], rp_unresolved = unresolved0, rp_ready = ready0, rp_start = e0\<rparr>"
  have touched: "RigExecOpAscending pending candidates ?n = filter (\<lambda>i. i \<in> A) [0..<?n]"
    using finish_run_touched [of ?p graph A] pending A(1) by (simp add: candidates_def)
  have run_eq: "finish_run graph x w ?p unresolved ready e = (err, x', w', s')"
    using run by (simp add: execute_serial_def plan loop)
  have "exec_result graph cb ?M A bodies s err x' w' s'"
    using run_eq unfolding finish_run_def exec_result_def Let_def run_plan.simps touched
    by (elim Pair_inject, hypsubst)
       (simp add: topo bodies_set flat candidates_def flags_def pending A(2))
  then show ?thesis unfolding A_def by blast
qed

section \<open>The executor\<close>

text \<open>What a caller hands in: the arguments pass the checks and the records are those of an
  earlier execution (or empty).\<close>

definition exec_ready ::
  "compiled_graph \<Rightarrow> nat list \<Rightarrow> 's op_callbacks \<Rightarrow> op_execution \<Rightarrow> op_workspace option \<Rightarrow> nat list option \<Rightarrow> bool" where
  "exec_ready graph seedOps cb out supplied candidateOps \<longleftrightarrow> exec_graph graph \<and>
     execute_checks graph seedOps cb candidateOps = Inr () \<and> execution_record out \<and>
     (case supplied of None \<Rightarrow> True | Some w \<Rightarrow> workspace_record w)"

abbreviation targets :: "compiled_graph \<Rightarrow> value_id list \<Rightarrow> nat list \<Rightarrow> bool \<Rightarrow> nat list option \<Rightarrow> nat set" where
  "targets graph changedLeaves seedOps force candidateOps \<equiv>
     affected graph (seed_set graph changedLeaves seedOps force candidateOps)"

lemma execute_checks_range:
  assumes "execute_checks graph seedOps cb candidateOps = Inr ()"
  shows "\<forall>i \<in> set seedOps. i < op_count graph"
    "\<forall>i \<in> set (case candidateOps of None \<Rightarrow> [] | Some cs \<Rightarrow> cs). i < op_count graph"
  using assms by (auto simp: execute_checks_def Let_def not_le split: if_splits)

lemma execute_spec:
  assumes ready: "exec_ready graph seedOps cb out supplied candidateOps"
  shows "\<exists>bodies err x w s'. RigExecExecuteOpGraph graph changedLeaves seedOps force cb out supplied candidateOps s =
       (err, x, if supplied = None then None else Some w, s') \<and>
     exec_result graph cb (mandatory_set graph seedOps force) (targets graph changedLeaves seedOps force candidateOps)
       bodies s err x w s'"
proof -
  define workspace where "workspace = (case supplied of None \<Rightarrow> fresh_workspace | Some w \<Rightarrow> w)"
  have checks: "execute_checks graph seedOps cb candidateOps = Inr ()" and graph: "exec_graph graph"
    and rec_x: "execution_record out"
    using ready by (simp_all add: exec_ready_def)
  have "workspace_record workspace"
    using ready by (cases supplied) (simp_all add: exec_ready_def workspace_def workspace_record_def fresh_workspace_def)
  from reset_spec [OF rec_x this, of "op_count graph" "length (g_clusters graph)"] obtain x' w' where
    reset: "RigExecOpResetExecution (Some out) (Some workspace) (op_count graph) (length (g_clusters graph)) =
      (True, Some x', Some w')" "clean_execution (op_count graph) x'"
      "clean_workspace (op_count graph) (length (g_clusters graph)) w'" .
  obtain err x w s' where run: "execute_serial graph changedLeaves seedOps force cb (x'\<lparr>x_touchedValid := False\<rparr>)
      (w'\<lparr>w_listsValid := False\<rparr>) candidateOps s = (err, x, w, s')" by (rule prod_cases4)
  have "\<exists>bodies. exec_result graph cb (mandatory_set graph seedOps force)
      (targets graph changedLeaves seedOps force candidateOps) bodies s err x w s'"
    by (rule execute_serial_spec [OF graph execute_checks_range [OF checks] _ _ _ _ _ run])
       (use reset(2,3) in \<open>simp_all add: clean_execution_def clean_workspace_def\<close>)
  moreover have "RigExecExecuteOpGraph graph changedLeaves seedOps force cb out supplied candidateOps s =
       (err, x, if supplied = None then None else Some w, s')"
    unfolding RigExecExecuteOpGraph_def workspace_def [symmetric] Let_def checks reset(1)
    by (simp add: run)
  ultimately show ?thesis by blast
qed

lemma execute_cases:
  assumes ready: "exec_ready graph seedOps cb out supplied candidateOps"
    and run: "RigExecExecuteOpGraph graph changedLeaves seedOps force cb out supplied candidateOps s = (err, x, ws, s')"
  obtains bodies w where "exec_result graph cb (mandatory_set graph seedOps force)
      (targets graph changedLeaves seedOps force candidateOps) bodies s err x w s'"
    "ws = (if supplied = None then None else Some w)"
  using execute_spec [OF ready, of changedLeaves force s] run by auto

lemma targets_range:
  assumes "exec_ready graph seedOps cb out supplied candidateOps"
  shows "targets graph changedLeaves seedOps force candidateOps \<subseteq> {..<op_count graph}"
proof -
  have g: "exec_graph graph" "execute_checks graph seedOps cb candidateOps = Inr ()"
    using assms by (simp_all add: exec_ready_def)
  have readers: "i < op_count graph" if "g_readers graph v = Some rs" "i \<in> set rs" for v rs i
    using g(1) that unfolding exec_graph_def by blast
  have volatile: "i < op_count graph" if "i \<in> set (g_volatileOps graph)" for i
    using g(1) that unfolding exec_graph_def by blast
  have "\<forall>i \<in> seed_set graph changedLeaves seedOps force candidateOps. i < op_count graph"
    using execute_checks_range [OF g(2)]
    by (auto simp: seed_set_def split: option.splits if_splits
        dest: volatile readers [OF sym])
  then show ?thesis by (rule affected_range [OF g(1)])
qed

lemma op_body_ran:
  "length (e_ran (op_body graph cb seeded e i)) = length (e_ran e)"
  "j < length (e_ran e) \<Longrightarrow> e_ran (op_body graph cb seeded e i) ! j \<Longrightarrow> e_ran e ! j \<or> j = i"
  by (auto simp: op_body_def Let_def nth_list_update split: prod.splits if_splits)

lemma op_bodies_ran:
  "length (e_ran (foldl (op_body graph cb seeded) e is)) = length (e_ran e)"
  "j < length (e_ran e) \<Longrightarrow> e_ran (foldl (op_body graph cb seeded) e is) ! j \<Longrightarrow> e_ran e ! j \<or> j \<in> set is"
proof (induction "is" arbitrary: e)
  case (Cons i "is")
  {
    case 1
    then show ?case using Cons(1) by (simp add: op_body_ran)
  next
    case 2
    then show ?case
      using Cons(2) [of "op_body graph cb seeded e i"] op_body_ran(1) [of graph cb seeded e i]
        op_body_ran(2) [of j e graph cb seeded i] by auto
  }
qed simp_all

lemma flat_sweep_ran:
  "length (e_ran (flat_sweep graph cb M A bodies s)) = op_count graph"
  "j < op_count graph \<Longrightarrow> e_ran (flat_sweep graph cb M A bodies s) ! j \<Longrightarrow> j \<in> set bodies"
  using op_bodies_ran(1) [of graph cb "flags_of (op_count graph) M" "\<lparr>e_ran = replicate (op_count graph) False,
      e_completion = replicate (op_count graph) 0, e_succeeded = True,
      e_state = skip_others graph cb (flags_of (op_count graph) A) s\<rparr>" bodies]
    op_bodies_ran(2) [of j "\<lparr>e_ran = replicate (op_count graph) False,
      e_completion = replicate (op_count graph) 0, e_succeeded = True,
      e_state = skip_others graph cb (flags_of (op_count graph) A) s\<rparr>" graph cb "flags_of (op_count graph) M" bodies]
  by (simp_all add: flat_sweep_def)

text \<open>C12. The serial executor is a flat sweep: it runs the body of every operation reachable from
  a seed exactly once, in an order where an operation follows its predecessors, and its
  final state, ran flags, verdict and completion numbers are those of that sweep. The
  clustering changes nothing but the order.\<close>

theorem execute_is_topological_sweep:
  assumes "exec_ready graph seedOps cb out supplied candidateOps"
    and "RigExecExecuteOpGraph graph changedLeaves seedOps force cb out supplied candidateOps s = (err, x, ws, s')"
  shows "\<exists>bodies. topological_sweep graph bodies \<and>
     set bodies = targets graph changedLeaves seedOps force candidateOps \<and>
     (let e = flat_sweep graph cb (mandatory_set graph seedOps force) (set bodies) bodies s in
        s' = e_state e \<and> x_ran x = e_ran e \<and> (err = None \<longleftrightarrow> e_succeeded e)) \<and>
     (\<forall>k < length bodies. x_completion x ! (bodies ! k) = k + 1) \<and>
     (\<forall>i < op_count graph. i \<notin> set bodies \<longrightarrow> x_completion x ! i = 0)"
proof -
  from assms obtain bodies w where result: "exec_result graph cb (mandatory_set graph seedOps force)
      (targets graph changedLeaves seedOps force candidateOps) bodies s err x w s'" by (rule execute_cases)
  then have bodies: "topological_sweep graph bodies" "set bodies = targets graph changedLeaves seedOps force candidateOps"
    "x_completion x = snd (numbered 0 bodies (replicate (op_count graph) 0))"
    by (simp_all add: exec_result_def)
  have num: "distinct bodies" "\<forall>i \<in> set bodies. i < length (replicate (op_count graph) (0::nat))"
    using bodies(1,2) targets_range [OF assms(1)] by (auto simp: topological_sweep_def)
  have "(\<forall>k < length bodies. x_completion x ! (bodies ! k) = k + 1) \<and>
     (\<forall>i < op_count graph. i \<notin> set bodies \<longrightarrow> x_completion x ! i = 0)"
    unfolding bodies(3) using numbered_spec(2,3) [OF num, of _ 0] by simp
  then show ?thesis using result bodies(1,2) unfolding exec_result_def Let_def
    by (intro exI [where x = bodies]) auto
qed

text \<open>The bookkeeping is exact: the candidates are the operations reachable from a seed, only
  candidates ran, every candidate is in the touched list once, and executed and skipped
  count all operations.\<close>

theorem execute_counts:
  assumes "exec_ready graph seedOps cb out supplied candidateOps"
    and "RigExecExecuteOpGraph graph changedLeaves seedOps force cb out supplied candidateOps s = (err, x, ws, s')"
  shows "(\<forall>i < op_count graph. x_candidates x ! i \<longleftrightarrow> i \<in> targets graph changedLeaves seedOps force candidateOps) \<and>
     (\<forall>i < op_count graph. x_ran x ! i \<longrightarrow> x_candidates x ! i) \<and>
     x_touched x = sorted_list_of_set (targets graph changedLeaves seedOps force candidateOps) \<and>
     x_executed x = card {i. i < op_count graph \<and> x_ran x ! i} \<and> x_executed x + x_skipped x = op_count graph"
proof -
  let ?A = "targets graph changedLeaves seedOps force candidateOps" and ?n = "op_count graph"
  from assms obtain bodies w where result: "exec_result graph cb (mandatory_set graph seedOps force) ?A bodies s err x w s'"
    by (rule execute_cases)
  then have x: "x_candidates x = flags_of ?n ?A" "x_touched x = filter (\<lambda>i. i \<in> ?A) [0..<?n]" "set bodies = ?A"
    "x_executed x = length (filter (\<lambda>i. x_ran x ! i) (x_touched x))" "x_skipped x = ?n - x_executed x"
    "x_ran x = e_ran (flat_sweep graph cb (mandatory_set graph seedOps force) ?A bodies s)"
    by (simp_all add: exec_result_def)
  have ran: "i \<in> ?A" if "i < ?n" "x_ran x ! i" for i
  proof -
    have "i \<in> set bodies"
      using flat_sweep_ran(2) [OF that(1), of cb "mandatory_set graph seedOps force" ?A bodies s] that(2)
      by (simp add: x(6))
    then show ?thesis by (simp add: x(3))
  qed
  have touched: "filter (\<lambda>i. x_ran x ! i) (x_touched x) = filter (\<lambda>i. x_ran x ! i) [0..<?n]"
    unfolding x(2) filter_filter by (rule filter_cong) (use ran in auto)
  have "length (filter (\<lambda>i. x_ran x ! i) [0..<?n]) = card (set (filter (\<lambda>i. x_ran x ! i) [0..<?n]))"
    by (rule distinct_card [symmetric]) simp
  also have "set (filter (\<lambda>i. x_ran x ! i) [0..<?n]) = {i. i < ?n \<and> x_ran x ! i}" by auto
  finally have exec: "x_executed x = card {i. i < ?n \<and> x_ran x ! i}"
    unfolding x(4) touched .
  have "x_executed x \<le> ?n"
    unfolding x(4) touched using length_filter_le [of "\<lambda>i. x_ran x ! i" "[0..<?n]"] by simp
  then have total: "x_executed x + x_skipped x = ?n" by (simp add: x(5))
  have set_touched: "set (filter (\<lambda>i. i \<in> ?A) [0..<?n]) = ?A"
    using targets_range [OF assms(1), of changedLeaves force] by auto
  have "sorted_list_of_set (set (filter (\<lambda>i. i \<in> ?A) [0..<?n])) = filter (\<lambda>i. i \<in> ?A) [0..<?n]"
    by (rule sorted_list_of_set.idem_if_sorted_distinct) (simp_all add: sorted_filter [of id, simplified])
  then have list: "x_touched x = sorted_list_of_set ?A"
    unfolding set_touched x(2) by simp
  show ?thesis
    unfolding list exec [symmetric] using total ran by (simp add: x(1))
qed

end
