(* ===== verification/Op_Build.thy ===== *)
theory Op_Build
  imports Op_Order
begin

text \<open>
  The rest of \<open>RigExecCompileOpGraph\<close>: the cycles it sets aside are exactly the operations on
  a cycle of the resolved graph, and the graph it builds is canonical, keeps exactly the
  dependencies among the remaining operations, and records its readers, its volatile
  operations and the length of its longest path.
\<close>

section \<open>The operations on a cycle\<close>

definition after_components ::
  "op_descriptor list \<Rightarrow> nat list list \<Rightarrow> nat list list \<Rightarrow> bool list \<times> cycle_report list \<Rightarrow> bool list \<times> cycle_report list" where
  "after_components descs preds succs = (\<lambda>state. foldl (report_component descs succs) state (Components succs preds))"

lemma report_components_excluded:
  assumes "\<forall>c \<in> set comps. \<forall>i \<in> set c. i < length excluded" "i < length excluded"
  shows "length (fst (foldl (report_component descs succs) (excluded, reports) comps)) = length excluded \<and>
    (fst (foldl (report_component descs succs) (excluded, reports) comps) ! i \<longleftrightarrow>
       excluded ! i \<or> (\<exists>c \<in> set comps. i \<in> set c))"
  using assms
proof (induction comps arbitrary: excluded reports)
  case (Cons c comps)
  obtain ex reps where step: "report_component descs succs (excluded, reports) c = (ex, reps)" by fastforce
  have "length ex = length excluded" "ex ! i \<longleftrightarrow> excluded ! i \<or> i \<in> set c"
    using step Cons.prems by (auto simp: report_component_def foldl_update_nth)
  with Cons.IH [of ex reps] Cons.prems step show ?case by auto
qed simp

lemma report_components_reports:
  "snd (foldl (report_component descs succs) (excluded, reports) comps) =
     reports @ map (\<lambda>c. (Loop c succs (map desc_key descs), sort (map (op_key descs) c))) comps"
  by (induction comps arbitrary: excluded reports) (auto simp: report_component_def)

lemma after_components_excluded:
  assumes graph: "resolved_edges preds succs" and len: "length excluded = length succs" and i: "i < length succs"
  shows "length (fst (after_components descs preds succs (excluded, reports))) = length succs"
    "fst (after_components descs preds succs (excluded, reports)) ! i \<longleftrightarrow> excluded ! i \<or> on_cycle succs i"
proof -
  note g = resolved_edgesD(1,2) [OF graph]
  have range: "\<forall>c \<in> set (Components succs preds). \<forall>i \<in> set c. i < length excluded"
    using Components_scc [OF g] len by (auto simp: is_cyclic_scc_def)
  from report_components_excluded [OF range, of i descs succs reports] len i Components_cover [OF g, of i]
  show "length (fst (after_components descs preds succs (excluded, reports))) = length succs"
    "fst (after_components descs preds succs (excluded, reports)) ! i \<longleftrightarrow> excluded ! i \<or> on_cycle succs i"
    by (simp_all add: after_components_def)
qed

lemma active_acyclic:
  assumes graph: "resolved_edges preds succs"
    and cycles: "\<And>i. i < length succs \<Longrightarrow> on_cycle succs i \<Longrightarrow> excluded ! i"
  shows "acyclic (active_edges preds excluded)"
proof -
  have sub: "active_edges preds excluded \<subseteq> edges succs"
    using resolved_edgesD(3,4) [OF graph] by (auto simp: active_edges_def edges_def active_def)
  have "(i, i) \<notin> (active_edges preds excluded)\<^sup>+" for i
  proof
    assume cycle: "(i, i) \<in> (active_edges preds excluded)\<^sup>+"
    then have "on_cycle succs i"
      using trancl_mono [OF _ sub] by (auto simp: on_cycle_def)
    moreover have "active excluded (length preds) i"
      using tranclD [OF cycle] by (auto simp: active_edges_def)
    ultimately show False using cycles [of i] resolved_edgesD(3) [OF graph] by (auto simp: active_def)
  qed
  then show ?thesis by (simp add: acyclic_def)
qed

section \<open>The canonical index\<close>

lemma uint32_of_int32_of: "i < 4294967296 \<Longrightarrow> uint32_of (int32_of i) = i"
  by (simp add: uint32_of_def int32_of_def take_bit_signed_take_bit take_bit_int_eq_self)

lemma length_canonical_index [simp]: "length (canonical_index n order) = n"
proof -
  have "length (foldl (\<lambda>c i. c[order ! i := int32_of i]) c is) = length c" for c "is"
    by (induction "is" arbitrary: c) auto
  then show ?thesis by (simp add: canonical_index_def)
qed

lemma canonical_index_fold:
  assumes "distinct order" "\<forall>x \<in> set order. x < n" "k \<le> length order"
  shows "length (foldl (\<lambda>c i. c[order ! i := int32_of i]) (replicate n (- 1)) [0..<k]) = n \<and>
    (\<forall>j < k. foldl (\<lambda>c i. c[order ! i := int32_of i]) (replicate n (- 1)) [0..<k] ! (order ! j) = int32_of j) \<and>
    (\<forall>x < n. x \<notin> set (take k order) \<longrightarrow>
       foldl (\<lambda>c i. c[order ! i := int32_of i]) (replicate n (- 1)) [0..<k] ! x = - 1)"
  using assms(3)
proof (induction k)
  case (Suc k)
  have "order ! j \<noteq> order ! k \<and> order ! k \<noteq> order ! j" if "j < k" for j
    using assms(1) that Suc.prems by (simp add: nth_eq_iff_index_eq)
  moreover have "order ! k < n" using assms(2) Suc.prems by simp
  ultimately show ?case
    using Suc by (auto simp: take_Suc_conv_app_nth less_Suc_eq nth_list_update)
qed simp

lemma canonical_index_nth:
  assumes "distinct order" "\<forall>x \<in> set order. x < n"
  shows "k < length order \<Longrightarrow> canonical_index n order ! (order ! k) = int32_of k"
    "x < n \<Longrightarrow> x \<notin> set order \<Longrightarrow> canonical_index n order ! x = - 1"
  using canonical_index_fold [OF assms order_refl, folded canonical_index_def] by simp_all

section \<open>The built operations\<close>

definition built_op ::
  "op_descriptor list \<Rightarrow> nat list list \<Rightarrow> nat list list \<Rightarrow> bool list \<Rightarrow> nat list \<Rightarrow> nat \<Rightarrow> compiled_op" where
  "built_op descs preds succs excluded order i =
     (let canonical = (\<lambda>other. uint32_of (canonical_index (length descs) order ! other)) in
      \<lparr>op_descriptor = (descs ! (order ! i))\<lparr>desc_predecessors := []\<rparr>, op_originalIndex = order ! i,
       op_predecessors = vec_unique (map canonical (filter (\<lambda>p. \<not> excluded ! p) (preds ! (order ! i)))),
       op_successors = vec_unique (map canonical (filter (\<lambda>s. \<not> excluded ! s) (succs ! (order ! i))))\<rparr>)"

lemma foldl_max: "foldl max a xs = Max (insert a (set xs))" for a :: nat
proof (induction xs arbitrary: a)
  case (Cons x xs)
  have "Max (insert (max a x) (set xs)) = Max (insert a (insert x (set xs)))"
    by (cases "set xs = {}") (simp_all add: max.assoc)
  with Cons show ?case by simp
qed simp

lemma add_readers:
  "foldl (add_reader i) readers vs v =
     (if v \<in> set vs then Some ((case readers v of None \<Rightarrow> [] | Some is \<Rightarrow> is) @ replicate (count_list vs v) i)
      else readers v)"
proof (induction vs arbitrary: readers)
  case (Cons w vs)
  show ?case
    unfolding foldl_Cons Cons by (auto simp: add_reader_def count_list_0_iff split: option.split)
qed simp

text \<open>The state of the building loop after the first \<open>k\<close> operations.\<close>

definition build_inv ::
  "op_descriptor list \<Rightarrow> nat list list \<Rightarrow> nat list list \<Rightarrow> bool list \<Rightarrow> nat list \<Rightarrow> nat \<Rightarrow> build_state \<Rightarrow> bool" where
  "build_inv descs preds succs excluded order k b \<longleftrightarrow>
     b_ops b = map (built_op descs preds succs excluded order) [0..<k] \<and>
     length (b_distance b) = length order \<and>
     (\<forall>i < length order. b_distance b ! i =
        (if i < k then Max (insert 1 ((\<lambda>c. b_distance b ! c + 1) `
             set (op_predecessors (built_op descs preds succs excluded order i)))) else 1)) \<and>
     (\<forall>v. map_option set (b_readers b v) =
        (let rs = {i. i < k \<and> v \<in> set (desc_reads (descs ! (order ! i)))} in if rs = {} then None else Some rs)) \<and>
     b_volatileOps b = filter (\<lambda>i. desc_volatileInput (descs ! (order ! i))) [0..<k] \<and>
     b_longestPath b = Max (insert 0 (set (take k (b_distance b))))"

text \<open>Predecessors point backwards; this is all the distances need.\<close>

lemma build_op_inv:
  assumes inv: "build_inv descs preds succs excluded order k b" and k: "k < length order"
    and backward: "\<forall>i < length order. \<forall>c \<in> set (op_predecessors (built_op descs preds succs excluded order i)). c < i"
  shows "build_inv descs preds succs excluded order (Suc k)
     (build_op descs preds succs excluded order (canonical_index (length descs) order) b k)"
proof -
  let ?index = "canonical_index (length descs) order"
  let ?b = "build_op descs preds succs excluded order ?index b k"
  let ?op = "built_op descs preds succs excluded order"
  let ?prior = "map (\<lambda>other. uint32_of (?index ! other)) (filter (\<lambda>p. \<not> excluded ! p) (preds ! (order ! k)))"
  have prior: "set (op_predecessors (?op k)) = set ?prior" by (simp add: built_op_def Let_def)
  have len: "length (b_distance b) = length order" using inv by (simp add: build_inv_def)
  define d where "d = Max (insert 1 ((\<lambda>c. b_distance b ! c + 1) ` set (op_predecessors (?op k))))"
  have d: "foldl max (b_distance b ! k) (map (\<lambda>c. b_distance b ! c + 1) ?prior) = d"
    unfolding foldl_max d_def prior using inv k by (simp add: build_inv_def image_image)
  have dist: "b_distance ?b = (b_distance b)[k := d]" and longest: "b_longestPath ?b = max (b_longestPath b) d"
    and ops: "b_ops ?b = b_ops b @ [?op k]"
    and readers: "b_readers ?b = foldl (add_reader k) (b_readers b) (desc_reads (descs ! (order ! k)))"
    and volatile: "b_volatileOps ?b = (if desc_volatileInput (descs ! (order ! k)) then b_volatileOps b @ [k] else b_volatileOps b)"
    unfolding build_op_def Let_def d by (simp_all add: built_op_def Let_def)
  have keep: "(\<lambda>c. b_distance ?b ! c + 1) ` set (op_predecessors (?op i)) =
      (\<lambda>c. b_distance b ! c + 1) ` set (op_predecessors (?op i))" if "i \<le> k" for i
  proof (rule image_cong [OF refl])
    fix c assume "c \<in> set (op_predecessors (?op i))"
    moreover have "i < length order" using that k by simp
    ultimately have "c < k" using backward that by fastforce
    then show "b_distance ?b ! c + 1 = b_distance b ! c + 1" by (simp add: dist)
  qed
  have "\<forall>i < length order. b_distance ?b ! i =
        (if i < Suc k then Max (insert 1 ((\<lambda>c. b_distance ?b ! c + 1) ` set (op_predecessors (?op i)))) else 1)"
  proof (intro allI impI)
    fix i assume i: "i < length order"
    consider "i < k" | "i = k" | "k < i" by linarith
    then show "b_distance ?b ! i =
        (if i < Suc k then Max (insert 1 ((\<lambda>c. b_distance ?b ! c + 1) ` set (op_predecessors (?op i)))) else 1)"
    proof cases
      case 1
      then show ?thesis using inv i keep [of i] by (simp add: build_inv_def dist)
    next
      case 2
      then show ?thesis using keep [of k] len k by (simp add: dist d_def)
    next
      case 3
      then show ?thesis using inv i by (simp add: build_inv_def dist)
    qed
  qed
  moreover have "map_option set (b_readers ?b v) =
      (let rs = {i. i < Suc k \<and> v \<in> set (desc_reads (descs ! (order ! i)))} in if rs = {} then None else Some rs)" for v
  proof -
    have old: "map_option set (b_readers b v) =
        (let rs = {i. i < k \<and> v \<in> set (desc_reads (descs ! (order ! i)))} in if rs = {} then None else Some rs)"
      using inv by (simp add: build_inv_def)
    show ?thesis
    proof (cases "v \<in> set (desc_reads (descs ! (order ! k)))")
      case True
      then have more: "{i. i < Suc k \<and> v \<in> set (desc_reads (descs ! (order ! i)))} =
          insert k {i. i < k \<and> v \<in> set (desc_reads (descs ! (order ! i)))}" by (auto simp: less_Suc_eq)
      have pos: "0 < count_list (desc_reads (descs ! (order ! k))) v"
        using True by (metis count_list_0_iff gr0I)
      show ?thesis
        unfolding readers add_readers more using True old pos
        by (cases "b_readers b v") (auto simp: Let_def split: if_splits)
    next
      case False
      then have "{i. i < Suc k \<and> v \<in> set (desc_reads (descs ! (order ! i)))} =
          {i. i < k \<and> v \<in> set (desc_reads (descs ! (order ! i)))}" by (auto simp: less_Suc_eq)
      then show ?thesis unfolding readers add_readers using False old by simp
    qed
  qed
  moreover have "b_longestPath ?b = Max (insert 0 (set (take (Suc k) (b_distance ?b))))"
  proof -
    have "take (Suc k) (b_distance ?b) = take k (b_distance b) @ [d]"
      using k len by (simp add: dist take_Suc_conv_app_nth)
    then have "set (take (Suc k) (b_distance ?b)) = insert d (set (take k (b_distance b)))" by simp
    moreover have "Max (insert 0 (insert d A)) = max (Max (insert 0 A)) d" if "finite A" for A
      using that by (subst insert_commute, subst Max_insert) (auto simp: max.commute)
    moreover have "b_longestPath b = Max (insert 0 (set (take k (b_distance b))))"
      using inv by (simp add: build_inv_def)
    ultimately show ?thesis unfolding longest by (simp only: finite_set)
  qed
  ultimately show ?thesis
    unfolding build_inv_def using inv len ops volatile dist by (simp add: build_inv_def)
qed

lemma build_fold:
  assumes backward: "\<forall>i < length order. \<forall>c \<in> set (op_predecessors (built_op descs preds succs excluded order i)). c < i"
    and "k \<le> length order"
  shows "build_inv descs preds succs excluded order k
    (foldl (build_op descs preds succs excluded order (canonical_index (length descs) order))
       \<lparr>b_ops = [], b_distance = replicate (length order) 1, b_readers = Map.empty,
        b_volatileOps = [], b_longestPath = 0\<rparr> [0..<k])"
  using assms(2)
proof (induction k)
  case 0
  show ?case by (simp add: build_inv_def)
next
  case (Suc k)
  then show ?case using build_op_inv [OF _ _ backward, of k] by simp
qed

end
