(* ===== verification/Op_Correct.thy ===== *)
theory Op_Correct
  imports Op_Build
begin

text \<open>
  The correctness of \<open>RigExecCompileOpGraph\<close> as a whole, stated on the descriptors alone:
  \<open>depends\<close> is the relation they state, \<open>retained_keys\<close> the keys a retained proof keeps out,
  \<open>set_aside\<close> the operations that are kept out or lie on a cycle of what is left. The
  lemmas lead from the loops to these notions; the properties follow at the end.
\<close>

definition retained_keys :: "exclusion_proof option \<Rightarrow> string set" where
  "retained_keys retained = (case retained of None \<Rightarrow> {} | Some proven \<Rightarrow> set (ex_keys proven))"

definition live_edges :: "op_descriptor list \<Rightarrow> string set \<Rightarrow> (nat \<times> nat) set" where
  "live_edges descs kept_out =
     {(p, i). depends descs p i \<and> op_key descs p \<notin> kept_out \<and> op_key descs i \<notin> kept_out}"

definition set_aside :: "op_descriptor list \<Rightarrow> string set \<Rightarrow> nat \<Rightarrow> bool" where
  "set_aside descs kept_out i \<longleftrightarrow> op_key descs i \<in> kept_out \<or> (i, i) \<in> (live_edges descs kept_out)\<^sup>+"

section \<open>Retained exclusions\<close>

lemma descs_ok_keys:
  assumes "descs_ok descs leafSet"
  shows "inj_on (op_key descs) {..<length descs}" "i < length descs \<Longrightarrow> op_key descs i \<noteq> []"
proof -
  have ok: "\<forall>i < length descs. keys_ok descs leafSet i" using assms by (simp add: descs_ok_def)
  then show "inj_on (op_key descs) {..<length descs}"
    unfolding inj_on_def keys_ok_def by (metis lessThan_iff nat_neq_iff)
  show "i < length descs \<Longrightarrow> op_key descs i \<noteq> []" using ok by (simp add: keys_ok_def)
qed

lemma retain_keys_spec:
  assumes keys: "inj_on (op_key descs) {..<length descs}"
    and run: "fold_err (retain_key descs members) ({}, replicate (length descs) False) ks = Inr (retained, excluded)"
  shows "retained = set ks \<and> set ks \<subseteq> set members \<and> distinct ks \<and> set ks \<subseteq> desc_key ` set descs \<and>
    length excluded = length descs \<and> (\<forall>i < length descs. excluded ! i \<longleftrightarrow> op_key descs i \<in> set ks)"
  using run
proof (induction ks arbitrary: retained excluded rule: rev_induct)
  case (snoc k ks)
  then obtain r e where pre: "fold_err (retain_key descs members) ({}, replicate (length descs) False) ks = Inr (r, e)"
    and step: "retain_key descs members (r, e) k = Inr (retained, excluded)"
    by (auto simp: fold_err_snoc_iff)
  note IH = snoc.IH [OF pre]
  from step obtain j where j: "find (\<lambda>i. op_key descs i = k) [0..<length descs] = Some j" "k \<notin> r" "k \<in> set members"
    "retained = insert k r" "excluded = e[j := True]"
    by (auto simp: retain_key_def split: if_splits option.splits)
  then have at_j: "j < length descs" "op_key descs j = k" by (auto simp: find_Some_iff)
  moreover have "k \<in> desc_key ` set descs" using at_j nth_mem by blast
  moreover from at_j have "op_key descs i = k \<longleftrightarrow> i = j" if "i < length descs" for i
    using keys that by (auto simp: inj_on_def)
  ultimately show ?case using IH j by (auto simp: nth_list_update)
qed (auto simp: nth_list_update)

lemma retain_exclusions_spec:
  assumes keys: "inj_on (op_key descs) {..<length descs}"
    and run: "retain_exclusions descs all_keys proven = Inr (excluded, reports)"
  shows "length excluded = length descs \<and> (\<forall>i < length descs. excluded ! i \<longleftrightarrow> op_key descs i \<in> set (ex_keys proven))"
proof -
  obtain members retained where
    "fold_err (retain_key descs members) ({}, replicate (length descs) False) (ex_keys proven) = Inr (retained, excluded)"
    using run by (auto simp: retain_exclusions_def bind_err_Inr_iff split: if_splits option.splits)
  from retain_keys_spec [OF keys this] show ?thesis by blast
qed

section \<open>The active graph\<close>

lemma drop_excluded_nth:
  "i < length es \<Longrightarrow> drop_excluded excluded es ! i = (if excluded ! i then [] else filter (\<lambda>other. \<not> excluded ! other) (es ! i))"
  "length (drop_excluded excluded es) = length es"
  by (simp_all add: drop_excluded_def)

lemma drop_excluded_mem:
  "i < length es \<Longrightarrow> x \<in> set (drop_excluded excluded es ! i) \<longleftrightarrow>
     \<not> excluded ! i \<and> \<not> excluded ! x \<and> x \<in> set (es ! i)"
  by (auto simp: drop_excluded_nth)

lemma drop_excluded_resolved:
  assumes graph: "resolved_edges preds succs"
  shows "resolved_edges (drop_excluded excluded preds) (drop_excluded excluded succs)"
proof -
  note g = resolved_edgesD [OF graph]
  have "mutual_edges (drop_excluded excluded succs) (drop_excluded excluded preds)"
    unfolding mutual_edges_def
  proof (intro conjI allI impI ballI)
    show "length (drop_excluded excluded preds) = length (drop_excluded excluded succs)"
      using g(3) by (simp add: drop_excluded_nth)
    fix u v assume "u < length (drop_excluded excluded succs)" "v < length (drop_excluded excluded succs)"
    then show "v \<in> set (drop_excluded excluded succs ! u) \<longleftrightarrow> u \<in> set (drop_excluded excluded preds ! v)"
      using g(3) g(4) [of u v] by (auto simp: drop_excluded_nth(2) drop_excluded_mem)
  next
    fix v u assume "v < length (drop_excluded excluded succs)" "u \<in> set (drop_excluded excluded preds ! v)"
    then show "u < length (drop_excluded excluded succs)"
      using g(3) g(5) [of v u] by (simp add: drop_excluded_nth(2) drop_excluded_mem)
  qed
  moreover have "closed_graph (drop_excluded excluded succs)"
    unfolding closed_graph_def using g(6) by (auto simp: drop_excluded_nth(2) drop_excluded_mem)
  moreover have "sorted es \<and> distinct es"
    if es: "es \<in> set (drop_excluded excluded l)" and all: "\<forall>es \<in> set l. sorted es \<and> distinct es" for l es
  proof -
    obtain i where i: "i < length l" "es = (if excluded ! i then [] else filter (\<lambda>other. \<not> excluded ! other) (l ! i))"
      using es by (auto simp: drop_excluded_def)
    then show ?thesis using all nth_mem [OF i(1)] by (simp add: sorted_wrt_filter)
  qed
  ultimately show ?thesis using graph unfolding resolved_edges_def by blast
qed

text \<open>What the compiler works on after the retained exclusions: the live edges.\<close>

definition live_graph :: "op_descriptor list \<Rightarrow> string set \<Rightarrow> nat list list \<Rightarrow> nat list list \<Rightarrow> bool list \<Rightarrow> bool" where
  "live_graph descs kept_out preds succs excluded \<longleftrightarrow>
     resolved_edges preds succs \<and> length preds = length descs \<and> edges succs = live_edges descs kept_out \<and>
     length excluded = length descs \<and> (\<forall>i < length descs. excluded ! i \<longleftrightarrow> op_key descs i \<in> kept_out)"

lemma live_graph_start:
  assumes ok: "descs_ok descs leafSet"
    and base: "case retained of None \<Rightarrow> base = (replicate (length descs) False, [])
        | Some proven \<Rightarrow> retain_exclusions descs (desc_key ` set descs) proven = Inr base"
    and dropping: "dropping = (case retained of None \<Rightarrow> False | Some proven \<Rightarrow> ex_keys proven \<noteq> [])"
    and p: "preds = (if dropping then drop_excluded (fst base) (map (linked_preds descs) [0..<length descs])
               else map (linked_preds descs) [0..<length descs])"
    and s: "succs = (if dropping then drop_excluded (fst base) (map (linked_succs descs) [0..<length descs])
               else map (linked_succs descs) [0..<length descs])"
  shows "live_graph descs (retained_keys retained) preds succs (fst base)"
proof -
  note inj = descs_ok_keys(1) [OF ok]
  have ex: "length (fst base) = length descs \<and> (\<forall>i < length descs. fst base ! i \<longleftrightarrow> op_key descs i \<in> retained_keys retained)"
  proof (cases retained)
    case None
    then show ?thesis using base by (simp add: retained_keys_def)
  next
    case (Some proven)
    then show ?thesis
      using base retain_exclusions_spec [OF inj, of "desc_key ` set descs" proven "fst base" "snd base"]
      by (simp add: retained_keys_def)
  qed
  have none: "retained_keys retained = {}" if "\<not> dropping"
    using that dropping by (auto simp: retained_keys_def split: option.splits)
  have graph: "resolved_edges preds succs"
    unfolding p s using resolved_linked drop_excluded_resolved [OF resolved_linked] by simp
  have "edges succs = live_edges descs (retained_keys retained)"
  proof (cases dropping)
    case True
    show ?thesis
    proof -
      have "b \<in> set (succs ! a) \<longleftrightarrow> (a, b) \<in> live_edges descs (retained_keys retained)"
        if "a < length descs" for a b
      proof -
        have "b \<in> set (succs ! a) \<longleftrightarrow> \<not> fst base ! a \<and> \<not> fst base ! b \<and> depends descs a b"
          using that True unfolding s by (simp add: drop_excluded_mem linked_succs_def)
        then show ?thesis using ex that by (auto simp: live_edges_def depends_def)
      qed
      moreover have "length succs = length descs" unfolding s by (simp add: drop_excluded_nth)
      ultimately show ?thesis by (auto simp: edges_def live_edges_def depends_def)
    qed
  next
    case False
    then show ?thesis unfolding s using edges_linked [of descs] none by (auto simp: live_edges_def)
  qed
  moreover have "length preds = length descs" unfolding p by (simp add: drop_excluded_nth)
  ultimately show ?thesis using graph ex by (simp add: live_graph_def)
qed

section \<open>The compiled graph\<close>

definition compiled_from ::
  "op_descriptor list \<Rightarrow> string set \<Rightarrow> nat list list \<Rightarrow> nat list list \<Rightarrow> bool list \<Rightarrow> nat list \<Rightarrow> bool" where
  "compiled_from descs kept_out preds succs excluded order \<longleftrightarrow>
     resolved_edges preds succs \<and> length preds = length descs \<and> edges succs = live_edges descs kept_out \<and>
     length excluded = length descs \<and> (\<forall>i < length descs. excluded ! i \<longleftrightarrow> set_aside descs kept_out i) \<and>
     length descs \<le> uint32_max \<and> distinct order \<and> set order = {i. i < length descs \<and> \<not> set_aside descs kept_out i} \<and>
     least_first (op_key descs) preds excluded order"

lemma compiled_from_start:
  assumes live: "live_graph descs kept_out preds succs base" and keys: "inj_on (op_key descs) {..<length descs}"
    and small: "length descs \<le> uint32_max"
    and excluded: "excluded = fst (after_components descs preds succs (base, reports))"
  shows "compiled_from descs kept_out preds succs excluded (canonical_order (op_key descs) preds succs excluded)"
proof -
  have graph: "resolved_edges preds succs" and len: "length preds = length descs" "length succs = length descs"
      "length base = length succs"
    using live resolved_edgesD(3) [of preds succs] by (auto simp: live_graph_def)
  have ex: "excluded ! i \<longleftrightarrow> set_aside descs kept_out i" if "i < length descs" for i
    using after_components_excluded(2) [OF graph len(3), of i descs reports] that len live
    by (auto simp: excluded set_aside_def live_graph_def on_cycle_def)
  have len_ex: "length excluded = length descs"
  proof (cases "length descs")
    case 0
    have "length (fst (foldl (report_component descs succs) (base, reports) cs)) = length base" for cs
      by (induction cs arbitrary: base reports) (auto simp: report_component_def)
    then show ?thesis using len by (simp add: excluded after_components_def)
  next
    case (Suc n)
    then show ?thesis using after_components_excluded(1) [OF graph len(3), of 0 descs reports] len
      by (simp add: excluded)
  qed
  have "inj_on (op_key descs) {i. active excluded (length preds) i}"
    using keys len by (auto simp: active_def intro: inj_on_subset)
  moreover have "acyclic (active_edges preds excluded)"
  proof (rule active_acyclic [OF graph])
    fix i assume "i < length succs" "on_cycle succs i"
    then show "excluded ! i"
      using after_components_excluded(2) [OF graph len(3), of i descs reports] by (simp add: excluded)
  qed
  ultimately have spec: "distinct (canonical_order (op_key descs) preds succs excluded)"
    "set (canonical_order (op_key descs) preds succs excluded) = {i. active excluded (length preds) i}"
    "least_first (op_key descs) preds excluded (canonical_order (op_key descs) preds succs excluded)"
    using canonical_order_spec [OF graph] by blast+
  have "{i. active excluded (length preds) i} = {i. i < length descs \<and> \<not> set_aside descs kept_out i}"
    using ex len(1) by (auto simp: active_def)
  moreover have "edges succs = live_edges descs kept_out" using live by (simp add: live_graph_def)
  ultimately show ?thesis
    unfolding compiled_from_def using spec graph len(1) len_ex ex small by (intro conjI allI impI) simp_all
qed

text \<open>The positions of the order, and the edges between them.\<close>

lemma compiled_from_length:
  assumes "compiled_from descs kept_out preds succs excluded order"
  shows "length order \<le> length descs"
proof -
  have "distinct order" "set order \<subseteq> {..<length descs}" using assms by (auto simp: compiled_from_def)
  then show ?thesis using card_mono [of "{..<length descs}" "set order"] by (simp add: distinct_card)
qed

lemma compiled_from_canonical:
  assumes comp: "compiled_from descs kept_out preds succs excluded order" and i: "i < length order"
  shows "uint32_of (canonical_index (length descs) order ! (order ! i)) = i"
proof -
  have d: "distinct order" "\<forall>x \<in> set order. x < length descs" and small: "length descs \<le> uint32_max"
    using comp by (auto simp: compiled_from_def)
  then have "i < 4294967296" using i compiled_from_length [OF comp] by simp
  then show ?thesis using canonical_index_nth(1) [OF d i] by (simp add: uint32_of_int32_of)
qed

lemma compiled_from_edges:
  assumes comp: "compiled_from descs kept_out preds succs excluded order" and i: "i < length order"
  shows "set (op_predecessors (built_op descs preds succs excluded order i)) =
      {j. j < length order \<and> (order ! j, order ! i) \<in> live_edges descs kept_out}"
    "set (op_successors (built_op descs preds succs excluded order i)) =
      {j. j < length order \<and> (order ! i, order ! j) \<in> live_edges descs kept_out}"
proof -
  let ?canon = "\<lambda>x. uint32_of (canonical_index (length descs) order ! x)"
  have g: "resolved_edges preds succs" "length preds = length descs" "edges succs = live_edges descs kept_out"
    and ord: "set order = {i. i < length descs \<and> \<not> excluded ! i}"
    using comp by (auto simp: compiled_from_def)
  have len: "length succs = length descs" using resolved_edgesD(3) [OF g(1)] g(2) by simp
  have oi: "order ! i < length descs" using ord i nth_mem [OF i] by auto
  have canon: "?canon ` {x \<in> A. \<not> excluded ! x} = {j. j < length order \<and> order ! j \<in> A}"
    if "\<forall>x \<in> A. x < length descs" for A
  proof
    show "?canon ` {x \<in> A. \<not> excluded ! x} \<subseteq> {j. j < length order \<and> order ! j \<in> A}"
    proof
      fix j assume "j \<in> ?canon ` {x \<in> A. \<not> excluded ! x}"
      then obtain x where x: "x \<in> A" "\<not> excluded ! x" "j = ?canon x" by auto
      then have "x \<in> set order" using that ord by auto
      then obtain k where "k < length order" "order ! k = x" by (auto simp: in_set_conv_nth)
      then show "j \<in> {j. j < length order \<and> order ! j \<in> A}"
        using x compiled_from_canonical [OF comp, of k] by auto
    qed
    show "{j. j < length order \<and> order ! j \<in> A} \<subseteq> ?canon ` {x \<in> A. \<not> excluded ! x}"
    proof
      fix j assume j: "j \<in> {j. j < length order \<and> order ! j \<in> A}"
      then have "order ! j \<in> set order" by simp
      then have "\<not> excluded ! (order ! j)" using ord by auto
      then show "j \<in> ?canon ` {x \<in> A. \<not> excluded ! x}"
        using j compiled_from_canonical [OF comp, of j] by force
    qed
  qed
  have pred_edge: "x \<in> set (preds ! (order ! i)) \<longleftrightarrow> (x, order ! i) \<in> live_edges descs kept_out" for x
    using resolved_edgesD(4) [OF g(1), of x "order ! i"] resolved_edgesD(5) [OF g(1), of "order ! i" x] oi
    unfolding g(3) [symmetric] edges_def len by blast
  have succ_edge: "x \<in> set (succs ! (order ! i)) \<longleftrightarrow> (order ! i, x) \<in> live_edges descs kept_out" for x
    using oi len unfolding g(3) [symmetric] edges_def by auto
  have range: "\<forall>x \<in> set (preds ! (order ! i)). x < length descs" "\<forall>x \<in> set (succs ! (order ! i)). x < length descs"
    using resolved_edgesD(5) [OF g(1), of "order ! i"] resolved_edgesD(6) [OF g(1), of "order ! i"] oi
    unfolding len by blast+
  show "set (op_predecessors (built_op descs preds succs excluded order i)) =
      {j. j < length order \<and> (order ! j, order ! i) \<in> live_edges descs kept_out}"
    using canon [OF range(1)] by (simp add: built_op_def Let_def pred_edge)
  show "set (op_successors (built_op descs preds succs excluded order i)) =
      {j. j < length order \<and> (order ! i, order ! j) \<in> live_edges descs kept_out}"
    using canon [OF range(2)] by (simp add: built_op_def Let_def succ_edge)
qed

lemma compiled_from_forward:
  assumes comp: "compiled_from descs kept_out preds succs excluded order"
    and "i < length order" "j < length order" "(order ! j, order ! i) \<in> live_edges descs kept_out"
  shows "j < i"
proof -
  have g: "resolved_edges preds succs" "length preds = length descs" "edges succs = live_edges descs kept_out"
    and ord: "set order = {i. i < length descs \<and> \<not> excluded ! i}" "distinct order"
    using comp by (auto simp: compiled_from_def)
  have len: "length succs = length descs" using resolved_edgesD(3) [OF g(1)] g(2) by simp
  have act: "order ! i < length succs" "order ! j < length succs" "\<not> excluded ! (order ! j)"
    using ord(1) nth_mem [OF assms(2)] nth_mem [OF assms(3)] len by auto
  have "order ! j \<in> set (preds ! (order ! i))"
    using resolved_edgesD(4) [OF g(1) act(2,1)] assms(4) unfolding g(3) [symmetric] edges_def by simp
  moreover have "waits preds excluded (take i order) (order ! i) = {}"
    using comp assms(2) by (simp add: compiled_from_def least_first_def least_next_def)
  ultimately have "order ! j \<in> set (take i order)" using act(3) by (auto simp: waits_def)
  then obtain k where "k < i" "order ! k = order ! j" by (auto simp: in_set_conv_nth)
  then show ?thesis using ord(2) assms(2,3) by (metis nth_eq_iff_index_eq less_trans)
qed

lemma compiled_from_ops:
  assumes comp: "compiled_from descs kept_out preds succs excluded order"
  shows "canonical_ops (map (built_op descs preds succs excluded order) [0..<length order])"
    and "build_inv descs preds succs excluded order (length order)
      (foldl (build_op descs preds succs excluded order (canonical_index (length descs) order))
       \<lparr>b_ops = [], b_distance = replicate (length order) 1, b_readers = Map.empty,
        b_volatileOps = [], b_longestPath = 0\<rparr> [0..<length order])"
proof -
  let ?op = "built_op descs preds succs excluded order"
  note edges = compiled_from_edges [OF comp]
  note forward = compiled_from_forward [OF comp]
  have lists: "sorted (op_predecessors (?op i))" "distinct (op_predecessors (?op i))"
      "sorted (op_successors (?op i))" "distinct (op_successors (?op i))" for i
    by (simp_all add: built_op_def Let_def)
  show "canonical_ops (map ?op [0..<length order])"
    unfolding canonical_ops_def op_edges_ok_def using lists edges forward by simp
  show "build_inv descs preds succs excluded order (length order)
      (foldl (build_op descs preds succs excluded order (canonical_index (length descs) order))
       \<lparr>b_ops = [], b_distance = replicate (length order) 1, b_readers = Map.empty,
        b_volatileOps = [], b_longestPath = 0\<rparr> [0..<length order])"
    using edges(1) forward by (intro build_fold) auto
qed

section \<open>The compiler as a whole\<close>

text \<open>The state after the retained exclusions, and the graph compiled from it.\<close>

definition start_state ::
  "op_descriptor list \<Rightarrow> exclusion_proof option \<Rightarrow> bool list \<times> cycle_report list \<Rightarrow> bool" where
  "start_state descs retained base \<longleftrightarrow>
     (case retained of None \<Rightarrow> base = (replicate (length descs) False, [])
        | Some proven \<Rightarrow> retain_exclusions descs (desc_key ` set descs) proven = Inr base)"

definition working_graph ::
  "op_descriptor list \<Rightarrow> exclusion_proof option \<Rightarrow> bool list \<Rightarrow> nat list list \<times> nat list list" where
  "working_graph descs retained excluded =
     (let preds = map (linked_preds descs) [0..<length descs]; succs = map (linked_succs descs) [0..<length descs];
          dropping = (case retained of None \<Rightarrow> False | Some proven \<Rightarrow> ex_keys proven \<noteq> [])
      in (if dropping then drop_excluded excluded preds else preds,
          if dropping then drop_excluded excluded succs else succs))"

definition cycle_reports ::
  "op_descriptor list \<Rightarrow> nat list list \<times> nat list list \<Rightarrow> cycle_report list \<Rightarrow> cycle_report list" where
  "cycle_reports descs graph reports = vec_unique (reports @
     map (\<lambda>c. (Loop c (snd graph) (map desc_key descs), sort (map (op_key descs) c)))
       (Components (snd graph) (fst graph)))"

definition compiled_graph_of ::
  "op_descriptor list \<Rightarrow> exclusion_proof option \<Rightarrow> bool list \<times> cycle_report list \<Rightarrow> compiled_graph" where
  "compiled_graph_of descs retained base =
     (let (preds, succs) = working_graph descs retained (fst base);
          excluded = fst (after_components descs preds succs base)
      in build_graph descs preds succs excluded (canonical_order (op_key descs) preds succs excluded)
           (cycle_reports descs (preds, succs) (snd base)))"

lemma compile_iff:
  "RigExecCompileOpGraph descs leaves policy retained = Inr g \<longleftrightarrow>
     length descs \<le> uint32_max \<and> descs_ok descs (set leaves) \<and>
     (\<exists>base. start_state descs retained base \<and>
        (cycle_reports descs (working_graph descs retained (fst base)) (snd base) = [] \<or> policy \<noteq> Reject) \<and>
        RigExecLowerOpClusters (compiled_graph_of descs retained base) [] (Fin 0) = Inr g)"
proof (cases "length descs \<le> uint32_max \<and> descs_ok descs (set leaves)")
  case True
  let ?preds = "map (linked_preds descs) [0..<length descs]"
  let ?succs = "map (linked_succs descs) [0..<length descs]"
  let ?rest = "\<lambda>base. (let drop = (case retained of None \<Rightarrow> False | Some proven \<Rightarrow> ex_keys proven \<noteq> []);
             preds' = (if drop then drop_excluded (fst base) ?preds else ?preds);
             succs' = (if drop then drop_excluded (fst base) ?succs else ?succs);
             (excluded', reports') = foldl (report_component descs succs') base (Components succs' preds');
             reports'' = vec_unique reports'
         in if reports'' \<noteq> [] \<and> policy = Reject then Inl (OperationCycle (map fst reports''))
            else RigExecLowerOpClusters
              (build_graph descs preds' succs' excluded'
                 (canonical_order (op_key descs) preds' succs' excluded') reports'') [] (Fin 0))"
  have resolved: "resolve_graph descs (set leaves) = Inr (desc_key ` set descs, ?preds, ?succs)"
    using True by (simp add: resolve_iff)
  have rest: "?rest base = Inr g \<longleftrightarrow>
      (cycle_reports descs (working_graph descs retained (fst base)) (snd base) = [] \<or> policy \<noteq> Reject) \<and>
      RigExecLowerOpClusters (compiled_graph_of descs retained base) [] (Fin 0) = Inr g" for base
  proof -
    obtain preds succs where w: "working_graph descs retained (fst base) = (preds, succs)" by fastforce
    obtain ex reps where f: "foldl (report_component descs succs) base (Components succs preds) = (ex, reps)" by fastforce
    have reps: "reps = snd base @ map (\<lambda>c. (Loop c succs (map desc_key descs), sort (map (op_key descs) c))) (Components succs preds)"
      using report_components_reports [of descs succs "fst base" "snd base" "Components succs preds"] f by simp
    have ex: "fst (after_components descs preds succs base) = ex" by (simp add: after_components_def f)
    have "?rest base = (if vec_unique reps \<noteq> [] \<and> policy = Reject then Inl (OperationCycle (map fst (vec_unique reps)))
            else RigExecLowerOpClusters (build_graph descs preds succs ex
                 (canonical_order (op_key descs) preds succs ex) (vec_unique reps)) [] (Fin 0))"
    proof -
      have p: "(if case retained of None \<Rightarrow> False | Some proven \<Rightarrow> ex_keys proven \<noteq> []
           then drop_excluded (fst base) ?preds else ?preds) = preds"
        and s: "(if case retained of None \<Rightarrow> False | Some proven \<Rightarrow> ex_keys proven \<noteq> []
           then drop_excluded (fst base) ?succs else ?succs) = succs"
        using w unfolding working_graph_def Let_def by simp_all
      show ?thesis unfolding Let_def p s f prod.case by (rule refl)
    qed
    moreover have "compiled_graph_of descs retained base =
        build_graph descs preds succs ex (canonical_order (op_key descs) preds succs ex) (vec_unique reps)"
      by (simp add: compiled_graph_of_def w Let_def ex cycle_reports_def reps)
    moreover have "cycle_reports descs (working_graph descs retained (fst base)) (snd base) = vec_unique reps"
      by (simp add: cycle_reports_def w reps)
    ultimately show ?thesis by auto
  qed
  have "RigExecCompileOpGraph descs leaves policy retained =
      bind_err (case retained of None \<Rightarrow> Inr (replicate (length descs) False, [])
                | Some proven \<Rightarrow> retain_exclusions descs (desc_key ` set descs) proven) ?rest"
  proof -
    have guard: "\<not> uint32_max < length descs" using True by simp
    show ?thesis
      unfolding RigExecCompileOpGraph_def if_not_P [OF guard] resolved bind_err.simps prod.case
        case_prod_beta' fst_conv snd_conv prod.collapse by (rule refl)
  qed
  moreover have "bind_err (case retained of None \<Rightarrow> Inr (replicate (length descs) False, [])
                | Some proven \<Rightarrow> retain_exclusions descs (desc_key ` set descs) proven) ?rest = Inr g \<longleftrightarrow>
      (\<exists>base. start_state descs retained base \<and> ?rest base = Inr g)"
    unfolding bind_err_Inr_iff start_state_def by (cases retained) (simp_all only: option.case sum.inject, blast+)
  ultimately have "RigExecCompileOpGraph descs leaves policy retained = Inr g \<longleftrightarrow>
      (\<exists>base. start_state descs retained base \<and> ?rest base = Inr g)" by (simp only:)
  then show ?thesis unfolding rest using True by blast
next
  case False
  have "RigExecCompileOpGraph descs leaves policy retained \<noteq> Inr g"
  proof
    assume run: "RigExecCompileOpGraph descs leaves policy retained = Inr g"
    then have "length descs \<le> uint32_max"
      unfolding RigExecCompileOpGraph_def by (simp split: if_splits)
    moreover from this obtain r where "resolve_graph descs (set leaves) = Inr r"
      using run by (auto simp: RigExecCompileOpGraph_def bind_err_Inr_iff)
    ultimately show False using False by (auto simp: resolve_iff)
  qed
  then show ?thesis using False by blast
qed

lemma compiled_from_base:
  assumes ok: "descs_ok descs leafSet" and small: "length descs \<le> uint32_max"
    and base: "start_state descs retained base" and graph: "working_graph descs retained (fst base) = (preds, succs)"
  defines "excluded \<equiv> fst (after_components descs preds succs base)"
  shows "live_graph descs (retained_keys retained) preds succs (fst base)"
    "compiled_from descs (retained_keys retained) preds succs excluded
       (canonical_order (op_key descs) preds succs excluded)"
proof -
  show live: "live_graph descs (retained_keys retained) preds succs (fst base)"
    using live_graph_start [OF ok base [unfolded start_state_def] refl refl refl] graph
    unfolding working_graph_def Let_def by simp
  show "compiled_from descs (retained_keys retained) preds succs excluded
       (canonical_order (op_key descs) preds succs excluded)"
    by (rule compiled_from_start [OF live descs_ok_keys(1) [OF ok] small, of excluded "snd base"])
       (simp add: excluded_def)
qed

lemma build_graph_ops:
  assumes "compiled_from descs kept_out preds succs excluded order"
  shows "g_ops (build_graph descs preds succs excluded order reports) =
      map (built_op descs preds succs excluded order) [0..<length order]"
  using compiled_from_ops(2) [OF assms] by (simp add: build_graph_def Let_def build_inv_def)

text \<open>Everything the properties below need of a successful compilation.\<close>

definition compile_trace ::
  "op_descriptor list \<Rightarrow> exclusion_proof option \<Rightarrow> compiled_graph \<Rightarrow> nat list list \<Rightarrow> nat list list \<Rightarrow> bool list \<Rightarrow>
     nat list \<Rightarrow> bool list \<times> cycle_report list \<Rightarrow> bool" where
  "compile_trace descs retained g preds succs excluded order base \<longleftrightarrow>
     start_state descs retained base \<and> live_graph descs (retained_keys retained) preds succs (fst base) \<and>
     compiled_from descs (retained_keys retained) preds succs excluded order \<and>
     g = (build_graph descs preds succs excluded order (cycle_reports descs (preds, succs) (snd base)))
           \<lparr>g_clusters := g_clusters g, g_opClusters := g_opClusters g\<rparr> \<and>
     g_ops g = map (built_op descs preds succs excluded order) [0..<length order] \<and>
     canonical_ops (g_ops g) \<and> clusters_ok g"

lemma compile_traceE:
  assumes run: "RigExecCompileOpGraph descs leaves policy retained = Inr g"
  obtains preds succs excluded order base where
    "compile_trace descs retained g preds succs excluded order base" "descs_ok descs (set leaves)"
    "length descs \<le> uint32_max"
proof -
  from run obtain base where ok: "descs_ok descs (set leaves)" "length descs \<le> uint32_max"
    and base: "start_state descs retained base"
    and lower: "RigExecLowerOpClusters (compiled_graph_of descs retained base) [] (Fin 0) = Inr g"
    unfolding compile_iff by blast
  obtain preds succs where w: "working_graph descs retained (fst base) = (preds, succs)" by fastforce
  define excluded where "excluded = fst (after_components descs preds succs base)"
  define order where "order = canonical_order (op_key descs) preds succs excluded"
  note from_base = compiled_from_base [OF ok base w, folded excluded_def, folded order_def]
  let ?g = "build_graph descs preds succs excluded order (cycle_reports descs (preds, succs) (snd base))"
  have g: "compiled_graph_of descs retained base = ?g"
    by (simp add: compiled_graph_of_def w excluded_def order_def Let_def)
  have canonical: "canonical_ops (g_ops ?g)"
    unfolding build_graph_ops [OF from_base(2)] by (rule compiled_from_ops(1) [OF from_base(2)])
  from lower_ok [OF canonical lower [unfolded g]]
  have out: "clusters_ok g" "g = ?g\<lparr>g_clusters := g_clusters g, g_opClusters := g_opClusters g\<rparr>" by blast+
  then have "g_ops g = g_ops ?g" by (metis compiled_graph.select_convs(1) compiled_graph.surjective
        compiled_graph.update_convs(7,8))
  then have "compile_trace descs retained g preds succs excluded order base"
    unfolding compile_trace_def using base from_base out canonical build_graph_ops [OF from_base(2)] by simp
  then show thesis using that ok by blast
qed

lemma compile_total:
  assumes "length descs \<le> uint32_max" "descs_ok descs (set leaves)" "start_state descs retained base"
    and "cycle_reports descs (working_graph descs retained (fst base)) (snd base) = [] \<or> policy \<noteq> Reject"
  shows "\<exists>g. RigExecCompileOpGraph descs leaves policy retained = Inr g"
proof -
  obtain preds succs where w: "working_graph descs retained (fst base) = (preds, succs)" by fastforce
  note from_base = compiled_from_base [OF assms(2,1,3) w]
  let ?g = "compiled_graph_of descs retained base"
  define excluded where "excluded = fst (after_components descs preds succs base)"
  define order where "order = canonical_order (op_key descs) preds succs excluded"
  have g: "?g = build_graph descs preds succs excluded order (cycle_reports descs (preds, succs) (snd base))"
    by (simp add: compiled_graph_of_def w excluded_def order_def Let_def)
  have comp: "compiled_from descs (retained_keys retained) preds succs excluded order"
    unfolding excluded_def order_def by (rule from_base(2))
  have ops: "g_ops ?g = map (built_op descs preds succs excluded order) [0..<length order]"
    unfolding g by (rule build_graph_ops [OF comp])
  have "\<exists>out. RigExecLowerOpClusters ?g [] (Fin 0) = Inr out"
    using compiled_from_ops(1) [OF comp] assms(1) compiled_from_length [OF comp]
    by (intro lower_total) (simp_all add: ops)
  then show ?thesis unfolding compile_iff using assms by blast
qed

end
