(* ===== verification/Op_Props.thy ===== *)
theory Op_Props
  imports Op_Correct
begin

text \<open>
  The properties of the operation-graph compiler, the cluster lowering and the cluster
  validator, each with a witness on a small graph. The witnesses use two graphs: a diamond
  of four operations, and a pair on a cycle with one operation reading from it.
\<close>

section \<open>Facts shared by the properties\<close>

lemma trace_fields:
  assumes "compile_trace descs retained g preds succs excluded order base"
  defines "bg \<equiv> build_graph descs preds succs excluded order (cycle_reports descs (preds, succs) (snd base))"
  shows "g_canonicalIndex g = g_canonicalIndex bg" "g_readers g = g_readers bg" "g_cycles g = g_cycles bg"
    "g_cycleMembers g = g_cycleMembers bg" "g_longestPath g = g_longestPath bg"
    "g_volatileOps g = g_volatileOps bg" "canonical_ops (g_ops g)" "clusters_ok g"
proof -
  have eq: "g = bg\<lparr>g_clusters := g_clusters g, g_opClusters := g_opClusters g\<rparr>"
    and facts: "canonical_ops (g_ops g)" "clusters_ok g"
    using assms unfolding compile_trace_def by blast+
  show "canonical_ops (g_ops g)" "clusters_ok g" by fact+
  from arg_cong [OF eq, of g_canonicalIndex] show "g_canonicalIndex g = g_canonicalIndex bg" by simp
  from arg_cong [OF eq, of g_readers] show "g_readers g = g_readers bg" by simp
  from arg_cong [OF eq, of g_cycles] show "g_cycles g = g_cycles bg" by simp
  from arg_cong [OF eq, of g_cycleMembers] show "g_cycleMembers g = g_cycleMembers bg" by simp
  from arg_cong [OF eq, of g_longestPath] show "g_longestPath g = g_longestPath bg" by simp
  from arg_cong [OF eq, of g_volatileOps] show "g_volatileOps g = g_volatileOps bg" by simp
qed

lemma trace_ops:
  assumes "compile_trace descs retained g preds succs excluded order base"
  shows "length (g_ops g) = length order" "map op_originalIndex (g_ops g) = order"
    "\<And>i. i < length order \<Longrightarrow> g_ops g ! i = built_op descs preds succs excluded order i"
    "\<And>i. i < length order \<Longrightarrow> op_originalIndex (g_ops g ! i) = order ! i"
    "\<And>i. i < length order \<Longrightarrow> op_descriptor (g_ops g ! i) = (descs ! (order ! i))\<lparr>desc_predecessors := []\<rparr>"
proof -
  have ops: "g_ops g = map (built_op descs preds succs excluded order) [0..<length order]"
    using assms by (simp add: compile_trace_def)
  show "length (g_ops g) = length order" unfolding ops by simp
  show "map op_originalIndex (g_ops g) = order"
    unfolding ops by (rule nth_equalityI) (simp_all add: built_op_def Let_def)
  show "\<And>i. i < length order \<Longrightarrow> g_ops g ! i = built_op descs preds succs excluded order i"
    unfolding ops by simp
  show "\<And>i. i < length order \<Longrightarrow> op_originalIndex (g_ops g ! i) = order ! i"
    "\<And>i. i < length order \<Longrightarrow> op_descriptor (g_ops g ! i) = (descs ! (order ! i))\<lparr>desc_predecessors := []\<rparr>"
    unfolding ops by (simp_all add: built_op_def Let_def)
qed

lemma trace_order:
  assumes "compile_trace descs retained g preds succs excluded order base"
  shows "distinct order" "set order = {i. i < length descs \<and> \<not> set_aside descs (retained_keys retained) i}"
    "least_first (op_key descs) preds excluded order"
    "compiled_from descs (retained_keys retained) preds succs excluded order"
  using assms by (auto simp: compile_trace_def compiled_from_def)

text \<open>Among operations that are not set aside the live edges are the dependencies.\<close>

lemma kept_edges:
  assumes "\<not> set_aside descs kept_out p" "\<not> set_aside descs kept_out i"
  shows "(p, i) \<in> live_edges descs kept_out \<longleftrightarrow> depends descs p i"
  using assms by (auto simp: set_aside_def live_edges_def)

lemma trace_edges:
  assumes trace: "compile_trace descs retained g preds succs excluded order base" and i: "i < length order"
  shows "set (op_predecessors (g_ops g ! i)) = {j. j < length order \<and> depends descs (order ! j) (order ! i)}"
    "set (op_successors (g_ops g ! i)) = {j. j < length order \<and> depends descs (order ! i) (order ! j)}"
proof -
  have kept: "\<not> set_aside descs (retained_keys retained) (order ! j)" if "j < length order" for j
    using trace_order(2) [OF trace] nth_mem [OF that] by auto
  note edges = compiled_from_edges [OF trace_order(4) [OF trace] i]
  show "set (op_predecessors (g_ops g ! i)) = {j. j < length order \<and> depends descs (order ! j) (order ! i)}"
    unfolding trace_ops(3) [OF trace i] edges(1) using kept_edges kept i by blast
  show "set (op_successors (g_ops g ! i)) = {j. j < length order \<and> depends descs (order ! i) (order ! j)}"
    unfolding trace_ops(3) [OF trace i] edges(2) using kept_edges kept i by blast
qed

section \<open>Small graphs for the witnesses\<close>

definition demo_ops :: "op_descriptor list" where
  "demo_ops = [
    \<lparr>desc_key = ''d'', desc_kind = 0, desc_reads = [2, 3], desc_writes = [4], desc_predecessors = [], desc_volatileInput = False\<rparr>,
    \<lparr>desc_key = ''c'', desc_kind = 0, desc_reads = [1], desc_writes = [3], desc_predecessors = [], desc_volatileInput = False\<rparr>,
    \<lparr>desc_key = ''b'', desc_kind = 0, desc_reads = [1], desc_writes = [2], desc_predecessors = [], desc_volatileInput = False\<rparr>,
    \<lparr>desc_key = ''a'', desc_kind = 0, desc_reads = [7], desc_writes = [1], desc_predecessors = [], desc_volatileInput = True\<rparr>]"

lemma demo_ok: "descs_ok demo_ops {7}"
  by (simp add: descs_ok_def demo_ops_def keys_ok_def inputs_ok_def All_less_Suc2 Ex_less_Suc2)

definition demo_cycle :: "op_descriptor list" where
  "demo_cycle = [
    \<lparr>desc_key = ''c'', desc_kind = 0, desc_reads = [2], desc_writes = [3], desc_predecessors = [], desc_volatileInput = False\<rparr>,
    \<lparr>desc_key = ''b'', desc_kind = 0, desc_reads = [1], desc_writes = [2], desc_predecessors = [], desc_volatileInput = False\<rparr>,
    \<lparr>desc_key = ''a'', desc_kind = 0, desc_reads = [], desc_writes = [1], desc_predecessors = [1], desc_volatileInput = False\<rparr>]"
lemma demo_cycle_ok: "descs_ok demo_cycle {}"
  by (simp add: descs_ok_def demo_cycle_def keys_ok_def inputs_ok_def All_less_Suc2 Ex_less_Suc2)

lemma demo_cycle_depends: "depends demo_cycle p i \<longleftrightarrow> (p, i) \<in> {(1, 0), (2, 1), (1, 2)}"
  by (auto simp: depends_def demo_cycle_def less_Suc_eq nth_Cons' split: if_splits)

definition demo_pair :: "op_descriptor list" where
  "demo_pair = [
    \<lparr>desc_key = ''b'', desc_kind = 0, desc_reads = [], desc_writes = [2], desc_predecessors = [], desc_volatileInput = False\<rparr>,
    \<lparr>desc_key = ''a'', desc_kind = 0, desc_reads = [], desc_writes = [1], desc_predecessors = [], desc_volatileInput = False\<rparr>]"

lemma demo_pair_ok: "descs_ok demo_pair {}"
  by (simp add: descs_ok_def demo_pair_def keys_ok_def inputs_ok_def All_less_Suc2 Ex_less_Suc2)

lemma demo_pair_depends: "\<not> depends demo_pair p i"
  by (auto simp: depends_def demo_pair_def less_Suc_eq nth_Cons' split: if_splits)

lemma compile_set_aside_total:
  assumes "length descs \<le> uint32_max" "descs_ok descs (set leaves)"
  shows "\<exists>g. RigExecCompileOpGraph descs leaves SetAside None = Inr g"
  using compile_total [OF assms, of None "(replicate (length descs) False, [])" SetAside]
  by (simp add: start_state_def)

lemma demo_compiles:
  "\<exists>g. RigExecCompileOpGraph demo_ops [7] SetAside None = Inr g"
  "\<exists>g. RigExecCompileOpGraph demo_cycle [] SetAside None = Inr g"
  "\<exists>g. RigExecCompileOpGraph demo_pair [] SetAside None = Inr g"
  using demo_ok demo_cycle_ok demo_pair_ok
  by (auto intro!: compile_set_aside_total simp: demo_ops_def demo_cycle_def demo_pair_def)

lemma retained_keys_None [simp]: "retained_keys None = {}"
  by (simp add: retained_keys_def)

lemma live_edges_empty [simp]: "live_edges descs {} = {(p, i). depends descs p i}"
  by (simp add: live_edges_def)

lemma demo_cycle_aside: "i < 3 \<Longrightarrow> set_aside demo_cycle {} i \<longleftrightarrow> i \<noteq> 0"
proof -
  assume i: "i < 3"
  have e: "live_edges demo_cycle {} = {(1, 0), (2, 1), (1, 2)}" using demo_cycle_depends by auto
  have "(1, 1) \<in> {(1::nat, 0::nat), (2, 1), (1, 2)}\<^sup>+" "(2, 2) \<in> {(1::nat, 0::nat), (2, 1), (1, 2)}\<^sup>+"
    by (meson insertCI r_into_trancl trancl_into_trancl)+
  moreover have "(0, 0) \<notin> {(1::nat, 0::nat), (2, 1), (1, 2)}\<^sup>+" by (auto dest: tranclD)
  ultimately show ?thesis using i e by (auto simp: set_aside_def less_Suc_eq numeral_3_eq_3 numeral_2_eq_2)
qed

lemma demo_pair_aside: "\<not> set_aside demo_pair {} i"
proof -
  have "live_edges demo_pair {} = {}" using demo_pair_depends by auto
  then show ?thesis by (auto simp: set_aside_def dest: tranclD)
qed

section \<open>What is compiled\<close>

lemma compiled_exactly:
  assumes "RigExecCompileOpGraph descs leaves policy retained = Inr g"
  shows "distinct (map op_originalIndex (g_ops g)) \<and>
    set (map op_originalIndex (g_ops g)) =
      {i. i < length descs \<and> \<not> set_aside descs (retained_keys retained) i} \<and>
    (\<forall>oper \<in> set (g_ops g). op_descriptor oper = (descs ! op_originalIndex oper)\<lparr>desc_predecessors := []\<rparr>) \<and>
    length (g_canonicalIndex g) = length descs \<and>
    (\<forall>k < length (g_ops g). uint32_of (g_canonicalIndex g ! op_originalIndex (g_ops g ! k)) = k) \<and>
    (\<forall>i < length descs. set_aside descs (retained_keys retained) i \<longrightarrow> g_canonicalIndex g ! i = - 1)"
proof -
  from assms obtain preds succs excluded order base where
    trace: "compile_trace descs retained g preds succs excluded order base" by (rule compile_traceE)
  note ops = trace_ops [OF trace] and ord = trace_order [OF trace]
  have index: "g_canonicalIndex g = canonical_index (length descs) order"
    unfolding trace_fields(1) [OF trace] by (simp add: build_graph_def Let_def)
  have "\<forall>x \<in> set order. x < length descs" using ord(2) by auto
  note idx = canonical_index_nth [OF ord(1) this]
  have "\<forall>oper \<in> set (g_ops g). op_descriptor oper = (descs ! op_originalIndex oper)\<lparr>desc_predecessors := []\<rparr>"
    using ops(1,4,5) by (metis in_set_conv_nth)
  moreover have "\<forall>k < length (g_ops g). uint32_of (g_canonicalIndex g ! op_originalIndex (g_ops g ! k)) = k"
    using compiled_from_canonical [OF ord(4)] ops(1,4) index by simp
  moreover have "\<forall>i < length descs. set_aside descs (retained_keys retained) i \<longrightarrow> g_canonicalIndex g ! i = - 1"
    using idx(2) ord(2) index by auto
  ultimately show ?thesis using ops(2) ord(1,2) index by simp
qed

text \<open>C1. Every operation that is neither kept out by a retained proof nor on a cycle of what is
  left is compiled exactly once, nothing else is, and it keeps its descriptor (its resolved
  predecessor list apart). The canonical index maps each operation to its position and every
  set-aside operation to -1.\<close>

theorem compile_exactly_acyclic:
  assumes "RigExecCompileOpGraph descs leaves policy retained = Inr g"
  shows "distinct (map op_originalIndex (g_ops g)) \<and>
    set (map op_originalIndex (g_ops g)) =
      {i. i < length descs \<and> \<not> set_aside descs (retained_keys retained) i} \<and>
    (\<forall>oper \<in> set (g_ops g). op_descriptor oper = (descs ! op_originalIndex oper)\<lparr>desc_predecessors := []\<rparr>) \<and>
    length (g_canonicalIndex g) = length descs \<and>
    (\<forall>k < length (g_ops g). uint32_of (g_canonicalIndex g ! op_originalIndex (g_ops g ! k)) = k) \<and>
    (\<forall>i < length descs. set_aside descs (retained_keys retained) i \<longrightarrow> g_canonicalIndex g ! i = - 1)"
  by (rule compiled_exactly [OF assms])

theorem compile_exactly_acyclic_witness:
  "\<exists>g. RigExecCompileOpGraph demo_cycle [] SetAside None = Inr g \<and> map op_originalIndex (g_ops g) = [0] \<and>
     g_canonicalIndex g ! 1 = - 1"
proof -
  obtain g where g: "RigExecCompileOpGraph demo_cycle [] SetAside None = Inr g" using demo_compiles(2) by blast
  have len: "length demo_cycle = 3" by (simp add: demo_cycle_def)
  note exact = compile_exactly_acyclic [OF g]
  have d: "distinct (map op_originalIndex (g_ops g))" using exact by (elim conjE)
  have kept: "set (map op_originalIndex (g_ops g)) =
      {i. i < length demo_cycle \<and> \<not> set_aside demo_cycle (retained_keys None) i}" using exact by (elim conjE)
  have aside: "\<forall>i < length demo_cycle. set_aside demo_cycle (retained_keys None) i \<longrightarrow> g_canonicalIndex g ! i = - 1"
    using exact by (elim conjE)
  have "{i. i < length demo_cycle \<and> \<not> set_aside demo_cycle (retained_keys None) i} = {0}"
  proof (rule set_eqI)
    fix i
    show "i \<in> {i. i < length demo_cycle \<and> \<not> set_aside demo_cycle (retained_keys None) i} \<longleftrightarrow> i \<in> {0}"
      using demo_cycle_aside [of i] by (cases "i < 3") (auto simp: len)
  qed
  then have "map op_originalIndex (g_ops g) = [0]" by (intro singleton_list [OF _ d]) (simp only: kept)
  moreover have "g_canonicalIndex g ! 1 = - 1"
  proof -
    have one: "1 < length demo_cycle" "set_aside demo_cycle (retained_keys None) 1"
      using demo_cycle_aside [of 1] len by simp_all
    show ?thesis by (rule aside [rule_format, OF one])
  qed
  ultimately show ?thesis using g by (intro exI [where x = g] conjI)
qed

lemma compiled_depends:
  assumes "RigExecCompileOpGraph descs leaves policy retained = Inr g"
  shows "canonical_ops (g_ops g) \<and>
    (\<forall>i < length (g_ops g). set (op_predecessors (g_ops g ! i)) =
       {j. j < length (g_ops g) \<and>
           depends descs (op_originalIndex (g_ops g ! j)) (op_originalIndex (g_ops g ! i))})"
proof -
  from assms obtain preds succs excluded order base where
    trace: "compile_trace descs retained g preds succs excluded order base" by (rule compile_traceE)
  note ops = trace_ops [OF trace]
  have "canonical_ops (g_ops g)" by (rule trace_fields(7) [OF trace])
  moreover have "set (op_predecessors (g_ops g ! i)) =
       {j. j < length (g_ops g) \<and> depends descs (op_originalIndex (g_ops g ! j)) (op_originalIndex (g_ops g ! i))}"
    if "i < length (g_ops g)" for i
    using trace_edges(1) [OF trace, of i] that ops(1,4) by auto
  ultimately show ?thesis by blast
qed

text \<open>C2. The compiled edges are exactly the dependencies among the compiled operations, each
  listed once, ascending, in both directions and pointing forward: the operation list is a
  topological order.\<close>

theorem compile_dependencies:
  assumes "RigExecCompileOpGraph descs leaves policy retained = Inr g"
  shows "canonical_ops (g_ops g) \<and>
    (\<forall>i < length (g_ops g). set (op_predecessors (g_ops g ! i)) =
       {j. j < length (g_ops g) \<and>
           depends descs (op_originalIndex (g_ops g ! j)) (op_originalIndex (g_ops g ! i))})"
  by (rule compiled_depends [OF assms])

theorem compile_dependencies_witness:
  "\<exists>g. RigExecCompileOpGraph demo_ops [7] SetAside None = Inr g \<and> canonical_ops (g_ops g)"
  using demo_compiles(1) compile_dependencies by blast

lemma compiled_least_first:
  assumes "RigExecCompileOpGraph descs leaves policy retained = Inr g"
    and "i < k" "k < length (g_ops g)" "\<forall>p \<in> set (op_predecessors (g_ops g ! k)). p < i"
  shows "desc_key (op_descriptor (g_ops g ! i)) < desc_key (op_descriptor (g_ops g ! k))"
proof -
  from assms(1) obtain preds succs excluded order base where
    trace: "compile_trace descs retained g preds succs excluded order base" by (rule compile_traceE)
  note ops = trace_ops [OF trace] and ord = trace_order [OF trace]
  have k: "k < length order" "i < length order" using assms(2,3) ops(1) by auto
  have graph: "resolved_edges preds succs" "length preds = length descs"
      "edges succs = live_edges descs (retained_keys retained)" and
    ex: "\<forall>i < length descs. excluded ! i \<longleftrightarrow> set_aside descs (retained_keys retained) i"
    using ord(4) by (auto simp: compiled_from_def)
  have act: "active excluded (length preds) x" if "x \<in> set order" for x
    using that ord(2) ex graph(2) by (auto simp: active_def)
  have wait: "waits preds excluded (take i order) (order ! k) = {}"
  proof (rule ccontr)
    assume "\<not> ?thesis"
    then obtain x where x: "x \<in> set (preds ! (order ! k))" "\<not> excluded ! x" "x \<notin> set (take i order)"
      by (auto simp: waits_def)
    have ok: "order ! k < length succs" using act [of "order ! k"] k(1) resolved_edgesD(3) [OF graph(1)]
      by (auto simp: active_def)
    have "x < length succs" using resolved_edgesD(5) [OF graph(1) ok x(1)] .
    then have "x \<in> set order" and edge: "(x, order ! k) \<in> live_edges descs (retained_keys retained)"
      using x(1,2) ok ord(2) ex graph(2) resolved_edgesD(3) [OF graph(1)]
        resolved_edgesD(4) [OF graph(1), of x "order ! k"]
      by (auto simp: graph(3) [symmetric] edges_def)
    then obtain j where j: "j < length order" "order ! j = x" by (auto simp: in_set_conv_nth)
    then have "j \<in> set (op_predecessors (g_ops g ! k))"
      using trace_edges(1) [OF trace k(1)] edge by (auto simp: live_edges_def)
    then have "j < i" using assms(4) by blast
    then show False using x(3) j k(2) by (auto simp: in_set_conv_nth)
  qed
  have "order ! k \<notin> set (take i order)" "order ! k \<noteq> order ! i"
    using ord(1) k assms(2) by (auto simp: in_set_conv_nth nth_eq_iff_index_eq)
  then have "op_key descs (order ! i) < op_key descs (order ! k)"
    using ord(3) k wait act [of "order ! k"] by (simp add: least_first_def least_next_def)
  then show ?thesis using ops(5) k by simp
qed

text \<open>C3. The order is canonical: of all operations whose predecessors have been placed, the one
  of least key comes next. So the result does not depend on the order of the descriptors.\<close>

theorem compile_least_key_first:
  assumes "RigExecCompileOpGraph descs leaves policy retained = Inr g"
    and "i < k" "k < length (g_ops g)" "\<forall>p \<in> set (op_predecessors (g_ops g ! k)). p < i"
  shows "desc_key (op_descriptor (g_ops g ! i)) < desc_key (op_descriptor (g_ops g ! k))"
  by (rule compiled_least_first [OF assms])


theorem compile_least_key_first_witness:
  "\<exists>g. RigExecCompileOpGraph demo_pair [] SetAside None = Inr g \<and>
     desc_key (op_descriptor (g_ops g ! 0)) < desc_key (op_descriptor (g_ops g ! 1))"
proof -
  obtain g where g: "RigExecCompileOpGraph demo_pair [] SetAside None = Inr g" using demo_compiles(3) by blast
  from g obtain preds succs excluded order base where
    trace: "compile_trace demo_pair None g preds succs excluded order base" by (rule compile_traceE)
  have "set order = {0, 1}"
    using trace_order(2) [OF trace] demo_pair_aside by (auto simp: demo_pair_def)
  then have "length order = 2" using distinct_card [OF trace_order(1) [OF trace]] by simp
  then have len: "length (g_ops g) = 2" "length order = 2" using trace_ops(1) [OF trace] by simp_all
  have "set (op_predecessors (g_ops g ! 1)) = {}"
    using trace_edges(1) [OF trace, of 1] len demo_pair_depends by simp
  then show ?thesis using compile_least_key_first [OF g, of 0 1] g len by auto
qed

section \<open>When it is compiled\<close>

lemma compiled_set_aside_iff:
  "(\<exists>g. RigExecCompileOpGraph descs leaves SetAside None = Inr g) \<longleftrightarrow>
     length descs \<le> uint32_max \<and> descs_ok descs (set leaves)"
  using compile_set_aside_total unfolding compile_iff by blast

lemma compiled_reject_iff:
  "(\<exists>g. RigExecCompileOpGraph descs leaves Reject None = Inr g) \<longleftrightarrow>
     length descs \<le> uint32_max \<and> descs_ok descs (set leaves) \<and> acyclic {(p, i). depends descs p i}"
proof -
  let ?g = "working_graph descs None (replicate (length descs) False)"
  have start: "start_state descs None base \<longleftrightarrow> base = (replicate (length descs) False, [])" for base
    by (simp add: start_state_def)
  have graph: "?g = (map (linked_preds descs) [0..<length descs], map (linked_succs descs) [0..<length descs])"
    by (simp add: working_graph_def)
  note g = resolved_edgesD(1,2) [OF resolved_linked [of descs]]
  have "vec_unique xs = [] \<longleftrightarrow> xs = []" for xs :: "cycle_report list"
    using vec_unique_eq_iff [of xs "[]"] by simp
  then have "cycle_reports descs ?g [] = [] \<longleftrightarrow> Components (snd ?g) (fst ?g) = []"
    by (simp add: cycle_reports_def)
  also have "\<dots> \<longleftrightarrow> (\<forall>i. \<not> on_cycle (snd ?g) i)"
  proof -
    have "c \<noteq> []" if "c \<in> set (Components (snd ?g) (fst ?g))" for c
      using Components_scc [OF g, of c] that by (simp add: graph is_cyclic_scc_def)
    then show ?thesis
      using Components_cover [OF g] unfolding graph fst_conv snd_conv
      by (metis all_not_in_conv empty_set last_in_set list.set_intros(1) neq_Nil_conv)
  qed
  also have "\<dots> \<longleftrightarrow> acyclic {(p, i). depends descs p i}"
    by (simp add: graph on_cycle_def edges_linked acyclic_def)
  finally have none: "cycle_reports descs ?g [] = [] \<longleftrightarrow> acyclic {(p, i). depends descs p i}" .
  show ?thesis
    using compile_total [of descs leaves None "(replicate (length descs) False, [])" Reject] none
    unfolding compile_iff by (auto simp: start)
qed

text \<open>C4. With cycles set aside the compiler succeeds exactly on well-formed descriptors: non-empty
  distinct keys, one producer per value and none for a sampled leaf, predecessors in range,
  every read with a producer or a leaf. In particular no cycle makes it fail or loop.\<close>

theorem compile_set_aside_iff:
  "(\<exists>g. RigExecCompileOpGraph descs leaves SetAside None = Inr g) \<longleftrightarrow>
     length descs \<le> uint32_max \<and> descs_ok descs (set leaves)"
  by (rule compiled_set_aside_iff)

text \<open>C5. With cycles rejected it succeeds exactly when, besides, the dependency relation has no
  cycle.\<close>

theorem compile_reject_iff:
  "(\<exists>g. RigExecCompileOpGraph descs leaves Reject None = Inr g) \<longleftrightarrow>
     length descs \<le> uint32_max \<and> descs_ok descs (set leaves) \<and> acyclic {(p, i). depends descs p i}"
  by (rule compiled_reject_iff)

section \<open>What is reported of the cycles\<close>

text \<open>A cyclic group: the operations mutually reachable with one that reaches itself.\<close>

definition cyclic_group :: "op_descriptor list \<Rightarrow> nat set \<Rightarrow> bool" where
  "cyclic_group descs c \<longleftrightarrow> (\<exists>u. (u, u) \<in> {(p, i). depends descs p i}\<^sup>+ \<and>
     c = {w. (u, w) \<in> {(p, i). depends descs p i}\<^sup>* \<and> (w, u) \<in> {(p, i). depends descs p i}\<^sup>*})"

lemma cyclic_scc_group:
  assumes "is_cyclic_scc (map (linked_succs descs) [0..<length descs]) c"
  shows "cyclic_group descs (set c)"
proof -
  let ?succs = "map (linked_succs descs) [0..<length descs]"
  have e: "edges ?succs = {(p, i). depends descs p i}" by (rule edges_linked)
  from assms obtain u where u: "u \<in> set c" "u < length descs" "on_cycle ?succs u"
    "set c = {w. w < length descs \<and> same_scc ?succs u w}"
    unfolding is_cyclic_scc_def by (cases c) auto
  have "w < length descs" if "(u, w) \<in> {(p, i). depends descs p i}\<^sup>*" for w
    using that u(2) by (induction rule: rtrancl_induct) (auto simp: depends_def)
  then have "set c = {w. (u, w) \<in> {(p, i). depends descs p i}\<^sup>* \<and> (w, u) \<in> {(p, i). depends descs p i}\<^sup>*}"
    using u(4) by (auto simp: same_scc_def reaches_def e)
  then show ?thesis
    using u(3) unfolding cyclic_group_def on_cycle_def e by blast
qed

definition true_report :: "op_descriptor list \<Rightarrow> string list \<Rightarrow> string list \<Rightarrow> bool" where
  "true_report descs loop members \<longleftrightarrow> (\<exists>c walk. distinct c \<and> cyclic_group descs (set c) \<and>
     members = sort (map (op_key descs) c) \<and> loop = map (op_key descs) walk \<and>
     2 \<le> length walk \<and> hd walk = last walk \<and> set walk \<subseteq> set c \<and> successively (depends descs) walk)"

lemma component_report:
  assumes "c \<in> set (Components (map (linked_succs descs) [0..<length descs]) (map (linked_preds descs) [0..<length descs]))"
  shows "true_report descs (Loop c (map (linked_succs descs) [0..<length descs]) (map desc_key descs))
     (sort (map (op_key descs) c))"
proof -
  let ?succs = "map (linked_succs descs) [0..<length descs]"
  note g = resolved_edgesD(1,2) [OF resolved_linked [of descs]]
  have scc: "is_cyclic_scc ?succs c" using Components_scc [OF g assms] .
  obtain walk where walk: "Loop c ?succs (map desc_key descs) = map (\<lambda>n. map desc_key descs ! n) walk"
    "closed_walk ?succs c walk"
    using Loop_closed [OF g(2) scc, of "map desc_key descs"] by auto
  have range: "\<forall>n \<in> set c. n < length descs" using scc by (auto simp: is_cyclic_scc_def)
  have "Loop c ?succs (map desc_key descs) = map (op_key descs) walk"
    unfolding walk(1) using walk(2) range by (intro map_cong) (auto simp: closed_walk_def)
  moreover have "successively (depends descs) walk"
  proof (rule successively_mono)
    show "successively (\<lambda>u v. v \<in> set (?succs ! u)) walk" using walk(2) by (simp add: closed_walk_def)
    fix u v assume "u \<in> set walk" "v \<in> set (?succs ! u)"
    moreover have "u < length descs" using walk(2) range calculation(1) by (auto simp: closed_walk_def)
    ultimately show "depends descs u v" by (simp add: linked_succs_def)
  qed
  ultimately show ?thesis
    unfolding true_report_def using walk(2) scc cyclic_scc_group [OF scc]
    by (auto simp: closed_walk_def is_cyclic_scc_def)
qed

lemma reports_of:
  assumes "RigExecCompileOpGraph descs leaves policy None = Inr g"
  shows "length (g_cycles g) = length (g_cycleMembers g)"
    "zip (g_cycles g) (g_cycleMembers g) = vec_unique (map (\<lambda>c.
       (Loop c (map (linked_succs descs) [0..<length descs]) (map desc_key descs), sort (map (op_key descs) c)))
       (Components (map (linked_succs descs) [0..<length descs]) (map (linked_preds descs) [0..<length descs])))"
proof -
  from assms obtain base where base: "start_state descs None base"
    and lower: "RigExecLowerOpClusters (compiled_graph_of descs None base) [] (Fin 0) = Inr g"
    unfolding compile_iff by blast
  let ?r = "cycle_reports descs (working_graph descs None (fst base)) []"
  have "base = (replicate (length descs) False, [])" using base by (simp add: start_state_def)
  then have r: "?r = vec_unique (map (\<lambda>c.
       (Loop c (map (linked_succs descs) [0..<length descs]) (map desc_key descs), sort (map (op_key descs) c)))
       (Components (map (linked_succs descs) [0..<length descs]) (map (linked_preds descs) [0..<length descs])))"
    and f: "g_cycles (compiled_graph_of descs None base) = map fst ?r"
      "g_cycleMembers (compiled_graph_of descs None base) = map snd ?r"
    by (simp_all add: cycle_reports_def working_graph_def compiled_graph_of_def build_graph_def Let_def)
  have "g_cycles g = g_cycles (compiled_graph_of descs None base)"
    "g_cycleMembers g = g_cycleMembers (compiled_graph_of descs None base)"
    using lower unfolding lower_unfold by auto
  then show "length (g_cycles g) = length (g_cycleMembers g)"
    "zip (g_cycles g) (g_cycleMembers g) = vec_unique (map (\<lambda>c.
       (Loop c (map (linked_succs descs) [0..<length descs]) (map desc_key descs), sort (map (op_key descs) c)))
       (Components (map (linked_succs descs) [0..<length descs]) (map (linked_preds descs) [0..<length descs])))"
    unfolding r [symmetric] by (simp_all add: f zip_map_fst_snd)
qed

text \<open>C6. The cycle report is sound and complete: every entry names the full key list of one
  cyclic group and a closed walk of real dependencies inside it, and every operation on a
  cycle is named by some entry, no operation off the cycles by any.\<close>

theorem compile_reports_cycles:
  assumes "RigExecCompileOpGraph descs leaves policy None = Inr g"
  shows "length (g_cycles g) = length (g_cycleMembers g) \<and> distinct (zip (g_cycles g) (g_cycleMembers g)) \<and>
    (\<forall>(loop, members) \<in> set (zip (g_cycles g) (g_cycleMembers g)). true_report descs loop members) \<and>
    (\<forall>i < length descs. (\<exists>members \<in> set (g_cycleMembers g). op_key descs i \<in> set members) \<longleftrightarrow>
       (i, i) \<in> {(p, i). depends descs p i}\<^sup>+)"
proof -
  let ?succs = "map (linked_succs descs) [0..<length descs]" and ?preds = "map (linked_preds descs) [0..<length descs]"
  note g = resolved_edgesD(1,2) [OF resolved_linked [of descs]]
  note reports = reports_of [OF assms]
  have ok: "descs_ok descs (set leaves)" using assms by (simp add: compile_iff)
  have "distinct (zip (g_cycles g) (g_cycleMembers g))" unfolding reports(2) by simp
  moreover have "\<forall>(loop, members) \<in> set (zip (g_cycles g) (g_cycleMembers g)). true_report descs loop members"
    unfolding reports(2) using component_report by auto
  moreover have "(\<exists>members \<in> set (g_cycleMembers g). op_key descs i \<in> set members) \<longleftrightarrow>
       (i, i) \<in> {(p, i). depends descs p i}\<^sup>+" if i: "i < length descs" for i
  proof -
    have "set (g_cycleMembers g) = snd ` set (zip (g_cycles g) (g_cycleMembers g))"
      using reports(1) by (metis list.set_map map_snd_zip)
    also have "\<dots> = (\<lambda>c. sort (map (op_key descs) c)) ` set (Components ?succs ?preds)"
      unfolding reports(2) by (simp add: image_image)
    finally have "(\<exists>members \<in> set (g_cycleMembers g). op_key descs i \<in> set members) \<longleftrightarrow>
        (\<exists>c \<in> set (Components ?succs ?preds). op_key descs i \<in> op_key descs ` set c)" by simp
    also have "\<dots> \<longleftrightarrow> (\<exists>c \<in> set (Components ?succs ?preds). i \<in> set c)"
    proof -
      have "op_key descs i \<in> op_key descs ` set c \<longleftrightarrow> i \<in> set c" if "c \<in> set (Components ?succs ?preds)" for c
      proof -
        have "set c \<subseteq> {..<length descs}" using Components_scc [OF g that] by (auto simp: is_cyclic_scc_def)
        then show ?thesis using inj_on_image_mem_iff [OF descs_ok_keys(1) [OF ok]] i by blast
      qed
      then show ?thesis by blast
    qed
    also have "\<dots> \<longleftrightarrow> on_cycle ?succs i" by (rule Components_cover [OF g])
    finally show ?thesis unfolding on_cycle_def edges_linked .
  qed
  ultimately show ?thesis using reports(1) by blast
qed

theorem compile_reports_cycles_witness:
  "\<exists>g. RigExecCompileOpGraph demo_cycle [] SetAside None = Inr g \<and>
     (\<exists>members \<in> set (g_cycleMembers g). ''a'' \<in> set members)"
proof -
  obtain g where g: "RigExecCompileOpGraph demo_cycle [] SetAside None = Inr g" using demo_compiles(2) by blast
  have "(2, 2) \<in> {(p, i). depends demo_cycle p i}\<^sup>+"
    using demo_cycle_aside [of 2] by (simp add: set_aside_def)
  moreover have "2 < length demo_cycle" "op_key demo_cycle 2 = ''a''" by (simp_all add: demo_cycle_def)
  moreover have "\<forall>i < length demo_cycle. (\<exists>members \<in> set (g_cycleMembers g). op_key demo_cycle i \<in> set members) \<longleftrightarrow>
       (i, i) \<in> {(p, i). depends demo_cycle p i}\<^sup>+"
    using compile_reports_cycles [OF g] by (elim conjE)
  ultimately have "\<exists>members \<in> set (g_cycleMembers g). ''a'' \<in> set members" by (metis (no_types, lifting))
  then show ?thesis using g by (intro exI [where x = g] conjI)
qed

section \<open>Readers, volatile operations and the critical path\<close>

lemma trace_build:
  assumes trace: "compile_trace descs retained g preds succs excluded order base"
  obtains b where "build_inv descs preds succs excluded order (length order) b"
    "g_readers g = (\<lambda>v. map_option vec_unique (b_readers b v))" "g_longestPath g = b_longestPath b"
    "g_volatileOps g = b_volatileOps b"
proof -
  define b where "b = foldl (build_op descs preds succs excluded order (canonical_index (length descs) order))
       \<lparr>b_ops = [], b_distance = replicate (length order) 1, b_readers = Map.empty,
        b_volatileOps = [], b_longestPath = 0\<rparr> [0..<length order]"
  have "build_inv descs preds succs excluded order (length order) b"
    unfolding b_def by (rule compiled_from_ops(2) [OF trace_order(4) [OF trace]])
  moreover have "g_readers g = (\<lambda>v. map_option vec_unique (b_readers b v))" "g_longestPath g = b_longestPath b"
    "g_volatileOps g = b_volatileOps b"
    unfolding trace_fields(2,5,6) [OF trace] by (simp_all add: build_graph_def Let_def b_def)
  ultimately show thesis by (rule that)
qed

text \<open>The reader index lists, for every value that is read at all, exactly the compiled
  operations that read it, ascending; the volatile list the operations whose input is
  volatile.\<close>

theorem compile_readers:
  assumes "RigExecCompileOpGraph descs leaves policy retained = Inr g"
  shows "g_readers g v =
      (let rs = filter (\<lambda>i. v \<in> set (desc_reads (op_descriptor (g_ops g ! i)))) [0..<length (g_ops g)]
       in if rs = [] then None else Some rs) \<and>
    g_volatileOps g = filter (\<lambda>i. desc_volatileInput (op_descriptor (g_ops g ! i))) [0..<length (g_ops g)]"
proof -
  from assms obtain preds succs excluded order base where
    trace: "compile_trace descs retained g preds succs excluded order base" by (rule compile_traceE)
  note ops = trace_ops [OF trace]
  from trace obtain b where b: "build_inv descs preds succs excluded order (length order) b"
    "g_readers g = (\<lambda>v. map_option vec_unique (b_readers b v))" "g_volatileOps g = b_volatileOps b"
    by (rule trace_build)
  define rs where "rs = filter (\<lambda>i. v \<in> set (desc_reads (op_descriptor (g_ops g ! i)))) [0..<length (g_ops g)]"
  have set_rs: "set rs = {i. i < length order \<and> v \<in> set (desc_reads (descs ! (order ! i)))}"
    using ops(1,5) by (auto simp: rs_def)
  have "map_option set (b_readers b v) = (if set rs = {} then None else Some (set rs))"
    using b(1) unfolding build_inv_def set_rs Let_def by blast
  moreover have "vec_unique xs = rs" if "set xs = set rs" for xs
  proof (rule sorted_distinct_set_unique)
    show "sorted rs" unfolding rs_def by (intro sorted_wrt_filter) simp
  qed (simp_all add: that rs_def)
  ultimately have "g_readers g v = (if rs = [] then None else Some rs)"
    unfolding b(2) by (cases "b_readers b v") (auto split: if_splits)
  moreover have "b_volatileOps b = filter (\<lambda>i. desc_volatileInput (op_descriptor (g_ops g ! i))) [0..<length (g_ops g)]"
    using b(1) ops(1,5) by (auto simp: build_inv_def intro!: filter_cong)
  ultimately show ?thesis unfolding rs_def Let_def b(3) by blast
qed

theorem compile_readers_witness:
  "\<exists>g. RigExecCompileOpGraph demo_pair [] SetAside None = Inr g \<and> g_readers g 5 = None \<and> g_volatileOps g = []"
proof -
  obtain g where g: "RigExecCompileOpGraph demo_pair [] SetAside None = Inr g" using demo_compiles(3) by blast
  from g obtain preds succs excluded order base where
    trace: "compile_trace demo_pair None g preds succs excluded order base" by (rule compile_traceE)
  have "desc_reads d = [] \<and> \<not> desc_volatileInput d" if "d \<in> set demo_pair" for d
    using that by (auto simp: demo_pair_def)
  moreover have "order ! i < length demo_pair" if "i < length order" for i
    using trace_order(2) [OF trace] nth_mem [OF that] by auto
  ultimately have plain: "desc_reads (op_descriptor (g_ops g ! i)) = [] \<and> \<not> desc_volatileInput (op_descriptor (g_ops g ! i))"
    if "i < length (g_ops g)" for i
    using trace_ops(1,5) [OF trace] that by simp
  have "filter (\<lambda>i. 5 \<in> set (desc_reads (op_descriptor (g_ops g ! i)))) [0..<length (g_ops g)] = []"
    "filter (\<lambda>i. desc_volatileInput (op_descriptor (g_ops g ! i))) [0..<length (g_ops g)] = []"
    using plain by (auto simp: filter_empty_conv)
  with compile_readers [OF g, of 5] g show ?thesis by (intro exI [where x = g]) (simp add: Let_def)
qed

definition op_path :: "compiled_op list \<Rightarrow> nat list \<Rightarrow> bool" where
  "op_path ops w \<longleftrightarrow> (\<forall>i \<in> set w. i < length ops) \<and> successively (\<lambda>u v. u \<in> set (op_predecessors (ops ! v))) w"

lemma op_path_snoc:
  "op_path ops (w @ [i]) \<longleftrightarrow> op_path ops w \<and> i < length ops \<and> (w = [] \<or> last w \<in> set (op_predecessors (ops ! i)))"
  by (auto simp: op_path_def successively_append_iff)

text \<open>A distance is the length of the longest path that ends there.\<close>

lemma distance_paths:
  assumes dist: "\<forall>i < length ops. d i = Max (insert (1::nat) ((\<lambda>c. d c + 1) ` set (op_predecessors (ops ! i))))"
  shows "op_path ops w \<Longrightarrow> w \<noteq> [] \<Longrightarrow> length w \<le> d (last w)"
    and "canonical_ops ops \<Longrightarrow> i < length ops \<Longrightarrow> \<exists>w. op_path ops w \<and> w \<noteq> [] \<and> last w = i \<and> length w = d i"
proof -
  have ge: "x \<le> d i" if "i < length ops" "x = 1 \<or> (\<exists>c \<in> set (op_predecessors (ops ! i)). x = d c + 1)" for i x
    using that dist by (auto intro: Max_ge)
  show "op_path ops w \<Longrightarrow> w \<noteq> [] \<Longrightarrow> length w \<le> d (last w)"
  proof (induction w rule: rev_induct)
    case (snoc i w)
    show ?case
    proof (cases "w = []")
      case True
      then show ?thesis using snoc.prems ge [of i 1] by (simp add: op_path_def)
    next
      case False
      with snoc have "length w \<le> d (last w)" "i < length ops" "last w \<in> set (op_predecessors (ops ! i))"
        by (auto simp: op_path_snoc)
      moreover have "d (last w) + 1 \<le> d i" by (rule ge) (use calculation in blast)+
      ultimately show ?thesis by simp
    qed
  qed simp
  assume canonical: "canonical_ops ops"
  show "i < length ops \<Longrightarrow> \<exists>w. op_path ops w \<and> w \<noteq> [] \<and> last w = i \<and> length w = d i"
  proof (induction i rule: less_induct)
    case (less i)
    have "d i \<in> insert 1 ((\<lambda>c. d c + 1) ` set (op_predecessors (ops ! i)))"
      using dist less.prems Max_in [of "insert 1 ((\<lambda>c. d c + 1) ` set (op_predecessors (ops ! i)))"] by simp
    then consider "d i = 1" | c where "c \<in> set (op_predecessors (ops ! i))" "d i = d c + 1" by auto
    then show ?case
    proof cases
      case 1
      then show ?thesis using less.prems by (intro exI [where x = "[i]"]) (simp add: op_path_def)
    next
      case (2 c)
      have "c < i" using op_edges_okD(5) [OF canonical_opsD [OF canonical less.prems] 2(1)] .
      then obtain w where "op_path ops w" "w \<noteq> []" "last w = c" "length w = d c"
        using less.IH [of c] less.prems by auto
      then show ?thesis using 2 less.prems by (intro exI [where x = "w @ [i]"]) (simp add: op_path_snoc)
    qed
  qed
qed

text \<open>The recorded critical path is exact: no chain of dependent operations is longer, and
  some chain has that length.\<close>

theorem compile_longest_path:
  assumes "RigExecCompileOpGraph descs leaves policy retained = Inr g"
  shows "(\<forall>w. op_path (g_ops g) w \<longrightarrow> length w \<le> g_longestPath g) \<and>
    (\<exists>w. op_path (g_ops g) w \<and> length w = g_longestPath g)"
proof -
  from assms obtain preds succs excluded order base where
    trace: "compile_trace descs retained g preds succs excluded order base" by (rule compile_traceE)
  note ops = trace_ops [OF trace]
  from trace obtain b where b: "build_inv descs preds succs excluded order (length order) b"
    "g_longestPath g = b_longestPath b" by (rule trace_build)
  let ?d = "\<lambda>i. b_distance b ! i"
  have len: "length (b_distance b) = length (g_ops g)" using b(1) ops(1) by (simp add: build_inv_def)
  have dist: "\<forall>i < length (g_ops g). ?d i = Max (insert 1 ((\<lambda>c. ?d c + 1) ` set (op_predecessors (g_ops g ! i))))"
    using b(1) ops(1,3) by (simp add: build_inv_def)
  have longest: "g_longestPath g = Max (insert 0 (set (b_distance b)))"
    using b len ops(1) by (simp add: build_inv_def)
  note paths = distance_paths [of "g_ops g" ?d, OF dist]
  have "length w \<le> g_longestPath g" if w: "op_path (g_ops g) w" for w
  proof (cases "w = []")
    case False
    then have "last w < length (g_ops g)" using w by (simp add: op_path_def)
    then have "?d (last w) \<in> set (b_distance b)" using len by simp
    then have "?d (last w) \<le> g_longestPath g" unfolding longest by (intro Max_ge) simp_all
    then show ?thesis using paths(1) [OF w False] by simp
  qed simp
  moreover have "\<exists>w. op_path (g_ops g) w \<and> length w = g_longestPath g"
  proof -
    have "g_longestPath g \<in> insert 0 (set (b_distance b))" unfolding longest by (intro Max_in) simp_all
    then consider "g_longestPath g = 0" | i where "i < length (g_ops g)" "g_longestPath g = ?d i"
      using len by (auto simp: in_set_conv_nth)
    then show ?thesis
    proof cases
      case 1
      then show ?thesis by (intro exI [where x = "[]"]) (simp add: op_path_def)
    next
      case (2 i)
      then show ?thesis using paths(2) [OF trace_fields(7) [OF trace] 2(1)] by metis
    qed
  qed
  ultimately show ?thesis by blast
qed

theorem compile_longest_path_witness:
  "\<exists>g. RigExecCompileOpGraph demo_cycle [] SetAside None = Inr g \<and> (\<exists>w. op_path (g_ops g) w \<and> length w = g_longestPath g)"
  using demo_compiles(2) compile_longest_path by blast

section \<open>Clusters\<close>

text \<open>C7. Whatever the costs and the grain, a clustering the lowering makes of a compiled graph
  is accepted by the validator, as is the one the compiler starts with; the operations
  themselves are untouched.\<close>

theorem lowering_validates:
  assumes "RigExecCompileOpGraph descs leaves policy retained = Inr g"
    and "RigExecLowerOpClusters g costs grain = Inr h"
  shows "RigExecValidateOpClusters g = Inr () \<and> RigExecValidateOpClusters h = Inr () \<and> g_ops h = g_ops g"
proof -
  from assms(1) obtain preds succs excluded order base where
    trace: "compile_trace descs retained g preds succs excluded order base" by (rule compile_traceE)
  have "clusters_ok h" using lower_ok [OF trace_fields(7) [OF trace] assms(2)] by blast
  moreover have "g_ops h = g_ops g" using assms(2) unfolding lower_unfold by auto
  ultimately show ?thesis using trace_fields(8) [OF trace] by (simp add: validate_iff)
qed

theorem lowering_validates_witness:
  "\<exists>g h. RigExecCompileOpGraph demo_ops [7] SetAside None = Inr g \<and>
     RigExecLowerOpClusters g [] (Fin 3) = Inr h \<and> RigExecValidateOpClusters h = Inr ()"
proof -
  obtain g where g: "RigExecCompileOpGraph demo_ops [7] SetAside None = Inr g" using demo_compiles(1) by blast
  from g obtain preds succs excluded order base where
    trace: "compile_trace demo_ops None g preds succs excluded order base" by (rule compile_traceE)
  have "length (g_ops g) \<le> 4"
    using compiled_from_length [OF trace_order(4) [OF trace]] trace_ops(1) [OF trace] by (simp add: demo_ops_def)
  then obtain h where "RigExecLowerOpClusters g [] (Fin 3) = Inr h"
    using lower_total [OF trace_fields(7) [OF trace], of "[]" "Fin 3"] by auto
  then show ?thesis using lowering_validates [OF g] g by blast
qed

text \<open>C8. The validator accepts exactly the clusterings the executor relies on: the members
  partition the operations into linked runs of at most 64 in order of their first members,
  every edge goes to the same or a later cluster, and the cluster edges are exactly the
  edges of their members, sorted and unique.\<close>

theorem validator_decides: "RigExecValidateOpClusters graph = Inr () \<longleftrightarrow> clusters_ok graph"
  by (rule validate_iff)

end
