(* ===== verification/Op_Incremental.thy ===== *)
theory Op_Incremental
  imports Op_Exec_Props Op_Props
begin

text \<open>
  The executor on the graphs of the compiler: what an execution leaves for the next one, what
  it does when an operation fails, and why an incremental execution may skip an operation
  whose inputs did not change. The last part is about a value backend: a valuation and a set
  of changed values, with one pure evaluation function per operation.
\<close>

section \<open>Compiled graphs\<close>

lemma trace_readers:
  assumes trace: "compile_trace descs retained g preds succs excluded order base"
  shows "map_option set (g_readers g v) =
      (let rs = {i. i < op_count g \<and> v \<in> set (desc_reads (op_descriptor (g_ops g ! i)))}
       in if rs = {} then None else Some rs)"
    "set (g_volatileOps g) \<subseteq> {..<op_count g}"
proof -
  note ops = trace_ops [OF trace]
  from trace obtain b where b: "build_inv descs preds succs excluded order (length order) b"
    "g_readers g = (\<lambda>v. map_option vec_unique (b_readers b v))" "g_volatileOps g = b_volatileOps b"
    by (rule trace_build)
  have "map_option set (g_readers g v) = map_option set (b_readers b v)"
    unfolding b(2) by (cases "b_readers b v") simp_all
  also have "\<dots> = (let rs = {i. i < length order \<and> v \<in> set (desc_reads (descs ! (order ! i)))}
      in if rs = {} then None else Some rs)"
    using b(1) unfolding build_inv_def by blast
  also have "{i. i < length order \<and> v \<in> set (desc_reads (descs ! (order ! i)))} =
      {i. i < op_count g \<and> v \<in> set (desc_reads (op_descriptor (g_ops g ! i)))}"
    using ops(1,5) by auto
  finally show "map_option set (g_readers g v) =
      (let rs = {i. i < op_count g \<and> v \<in> set (desc_reads (op_descriptor (g_ops g ! i)))}
       in if rs = {} then None else Some rs)" .
  have "b_volatileOps b = filter (\<lambda>i. desc_volatileInput (descs ! (order ! i))) [0..<length order]"
    using b(1) unfolding build_inv_def by blast
  then show "set (g_volatileOps g) \<subseteq> {..<op_count g}" by (auto simp: b(3) ops(1))
qed

text \<open>The data flow of a graph: an operation that reads what another writes follows it, no two
  operations write the same value, and the reader index misses nothing.\<close>

definition dataflow :: "compiled_graph \<Rightarrow> bool" where
  "dataflow graph \<longleftrightarrow>
     (\<forall>p < op_count graph. \<forall>i < op_count graph.
        (\<exists>v. v \<in> set (desc_writes (op_descriptor (g_ops graph ! p))) \<and>
             v \<in> set (desc_reads (op_descriptor (g_ops graph ! i)))) \<longrightarrow>
        p \<in> set (op_predecessors (g_ops graph ! i)) \<and> (p, i) \<in> op_succ graph) \<and>
     (\<forall>p < op_count graph. \<forall>i < op_count graph. p \<noteq> i \<longrightarrow>
        set (desc_writes (op_descriptor (g_ops graph ! p))) \<inter> set (desc_writes (op_descriptor (g_ops graph ! i))) = {}) \<and>
     (\<forall>i < op_count graph. \<forall>v \<in> set (desc_reads (op_descriptor (g_ops graph ! i))).
        \<exists>rs. g_readers graph v = Some rs \<and> i \<in> set rs)"

lemma compile_dataflow:
  assumes "RigExecCompileOpGraph descs leaves policy retained = Inr g"
  shows "exec_graph g" "dataflow g"
proof -
  from assms obtain preds succs excluded order base where
    trace: "compile_trace descs retained g preds succs excluded order base" and ok: "descs_ok descs (set leaves)"
    by (rule compile_traceE)
  note ops = trace_ops [OF trace] and ord = trace_order [OF trace] and edges = trace_edges [OF trace]
  have in_range: "order ! i < length descs" if "i < op_count g" for i
    using ord(2) nth_mem [of i order] that by (auto simp: ops(1))
  have readers: "i < op_count g" if "g_readers g v = Some rs" "i \<in> set rs" for v rs i
    using trace_readers(1) [OF trace, of v] that by (auto simp: Let_def split: if_splits)
  show "exec_graph g"
    unfolding exec_graph_def
    using trace_fields(7,8) [OF trace] trace_readers(2) [OF trace] readers by blast
  show "dataflow g"
    unfolding dataflow_def
  proof (intro conjI allI impI ballI)
    fix p i assume range: "p < op_count g" "i < op_count g"
      and "\<exists>v. v \<in> set (desc_writes (op_descriptor (g_ops g ! p))) \<and> v \<in> set (desc_reads (op_descriptor (g_ops g ! i)))"
    then have "depends descs (order ! p) (order ! i)"
      using in_range by (auto simp: depends_def ops(1,5))
    then show "p \<in> set (op_predecessors (g_ops g ! i))" "(p, i) \<in> op_succ g"
      using edges(1) [of i] edges(2) [of p] range by (auto simp: ops(1) op_succ_def)
  next
    fix p i assume range: "p < op_count g" "i < op_count g" and "p \<noteq> i"
    then have "order ! p \<noteq> order ! i" using ord(1) by (simp add: ops(1) nth_eq_iff_index_eq)
    moreover have "set (desc_writes (descs ! a)) \<inter> set (desc_writes (descs ! b)) = {}"
      if "a \<noteq> b" "a < length descs" "b < length descs" for a b
      using ok that unfolding descs_ok_def keys_ok_def by (metis disjoint_iff linorder_neqE_nat)
    ultimately have "set (desc_writes (descs ! (order ! p))) \<inter> set (desc_writes (descs ! (order ! i))) = {}"
      using in_range range by blast
    then show "set (desc_writes (op_descriptor (g_ops g ! p))) \<inter> set (desc_writes (op_descriptor (g_ops g ! i))) = {}"
      using range by (simp add: ops(1,5))
  next
    fix i v assume i: "i < op_count g" "v \<in> set (desc_reads (op_descriptor (g_ops g ! i)))"
    then show "\<exists>rs. g_readers g v = Some rs \<and> i \<in> set rs"
      using trace_readers(1) [OF trace, of v] by (auto simp: Let_def split: if_splits)
  qed
qed

lemma compile_ready:
  assumes "RigExecCompileOpGraph descs leaves policy retained = Inr g"
    and "execution_record out" "case supplied of None \<Rightarrow> True | Some w \<Rightarrow> workspace_record w"
    and "cb_skipEffects cb = None" "\<forall>i \<in> set seedOps. i < op_count g" "candidateOps = None"
  shows "exec_ready g seedOps cb out supplied candidateOps"
proof -
  have graph: "exec_graph g" using compile_dataflow(1) [OF assms(1)] .
  then have "clusters_ok g" "\<forall>i \<in> set (g_volatileOps g). i < op_count g" by (simp_all add: exec_graph_def)
  moreover have "length (g_opClusters g) = op_count g"
    using \<open>clusters_ok g\<close> by (simp add: clusters_ok_def partition_ok_def)
  moreover have "length (g_clusters g) \<noteq> 0" if "op_count g \<noteq> 0"
    using op_cluster_range(1) [OF graph, of 0] that by auto
  ultimately have "execute_checks g seedOps cb candidateOps = Inr ()"
    unfolding execute_checks_def Let_def using assms(4-6) by (auto simp: not_le)
  then show ?thesis using graph assms(2,3) by (simp add: exec_ready_def)
qed

section \<open>Records\<close>

lemma exec_result_records:
  assumes result: "exec_result graph cb mandatory A bodies s err x w s'" and A: "A \<subseteq> {..<op_count graph}"
  shows "execution_record x" "workspace_record w"
proof -
  from result have x: "x_candidates x = flags_of (op_count graph) A" "set (x_touched x) = A" "set bodies = A"
    "x_ran x = e_ran (flat_sweep graph cb mandatory A bodies s)"
    "x_completion x = snd (numbered 0 bodies (replicate (op_count graph) 0))" "topological_sweep graph bodies"
    and w: "w_seeded w = flags_of (op_count graph) mandatory" "set (w_pending w) = A" "mandatory \<subseteq> A"
    "set (w_candidateClusters w) = {c. c < length (g_clusters graph) \<and> w_clusterCandidates w ! c}"
    "length (w_clusterCandidates w) = length (g_clusters graph)"
    using A by (auto simp: exec_result_def)
  have "\<forall>i < op_count graph. i \<notin> set bodies \<longrightarrow> x_completion x ! i = 0"
    using numbered_spec(3) [of bodies "replicate (op_count graph) 0"] A x(3,6)
    by (auto simp: x(5) topological_sweep_def)
  moreover have "length (x_completion x) = op_count graph"
    using numbered_spec(1) [of bodies "replicate (op_count graph) 0"] A x(3,6)
    by (auto simp: x(5) topological_sweep_def)
  ultimately show "execution_record x"
    using flat_sweep_ran [where graph = graph and cb = cb and M = mandatory and A = A and bodies = bodies and s = s] x(1-4) by (auto simp: execution_record_def)
  show "workspace_record w" using w by (auto simp: workspace_record_def)
qed

section \<open>A failing operation\<close>

lemma failed_bodies:
  assumes "\<not> e_succeeded e"
  shows "foldl (op_body graph cb seeded) e is = e\<lparr>e_state := foldl (\<lambda>s i. cb_skip cb i s) (e_state e) is\<rparr>"
  using assms by (induction "is" arbitrary: e) (simp_all add: op_body_def)

lemma first_failure:
  assumes "e_succeeded e" "\<not> e_succeeded (foldl (op_body graph cb seeded) e is)"
  shows "\<exists>xs i ys. is = xs @ i # ys \<and> e_succeeded (foldl (op_body graph cb seeded) e xs) \<and>
    \<not> e_succeeded (foldl (op_body graph cb seeded) e (xs @ [i]))"
  using assms(2)
proof (induction "is" rule: rev_induct)
  case (snoc i "is")
  show ?case
  proof (cases "e_succeeded (foldl (op_body graph cb seeded) e is)")
    case True
    then show ?thesis using snoc(2) by blast
  next
    case False
    from snoc(1) [OF False] obtain xs j ys where "is = xs @ j # ys"
      "e_succeeded (foldl (op_body graph cb seeded) e xs)"
      "\<not> e_succeeded (foldl (op_body graph cb seeded) e (xs @ [j]))" by blast
    then show ?thesis by (intro exI [where x = xs] exI [where x = j] exI [where x = "ys @ [i]"]) simp
  qed
qed (use assms(1) in simp)

section \<open>A value backend\<close>

text \<open>The state is a valuation and the values that changed in this generation; running an
  operation evaluates it and marks the outputs that got a new value.\<close>

type_synonym 'v value_state = "(value_id \<Rightarrow> 'v) \<times> value_id set"

definition op_reads :: "compiled_graph \<Rightarrow> nat \<Rightarrow> value_id set" where
  "op_reads graph i = set (desc_reads (op_descriptor (g_ops graph ! i)))"

definition op_writes :: "compiled_graph \<Rightarrow> nat \<Rightarrow> value_id set" where
  "op_writes graph i = set (desc_writes (op_descriptor (g_ops graph ! i)))"

definition write_outputs :: "compiled_graph \<Rightarrow> (nat \<Rightarrow> (value_id \<Rightarrow> 'v) \<Rightarrow> value_id \<Rightarrow> 'v) \<Rightarrow> nat \<Rightarrow>
     (value_id \<Rightarrow> 'v) \<Rightarrow> value_id \<Rightarrow> 'v" where
  "write_outputs graph eval i vals = (\<lambda>v. if v \<in> op_writes graph i then eval i vals v else vals v)"

definition value_backend ::
  "compiled_graph \<Rightarrow> (nat \<Rightarrow> (value_id \<Rightarrow> 'v) \<Rightarrow> value_id \<Rightarrow> 'v) \<Rightarrow> 'v value_state op_callbacks" where
  "value_backend graph eval = \<lparr>
     cb_run = (\<lambda>i (vals, changed). (True, (write_outputs graph eval i vals,
        changed \<union> {v \<in> op_writes graph i. eval i vals v \<noteq> vals v}))),
     cb_skip = (\<lambda>i s. s),
     cb_skipEffects = None,
     cb_changed = (\<lambda>v (vals, changed). (v \<in> changed, (vals, changed))),
     cb_inputChanged = None,
     cb_inputsChanged = None\<rparr>"

text \<open>An evaluation looks at the values the operation reads and at nothing else.\<close>

definition reads_only :: "compiled_graph \<Rightarrow> (nat \<Rightarrow> (value_id \<Rightarrow> 'v) \<Rightarrow> value_id \<Rightarrow> 'v) \<Rightarrow> bool" where
  "reads_only graph eval \<longleftrightarrow> (\<forall>i vals vals'. (\<forall>v \<in> op_reads graph i. vals v = vals' v) \<longrightarrow> eval i vals = eval i vals')"

definition settled :: "compiled_graph \<Rightarrow> (nat \<Rightarrow> (value_id \<Rightarrow> 'v) \<Rightarrow> value_id \<Rightarrow> 'v) \<Rightarrow> (value_id \<Rightarrow> 'v) \<Rightarrow> nat \<Rightarrow> bool" where
  "settled graph eval vals i \<longleftrightarrow> (\<forall>v \<in> op_writes graph i. vals v = eval i vals v)"

lemma dataflowD:
  assumes "dataflow graph" "p < op_count graph" "i < op_count graph"
  shows "v \<in> op_writes graph p \<Longrightarrow> v \<in> op_reads graph i \<Longrightarrow>
      p \<in> set (op_predecessors (g_ops graph ! i)) \<and> (p, i) \<in> op_succ graph"
    "p \<noteq> i \<Longrightarrow> op_writes graph p \<inter> op_writes graph i = {}"
    "v \<in> op_reads graph i \<Longrightarrow> \<exists>rs. g_readers graph v = Some rs \<and> i \<in> set rs"
  using assms unfolding dataflow_def op_reads_def op_writes_def by blast+

lemma value_needed:
  "op_needed graph (value_backend graph eval) seeded i (vals, changed) =
     (seeded ! i \<or> (op_reads graph i \<inter> changed \<noteq> {}), (vals, changed))"
proof -
  have "foldl (\<lambda>(needed, s) v. let (c, s') = input_changed (value_backend graph eval) i v s in (c \<or> needed, s'))
      (b, (vals, changed)) vs = (b \<or> (set vs \<inter> changed \<noteq> {}), (vals, changed))" for b vs
    by (induction vs arbitrary: b) (auto simp: input_changed_def value_backend_def)
  then show ?thesis by (simp add: op_needed_def op_reads_def) (simp add: value_backend_def)
qed

lemma value_body:
  assumes "e_succeeded e" "e_state e = (vals, changed)"
  shows "e_succeeded (op_body graph (value_backend graph eval) seeded e i) \<and>
     e_state (op_body graph (value_backend graph eval) seeded e i) =
       (if seeded ! i \<or> op_reads graph i \<inter> changed \<noteq> {}
        then (write_outputs graph eval i vals, changed \<union> {v \<in> op_writes graph i. eval i vals v \<noteq> vals v})
        else (vals, changed))"
  using assms by (auto simp: op_body_def value_needed Let_def) (auto simp: value_backend_def)

text \<open>What holds after the operations \<open>P\<close> have had their turn: each of them is settled, as is
  every operation that is not mandatory and reads nothing that changed.\<close>

definition value_inv ::
  "compiled_graph \<Rightarrow> (nat \<Rightarrow> (value_id \<Rightarrow> 'v) \<Rightarrow> value_id \<Rightarrow> 'v) \<Rightarrow> nat set \<Rightarrow> (value_id \<Rightarrow> 'v) \<Rightarrow> value_id set \<Rightarrow>
     nat set \<Rightarrow> 'v value_state \<Rightarrow> bool" where
  "value_inv graph eval mandatory start leaves P = (\<lambda>(vals, changed).
     (\<forall>i < op_count graph. i \<in> P \<or> (i \<notin> mandatory \<and> op_reads graph i \<inter> changed = {}) \<longrightarrow> settled graph eval vals i) \<and>
     changed \<subseteq> leaves \<union> (\<Union>i \<in> P. op_writes graph i) \<and>
     (\<forall>v. (\<forall>i < op_count graph. v \<notin> op_writes graph i) \<longrightarrow> vals v = start v))"

lemma value_step:
  assumes graph: "dataflow graph" "exec_graph graph" "reads_only graph eval"
    and i: "i < op_count graph" "i \<notin> P" and P: "P \<subseteq> {..<op_count graph}"
    and last: "\<forall>j \<in> P. i \<notin> set (op_predecessors (g_ops graph ! j))"
    and inv: "value_inv graph eval mandatory start leaves P (vals, changed)"
  shows "value_inv graph eval mandatory start leaves (insert i P)
     (if i \<in> mandatory \<or> op_reads graph i \<inter> changed \<noteq> {}
      then (write_outputs graph eval i vals, changed \<union> {v \<in> op_writes graph i. eval i vals v \<noteq> vals v})
      else (vals, changed))"
proof (cases "i \<in> mandatory \<or> op_reads graph i \<inter> changed \<noteq> {}")
  case False
  then show ?thesis using inv i(1) unfolding value_inv_def by auto
next
  case True
  let ?vals = "write_outputs graph eval i vals"
  let ?changed = "changed \<union> {v \<in> op_writes graph i. eval i vals v \<noteq> vals v}"
  have same: "eval j ?vals = eval j vals" if "\<forall>v \<in> op_reads graph j. v \<in> op_writes graph i \<longrightarrow> eval i vals v = vals v" for j
  proof -
    have "\<forall>v \<in> op_reads graph j. ?vals v = vals v" using that by (auto simp: write_outputs_def)
    then show ?thesis using graph(3) unfolding reads_only_def by blast
  qed
  have forward: "p < j" if "p < op_count graph" "j < op_count graph" "v \<in> op_writes graph p" "v \<in> op_reads graph j" for p j v
    using dataflowD(1) [OF graph(1) that(1,2,3,4)] exec_graph_succ(1) [OF graph(2)] by blast
  have keeps: "settled graph eval ?vals j"
    if j: "j < op_count graph" "j \<noteq> i" "settled graph eval vals j" and e: "eval j ?vals = eval j vals" for j
  proof -
    have "?vals v = vals v" if "v \<in> op_writes graph j" for v
      using dataflowD(2) [OF graph(1) j(1) i(1) j(2)] that by (auto simp: write_outputs_def)
    then show ?thesis using j(3) e by (simp add: settled_def)
  qed
  have "settled graph eval ?vals j" if j: "j < op_count graph"
    "j \<in> insert i P \<or> (j \<notin> mandatory \<and> op_reads graph j \<inter> ?changed = {})" for j
  proof (cases "j = i")
    case True
    have "eval i ?vals = eval i vals" using forward [OF i(1) i(1)] by (intro same) blast
    then show ?thesis by (simp add: True settled_def write_outputs_def)
  next
    case False
    show ?thesis
    proof (cases "j \<in> P")
      case True
      then have "op_writes graph i \<inter> op_reads graph j = {}"
        using last dataflowD(1) [OF graph(1) i(1) j(1)] by blast
      then have "eval j ?vals = eval j vals" by (intro same) blast
      then show ?thesis using keeps [OF j(1) False] inv True j(1) by (auto simp: value_inv_def)
    next
      case notP: False
      then have calm: "j \<notin> mandatory" "op_reads graph j \<inter> ?changed = {}" using j(2) False by auto
      then have "eval j ?vals = eval j vals" by (intro same) blast
      moreover have "op_reads graph j \<inter> changed = {}" using calm(2) by blast
      ultimately show ?thesis using keeps [OF j(1) False] inv calm(1) j(1) by (auto simp: value_inv_def)
    qed
  qed
  moreover have "?changed \<subseteq> leaves \<union> (\<Union>j \<in> insert i P. op_writes graph j)"
    using inv by (auto simp: value_inv_def)
  moreover have "?vals v = start v" if "\<forall>j < op_count graph. v \<notin> op_writes graph j" for v
    using inv that i(1) by (simp add: value_inv_def write_outputs_def)
  ultimately show ?thesis using True by (simp add: value_inv_def)
qed

lemma later_not_pred:
  assumes "topological_sweep graph bodies" "bodies = xs @ i # ys" "j \<in> set xs"
  shows "i \<notin> set (op_predecessors (g_ops graph ! j))"
proof
  assume pred: "i \<in> set (op_predecessors (g_ops graph ! j))"
  from assms(3) obtain us vs where xs: "xs = us @ j # vs" by (auto simp: in_set_conv_decomp)
  then have "bodies = us @ j # (vs @ i # ys)" using assms(2) by simp
  then have "i \<in> set us" using assms(1,2) pred unfolding topological_sweep_def by auto
  then show False using assms(1,2) xs by (auto simp: topological_sweep_def)
qed

lemma value_sweep:
  assumes graph: "dataflow graph" "exec_graph graph" "reads_only graph eval"
    and order: "topological_sweep graph bodies" "set bodies \<subseteq> {..<op_count graph}"
    and start: "value_inv graph eval mandatory start leaves {} (vals, changed)"
    and e: "e_succeeded e" "e_state e = (vals, changed)"
    and seeded: "\<forall>i < op_count graph. seeded ! i \<longleftrightarrow> i \<in> mandatory"
  shows "bodies = xs @ ys \<Longrightarrow> e_succeeded (foldl (op_body graph (value_backend graph eval) seeded) e xs) \<and>
     value_inv graph eval mandatory start leaves (set xs) (e_state (foldl (op_body graph (value_backend graph eval) seeded) e xs))"
proof (induction xs arbitrary: ys rule: rev_induct)
  case (snoc i xs)
  let ?e = "foldl (op_body graph (value_backend graph eval) seeded) e xs"
  have split: "bodies = xs @ i # ys" using snoc(2) by simp
  from snoc(1) [OF split] have ok: "e_succeeded ?e"
    and inv: "value_inv graph eval mandatory start leaves (set xs) (e_state ?e)" by simp_all
  obtain vals' changed' where state: "e_state ?e = (vals', changed')" by fastforce
  have i: "i < op_count graph" "i \<notin> set xs" using order split by (auto simp: topological_sweep_def)
  have P: "set xs \<subseteq> {..<op_count graph}" using order(2) split by auto
  have "\<forall>j \<in> set xs. i \<notin> set (op_predecessors (g_ops graph ! j))"
    using later_not_pred [OF order(1) split] by blast
  note step = value_step [OF graph i P this inv [unfolded state]]
  have mand: "seeded ! i \<longleftrightarrow> i \<in> mandatory" using seeded i(1) by blast
  from value_body [OF ok state, of graph eval seeded i] step show ?case
    unfolding foldl_append foldl.simps by (simp add: mand)
qed (use start e in simp)

text \<open>A settled valuation is determined by the values nothing writes.\<close>

lemma settled_unique:
  assumes graph: "dataflow graph" "exec_graph graph" "reads_only graph eval"
    and settled: "\<forall>i < op_count graph. settled graph eval vals i" "\<forall>i < op_count graph. settled graph eval vals' i"
    and leaves: "\<forall>v. (\<forall>i < op_count graph. v \<notin> op_writes graph i) \<longrightarrow> vals v = vals' v"
  shows "vals = vals'"
proof -
  have "\<forall>v \<in> op_writes graph i. vals v = vals' v" if "i < op_count graph" for i
    using that
  proof (induction i rule: less_induct)
    case (less i)
    have "vals v = vals' v" if v: "v \<in> op_reads graph i" for v
    proof (cases "\<exists>p < op_count graph. v \<in> op_writes graph p")
      case True
      then obtain p where p: "p < op_count graph" "v \<in> op_writes graph p" by blast
      then have "p < i" using dataflowD(1) [OF graph(1) p(1) less(2) p(2) v] exec_graph_succ(1) [OF graph(2)] by blast
      then show ?thesis using less(1) p by blast
    qed (use leaves in blast)
    then have "eval i vals = eval i vals'" using graph(3) unfolding reads_only_def by blast
    then show ?case using settled less(2) unfolding settled_def by metis
  qed
  then show ?thesis using leaves by blast
qed

text \<open>The whole execution on a value backend: everything is settled afterwards when, before it,
  every operation was that is neither seeded as mandatory nor reads a changed leaf.\<close>

lemma execute_settles:
  assumes graph: "dataflow graph" "reads_only graph eval"
    and ready: "exec_ready graph seedOps (value_backend graph eval) out supplied candidateOps"
    and run: "RigExecExecuteOpGraph graph changedLeaves seedOps force (value_backend graph eval) out supplied
        candidateOps (vals, set changedLeaves) = (err, x, ws, (vals', changed'))"
    and before: "\<forall>i < op_count graph. i \<in> mandatory_set graph seedOps force \<or> op_reads graph i \<inter> set changedLeaves \<noteq> {} \<or>
        settled graph eval vals i"
  shows "err = None \<and> (\<forall>i < op_count graph. settled graph eval vals' i) \<and>
     (\<forall>v. (\<forall>i < op_count graph. v \<notin> op_writes graph i) \<longrightarrow> vals' v = vals v)"
proof -
  let ?cb = "value_backend graph eval" and ?M = "mandatory_set graph seedOps force"
  let ?A = "targets graph changedLeaves seedOps force candidateOps"
  have eg: "exec_graph graph" using ready by (simp add: exec_ready_def)
  from execute_cases [OF ready run] obtain bodies w where
    result: "exec_result graph ?cb ?M ?A bodies (vals, set changedLeaves) err x w (vals', changed')" by metis
  then have sweep: "topological_sweep graph bodies" "set bodies = ?A" "?M \<subseteq> ?A"
    and err: "err = (if e_succeeded (flat_sweep graph ?cb ?M ?A bodies (vals, set changedLeaves)) then None else Some OperationFailed)"
    and state: "(vals', changed') = e_state (flat_sweep graph ?cb ?M ?A bodies (vals, set changedLeaves))"
    by (simp_all add: exec_result_def)
  have range: "set bodies \<subseteq> {..<op_count graph}" using targets_range [OF ready] sweep(2) by blast
  have skip: "skip_others graph ?cb (flags_of (op_count graph) ?A) s = s" for s
    by (simp add: skip_others_def value_backend_def) (induction "[0..<op_count graph]", auto intro: foldl_invariant)
  have start: "value_inv graph eval ?M vals (set changedLeaves) {} (vals, set changedLeaves)"
    using before by (auto simp: value_inv_def)
  have "e_succeeded (flat_sweep graph ?cb ?M ?A bodies (vals, set changedLeaves)) \<and>
      value_inv graph eval ?M vals (set changedLeaves) (set bodies)
        (e_state (flat_sweep graph ?cb ?M ?A bodies (vals, set changedLeaves)))"
    unfolding flat_sweep_def skip
    by (rule value_sweep [OF graph(1) eg graph(2) sweep(1) range start, where ys = "[]"]) simp_all
  then have ok: "err = None" and inv: "value_inv graph eval ?M vals (set changedLeaves) ?A (vals', changed')"
    using err state sweep(2) by simp_all
  have "settled graph eval vals' i" if i: "i < op_count graph" for i
  proof (cases "i \<in> ?A")
    case False
    have "v \<notin> op_reads graph i" if v: "v \<in> changed'" for v
    proof
      assume r: "v \<in> op_reads graph i"
      from v inv consider "v \<in> set changedLeaves" | p where "p \<in> ?A" "v \<in> op_writes graph p"
        by (auto simp: value_inv_def)
      then have "i \<in> ?A"
      proof cases
        case 1
        then have "i \<in> seed_set graph changedLeaves seedOps force candidateOps"
          using dataflowD(3) [OF graph(1) i i r] by (auto simp: seed_set_def)
        then show ?thesis by (auto simp: affected_def)
      next
        case 2
        then have "(p, i) \<in> op_succ graph" using dataflowD(1) [OF graph(1) _ i _ r] range sweep(2) by blast
        then show ?thesis using 2(1) by (auto simp: affected_def intro: rtrancl_into_rtrancl)
      qed
      then show False using False by simp
    qed
    then show ?thesis using inv i False sweep(3) by (auto simp: value_inv_def)
  qed (use inv i in \<open>auto simp: value_inv_def\<close>)
  then show ?thesis using ok inv by (auto simp: value_inv_def)
qed

end
