(* ===== verification/Op_Exec_Claims.thy ===== *)
theory Op_Exec_Claims
  imports Op_Incremental
begin

text \<open>
  The properties of the executor on the graphs of the compiler, with their witnesses.
\<close>

section \<open>An execution for the witnesses\<close>

definition empty_execution :: op_execution where
  "empty_execution = \<lparr>x_candidates = [], x_ran = [], x_completion = [], x_executed = 0, x_skipped = 0,
     x_touched = [], x_touchedValid = False\<rparr>"

lemma empty_records [simp]: "execution_record empty_execution" "workspace_record fresh_workspace"
  by (simp_all add: execution_record_def workspace_record_def empty_execution_def fresh_workspace_def)

lemma demo_ready:
  assumes "RigExecCompileOpGraph demo_ops [7] SetAside None = Inr g" "cb_skipEffects cb = None"
  shows "exec_ready g [] cb empty_execution (Some fresh_workspace) None"
  using compile_ready [OF assms(1), of empty_execution "Some fresh_workspace" cb "[]" None] assms(2) by simp

section \<open>What a run leaves behind\<close>

text \<open>C30. Whatever happened in an execution, its records are truthful: the same execution and
  workspace can be handed to the next one, whose list-driven reset then zeroes every flag,
  seed and number, exactly as a whole reset does, and whose judge has nothing to object.\<close>

theorem execution_resets_clean:
  assumes "exec_ready graph seedOps cb out (Some supplied) candidateOps"
    and "RigExecExecuteOpGraph graph changedLeaves seedOps force cb out (Some supplied) candidateOps s =
        (err, x, Some w, s')"
  shows "x_touchedValid x \<and> exec_ready graph seedOps cb x (Some w) candidateOps \<and> err \<noteq> Some ResetMissedEntry \<and>
    (\<exists>x' w'. RigExecOpResetExecution (Some x) (Some w) (op_count graph) (length (g_clusters graph)) =
        (True, Some x', Some w') \<and>
      x_candidates x' = replicate (op_count graph) False \<and> x_ran x' = replicate (op_count graph) False \<and>
      x_completion x' = replicate (op_count graph) 0 \<and> w_seeded w' = replicate (op_count graph) False \<and>
      w_clusterCandidates w' = replicate (length (g_clusters graph)) False)"
proof -
  let ?A = "targets graph changedLeaves seedOps force candidateOps"
  from assms obtain bodies w1 where result: "exec_result graph cb (mandatory_set graph seedOps force) ?A bodies s err x w1 s'"
    and "Some w = Some w1" by (rule execute_cases) simp
  then have result: "exec_result graph cb (mandatory_set graph seedOps force) ?A bodies s err x w s'" by simp
  note records = exec_result_records [OF result targets_range [OF assms(1)]]
  then have "exec_ready graph seedOps cb x (Some w) candidateOps" using assms(1) by (simp add: exec_ready_def)
  moreover have "x_touchedValid x" "err \<noteq> Some ResetMissedEntry" using result by (auto simp: exec_result_def)
  moreover from reset_spec [OF records, of "op_count graph" "length (g_clusters graph)"] obtain x' w' where
    "RigExecOpResetExecution (Some x) (Some w) (op_count graph) (length (g_clusters graph)) = (True, Some x', Some w')"
    "clean_execution (op_count graph) x'" "clean_workspace (op_count graph) (length (g_clusters graph)) w'" .
  ultimately show ?thesis unfolding clean_execution_def clean_workspace_def by blast
qed

text \<open>C29. When an execution reports failure, the bodies ran in order up to the first operation
  whose run failed; every later one was only skipped, and nothing after it is marked as run.\<close>

theorem failure_cancels_the_rest:
  assumes "exec_ready graph seedOps cb out supplied candidateOps"
    and "RigExecExecuteOpGraph graph changedLeaves seedOps force cb out supplied candidateOps s =
        (Some OperationFailed, x, ws, s')"
  shows "\<exists>xs i ys. topological_sweep graph (xs @ i # ys) \<and>
     set (xs @ i # ys) = targets graph changedLeaves seedOps force candidateOps \<and>
     (let M = mandatory_set graph seedOps force; A = targets graph changedLeaves seedOps force candidateOps;
          e = flat_sweep graph cb M A (xs @ [i]) s
      in e_succeeded (flat_sweep graph cb M A xs s) \<and> \<not> e_succeeded e \<and>
         x_ran x = e_ran e \<and> s' = foldl (\<lambda>s j. cb_skip cb j s) (e_state e) ys)"
proof -
  let ?A = "targets graph changedLeaves seedOps force candidateOps" and ?M = "mandatory_set graph seedOps force"
  from assms obtain bodies w where result: "exec_result graph cb ?M ?A bodies s (Some OperationFailed) x w s'"
    by (rule execute_cases)
  then have sweep: "topological_sweep graph bodies" "set bodies = ?A"
    "\<not> e_succeeded (flat_sweep graph cb ?M ?A bodies s)" "s' = e_state (flat_sweep graph cb ?M ?A bodies s)"
    "x_ran x = e_ran (flat_sweep graph cb ?M ?A bodies s)"
    by (auto simp: exec_result_def split: if_splits)
  from first_failure [OF _ sweep(3) [unfolded flat_sweep_def]] obtain xs i ys where split: "bodies = xs @ i # ys"
    and parts: "e_succeeded (flat_sweep graph cb ?M ?A xs s)" "\<not> e_succeeded (flat_sweep graph cb ?M ?A (xs @ [i]) s)"
    unfolding flat_sweep_def by auto
  have "flat_sweep graph cb ?M ?A bodies s = foldl (op_body graph cb (flags_of (op_count graph) ?M))
      (flat_sweep graph cb ?M ?A (xs @ [i]) s) ys"
    unfolding split flat_sweep_def by simp
  also have "\<dots> = (flat_sweep graph cb ?M ?A (xs @ [i]) s)
      \<lparr>e_state := foldl (\<lambda>s i. cb_skip cb i s) (e_state (flat_sweep graph cb ?M ?A (xs @ [i]) s)) ys\<rparr>"
    by (rule failed_bodies [OF parts(2)])
  finally have "x_ran x = e_ran (flat_sweep graph cb ?M ?A (xs @ [i]) s)"
    "s' = foldl (\<lambda>s j. cb_skip cb j s) (e_state (flat_sweep graph cb ?M ?A (xs @ [i]) s)) ys"
    unfolding sweep(4,5) by simp_all
  then show ?thesis using sweep(1,2) parts unfolding split Let_def by blast
qed

text \<open>C16. An incremental execution is a full one: on a compiled graph and a backend whose
  operations are functions of the values they read, if every operation that is neither
  mandatory nor a reader of a changed leaf was up to date, then afterwards all are, and the
  valuation is the one a forced execution of every operation gives.\<close>

theorem incremental_equals_full:
  assumes "RigExecCompileOpGraph descs leaves policy retained = Inr g" and "reads_only g eval"
    and "\<forall>i < op_count g. i \<in> mandatory_set g seedOps False \<or> op_reads g i \<inter> set changedLeaves \<noteq> {} \<or> settled g eval vals i"
    and "exec_ready g seedOps (value_backend g eval) out supplied candidateOps"
    and "RigExecExecuteOpGraph g changedLeaves seedOps False (value_backend g eval) out supplied candidateOps
           (vals, set changedLeaves) = (err1, x1, w1, (vals1, changed1))"
    and "RigExecExecuteOpGraph g changedLeaves seedOps True (value_backend g eval) out supplied candidateOps
           (vals, set changedLeaves) = (err2, x2, w2, (vals2, changed2))"
  shows "vals1 = vals2 \<and> err1 = None \<and> err2 = None \<and> (\<forall>i < op_count g. settled g eval vals1 i)"
proof -
  note graph = compile_dataflow [OF assms(1)]
  note inc = execute_settles [OF graph(2) assms(2,4,5,3)]
  have "\<forall>i < op_count g. i \<in> mandatory_set g seedOps True \<or> op_reads g i \<inter> set changedLeaves \<noteq> {} \<or> settled g eval vals i"
    by (simp add: mandatory_set_def)
  note full = execute_settles [OF graph(2) assms(2,4,6) this]
  have "vals1 = vals2"
    by (rule settled_unique [OF graph(2,1) assms(2)]) (use inc full in auto)
  then show ?thesis using inc full by blast
qed

section \<open>Witnesses\<close>

definition step_backend :: "bool \<Rightarrow> nat op_callbacks" where
  "step_backend ok = \<lparr>cb_run = (\<lambda>i s. (ok, s + 1)), cb_skip = (\<lambda>i s. s), cb_skipEffects = None,
     cb_changed = (\<lambda>v s. (True, s)), cb_inputChanged = None, cb_inputsChanged = None\<rparr>"

lemma step_backend_skip [simp]: "cb_skipEffects (step_backend ok) = None"
  by (simp add: step_backend_def)

theorem execute_is_topological_sweep_witness:
  "\<exists>g err x ws s' bodies. RigExecCompileOpGraph demo_ops [7] SetAside None = Inr g \<and>
     RigExecExecuteOpGraph g [7] [] False (step_backend True) empty_execution (Some fresh_workspace) None 0 = (err, x, ws, s') \<and>
     topological_sweep g bodies \<and> set bodies = targets g [7] [] False None"
proof -
  obtain g where g: "RigExecCompileOpGraph demo_ops [7] SetAside None = Inr g" using demo_compiles(1) by blast
  obtain err x ws s' where run: "RigExecExecuteOpGraph g [7] [] False (step_backend True) empty_execution
      (Some fresh_workspace) None 0 = (err, x, ws, s')" by (rule prod_cases4)
  from execute_is_topological_sweep [OF demo_ready [OF g step_backend_skip] run] g run show ?thesis by blast
qed

theorem execute_counts_witness:
  "\<exists>g err x ws s'. RigExecCompileOpGraph demo_ops [7] SetAside None = Inr g \<and>
     RigExecExecuteOpGraph g [7] [] False (step_backend True) empty_execution (Some fresh_workspace) None 0 = (err, x, ws, s') \<and>
     x_executed x + x_skipped x = op_count g"
proof -
  obtain g where g: "RigExecCompileOpGraph demo_ops [7] SetAside None = Inr g" using demo_compiles(1) by blast
  obtain err x ws s' where run: "RigExecExecuteOpGraph g [7] [] False (step_backend True) empty_execution
      (Some fresh_workspace) None 0 = (err, x, ws, s')" by (rule prod_cases4)
  from execute_counts [OF demo_ready [OF g step_backend_skip] run] g run show ?thesis by blast
qed

theorem execution_resets_clean_witness:
  "\<exists>g err x w s'. RigExecCompileOpGraph demo_ops [7] SetAside None = Inr g \<and>
     RigExecExecuteOpGraph g [7] [] False (step_backend True) empty_execution (Some fresh_workspace) None 0 =
       (err, x, Some w, s') \<and> exec_ready g [] (step_backend True) x (Some w) None"
proof -
  obtain g where g: "RigExecCompileOpGraph demo_ops [7] SetAside None = Inr g" using demo_compiles(1) by blast
  note ready = demo_ready [OF g step_backend_skip [of True]]
  obtain err x w s' where run: "RigExecExecuteOpGraph g [7] [] False (step_backend True) empty_execution
      (Some fresh_workspace) None 0 = (err, x, Some w, s')"
    using execute_spec [OF ready, of "[7]" False 0] by auto
  from execution_resets_clean [OF ready run] g run show ?thesis by blast
qed

lemma demo_pair_count:
  assumes "RigExecCompileOpGraph demo_pair [] SetAside None = Inr g"
  shows "0 < op_count g"
proof -
  from assms obtain preds succs excluded order base where
    trace: "compile_trace demo_pair None g preds succs excluded order base" by (rule compile_traceE)
  have "set order = {i. i < length demo_pair}" using trace_order(2) [OF trace] demo_pair_aside by simp
  then have "0 \<in> set order" by (simp add: demo_pair_def)
  then show ?thesis using trace_ops(1) [OF trace] by auto
qed

lemma forced_failure:
  assumes "bodies \<noteq> []" "set bodies \<subseteq> {..<op_count graph}" "\<And>s i. \<not> fst (cb_run cb i s)"
  shows "\<not> e_succeeded (flat_sweep graph cb {..<op_count graph} A bodies s)"
proof -
  obtain i ys where bodies: "bodies = i # ys" using assms(1) by (cases bodies) auto
  let ?seeded = "flags_of (op_count graph) {..<op_count graph}"
  have needed: "fst (op_needed graph cb ?seeded i s)" for s
  proof (cases "cb_inputsChanged cb")
    case None
    have "fst (foldl (\<lambda>(needed, s) v. let (c, s') = input_changed cb i v s in (c \<or> needed, s')) (True, s) vs)" for vs
      by (induction vs arbitrary: s) (auto split: prod.splits)
    then show ?thesis using None assms(2) bodies by (simp add: op_needed_def)
  qed (use assms(2) bodies in \<open>auto simp: op_needed_def Let_def split: prod.splits\<close>)
  have fails: "\<not> e_succeeded (op_body graph cb ?seeded e i)" for e
  proof -
    obtain n s where r: "op_needed graph cb ?seeded i (e_state e) = (n, s)" by fastforce
    obtain ok s' where c: "cb_run cb i s = (ok, s')" by fastforce
    show ?thesis using needed [of "e_state e"] assms(3) [of i s] by (simp add: op_body_def r c)
  qed
  then show ?thesis unfolding flat_sweep_def bodies by (simp add: failed_bodies)
qed

theorem failure_cancels_the_rest_witness:
  "\<exists>g x ws s' xs i ys. RigExecCompileOpGraph demo_pair [] SetAside None = Inr g \<and>
     RigExecExecuteOpGraph g [] [] True (step_backend False) empty_execution None None 0 = (Some OperationFailed, x, ws, s') \<and>
     topological_sweep g (xs @ i # ys)"
proof -
  obtain g where g: "RigExecCompileOpGraph demo_pair [] SetAside None = Inr g" using demo_compiles(3) by blast
  have ready: "exec_ready g [] (step_backend False) empty_execution None None"
    using compile_ready [OF g, of empty_execution None "step_backend False" "[]" None] by simp
  from execute_spec [OF ready, of "[]" True 0] obtain bodies err x w s' where
    run: "RigExecExecuteOpGraph g [] [] True (step_backend False) empty_execution None None 0 = (err, x, None, s')"
    and result: "exec_result g (step_backend False) (mandatory_set g [] True) (targets g [] [] True None) bodies 0 err x w s'"
    by auto
  have M: "mandatory_set g [] True = {..<op_count g}" by (simp add: mandatory_set_def)
  have bodies: "set bodies = targets g [] [] True None" "mandatory_set g [] True \<subseteq> targets g [] [] True None"
    using result by (simp_all add: exec_result_def)
  then have "set bodies \<noteq> {}" "set bodies \<subseteq> {..<op_count g}"
    using demo_pair_count [OF g] targets_range [OF ready, of "[]" True] M by auto
  then have "\<not> e_succeeded (flat_sweep g (step_backend False) {..<op_count g} (targets g [] [] True None) bodies 0)"
    by (intro forced_failure) (auto simp: step_backend_def)
  then have err: "err = Some OperationFailed" using result by (simp add: exec_result_def M)
  from failure_cancels_the_rest [OF ready run [unfolded err]] g run err show ?thesis by blast
qed

text \<open>Sums of what an operation reads, on the diamond: only the reader of the changed leaf is
  out of date.\<close>

definition sum_eval :: "compiled_graph \<Rightarrow> nat \<Rightarrow> (value_id \<Rightarrow> int) \<Rightarrow> value_id \<Rightarrow> int" where
  "sum_eval g i vals v = (\<Sum>u \<in> op_reads g i. vals u)"

lemma sum_eval_reads: "reads_only g (sum_eval g)"
  by (auto simp: reads_only_def sum_eval_def)

theorem incremental_equals_full_witness:
  "\<exists>g vals1. RigExecCompileOpGraph demo_ops [7] SetAside None = Inr g \<and>
     (\<exists>err1 x1 w1 changed1. RigExecExecuteOpGraph g [7] [] False (value_backend g (sum_eval g)) empty_execution
        (Some fresh_workspace) None ((\<lambda>v. 0)(7 := 1), {7}) = (err1, x1, w1, (vals1, changed1))) \<and>
     (\<forall>i < op_count g. settled g (sum_eval g) vals1 i)"
proof -
  obtain g where g: "RigExecCompileOpGraph demo_ops [7] SetAside None = Inr g" using demo_compiles(1) by blast
  from g obtain preds succs excluded order base where
    trace: "compile_trace demo_ops None g preds succs excluded order base" by (rule compile_traceE)
  let ?cb = "value_backend g (sum_eval g)" and ?start = "((\<lambda>v. 0::int)(7 := 1), {7::value_id})"
  have ready: "exec_ready g [] ?cb empty_execution (Some fresh_workspace) None"
    by (rule demo_ready [OF g]) (simp add: value_backend_def)
  have "7 \<notin> set (desc_writes d)" if "d \<in> set demo_ops" for d using that by (auto simp: demo_ops_def)
  moreover have "op_writes g i = set (desc_writes (demo_ops ! (order ! i)))" "order ! i < length demo_ops"
    if "i < op_count g" for i
    using trace_ops(1,5) [OF trace] trace_order(2) [OF trace] nth_mem [of i order] that by (auto simp: op_writes_def)
  ultimately have "7 \<notin> op_writes g i" if "i < op_count g" for i using that by simp
  then have start: "\<forall>i < op_count g. i \<in> mandatory_set g [] False \<or> op_reads g i \<inter> set [7] \<noteq> {} \<or>
      settled g (sum_eval g) ((\<lambda>v. 0)(7 := 1)) i"
    by (auto simp: settled_def sum_eval_def)
  obtain err1 x1 w1 vals1 changed1 where run1: "RigExecExecuteOpGraph g [7] [] False ?cb empty_execution
      (Some fresh_workspace) None ?start = (err1, x1, w1, (vals1, changed1))" by (metis prod.exhaust)
  obtain err2 x2 w2 vals2 changed2 where run2: "RigExecExecuteOpGraph g [7] [] True ?cb empty_execution
      (Some fresh_workspace) None ?start = (err2, x2, w2, (vals2, changed2))" by (metis prod.exhaust)
  have "vals1 = vals2 \<and> err1 = None \<and> err2 = None \<and> (\<forall>i < op_count g. settled g (sum_eval g) vals1 i)"
    by (rule incremental_equals_full [OF g sum_eval_reads start ready]) (use run1 run2 in simp_all)
  then show ?thesis using g run1 by blast
qed

end
