(* ===== verification/Op_Parallel.thy ===== *)
theory Op_Parallel
  imports Op_Incremental
begin

text \<open>
  The asynchronous path of \<open>RigExecExecuteOpGraph\<close> in \<open>opGraph.cpp\<close>: one task per submitted
  cluster, all of them running concurrently. The dispatcher is the caller's, so any order in
  which the tasks' atomic actions interleave is possible; the model is a step relation over
  the multitude of unfinished tasks. The atomic actions are those of the code: the load of
  the \<open>succeeded\<close> flag, the callbacks of a body (the documentation lets a body that was
  already active finish after another one failed), the store of the flag, the
  \<open>fetch_add\<close> on the sequence with the numbering of the cluster's own operations, and one
  \<open>fetch_sub\<close> per successor cluster.
\<close>

section \<open>Tasks\<close>

text \<open>Where a task stands: submitted and not started, at the loop over the members with the
  candidates that are left and the bodies counted, inside the body of an operation whose
  load of the flag saw success, about to store the failure of an operation, or past its
  claim with the successors that are left.\<close>

datatype async_task =
    Submitted nat
  | Checking nat "nat list" nat
  | Active nat nat "nat list" nat
  | Failing nat "nat list" nat
  | Releasing nat "nat list"

datatype async_event =
    EvBegin nat
  | EvLoad nat
  | EvSkip nat
  | EvRun nat bool
  | EvCancel
  | EvClaim nat
  | EvRelease nat nat
  | EvEnd nat

record 's async_shared =
  as_unresolved :: "nat list"
  as_sequence :: nat
  as_exec :: "'s exec_state"

type_synonym 's async_state = "async_task list \<times> 's async_shared"

text \<open>One atomic action of a task: the event, what is left of the task together with the task it
  submits, and the shared state.\<close>

definition run_active ::
  "compiled_graph \<Rightarrow> 's op_callbacks \<Rightarrow> bool list \<Rightarrow> nat \<Rightarrow> nat \<Rightarrow> nat list \<Rightarrow> nat \<Rightarrow> 's async_shared \<Rightarrow>
     async_event \<times> async_task list \<times> 's async_shared" where
  "run_active graph cb seeded c i left bodies sh =
     (let e = as_exec sh; (needed, s) = op_needed graph cb seeded i (e_state e) in
      if needed
      then let (ok, s') = cb_run cb i s in
        (EvRun i ok, [if ok then Checking c left (bodies + 1) else Failing c left (bodies + 1)],
         sh\<lparr>as_exec := e\<lparr>e_ran := (e_ran e)[i := True], e_state := s'\<rparr>\<rparr>)
      else (EvSkip i, [Checking c left (bodies + 1)], sh\<lparr>as_exec := e\<lparr>e_state := cb_skip cb i s\<rparr>\<rparr>))"

definition claim_numbers :: "compiled_graph \<Rightarrow> bool list \<Rightarrow> nat \<Rightarrow> nat \<Rightarrow> 's async_shared \<Rightarrow> 's async_shared" where
  "claim_numbers graph candidates c bodies sh =
     sh\<lparr>as_sequence := as_sequence sh + bodies,
        as_exec := (as_exec sh)\<lparr>e_completion :=
          complete_cluster graph candidates c (as_sequence sh) (e_completion (as_exec sh))\<rparr>\<rparr>"

definition release_one :: "bool list \<Rightarrow> nat \<Rightarrow> nat list \<Rightarrow> nat list \<times> async_task list" where
  "release_one flags d unresolved =
     (if d < length unresolved \<and> flags ! d
      then (unresolved[d := unresolved ! d - 1], if unresolved ! d = 1 then [Submitted d] else [])
      else (unresolved, []))"

fun task_step ::
  "compiled_graph \<Rightarrow> 's op_callbacks \<Rightarrow> bool list \<Rightarrow> bool list \<Rightarrow> bool list \<Rightarrow> async_task \<Rightarrow> 's async_shared \<Rightarrow>
     async_event \<times> async_task list \<times> 's async_shared" where
  "task_step graph cb seeded candidates flags (Submitted c) sh =
     (EvBegin c, [Checking c (cluster_candidates graph candidates c) 0], sh)"
| "task_step graph cb seeded candidates flags (Checking c [] bodies) sh =
     (EvClaim c, [Releasing c (cl_successors (g_clusters graph ! c))], claim_numbers graph candidates c bodies sh)"
| "task_step graph cb seeded candidates flags (Checking c (i # left) bodies) sh =
     (if e_succeeded (as_exec sh) then (EvLoad i, [Active c i left bodies], sh)
      else (EvSkip i, [Checking c left (bodies + 1)],
        sh\<lparr>as_exec := (as_exec sh)\<lparr>e_state := cb_skip cb i (e_state (as_exec sh))\<rparr>\<rparr>))"
| "task_step graph cb seeded candidates flags (Active c i left bodies) sh =
     run_active graph cb seeded c i left bodies sh"
| "task_step graph cb seeded candidates flags (Failing c left bodies) sh =
     (EvCancel, [Checking c left bodies], sh\<lparr>as_exec := (as_exec sh)\<lparr>e_succeeded := False\<rparr>\<rparr>)"
| "task_step graph cb seeded candidates flags (Releasing c []) sh = (EvEnd c, [], sh)"
| "task_step graph cb seeded candidates flags (Releasing c (d # left)) sh =
     (let (unresolved, new) = release_one flags d (as_unresolved sh) in
      (EvRelease c d, Releasing c left # new, sh\<lparr>as_unresolved := unresolved\<rparr>))"

section \<open>Runs\<close>

inductive async_step ::
  "compiled_graph \<Rightarrow> 's op_callbacks \<Rightarrow> bool list \<Rightarrow> bool list \<Rightarrow> bool list \<Rightarrow>
     's async_state \<Rightarrow> async_event \<Rightarrow> 's async_state \<Rightarrow> bool"
  for graph cb seeded candidates flags where
  act: "task_step graph cb seeded candidates flags t sh = (ev, ts, sh') \<Longrightarrow>
     async_step graph cb seeded candidates flags (us @ t # vs, sh) ev (us @ ts @ vs, sh')"

inductive async_trace ::
  "compiled_graph \<Rightarrow> 's op_callbacks \<Rightarrow> bool list \<Rightarrow> bool list \<Rightarrow> bool list \<Rightarrow>
     's async_state \<Rightarrow> async_event list \<Rightarrow> 's async_state \<Rightarrow> bool"
  for graph cb seeded candidates flags start where
  begins: "async_trace graph cb seeded candidates flags start [] start"
| moves: "async_trace graph cb seeded candidates flags start evs a \<Longrightarrow>
     async_step graph cb seeded candidates flags a ev a' \<Longrightarrow>
     async_trace graph cb seeded candidates flags start (evs @ [ev]) a'"

inductive_cases async_stepE: "async_step graph cb seeded candidates flags a ev a'"
inductive_simps async_trace_nil: "async_trace graph cb seeded candidates flags start [] a"
inductive_cases async_trace_snocE: "async_trace graph cb seeded candidates flags start (evs @ [ev]) a"

text \<open>The path begins by submitting the clusters that are ready; \<open>wait\<close> returns when every
  submitted task is over. A task that starts while the calling thread is still submitting
  the others is the interleaving in which the others start later.\<close>

definition async_begin :: "'s run_plan \<Rightarrow> 's async_state" where
  "async_begin p = (map Submitted (rp_ready p),
     \<lparr>as_unresolved = rp_unresolved p, as_sequence = 0, as_exec = rp_start p\<rparr>)"

abbreviation plan_trace ::
  "compiled_graph \<Rightarrow> 's op_callbacks \<Rightarrow> 's run_plan \<Rightarrow> async_event list \<Rightarrow> 's async_state \<Rightarrow> bool" where
  "plan_trace graph cb p \<equiv> async_trace graph cb (rp_seeded p) (rp_candidates p) (rp_marks p) (async_begin p)"

inductive execute_async ::
  "compiled_graph \<Rightarrow> value_id list \<Rightarrow> nat list \<Rightarrow> bool \<Rightarrow> 's op_callbacks \<Rightarrow> op_execution \<Rightarrow> op_workspace \<Rightarrow>
     nat list option \<Rightarrow> 's \<Rightarrow> async_event list \<Rightarrow> exec_error option \<times> op_execution \<times> op_workspace \<times> 's \<Rightarrow> bool"
  for graph changedLeaves seedOps force cb x w candidateOps s where
  joined: "p = plan_run graph changedLeaves seedOps force cb x w candidateOps s \<Longrightarrow>
     plan_trace graph cb p evs ([], sh) \<Longrightarrow>
     execute_async graph changedLeaves seedOps force cb x w candidateOps s evs
       (finish_run graph x w p (as_unresolved sh) (rp_ready p) (as_exec sh))"

text \<open>The whole call with a \<open>dispatch\<close> callback: the checks and the reset of the serial path, then a
  joined run.\<close>

inductive dispatch_op_graph ::
  "compiled_graph \<Rightarrow> value_id list \<Rightarrow> nat list \<Rightarrow> bool \<Rightarrow> 's op_callbacks \<Rightarrow> op_execution \<Rightarrow> op_workspace option \<Rightarrow>
     nat list option \<Rightarrow> 's \<Rightarrow> async_event list \<Rightarrow> exec_error option \<times> op_execution \<times> op_workspace option \<times> 's \<Rightarrow> bool"
  for graph changedLeaves seedOps force cb out supplied candidateOps s where
  rejected: "execute_checks graph seedOps cb candidateOps = Inl e \<Longrightarrow>
     dispatch_op_graph graph changedLeaves seedOps force cb out supplied candidateOps s [] (Some e, out, supplied, s)"
| unreset: "execute_checks graph seedOps cb candidateOps = Inr () \<Longrightarrow>
     RigExecOpResetExecution (Some out) (Some (case supplied of None \<Rightarrow> fresh_workspace | Some w \<Rightarrow> w))
       (length (g_ops graph)) (length (g_clusters graph)) = (False, Some x, Some w) \<Longrightarrow>
     dispatch_op_graph graph changedLeaves seedOps force cb out supplied candidateOps s []
       (Some ResetMissedEntry, x, (if supplied = None then None else Some w), s)"
| dispatched: "execute_checks graph seedOps cb candidateOps = Inr () \<Longrightarrow>
     RigExecOpResetExecution (Some out) (Some (case supplied of None \<Rightarrow> fresh_workspace | Some w \<Rightarrow> w))
       (length (g_ops graph)) (length (g_clusters graph)) = (True, Some x, Some w) \<Longrightarrow>
     execute_async graph changedLeaves seedOps force cb (x\<lparr>x_touchedValid := False\<rparr>) (w\<lparr>w_listsValid := False\<rparr>)
       candidateOps s evs (err, x', w', s') \<Longrightarrow>
     dispatch_op_graph graph changedLeaves seedOps force cb out supplied candidateOps s evs
       (err, x', (if supplied = None then None else Some w'), s')"

inductive_cases execute_asyncE:
  "execute_async graph changedLeaves seedOps force cb x w candidateOps s evs (err, x', w', s')"
inductive_cases dispatchE:
  "dispatch_op_graph graph changedLeaves seedOps force cb out supplied candidateOps s evs (err, x', ws, s')"

section \<open>Progress and the bound\<close>

text \<open>Every unfinished task can act: the callbacks return, and no action waits for another task.\<close>

lemma async_progress:
  assumes "ts \<noteq> []"
  shows "\<exists>ev a. async_step graph cb seeded candidates flags (ts, sh) ev a"
proof -
  obtain t vs where ts: "ts = [] @ t # vs" using assms by (cases ts) auto
  obtain ev ts' sh' where "task_step graph cb seeded candidates flags t sh = (ev, ts', sh')" by (rule prod_cases3)
  then show ?thesis unfolding ts by (blast intro: async_step.act)
qed

text \<open>The actions left: those of every unfinished task, and those of every marked cluster that has
  not been submitted, that is whose count is still positive.\<close>

definition cluster_work :: "compiled_graph \<Rightarrow> bool list \<Rightarrow> nat \<Rightarrow> nat" where
  "cluster_work graph candidates c =
     3 * length (cluster_candidates graph candidates c) + length (cl_successors (g_clusters graph ! c)) + 3"

fun task_work :: "compiled_graph \<Rightarrow> bool list \<Rightarrow> async_task \<Rightarrow> nat" where
  "task_work graph candidates (Submitted c) = cluster_work graph candidates c"
| "task_work graph candidates (Checking c left bodies) = 3 * length left + length (cl_successors (g_clusters graph ! c)) + 2"
| "task_work graph candidates (Active c i left bodies) = 3 * length left + length (cl_successors (g_clusters graph ! c)) + 4"
| "task_work graph candidates (Failing c left bodies) = 3 * length left + length (cl_successors (g_clusters graph ! c)) + 3"
| "task_work graph candidates (Releasing c left) = length left + 1"

definition waiting_work :: "compiled_graph \<Rightarrow> bool list \<Rightarrow> bool list \<Rightarrow> nat list \<Rightarrow> nat" where
  "waiting_work graph candidates flags unresolved =
     (\<Sum>d \<in> {d. d < length unresolved \<and> flags ! d \<and> 0 < unresolved ! d}. cluster_work graph candidates d)"

definition work_left :: "compiled_graph \<Rightarrow> bool list \<Rightarrow> bool list \<Rightarrow> 's async_state \<Rightarrow> nat" where
  "work_left graph candidates flags = (\<lambda>(ts, sh).
     sum_list (map (task_work graph candidates) ts) + waiting_work graph candidates flags (as_unresolved sh))"

lemma release_one_work:
  assumes "release_one flags d unresolved = (unresolved', new)"
  shows "sum_list (map (task_work graph candidates) new) + waiting_work graph candidates flags unresolved' =
    waiting_work graph candidates flags unresolved"
proof (cases "d < length unresolved \<and> flags ! d \<and> unresolved ! d = 1")
  case True
  let ?w = "{d. d < length unresolved \<and> flags ! d \<and> 0 < unresolved ! d}"
  have u: "unresolved' = unresolved[d := 0]" "new = [Submitted d]" using assms True by (auto simp: release_one_def)
  have "{j. j < length unresolved' \<and> flags ! j \<and> 0 < unresolved' ! j} = ?w - {d}"
    unfolding u(1) using True by (auto simp: nth_list_update split: if_splits)
  moreover have "finite ?w" "d \<in> ?w" using True by auto
  ultimately show ?thesis
    unfolding waiting_work_def u(2) by (simp add: sum.remove [of ?w d])
next
  case False
  then have "{j. j < length unresolved' \<and> flags ! j \<and> 0 < unresolved' ! j} =
      {d. d < length unresolved \<and> flags ! d \<and> 0 < unresolved ! d}" "new = []"
    using assms by (auto simp: release_one_def nth_list_update split: if_splits)
  then show ?thesis by (simp add: waiting_work_def)
qed

lemma async_step_work:
  assumes "async_step graph cb seeded candidates flags a ev a'"
  shows "Suc (work_left graph candidates flags a') \<le> work_left graph candidates flags a"
  using assms
proof cases
  case (act t sh ts sh' us vs)
  have "Suc (sum_list (map (task_work graph candidates) ts) + waiting_work graph candidates flags (as_unresolved sh')) \<le>
      task_work graph candidates t + waiting_work graph candidates flags (as_unresolved sh)"
    using act(3)
  proof (cases rule: task_step.cases [of "(graph, cb, seeded, candidates, flags, t, sh)"])
    case (7 graph' cb' seeded' candidates' flags' c d left sh1)
    obtain u new where rel: "release_one flags d (as_unresolved sh) = (u, new)" by fastforce
    show ?thesis using act(3) 7 rel release_one_work [OF rel, of graph candidates] by auto
  qed (auto simp: cluster_work_def claim_numbers_def run_active_def Let_def split: if_splits prod.splits)
  then show ?thesis unfolding act(1,2) work_left_def by simp
qed

lemma async_trace_work:
  assumes "async_trace graph cb seeded candidates flags start evs a"
  shows "length evs + work_left graph candidates flags a \<le> work_left graph candidates flags start"
  using assms by induction (use async_step_work in \<open>fastforce+\<close>)

text \<open>So some run joins, whatever state it is continued from.\<close>

lemma async_joins:
  "\<exists>more sh'. async_trace graph cb seeded candidates flags start (evs @ more) ([], sh')"
  if "async_trace graph cb seeded candidates flags start evs a"
  using that
proof (induction "work_left graph candidates flags a" arbitrary: evs a rule: less_induct)
  case less
  obtain ts sh where a: "a = (ts, sh)" by fastforce
  show ?case
  proof (cases "ts = []")
    case True
    then show ?thesis using less.prems a by (intro exI [where x = "[]"] exI [where x = sh]) simp
  next
    case False
    from async_progress [OF this] obtain ev a' where step: "async_step graph cb seeded candidates flags a ev a'"
      unfolding a by blast
    have "work_left graph candidates flags a' < work_left graph candidates flags a"
      using async_step_work [OF step] by simp
    from less.hyps [OF this async_trace.moves [OF less.prems step]] show ?thesis by auto
  qed
qed

end
