(* ===== verification/Op_Interleave.thy ===== *)
theory Op_Interleave
  imports Op_Parallel
begin

text \<open>
  The invariant of the asynchronous path, in two layers. The abstract schedule knows the
  clusters that are busy, the releases that are owed to successors and the order of the
  claims; claiming and releasing keep it, and it makes a busy cluster one all of whose
  marked predecessors have claimed. The bodies layer says how far each task is in its
  cluster, so the log of bodies is a prefix of a topological sweep.
\<close>

section \<open>The abstract schedule\<close>

definition owes :: "compiled_graph \<Rightarrow> bool list \<Rightarrow> (nat \<times> nat) set \<Rightarrow> nat list \<Rightarrow> nat \<Rightarrow> nat set" where
  "owes graph flags owed claims d =
     {p \<in> set (cl_predecessors (g_clusters graph ! d)). flags ! p \<and> (p \<notin> set claims \<or> (p, d) \<in> owed)}"

definition tasks_inv ::
  "compiled_graph \<Rightarrow> bool list \<Rightarrow> nat set \<Rightarrow> (nat \<times> nat) set \<Rightarrow> nat list \<Rightarrow> nat list \<Rightarrow> bool" where
  "tasks_inv graph flags busy owed claims unresolved \<longleftrightarrow>
     length unresolved = length (g_clusters graph) \<and> length flags = length (g_clusters graph) \<and> distinct claims \<and>
     (\<forall>c \<in> busy \<union> set claims. c < length (g_clusters graph) \<and> flags ! c) \<and> busy \<inter> set claims = {} \<and>
     (\<forall>c d. (c, d) \<in> owed \<longrightarrow> c \<in> set claims \<and> d \<in> set (cl_successors (g_clusters graph ! c))) \<and>
     (\<forall>d < length (g_clusters graph). flags ! d \<longrightarrow> unresolved ! d = card (owes graph flags owed claims d) \<and>
        (d \<in> busy \<union> set claims \<longleftrightarrow> owes graph flags owed claims d = {})) \<and>
     (\<forall>k < length claims. waits (cluster_preds graph) (map Not flags) (take k claims) (claims ! k) = {})"

lemma schedule_invD:
  assumes "tasks_inv graph flags busy owed claims unresolved"
  shows "length unresolved = length (g_clusters graph)" "length flags = length (g_clusters graph)" "distinct claims"
    "c \<in> busy \<Longrightarrow> c < length (g_clusters graph) \<and> flags ! c \<and> c \<notin> set claims"
    "c \<in> set claims \<Longrightarrow> c < length (g_clusters graph) \<and> flags ! c"
    "(c, d) \<in> owed \<Longrightarrow> c \<in> set claims \<and> d \<in> set (cl_successors (g_clusters graph ! c))"
    "d < length (g_clusters graph) \<Longrightarrow> flags ! d \<Longrightarrow> unresolved ! d = card (owes graph flags owed claims d)"
    "d < length (g_clusters graph) \<Longrightarrow> flags ! d \<Longrightarrow>
       d \<in> busy \<union> set claims \<longleftrightarrow> owes graph flags owed claims d = {}"
    "k < length claims \<Longrightarrow> waits (cluster_preds graph) (map Not flags) (take k claims) (claims ! k) = {}"
  using assms unfolding tasks_inv_def by blast+

lemma cluster_edge:
  assumes "exec_graph graph" "c < length (g_clusters graph)" "d < length (g_clusters graph)"
  shows "d \<in> set (cl_successors (g_clusters graph ! c)) \<longleftrightarrow> c \<in> set (cl_predecessors (g_clusters graph ! d))"
  using resolved_edgesD(4) [OF clusters_resolved [OF assms(1)], of c d] assms(2,3) by auto

lemma cluster_pred_range:
  assumes "exec_graph graph" "d < length (g_clusters graph)" "p \<in> set (cl_predecessors (g_clusters graph ! d))"
  shows "p < d" "p < length (g_clusters graph)"
  using before_cluster_less [OF assms(1), of p d] cluster_pred_set(1) [OF assms(1,2)] assms(3) by auto

lemma cluster_succ_range:
  assumes "exec_graph graph" "c < length (g_clusters graph)" "d \<in> set (cl_successors (g_clusters graph ! c))"
  shows "d < length (g_clusters graph)"
  using after_cluster_range [OF assms(1), of d c] cluster_pred_set(2) [OF assms(1,2)] assms(3) by auto

text \<open>A busy cluster owes nothing, so its marked predecessors have all claimed.\<close>

lemma busy_waits:
  assumes "exec_graph graph" "tasks_inv graph flags busy owed claims unresolved" "c \<in> busy"
  shows "waits (cluster_preds graph) (map Not flags) claims c = {}"
    "p \<in> set (cl_predecessors (g_clusters graph ! c)) \<Longrightarrow> flags ! p \<Longrightarrow> p \<in> set claims"
proof -
  note inv = schedule_invD [OF assms(2)]
  have c: "c < length (g_clusters graph)" "flags ! c" using inv(4) [OF assms(3)] by auto
  have "owes graph flags owed claims c = {}" using inv(8) [OF c] assms(3) by blast
  then show claimed: "p \<in> set (cl_predecessors (g_clusters graph ! c)) \<Longrightarrow> flags ! p \<Longrightarrow> p \<in> set claims" for p
    by (auto simp: owes_def)
  show "waits (cluster_preds graph) (map Not flags) claims c = {}"
    using claimed cluster_pred_range(2) [OF assms(1) c(1)] c(1) inv(2) by (auto simp: waits_def)
qed

lemma sched_claim:
  assumes graph: "exec_graph graph" and inv: "tasks_inv graph flags busy owed claims unresolved" and c: "c \<in> busy"
  shows "tasks_inv graph flags (busy - {c}) (owed \<union> {c} \<times> set (cl_successors (g_clusters graph ! c))) (claims @ [c]) unresolved"
proof -
  let ?owed = "owed \<union> {c} \<times> set (cl_successors (g_clusters graph ! c))"
  note I = schedule_invD [OF inv]
  have c': "c < length (g_clusters graph)" "flags ! c" "c \<notin> set claims" using I(4) [OF c] by auto
  have owes: "owes graph flags ?owed (claims @ [c]) d = owes graph flags owed claims d" if "d < length (g_clusters graph)" for d
    using cluster_edge [OF graph c'(1) that] c'(3) unfolding owes_def by auto
  have "waits (cluster_preds graph) (map Not flags) (take k (claims @ [c])) ((claims @ [c]) ! k) = {}"
    if "k < Suc (length claims)" for k
  proof (cases "k = length claims")
    case True
    then show ?thesis using busy_waits(1) [OF graph inv c] by simp
  next
    case False
    then show ?thesis using I(9) [of k] that by (simp add: nth_append)
  qed
  moreover have "d \<in> (busy - {c}) \<union> set (claims @ [c]) \<longleftrightarrow> d \<in> busy \<union> set claims" for d using c by auto
  ultimately show ?thesis
    using I c' unfolding tasks_inv_def
    by (intro conjI allI impI ballI; (simp only: owes length_append list.size add_Suc_right add_0_right)?) auto
qed

lemma sched_release:
  assumes graph: "exec_graph graph" and inv: "tasks_inv graph flags busy owed claims unresolved" and cd: "(c, d) \<in> owed"
    and rel: "release_one flags d unresolved = (unresolved', new)"
  shows "tasks_inv graph flags (busy \<union> (if new = [] then {} else {d})) (owed - {(c, d)}) claims unresolved'"
    "new \<noteq> [] \<Longrightarrow> new = [Submitted d] \<and> d < length (g_clusters graph) \<and> flags ! d \<and> d \<notin> busy \<union> set claims"
    "d < length (g_clusters graph) \<and> (flags ! d \<longrightarrow> 0 < unresolved ! d)"
proof -
  note I = schedule_invD [OF inv]
  have c: "c \<in> set claims" "d \<in> set (cl_successors (g_clusters graph ! c))" using I(6) [OF cd] by auto
  then have range: "c < length (g_clusters graph)" "flags ! c" "d < length (g_clusters graph)"
    using I(5) [OF c(1)] cluster_succ_range [OF graph _ c(2)] by auto
  let ?W = "owes graph flags owed claims" and ?W' = "owes graph flags (owed - {(c, d)}) claims"
  have mem: "c \<in> ?W d" using cluster_edge [OF graph range(1,3)] c range(2) cd by (simp add: owes_def)
  have fin: "finite (?W d)" by (simp add: owes_def)
  have same: "?W' e = (if e = d then ?W d - {c} else ?W e)" for e
    using c(1) by (auto simp: owes_def)
  show pos: "d < length (g_clusters graph) \<and> (flags ! d \<longrightarrow> 0 < unresolved ! d)"
    using I(7) [OF range(3)] mem fin range(3) by (auto simp: card_gt_0_iff)
  have u: "unresolved' = (if flags ! d then unresolved[d := unresolved ! d - 1] else unresolved)"
    and n: "new = (if flags ! d \<and> unresolved ! d = 1 then [Submitted d] else [])"
    using rel range(3) I(1) by (auto simp: release_one_def split: if_splits)
  have idle: "d \<notin> busy \<union> set claims" if "flags ! d" using I(8) [OF range(3) that] mem by auto
  then show "new \<noteq> [] \<Longrightarrow> new = [Submitted d] \<and> d < length (g_clusters graph) \<and> flags ! d \<and> d \<notin> busy \<union> set claims"
    using n range(3) by (auto split: if_splits)
  have single: "?W d - {c} = {} \<longleftrightarrow> unresolved ! d = 1" if "flags ! d"
    using I(7) [OF range(3) that] mem by (auto simp: card_1_singleton_iff)
  have counts: "unresolved' ! e = card (?W' e) \<and> (e \<in> busy \<union> (if new = [] then {} else {d}) \<union> set claims \<longleftrightarrow> ?W' e = {})"
    if e: "e < length (g_clusters graph)" "flags ! e" for e
  proof (cases "e = d")
    case True
    then have "unresolved' ! e = card (?W' e)" using I(1) I(7) [OF e] u e(2) same [of d] mem fin range(3) by simp
    moreover have "e \<in> busy \<union> (if new = [] then {} else {d}) \<union> set claims \<longleftrightarrow> ?W' e = {}"
      using idle single e(2) True n same [of d] by auto
    ultimately show ?thesis by blast
  next
    case False
    then show ?thesis using I(7,8) [OF e] u same [of e] by (auto split: if_splits)
  qed
  show "tasks_inv graph flags (busy \<union> (if new = [] then {} else {d})) (owed - {(c, d)}) claims unresolved'"
    unfolding tasks_inv_def
  proof (intro conjI allI impI ballI)
    show "length unresolved' = length (g_clusters graph)" using I(1) u by simp
    fix k assume "k < length claims"
    then show "waits (cluster_preds graph) (map Not flags) (take k claims) (claims ! k) = {}" by (rule I(9))
  next
    fix e assume "e < length (g_clusters graph)" "flags ! e"
    from counts [OF this] show "unresolved' ! e = card (?W' e)"
      "e \<in> busy \<union> (if new = [] then {} else {d}) \<union> set claims \<longleftrightarrow> ?W' e = {}" by blast+
  next
    fix a b assume ab: "(a, b) \<in> owed - {(c, d)}"
    from ab I(6) [of a b] show "a \<in> set claims" "b \<in> set (cl_successors (g_clusters graph ! a))" by blast+
  next
    fix a assume a: "a \<in> busy \<union> (if new = [] then {} else {d}) \<union> set claims"
    then consider "a \<in> busy" | "a \<in> set claims" | "new \<noteq> []" "a = d" by (auto split: if_splits)
    then show "a < length (g_clusters graph)" "flags ! a"
      using I(4) [of a] I(5) [of a] range(3) n by (cases; auto split: if_splits)+
  next
    show "(busy \<union> (if new = [] then {} else {d})) \<inter> set claims = {}"
      using I(4) idle n by (auto split: if_splits)
  qed (use I(2,3) in auto)
qed

lemma sched_start:
  assumes graph: "exec_graph graph" and inv: "run_inv graph flags unresolved ready 0"
  shows "tasks_inv graph flags (set ready) {} [] unresolved"
proof -
  have "owes graph flags {} [] d = waits (cluster_preds graph) (map Not flags) [] d" if "d < length (g_clusters graph)" for d
    using that cluster_pred_range(2) [OF graph that] inv by (auto simp: owes_def waits_def run_inv_def)
  then show ?thesis using inv by (auto simp: tasks_inv_def run_inv_def)
qed

lemma sched_end:
  assumes graph: "exec_graph graph" and inv: "tasks_inv graph flags {} {} claims unresolved"
  shows "set claims = {c. c < length (g_clusters graph) \<and> flags ! c}"
proof -
  note I = schedule_invD [OF inv]
  have "c \<in> set claims" if "c < length (g_clusters graph)" "flags ! c" for c
    using that
  proof (induction c rule: less_induct)
    case (less c)
    have "owes graph flags {} claims c = {}"
      using less.IH cluster_pred_range [OF graph less.prems(1)] by (auto simp: owes_def)
    then show ?case using I(8) [OF less.prems] by simp
  qed
  then show ?thesis using I(5) by blast
qed

end
