(* ===== verification/Op_Bodies.thy ===== *)
theory Op_Bodies
  imports Op_Interleave
begin

text \<open>
  The bodies layer of the asynchronous invariant: the tasks seen as busy clusters and owed
  releases, the share of its cluster's operations each task still has to run, and the log of
  the bodies as a growing topological sweep.
\<close>

section \<open>Tasks as clusters\<close>

fun task_cluster :: "async_task \<Rightarrow> nat" where
  "task_cluster (Submitted c) = c"
| "task_cluster (Checking c left bodies) = c"
| "task_cluster (Active c i left bodies) = c"
| "task_cluster (Failing c left bodies) = c"
| "task_cluster (Releasing c left) = c"

fun task_owed :: "async_task \<Rightarrow> (nat \<times> nat) set" where
  "task_owed (Releasing c left) = {c} \<times> set left"
| "task_owed t = {}"

fun task_busy :: "async_task \<Rightarrow> nat set" where
  "task_busy (Releasing c left) = {}"
| "task_busy t = {task_cluster t}"

definition busy_of :: "async_task list \<Rightarrow> nat set" where
  "busy_of ts = (\<Union>t \<in> set ts. task_busy t)"

definition owed_of :: "async_task list \<Rightarrow> (nat \<times> nat) set" where
  "owed_of ts = (\<Union>t \<in> set ts. task_owed t)"

lemma busy_of_simps [simp]:
  "busy_of [] = {}" "busy_of (t # ts) = task_busy t \<union> busy_of ts" "busy_of (us @ vs) = busy_of us \<union> busy_of vs"
  by (auto simp: busy_of_def)

lemma owed_of_simps [simp]:
  "owed_of [] = {}" "owed_of (t # ts) = task_owed t \<union> owed_of ts" "owed_of (us @ vs) = owed_of us \<union> owed_of vs"
  by (auto simp: owed_of_def)

lemma task_busy_cases: "task_busy t = {task_cluster t} \<or> task_busy t = {} \<and> (\<exists>left. t = Releasing (task_cluster t) left)"
  by (cases t) auto

lemma busy_of_cluster: "c \<in> busy_of ts \<Longrightarrow> c \<in> task_cluster ` set ts"
  unfolding busy_of_def using task_busy_cases by fastforce

lemma owed_of_cluster: "(c, d) \<in> owed_of ts \<Longrightarrow> c \<in> task_cluster ` set ts"
proof -
  have "(c, d) \<in> task_owed t \<Longrightarrow> c = task_cluster t" for t by (cases t) auto
  then show "(c, d) \<in> owed_of ts \<Longrightarrow> c \<in> task_cluster ` set ts" by (auto simp: owed_of_def)
qed

text \<open>The shape of the unfinished tasks: one per cluster; those that release have claimed.\<close>

definition shape_inv :: "async_task list \<Rightarrow> nat list \<Rightarrow> bool" where
  "shape_inv ts claims \<longleftrightarrow> distinct (map task_cluster ts) \<and>
     (\<forall>c left. Releasing c left \<in> set ts \<longrightarrow> c \<in> set claims \<and> distinct left)"

lemma shape_cluster:
  assumes "shape_inv ts claims"
  shows "task_cluster ` set ts \<union> set claims = busy_of ts \<union> set claims"
proof -
  have one: "task_cluster t \<in> busy_of ts \<union> set claims" if t: "t \<in> set ts" for t
    using task_busy_cases [of t]
  proof
    assume "task_busy t = {task_cluster t}"
    then show ?thesis using t by (auto simp: busy_of_def)
  next
    assume "task_busy t = {} \<and> (\<exists>left. t = Releasing (task_cluster t) left)"
    then obtain left where "t = Releasing (task_cluster t) left" by blast
    then have "Releasing (task_cluster t) left \<in> set ts" using t by metis
    then show ?thesis using assms unfolding shape_inv_def by blast
  qed
  show ?thesis
  proof
    show "task_cluster ` set ts \<union> set claims \<subseteq> busy_of ts \<union> set claims" using one by blast
    show "busy_of ts \<union> set claims \<subseteq> task_cluster ` set ts \<union> set claims" using busy_of_cluster by blast
  qed
qed

lemma shape_fresh:
  assumes "shape_inv (us @ t # vs) claims"
  shows "task_cluster t \<notin> busy_of us \<union> busy_of vs" "(task_cluster t, d) \<notin> owed_of us \<union> owed_of vs"
  using assms busy_of_cluster [of "task_cluster t"] owed_of_cluster [of "task_cluster t" d]
  by (auto simp: shape_inv_def)

section \<open>The log\<close>

fun event_body :: "async_event \<Rightarrow> nat list" where
  "event_body (EvSkip i) = [i]"
| "event_body (EvRun i ok) = [i]"
| "event_body _ = []"

fun event_claim :: "async_event \<Rightarrow> nat list" where
  "event_claim (EvClaim c) = [c]"
| "event_claim _ = []"

definition body_log :: "async_event list \<Rightarrow> nat list" where
  "body_log evs = concat (map event_body evs)"

definition claim_log :: "async_event list \<Rightarrow> nat list" where
  "claim_log evs = concat (map event_claim evs)"

lemma log_simps [simp]:
  "body_log [] = []" "body_log (evs @ [ev]) = body_log evs @ event_body ev"
  "claim_log [] = []" "claim_log (evs @ [ev]) = claim_log evs @ event_claim ev"
  by (simp_all add: body_log_def claim_log_def)

section \<open>The bodies of a task\<close>

fun task_left :: "compiled_graph \<Rightarrow> bool list \<Rightarrow> async_task \<Rightarrow> nat list" where
  "task_left graph candidates (Submitted c) = cluster_candidates graph candidates c"
| "task_left graph candidates (Checking c left bodies) = left"
| "task_left graph candidates (Active c i left bodies) = i # left"
| "task_left graph candidates (Failing c left bodies) = left"
| "task_left graph candidates (Releasing c left) = []"

fun task_count :: "async_task \<Rightarrow> nat" where
  "task_count (Checking c left bodies) = bodies"
| "task_count (Active c i left bodies) = bodies"
| "task_count (Failing c left bodies) = bodies"
| "task_count _ = 0"

abbreviation cluster_log :: "compiled_graph \<Rightarrow> nat list \<Rightarrow> nat \<Rightarrow> nat list" where
  "cluster_log graph bodies c \<equiv> filter (\<lambda>i. g_opClusters graph ! i = c) bodies"

definition preds_first :: "compiled_graph \<Rightarrow> bool list \<Rightarrow> nat list \<Rightarrow> bool" where
  "preds_first graph candidates bodies \<longleftrightarrow> (\<forall>xs i ys. bodies = xs @ i # ys \<longrightarrow>
     (\<forall>p \<in> set (op_predecessors (g_ops graph ! i)). candidates ! p \<longrightarrow> p \<in> set xs))"

definition task_ok :: "compiled_graph \<Rightarrow> bool list \<Rightarrow> nat list \<Rightarrow> async_task \<Rightarrow> bool" where
  "task_ok graph candidates bodies t \<longleftrightarrow>
     cluster_log graph bodies (task_cluster t) @ task_left graph candidates t =
       cluster_candidates graph candidates (task_cluster t) \<and>
     (task_busy t \<noteq> {} \<longrightarrow> task_count t = length (cluster_log graph bodies (task_cluster t)))"

definition body_inv ::
  "compiled_graph \<Rightarrow> bool list \<Rightarrow> nat list \<Rightarrow> nat list \<Rightarrow> async_task list \<Rightarrow> bool" where
  "body_inv graph candidates bodies claims ts \<longleftrightarrow>
     (\<forall>i \<in> set bodies. i < op_count graph) \<and>
     (\<forall>t \<in> set ts. task_ok graph candidates bodies t) \<and>
     (\<forall>c \<in> set claims. cluster_log graph bodies c = cluster_candidates graph candidates c) \<and>
     (\<forall>c < length (g_clusters graph). c \<notin> task_cluster ` set ts \<union> set claims \<longrightarrow> cluster_log graph bodies c = []) \<and>
     preds_first graph candidates bodies"

lemma preds_first_snoc:
  assumes "preds_first graph candidates bodies"
    and "\<forall>p \<in> set (op_predecessors (g_ops graph ! i)). candidates ! p \<longrightarrow> p \<in> set bodies"
  shows "preds_first graph candidates (bodies @ [i])"
  unfolding preds_first_def
proof (intro allI impI)
  fix xs j ys assume split: "bodies @ [i] = xs @ j # ys"
  show "\<forall>p \<in> set (op_predecessors (g_ops graph ! j)). candidates ! p \<longrightarrow> p \<in> set xs"
  proof (cases ys rule: rev_cases)
    case Nil
    then show ?thesis using split assms(2) by simp
  next
    case (snoc zs z)
    then have "bodies = xs @ j # zs" using split by simp
    then show ?thesis using assms(1) unfolding preds_first_def by blast
  qed
qed

text \<open>When a task is about to run an operation, its candidate predecessors are in the log.\<close>

lemma next_body_ready:
  assumes graph: "exec_graph graph" and sched: "tasks_inv graph flags (busy_of ts) owed claims unresolved"
    and bodies: "body_inv graph candidates bodies claims ts"
    and marks: "\<forall>i < op_count graph. candidates ! i \<longrightarrow> flags ! (g_opClusters graph ! i)"
    and t: "t \<in> set ts" "task_busy t \<noteq> {}" "task_left graph candidates t = i # left"
  shows "i < op_count graph" "g_opClusters graph ! i = task_cluster t" "candidates ! i"
    "\<forall>p \<in> set (op_predecessors (g_ops graph ! i)). candidates ! p \<longrightarrow> p \<in> set bodies"
proof -
  let ?c = "task_cluster t"
  have busy: "?c \<in> busy_of ts" using t(1,2) task_busy_cases [of t] by (auto simp: busy_of_def)
  have c: "?c < length (g_clusters graph)" using schedule_invD(4) [OF sched busy] by simp
  have cc: "cluster_candidates graph candidates ?c = cluster_log graph bodies ?c @ i # left"
    using bodies t(1,3) unfolding body_inv_def task_ok_def by metis
  have "i \<in> set (cluster_candidates graph candidates ?c)" unfolding cc by simp
  then show i: "i < op_count graph" "g_opClusters graph ! i = ?c" "candidates ! i"
    using cluster_member [OF graph c, of i] by (auto simp: cluster_candidates_def)
  show "\<forall>p \<in> set (op_predecessors (g_ops graph ! i)). candidates ! p \<longrightarrow> p \<in> set bodies"
  proof (intro ballI impI)
    fix p assume p: "p \<in> set (op_predecessors (g_ops graph ! i))" "candidates ! p"
    have less: "p < i" using pred_less(1) [OF graph i(1) p(1)] .
    then have pn: "p < op_count graph" using i(1) by simp
    let ?b = "g_opClusters graph ! p"
    have member: "p \<in> set (cluster_candidates graph candidates ?b)"
      using op_cluster_range(2) [OF graph pn] p(2) by (simp add: cluster_candidates_def)
    show "p \<in> set bodies"
    proof (cases "?b = ?c")
      case True
      have "sorted_wrt (<) (cluster_log graph bodies ?c @ i # left)"
        using cluster_candidates_sorted [OF graph c, of candidates] unfolding cc .
      then have "p \<in> set (cluster_log graph bodies ?c)"
        using member less unfolding True cc by (auto simp: sorted_wrt_append)
      then show ?thesis by simp
    next
      case False
      have "?b \<in> before_clusters (g_ops graph) (g_opClusters graph) ?c"
        using i(1,2) p(1) False by (auto simp: before_clusters_def)
      then have "?b \<in> set (cl_predecessors (g_clusters graph ! ?c))" using cluster_pred_set(1) [OF graph c] by simp
      moreover have "flags ! ?b" using marks pn p(2) by blast
      ultimately have "?b \<in> set claims" by (rule busy_waits(2) [OF graph sched busy])
      then have "cluster_log graph bodies ?b = cluster_candidates graph candidates ?b"
        using bodies unfolding body_inv_def by blast
      then have "p \<in> set (cluster_log graph bodies ?b)" using member by simp
      then show ?thesis by simp
    qed
  qed
qed

lemma body_inv_replace:
  assumes "body_inv graph candidates bodies claims (us @ t # vs)"
    and "task_cluster t' = task_cluster t" "task_left graph candidates t' = task_left graph candidates t"
    and "task_busy t' \<noteq> {} \<longrightarrow> task_busy t \<noteq> {} \<and> task_count t' = task_count t"
  shows "body_inv graph candidates bodies claims (us @ t' # vs)"
  using assms unfolding body_inv_def by (simp add: task_ok_def)

text \<open>The body of the next operation of a task.\<close>

lemma body_inv_body:
  assumes inv: "body_inv graph candidates bodies claims (us @ t # vs)"
    and shape: "shape_inv (us @ t # vs) claims" and fresh: "task_cluster t \<notin> set claims"
    and i: "i < op_count graph" "g_opClusters graph ! i = task_cluster t"
      "\<forall>p \<in> set (op_predecessors (g_ops graph ! i)). candidates ! p \<longrightarrow> p \<in> set bodies"
    and t: "task_left graph candidates t = i # task_left graph candidates t'" "task_busy t \<noteq> {}"
      "task_cluster t' = task_cluster t" "task_count t' = task_count t + 1"
  shows "body_inv graph candidates (bodies @ [i]) claims (us @ t' # vs)"
  unfolding body_inv_def
proof (intro conjI ballI)
  fix j assume "j \<in> set (bodies @ [i])"
  then show "j < op_count graph" using inv i(1) by (auto simp: body_inv_def)
next
  fix s assume s: "s \<in> set (us @ t' # vs)"
  show "task_ok graph candidates (bodies @ [i]) s"
  proof (cases "s \<in> set us \<union> set vs")
    case True
    have "task_cluster s \<in> task_cluster ` (set us \<union> set vs)" using True by blast
    then have "g_opClusters graph ! i \<noteq> task_cluster s" using shape i(2) by (auto simp: shape_inv_def)
    then have "cluster_log graph (bodies @ [i]) (task_cluster s) = cluster_log graph bodies (task_cluster s)" by simp
    moreover have "task_ok graph candidates bodies s" using inv True by (auto simp: body_inv_def)
    ultimately show ?thesis unfolding task_ok_def by presburger
  next
    case False
    then have "s = t'" using s by auto
    moreover have "task_ok graph candidates bodies t" using inv by (simp add: body_inv_def)
    ultimately show ?thesis using t i(2) by (simp add: task_ok_def)
  qed
next
  fix c assume "c \<in> set claims"
  then show "cluster_log graph (bodies @ [i]) c = cluster_candidates graph candidates c"
    using inv fresh i(2) by (auto simp: body_inv_def)
next
  show "\<forall>c < length (g_clusters graph). c \<notin> task_cluster ` set (us @ t' # vs) \<union> set claims \<longrightarrow>
      cluster_log graph (bodies @ [i]) c = []"
    using inv t(3) i(2) by (simp add: body_inv_def)
next
  show "preds_first graph candidates (bodies @ [i])"
    by (rule preds_first_snoc) (use inv i(3) in \<open>simp_all add: body_inv_def\<close>)
qed

end
