(* ===== verification/Op_Async.thy ===== *)
theory Op_Async
  imports Op_Bodies
begin

text \<open>
  The invariant of the asynchronous path, kept by every atomic action, and what it says of a
  joined run: the bodies ran once each, predecessors first; the claims number the candidates
  in a topological order; the verdict and the ran flags are those of the callbacks; and
  without a failure the shared state is that of the flat sweep in the order of the log.
\<close>

section \<open>The invariant\<close>

definition async_inv ::
  "compiled_graph \<Rightarrow> bool list \<Rightarrow> bool list \<Rightarrow> nat list \<Rightarrow> async_event list \<Rightarrow> 's async_state \<Rightarrow> bool" where
  "async_inv graph candidates flags zeros evs = (\<lambda>(ts, sh).
     tasks_inv graph flags (busy_of ts) (owed_of ts) (claim_log evs) (as_unresolved sh) \<and>
     shape_inv ts (claim_log evs) \<and> body_inv graph candidates (body_log evs) (claim_log evs) ts \<and>
     as_sequence sh = length (sweep_order graph candidates (claim_log evs)) \<and>
     e_completion (as_exec sh) = snd (numbered 0 (sweep_order graph candidates (claim_log evs)) zeros))"

lemma async_invD:
  assumes "async_inv graph candidates flags zeros evs (ts, sh)"
  shows "tasks_inv graph flags (busy_of ts) (owed_of ts) (claim_log evs) (as_unresolved sh)"
    "shape_inv ts (claim_log evs)" "body_inv graph candidates (body_log evs) (claim_log evs) ts"
    "as_sequence sh = length (sweep_order graph candidates (claim_log evs))"
    "e_completion (as_exec sh) = snd (numbered 0 (sweep_order graph candidates (claim_log evs)) zeros)"
  using assms by (simp_all add: async_inv_def)

lemma inner_step:
  assumes inv: "async_inv graph candidates flags zeros evs (us @ t # vs, sh)"
    and t: "task_cluster t' = task_cluster t" "task_busy t \<noteq> {}" "task_busy t' \<noteq> {}"
      "task_left graph candidates t' = task_left graph candidates t" "task_count t' = task_count t"
    and ev: "event_body ev = []" "event_claim ev = []"
    and sh: "as_unresolved sh' = as_unresolved sh" "as_sequence sh' = as_sequence sh"
      "e_completion (as_exec sh') = e_completion (as_exec sh)"
  shows "async_inv graph candidates flags zeros (evs @ [ev]) (us @ t' # vs, sh')"
proof -
  note I = async_invD [OF inv]
  have busy: "task_busy t' = task_busy t" "task_owed t' = {}" "task_owed t = {}"
    using t(1-3) by (cases t; cases t'; simp)+
  have same: "busy_of (us @ t' # vs) = busy_of (us @ t # vs)" "owed_of (us @ t' # vs) = owed_of (us @ t # vs)"
    by (simp_all add: busy)
  have "shape_inv (us @ t' # vs) (claim_log evs)"
    using I(2) t(1,3) unfolding shape_inv_def by (cases t') auto
  moreover have "body_inv graph candidates (body_log evs) (claim_log evs) (us @ t' # vs)"
    by (rule body_inv_replace [OF I(3) t(1,4)]) (simp add: t)
  ultimately show ?thesis using I(1,4,5) sh unfolding async_inv_def prod.case log_simps ev append_Nil2 same by simp
qed

lemma body_step:
  assumes graph: "exec_graph graph"
    and marks: "\<forall>i < op_count graph. candidates ! i \<longrightarrow> flags ! (g_opClusters graph ! i)"
    and inv: "async_inv graph candidates flags zeros evs (us @ t # vs, sh)"
    and t: "task_cluster t' = task_cluster t" "task_busy t \<noteq> {}" "task_busy t' \<noteq> {}"
      "task_left graph candidates t = i # task_left graph candidates t'" "task_count t' = task_count t + 1"
    and ev: "event_body ev = [i]" "event_claim ev = []"
    and sh: "as_unresolved sh' = as_unresolved sh" "as_sequence sh' = as_sequence sh"
      "e_completion (as_exec sh') = e_completion (as_exec sh)"
  shows "async_inv graph candidates flags zeros (evs @ [ev]) (us @ t' # vs, sh')"
proof -
  note I = async_invD [OF inv]
  have busy: "task_busy t' = task_busy t" "task_owed t' = {}" "task_owed t = {}"
    using t(1-3) by (cases t; cases t'; simp)+
  have same: "busy_of (us @ t' # vs) = busy_of (us @ t # vs)" "owed_of (us @ t' # vs) = owed_of (us @ t # vs)"
    by (simp_all add: busy)
  have "shape_inv (us @ t' # vs) (claim_log evs)"
    using I(2) t(1,3) unfolding shape_inv_def by (cases t') auto
  moreover have "body_inv graph candidates (body_log evs @ [i]) (claim_log evs) (us @ t' # vs)"
  proof (rule body_inv_body [OF I(3,2) _ _ _ _ t(4,2,1,5)])
    have "task_cluster t \<in> busy_of (us @ t # vs)" using t(2) task_busy_cases [of t] by auto
    then show "task_cluster t \<notin> set (claim_log evs)" using schedule_invD(4) [OF I(1)] by blast
    have "t \<in> set (us @ t # vs)" by simp
    note ready = next_body_ready [OF graph I(1,3) marks this t(2,4)]
    show "i < op_count graph" "g_opClusters graph ! i = task_cluster t" using ready(1,2) by simp_all
    show "\<forall>p \<in> set (op_predecessors (g_ops graph ! i)). candidates ! p \<longrightarrow> p \<in> set (body_log evs)"
      using ready(4) .
  qed
  ultimately show ?thesis using I(1,4,5) sh unfolding async_inv_def prod.case log_simps ev append_Nil2 same by simp
qed

lemma claim_step:
  assumes graph: "exec_graph graph"
    and inv: "async_inv graph candidates flags zeros evs (us @ Checking c [] n # vs, sh)"
  shows "async_inv graph candidates flags zeros (evs @ [EvClaim c])
    (us @ Releasing c (cl_successors (g_clusters graph ! c)) # vs, claim_numbers graph candidates c n sh)"
proof -
  note I = async_invD [OF inv]
  let ?t = "Checking c [] n"
  let ?succs = "cl_successors (g_clusters graph ! c)"
  have fresh: "c \<notin> busy_of us \<union> busy_of vs" using shape_fresh(1) [OF I(2)] by simp
  have c: "c \<in> busy_of (us @ ?t # vs)" by simp
  have range: "c < length (g_clusters graph)" "c \<notin> set (claim_log evs)" using schedule_invD(4) [OF I(1) c] by auto
  have "task_ok graph candidates (body_log evs) ?t" using I(3) by (simp add: body_inv_def)
  then have log: "cluster_log graph (body_log evs) c = cluster_candidates graph candidates c"
    and n: "n = length (cluster_candidates graph candidates c)" by (simp_all add: task_ok_def)
  have sets: "busy_of (us @ Releasing c ?succs # vs) = busy_of (us @ ?t # vs) - {c}"
    "owed_of (us @ Releasing c ?succs # vs) = owed_of (us @ ?t # vs) \<union> {c} \<times> set ?succs"
    using fresh by auto
  have "tasks_inv graph flags (busy_of (us @ Releasing c ?succs # vs)) (owed_of (us @ Releasing c ?succs # vs))
      (claim_log evs @ [c]) (as_unresolved sh)"
    unfolding sets by (rule sched_claim [OF graph I(1) c])
  moreover have "shape_inv (us @ Releasing c ?succs # vs) (claim_log evs @ [c])"
    using I(2) cluster_pred_set(4) [OF graph range(1)] by (auto simp: shape_inv_def)
  moreover have "body_inv graph candidates (body_log evs) (claim_log evs @ [c]) (us @ Releasing c ?succs # vs)"
    using I(3) log unfolding body_inv_def by (simp add: task_ok_def)
  moreover have "sweep_order graph candidates (claim_log evs @ [c]) =
      sweep_order graph candidates (claim_log evs) @ cluster_candidates graph candidates c"
    by (simp add: sweep_order_def)
  ultimately show ?thesis
    using I(4,5) n unfolding async_inv_def prod.case log_simps
    by (simp add: claim_numbers_def complete_cluster_flat numbered_append)
qed

lemma release_step:
  assumes graph: "exec_graph graph"
    and inv: "async_inv graph candidates flags zeros evs (us @ Releasing c (d # left) # vs, sh)"
    and rel: "release_one flags d (as_unresolved sh) = (unresolved, new)"
  shows "async_inv graph candidates flags zeros (evs @ [EvRelease c d])
    (us @ (Releasing c left # new) @ vs, sh\<lparr>as_unresolved := unresolved\<rparr>)"
proof -
  note I = async_invD [OF inv]
  let ?ts = "us @ Releasing c (d # left) # vs"
  have cd: "(c, d) \<in> owed_of ?ts" by simp
  note released = sched_release [OF graph I(1) cd rel]
  have fresh: "(c, d) \<notin> owed_of us \<union> owed_of vs" using shape_fresh(2) [OF I(2), of d] by simp
  have dist: "d \<notin> set left" "distinct left" "c \<in> set (claim_log evs)"
    using I(2) unfolding shape_inv_def by (metis distinct.simps(2) in_set_conv_decomp)+
  consider "new = []" | "new = [Submitted d]" "d < length (g_clusters graph)" "d \<notin> busy_of ?ts \<union> set (claim_log evs)"
    using released(2) by blast
  then show ?thesis
  proof cases
    case 1
    have sets: "busy_of (us @ (Releasing c left # new) @ vs) = busy_of ?ts"
      "owed_of (us @ (Releasing c left # new) @ vs) = owed_of ?ts - {(c, d)}"
      using fresh dist(1) 1 by auto
    have "shape_inv (us @ (Releasing c left # new) @ vs) (claim_log evs)"
      using I(2) dist 1 unfolding shape_inv_def by auto
    moreover have "body_inv graph candidates (body_log evs) (claim_log evs) (us @ (Releasing c left # new) @ vs)"
      using body_inv_replace [OF I(3), of "Releasing c left"] 1 by simp
    ultimately show ?thesis using I(4,5) released(1) 1 unfolding async_inv_def prod.case log_simps sets by simp
  next
    case 2
    have sets: "busy_of (us @ (Releasing c left # new) @ vs) = busy_of ?ts \<union> {d}"
      "owed_of (us @ (Releasing c left # new) @ vs) = owed_of ?ts - {(c, d)}"
      using fresh dist(1) 2(1) by auto
    have out: "d \<notin> task_cluster ` set ?ts"
      using 2(3) shape_cluster [OF I(2)] by blast
    have "shape_inv (us @ (Releasing c left # new) @ vs) (claim_log evs)"
      using I(2) dist 2(1) out unfolding shape_inv_def by auto
    moreover have "body_inv graph candidates (body_log evs) (claim_log evs) (us @ (Releasing c left # new) @ vs)"
    proof -
      have "cluster_log graph (body_log evs) d = []"
        using I(3) out 2(2,3) unfolding body_inv_def by blast
      then have "task_ok graph candidates (body_log evs) (Submitted d)" by (simp add: task_ok_def)
      then show ?thesis
        using body_inv_replace [OF I(3), of "Releasing c left"] 2(1) unfolding body_inv_def by auto
    qed
    ultimately show ?thesis using I(4,5) released(1) 2(1) unfolding async_inv_def prod.case log_simps sets by simp
  qed
qed

lemma end_step:
  assumes inv: "async_inv graph candidates flags zeros evs (us @ Releasing c [] # vs, sh)"
  shows "async_inv graph candidates flags zeros (evs @ [EvEnd c]) (us @ [] @ vs, sh)"
proof -
  note I = async_invD [OF inv]
  have "c \<in> set (claim_log evs)" using I(2) unfolding shape_inv_def by (metis in_set_conv_decomp)
  then have "body_inv graph candidates (body_log evs) (claim_log evs) (us @ [] @ vs)"
    using I(3) unfolding body_inv_def by auto
  moreover have "shape_inv (us @ [] @ vs) (claim_log evs)" using I(2) by (auto simp: shape_inv_def)
  ultimately show ?thesis using I(1,4,5) by (simp add: async_inv_def)
qed

lemma async_inv_step:
  assumes graph: "exec_graph graph"
    and marks: "\<forall>i < op_count graph. candidates ! i \<longrightarrow> flags ! (g_opClusters graph ! i)"
    and inv: "async_inv graph candidates flags zeros evs a"
    and step: "async_step graph cb seeded candidates flags a ev a'"
  shows "async_inv graph candidates flags zeros (evs @ [ev]) a'"
  using step
proof cases
  case (act t sh ts sh' us vs)
  note inv = inv [unfolded act(1)]
  show ?thesis
  proof (cases t)
    case (Submitted c)
    then show ?thesis using act(2,3) inner_step [OF inv, of "Checking c (cluster_candidates graph candidates c) 0" ev sh]
      by auto
  next
    case (Checking c left n)
    show ?thesis
    proof (cases left)
      case Nil
      then show ?thesis using act(2,3) claim_step [OF graph, of candidates flags zeros evs us c n vs sh] inv Checking by auto
    next
      case (Cons i rest)
      then show ?thesis
        using act(2,3) Checking inner_step [OF inv, of "Active c i rest n" ev sh]
          body_step [OF graph marks inv, of "Checking c rest (n + 1)" i ev sh']
        by (auto split: if_splits)
    qed
  next
    case (Active c i rest n)
    then have run: "run_active graph cb seeded c i rest n sh = (ev, ts, sh')" using act(3) by simp
    then obtain t' where t': "ts = [t']" "t' = Checking c rest (n + 1) \<or> t' = Failing c rest (n + 1)"
      "event_body ev = [i]" "event_claim ev = []" "as_unresolved sh' = as_unresolved sh"
      "as_sequence sh' = as_sequence sh" "e_completion (as_exec sh') = e_completion (as_exec sh)"
      by (auto simp: run_active_def Let_def split: prod.splits if_splits)
    have "async_inv graph candidates flags zeros (evs @ [ev]) (us @ t' # vs, sh')"
      by (rule body_step [OF graph marks inv _ _ _ _ _ t'(3-7)]) (use t'(2) Active in auto)
    then show ?thesis using act(2) t'(1) by simp
  next
    case (Failing c rest n)
    then show ?thesis using act(2,3) inner_step [OF inv, of "Checking c rest n" ev sh'] by auto
  next
    case (Releasing c left)
    show ?thesis
    proof (cases left)
      case Nil
      then show ?thesis using act(2,3) Releasing end_step [of graph candidates flags zeros evs us c vs sh] inv by auto
    next
      case (Cons d rest)
      obtain u new where rel: "release_one flags d (as_unresolved sh) = (u, new)" by fastforce
      then show ?thesis
        using act(2,3) Releasing Cons release_step [OF graph _ rel, of candidates zeros evs us c rest vs] inv by auto
    qed
  qed
qed

lemma async_inv_trace:
  assumes graph: "exec_graph graph"
    and marks: "\<forall>i < op_count graph. candidates ! i \<longrightarrow> flags ! (g_opClusters graph ! i)"
    and start: "async_inv graph candidates flags zeros [] start"
    and "async_trace graph cb seeded candidates flags start evs a"
  shows "async_inv graph candidates flags zeros evs a"
  using assms(4) by induction (use start async_inv_step [OF graph marks] in blast)+

end
