(* ===== verification/Op_Confluence.thy ===== *)
theory Op_Confluence
  imports Op_Incremental
begin

text \<open>
  Any two topological sweeps of the same operations leave a value backend in the same state,
  from whatever valuation they start: the final state satisfies an equation per operation
  that mentions the order nowhere, and the equations have one solution.
\<close>

section \<open>The equations of a sweep\<close>

definition value_equation ::
  "compiled_graph \<Rightarrow> (nat \<Rightarrow> (value_id \<Rightarrow> 'v) \<Rightarrow> value_id \<Rightarrow> 'v) \<Rightarrow> nat set \<Rightarrow> 'v value_state \<Rightarrow> 'v value_state \<Rightarrow> nat \<Rightarrow> bool" where
  "value_equation graph eval mandatory start s i \<longleftrightarrow> (\<forall>v \<in> op_writes graph i.
     (let need = i \<in> mandatory \<or> op_reads graph i \<inter> snd s \<noteq> {} in
      fst s v = (if need then eval i (fst s) v else fst start v) \<and>
      (v \<in> snd s \<longleftrightarrow> v \<in> snd start \<or> (need \<and> eval i (fst s) v \<noteq> fst start v))))"

definition value_solution ::
  "compiled_graph \<Rightarrow> (nat \<Rightarrow> (value_id \<Rightarrow> 'v) \<Rightarrow> value_id \<Rightarrow> 'v) \<Rightarrow> nat set \<Rightarrow> 'v value_state \<Rightarrow> nat set \<Rightarrow> 'v value_state \<Rightarrow> bool" where
  "value_solution graph eval mandatory start P s \<longleftrightarrow>
     (\<forall>i \<in> P. value_equation graph eval mandatory start s i) \<and>
     (\<forall>v. (\<forall>i \<in> P. v \<notin> op_writes graph i) \<longrightarrow> fst s v = fst start v \<and> (v \<in> snd s \<longleftrightarrow> v \<in> snd start))"

lemma value_equation_local:
  assumes "reads_only graph eval"
    and "\<forall>v \<in> op_reads graph i \<union> op_writes graph i. fst s v = fst t v \<and> (v \<in> snd s \<longleftrightarrow> v \<in> snd t)"
    and "value_equation graph eval mandatory start s i"
  shows "value_equation graph eval mandatory start t i"
proof -
  have "eval i (fst s) = eval i (fst t)" using assms(1,2) unfolding reads_only_def by blast
  moreover have "op_reads graph i \<inter> snd s \<noteq> {} \<longleftrightarrow> op_reads graph i \<inter> snd t \<noteq> {}" using assms(2) by blast
  ultimately show ?thesis using assms(2,3) unfolding value_equation_def Let_def by auto
qed

definition value_move ::
  "compiled_graph \<Rightarrow> (nat \<Rightarrow> (value_id \<Rightarrow> 'v) \<Rightarrow> value_id \<Rightarrow> 'v) \<Rightarrow> nat set \<Rightarrow> nat \<Rightarrow> 'v value_state \<Rightarrow> 'v value_state" where
  "value_move graph eval mandatory i s =
     (if i \<in> mandatory \<or> op_reads graph i \<inter> snd s \<noteq> {}
      then (write_outputs graph eval i (fst s), snd s \<union> {v \<in> op_writes graph i. eval i (fst s) v \<noteq> fst s v}) else s)"

lemma value_move_other:
  assumes "v \<notin> op_writes graph i"
  shows "fst (value_move graph eval mandatory i s) v = fst s v"
    "v \<in> snd (value_move graph eval mandatory i s) \<longleftrightarrow> v \<in> snd s"
  using assms by (auto simp: value_move_def write_outputs_def)

lemma value_solution_move:
  assumes graph: "dataflow graph" "exec_graph graph" "reads_only graph eval"
    and i: "i < op_count graph" "i \<notin> P" and P: "P \<subseteq> {..<op_count graph}"
    and last: "\<forall>j \<in> P. i \<notin> set (op_predecessors (g_ops graph ! j))"
    and sol: "value_solution graph eval mandatory start P s"
  shows "value_solution graph eval mandatory start (insert i P) (value_move graph eval mandatory i s)"
proof -
  let ?s = "value_move graph eval mandatory i s"
  have apart: "op_writes graph i \<inter> (op_reads graph j \<union> op_writes graph j) = {}" if j: "j \<in> P" for j
  proof -
    have range: "j < op_count graph" "j \<noteq> i" using j P i(2) by auto
    have "op_writes graph i \<inter> op_reads graph j = {}"
      using last dataflowD(1) [OF graph(1) i(1) range(1)] j by blast
    moreover have "op_writes graph i \<inter> op_writes graph j = {}"
      using dataflowD(2) [OF graph(1) i(1) range(1)] range(2) by blast
    ultimately show ?thesis by blast
  qed
  have own: "op_writes graph i \<inter> op_reads graph i = {}"
  proof -
    have "v \<notin> op_reads graph i" if "v \<in> op_writes graph i" for v
      using dataflowD(1) [OF graph(1) i(1) i(1) that] exec_graph_succ(1) [OF graph(2), of i i] by blast
    then show ?thesis by blast
  qed
  have "value_equation graph eval mandatory start ?s j" if j: "j \<in> P" for j
  proof (rule value_equation_local [OF graph(3)])
    show "value_equation graph eval mandatory start s j" using sol j by (simp add: value_solution_def)
    show "\<forall>v \<in> op_reads graph j \<union> op_writes graph j. fst s v = fst ?s v \<and> (v \<in> snd s \<longleftrightarrow> v \<in> snd ?s)"
    proof
      fix v assume "v \<in> op_reads graph j \<union> op_writes graph j"
      then have "v \<notin> op_writes graph i" using apart [OF j] by blast
      then show "fst s v = fst ?s v \<and> (v \<in> snd s \<longleftrightarrow> v \<in> snd ?s)" by (simp add: value_move_other)
    qed
  qed
  moreover have "value_equation graph eval mandatory start ?s i"
  proof -
    have reads: "\<forall>v \<in> op_reads graph i. fst s v = fst ?s v \<and> (v \<in> snd s \<longleftrightarrow> v \<in> snd ?s)"
    proof
      fix v assume "v \<in> op_reads graph i"
      then have "v \<notin> op_writes graph i" using own by blast
      then show "fst s v = fst ?s v \<and> (v \<in> snd s \<longleftrightarrow> v \<in> snd ?s)" by (simp add: value_move_other)
    qed
    then have need: "op_reads graph i \<inter> snd ?s \<noteq> {} \<longleftrightarrow> op_reads graph i \<inter> snd s \<noteq> {}" by blast
    have eval: "eval i (fst ?s) = eval i (fst s)"
      using reads graph(3) unfolding reads_only_def by metis
    have before: "fst s v = fst start v \<and> (v \<in> snd s \<longleftrightarrow> v \<in> snd start)" if "v \<in> op_writes graph i" for v
      using sol apart that unfolding value_solution_def by blast
    show ?thesis
      unfolding value_equation_def Let_def need eval
      using before by (auto simp: value_move_def write_outputs_def)
  qed
  moreover have "fst ?s v = fst start v \<and> (v \<in> snd ?s \<longleftrightarrow> v \<in> snd start)" if "\<forall>j \<in> insert i P. v \<notin> op_writes graph j" for v
    using sol that value_move_other [of v graph i eval mandatory s] unfolding value_solution_def by simp
  ultimately show ?thesis unfolding value_solution_def by simp
qed

lemma value_solution_unique:
  assumes graph: "dataflow graph" "exec_graph graph" "reads_only graph eval" and P: "P \<subseteq> {..<op_count graph}"
    and sol: "value_solution graph eval mandatory start P s" "value_solution graph eval mandatory start P t"
  shows "s = t"
proof -
  let ?same = "\<lambda>v. fst s v = fst t v \<and> (v \<in> snd s \<longleftrightarrow> v \<in> snd t)"
  have outside: "?same v" if "\<forall>i \<in> P. v \<notin> op_writes graph i" for v
    using sol that unfolding value_solution_def by simp
  have "\<forall>v \<in> op_writes graph i. ?same v" if "i \<in> P" for i
    using that
  proof (induction i rule: less_induct)
    case (less i)
    have i: "i < op_count graph" using P less.prems by auto
    have reads: "?same v" if v: "v \<in> op_reads graph i" for v
    proof (cases "\<exists>p \<in> P. v \<in> op_writes graph p")
      case True
      then obtain p where p: "p \<in> P" "v \<in> op_writes graph p" by blast
      then have "p < op_count graph" using P by blast
      then have "p < i" using dataflowD(1) [OF graph(1) _ i p(2) v] exec_graph_succ(1) [OF graph(2)] by blast
      then show ?thesis using less.IH p by blast
    qed (use outside in blast)
    then have need: "op_reads graph i \<inter> snd s \<noteq> {} \<longleftrightarrow> op_reads graph i \<inter> snd t \<noteq> {}" by blast
    have eval: "eval i (fst s) = eval i (fst t)" using reads graph(3) unfolding reads_only_def by blast
    have "value_equation graph eval mandatory start s i" "value_equation graph eval mandatory start t i"
      using sol less.prems unfolding value_solution_def by blast+
    then show ?case unfolding value_equation_def Let_def need eval by simp
  qed
  then have "?same v" for v using outside by blast
  then show ?thesis by (auto intro: prod_eqI)
qed

section \<open>Sweeps\<close>

lemma value_sweep_solution:
  assumes graph: "dataflow graph" "exec_graph graph" "reads_only graph eval"
    and order: "topological_sweep graph bodies" "set bodies \<subseteq> {..<op_count graph}"
    and e: "e_succeeded e"
    and seeded: "\<forall>i < op_count graph. seeded ! i \<longleftrightarrow> i \<in> mandatory"
  shows "bodies = xs @ ys \<Longrightarrow> e_succeeded (foldl (op_body graph (value_backend graph eval) seeded) e xs) \<and>
     value_solution graph eval mandatory (e_state e) (set xs)
       (e_state (foldl (op_body graph (value_backend graph eval) seeded) e xs))"
proof (induction xs arbitrary: ys rule: rev_induct)
  case Nil
  then show ?case using e by (simp add: value_solution_def)
next
  case (snoc i xs)
  let ?e = "foldl (op_body graph (value_backend graph eval) seeded) e xs"
  have split: "bodies = xs @ i # ys" using snoc.prems by simp
  from snoc.IH [OF split] have ok: "e_succeeded ?e"
    and sol: "value_solution graph eval mandatory (e_state e) (set xs) (e_state ?e)" by simp_all
  have i: "i < op_count graph" "i \<notin> set xs" using order split by (auto simp: topological_sweep_def)
  have P: "set xs \<subseteq> {..<op_count graph}" using order(2) split by auto
  have last: "\<forall>j \<in> set xs. i \<notin> set (op_predecessors (g_ops graph ! j))"
    using later_not_pred [OF order(1) split] by blast
  have "seeded ! i \<longleftrightarrow> i \<in> mandatory" using seeded i(1) by blast
  then have "e_succeeded (op_body graph (value_backend graph eval) seeded ?e i)"
    "e_state (op_body graph (value_backend graph eval) seeded ?e i) = value_move graph eval mandatory i (e_state ?e)"
    using value_body [OF ok, of "fst (e_state ?e)" "snd (e_state ?e)" graph eval seeded i]
    by (simp_all add: value_move_def)
  then show ?case using value_solution_move [OF graph i P last sol] by simp
qed

lemma sweeps_agree:
  assumes graph: "dataflow graph" "exec_graph graph" "reads_only graph eval"
    and order: "topological_sweep graph xs" "topological_sweep graph ys" "set xs = set ys" "set xs \<subseteq> {..<op_count graph}"
  shows "e_state (flat_sweep graph (value_backend graph eval) M A xs s) =
      e_state (flat_sweep graph (value_backend graph eval) M A ys s) \<and>
    e_succeeded (flat_sweep graph (value_backend graph eval) M A xs s)"
proof -
  define e where "e = \<lparr>e_ran = replicate (op_count graph) False, e_completion = replicate (op_count graph) 0,
      e_succeeded = True, e_state = skip_others graph (value_backend graph eval) (flags_of (op_count graph) A) s\<rparr>"
  have seeded: "\<forall>i < op_count graph. flags_of (op_count graph) M ! i \<longleftrightarrow> i \<in> M" by simp
  have e: "e_succeeded e" by (simp add: e_def)
  have range: "set ys \<subseteq> {..<op_count graph}" using order(3,4) by simp
  note one = value_sweep_solution [OF graph order(1,4) e seeded, of xs "[]", simplified]
  note two = value_sweep_solution [OF graph order(2) range e seeded, of ys "[]", simplified, folded order(3)]
  show ?thesis
    unfolding flat_sweep_def e_def [symmetric]
    using value_solution_unique [OF graph order(4) conjunct2 [OF one] conjunct2 [OF two]] one by blast
qed

end
