(* ===== verification/Op_Outcome.thy ===== *)
theory Op_Outcome
  imports Op_Async Op_Confluence
begin

text \<open>
  What the asynchronous path leaves behind. The flags follow the events whatever the order of
  the actions; with the schedule invariant of the plan this describes every joined run.
\<close>

section \<open>Flags and events\<close>

definition outcome_inv ::
  "compiled_graph \<Rightarrow> 's op_callbacks \<Rightarrow> bool list \<Rightarrow> 's exec_state \<Rightarrow> async_event list \<Rightarrow> 's async_state \<Rightarrow> bool" where
  "outcome_inv graph cb seeded e0 evs = (\<lambda>(ts, sh).
     (e_succeeded (as_exec sh) \<longleftrightarrow> EvCancel \<notin> set evs) \<and>
     ((\<exists>i. EvRun i False \<in> set evs) \<longleftrightarrow> EvCancel \<in> set evs \<or> (\<exists>c left n. Failing c left n \<in> set ts)) \<and>
     length (e_ran (as_exec sh)) = length (e_ran e0) \<and>
     (\<forall>i < length (e_ran e0). e_ran (as_exec sh) ! i \<longleftrightarrow> e_ran e0 ! i \<or> (\<exists>ok. EvRun i ok \<in> set evs)) \<and>
     ((\<forall>i. EvRun i False \<notin> set evs) \<longrightarrow>
        as_exec sh = (foldl (op_body graph cb seeded) e0 (body_log evs))\<lparr>e_completion := e_completion (as_exec sh)\<rparr>))"

lemma outcome_invD:
  assumes "outcome_inv graph cb seeded e0 evs (ts, sh)"
  shows "e_succeeded (as_exec sh) \<longleftrightarrow> EvCancel \<notin> set evs"
    "(\<exists>i. EvRun i False \<in> set evs) \<longleftrightarrow> EvCancel \<in> set evs \<or> (\<exists>c left n. Failing c left n \<in> set ts)"
    "length (e_ran (as_exec sh)) = length (e_ran e0)"
    "i < length (e_ran e0) \<Longrightarrow> e_ran (as_exec sh) ! i \<longleftrightarrow> e_ran e0 ! i \<or> (\<exists>ok. EvRun i ok \<in> set evs)"
    "\<forall>i. EvRun i False \<notin> set evs \<Longrightarrow>
        as_exec sh = (foldl (op_body graph cb seeded) e0 (body_log evs))\<lparr>e_completion := e_completion (as_exec sh)\<rparr>"
  using assms by (simp_all add: outcome_inv_def)

text \<open>An action that neither runs an operation nor stores the verdict.\<close>

lemma outcome_quiet:
  assumes inv: "outcome_inv graph cb seeded e0 evs (us @ t # vs, sh)"
    and t: "\<nexists>c left n. t = Failing c left n" "\<forall>t \<in> set ts. \<nexists>c left n. t = Failing c left n"
    and ev: "ev \<noteq> EvCancel" "\<forall>i ok. ev \<noteq> EvRun i ok" "event_body ev = []"
    and sh: "as_exec sh' = (as_exec sh)\<lparr>e_completion := c\<rparr>"
  shows "outcome_inv graph cb seeded e0 (evs @ [ev]) (us @ ts @ vs, sh')"
proof -
  note I = outcome_invD [OF inv]
  have failing: "(\<exists>c left n. Failing c left n \<in> set (us @ ts @ vs)) \<longleftrightarrow> (\<exists>c left n. Failing c left n \<in> set (us @ t # vs))"
    using t by fastforce
  have runs: "EvRun i ok \<in> set (evs @ [ev]) \<longleftrightarrow> EvRun i ok \<in> set evs" for i ok using ev(2) by auto
  have cancel: "EvCancel \<in> set (evs @ [ev]) \<longleftrightarrow> EvCancel \<in> set evs" using ev(1) by auto
  have flat: "as_exec sh' = (foldl (op_body graph cb seeded) e0 (body_log evs))\<lparr>e_completion := e_completion (as_exec sh')\<rparr>"
    if "\<forall>i. EvRun i False \<notin> set evs"
    using I(5) [OF that] unfolding sh by (metis exec_state.surjective exec_state.update_convs(2) exec_state.select_convs(2))
  show ?thesis
    unfolding outcome_inv_def prod.case failing runs cancel log_simps ev(3) append_Nil2
  proof (intro conjI allI impI)
    show "as_exec sh' = (foldl (op_body graph cb seeded) e0 (body_log evs))\<lparr>e_completion := e_completion (as_exec sh')\<rparr>"
      if "\<forall>i. EvRun i False \<notin> set evs" by (rule flat [OF that])
  qed (use I in \<open>simp_all add: sh\<close>)
qed

lemma outcome_skip:
  assumes inv: "outcome_inv graph cb seeded e0 evs (us @ t # vs, sh)"
    and t: "\<nexists>c left n. t = Failing c left n" "\<nexists>c left n. t' = Failing c left n"
    and sh: "as_exec sh' = (as_exec sh)\<lparr>e_state := s\<rparr>"
    and body: "e_succeeded (as_exec sh) \<Longrightarrow> op_body graph cb seeded (as_exec sh) i = (as_exec sh)\<lparr>e_state := s\<rparr>"
  shows "outcome_inv graph cb seeded e0 (evs @ [EvSkip i]) (us @ t' # vs, sh')"
proof -
  note I = outcome_invD [OF inv]
  have failing: "(\<exists>c left n. Failing c left n \<in> set (us @ t' # vs)) \<longleftrightarrow> (\<exists>c left n. Failing c left n \<in> set (us @ t # vs))"
    using t by fastforce
  have runs: "EvRun j ok \<in> set (evs @ [EvSkip i]) \<longleftrightarrow> EvRun j ok \<in> set evs" for j ok by auto
  have cancel: "EvCancel \<in> set (evs @ [EvSkip i]) \<longleftrightarrow> EvCancel \<in> set evs" by auto
  have flat: "as_exec sh' = (foldl (op_body graph cb seeded) e0 (body_log evs @ [i]))\<lparr>e_completion := e_completion (as_exec sh')\<rparr>"
    if none: "\<forall>i. EvRun i False \<notin> set evs"
  proof -
    have "e_succeeded (as_exec sh)" using I(1,2) none by blast
    from body [OF this] have new: "as_exec sh' = op_body graph cb seeded (as_exec sh) i" using sh by simp
    define e where "e = foldl (op_body graph cb seeded) e0 (body_log evs)"
    have "as_exec sh' = (op_body graph cb seeded e i)\<lparr>e_completion := e_completion (as_exec sh)\<rparr>"
      unfolding new by (subst I(5) [OF none, folded e_def]) (simp add: op_body_completion)
    moreover have "e_completion (as_exec sh') = e_completion (as_exec sh)" by (simp add: sh)
    ultimately show ?thesis by (simp add: e_def)
  qed
  show ?thesis
    unfolding outcome_inv_def prod.case failing runs cancel log_simps event_body.simps
  proof (intro conjI allI impI)
    show "as_exec sh' = (foldl (op_body graph cb seeded) e0 (body_log evs @ [i]))\<lparr>e_completion := e_completion (as_exec sh')\<rparr>"
      if "\<forall>i. EvRun i False \<notin> set evs" by (rule flat [OF that])
  qed (use I in \<open>simp_all add: sh\<close>)
qed

lemma outcome_run:
  assumes inv: "outcome_inv graph cb seeded e0 evs (us @ t # vs, sh)"
    and t: "\<nexists>c left n. t = Failing c left n" "t' = (if ok then Checking c left n else Failing c left n)"
    and sh: "as_exec sh' = (as_exec sh)\<lparr>e_ran := (e_ran (as_exec sh))[i := True], e_state := s\<rparr>"
    and body: "e_succeeded (as_exec sh) \<Longrightarrow> ok \<Longrightarrow> op_body graph cb seeded (as_exec sh) i = as_exec sh'"
  shows "outcome_inv graph cb seeded e0 (evs @ [EvRun i ok]) (us @ t' # vs, sh')"
proof -
  note I = outcome_invD [OF inv]
  have failing: "(\<exists>c left n. Failing c left n \<in> set (us @ t' # vs)) \<longleftrightarrow>
      \<not> ok \<or> (\<exists>c left n. Failing c left n \<in> set (us @ t # vs))"
    using t by (cases ok) fastforce+
  have cancel: "EvCancel \<in> set (evs @ [EvRun i ok]) \<longleftrightarrow> EvCancel \<in> set evs" by auto
  have "as_exec sh' = (foldl (op_body graph cb seeded) e0 (body_log evs @ [i]))\<lparr>e_completion := e_completion (as_exec sh')\<rparr>"
    if none: "\<forall>j. EvRun j False \<notin> set (evs @ [EvRun i ok])"
  proof -
    have none': "\<forall>j. EvRun j False \<notin> set evs" and "ok" using none by auto
    have "e_succeeded (as_exec sh)" using I(1,2) none' by blast
    from body [OF this \<open>ok\<close>] have new: "as_exec sh' = op_body graph cb seeded (as_exec sh) i" by simp
    define e where "e = foldl (op_body graph cb seeded) e0 (body_log evs)"
    have "as_exec sh' = (op_body graph cb seeded e i)\<lparr>e_completion := e_completion (as_exec sh)\<rparr>"
      unfolding new by (subst I(5) [OF none', folded e_def]) (simp add: op_body_completion)
    moreover have "e_completion (as_exec sh') = e_completion (as_exec sh)" by (simp add: sh)
    ultimately show ?thesis by (simp add: e_def)
  qed
  note flat = this
  have "e_ran (as_exec sh') ! j \<longleftrightarrow> e_ran e0 ! j \<or> (\<exists>ok'. EvRun j ok' \<in> set (evs @ [EvRun i ok]))"
    if "j < length (e_ran e0)" for j
    using I(3) I(4) [OF that] that by (cases "j = i") (auto simp: sh)
  moreover have "(\<exists>j. EvRun j False \<in> set (evs @ [EvRun i ok])) \<longleftrightarrow> \<not> ok \<or> (\<exists>j. EvRun j False \<in> set evs)" by auto
  ultimately show ?thesis
    unfolding outcome_inv_def prod.case failing cancel log_simps event_body.simps
    using I(1-3) flat by (simp add: sh)
qed

lemma outcome_cancel:
  assumes inv: "outcome_inv graph cb seeded e0 evs (us @ Failing c left n # vs, sh)"
    and sh: "as_exec sh' = (as_exec sh)\<lparr>e_succeeded := False\<rparr>"
  shows "outcome_inv graph cb seeded e0 (evs @ [EvCancel]) (us @ Checking c left n # vs, sh')"
proof -
  note I = outcome_invD [OF inv]
  have fail: "\<exists>i. EvRun i False \<in> set evs" using I(2) by auto
  have runs: "EvRun i ok \<in> set (evs @ [EvCancel]) \<longleftrightarrow> EvRun i ok \<in> set evs" for i ok by auto
  show ?thesis
    unfolding outcome_inv_def prod.case runs using I(3,4) fail by (auto simp: sh)
qed

lemma outcome_step:
  assumes inv: "outcome_inv graph cb seeded e0 evs a"
    and step: "async_step graph cb seeded candidates flags a ev a'"
  shows "outcome_inv graph cb seeded e0 (evs @ [ev]) a'"
  using step
proof cases
  case (act t sh ts sh' us vs)
  note inv = inv [unfolded act(1)]
  show ?thesis
  proof (cases t)
    case (Submitted c)
    then show ?thesis using act(2,3) outcome_quiet [OF inv, of ts ev sh' "e_completion (as_exec sh)"] by auto
  next
    case (Checking c left n)
    show ?thesis
    proof (cases left)
      case Nil
      then show ?thesis
        using act(2,3) Checking outcome_quiet [OF inv, of ts ev sh' "e_completion (as_exec sh')"]
        by (auto simp: claim_numbers_def)
    next
      case (Cons i rest)
      show ?thesis
      proof (cases "e_succeeded (as_exec sh)")
        case True
        then show ?thesis
          using act(2,3) Checking Cons outcome_quiet [OF inv, of ts ev sh' "e_completion (as_exec sh)"] by auto
      next
        case False
        then show ?thesis
          using act(2,3) Checking Cons
            outcome_skip [OF inv, of "Checking c rest (n + 1)" sh' "cb_skip cb i (e_state (as_exec sh))" i] by auto
      qed
    qed
  next
    case (Active c i rest n)
    obtain needed s where need: "op_needed graph cb seeded i (e_state (as_exec sh)) = (needed, s)" by fastforce
    have run: "run_active graph cb seeded c i rest n sh = (ev, ts, sh')" using act(3) Active by simp
    show ?thesis
    proof (cases needed)
      case True
      obtain ok s' where ok: "cb_run cb i s = (ok, s')" by fastforce
      have ev: "ev = EvRun i ok" "ts = [if ok then Checking c rest (n + 1) else Failing c rest (n + 1)]"
        and sh: "as_exec sh' = (as_exec sh)\<lparr>e_ran := (e_ran (as_exec sh))[i := True], e_state := s'\<rparr>"
        using run by (auto simp: run_active_def Let_def need True ok)
      have "outcome_inv graph cb seeded e0 (evs @ [EvRun i ok])
          (us @ (if ok then Checking c rest (n + 1) else Failing c rest (n + 1)) # vs, sh')"
        by (rule outcome_run [OF inv _ refl sh]) (simp_all add: Active op_body_def need True ok sh)
      then show ?thesis using act(2) ev by simp
    next
      case False
      have ev: "ev = EvSkip i" "ts = [Checking c rest (n + 1)]"
        and sh: "as_exec sh' = (as_exec sh)\<lparr>e_state := cb_skip cb i s\<rparr>"
        using run by (auto simp: run_active_def Let_def need False)
      have "outcome_inv graph cb seeded e0 (evs @ [EvSkip i]) (us @ Checking c rest (n + 1) # vs, sh')"
        by (rule outcome_skip [OF inv _ _ sh]) (simp_all add: Active op_body_def need False)
      then show ?thesis using act(2) ev by simp
    qed
  next
    case (Failing c rest n)
    then show ?thesis using act(2,3) outcome_cancel [of graph cb seeded e0 evs us c rest n vs sh sh'] inv by auto
  next
    case (Releasing c left)
    show ?thesis
    proof (cases left)
      case Nil
      then show ?thesis using act(2,3) Releasing outcome_quiet [OF inv, of ts ev sh' "e_completion (as_exec sh)"] by auto
    next
      case (Cons d rest)
      obtain u new where rel: "release_one flags d (as_unresolved sh) = (u, new)" by fastforce
      have "\<forall>t \<in> set new. \<nexists>c left n. t = Failing c left n"
        using rel by (auto simp: release_one_def split: if_splits)
      then show ?thesis
        using act(2,3) Releasing Cons rel outcome_quiet [OF inv, of ts ev sh' "e_completion (as_exec sh)"] by auto
    qed
  qed
qed

lemma outcome_trace:
  assumes "async_trace graph cb seeded candidates flags (map Submitted ready, sh) evs a" "e_succeeded (as_exec sh)"
  shows "outcome_inv graph cb seeded (as_exec sh) evs a"
  using assms(1)
proof induction
  case begins
  then show ?case using assms(2) by (auto simp: outcome_inv_def)
qed (use outcome_step in blast)

end
