(* ===== verification/Op_Async_Claims.thy ===== *)
theory Op_Async_Claims
  imports Op_Outcome Op_Exec_Claims
begin

text \<open>
  The properties of the asynchronous path: safety of every moment of a run, liveness, what a
  joined run leaves behind, and its agreement with the serial path.
\<close>

section \<open>The plan of a dispatched execution\<close>

definition dispatch_plan ::
  "compiled_graph \<Rightarrow> value_id list \<Rightarrow> nat list \<Rightarrow> bool \<Rightarrow> 's op_callbacks \<Rightarrow> op_execution \<Rightarrow> op_workspace option \<Rightarrow>
     nat list option \<Rightarrow> 's \<Rightarrow> 's run_plan" where
  "dispatch_plan graph changedLeaves seedOps force cb out supplied candidateOps s =
     (let (complete, x, w) = RigExecOpResetExecution (Some out)
            (Some (case supplied of None \<Rightarrow> fresh_workspace | Some w \<Rightarrow> w)) (length (g_ops graph)) (length (g_clusters graph))
      in plan_run graph changedLeaves seedOps force cb ((the x)\<lparr>x_touchedValid := False\<rparr>)
           ((the w)\<lparr>w_listsValid := False\<rparr>) candidateOps s)"

definition plan_ok :: "compiled_graph \<Rightarrow> 's op_callbacks \<Rightarrow> nat set \<Rightarrow> nat set \<Rightarrow> 's \<Rightarrow> 's run_plan \<Rightarrow> bool" where
  "plan_ok graph cb M A s p \<longleftrightarrow> exec_graph graph \<and> A \<subseteq> {..<op_count graph} \<and> M \<subseteq> A \<and>
     rp_seeded p = flags_of (op_count graph) M \<and> rp_candidates p = flags_of (op_count graph) A \<and>
     set (rp_pending p) = A \<and> rp_marks p = flags_of (length (g_clusters graph)) ((\<lambda>i. g_opClusters graph ! i) ` A) \<and>
     rp_start p = \<lparr>e_ran = replicate (op_count graph) False, e_completion = replicate (op_count graph) 0, e_succeeded = True,
        e_state = skip_others graph cb (flags_of (op_count graph) A) s\<rparr> \<and>
     run_inv graph (rp_marks p) (rp_unresolved p) (rp_ready p) 0"

lemma plan_okD:
  assumes "plan_ok graph cb M A s p"
  shows "exec_graph graph" "A \<subseteq> {..<op_count graph}" "M \<subseteq> A" "rp_seeded p = flags_of (op_count graph) M"
    "rp_candidates p = flags_of (op_count graph) A" "set (rp_pending p) = A"
    "rp_marks p = flags_of (length (g_clusters graph)) ((\<lambda>i. g_opClusters graph ! i) ` A)"
    "rp_start p = \<lparr>e_ran = replicate (op_count graph) False, e_completion = replicate (op_count graph) 0, e_succeeded = True,
        e_state = skip_others graph cb (flags_of (op_count graph) A) s\<rparr>"
    "run_inv graph (rp_marks p) (rp_unresolved p) (rp_ready p) 0"
  using assms unfolding plan_ok_def by blast+

lemma plan_run_ok:
  assumes "exec_ready graph seedOps cb out supplied candidateOps"
    and "clean_execution (op_count graph) x" "clean_workspace (op_count graph) (length (g_clusters graph)) w"
  shows "plan_ok graph cb (mandatory_set graph seedOps force) (targets graph changedLeaves seedOps force candidateOps) s
    (plan_run graph changedLeaves seedOps force cb (x\<lparr>x_touchedValid := False\<rparr>) (w\<lparr>w_listsValid := False\<rparr>) candidateOps s)"
proof -
  have g: "exec_graph graph" "execute_checks graph seedOps cb candidateOps = Inr ()" using assms(1) by (simp_all add: exec_ready_def)
  have clean: "x_candidates (x\<lparr>x_touchedValid := False\<rparr>) = replicate (op_count graph) False"
    "x_ran (x\<lparr>x_touchedValid := False\<rparr>) = replicate (op_count graph) False"
    "x_completion (x\<lparr>x_touchedValid := False\<rparr>) = replicate (op_count graph) 0"
    "w_seeded (w\<lparr>w_listsValid := False\<rparr>) = replicate (op_count graph) False"
    "w_clusterCandidates (w\<lparr>w_listsValid := False\<rparr>) = replicate (length (g_clusters graph)) False"
    using assms(2,3) by (simp_all add: clean_execution_def clean_workspace_def)
  from plan_run_spec [OF g(1) execute_checks_range [OF g(2)] clean refl, of changedLeaves force cb s] show ?thesis
    by (elim exE conjE) (simp add: plan_ok_def g(1))
qed

lemma dispatch_resets:
  assumes "exec_ready graph seedOps cb out supplied candidateOps"
  obtains x w where "RigExecOpResetExecution (Some out) (Some (case supplied of None \<Rightarrow> fresh_workspace | Some w \<Rightarrow> w))
       (length (g_ops graph)) (length (g_clusters graph)) = (True, Some x, Some w)"
    "clean_execution (op_count graph) x" "clean_workspace (op_count graph) (length (g_clusters graph)) w"
proof -
  have "workspace_record (case supplied of None \<Rightarrow> fresh_workspace | Some w \<Rightarrow> w)" "execution_record out"
    using assms by (cases supplied; simp add: exec_ready_def)+
  from reset_spec [OF this(2,1), of "op_count graph" "length (g_clusters graph)"] show thesis using that by metis
qed

lemma dispatch_plan_ok:
  assumes "exec_ready graph seedOps cb out supplied candidateOps"
  shows "plan_ok graph cb (mandatory_set graph seedOps force) (targets graph changedLeaves seedOps force candidateOps) s
    (dispatch_plan graph changedLeaves seedOps force cb out supplied candidateOps s)"
proof -
  from dispatch_resets [OF assms] obtain x w where
    "RigExecOpResetExecution (Some out) (Some (case supplied of None \<Rightarrow> fresh_workspace | Some w \<Rightarrow> w))
       (length (g_ops graph)) (length (g_clusters graph)) = (True, Some x, Some w)"
    "clean_execution (op_count graph) x" "clean_workspace (op_count graph) (length (g_clusters graph)) w" .
  then show ?thesis using plan_run_ok [OF assms] by (simp add: dispatch_plan_def)
qed

section \<open>The invariants of a plan\<close>

lemma plan_marks:
  assumes "plan_ok graph cb M A s p"
  shows "\<forall>i < op_count graph. rp_candidates p ! i \<longrightarrow> rp_marks p ! (g_opClusters graph ! i)"
  using plan_okD [OF assms] op_cluster_range(1) by auto

lemma plan_async_start:
  assumes "plan_ok graph cb M A s p"
  shows "async_inv graph (rp_candidates p) (rp_marks p) (replicate (op_count graph) 0) [] (async_begin p)"
proof -
  note P = plan_okD [OF assms]
  have busy: "busy_of (map Submitted cs) = set cs" "owed_of (map Submitted cs) = {}" for cs
    by (auto simp: busy_of_def owed_of_def)
  have "distinct (rp_ready p)" using P(9) by (simp add: run_inv_def)
  then have "shape_inv (map Submitted (rp_ready p)) []" by (auto simp: shape_inv_def comp_def)
  moreover have "body_inv graph (rp_candidates p) [] [] (map Submitted (rp_ready p))"
    by (auto simp: body_inv_def task_ok_def preds_first_def)
  ultimately show ?thesis
    using sched_start [OF P(1,9)] by (simp add: async_inv_def async_begin_def busy P(8) sweep_order_def numbered_def)
qed

lemma plan_trace_inv:
  assumes "plan_ok graph cb M A s p" "plan_trace graph cb p evs a"
  shows "async_inv graph (rp_candidates p) (rp_marks p) (replicate (op_count graph) 0) evs a"
    "outcome_inv graph cb (rp_seeded p) (rp_start p) evs a"
proof -
  note P = plan_okD [OF assms(1)]
  show "async_inv graph (rp_candidates p) (rp_marks p) (replicate (op_count graph) 0) evs a"
    by (rule async_inv_trace [OF P(1) plan_marks [OF assms(1)] plan_async_start [OF assms(1)] assms(2)])
  show "outcome_inv graph cb (rp_seeded p) (rp_start p) evs a"
    using outcome_trace [OF assms(2) [unfolded async_begin_def]] by (simp add: P(8))
qed

lemma distinct_by_key: "(\<And>c. distinct (filter (\<lambda>i. f i = c) xs)) \<Longrightarrow> distinct xs"
proof (induction xs)
  case (Cons x xs)
  have "distinct (filter (\<lambda>i. f i = c) xs)" for c using Cons.prems [of c] by (auto split: if_splits)
  moreover have "x \<notin> set xs" using Cons.prems [of "f x"] by auto
  ultimately show ?case using Cons.IH by simp
qed simp

lemma logged_cluster:
  assumes graph: "exec_graph graph" and inv: "async_inv graph candidates flags zeros evs (ts, sh)"
    and c: "c < length (g_clusters graph)"
  shows "\<exists>rest. cluster_candidates graph candidates c = cluster_log graph (body_log evs) c @ rest \<or>
     cluster_log graph (body_log evs) c = []"
proof -
  note I = async_invD(3) [OF inv]
  consider t where "t \<in> set ts" "task_cluster t = c" | "c \<in> set (claim_log evs)"
    | "c \<notin> task_cluster ` set ts \<union> set (claim_log evs)" by blast
  then show ?thesis
  proof cases
    case 1
    then have "task_ok graph candidates (body_log evs) t" using I by (simp add: body_inv_def)
    then show ?thesis using 1(2) unfolding task_ok_def by metis
  next
    case 2
    then have "cluster_log graph (body_log evs) c = cluster_candidates graph candidates c"
      using I by (simp add: body_inv_def)
    then show ?thesis by (metis append_Nil2)
  next
    case 3
    then have "cluster_log graph (body_log evs) c = []" using I c by (simp add: body_inv_def)
    then show ?thesis by simp
  qed
qed

lemma logged_bodies:
  assumes graph: "exec_graph graph" and inv: "async_inv graph candidates flags zeros evs (ts, sh)"
  shows "distinct (body_log evs)" "i \<in> set (body_log evs) \<Longrightarrow> i < op_count graph \<and> candidates ! i"
    "body_log evs = xs @ i # ys \<Longrightarrow> p \<in> set (op_predecessors (g_ops graph ! i)) \<Longrightarrow> candidates ! p \<Longrightarrow> p \<in> set xs"
proof -
  note I = async_invD(3) [OF inv]
  have range: "j < op_count graph" if "j \<in> set (body_log evs)" for j using I that by (simp add: body_inv_def)
  have part: "\<exists>rest. cluster_candidates graph candidates c = cluster_log graph (body_log evs) c @ rest \<or>
     cluster_log graph (body_log evs) c = []" if "c < length (g_clusters graph)" for c
    by (rule logged_cluster [OF graph inv that])
  show "distinct (body_log evs)"
  proof (rule distinct_by_key [where f = "\<lambda>i. g_opClusters graph ! i"])
    fix c
    show "distinct (cluster_log graph (body_log evs) c)"
    proof (cases "c < length (g_clusters graph)")
      case True
      have "distinct (cluster_candidates graph candidates c)"
        using cluster_candidates_sorted [OF graph True, of candidates] by (simp add: strict_sorted_iff)
      then show ?thesis using part [OF True] by (metis distinct.simps(1) distinct_append)
    next
      case False
      then have "cluster_log graph (body_log evs) c = []"
        using range op_cluster_range(1) [OF graph] by (fastforce simp: filter_empty_conv)
      then show ?thesis by simp
    qed
  qed
  show "i < op_count graph \<and> candidates ! i" if i: "i \<in> set (body_log evs)" for i
  proof -
    let ?c = "g_opClusters graph ! i"
    have "i \<in> set (cluster_log graph (body_log evs) ?c)" using i by simp
    moreover from this obtain rest where "cluster_candidates graph candidates ?c = cluster_log graph (body_log evs) ?c @ rest"
      using part [OF op_cluster_range(1) [OF graph range [OF i]]] by auto
    ultimately have "i \<in> set (cluster_candidates graph candidates ?c)" by simp
    then show ?thesis using range [OF i] by (simp add: cluster_candidates_def)
  qed
  show "p \<in> set xs" if "body_log evs = xs @ i # ys" "p \<in> set (op_predecessors (g_ops graph ! i))" "candidates ! p" for xs i ys p
    using I that unfolding body_inv_def preds_first_def by blast
qed

section \<open>A joined run\<close>

lemma joined_run:
  assumes plan: "plan_ok graph cb M A s p" and trace: "plan_trace graph cb p evs ([], sh)"
  shows "topological_sweep graph (body_log evs)" "set (body_log evs) = A"
    "topological_sweep graph (sweep_order graph (rp_candidates p) (claim_log evs))"
    "set (sweep_order graph (rp_candidates p) (claim_log evs)) = A"
    "e_completion (as_exec sh) = snd (numbered 0 (sweep_order graph (rp_candidates p) (claim_log evs)) (replicate (op_count graph) 0))"
    "e_succeeded (as_exec sh) \<longleftrightarrow> (\<forall>i. EvRun i False \<notin> set evs)"
    "length (e_ran (as_exec sh)) = op_count graph"
    "i < op_count graph \<Longrightarrow> e_ran (as_exec sh) ! i \<longleftrightarrow> (\<exists>ok. EvRun i ok \<in> set evs)"
    "\<forall>i. EvRun i False \<notin> set evs \<Longrightarrow> e_state (as_exec sh) = e_state (flat_sweep graph cb M A (body_log evs) s) \<and>
       e_ran (as_exec sh) = e_ran (flat_sweep graph cb M A (body_log evs) s)"
proof -
  note P = plan_okD [OF plan]
  note inv = plan_trace_inv [OF plan trace]
  note I = async_invD [OF inv(1)] and O = outcome_invD [OF inv(2)]
  have claimed: "set (claim_log evs) = {c. c < length (g_clusters graph) \<and> rp_marks p ! c}"
    using sched_end [OF P(1)] I(1) by simp
  have order: "\<forall>k < length (claim_log evs). waits (cluster_preds graph) (map Not (rp_marks p)) (take k (claim_log evs)) (claim_log evs ! k) = {}"
    using schedule_invD(9) [OF I(1)] by blast
  have sweep_set: "set (sweep_order graph (rp_candidates p) (claim_log evs)) = A"
  proof -
    have "set (sweep_order graph (rp_candidates p) (claim_log evs)) =
        {i. i < op_count graph \<and> rp_candidates p ! i \<and> g_opClusters graph ! i \<in> set (claim_log evs)}"
      by (rule sweep_order_set [OF P(1)]) (simp add: claimed)
    also have "\<dots> = A" using P(2) op_cluster_range(1) [OF P(1)] by (auto simp: claimed P(5,7))
    finally show ?thesis .
  qed
  then show "set (sweep_order graph (rp_candidates p) (claim_log evs)) = A" .
  show "topological_sweep graph (sweep_order graph (rp_candidates p) (claim_log evs))"
    by (rule sweep_topological [OF P(1) _ _ order _ plan_marks [OF plan]])
       (use claimed schedule_invD(2,3) [OF I(1)] in simp_all)
  have "i \<in> A \<longleftrightarrow> i \<in> set (body_log evs)" for i
  proof
    assume i: "i \<in> A"
    then have r: "i < op_count graph" using P(2) by blast
    let ?c = "g_opClusters graph ! i"
    have "?c \<in> set (claim_log evs)" using i r op_cluster_range(1) [OF P(1) r] by (auto simp: claimed P(7))
    then have "cluster_log graph (body_log evs) ?c = cluster_candidates graph (rp_candidates p) ?c"
      using I(3) by (simp add: body_inv_def)
    moreover have "i \<in> set (cluster_candidates graph (rp_candidates p) ?c)"
      using op_cluster_range(2) [OF P(1) r] i r by (simp add: cluster_candidates_def P(5))
    ultimately show "i \<in> set (body_log evs)" by (metis filter_is_subset subsetD)
  next
    assume "i \<in> set (body_log evs)"
    from logged_bodies(2) [OF P(1) inv(1) this] show "i \<in> A" by (auto simp: P(5))
  qed
  then show set_log: "set (body_log evs) = A" by blast
  show "topological_sweep graph (body_log evs)"
    unfolding topological_sweep_def
    using logged_bodies [OF P(1) inv(1)] by blast
  show "e_completion (as_exec sh) = snd (numbered 0 (sweep_order graph (rp_candidates p) (claim_log evs)) (replicate (op_count graph) 0))"
    by (rule I(5))
  show "e_succeeded (as_exec sh) \<longleftrightarrow> (\<forall>i. EvRun i False \<notin> set evs)" using O(1,2) by auto
  show "length (e_ran (as_exec sh)) = op_count graph" using O(3) by (simp add: P(8))
  show "e_ran (as_exec sh) ! i \<longleftrightarrow> (\<exists>ok. EvRun i ok \<in> set evs)" if "i < op_count graph" for i
    using O(4) [of i] that by (simp add: P(8))
  show "e_state (as_exec sh) = e_state (flat_sweep graph cb M A (body_log evs) s) \<and>
       e_ran (as_exec sh) = e_ran (flat_sweep graph cb M A (body_log evs) s)"
    if none: "\<forall>i. EvRun i False \<notin> set evs"
  proof -
    have "flat_sweep graph cb M A (body_log evs) s = foldl (op_body graph cb (rp_seeded p)) (rp_start p) (body_log evs)"
      by (simp add: flat_sweep_def P(4,8))
    then show ?thesis using O(5) [OF none] by (metis exec_state.select_convs(1,4) exec_state.surjective exec_state.update_convs(2))
  qed
qed

lemma joined_result:
  assumes ready: "exec_ready graph seedOps cb out supplied candidateOps"
    and run: "dispatch_op_graph graph changedLeaves seedOps force cb out supplied candidateOps s evs (err, x, ws, s')"
  obtains p sh where "plan_ok graph cb (mandatory_set graph seedOps force)
      (targets graph changedLeaves seedOps force candidateOps) s p" "plan_trace graph cb p evs ([], sh)"
    "err = (if e_succeeded (as_exec sh) then None else Some OperationFailed)" "s' = e_state (as_exec sh)"
    "x_candidates x = rp_candidates p" "x_ran x = e_ran (as_exec sh)" "x_completion x = e_completion (as_exec sh)"
    "x_touched x = filter (\<lambda>i. i \<in> targets graph changedLeaves seedOps force candidateOps) [0..<op_count graph]"
proof -
  have checks: "execute_checks graph seedOps cb candidateOps = Inr ()" using ready by (simp add: exec_ready_def)
  from dispatch_resets [OF ready] obtain x0 w0 where
    reset: "RigExecOpResetExecution (Some out) (Some (case supplied of None \<Rightarrow> fresh_workspace | Some w \<Rightarrow> w))
       (length (g_ops graph)) (length (g_clusters graph)) = (True, Some x0, Some w0)"
    "clean_execution (op_count graph) x0" "clean_workspace (op_count graph) (length (g_clusters graph)) w0" .
  define p where "p = plan_run graph changedLeaves seedOps force cb (x0\<lparr>x_touchedValid := False\<rparr>)
      (w0\<lparr>w_listsValid := False\<rparr>) candidateOps s"
  note plan = plan_run_ok [OF ready reset(2,3), of force changedLeaves s, folded p_def]
  from run obtain w where "execute_async graph changedLeaves seedOps force cb (x0\<lparr>x_touchedValid := False\<rparr>)
      (w0\<lparr>w_listsValid := False\<rparr>) candidateOps s evs (err, x, w, s')"
    by (cases rule: dispatchE) (use checks reset(1) in auto)
  then obtain sh where trace: "plan_trace graph cb p evs ([], sh)"
    and result: "(err, x, w, s') = finish_run graph (x0\<lparr>x_touchedValid := False\<rparr>) (w0\<lparr>w_listsValid := False\<rparr>) p
        (as_unresolved sh) (rp_ready p) (as_exec sh)"
    by (cases rule: execute_asyncE) (auto simp: p_def)
  note P = plan_okD [OF plan]
  show thesis
    by (rule that [OF plan trace])
       (use result finish_run_touched [of p graph, OF P(5,6,2)] in \<open>simp_all add: finish_run_def Let_def\<close>)
qed

lemma dispatch_returns:
  assumes ready: "exec_ready graph seedOps cb out supplied candidateOps"
  shows "\<exists>evs err x ws s'. dispatch_op_graph graph changedLeaves seedOps force cb out supplied candidateOps s evs (err, x, ws, s')"
proof -
  have checks: "execute_checks graph seedOps cb candidateOps = Inr ()" using ready by (simp add: exec_ready_def)
  from dispatch_resets [OF ready] obtain x0 w0 where
    reset: "RigExecOpResetExecution (Some out) (Some (case supplied of None \<Rightarrow> fresh_workspace | Some w \<Rightarrow> w))
       (length (g_ops graph)) (length (g_clusters graph)) = (True, Some x0, Some w0)" .
  define p where "p = plan_run graph changedLeaves seedOps force cb (x0\<lparr>x_touchedValid := False\<rparr>)
      (w0\<lparr>w_listsValid := False\<rparr>) candidateOps s"
  from async_joins [OF async_trace.begins, of graph cb "rp_seeded p" "rp_candidates p" "rp_marks p" "async_begin p"]
  obtain evs sh where "plan_trace graph cb p evs ([], sh)" by auto
  from execute_async.joined [OF p_def this] obtain err x w s' where
    "execute_async graph changedLeaves seedOps force cb (x0\<lparr>x_touchedValid := False\<rparr>) (w0\<lparr>w_listsValid := False\<rparr>)
      candidateOps s evs (err, x, w, s')" by (metis prod_cases4)
  from dispatch_op_graph.dispatched [OF checks reset this] show ?thesis by blast
qed

section \<open>The bound of a run\<close>

lemma plan_work:
  assumes "plan_ok graph cb M A s p"
  shows "work_left graph (rp_candidates p) (rp_marks p) (async_begin p) =
    (\<Sum>c | c < length (g_clusters graph) \<and> rp_marks p ! c. cluster_work graph (rp_candidates p) c)"
proof -
  let ?W = "cluster_work graph (rp_candidates p)" and ?u = "rp_unresolved p"
  let ?K = "length (g_clusters graph)" and ?m = "rp_marks p"
  have inv: "run_inv graph ?m ?u (rp_ready p) 0" using plan_okD(9) [OF assms] .
  have ready: "c \<in> set (rp_ready p) \<longleftrightarrow> ?u ! c = 0" if c: "c < ?K" "?m ! c" for c
  proof -
    have fin: "finite (waits (cluster_preds graph) (map Not ?m) (take 0 (rp_ready p)) c)" by (simp add: waits_def)
    have "?u ! c = card (waits (cluster_preds graph) (map Not ?m) (take 0 (rp_ready p)) c)"
      "c \<in> set (rp_ready p) \<longleftrightarrow> waits (cluster_preds graph) (map Not ?m) (take 0 (rp_ready p)) c = {}"
      using inv c unfolding run_inv_def by blast+
    then show ?thesis using card_0_eq [OF fin] by presburger
  qed
  have len: "length ?u = ?K" and range: "\<forall>c \<in> set (rp_ready p). c < ?K \<and> ?m ! c" and dist: "distinct (rp_ready p)"
    using inv by (simp_all add: run_inv_def)
  have split: "{c. c < ?K \<and> ?m ! c} = set (rp_ready p) \<union> {d. d < length ?u \<and> ?m ! d \<and> 0 < ?u ! d}"
    using ready range len by auto
  have "set (rp_ready p) \<inter> {d. d < length ?u \<and> ?m ! d \<and> 0 < ?u ! d} = {}" using ready range by auto
  then have "(\<Sum>c | c < ?K \<and> ?m ! c. ?W c) = (\<Sum>c \<in> set (rp_ready p). ?W c) + waiting_work graph (rp_candidates p) ?m ?u"
    unfolding split waiting_work_def by (subst sum.union_disjoint) simp_all
  moreover have "(\<Sum>c \<in> set (rp_ready p). ?W c) = sum_list (map (task_work graph (rp_candidates p)) (map Submitted (rp_ready p)))"
    using dist by (simp add: sum_list_distinct_conv_sum_set comp_def)
  ultimately show ?thesis by (simp add: work_left_def async_begin_def)
qed

text \<open>A backend whose operations never fail never cancels.\<close>

lemma run_event:
  assumes "task_step graph cb seeded candidates flags t sh = (EvRun i ok, ts, sh')"
  shows "\<exists>s. ok = fst (cb_run cb i s)"
proof (cases t)
  case (Active c j left n)
  obtain needed s where need: "op_needed graph cb seeded j (e_state (as_exec sh)) = (needed, s)" by fastforce
  obtain ok' s' where run: "cb_run cb j s = (ok', s')" by fastforce
  have "run_active graph cb seeded c j left n sh = (EvRun i ok, ts, sh')" using assms Active by simp
  then have "j = i \<and> ok' = ok" by (cases needed) (simp_all add: run_active_def Let_def need run)
  then have "ok = fst (cb_run cb i s)" using run by simp
  then show ?thesis ..
next
  case (Checking c left n)
  then show ?thesis using assms by (cases left) (auto split: if_splits)
next
  case (Releasing c left)
  then show ?thesis using assms by (cases left) (auto split: prod.splits)
qed (use assms in auto)

lemma trusty_trace:
  assumes "async_trace graph cb seeded candidates flags start evs a" "\<And>i s. fst (cb_run cb i s)"
  shows "\<forall>i. EvRun i False \<notin> set evs"
  using assms(1)
proof induction
  case (moves evs a ev a')
  have "ev \<noteq> EvRun i False" for i
    using moves(2)
  proof cases
    case (act t sh ts sh' us vs)
    then show ?thesis using run_event [of graph cb seeded candidates flags t sh i False ts sh'] assms(2) by auto
  qed
  then show ?case using moves.IH by auto
qed simp

section \<open>The properties\<close>

text \<open>C23. At every moment of an asynchronous execution, whatever the interleaving of its tasks, the
  bodies that have run are distinct operations reachable from a seed, each one after all of
  its predecessors among them, and no release finds the count of its cluster already at
  zero, so the unsigned counter does not wrap and a cluster is submitted once.\<close>

theorem async_bodies_ordered:
  assumes "exec_ready graph seedOps cb out supplied candidateOps"
    and "p = dispatch_plan graph changedLeaves seedOps force cb out supplied candidateOps s"
    and "plan_trace graph cb p evs (ts, sh)"
  shows "distinct (body_log evs) \<and> set (body_log evs) \<subseteq> targets graph changedLeaves seedOps force candidateOps \<and>
     (\<forall>xs i ys. body_log evs = xs @ i # ys \<longrightarrow> (\<forall>q \<in> set (op_predecessors (g_ops graph ! i)).
        q \<in> targets graph changedLeaves seedOps force candidateOps \<longrightarrow> q \<in> set xs)) \<and>
     distinct (map task_cluster ts) \<and>
     (\<forall>c d left. Releasing c (d # left) \<in> set ts \<longrightarrow> rp_marks p ! d \<longrightarrow> 0 < as_unresolved sh ! d)"
proof -
  let ?A = "targets graph changedLeaves seedOps force candidateOps"
  have plan: "plan_ok graph cb (mandatory_set graph seedOps force) ?A s p"
    unfolding assms(2) by (rule dispatch_plan_ok [OF assms(1)])
  note P = plan_okD [OF plan] and inv = plan_trace_inv(1) [OF plan assms(3)]
  note I = async_invD [OF inv] and L = logged_bodies [OF P(1) inv]
  have "i \<in> ?A" if "i \<in> set (body_log evs)" for i using L(2) [OF that] by (auto simp: P(5))
  then have "set (body_log evs) \<subseteq> ?A" by blast
  moreover have "q \<in> set xs" if "body_log evs = xs @ i # ys" "q \<in> set (op_predecessors (g_ops graph ! i))" "q \<in> ?A" for xs i ys q
    using L(3) [OF that(1,2)] that(3) P(2,5) by auto
  moreover have "0 < as_unresolved sh ! d" if "Releasing c (d # left) \<in> set ts" "rp_marks p ! d" for c d left
  proof -
    have "(c, d) \<in> owed_of ts" using that(1) unfolding owed_of_def by force
    then show ?thesis using sched_release(3) [OF P(1) I(1)] that(2) by (metis prod.collapse)
  qed
  ultimately show ?thesis using L(1) I(2) by (simp add: shape_inv_def)
qed

text \<open>C19. An asynchronous execution always joins: from the start no interleaving has more actions than
  a bound given by the graph, at every moment some task can act unless all of them are over,
  every moment extends to a joined run, and when all tasks are over every operation
  reachable from a seed has had its turn. So \<open>wait\<close> returns under any dispatcher that keeps
  running submitted tasks.\<close>

theorem async_always_joins:
  assumes "exec_ready graph seedOps cb out supplied candidateOps"
    and "p = dispatch_plan graph changedLeaves seedOps force cb out supplied candidateOps s"
    and "plan_trace graph cb p evs (ts, sh)"
  shows "length evs \<le> (\<Sum>c | c < length (g_clusters graph) \<and> rp_marks p ! c. cluster_work graph (rp_candidates p) c) \<and>
     ((\<exists>ev a. async_step graph cb (rp_seeded p) (rp_candidates p) (rp_marks p) (ts, sh) ev a) \<longleftrightarrow> ts \<noteq> []) \<and>
     (\<exists>more sh'. plan_trace graph cb p (evs @ more) ([], sh')) \<and>
     (ts = [] \<longrightarrow> set (body_log evs) = targets graph changedLeaves seedOps force candidateOps)"
proof -
  have plan: "plan_ok graph cb (mandatory_set graph seedOps force) (targets graph changedLeaves seedOps force candidateOps) s p"
    unfolding assms(2) by (rule dispatch_plan_ok [OF assms(1)])
  have "ts \<noteq> []" if "async_step graph cb (rp_seeded p) (rp_candidates p) (rp_marks p) (ts, sh) ev a" for ev a
    using that by cases simp
  then show ?thesis
    using async_trace_work [OF assms(3)] plan_work [OF plan] async_progress async_joins [OF assms(3)]
      joined_run(2) [OF plan] assms(3) by auto
qed

text \<open>C25. A joined execution: the bodies that ran are a topological sweep of the operations reachable
  from a seed; the completion numbers count the same operations in a topological order, so
  every predecessor finishes first; the ran flags and the verdict are those of the
  callbacks; and when none failed the state is the one of the flat sweep in that order.\<close>

theorem dispatch_is_topological_sweep:
  assumes "exec_ready graph seedOps cb out supplied candidateOps"
    and "dispatch_op_graph graph changedLeaves seedOps force cb out supplied candidateOps s evs (err, x, ws, s')"
  shows "topological_sweep graph (body_log evs) \<and>
     set (body_log evs) = targets graph changedLeaves seedOps force candidateOps \<and>
     (\<exists>order. topological_sweep graph order \<and> set order = set (body_log evs) \<and>
        (\<forall>k < length order. x_completion x ! (order ! k) = k + 1)) \<and>
     (\<forall>i < op_count graph. x_ran x ! i \<longleftrightarrow> (\<exists>ok. EvRun i ok \<in> set evs)) \<and>
     err = (if \<exists>i. EvRun i False \<in> set evs then Some OperationFailed else None) \<and>
     (err = None \<longrightarrow> s' = e_state (flat_sweep graph cb (mandatory_set graph seedOps force) (set (body_log evs)) (body_log evs) s))"
proof -
  let ?A = "targets graph changedLeaves seedOps force candidateOps"
  from assms obtain p sh where plan: "plan_ok graph cb (mandatory_set graph seedOps force) ?A s p"
    and trace: "plan_trace graph cb p evs ([], sh)"
    and res: "err = (if e_succeeded (as_exec sh) then None else Some OperationFailed)" "s' = e_state (as_exec sh)"
      "x_ran x = e_ran (as_exec sh)" "x_completion x = e_completion (as_exec sh)"
    by (rule joined_result)
  note J = joined_run [OF plan trace]
  define order where "order = sweep_order graph (rp_candidates p) (claim_log evs)"
  have num: "distinct order" "\<forall>i \<in> set order. i < length (replicate (op_count graph) (0::nat))"
    using J(3,4) plan_okD(2) [OF plan] by (auto simp: order_def topological_sweep_def)
  have "\<forall>k < length order. x_completion x ! (order ! k) = k + 1"
    using numbered_spec(2) [OF num, of _ 0] by (simp add: res(4) J(5) order_def)
  then show ?thesis using J res by (auto simp: order_def)
qed

text \<open>C21. On a compiled graph whose operations are functions of the values they read, any interleaving
  of the asynchronous path leaves the valuation and the change marks of the serial path, from
  whatever state both start, and both report success.\<close>

theorem async_equals_serial:
  assumes "RigExecCompileOpGraph descs leaves policy retained = Inr g" and "reads_only g eval"
    and "exec_ready g seedOps (value_backend g eval) out supplied candidateOps"
    and "RigExecExecuteOpGraph g changedLeaves seedOps force (value_backend g eval) out supplied candidateOps s =
           (err1, x1, ws1, s1)"
    and "dispatch_op_graph g changedLeaves seedOps force (value_backend g eval) out supplied candidateOps s evs
           (err2, x2, ws2, s2)"
  shows "s1 = s2 \<and> err1 = None \<and> err2 = None \<and> x_candidates x1 = x_candidates x2 \<and> x_touched x1 = x_touched x2"
proof -
  let ?A = "targets g changedLeaves seedOps force candidateOps" and ?M = "mandatory_set g seedOps force"
  let ?cb = "value_backend g eval"
  note graph = compile_dataflow [OF assms(1)]
  from execute_cases [OF assms(3,4)] obtain bodies w where
    serial: "exec_result g ?cb ?M ?A bodies s err1 x1 w s1" by metis
  from assms(3,5) obtain p sh where plan: "plan_ok g ?cb ?M ?A s p"
    and trace: "plan_trace g ?cb p evs ([], sh)"
    and res: "err2 = (if e_succeeded (as_exec sh) then None else Some OperationFailed)" "s2 = e_state (as_exec sh)"
      "x_candidates x2 = rp_candidates p" "x_touched x2 = filter (\<lambda>i. i \<in> ?A) [0..<op_count g]"
    by (rule joined_result)
  note J = joined_run [OF plan trace]
  have none: "\<forall>i. EvRun i False \<notin> set evs"
    using trace by (rule trusty_trace) (simp add: value_backend_def split: prod.splits)
  have sweep: "topological_sweep g bodies" "set bodies = ?A" using serial by (simp_all add: exec_result_def)
  have "set bodies = set (body_log evs)" "set bodies \<subseteq> {..<op_count g}"
    using sweep(2) J(2) plan_okD(2) [OF plan] by simp_all
  from sweeps_agree [OF graph(2,1) assms(2) sweep(1) J(1) this, of ?M ?A s] show ?thesis
    using serial J(6,9) none res plan_okD(5) [OF plan] by (auto simp: exec_result_def)
qed

section \<open>Witnesses\<close>

lemma demo_dispatch:
  obtains g where "RigExecCompileOpGraph demo_ops [7] SetAside None = Inr g"
    "exec_ready g [] (step_backend True) empty_execution (Some fresh_workspace) None"
proof -
  obtain g where g: "RigExecCompileOpGraph demo_ops [7] SetAside None = Inr g" using demo_compiles(1) by blast
  show thesis by (rule that [OF g demo_ready [OF g]]) simp
qed

theorem async_bodies_ordered_witness:
  "\<exists>g p evs sh. RigExecCompileOpGraph demo_ops [7] SetAside None = Inr g \<and>
     p = dispatch_plan g [7] [] True (step_backend True) empty_execution (Some fresh_workspace) None 0 \<and>
     plan_trace g (step_backend True) p evs ([], sh) \<and> distinct (body_log evs) \<and>
     set (body_log evs) \<subseteq> targets g [7] [] True None"
proof -
  from demo_dispatch obtain g where g: "RigExecCompileOpGraph demo_ops [7] SetAside None = Inr g"
    "exec_ready g [] (step_backend True) empty_execution (Some fresh_workspace) None" .
  define p where "p = dispatch_plan g [7] [] True (step_backend True) empty_execution (Some fresh_workspace) None (0::nat)"
  from async_joins [OF async_trace.begins, of g "step_backend True" "rp_seeded p" "rp_candidates p" "rp_marks p" "async_begin p"]
  obtain evs sh where trace: "plan_trace g (step_backend True) p evs ([], sh)" by auto
  from async_bodies_ordered [OF g(2) p_def trace] g(1) p_def trace show ?thesis by blast
qed

theorem async_always_joins_witness:
  "\<exists>g p. RigExecCompileOpGraph demo_ops [7] SetAside None = Inr g \<and>
     p = dispatch_plan g [7] [] True (step_backend True) empty_execution (Some fresh_workspace) None 0 \<and>
     (\<exists>evs sh. plan_trace g (step_backend True) p evs ([], sh))"
proof -
  from demo_dispatch obtain g where g: "RigExecCompileOpGraph demo_ops [7] SetAside None = Inr g"
    "exec_ready g [] (step_backend True) empty_execution (Some fresh_workspace) None" .
  define p where "p = dispatch_plan g [7] [] True (step_backend True) empty_execution (Some fresh_workspace) None (0::nat)"
  have start: "plan_trace g (step_backend True) p [] (fst (async_begin p), snd (async_begin p))"
    by (simp add: async_trace.begins)
  from async_always_joins [OF g(2) p_def start] g(1) p_def show ?thesis by auto
qed

theorem dispatch_is_topological_sweep_witness:
  "\<exists>g evs err x ws s'. RigExecCompileOpGraph demo_ops [7] SetAside None = Inr g \<and>
     dispatch_op_graph g [7] [] True (step_backend True) empty_execution (Some fresh_workspace) None 0 evs (err, x, ws, s') \<and>
     topological_sweep g (body_log evs) \<and> set (body_log evs) = targets g [7] [] True None"
proof -
  from demo_dispatch obtain g where g: "RigExecCompileOpGraph demo_ops [7] SetAside None = Inr g"
    "exec_ready g [] (step_backend True) empty_execution (Some fresh_workspace) None" .
  from dispatch_returns [OF g(2)] obtain evs err x ws s' where
    run: "dispatch_op_graph g [7] [] True (step_backend True) empty_execution (Some fresh_workspace) None (0::nat) evs (err, x, ws, s')"
    by blast
  from dispatch_is_topological_sweep [OF g(2) run] g(1) run show ?thesis by blast
qed

theorem async_equals_serial_witness:
  "\<exists>g evs err1 x1 ws1 s1 err2 x2 ws2 s2. RigExecCompileOpGraph demo_ops [7] SetAside None = Inr g \<and>
     RigExecExecuteOpGraph g [7] [] True (value_backend g (sum_eval g)) empty_execution (Some fresh_workspace) None
       (\<lambda>v. 1, {7}) = (err1, x1, ws1, s1) \<and>
     dispatch_op_graph g [7] [] True (value_backend g (sum_eval g)) empty_execution (Some fresh_workspace) None
       (\<lambda>v. 1, {7}) evs (err2, x2, ws2, s2) \<and> s1 = s2"
proof -
  obtain g where g: "RigExecCompileOpGraph demo_ops [7] SetAside None = Inr g" using demo_compiles(1) by blast
  have ready: "exec_ready g [] (value_backend g (sum_eval g)) empty_execution (Some fresh_workspace) None"
    by (rule demo_ready [OF g]) (simp add: value_backend_def)
  obtain err1 x1 ws1 s1 where serial: "RigExecExecuteOpGraph g [7] [] True (value_backend g (sum_eval g)) empty_execution
      (Some fresh_workspace) None (\<lambda>v. 1, {7}) = (err1, x1, ws1, s1)" by (rule prod_cases4)
  from dispatch_returns [OF ready] obtain evs err2 x2 ws2 s2 where
    async: "dispatch_op_graph g [7] [] True (value_backend g (sum_eval g)) empty_execution (Some fresh_workspace) None
       (\<lambda>v. 1, {7}) evs (err2, x2, ws2, s2)" by blast
  from async_equals_serial [OF g sum_eval_reads ready serial async] g serial async show ?thesis by blast
qed

end
