(* ===== verification/Usd_Values.thy ===== *)
theory Usd_Values
  imports IEEE_Double
begin

text \<open>
  The values of the scene description the caches handle: time codes, the dynamically typed
  value with its raw storage, the point frame and the pose (\<open>rigEvaluator.h\<close>,
  \<open>rigExecMath/pointFrame.h\<close>). A path is a value of a linearly ordered type \<open>'p\<close>. Wherever the
  code reads floating point bitwise, a double is its 64-bit pattern and a value is the bytes
  it stores; the time of a frame, which is compared and added, is an IEEE double.
\<close>

section \<open>Time codes\<close>

datatype time_code = DefaultTime | TimeValue double

fun time_value :: "time_code \<Rightarrow> double" where
  "time_value (TimeValue v) = v"
| "time_value DefaultTime = NaN"

text \<open>\<open>time.IsNumeric() && std::isfinite(time.GetValue())\<close>.\<close>

fun usable_time :: "time_code \<Rightarrow> bool" where
  "usable_time (TimeValue v) = double_finite v"
| "usable_time DefaultTime = False"

fun time_eq :: "time_code \<Rightarrow> time_code \<Rightarrow> bool" where
  "time_eq (TimeValue v) (TimeValue w) = double_eq v w"
| "time_eq DefaultTime DefaultTime = True"
| "time_eq _ _ = False"

section \<open>Dynamically typed values\<close>

type_synonym byte = "8 word"

text \<open>The characters of a string and the storage of a word, least byte first.\<close>

definition text_bytes :: "string \<Rightarrow> byte list" where
  "text_bytes s = map of_char s"

definition storage :: "nat \<Rightarrow> 'a::len word \<Rightarrow> byte list" where
  "storage n w = map (\<lambda>i. ucast (drop_bit (8 * i) w)) [0..<n]"

text \<open>The element types the code tests a value for; \<open>T_other\<close> is any further type, by its
  \<open>std::type_info\<close>.\<close>

datatype gf_type =
    T_float | T_double | T_half
  | T_vec2f | T_vec3f | T_vec4f | T_vec2d | T_vec3d | T_vec4d | T_vec2h | T_vec3h | T_vec4h
  | T_quatf | T_quatd | T_quath
  | T_matrix2f | T_matrix2d | T_matrix3f | T_matrix3d | T_matrix4f | T_matrix4d
  | T_rotation | T_int | T_bool | T_vec3i | T_token | T_path | T_string
  | T_other nat

datatype held_type = Single gf_type | ArrayOf gf_type

text \<open>
  A non-empty \<open>VtValue\<close>: the type it holds, the storage of its elements (one for a single
  value; a quaternion is its real part and then its imaginary one, a rotation its axis and
  then its angle; a string or a token its characters) and what \<open>GetHash\<close> answers, \<open>None\<close> where
  \<open>CanHash\<close> is false. An empty \<open>VtValue\<close> is \<open>None\<close>.
\<close>

record held_value =
  hv_type :: held_type
  hv_elements :: "byte list list"
  hv_hash :: "64 word option"

type_synonym vt_value = "held_value option"

definition array_valued :: "vt_value \<Rightarrow> bool" where
  "array_valued v = (case v of Some h \<Rightarrow> (case hv_type h of ArrayOf t \<Rightarrow> True | Single t \<Rightarrow> False) | None \<Rightarrow> False)"

section \<open>Frames, matrices and the pose\<close>

datatype 'a vec3 = Vec3 'a 'a 'a
datatype 'a vec4 = Vec4 'a 'a 'a 'a

text \<open>A double by its bits; a 4x4 matrix by its rows.\<close>

type_synonym double_bits = "64 word"
type_synonym matrix4 = "double_bits vec4 vec4"

record point_frame =
  pf_points :: "double_bits vec3 vec4"
  pf_flags :: "32 word"

record 'p weight_field =
  wfd_target :: 'p
  wfd_weights :: "32 word list"

record 'p rig_pose =
  rp_time :: time_code
  rp_valid :: bool
  rp_jointFramesBase :: "('p, point_frame) omap"
  rp_jointFramesFinal :: "('p, point_frame) omap"
  rp_jointMatricesFinal :: "('p, matrix4) omap"
  rp_controlFrames :: "('p, point_frame) omap"
  rp_providerXforms :: "('p, matrix4) omap"
  rp_providerBaseXforms :: "('p, matrix4) omap"
  rp_solverFrames :: "('p, point_frame list) omap"
  rp_movedProperties :: "('p, vt_value) omap"
  rp_movedPropertiesCpu :: "('p, vt_value) omap"
  rp_weightFields :: "('p, 'p weight_field) omap"
  rp_weightFrames :: "('p, matrix4) omap"
  rp_diagnostics :: "string list"
  rp_referenceMismatches :: nat
  rp_referenceAgreements :: nat
  rp_comparisonMismatches :: nat
  rp_executedOpCount :: nat

definition new_pose :: "'p rig_pose" where
  "new_pose = \<lparr> rp_time = DefaultTime, rp_valid = False, rp_jointFramesBase = [],
     rp_jointFramesFinal = [], rp_jointMatricesFinal = [], rp_controlFrames = [],
     rp_providerXforms = [], rp_providerBaseXforms = [], rp_solverFrames = [],
     rp_movedProperties = [], rp_movedPropertiesCpu = [], rp_weightFields = [],
     rp_weightFrames = [], rp_diagnostics = [], rp_referenceMismatches = 0,
     rp_referenceAgreements = 0, rp_comparisonMismatches = 0, rp_executedOpCount = 0 \<rparr>"

text \<open>The bytes of a word of eight times as many bits tell the word.\<close>

lemma storage_length [simp]: "length (storage n w) = n"
  by (simp add: storage_def)

lemma storage_inj:
  assumes "LENGTH('a) = 8 * n"
  shows "inj (storage n :: 'a::len word \<Rightarrow> byte list)"
proof (rule injI)
  fix v w :: "'a word" assume eq: "storage n v = storage n w"
  have "bit v k = bit w k" if k: "k < LENGTH('a)" for k
  proof -
    let ?i = "k div 8" and ?r = "k mod 8"
    have i: "?i < n" using k assms by (simp add: less_mult_imp_div_less mult.commute)
    have "storage n v ! ?i = storage n w ! ?i" by (simp add: eq)
    then have "(ucast (drop_bit (8 * ?i) v) :: byte) = ucast (drop_bit (8 * ?i) w)" using i by (simp add: storage_def)
    then have "bit (ucast (drop_bit (8 * ?i) v) :: byte) ?r = bit (ucast (drop_bit (8 * ?i) w) :: byte) ?r" by simp
    moreover have "8 * ?i + ?r = k" by simp
    ultimately show ?thesis by (simp add: bit_unsigned_iff bit_drop_bit_eq)
  qed
  then show "v = w" by (rule bit_word_eqI)
qed

end
