(* ===== verification/Op_Values.thy ===== *)
theory Op_Values
  imports Op_Compile Usd_Values
begin

text \<open>
  The values of a graph backend (\<open>rigExecGraph/opValues.h\<close>): the exact key each produced value
  is remembered by, how a body's output is published against it, how the flags of a run are
  gathered and cleared, and the steps whose output an epilogue visits. The fields of the
  adapter that only a backend fills (its memo keys, seeds and switches) are not part of the
  record. A domain or a slot is a \<open>uint32_t\<close>, written as a natural number.
\<close>

section \<open>Values and the adapter\<close>

record op_value =
  ov_domain :: nat
  ov_slot :: nat
  ov_key :: "byte list"
  ov_scratch :: "byte list"
  ov_initialized :: bool
  ov_changed :: bool
  ov_revision :: "64 word"

record adapter_state =
  ad_values :: "op_value list"
  ad_leaves :: "value_id list"
  ad_changedLeaves :: "value_id list"
  ad_changedValues :: "value_id list"
  ad_excludedValues :: "value_id list"
  ad_compiled :: bool

definition new_adapter :: adapter_state where
  "new_adapter = \<lparr> ad_values = [], ad_leaves = [], ad_changedLeaves = [], ad_changedValues = [],
     ad_excludedValues = [], ad_compiled = False \<rparr>"

definition new_value :: "nat \<Rightarrow> nat \<Rightarrow> op_value" where
  "new_value domain slot = \<lparr> ov_domain = domain, ov_slot = slot, ov_key = [], ov_scratch = [],
     ov_initialized = False, ov_changed = False, ov_revision = 0 \<rparr>"

definition RigExecOpAddValue :: "nat \<Rightarrow> nat \<Rightarrow> adapter_state \<Rightarrow> value_id \<times> adapter_state" where
  "RigExecOpAddValue domain slot state =
     (of_nat (length (ad_values state)), state\<lparr>ad_values := ad_values state @ [new_value domain slot]\<rparr>)"

definition value_at :: "adapter_state \<Rightarrow> value_id \<Rightarrow> op_value" where
  "value_at state v = ad_values state ! unat v"

definition put_value :: "value_id \<Rightarrow> op_value \<Rightarrow> adapter_state \<Rightarrow> adapter_state" where
  "put_value v x state = state\<lparr>ad_values := (ad_values state)[unat v := x]\<rparr>"

section \<open>Publication\<close>

text \<open>\<open>sample\<close> is what the backend's sampler appends to the cleared scratch key.\<close>

definition RigExecOpPublishValue :: "(nat \<Rightarrow> nat \<Rightarrow> byte list) \<Rightarrow> op_value \<Rightarrow> op_value" where
  "RigExecOpPublishValue sample value =
     (let scratch = sample (ov_domain value) (ov_slot value);
          changed = (\<not> ov_initialized value \<or> scratch \<noteq> ov_key value)
      in value\<lparr>ov_changed := changed, ov_revision := (if changed then ov_revision value + 1 else ov_revision value),
           ov_key := scratch, ov_scratch := ov_key value, ov_initialized := True\<rparr>)"

text \<open>The key of a fixed-size value on the stack: at most \<open>capacity\<close> bytes.\<close>

record small_key =
  sk_bytes :: "byte list"
  sk_overflow :: bool

definition new_small_key :: small_key where
  "new_small_key = \<lparr> sk_bytes = [], sk_overflow = False \<rparr>"

definition Append_field :: "nat \<Rightarrow> byte list \<Rightarrow> small_key \<Rightarrow> small_key" where
  "Append_field capacity bytes key =
     (if capacity - length (sk_bytes key) < length bytes then key\<lparr>sk_overflow := True\<rparr>
      else key\<lparr>sk_bytes := sk_bytes key @ bytes\<rparr>)"

definition RigExecOpPublishKeyBytes :: "byte list \<Rightarrow> op_value \<Rightarrow> op_value" where
  "RigExecOpPublishKeyBytes bytes value =
     (let changed = (\<not> ov_initialized value \<or> length (ov_key value) \<noteq> length bytes \<or>
            (0 < length bytes \<and> ov_key value \<noteq> bytes));
          v1 = value\<lparr>ov_changed := changed\<rparr>;
          v2 = (if changed then v1\<lparr>ov_revision := ov_revision v1 + 1, ov_key := bytes\<rparr> else v1)
      in v2\<lparr>ov_initialized := True\<rparr>)"

section \<open>The flags of a run\<close>

definition RigExecOpClearChanges :: "adapter_state \<Rightarrow> adapter_state" where
  "RigExecOpClearChanges state =
     (foldl (\<lambda>st v. put_value v ((value_at st v)\<lparr>ov_changed := False\<rparr>) st) state (ad_changedValues state))
       \<lparr>ad_changedValues := []\<rparr>"

definition gather :: "compiled_graph \<Rightarrow> bool list \<Rightarrow> adapter_state \<Rightarrow> nat \<Rightarrow> adapter_state" where
  "gather graph ran_flags state c =
     (if length (g_ops graph) \<le> c \<or> length ran_flags \<le> c \<or> \<not> ran_flags ! c then state
      else foldl (\<lambda>st v. if ov_changed (value_at st v) then st\<lparr>ad_changedValues := ad_changedValues st @ [v]\<rparr> else st)
             state (desc_writes (op_descriptor (g_ops graph ! c))))"

definition RigExecOpGatherChanges ::
  "compiled_graph \<Rightarrow> bool list \<Rightarrow> nat list option \<Rightarrow> adapter_state \<Rightarrow> adapter_state" where
  "RigExecOpGatherChanges graph ran_flags candidates state =
     foldl (gather graph ran_flags) (state\<lparr>ad_changedValues := ad_changedLeaves state\<rparr>)
       (case candidates of Some cs \<Rightarrow> cs | None \<Rightarrow> [0..<min (length (g_ops graph)) (length ran_flags)])"

text \<open>A run publishes its leaves, noting the changed ones, and then the writes of each operation
  that ran. A sampler may read the state it publishes into (an inexact key has the revision
  appended; a later write may reuse the key of an earlier one).\<close>

type_synonym sampler = "value_id \<Rightarrow> adapter_state \<Rightarrow> nat \<Rightarrow> nat \<Rightarrow> byte list"

definition publish_at :: "sampler \<Rightarrow> adapter_state \<Rightarrow> value_id \<Rightarrow> adapter_state" where
  "publish_at sample st v = put_value v (RigExecOpPublishValue (sample v st) (value_at st v)) st"

definition publish_leaf :: "sampler \<Rightarrow> adapter_state \<Rightarrow> value_id \<Rightarrow> adapter_state" where
  "publish_leaf sample st v =
     (let st' = publish_at sample st v in
      if ov_changed (value_at st' v) then st'\<lparr>ad_changedLeaves := ad_changedLeaves st' @ [v]\<rparr> else st')"

definition publish_op :: "compiled_graph \<Rightarrow> (nat \<Rightarrow> sampler) \<Rightarrow> adapter_state \<Rightarrow> nat \<Rightarrow> adapter_state" where
  "publish_op graph sample st c = foldl (publish_at (sample c)) st (desc_writes (op_descriptor (g_ops graph ! c)))"

definition run_values ::
  "compiled_graph \<Rightarrow> sampler \<Rightarrow> (nat \<Rightarrow> sampler) \<Rightarrow> value_id list \<Rightarrow> nat list \<Rightarrow> bool list \<Rightarrow> nat list option \<Rightarrow>
     adapter_state \<Rightarrow> adapter_state" where
  "run_values graph leafSample opSample leaves completed ran_flags candidates state =
     (let s1 = RigExecOpClearChanges (state\<lparr>ad_changedLeaves := []\<rparr>);
          s2 = foldl (publish_leaf leafSample) s1 leaves;
          s3 = foldl (publish_op graph opSample) s2 completed
      in RigExecOpGatherChanges graph ran_flags candidates s3)"

section \<open>Steps that hold output\<close>

record held_steps =
  hs_holding :: "bool list"
  hs_held :: "nat list"
  hs_ascending :: bool

definition Reset_held :: "nat \<Rightarrow> held_steps" where
  "Reset_held n = \<lparr> hs_holding = replicate n False, hs_held = [], hs_ascending = True \<rparr>"

definition Note_held :: "nat \<Rightarrow> bool \<Rightarrow> held_steps \<Rightarrow> held_steps" where
  "Note_held step holds h =
     (if hs_holding h ! step = holds then h
      else let h1 = h\<lparr>hs_holding := (hs_holding h)[step := holds]\<rparr> in
        if holds
        then h1\<lparr>hs_ascending := hs_ascending h \<and> (hs_held h = [] \<or> last (hs_held h) < step),
                hs_held := hs_held h @ [step]\<rparr>
        else h1\<lparr>hs_ascending := False\<rparr>)"

definition Ascending_held :: "held_steps \<Rightarrow> nat list \<times> held_steps" where
  "Ascending_held h =
     (let h1 = (if hs_ascending h then h
                else h\<lparr>hs_held := vec_unique (filter (\<lambda>step. hs_holding h ! step) (hs_held h)), hs_ascending := True\<rparr>)
      in (hs_held h1, h1))"

section \<open>Keys\<close>

text \<open>A field's object bytes; a string by its length and its characters; an array by its count and
  its elements, each of them appended in turn or, where they are one run of memory, at once.\<close>

definition RigExecOpKeyAppend :: "byte list \<Rightarrow> byte list \<Rightarrow> byte list" where
  "RigExecOpKeyAppend v key = key @ v"

definition append_size :: "nat \<Rightarrow> byte list \<Rightarrow> byte list" where
  "append_size n key = RigExecOpKeyAppend (storage 8 (of_nat n :: 64 word)) key"

definition KeyAppend_string :: "byte list \<Rightarrow> byte list \<Rightarrow> byte list" where
  "KeyAppend_string v key = append_size (length v) key @ v"

definition RigExecOpKeyAppendRun :: "byte list list \<Rightarrow> byte list \<Rightarrow> byte list" where
  "RigExecOpKeyAppendRun elements key = (if elements \<noteq> [] then key @ concat elements else key)"

definition KeyArray_run :: "('a \<Rightarrow> byte list) \<Rightarrow> 'a list \<Rightarrow> byte list \<Rightarrow> byte list" where
  "KeyArray_run bytes xs key = RigExecOpKeyAppendRun (map bytes xs) (append_size (length xs) key)"

definition KeyArray_each :: "('a \<Rightarrow> byte list \<Rightarrow> byte list) \<Rightarrow> 'a list \<Rightarrow> byte list \<Rightarrow> byte list" where
  "KeyArray_each add xs key = foldl (\<lambda>k x. add x k) (append_size (length xs) key) xs"

text \<open>The alternatives of \<open>RigExecProviderPlainValue\<close> in order; a float, a double and an integer by
  their bits, a fixed-size array as a list.\<close>

record plain_frame =
  pl_points :: "64 word list list"
  pl_flags :: "32 word"

datatype plain_value =
    PV_monostate
  | PV_double "64 word"
  | PV_float "32 word"
  | PV_double3 "64 word list"
  | PV_double16 "64 word list"
  | PV_string "byte list"
  | PV_frame plain_frame
  | PV_float3 "32 word list"
  | PV_bool bool
  | PV_int32 "32 word"
  | PV_floats "32 word list"
  | PV_doubles "64 word list"
  | PV_float3s "32 word list list"
  | PV_double3s "64 word list list"
  | PV_int32s "32 word list"
  | PV_double16s "64 word list list"
  | PV_strings "byte list list"
  | PV_bools "bool list"
  | PV_float2 "32 word list"
  | PV_float2s "32 word list list"
  | PV_int3 "32 word list"

definition bool_bytes :: "bool \<Rightarrow> byte list" where
  "bool_bytes b = [of_bool b]"

definition words_bytes :: "nat \<Rightarrow> 'a::len word list \<Rightarrow> byte list" where
  "words_bytes n ws = concat (map (storage n) ws)"

fun RigExecOpKeyPlainValue :: "plain_value \<Rightarrow> byte list \<Rightarrow> byte list" where
  "RigExecOpKeyPlainValue PV_monostate key = key"
| "RigExecOpKeyPlainValue (PV_double v) key = RigExecOpKeyAppend (storage 8 v) key"
| "RigExecOpKeyPlainValue (PV_float v) key = RigExecOpKeyAppend (storage 4 v) key"
| "RigExecOpKeyPlainValue (PV_double3 v) key = RigExecOpKeyAppend (words_bytes 8 v) key"
| "RigExecOpKeyPlainValue (PV_double16 v) key = RigExecOpKeyAppend (words_bytes 8 v) key"
| "RigExecOpKeyPlainValue (PV_string v) key = KeyAppend_string v key"
| "RigExecOpKeyPlainValue (PV_frame v) key =
     RigExecOpKeyAppend (storage 4 (pl_flags v)) (RigExecOpKeyAppend (concat (map (words_bytes 8) (pl_points v))) key)"
| "RigExecOpKeyPlainValue (PV_float3 v) key = RigExecOpKeyAppend (words_bytes 4 v) key"
| "RigExecOpKeyPlainValue (PV_bool v) key = RigExecOpKeyAppend (bool_bytes v) key"
| "RigExecOpKeyPlainValue (PV_int32 v) key = RigExecOpKeyAppend (storage 4 v) key"
| "RigExecOpKeyPlainValue (PV_floats v) key = KeyArray_run (storage 4) v key"
| "RigExecOpKeyPlainValue (PV_doubles v) key = KeyArray_run (storage 8) v key"
| "RigExecOpKeyPlainValue (PV_float3s v) key = KeyArray_run (words_bytes 4) v key"
| "RigExecOpKeyPlainValue (PV_double3s v) key = KeyArray_run (words_bytes 8) v key"
| "RigExecOpKeyPlainValue (PV_int32s v) key = KeyArray_run (storage 4) v key"
| "RigExecOpKeyPlainValue (PV_double16s v) key = KeyArray_run (words_bytes 8) v key"
| "RigExecOpKeyPlainValue (PV_strings v) key = KeyArray_each KeyAppend_string v key"
| "RigExecOpKeyPlainValue (PV_bools v) key = KeyArray_each (\<lambda>b. RigExecOpKeyAppend (bool_bytes b)) v key"
| "RigExecOpKeyPlainValue (PV_float2 v) key = RigExecOpKeyAppend (words_bytes 4 v) key"
| "RigExecOpKeyPlainValue (PV_float2s v) key = KeyArray_run (words_bytes 4) v key"
| "RigExecOpKeyPlainValue (PV_int3 v) key = RigExecOpKeyAppend (words_bytes 4 v) key"

end
