(* ===== verification/Op_Value_Claims.thy ===== *)
theory Op_Value_Claims
  imports Op_Values Op_Execute
begin

text \<open>
  The properties of the values of a backend: a key tells apart what it was built from, the two
  ways of publishing agree, the flags of a run are exactly its changes, and the list of steps
  that hold output is exact.
\<close>

section \<open>Prefix-free keys\<close>

text \<open>Whatever follows the key of one value, the key tells the value and where it ends.\<close>

definition prefix_free :: "'a set \<Rightarrow> ('a \<Rightarrow> byte list) \<Rightarrow> bool" where
  "prefix_free D f \<longleftrightarrow> (\<forall>x \<in> D. \<forall>y \<in> D. \<forall>a b. f x @ a = f y @ b \<longrightarrow> x = y \<and> a = b)"

named_theorems prefix_codes \<open>prefix-free encodings\<close>

lemma prefix_freeD: "prefix_free D f \<Longrightarrow> x \<in> D \<Longrightarrow> y \<in> D \<Longrightarrow> f x @ a = f y @ b \<Longrightarrow> x = y \<and> a = b"
  unfolding prefix_free_def by (elim ballE allE) auto

lemma prefix_free_fixed:
  assumes "\<And>x. x \<in> D \<Longrightarrow> length (f x) = n" "inj_on f D"
  shows "prefix_free D f"
  unfolding prefix_free_def
proof (intro ballI allI impI)
  fix x y a b
  assume mem: "x \<in> D" "y \<in> D" and "f x @ a = f y @ b"
  then have "f x = f y" "a = b" by (simp_all add: assms(1))
  with mem inj_onD [OF assms(2)] show "x = y \<and> a = b" by blast
qed

lemma prefix_free_pair:
  assumes "prefix_free D f" "prefix_free E g"
  shows "prefix_free (D \<times> E) (\<lambda>(x, y). f x @ g y)"
  unfolding prefix_free_def
proof (clarify)
  fix x y x' y' a b
  assume mem: "x \<in> D" "y \<in> E" "x' \<in> D" "y' \<in> E" and eq: "(f x @ g y) @ a = (f x' @ g y') @ b"
  then have "f x @ (g y @ a) = f x' @ (g y' @ b)" by simp
  from prefix_freeD [OF assms(1) mem(1,3) this] have "x = x'" "g y @ a = g y' @ b" by simp_all
  with prefix_freeD [OF assms(2) mem(2,4)] show "(x, y) = (x', y') \<and> a = b" by blast
qed

lemma prefix_free_lists:
  assumes "prefix_free D f"
  shows "prefix_free {xs. set xs \<subseteq> D \<and> length xs = n} (\<lambda>xs. concat (map f xs))"
proof (induction n)
  case 0
  then show ?case by (simp add: prefix_free_def)
next
  case (Suc n)
  show ?case
    unfolding prefix_free_def
  proof (intro ballI allI impI)
    fix xs ys a b
    assume xs: "xs \<in> {xs. set xs \<subseteq> D \<and> length xs = Suc n}" and ys: "ys \<in> {xs. set xs \<subseteq> D \<and> length xs = Suc n}"
      and eq: "concat (map f xs) @ a = concat (map f ys) @ b"
    then obtain x xs' y ys' where c: "xs = x # xs'" "ys = y # ys'" by (auto simp: length_Suc_conv)
    then have "f x @ (concat (map f xs') @ a) = f y @ (concat (map f ys') @ b)" using eq by simp
    from prefix_freeD [OF assms _ _ this] xs ys c have "x = y" "concat (map f xs') @ a = concat (map f ys') @ b" by auto
    with prefix_freeD [OF Suc.IH, of xs' ys' a b] xs ys c show "xs = ys \<and> a = b" by auto
  qed
qed

lemma prefix_free_storage [prefix_codes]:
  "prefix_free UNIV (storage 8 :: 64 word \<Rightarrow> byte list)" "prefix_free UNIV (storage 4 :: 32 word \<Rightarrow> byte list)"
  by (auto intro!: prefix_free_fixed storage_inj)

definition sized :: "'a set \<Rightarrow> 'a list set" where
  "sized D = {xs. set xs \<subseteq> D \<and> length xs < 2 ^ 64}"

text \<open>A count of 64 bits before the elements makes any list prefix-free.\<close>

lemma prefix_free_counted:
  assumes "prefix_free D f"
  shows "prefix_free (sized D) (\<lambda>xs. storage 8 (of_nat (length xs) :: 64 word) @ concat (map f xs))"
  unfolding prefix_free_def
proof (intro ballI allI impI)
  fix xs ys a b
  assume mem: "xs \<in> sized D" "ys \<in> sized D"
    and eq: "(storage 8 (of_nat (length xs) :: 64 word) @ concat (map f xs)) @ a =
       (storage 8 (of_nat (length ys) :: 64 word) @ concat (map f ys)) @ b"
  then have "storage 8 (of_nat (length xs) :: 64 word) @ (concat (map f xs) @ a) =
       storage 8 (of_nat (length ys) :: 64 word) @ (concat (map f ys) @ b)" by simp
  from prefix_freeD [OF prefix_free_storage(1) _ _ this]
  have count: "(of_nat (length xs) :: 64 word) = of_nat (length ys)" and rest: "concat (map f xs) @ a = concat (map f ys) @ b"
    by simp_all
  from arg_cong [OF count, of unat] mem have "length xs = length ys"
    by (simp add: sized_def unsigned_of_nat take_bit_nat_eq_self)
  with prefix_freeD [OF prefix_free_lists [OF assms, of "length ys"], of xs ys a b] rest mem show "xs = ys \<and> a = b"
    by (auto simp: sized_def)
qed

section \<open>Provider values\<close>

lemma KeyArray_run_eq: "KeyArray_run f xs key = key @ storage 8 (of_nat (length xs) :: 64 word) @ concat (map f xs)"
  by (simp add: KeyArray_run_def RigExecOpKeyAppendRun_def append_size_def RigExecOpKeyAppend_def)

lemma foldl_append_bytes:
  assumes "\<And>x k. add x k = k @ f x"
  shows "foldl (\<lambda>k x. add x k) key xs = key @ concat (map f xs)"
  by (induction xs arbitrary: key) (simp_all add: assms)

lemma KeyArray_each_eq:
  "(\<And>x k. add x k = k @ f x) \<Longrightarrow>
     KeyArray_each add xs key = key @ storage 8 (of_nat (length xs) :: 64 word) @ concat (map f xs)"
  by (simp add: KeyArray_each_def foldl_append_bytes append_size_def RigExecOpKeyAppend_def)

definition string_bytes :: "byte list \<Rightarrow> byte list" where
  "string_bytes v = storage 8 (of_nat (length v) :: 64 word) @ v"

lemma KeyAppend_string_eq: "KeyAppend_string v key = key @ string_bytes v"
  by (simp add: KeyAppend_string_def append_size_def RigExecOpKeyAppend_def string_bytes_def)

text \<open>The two ways an array of plain elements is keyed give the same bytes.\<close>

lemma key_array_routes:
  "KeyArray_run f xs key = KeyArray_each (\<lambda>x. RigExecOpKeyAppend (f x)) xs key"
  by (simp add: KeyArray_run_eq KeyArray_each_eq RigExecOpKeyAppend_def)

lemma prefix_free_string [prefix_codes]: "prefix_free (sized UNIV) string_bytes"
proof -
  have "prefix_free UNIV (\<lambda>b :: byte. [b])" by (simp add: prefix_free_def)
  from prefix_free_counted [OF this] show ?thesis by (simp add: string_bytes_def [abs_def])
qed

lemma prefix_free_words [prefix_codes]:
  "prefix_free {ws. length ws = n} (words_bytes 8 :: 64 word list \<Rightarrow> byte list)"
  "prefix_free {ws. length ws = n} (words_bytes 4 :: 32 word list \<Rightarrow> byte list)"
  using prefix_free_lists [OF prefix_free_storage(1), of n] prefix_free_lists [OF prefix_free_storage(2), of n]
  by (simp_all add: words_bytes_def [abs_def])

lemma prefix_free_bool [prefix_codes]: "prefix_free UNIV bool_bytes"
  by (auto simp: prefix_free_def bool_bytes_def split: if_splits)

text \<open>The alternative a value is, and its fixed lengths; counts are below 2^64.\<close>

fun alternative :: "plain_value \<Rightarrow> nat" where
  "alternative PV_monostate = 0"
| "alternative (PV_double _) = 1"
| "alternative (PV_float _) = 2"
| "alternative (PV_double3 _) = 3"
| "alternative (PV_double16 _) = 4"
| "alternative (PV_string _) = 5"
| "alternative (PV_frame _) = 6"
| "alternative (PV_float3 _) = 7"
| "alternative (PV_bool _) = 8"
| "alternative (PV_int32 _) = 9"
| "alternative (PV_floats _) = 10"
| "alternative (PV_doubles _) = 11"
| "alternative (PV_float3s _) = 12"
| "alternative (PV_double3s _) = 13"
| "alternative (PV_int32s _) = 14"
| "alternative (PV_double16s _) = 15"
| "alternative (PV_strings _) = 16"
| "alternative (PV_bools _) = 17"
| "alternative (PV_float2 _) = 18"
| "alternative (PV_float2s _) = 19"
| "alternative (PV_int3 _) = 20"

fun plain_ok :: "plain_value \<Rightarrow> bool" where
  "plain_ok (PV_double3 v) \<longleftrightarrow> length v = 3"
| "plain_ok (PV_double16 v) \<longleftrightarrow> length v = 16"
| "plain_ok (PV_string v) \<longleftrightarrow> v \<in> sized UNIV"
| "plain_ok (PV_frame v) \<longleftrightarrow> length (pl_points v) = 4 \<and> set (pl_points v) \<subseteq> {ws. length ws = 3}"
| "plain_ok (PV_float3 v) \<longleftrightarrow> length v = 3"
| "plain_ok (PV_floats v) \<longleftrightarrow> v \<in> sized UNIV"
| "plain_ok (PV_doubles v) \<longleftrightarrow> v \<in> sized UNIV"
| "plain_ok (PV_float3s v) \<longleftrightarrow> v \<in> sized {ws. length ws = 3}"
| "plain_ok (PV_double3s v) \<longleftrightarrow> v \<in> sized {ws. length ws = 3}"
| "plain_ok (PV_int32s v) \<longleftrightarrow> v \<in> sized UNIV"
| "plain_ok (PV_double16s v) \<longleftrightarrow> v \<in> sized {ws. length ws = 16}"
| "plain_ok (PV_strings v) \<longleftrightarrow> v \<in> sized (sized UNIV)"
| "plain_ok (PV_bools v) \<longleftrightarrow> v \<in> sized UNIV"
| "plain_ok (PV_float2 v) \<longleftrightarrow> length v = 2"
| "plain_ok (PV_float2s v) \<longleftrightarrow> v \<in> sized {ws. length ws = 2}"
| "plain_ok (PV_int3 v) \<longleftrightarrow> length v = 3"
| "plain_ok _ \<longleftrightarrow> True"


lemma prefix_free_frame:
  assumes mem: "plain_ok (PV_frame v)" "plain_ok (PV_frame w)"
    and eq: "RigExecOpKeyPlainValue (PV_frame v) key @ a = RigExecOpKeyPlainValue (PV_frame w) key @ b"
  shows "v = w \<and> a = b"
proof -
  let ?P = "{ws :: 64 word list. length ws = 3}"
  from eq have "concat (map (words_bytes 8) (pl_points v)) @ (storage 4 (pl_flags v) @ a) =
      concat (map (words_bytes 8) (pl_points w)) @ (storage 4 (pl_flags w) @ b)"
    by (simp add: RigExecOpKeyAppend_def)
  from prefix_freeD [OF prefix_free_lists [OF prefix_free_words(1), of 3 4] _ _ this] mem
  have "pl_points v = pl_points w" "storage 4 (pl_flags v) @ a = storage 4 (pl_flags w) @ b" by simp_all
  with prefix_freeD [OF prefix_free_storage(2) _ _ this(2)] show ?thesis by simp
qed

lemma counted_split:
  assumes "prefix_free D f" "xs \<in> sized D" "ys \<in> sized D"
    and "storage 8 (of_nat (length xs) :: 64 word) @ concat (map f xs) @ a =
       storage 8 (of_nat (length ys) :: 64 word) @ concat (map f ys) @ b"
  shows "xs = ys \<and> a = b"
  using prefix_freeD [OF prefix_free_counted [OF assms(1)] assms(2,3), of a b] assms(4) by simp

lemma prefix_free_array:
  assumes "prefix_free D f" "xs \<in> sized D" "ys \<in> sized D"
    and "KeyArray_run f xs key @ a = KeyArray_run f ys key @ b"
  shows "xs = ys \<and> a = b"
  by (rule counted_split [OF assms(1-3)]) (use assms(4) in \<open>simp add: KeyArray_run_eq\<close>)

lemma prefix_free_append:
  assumes "prefix_free D f" "x \<in> D" "y \<in> D"
    and "RigExecOpKeyAppend (f x) key @ a = RigExecOpKeyAppend (f y) key @ b"
  shows "x = y \<and> a = b"
  by (rule prefix_freeD [OF assms(1-3)]) (use assms(4) in \<open>simp add: RigExecOpKeyAppend_def\<close>)

lemma prefix_free_each:
  assumes "prefix_free D f" "\<And>x k. add x k = k @ f x" "xs \<in> sized D" "ys \<in> sized D"
    and "KeyArray_each add xs key @ a = KeyArray_each add ys key @ b"
  shows "xs = ys \<and> a = b"
  by (rule counted_split [OF assms(1,3,4)]) (use assms(5) in \<open>simp add: KeyArray_each_eq [OF assms(2)]\<close>)

lemma words_split:
  assumes "length v = n" "length w = n" and "RigExecOpKeyAppend (words_bytes 8 v) key @ a = RigExecOpKeyAppend (words_bytes 8 w) key @ b"
  shows "v = (w :: 64 word list) \<and> a = b"
  by (rule prefix_free_append [OF prefix_free_words(1) [where n = "length v"]]) (use assms in simp_all)

lemma words4_split:
  assumes "length v = n" "length w = n" and "RigExecOpKeyAppend (words_bytes 4 v) key @ a = RigExecOpKeyAppend (words_bytes 4 w) key @ b"
  shows "v = (w :: 32 word list) \<and> a = b"
  by (rule prefix_free_append [OF prefix_free_words(2) [where n = "length v"]]) (use assms in simp_all)

lemma string_split:
  assumes "v \<in> sized UNIV" "w \<in> sized UNIV" and "KeyAppend_string v key @ a = KeyAppend_string w key @ b"
  shows "v = w \<and> a = b"
  by (rule prefix_freeD [OF prefix_free_string assms(1,2)]) (use assms(3) in \<open>simp add: KeyAppend_string_eq\<close>)

lemmas key_splits =
  prefix_free_append [OF prefix_free_storage(1) UNIV_I UNIV_I] prefix_free_append [OF prefix_free_storage(2) UNIV_I UNIV_I]
  prefix_free_append [OF prefix_free_bool UNIV_I UNIV_I] words_split words4_split string_split prefix_free_frame
  prefix_free_array [OF prefix_free_storage(1)] prefix_free_array [OF prefix_free_storage(2)]
  prefix_free_array [OF prefix_free_words(1) [where n = 3]] prefix_free_array [OF prefix_free_words(1) [where n = 16]]
  prefix_free_array [OF prefix_free_words(2) [where n = 3]] prefix_free_array [OF prefix_free_words(2) [where n = 2]]
  prefix_free_each [OF prefix_free_string KeyAppend_string_eq]
  prefix_free_each [OF prefix_free_bool RigExecOpKeyAppend_def]

lemma same_key_same_value:
  assumes "alternative v = alternative w" "plain_ok v" "plain_ok w"
    and eq: "RigExecOpKeyPlainValue v key @ a = RigExecOpKeyPlainValue w key @ b"
  shows "v = w \<and> a = b"
proof -
  consider (frame) v' w' where "v = PV_frame v'" "w = PV_frame w'" | (other) "\<forall>f. v \<noteq> PV_frame f"
    using assms(1) by (cases v; cases w) simp_all
  then show ?thesis
  proof cases
    case frame
    have "v' = w' \<and> a = b" by (rule prefix_free_frame [OF assms(2-4) [unfolded frame]])
    then show ?thesis by (simp add: frame)
  next
    case other
    then show ?thesis using assms by (cases v; cases w) (auto dest: key_splits)
  qed
qed

text \<open>C18. The key of a provider's value is exact: two values of the same alternative have the same key,
  whatever bytes follow each of them in the whole key, exactly if they are the same value bit by
  bit (a signed zero or a NaN payload included) and what follows is the same. So neither the
  bounds of a string or an array nor the next field can make two different values look alike.\<close>
theorem plain_value_key_exact:
  assumes "alternative v = alternative w" "plain_ok v" "plain_ok w"
  shows "RigExecOpKeyPlainValue v key @ a = RigExecOpKeyPlainValue w key @ b \<longleftrightarrow> v = w \<and> a = b"
  using same_key_same_value [OF assms, of key a b] by blast

text \<open>Two strings and their concatenation, with whatever follows.\<close>

theorem plain_value_key_exact_witness:
  "\<forall>a b. RigExecOpKeyPlainValue (PV_strings [[65], [66]]) [1] @ a \<noteq> RigExecOpKeyPlainValue (PV_strings [[65, 66], []]) [1] @ b"
proof -
  have "alternative (PV_strings [[65], [66]]) = alternative (PV_strings [[65, 66], []])"
    "plain_ok (PV_strings [[65], [66]])" "plain_ok (PV_strings [[65, 66], []])" by (simp_all add: sized_def)
  from plain_value_key_exact [OF this, of "[1]"] show ?thesis by simp
qed

section \<open>Publication\<close>

text \<open>Publishing a value through its key and publishing the bytes in place leave the same value,
  the scratch buffer aside.\<close>

lemma publish_routes_agree:
  "RigExecOpPublishKeyBytes bytes x = (RigExecOpPublishValue (\<lambda>_ _. bytes) x)\<lparr>ov_scratch := ov_scratch x\<rparr>"
  by (auto simp: RigExecOpPublishKeyBytes_def RigExecOpPublishValue_def Let_def)

lemma publish_value:
  "ov_changed (RigExecOpPublishValue f x) \<longleftrightarrow> \<not> ov_initialized x \<or> ov_key (RigExecOpPublishValue f x) \<noteq> ov_key x"
  "ov_revision (RigExecOpPublishValue f x) = ov_revision x + of_bool (ov_changed (RigExecOpPublishValue f x))"
  "ov_initialized (RigExecOpPublishValue f x)"
  "ov_key (RigExecOpPublishValue f x) = f (ov_domain x) (ov_slot x)"
  by (simp_all add: RigExecOpPublishValue_def Let_def)

section \<open>Steps that hold output\<close>

datatype held_call = Call_Note nat bool | Call_Ascending

fun held_run :: "held_steps \<Rightarrow> held_call \<Rightarrow> held_steps" where
  "held_run h (Call_Note step holds) = Note_held step holds h"
| "held_run h Call_Ascending = snd (Ascending_held h)"

fun held_now :: "(nat \<Rightarrow> bool) \<Rightarrow> held_call \<Rightarrow> nat \<Rightarrow> bool" where
  "held_now f (Call_Note step holds) = f(step := holds)"
| "held_now f Call_Ascending = f"

fun held_call_ok :: "nat \<Rightarrow> held_call \<Rightarrow> bool" where
  "held_call_ok n (Call_Note step holds) \<longleftrightarrow> step < n"
| "held_call_ok n Call_Ascending \<longleftrightarrow> True"

definition held_inv :: "nat \<Rightarrow> (nat \<Rightarrow> bool) \<Rightarrow> held_steps \<Rightarrow> bool" where
  "held_inv n f h \<longleftrightarrow> length (hs_holding h) = n \<and> (\<forall>i < n. hs_holding h ! i = f i) \<and>
     set (hs_held h) \<subseteq> {..<n} \<and> {i. i < n \<and> f i} \<subseteq> set (hs_held h) \<and>
     (hs_ascending h \<longrightarrow> sorted_wrt (<) (hs_held h) \<and> set (hs_held h) = {i. i < n \<and> f i})"

lemma held_reset: "held_inv n (\<lambda>_. False) (Reset_held n)"
  by (simp add: held_inv_def Reset_held_def)

lemma held_ascending:
  assumes "held_inv n f h"
  shows "held_inv n f (snd (Ascending_held h))" "fst (Ascending_held h) = filter f [0..<n]"
proof -
  have sorted: "xs = filter f [0..<n]" if "sorted_wrt (<) xs" "set xs = {i. i < n \<and> f i}" for xs
  proof (rule sorted_distinct_set_unique)
    show "sorted xs" "distinct xs" using that(1) by (simp_all only: strict_sorted_iff)
    show "sorted (filter f [0..<n])" by (rule sorted_wrt_filter) simp
    show "distinct (filter f [0..<n])" by simp
    show "set xs = set (filter f [0..<n])" using that(2) by auto
  qed
  show inv: "held_inv n f (snd (Ascending_held h))"
  proof (cases "hs_ascending h")
    case True
    with assms show ?thesis by (simp add: Ascending_held_def)
  next
    case False
    let ?held = "vec_unique (filter (\<lambda>step. hs_holding h ! step) (hs_held h))"
    have "sorted_wrt (<) ?held" by (simp only: strict_sorted_iff sorted_vec_unique distinct_vec_unique)
    moreover have "set ?held = {i. i < n \<and> f i}" using assms by (auto simp: held_inv_def)
    moreover have "snd (Ascending_held h) = h\<lparr>hs_held := ?held, hs_ascending := True\<rparr>"
      using False by (simp add: Ascending_held_def Let_def)
    ultimately show ?thesis using assms by (auto simp: held_inv_def)
  qed
  have "hs_ascending (snd (Ascending_held h))" "fst (Ascending_held h) = hs_held (snd (Ascending_held h))"
    by (simp_all add: Ascending_held_def Let_def)
  with inv sorted show "fst (Ascending_held h) = filter f [0..<n]" by (simp add: held_inv_def)
qed

lemma held_note:
  assumes "held_inv n f h" "step < n"
  shows "held_inv n (f(step := holds)) (Note_held step holds h)"
proof (cases "hs_holding h ! step = holds")
  case True
  then have "f(step := holds) = f" using assms by (auto simp: held_inv_def fun_upd_idem_iff)
  with True assms show ?thesis by (simp add: Note_held_def)
next
  case False
  then have fs: "f step = (\<not> holds)" using assms by (auto simp: held_inv_def)
  show ?thesis
  proof (cases holds)
    case holding: True
    have "sorted_wrt (<) (hs_held h @ [step])" if "sorted_wrt (<) (hs_held h)" "hs_held h = [] \<or> last (hs_held h) < step"
      using that by (cases "hs_held h" rule: rev_cases) (auto simp: sorted_wrt_append)
    with False fs holding assms show ?thesis by (auto simp: held_inv_def Note_held_def nth_list_update)
  next
    case False
    with \<open>hs_holding h ! step \<noteq> holds\<close> fs assms show ?thesis
      by (auto simp: held_inv_def Note_held_def nth_list_update)
  qed
qed

lemma held_runs:
  assumes "held_inv n f h" "\<forall>c \<in> set calls. held_call_ok n c"
  shows "held_inv n (foldl held_now f calls) (foldl held_run h calls)"
  using assms
proof (induction calls arbitrary: f h)
  case (Cons c calls)
  then show ?case by (cases c) (auto intro: held_note held_ascending)
qed simp

text \<open>The list of steps that hold output is exact: after any calls of \<open>Note\<close> and
  \<open>Ascending\<close> since a reset, \<open>Ascending\<close> answers exactly the steps last noted as holding
  output, each once and in step order, whatever the order and repetition of the notes.\<close>
lemma held_steps_exact:
  assumes "\<forall>c \<in> set calls. held_call_ok n c"
  shows "fst (Ascending_held (foldl held_run (Reset_held n) calls)) = filter (foldl held_now (\<lambda>_. False) calls) [0..<n]"
  by (rule held_ascending(2) [OF held_runs [OF held_reset assms]])

section \<open>The changes of a run\<close>

definition in_state :: "adapter_state \<Rightarrow> value_id \<Rightarrow> bool" where
  "in_state st v \<longleftrightarrow> unat v < length (ad_values st)"

definition flag_at :: "adapter_state \<Rightarrow> value_id \<Rightarrow> bool" where
  "flag_at st v \<longleftrightarrow> in_state st v \<and> ov_changed (value_at st v)"

definition flags_known :: "adapter_state \<Rightarrow> bool" where
  "flags_known st \<longleftrightarrow> set (ad_changedValues st) = {v. flag_at st v}"

lemma put_value_simps [simp]:
  "length (ad_values (put_value v x st)) = length (ad_values st)"
  "ad_changedLeaves (put_value v x st) = ad_changedLeaves st"
  "ad_changedValues (put_value v x st) = ad_changedValues st"
  "in_state (put_value v x st) u \<longleftrightarrow> in_state st u"
  by (simp_all add: put_value_def in_state_def)

lemma value_at_put: "in_state st v \<Longrightarrow> value_at (put_value v x st) u = (if u = v then x else value_at st u)"
  by (auto simp: put_value_def value_at_def in_state_def nth_list_update dest: unsigned_word_eqI)

lemma value_at_update [simp]:
  "value_at (st\<lparr>ad_changedLeaves := xs\<rparr>) v = value_at st v" "value_at (st\<lparr>ad_changedValues := xs\<rparr>) v = value_at st v"
  "in_state (st\<lparr>ad_changedLeaves := xs\<rparr>) v = in_state st v" "in_state (st\<lparr>ad_changedValues := xs\<rparr>) v = in_state st v"
  by (simp_all add: value_at_def in_state_def)

lemma clear_fold:
  assumes "\<forall>v \<in> set vs. in_state st v"
  shows "\<exists>st'. foldl (\<lambda>st v. put_value v ((value_at st v)\<lparr>ov_changed := False\<rparr>) st) st vs = st' \<and>
     (\<forall>u. in_state st' u = in_state st u) \<and> ad_changedLeaves st' = ad_changedLeaves st \<and>
     (\<forall>u. in_state st u \<longrightarrow> value_at st' u = (if u \<in> set vs then (value_at st u)\<lparr>ov_changed := False\<rparr> else value_at st u))"
  using assms
proof (induction vs arbitrary: st)
  case (Cons v vs)
  let ?st = "put_value v ((value_at st v)\<lparr>ov_changed := False\<rparr>) st"
  from Cons.prems have "\<forall>u \<in> set vs. in_state ?st u" and v: "in_state st v" by simp_all
  from Cons.IH [OF this(1)] show ?case by (auto simp: value_at_put [OF v])
qed simp

lemma clear_changes:
  assumes "flags_known st"
  shows "in_state (RigExecOpClearChanges st) v = in_state st v"
    "ad_changedLeaves (RigExecOpClearChanges st) = ad_changedLeaves st"
    "in_state st v \<Longrightarrow> value_at (RigExecOpClearChanges st) v = (value_at st v)\<lparr>ov_changed := False\<rparr>"
proof -
  from assms have "\<forall>v \<in> set (ad_changedValues st). in_state st v" by (auto simp: flags_known_def flag_at_def)
  from clear_fold [OF this] obtain st' where st': "RigExecOpClearChanges st = st'\<lparr>ad_changedValues := []\<rparr>"
    "\<forall>u. in_state st' u = in_state st u" "ad_changedLeaves st' = ad_changedLeaves st"
    "\<forall>u. in_state st u \<longrightarrow> value_at st' u =
       (if u \<in> set (ad_changedValues st) then (value_at st u)\<lparr>ov_changed := False\<rparr> else value_at st u)"
    by (auto simp: RigExecOpClearChanges_def)
  from st' show "in_state (RigExecOpClearChanges st) v = in_state st v"
    "ad_changedLeaves (RigExecOpClearChanges st) = ad_changedLeaves st" by simp_all
  show "value_at (RigExecOpClearChanges st) v = (value_at st v)\<lparr>ov_changed := False\<rparr>" if "in_state st v"
    using that assms st' by (auto simp: flags_known_def flag_at_def)
qed

text \<open>Where the publication of some values has come to, from the values as they were cleared.\<close>

definition published :: "(value_id \<Rightarrow> op_value) \<Rightarrow> value_id set \<Rightarrow> adapter_state \<Rightarrow> bool" where
  "published base V st \<longleftrightarrow>
     (\<forall>v. in_state st v \<longrightarrow> (if v \<in> V then \<exists>f. value_at st v = RigExecOpPublishValue f (base v) else value_at st v = base v))"

lemma publish_at_step:
  assumes "published base V st" "in_state st v" "v \<notin> V"
  shows "published base (insert v V) (publish_at sample st v)"
  using assms by (auto simp: published_def publish_at_def value_at_put)

lemma publish_at_simps [simp]:
  "in_state (publish_at sample st v) u = in_state st u"
  "ad_changedLeaves (publish_at sample st v) = ad_changedLeaves st"
  by (simp_all add: publish_at_def)

lemma publish_at_other: "in_state st v \<Longrightarrow> u \<noteq> v \<Longrightarrow> value_at (publish_at sample st v) u = value_at st u"
  by (simp add: publish_at_def value_at_put)

lemma publish_writes:
  assumes "published base V st" "\<forall>v \<in> set vs. in_state st v" "distinct vs" "V \<inter> set vs = {}"
  shows "published base (V \<union> set vs) (foldl (publish_at sample) st vs) \<and>
    (\<forall>u. in_state (foldl (publish_at sample) st vs) u = in_state st u) \<and>
    ad_changedLeaves (foldl (publish_at sample) st vs) = ad_changedLeaves st \<and>
    (\<forall>u \<in> V. value_at (foldl (publish_at sample) st vs) u = value_at st u)"
  using assms
proof (induction vs arbitrary: V st)
  case (Cons v vs)
  have "published base (insert v V) (publish_at sample st v)" using Cons.prems by (intro publish_at_step) auto
  from Cons.IH [OF this] Cons.prems show ?case by (auto intro!: publish_at_other)
qed simp

lemma publish_ops:
  assumes "published base V st" "\<forall>c \<in> set cs. \<forall>v \<in> set (desc_writes (op_descriptor (g_ops graph ! c))). in_state st v"
    "distinct (concat (map (\<lambda>c. desc_writes (op_descriptor (g_ops graph ! c))) cs))"
    "V \<inter> (\<Union>c \<in> set cs. set (desc_writes (op_descriptor (g_ops graph ! c)))) = {}"
  shows "published base (V \<union> (\<Union>c \<in> set cs. set (desc_writes (op_descriptor (g_ops graph ! c))))) (foldl (publish_op graph sample) st cs) \<and>
    (\<forall>u. in_state (foldl (publish_op graph sample) st cs) u = in_state st u) \<and>
    ad_changedLeaves (foldl (publish_op graph sample) st cs) = ad_changedLeaves st \<and>
    (\<forall>u \<in> V. value_at (foldl (publish_op graph sample) st cs) u = value_at st u)"
  using assms
proof (induction cs arbitrary: V st)
  case (Cons c cs)
  let ?w = "desc_writes (op_descriptor (g_ops graph ! c))"
  have "published base (V \<union> set ?w) (publish_op graph sample st c) \<and>
    (\<forall>u. in_state (publish_op graph sample st c) u = in_state st u) \<and>
    ad_changedLeaves (publish_op graph sample st c) = ad_changedLeaves st \<and>
    (\<forall>u \<in> V. value_at (publish_op graph sample st c) u = value_at st u)"
    unfolding publish_op_def using Cons.prems by (intro publish_writes) auto
  note step = this
  have "(V \<union> set ?w) \<inter> (\<Union>c \<in> set cs. set (desc_writes (op_descriptor (g_ops graph ! c)))) = {}"
    using Cons.prems(3,4) by auto
  from Cons.IH [OF conjunct1 [OF step] _ _ this] step Cons.prems show ?case by (auto simp: Un_assoc)
qed simp

lemma publish_leaves:
  assumes "published base V st" "\<forall>v \<in> set vs. in_state st v" "distinct vs" "V \<inter> set vs = {}"
  shows "\<exists>st'. foldl (publish_leaf sample) st vs = st' \<and> published base (V \<union> set vs) st' \<and>
    (\<forall>u. in_state st' u = in_state st u) \<and> (\<forall>u \<in> V. value_at st' u = value_at st u) \<and>
    ad_changedLeaves st' = ad_changedLeaves st @ filter (\<lambda>v. ov_changed (value_at st' v)) vs"
  using assms
proof (induction vs arbitrary: V st)
  case (Cons v vs)
  let ?st = "publish_at sample st v"
  have pub: "published base (insert v V) ?st" using Cons.prems by (intro publish_at_step) auto
  have leaf: "publish_leaf sample st v = ?st\<lparr>ad_changedLeaves := ad_changedLeaves st @ filter (\<lambda>v. ov_changed (value_at ?st v)) [v]\<rparr>"
    by (simp add: publish_leaf_def Let_def)
  have "published base (insert v V) (publish_leaf sample st v)" using pub by (simp add: leaf published_def)
  from Cons.IH [OF this] Cons.prems obtain st' where st': "foldl (publish_leaf sample) (publish_leaf sample st v) vs = st'"
    "published base (insert v V \<union> set vs) st'" "\<forall>u. in_state st' u = in_state (publish_leaf sample st v) u"
    "\<forall>u \<in> insert v V. value_at st' u = value_at (publish_leaf sample st v) u"
    "ad_changedLeaves st' = ad_changedLeaves (publish_leaf sample st v) @ filter (\<lambda>v. ov_changed (value_at st' v)) vs"
    by (auto simp: leaf)
  have "value_at st' u = value_at st u" if "u \<in> V" for u
    using st'(4) that Cons.prems by (auto simp: leaf intro!: publish_at_other)
  then show ?case using st' Cons.prems by (intro exI [of _ st'] conjI) (auto simp: leaf)
qed simp

lemma gather_step:
  "gather graph ran_flags st c = st\<lparr>ad_changedValues := ad_changedValues st @
     (if c < length (g_ops graph) \<and> c < length ran_flags \<and> ran_flags ! c
      then filter (\<lambda>v. ov_changed (value_at st v)) (desc_writes (op_descriptor (g_ops graph ! c))) else [])\<rparr>"
proof -
  have "foldl (\<lambda>st v. if ov_changed (value_at st v) then st\<lparr>ad_changedValues := ad_changedValues st @ [v]\<rparr> else st) st vs =
      st\<lparr>ad_changedValues := ad_changedValues st @ filter (\<lambda>v. ov_changed (value_at st v)) vs\<rparr>" for vs
    by (induction vs arbitrary: st) simp_all
  then show ?thesis by (auto simp: gather_def)
qed

definition did_run :: "compiled_graph \<Rightarrow> bool list \<Rightarrow> nat \<Rightarrow> bool" where
  "did_run graph ran_flags c \<longleftrightarrow> c < length (g_ops graph) \<and> c < length ran_flags \<and> ran_flags ! c"

lemma gather_fold:
  "foldl (gather graph ran_flags) st cs = st\<lparr>ad_changedValues := ad_changedValues st @
     concat (map (\<lambda>c. filter (\<lambda>v. ov_changed (value_at st v)) (desc_writes (op_descriptor (g_ops graph ! c))))
       (filter (did_run graph ran_flags) cs))\<rparr>"
  by (induction cs arbitrary: st) (simp_all add: gather_step did_run_def)

definition op_publishes :: "compiled_graph \<Rightarrow> nat \<Rightarrow> value_id list" where
  "op_publishes graph c = desc_writes (op_descriptor (g_ops graph ! c))"

text \<open>Each value of a run is published once at most: some of its leaves, and the writes of the
  operations that ran, in the order they completed; a body that failed published nothing.\<close>

definition publishes_once :: "compiled_graph \<Rightarrow> value_id list \<Rightarrow> nat list \<Rightarrow> bool list \<Rightarrow> adapter_state \<Rightarrow> bool" where
  "publishes_once graph leaves completed ran_flags st \<longleftrightarrow>
     set completed \<subseteq> {c. did_run graph ran_flags c} \<and>
     distinct (leaves @ concat (map (op_publishes graph) completed)) \<and> (\<forall>v \<in> set leaves. in_state st v) \<and>
     (\<forall>c. did_run graph ran_flags c \<longrightarrow> (\<forall>v \<in> set (op_publishes graph c). in_state st v))"

lemma gather_sparse:
  assumes "sorted cs" "distinct cs" "{c. did_run graph ran_flags c} \<subseteq> set cs"
  shows "RigExecOpGatherChanges graph ran_flags (Some cs) st = RigExecOpGatherChanges graph ran_flags None st"
proof -
  let ?all = "[0..<min (length (g_ops graph)) (length ran_flags)]"
  have "filter (did_run graph ran_flags) cs = filter (did_run graph ran_flags) ?all"
    using assms by (intro sorted_distinct_set_unique) (auto simp: did_run_def intro: sorted_wrt_filter)
  then show ?thesis by (simp add: RigExecOpGatherChanges_def gather_fold)
qed

lemma gather_values:
  "set (ad_changedValues (RigExecOpGatherChanges graph ran_flags None st)) =
     set (ad_changedLeaves st) \<union> {v. (\<exists>c. did_run graph ran_flags c \<and> v \<in> set (op_publishes graph c)) \<and> ov_changed (value_at st v)}"
  "value_at (RigExecOpGatherChanges graph ran_flags None st) v = value_at st v"
  "in_state (RigExecOpGatherChanges graph ran_flags None st) v = in_state st v"
  by (auto simp: RigExecOpGatherChanges_def gather_fold op_publishes_def did_run_def)

text \<open>One run, from a state whose flags are those the run before gathered.\<close>

lemma run_changes:
  assumes known: "flags_known st" and ready: "publishes_once graph leaves completed ran_flags st"
    and sparse: "case candidates of None \<Rightarrow> True | Some cs \<Rightarrow> sorted cs \<and> distinct cs \<and> {c. did_run graph ran_flags c} \<subseteq> set cs"
    and run: "st' = run_values graph leafSample opSample leaves completed ran_flags candidates st"
  shows "flags_known st' \<and> (\<forall>v. in_state st' v = in_state st v) \<and>
     (\<forall>v. in_state st v \<longrightarrow>
        (flag_at st' v \<longleftrightarrow> v \<in> set (leaves @ concat (map (op_publishes graph) completed)) \<and>
           (\<not> ov_initialized (value_at st v) \<or> ov_key (value_at st' v) \<noteq> ov_key (value_at st v))) \<and>
        ov_revision (value_at st' v) = ov_revision (value_at st v) + of_bool (flag_at st' v) \<and>
        (v \<notin> set (leaves @ concat (map (op_publishes graph) completed)) \<longrightarrow> ov_key (value_at st' v) = ov_key (value_at st v)))"
proof -
  let ?st = "st\<lparr>ad_changedLeaves := []\<rparr>" and ?W = "set (concat (map (op_publishes graph) completed))"
  define s1 where "s1 = RigExecOpClearChanges ?st"
  have "flags_known ?st" using known by (simp add: flags_known_def flag_at_def)
  note clear = clear_changes [OF this, folded s1_def]
  have base: "published (value_at s1) {} s1" by (simp add: published_def)
  let ?R = "\<Union>c \<in> {c. did_run graph ran_flags c}. set (op_publishes graph c)"
  have parts: "?W \<subseteq> ?R" "distinct leaves"
    "distinct (concat (map (\<lambda>c. desc_writes (op_descriptor (g_ops graph ! c))) completed))"
    "set leaves \<inter> ?W = {}" "\<forall>v \<in> set leaves. in_state st v" "\<forall>v \<in> ?R. in_state st v"
    "\<forall>v \<in> ?W. in_state st v"
    using ready by (auto simp: publishes_once_def op_publishes_def [abs_def])
  obtain s2 where s2: "foldl (publish_leaf leafSample) s1 leaves = s2" "published (value_at s1) (set leaves) s2"
    "\<forall>u. in_state s2 u = in_state st u" "ad_changedLeaves s2 = filter (\<lambda>v. ov_changed (value_at s2 v)) leaves"
    using publish_leaves [OF base, of leaves leafSample] parts(2,5) by (auto simp: clear)
  define s3 where "s3 = foldl (publish_op graph opSample) s2 completed"
  have s3: "published (value_at s1) (set leaves \<union> ?W) s3" "\<forall>u. in_state s3 u = in_state st u"
    "ad_changedLeaves s3 = ad_changedLeaves s2" "\<forall>u \<in> set leaves. value_at s3 u = value_at s2 u"
    using publish_ops [OF s2(2), of completed graph opSample] parts(3,4,7) s2(3)
    by (simp_all add: s3_def op_publishes_def)
  have "RigExecOpGatherChanges graph ran_flags candidates s3 = RigExecOpGatherChanges graph ran_flags None s3"
    using sparse gather_sparse by (cases candidates) auto
  then have st': "st' = RigExecOpGatherChanges graph ran_flags None s3"
    unfolding run run_values_def Let_def s1_def [symmetric] s2(1) s3_def [symmetric] .
  note at = gather_values(2,3) [of graph ran_flags s3, folded st']
  have listed: "set (ad_changedValues st') = {v \<in> set leaves \<union> ?R. ov_changed (value_at s3 v)}"
    unfolding st' gather_values(1) s3(3) s2(4) using s3(4) by auto
  have now: "if v \<in> set leaves \<union> ?W then \<exists>f. value_at st' v = RigExecOpPublishValue f ((value_at st v)\<lparr>ov_changed := False\<rparr>)
      else value_at st' v = (value_at st v)\<lparr>ov_changed := False\<rparr>" if "in_state st v" for v
  proof -
    have c: "value_at s1 v = (value_at st v)\<lparr>ov_changed := False\<rparr>" using clear(3) [of v] that by simp
    from s3(1,2) that have "if v \<in> set leaves \<union> ?W then \<exists>f. value_at s3 v = RigExecOpPublishValue f (value_at s1 v)
        else value_at s3 v = value_at s1 v" unfolding published_def by blast
    then show ?thesis unfolding at c .
  qed
  define P Q where PQ: "P = set leaves \<union> ?W" "Q = set leaves \<union> ?R"
  note now = now [folded PQ(1)] and listed = listed [folded PQ(2)]
  have incl: "P \<subseteq> Q" using parts(1) by (auto simp only: PQ Un_iff subset_iff)
  have range: "in_state st v" if "v \<in> Q" for v using parts(5,6) that by (auto simp only: PQ Un_iff)
  have "flag_at st' v \<longleftrightarrow> v \<in> set (ad_changedValues st')" for v
  proof (cases "in_state st v")
    case True
    then show ?thesis using now [OF True] subsetD [OF incl, of v] by (auto simp: listed flag_at_def at s3(2) split: if_splits)
  next
    case False
    then show ?thesis using range [of v] by (auto simp: listed flag_at_def at s3(2))
  qed
  then have "flags_known st'" by (auto simp: flags_known_def)
  moreover have "\<forall>v. in_state st' v = in_state st v" by (simp add: at s3(2))
  moreover have "flag_at st' v \<longleftrightarrow> v \<in> P \<and>
      (\<not> ov_initialized (value_at st v) \<or> ov_key (value_at st' v) \<noteq> ov_key (value_at st v))"
    "ov_revision (value_at st' v) = ov_revision (value_at st v) + of_bool (flag_at st' v)"
    "v \<notin> P \<Longrightarrow> ov_key (value_at st' v) = ov_key (value_at st v)" if "in_state st v" for v
    using now [OF that] that publish_value(1,2) by (auto simp: flag_at_def at s3(2) split: if_splits)
  ultimately show ?thesis unfolding set_append PQ(1) by blast
qed

end
