(* ===== verification/Op_Adapter.thy ===== *)
theory Op_Adapter
  imports Op_Values
begin

text \<open>
  \<open>RigExecOpCompileAdapter\<close> of \<open>rigExecGraph/opValues.h\<close>: from steps that read and write ranges of
  typed slots to descriptors over value ids, the compiled graph, and the renumbering of the
  values by domain and slot. A backend's step enters as what its accessors answer.
\<close>

section \<open>Steps\<close>

record typed_range =
  tr_domain :: nat
  tr_begin :: nat
  tr_end :: nat

record typed_step =
  ts_key :: string
  ts_kind :: "32 word"
  ts_externalReads :: bool
  ts_reads :: "typed_range list"
  ts_writes :: "typed_range list"
  ts_semantic :: "string list"

type_synonym typed_slot = "nat \<times> nat"

text \<open>The slots of a list of ranges in the order of the nested loops.\<close>

definition range_slots :: "typed_range list \<Rightarrow> typed_slot list" where
  "range_slots ranges = concat (map (\<lambda>r. map (Pair (tr_domain r)) [tr_begin r..<tr_end r]) ranges)"

datatype adapter_error =
    TypedProducers typed_slot string string
  | SemanticPredecessor string string
  | TypedReadHasNoProducer string typed_slot
  | OpGraphError graph_error

section \<open>Values and descriptors\<close>

record adapter_build =
  ab_state :: adapter_state
  ab_values :: "typed_slot \<Rightarrow> value_id option"

definition add_typed :: "typed_slot \<Rightarrow> adapter_build \<Rightarrow> value_id \<times> adapter_build" where
  "add_typed typed b =
     (case RigExecOpAddValue (fst typed) (snd typed) (ab_state b) of
        (v, state) \<Rightarrow> (v, b\<lparr>ab_state := state, ab_values := (ab_values b)(typed \<mapsto> v)\<rparr>))"

definition write_slot ::
  "typed_step list \<Rightarrow> nat \<Rightarrow> adapter_build \<times> (typed_slot \<Rightarrow> nat option) \<times> value_id list \<Rightarrow> typed_slot \<Rightarrow>
     adapter_error + adapter_build \<times> (typed_slot \<Rightarrow> nat option) \<times> value_id list" where
  "write_slot steps i = (\<lambda>(b, writers, vs) typed.
     let writers' = (if writers typed = None then writers(typed \<mapsto> i) else writers);
         first = the (writers' typed)
     in if first \<noteq> i then Inl (TypedProducers typed (ts_key (steps ! first)) (ts_key (steps ! i)))
        else case ab_values b typed of
            Some v \<Rightarrow> Inr (b, writers', vs @ [v])
          | None \<Rightarrow> (case add_typed typed b of (v, b') \<Rightarrow> Inr (b', writers', vs @ [v])))"

definition write_step ::
  "typed_step list \<Rightarrow> adapter_build \<times> (typed_slot \<Rightarrow> nat option) \<times> value_id list list \<Rightarrow> nat \<Rightarrow>
     adapter_error + adapter_build \<times> (typed_slot \<Rightarrow> nat option) \<times> value_id list list" where
  "write_step steps = (\<lambda>(b, writers, writes) i.
     bind_err (fold_err (write_slot steps i) (b, writers, []) (range_slots (ts_writes (steps ! i))))
       (\<lambda>(b', writers', vs). Inr (b', writers', writes @ [vs])))"

text \<open>\<open>byKey.emplace\<close> keeps the first step of a key.\<close>

definition step_of_key :: "typed_step list \<Rightarrow> string \<Rightarrow> nat option" where
  "step_of_key steps key = find (\<lambda>i. ts_key (steps ! i) = key) [0..<length steps]"

definition semantic_step :: "typed_step list \<Rightarrow> nat list list \<Rightarrow> nat \<Rightarrow> adapter_error + nat list list" where
  "semantic_step steps preds i =
     bind_err (fold_err (\<lambda>ps key. case step_of_key steps key of
           None \<Rightarrow> Inl (SemanticPredecessor (ts_key (steps ! i)) key)
         | Some p \<Rightarrow> Inr (ps @ [p])) [] (ts_semantic (steps ! i)))
       (\<lambda>ps. Inr (preds @ [ps]))"

definition read_slot ::
  "(typed_slot \<Rightarrow> bool) \<Rightarrow> typed_step \<Rightarrow> adapter_build \<times> value_id list \<Rightarrow> typed_slot \<Rightarrow>
     adapter_error + adapter_build \<times> value_id list" where
  "read_slot sampled step = (\<lambda>(b, vs) typed.
     case ab_values b typed of
       Some v \<Rightarrow> Inr (b, vs @ [v])
     | None \<Rightarrow>
         if \<not> sampled typed then Inl (TypedReadHasNoProducer (ts_key step) typed)
         else case add_typed typed b of (v, b') \<Rightarrow>
           Inr (b'\<lparr>ab_state := (ab_state b')\<lparr>ad_leaves := ad_leaves (ab_state b') @ [v]\<rparr>\<rparr>, vs @ [v]))"

definition read_step ::
  "(typed_slot \<Rightarrow> bool) \<Rightarrow> adapter_build \<times> value_id list list \<Rightarrow> typed_step \<Rightarrow>
     adapter_error + adapter_build \<times> value_id list list" where
  "read_step sampled = (\<lambda>(b, reads) step.
     bind_err (fold_err (read_slot sampled step) (b, []) (range_slots (ts_reads step)))
       (\<lambda>(b', vs). Inr (b', reads @ [vs])))"

definition descriptor_of :: "typed_step \<Rightarrow> value_id list \<Rightarrow> value_id list \<Rightarrow> nat list \<Rightarrow> op_descriptor" where
  "descriptor_of step reads writes preds =
     \<lparr> desc_key = ts_key step, desc_kind = ts_kind step, desc_reads = reads, desc_writes = writes,
       desc_predecessors = preds, desc_volatileInput = ts_externalReads step \<rparr>"

definition adapter_descriptors ::
  "typed_step list \<Rightarrow> (typed_slot \<Rightarrow> bool) \<Rightarrow> adapter_error + adapter_state \<times> op_descriptor list" where
  "adapter_descriptors steps sampled =
     bind_err (fold_err (write_step steps) (\<lparr>ab_state = new_adapter, ab_values = Map.empty\<rparr>, Map.empty, []) [0..<length steps])
       (\<lambda>(b, writers, writes).
     bind_err (fold_err (semantic_step steps) [] [0..<length steps])
       (\<lambda>preds.
     bind_err (fold_err (read_step sampled) (b, []) steps)
       (\<lambda>(b', reads).
        Inr (ab_state b', map (\<lambda>i. descriptor_of (steps ! i) (reads ! i) (writes ! i) (preds ! i)) [0..<length steps]))))"

section \<open>Canonical values\<close>

text \<open>The order of the values by domain and slot; \<open>remap\<close> takes an id to its place in it.\<close>

definition slot_of :: "op_value \<Rightarrow> typed_slot" where
  "slot_of v = (ov_domain v, ov_slot v)"

definition value_order :: "op_value list \<Rightarrow> nat list" where
  "value_order values = sort_key (\<lambda>a. slot_of (values ! a)) [0..<length values]"

definition value_remap :: "op_value list \<Rightarrow> value_id list" where
  "value_remap values =
     (let order = value_order values
      in foldl (\<lambda>remap i. remap[order ! i := of_nat i]) (replicate (length values) 0) [0..<length order])"

definition remap_op :: "(value_id \<Rightarrow> value_id) \<Rightarrow> compiled_op \<Rightarrow> compiled_op" where
  "remap_op remap oper =
     (let d = op_descriptor oper
      in oper\<lparr>op_descriptor := d\<lparr>desc_reads := vec_unique (map remap (desc_reads d)),
                                  desc_writes := vec_unique (map remap (desc_writes d))\<rparr>\<rparr>)"

definition remap_readers :: "(value_id \<Rightarrow> value_id) \<Rightarrow> compiled_op list \<Rightarrow> value_id \<Rightarrow> nat list option" where
  "remap_readers remap ops =
     (\<lambda>v. map_option remdups_adj
        (foldl (\<lambda>readers i. foldl (add_reader i) readers (map remap (desc_reads (op_descriptor (ops ! i)))))
           Map.empty [0..<length ops] v))"

definition excluded_writes :: "compiled_graph \<Rightarrow> op_descriptor list \<Rightarrow> value_id list" where
  "excluded_writes graph descs =
     concat (map (\<lambda>i. if g_canonicalIndex graph ! i < 0 then desc_writes (descs ! i) else []) [0..<length descs])"

definition canonical_values ::
  "compiled_graph \<Rightarrow> op_descriptor list \<Rightarrow> adapter_state \<Rightarrow> compiled_graph \<times> adapter_state" where
  "canonical_values graph descs state =
     (let excluded = excluded_writes graph descs; values = ad_values state;
          order = value_order values;
          remap = (\<lambda>v. value_remap values ! unat v)
      in (graph\<lparr>g_ops := map (remap_op remap) (g_ops graph), g_readers := remap_readers remap (g_ops graph)\<rparr>,
          state\<lparr>ad_values := map (\<lambda>i. values ! i) order, ad_excludedValues := map remap excluded,
                ad_leaves := vec_unique (map remap (ad_leaves state @ excluded)), ad_compiled := True\<rparr>))"

definition RigExecOpCompileAdapter ::
  "typed_step list \<Rightarrow> (typed_slot \<Rightarrow> bool) \<Rightarrow> cycle_policy \<Rightarrow> exclusion_proof option \<Rightarrow>
     adapter_error + compiled_graph \<times> adapter_state" where
  "RigExecOpCompileAdapter steps sampled cyclePolicy retainedExclusions =
     bind_err (adapter_descriptors steps sampled)
       (\<lambda>(state, descs).
          case RigExecCompileOpGraph descs (ad_leaves state) cyclePolicy retainedExclusions of
            Inl e \<Rightarrow> Inl (OpGraphError e)
          | Inr graph \<Rightarrow> Inr (canonical_values graph descs state))"

end
