(* ===== verification/Op_Slots.thy ===== *)
theory Op_Slots
  imports Op_Adapter Op_Correct
begin

text \<open>
  What the adapter's three loops build: every typed slot has one value id, its position among
  the slots met so far; the loops succeed exactly when no slot has two writing steps, every
  semantic prerequisite names a step and every slot read is written or sampled.
\<close>

section \<open>Slots of steps\<close>

abbreviation written :: "typed_step list \<Rightarrow> nat \<Rightarrow> typed_slot list" where
  "written steps i \<equiv> range_slots (ts_writes (steps ! i))"

abbreviation slots_read :: "typed_step list \<Rightarrow> nat \<Rightarrow> typed_slot list" where
  "slots_read steps i \<equiv> range_slots (ts_reads (steps ! i))"

definition written_upto :: "typed_step list \<Rightarrow> nat \<Rightarrow> typed_slot set" where
  "written_upto steps k = (\<Union>i < k. set (written steps i))"

definition read_upto :: "typed_step list \<Rightarrow> nat \<Rightarrow> typed_slot set" where
  "read_upto steps k = (\<Union>i < k. set (slots_read steps i))"

definition used_slots :: "typed_step list \<Rightarrow> typed_slot set" where
  "used_slots steps = written_upto steps (length steps) \<union> read_upto steps (length steps)"

definition single_upto :: "typed_step list \<Rightarrow> nat \<Rightarrow> bool" where
  "single_upto steps k \<longleftrightarrow> (\<forall>i < k. \<forall>j < i. set (written steps i) \<inter> set (written steps j) = {})"

definition semantic_ok :: "typed_step list \<Rightarrow> bool" where
  "semantic_ok steps \<longleftrightarrow> (\<forall>step \<in> set steps. set (ts_semantic step) \<subseteq> ts_key ` set steps)"

definition reads_ok :: "typed_step list \<Rightarrow> (typed_slot \<Rightarrow> bool) \<Rightarrow> bool" where
  "reads_ok steps sampled \<longleftrightarrow>
     (\<forall>s \<in> read_upto steps (length steps). s \<in> written_upto steps (length steps) \<or> sampled s)"

lemma upto_Suc [simp]:
  "written_upto steps (Suc k) = written_upto steps k \<union> set (written steps k)"
  "read_upto steps (Suc k) = read_upto steps k \<union> set (slots_read steps k)"
  "written_upto steps 0 = {}" "read_upto steps 0 = {}"
  by (auto simp: written_upto_def read_upto_def less_Suc_eq)

lemma single_upto_Suc [simp]:
  "single_upto steps (Suc k) \<longleftrightarrow> single_upto steps k \<and> set (written steps k) \<inter> written_upto steps k = {}"
  "single_upto steps 0"
proof -
  show "single_upto steps (Suc k) \<longleftrightarrow> single_upto steps k \<and> set (written steps k) \<inter> written_upto steps k = {}"
    unfolding single_upto_def written_upto_def less_Suc_eq by blast
qed (simp add: single_upto_def)

lemma finite_used_slots [simp]: "finite (used_slots steps)"
  by (simp add: used_slots_def written_upto_def read_upto_def)

section \<open>Ids by position\<close>

definition id_in :: "'a list \<Rightarrow> 'a \<Rightarrow> value_id option" where
  "id_in known = map_of (zip known (map of_nat [0..<length known]))"

lemma id_in_None_iff: "id_in known s = None \<longleftrightarrow> s \<notin> set known"
  by (simp add: id_in_def map_of_eq_None_iff image_iff set_zip in_set_conv_nth) (metis nth_zip)

lemma id_in_append: "s \<in> set known \<Longrightarrow> id_in (known @ extra) s = id_in known s"
proof -
  assume s: "s \<in> set known"
  have "zip (known @ extra) (map of_nat [0..<length (known @ extra)]) =
      zip known (map of_nat [0..<length known]) @ zip extra (map of_nat [length known..<length known + length extra] :: value_id list)"
    by (simp add: upt_add_eq_append [of 0] zip_append1)
  then show ?thesis using s id_in_None_iff [of known s] by (auto simp: id_in_def map_add_def split: option.split)
qed

lemma id_in_new: "s \<notin> set known \<Longrightarrow> id_in (known @ [s]) s = Some (of_nat (length known))"
proof -
  assume s: "s \<notin> set known"
  have "zip (known @ [s]) (map of_nat [0..<length (known @ [s])]) =
      zip known (map of_nat [0..<length known]) @ [(s, of_nat (length known) :: value_id)]"
    by simp
  moreover have "map_of (zip known (map of_nat [0..<length known])) s = (None :: value_id option)"
    using id_in_None_iff [of known s] s by (simp add: id_in_def)
  ultimately show ?thesis
    by (simp only: id_in_def map_of_append map_add_def option.case map_of.simps fst_conv snd_conv fun_upd_same)
qed

lemma id_in_nth: "distinct known \<Longrightarrow> i < length known \<Longrightarrow> id_in known (known ! i) = Some (of_nat i)"
  unfolding id_in_def by (rule map_of_is_SomeI) (auto simp: set_zip intro!: exI [of _ i])

definition slot_id :: "'a list \<Rightarrow> 'a \<Rightarrow> value_id" where
  "slot_id known s = the (id_in known s)"

lemma slot_id_append: "s \<in> set known \<Longrightarrow> slot_id (known @ extra) s = slot_id known s"
  by (simp add: slot_id_def id_in_append)

lemma slot_id_nth: "distinct known \<Longrightarrow> i < length known \<Longrightarrow> slot_id known (known ! i) = of_nat i"
  by (simp add: slot_id_def id_in_nth)

lemma map_slot_id_append: "set ss \<subseteq> set known \<Longrightarrow> map (slot_id (known @ extra)) ss = map (slot_id known) ss"
  by (auto simp: slot_id_append)

lemma unat_of_nat_small: "n < 2 ^ 64 \<Longrightarrow> unat (of_nat n :: 64 word) = n"
  by (simp add: unsigned_of_nat take_bit_nat_eq_self)

text \<open>Fewer than 2^64 slots have ids that do not wrap.\<close>

lemma slot_id_unat:
  assumes "distinct known" "length known \<le> 2 ^ 64" "i < length known"
  shows "unat (slot_id known (known ! i)) = i"
  using assms by (simp add: slot_id_nth unat_of_nat_small)

lemma slot_id_inj:
  assumes "distinct known" "length known \<le> 2 ^ 64"
  shows "inj_on (slot_id known) (set known)"
proof (rule inj_onI)
  fix s t assume "s \<in> set known" "t \<in> set known" and eq: "slot_id known s = slot_id known t"
  then obtain i j where "s = known ! i" "i < length known" "t = known ! j" "j < length known"
    by (metis in_set_conv_nth)
  then show "s = t" using slot_id_unat [OF assms] eq by metis
qed

section \<open>The loops\<close>

text \<open>The slots known so far, each with the value it was given.\<close>

definition build_ok :: "adapter_build \<Rightarrow> typed_slot list \<Rightarrow> bool" where
  "build_ok b known \<longleftrightarrow> distinct known \<and> ab_values b = id_in known \<and>
     ad_values (ab_state b) = map (\<lambda>s. new_value (fst s) (snd s)) known"

lemma build_ok_add:
  assumes "build_ok b known" "s \<notin> set known" "add_typed s b = (v, b')"
  shows "build_ok b' (known @ [s])" "v = slot_id (known @ [s]) s"
    "ab_state b' = (ab_state b)\<lparr>ad_values := ad_values (ab_state b')\<rparr>"
proof -
  have v: "v = of_nat (length known)"
    and b': "b' = b\<lparr>ab_state := (ab_state b)\<lparr>ad_values := ad_values (ab_state b) @ [new_value (fst s) (snd s)]\<rparr>,
        ab_values := (ab_values b)(s \<mapsto> of_nat (length known))\<rparr>"
    using assms(1,3) by (auto simp: add_typed_def RigExecOpAddValue_def build_ok_def)
  have "(id_in known)(s \<mapsto> of_nat (length known)) = id_in (known @ [s])"
  proof
    fix t
    consider "t = s" | "t \<noteq> s" "t \<in> set known" | "t \<noteq> s" "t \<notin> set known" by blast
    then show "((id_in known)(s \<mapsto> of_nat (length known))) t = id_in (known @ [s]) t"
    proof cases
      case 3
      then have "id_in known t = None" "id_in (known @ [s]) t = None" by (simp_all add: id_in_None_iff)
      then show ?thesis using 3 by simp
    qed (simp_all add: id_in_new [OF assms(2)] id_in_append)
  qed
  then show "build_ok b' (known @ [s])" using assms(1,2) b' by (simp add: build_ok_def)
  show "v = slot_id (known @ [s]) s" using id_in_new [OF assms(2)] v by (simp add: slot_id_def)
  show "ab_state b' = (ab_state b)\<lparr>ad_values := ad_values (ab_state b')\<rparr>" using b' by simp
qed

lemma build_ok_lookup:
  "build_ok b known \<Longrightarrow> ab_values b s = (if s \<in> set known then Some (slot_id known s) else None)"
  using id_in_None_iff [of known s] by (auto simp: build_ok_def slot_id_def)


definition extends :: "'a list \<Rightarrow> 'a list \<Rightarrow> bool" where
  "extends known known' \<longleftrightarrow> (\<exists>extra. known' = known @ extra)"

lemma extends_refl [simp]: "extends known known" "extends known (known @ extra)"
  by (simp_all add: extends_def)

lemma extends_trans: "extends a b \<Longrightarrow> extends b c \<Longrightarrow> extends a c"
  by (auto simp: extends_def)

lemma extends_ids: "extends known known' \<Longrightarrow> set ss \<subseteq> set known \<Longrightarrow> map (slot_id known') ss = map (slot_id known) ss"
  by (auto simp: extends_def slot_id_append)

text \<open>The slots one step writes: the writers map gets the step for each of them.\<close>

definition same_leaves :: "adapter_build \<Rightarrow> adapter_build \<Rightarrow> bool" where
  "same_leaves b b' \<longleftrightarrow> ab_state b' = (ab_state b)\<lparr>ad_values := ad_values (ab_state b')\<rparr>"

lemma same_leaves_trans: "same_leaves a b \<Longrightarrow> same_leaves b c \<Longrightarrow> same_leaves a c"
  unfolding same_leaves_def by (cases "ab_state a"; cases "ab_state b"; cases "ab_state c") simp

lemma write_slot_ok:
  assumes "build_ok b known" "writers s \<in> {None, Some i}"
  shows "\<exists>b' known'. write_slot steps i (b, writers, vs) s = Inr (b', writers(s \<mapsto> i), vs @ [slot_id known' s]) \<and>
     build_ok b' known' \<and> extends known known' \<and> set known' = insert s (set known) \<and> same_leaves b b'"
proof (cases "s \<in> set known")
  case True
  then have "write_slot steps i (b, writers, vs) s = Inr (b, writers(s \<mapsto> i), vs @ [slot_id known s])"
    using assms build_ok_lookup [OF assms(1), of s] by (auto simp: write_slot_def fun_upd_idem)
  then show ?thesis using assms(1) True by (intro exI [where x = b] exI [where x = known]) (auto simp: same_leaves_def)
next
  case False
  obtain v b' where new: "add_typed s b = (v, b')" by fastforce
  note step = build_ok_add [OF assms(1) False new]
  have "write_slot steps i (b, writers, vs) s = Inr (b', writers(s \<mapsto> i), vs @ [slot_id (known @ [s]) s])"
    using assms(2) False build_ok_lookup [OF assms(1), of s] new step(2) by (auto simp: write_slot_def fun_upd_idem)
  then show ?thesis using step(1,3)
    by (intro exI [where x = b'] exI [where x = "known @ [s]"]) (auto simp: same_leaves_def)
qed

lemma write_slot_fails:
  "writers s \<notin> {None, Some i} \<Longrightarrow> \<exists>e. write_slot steps i (b, writers, vs) s = Inl e"
  by (auto simp: write_slot_def)

lemma write_slots:
  assumes "build_ok b known" "\<forall>s \<in> set ss. writers s \<in> {None, Some i}"
  shows "\<exists>b' known'. fold_err (write_slot steps i) (b, writers, vs) ss =
       Inr (b', (\<lambda>s. if s \<in> set ss then Some i else writers s), vs @ map (slot_id known') ss) \<and>
     build_ok b' known' \<and> extends known known' \<and> set known' = set known \<union> set ss \<and> same_leaves b b'"
  using assms
proof (induction ss arbitrary: b known writers vs)
  case Nil
  then show ?case by (intro exI [where x = b] exI [where x = known]) (auto simp: same_leaves_def)
next
  case (Cons s ss)
  have "writers s \<in> {None, Some i}" using Cons.prems(2) by simp
  from write_slot_ok [where vs = vs and steps = steps and writers = writers and s = s, OF Cons.prems(1) this] obtain b1 known1 where one:
    "write_slot steps i (b, writers, vs) s = Inr (b1, writers(s \<mapsto> i), vs @ [slot_id known1 s])"
    "build_ok b1 known1" "extends known known1" "set known1 = insert s (set known)" "same_leaves b b1" by blast
  have "\<forall>t \<in> set ss. (writers(s \<mapsto> i)) t \<in> {None, Some i}" using Cons.prems(2) by simp
  from Cons.IH [where vs = "vs @ [slot_id known1 s]" and writers = "writers(s \<mapsto> i)", OF one(2) this] obtain b2 known2 where rest:
    "fold_err (write_slot steps i) (b1, writers(s \<mapsto> i), vs @ [slot_id known1 s]) ss =
       Inr (b2, (\<lambda>t. if t \<in> set ss then Some i else (writers(s \<mapsto> i)) t), (vs @ [slot_id known1 s]) @ map (slot_id known2) ss)"
    "build_ok b2 known2" "extends known1 known2" "set known2 = set known1 \<union> set ss" "same_leaves b1 b2" by blast
  have "slot_id known2 s = slot_id known1 s" using extends_ids [OF rest(3), of "[s]"] one(4) by simp
  moreover have "(\<lambda>t. if t \<in> set ss then Some i else (writers(s \<mapsto> i)) t) = (\<lambda>t. if t \<in> set (s # ss) then Some i else writers t)"
    by auto
  ultimately have "fold_err (write_slot steps i) (b, writers, vs) (s # ss) =
      Inr (b2, (\<lambda>t. if t \<in> set (s # ss) then Some i else writers t), vs @ map (slot_id known2) (s # ss))"
    using one(1) rest(1) by simp
  then show ?case using one rest extends_trans same_leaves_trans
    by (intro exI [where x = b2] exI [where x = known2]) auto
qed

lemma write_slots_fail:
  assumes "s \<in> set ss" "writers s = Some j" "j \<noteq> i"
  shows "\<exists>e. fold_err (write_slot steps i) (b, writers, vs) ss = Inl e"
  using assms
proof (induction ss arbitrary: b writers vs)
  case (Cons t ss)
  show ?case
  proof (cases "write_slot steps i (b, writers, vs) t")
    case (Inr r)
    obtain b' writers' vs' where r: "r = (b', writers', vs')" by (cases r) auto
    have t: "writers t \<in> {None, Some i}" and w: "writers' = writers(t \<mapsto> i)"
      using Inr r by (auto simp: write_slot_def Let_def fun_upd_idem split: if_splits option.splits prod.splits)
    then have "s \<noteq> t" using Cons.prems by auto
    then have "s \<in> set ss" "writers' s = Some j" using Cons.prems w by auto
    from Cons.IH [where writers = writers', OF this Cons.prems(3)] show ?thesis using Inr r by simp
  qed simp
qed simp


definition start_build :: adapter_build where
  "start_build = \<lparr>ab_state = new_adapter, ab_values = Map.empty\<rparr>"

definition write_inv ::
  "typed_step list \<Rightarrow> nat \<Rightarrow> typed_slot list \<Rightarrow> adapter_build \<times> (typed_slot \<Rightarrow> nat option) \<times> value_id list list \<Rightarrow> bool" where
  "write_inv steps k known = (\<lambda>(b, writers, writes).
     build_ok b known \<and> set known = written_upto steps k \<and>
     (\<forall>s i. writers s = Some i \<longleftrightarrow> i < k \<and> s \<in> set (written steps i)) \<and>
     writes = map (\<lambda>i. map (slot_id known) (written steps i)) [0..<k] \<and>
     same_leaves start_build b)"

lemma write_inv_start: "write_inv steps 0 [] (start_build, Map.empty, [])"
  by (simp add: write_inv_def build_ok_def start_build_def new_adapter_def same_leaves_def id_in_def fun_eq_iff)

lemma write_step_inv:
  assumes "write_inv steps k known (b, writers, writes)" "set (written steps k) \<inter> written_upto steps k = {}"
  shows "\<exists>r known'. write_step steps (b, writers, writes) k = Inr r \<and> write_inv steps (Suc k) known' r"
proof -
  from assms(1) have b: "build_ok b known" "set known = written_upto steps k"
    and w: "\<And>s i. writers s = Some i \<longleftrightarrow> i < k \<and> s \<in> set (written steps i)"
    and writes: "writes = map (\<lambda>i. map (slot_id known) (written steps i)) [0..<k]"
    and state: "same_leaves start_build b"
    by (simp_all add: write_inv_def del: split_paired_All)
  have "writers s = None" if "s \<in> set (written steps k)" for s
    using assms(2) w [of s] that by (cases "writers s") (auto simp: written_upto_def)
  then have "\<forall>s \<in> set (written steps k). writers s \<in> {None, Some k}" by simp
  from write_slots [where vs = "[]" and steps = steps, OF b(1) this] obtain b' known' where run:
    "fold_err (write_slot steps k) (b, writers, []) (written steps k) =
       Inr (b', (\<lambda>s. if s \<in> set (written steps k) then Some k else writers s), map (slot_id known') (written steps k))"
    "build_ok b' known'" "extends known known'" "set known' = set known \<union> set (written steps k)" "same_leaves b b'"
    by auto
  let ?writers = "\<lambda>s. if s \<in> set (written steps k) then Some k else writers s"
  let ?writes = "map (\<lambda>i. map (slot_id known') (written steps i)) [0..<Suc k]"
  have "map (slot_id known') (written steps i) = map (slot_id known) (written steps i)" if "i < k" for i
    using that b(2) by (intro extends_ids [OF run(3)]) (auto simp: written_upto_def)
  then have "write_step steps (b, writers, writes) k = Inr (b', ?writers, ?writes)"
    using run(1) writes by (simp add: write_step_def)
  moreover have "?writers s = Some i \<longleftrightarrow> i < Suc k \<and> s \<in> set (written steps i)" for s i
    using assms(2) w [of s i] by (auto simp: less_Suc_eq written_upto_def)
  then have "write_inv steps (Suc k) known' (b', ?writers, ?writes)"
    using run(2,4) b(2) same_leaves_trans [OF state run(5)] by (simp add: write_inv_def)
  ultimately show ?thesis by blast
qed

lemma write_steps:
  "single_upto steps k \<Longrightarrow>
     \<exists>r known. fold_err (write_step steps) (start_build, Map.empty, []) [0..<k] = Inr r \<and> write_inv steps k known r"
proof (induction k)
  case 0
  then show ?case using write_inv_start by auto
next
  case (Suc k)
  then obtain r known where run: "fold_err (write_step steps) (start_build, Map.empty, []) [0..<k] = Inr r"
    "write_inv steps k known r" by auto
  obtain b writers writes where r: "r = (b, writers, writes)" by (cases r) auto
  from write_step_inv [OF run(2) [unfolded r]] Suc.prems show ?case
    using run(1) by (auto simp: r fold_err_append bind_err_Inr_iff)
qed

lemma write_steps_fail:
  "\<not> single_upto steps k \<Longrightarrow> \<exists>e. fold_err (write_step steps) (start_build, Map.empty, []) [0..<k] = Inl e"
proof (induction k)
  case (Suc k)
  show ?case
  proof (cases "single_upto steps k")
    case True
    then obtain r known where run: "fold_err (write_step steps) (start_build, Map.empty, []) [0..<k] = Inr r"
      "write_inv steps k known r" using write_steps by blast
    obtain b writers writes where r: "r = (b, writers, writes)" by (cases r) auto
    from True Suc.prems obtain s j where s: "s \<in> set (written steps k)" "j < k" "s \<in> set (written steps j)"
      by (auto simp: written_upto_def)
    then have "writers s = Some j" using run(2) by (simp add: write_inv_def r del: split_paired_All)
    from write_slots_fail [where writers = writers and vs = "[]" and b = b and steps = steps, OF s(1) this, of k] s(2)
    obtain e where "fold_err (write_slot steps k) (b, writers, []) (written steps k) = Inl e" by auto
    then show ?thesis using run(1) by (simp add: fold_err_append r write_step_def)
  next
    case False
    then show ?thesis using Suc.IH by (auto simp: fold_err_append)
  qed
qed simp

section \<open>The semantic prerequisites\<close>

lemma step_of_key_iff:
  "step_of_key steps key = None \<longleftrightarrow> key \<notin> ts_key ` set steps"
  "step_of_key steps key = Some p \<Longrightarrow> p < length steps \<and> ts_key (steps ! p) = key \<and> (\<forall>j < p. ts_key (steps ! j) \<noteq> key)"
proof -
  show "step_of_key steps key = None \<longleftrightarrow> key \<notin> ts_key ` set steps"
    by (auto simp: step_of_key_def find_None_iff set_conv_nth)
  show "step_of_key steps key = Some p \<Longrightarrow> p < length steps \<and> ts_key (steps ! p) = key \<and> (\<forall>j < p. ts_key (steps ! j) \<noteq> key)"
    by (auto simp: step_of_key_def find_Some_iff)
qed

definition required_steps :: "typed_step list \<Rightarrow> nat \<Rightarrow> nat list" where
  "required_steps steps i = map (\<lambda>key. the (step_of_key steps key)) (ts_semantic (steps ! i))"

lemma semantic_keys:
  "(\<forall>key \<in> set ks. key \<in> ts_key ` set steps) \<Longrightarrow>
     fold_err (\<lambda>ps key. case step_of_key steps key of None \<Rightarrow> Inl (err key) | Some p \<Rightarrow> Inr (ps @ [p])) ps ks =
       Inr (ps @ map (\<lambda>key. the (step_of_key steps key)) ks)"
proof (induction ks arbitrary: ps)
  case (Cons k ks)
  then have "step_of_key steps k \<noteq> None" using step_of_key_iff(1) by simp
  then show ?case using Cons by auto
qed simp

lemma semantic_keys_fail:
  "\<exists>key \<in> set ks. key \<notin> ts_key ` set steps \<Longrightarrow>
     \<exists>e. fold_err (\<lambda>ps key. case step_of_key steps key of None \<Rightarrow> Inl (err key) | Some p \<Rightarrow> Inr (ps @ [p])) ps ks = Inl e"
proof (induction ks arbitrary: ps)
  case (Cons k ks)
  show ?case
  proof (cases "step_of_key steps k")
    case (Some p)
    then have "k \<in> ts_key ` set steps" using step_of_key_iff(1) [of steps k] by auto
    then show ?thesis using Cons Some by auto
  qed simp
qed simp

lemma semantic_steps:
  assumes "k \<le> length steps"
  shows "\<forall>i < k. set (ts_semantic (steps ! i)) \<subseteq> ts_key ` set steps \<Longrightarrow>
      fold_err (semantic_step steps) [] [0..<k] = Inr (map (required_steps steps) [0..<k])"
    "\<exists>i < k. \<not> set (ts_semantic (steps ! i)) \<subseteq> ts_key ` set steps \<Longrightarrow>
      \<exists>e. fold_err (semantic_step steps) [] [0..<k] = Inl e"
proof -
  have one: "semantic_step steps ps i = Inr (ps @ [required_steps steps i])"
    if "set (ts_semantic (steps ! i)) \<subseteq> ts_key ` set steps" for ps i
    using semantic_keys [of "ts_semantic (steps ! i)" steps "SemanticPredecessor (ts_key (steps ! i))" "[]"] that
    by (simp add: semantic_step_def required_steps_def subset_iff)
  have bad: "\<exists>e. semantic_step steps ps i = Inl e" if "\<not> set (ts_semantic (steps ! i)) \<subseteq> ts_key ` set steps" for ps i
  proof -
    from that have "\<exists>key \<in> set (ts_semantic (steps ! i)). key \<notin> ts_key ` set steps" by blast
    from semantic_keys_fail [OF this, of "\<lambda>key. SemanticPredecessor (ts_key (steps ! i)) key" "[]"]
    show ?thesis by (auto simp: semantic_step_def)
  qed
  have all: "fold_err (semantic_step steps) ps xs = Inr (ps @ map (required_steps steps) xs)"
    if "\<forall>i \<in> set xs. set (ts_semantic (steps ! i)) \<subseteq> ts_key ` set steps" for ps xs
    using that by (induction xs arbitrary: ps) (simp_all add: one)
  have fails: "\<exists>e. fold_err (semantic_step steps) ps xs = Inl e"
    if "\<exists>i \<in> set xs. \<not> set (ts_semantic (steps ! i)) \<subseteq> ts_key ` set steps" for ps xs
    using that
  proof (induction xs arbitrary: ps)
    case (Cons x xs)
    show ?case
    proof (cases "set (ts_semantic (steps ! x)) \<subseteq> ts_key ` set steps")
      case True
      then show ?thesis using Cons by (simp add: one)
    next
      case False
      then show ?thesis using bad [of x ps] by auto
    qed
  qed simp
  show "\<forall>i < k. set (ts_semantic (steps ! i)) \<subseteq> ts_key ` set steps \<Longrightarrow>
      fold_err (semantic_step steps) [] [0..<k] = Inr (map (required_steps steps) [0..<k])"
    using all [of "[0..<k]" "[]"] by simp
  show "\<exists>i < k. \<not> set (ts_semantic (steps ! i)) \<subseteq> ts_key ` set steps \<Longrightarrow>
      \<exists>e. fold_err (semantic_step steps) [] [0..<k] = Inl e"
    by (rule fails) auto
qed


section \<open>The reads\<close>

text \<open>Beyond the slots the writes gave, every slot met is a sampled leaf.\<close>

definition read_inv :: "(typed_slot \<Rightarrow> bool) \<Rightarrow> typed_slot list \<Rightarrow> typed_slot list \<Rightarrow> adapter_build \<Rightarrow> bool" where
  "read_inv sampled wk leaves b \<longleftrightarrow> build_ok b (wk @ leaves) \<and> (\<forall>s \<in> set leaves. sampled s) \<and>
     ab_state b = new_adapter\<lparr>ad_values := ad_values (ab_state b), ad_leaves := map (slot_id (wk @ leaves)) leaves\<rparr>"

lemma state_values:
  "x = new_adapter\<lparr>ad_values := v, ad_leaves := l\<rparr> \<Longrightarrow> y = x\<lparr>ad_values := w\<rparr> \<Longrightarrow>
     y = new_adapter\<lparr>ad_values := w, ad_leaves := l\<rparr>"
  by simp

lemma leaves_pushed:
  "x = new_adapter\<lparr>ad_values := v, ad_leaves := l\<rparr> \<Longrightarrow>
     x\<lparr>ad_leaves := ad_leaves x @ [i]\<rparr> = new_adapter\<lparr>ad_values := v, ad_leaves := l @ [i]\<rparr>"
  by simp

lemma read_slot_ok:
  assumes inv: "read_inv sampled wk leaves b" and s: "s \<in> set wk \<or> sampled s"
  shows "\<exists>b' leaves'. read_slot sampled step (b, vs) s = Inr (b', vs @ [slot_id (wk @ leaves') s]) \<and>
     read_inv sampled wk leaves' b' \<and> extends leaves leaves' \<and> set leaves' = set leaves \<union> ({s} - set wk)"
proof (cases "s \<in> set (wk @ leaves)")
  case True
  have "build_ok b (wk @ leaves)" using inv by (simp add: read_inv_def)
  from build_ok_lookup [OF this, of s] True
  have "read_slot sampled step (b, vs) s = Inr (b, vs @ [slot_id (wk @ leaves) s])" by (simp add: read_slot_def)
  then show ?thesis using inv True by (intro exI [where x = b] exI [where x = leaves]) auto
next
  case False
  obtain v b1 where new: "add_typed s b = (v, b1)" by fastforce
  have ok: "build_ok b (wk @ leaves)"
    and state: "ab_state b = new_adapter\<lparr>ad_values := ad_values (ab_state b), ad_leaves := map (slot_id (wk @ leaves)) leaves\<rparr>"
    using inv by (simp_all add: read_inv_def)
  note step = build_ok_add [OF ok False new]
  let ?leaves = "leaves @ [s]"
  let ?b = "b1\<lparr>ab_state := (ab_state b1)\<lparr>ad_leaves := ad_leaves (ab_state b1) @ [v]\<rparr>\<rparr>"
  have run: "read_slot sampled step (b, vs) s = Inr (?b, vs @ [slot_id (wk @ ?leaves) s])"
    using False s new build_ok_lookup [OF ok, of s] step(2) by (auto simp: read_slot_def)
  have ids: "map (slot_id (wk @ ?leaves)) leaves = map (slot_id (wk @ leaves)) leaves"
    using extends_ids [of "wk @ leaves" "wk @ ?leaves" leaves] by (simp add: extends_def)
  have "ab_state b1 = new_adapter\<lparr>ad_values := ad_values (ab_state b1), ad_leaves := map (slot_id (wk @ leaves)) leaves\<rparr>"
    by (rule state_values [OF state step(3)])
  then have "ab_state ?b = new_adapter\<lparr>ad_values := ad_values (ab_state ?b), ad_leaves := map (slot_id (wk @ ?leaves)) ?leaves\<rparr>"
    using ids step(2) by (simp add: leaves_pushed)
  moreover have "build_ok ?b (wk @ ?leaves)" using step(1) by (simp add: build_ok_def)
  ultimately have "read_inv sampled wk ?leaves ?b" using inv s False by (auto simp: read_inv_def)
  then show ?thesis using run False by (intro exI [where x = ?b] exI [where x = ?leaves]) auto
qed

lemma read_slots:
  assumes "read_inv sampled wk leaves b" "\<forall>s \<in> set ss. s \<in> set wk \<or> sampled s"
  shows "\<exists>b' leaves'. fold_err (read_slot sampled step) (b, vs) ss = Inr (b', vs @ map (slot_id (wk @ leaves')) ss) \<and>
     read_inv sampled wk leaves' b' \<and> extends leaves leaves' \<and> set leaves' = set leaves \<union> (set ss - set wk)"
  using assms
proof (induction ss arbitrary: b leaves vs)
  case Nil
  then show ?case by (intro exI [where x = b] exI [where x = leaves]) auto
next
  case (Cons s ss)
  have "s \<in> set wk \<or> sampled s" using Cons.prems(2) by simp
  from read_slot_ok [where vs = vs and step = step, OF Cons.prems(1) this] obtain b1 leaves1 where one:
    "read_slot sampled step (b, vs) s = Inr (b1, vs @ [slot_id (wk @ leaves1) s])"
    "read_inv sampled wk leaves1 b1" "extends leaves leaves1" "set leaves1 = set leaves \<union> ({s} - set wk)" by blast
  have "\<forall>s \<in> set ss. s \<in> set wk \<or> sampled s" using Cons.prems(2) by simp
  from Cons.IH [where vs = "vs @ [slot_id (wk @ leaves1) s]", OF one(2) this] obtain b2 leaves2 where rest:
    "fold_err (read_slot sampled step) (b1, vs @ [slot_id (wk @ leaves1) s]) ss =
       Inr (b2, (vs @ [slot_id (wk @ leaves1) s]) @ map (slot_id (wk @ leaves2)) ss)"
    "read_inv sampled wk leaves2 b2" "extends leaves1 leaves2" "set leaves2 = set leaves1 \<union> (set ss - set wk)" by blast
  have "extends (wk @ leaves1) (wk @ leaves2)" using rest(3) by (auto simp: extends_def)
  then have "slot_id (wk @ leaves2) s = slot_id (wk @ leaves1) s"
    using extends_ids [of "wk @ leaves1" "wk @ leaves2" "[s]"] one(4) by auto
  then have "fold_err (read_slot sampled step) (b, vs) (s # ss) = Inr (b2, vs @ map (slot_id (wk @ leaves2)) (s # ss))"
    using one(1) rest(1) by simp
  then show ?case using one rest extends_trans by (intro exI [where x = b2] exI [where x = leaves2]) auto
qed

lemma read_slots_fail:
  assumes "read_inv sampled wk leaves b" "s \<in> set ss" "s \<notin> set wk" "\<not> sampled s"
  shows "\<exists>e. fold_err (read_slot sampled step) (b, vs) ss = Inl e"
  using assms
proof (induction ss arbitrary: b leaves vs)
  case (Cons t ss)
  show ?case
  proof (cases "t \<in> set wk \<or> sampled t")
    case True
    from read_slot_ok [where vs = vs and step = step, OF Cons.prems(1) True] obtain b1 leaves1 where one:
      "read_slot sampled step (b, vs) t = Inr (b1, vs @ [slot_id (wk @ leaves1) t])" "read_inv sampled wk leaves1 b1" by blast
    have "s \<in> set ss" using Cons.prems True by auto
    from Cons.IH [where vs = "vs @ [slot_id (wk @ leaves1) t]", OF one(2) this Cons.prems(3,4)] one(1) show ?thesis by simp
  next
    case False
    then have "t \<notin> set (wk @ leaves)" using Cons.prems(1) by (auto simp: read_inv_def)
    moreover have "build_ok b (wk @ leaves)" using Cons.prems(1) by (simp add: read_inv_def)
    ultimately have "ab_values b t = None" using build_ok_lookup by simp
    then show ?thesis using False by (simp add: read_slot_def)
  qed
qed simp

lemma read_steps:
  assumes "read_inv sampled wk leaves b" "\<forall>step \<in> set xs. \<forall>s \<in> set (range_slots (ts_reads step)). s \<in> set wk \<or> sampled s"
  shows "\<exists>b' leaves'. fold_err (read_step sampled) (b, reads) xs =
       Inr (b', reads @ map (\<lambda>step. map (slot_id (wk @ leaves')) (range_slots (ts_reads step))) xs) \<and>
     read_inv sampled wk leaves' b' \<and> extends leaves leaves' \<and>
     set leaves' = set leaves \<union> ((\<Union>step \<in> set xs. set (range_slots (ts_reads step))) - set wk)"
  using assms
proof (induction xs arbitrary: b leaves reads)
  case Nil
  then show ?case by (intro exI [where x = b] exI [where x = leaves]) auto
next
  case (Cons x xs)
  let ?ss = "range_slots (ts_reads x)"
  have "\<forall>s \<in> set ?ss. s \<in> set wk \<or> sampled s" using Cons.prems(2) by simp
  from read_slots [where vs = "[]" and step = x, OF Cons.prems(1) this] obtain b1 leaves1 where one:
    "fold_err (read_slot sampled x) (b, []) ?ss = Inr (b1, map (slot_id (wk @ leaves1)) ?ss)"
    "read_inv sampled wk leaves1 b1" "extends leaves leaves1" "set leaves1 = set leaves \<union> (set ?ss - set wk)" by auto
  have "\<forall>step \<in> set xs. \<forall>s \<in> set (range_slots (ts_reads step)). s \<in> set wk \<or> sampled s" using Cons.prems(2) by simp
  from Cons.IH [where reads = "reads @ [map (slot_id (wk @ leaves1)) ?ss]", OF one(2) this] obtain b2 leaves2 where rest:
    "fold_err (read_step sampled) (b1, reads @ [map (slot_id (wk @ leaves1)) ?ss]) xs =
       Inr (b2, (reads @ [map (slot_id (wk @ leaves1)) ?ss]) @
         map (\<lambda>step. map (slot_id (wk @ leaves2)) (range_slots (ts_reads step))) xs)"
    "read_inv sampled wk leaves2 b2" "extends leaves1 leaves2"
    "set leaves2 = set leaves1 \<union> ((\<Union>step \<in> set xs. set (range_slots (ts_reads step))) - set wk)" by blast
  have "extends (wk @ leaves1) (wk @ leaves2)" using rest(3) by (auto simp: extends_def)
  then have "map (slot_id (wk @ leaves2)) ?ss = map (slot_id (wk @ leaves1)) ?ss"
    using one(4) by (intro extends_ids) auto
  then have "fold_err (read_step sampled) (b, reads) (x # xs) =
      Inr (b2, reads @ map (\<lambda>step. map (slot_id (wk @ leaves2)) (range_slots (ts_reads step))) (x # xs))"
    using one(1) rest(1) by (simp add: read_step_def)
  then show ?case using one rest extends_trans by (intro exI [where x = b2] exI [where x = leaves2]) auto
qed

lemma read_steps_fail:
  assumes "read_inv sampled wk leaves b" "step \<in> set xs" "s \<in> set (range_slots (ts_reads step))" "s \<notin> set wk" "\<not> sampled s"
  shows "\<exists>e. fold_err (read_step sampled) (b, reads) xs = Inl e"
  using assms
proof (induction xs arbitrary: b leaves reads)
  case (Cons x xs)
  let ?ss = "range_slots (ts_reads x)"
  show ?case
  proof (cases "\<forall>s \<in> set ?ss. s \<in> set wk \<or> sampled s")
    case True
    from read_slots [where vs = "[]" and step = x, OF Cons.prems(1) True] obtain b1 leaves1 where one:
      "fold_err (read_slot sampled x) (b, []) ?ss = Inr (b1, map (slot_id (wk @ leaves1)) ?ss)"
      "read_inv sampled wk leaves1 b1" by auto
    have "step \<in> set xs" using Cons.prems True by auto
    from Cons.IH [where reads = "reads @ [map (slot_id (wk @ leaves1)) ?ss]", OF one(2) this Cons.prems(3-5)] one(1)
    show ?thesis by (simp add: read_step_def)
  next
    case False
    then obtain t where "t \<in> set ?ss" "t \<notin> set wk" "\<not> sampled t" by blast
    from read_slots_fail [where vs = "[]" and step = x, OF Cons.prems(1) this] show ?thesis by (auto simp: read_step_def)
  qed
qed simp

end
