(* ===== verification/Op_Canonical.thy ===== *)
theory Op_Canonical
  imports Op_Slots
begin

text \<open>
  The adapter as a whole: when it succeeds, and the renumbering of the values. After it a slot's
  id is its rank among all slots the steps use, whatever the order of the steps.
\<close>

section \<open>The descriptors\<close>

definition adapter_descs :: "typed_step list \<Rightarrow> typed_slot list \<Rightarrow> op_descriptor list" where
  "adapter_descs steps known = map (\<lambda>i. descriptor_of (steps ! i) (map (slot_id known) (slots_read steps i))
     (map (slot_id known) (written steps i)) (required_steps steps i)) [0..<length steps]"

lemma adapter_descs_nth [simp]:
  "length (adapter_descs steps known) = length steps"
  "i < length steps \<Longrightarrow> adapter_descs steps known ! i = descriptor_of (steps ! i) (map (slot_id known) (slots_read steps i))
     (map (slot_id known) (written steps i)) (required_steps steps i)"
  by (simp_all add: adapter_descs_def)

definition steps_ok :: "typed_step list \<Rightarrow> (typed_slot \<Rightarrow> bool) \<Rightarrow> bool" where
  "steps_ok steps sampled \<longleftrightarrow> single_upto steps (length steps) \<and> semantic_ok steps \<and> reads_ok steps sampled"

definition described :: "typed_step list \<Rightarrow> typed_slot list \<Rightarrow> typed_slot list \<Rightarrow> adapter_state \<Rightarrow> bool" where
  "described steps wk leaves state \<longleftrightarrow> distinct (wk @ leaves) \<and> set wk = written_upto steps (length steps) \<and>
     set leaves = read_upto steps (length steps) - written_upto steps (length steps) \<and>
     state = new_adapter\<lparr>ad_values := map (\<lambda>s. new_value (fst s) (snd s)) (wk @ leaves),
       ad_leaves := map (slot_id (wk @ leaves)) leaves\<rparr>"

lemma read_upto_steps: "(\<Union>step \<in> set steps. set (range_slots (ts_reads step))) = read_upto steps (length steps)"
  by (auto simp: read_upto_def set_conv_nth)

lemma write_phase_start:
  assumes "write_inv steps (length steps) wk (b, writers, writes)"
  shows "read_inv sampled wk [] b" "set wk = written_upto steps (length steps)"
proof -
  have ok: "build_ok b wk" "same_leaves start_build b" "set wk = written_upto steps (length steps)"
    using assms by (simp_all add: write_inv_def del: split_paired_All)
  have "ab_state b = new_adapter\<lparr>ad_values := ad_values (ab_state b)\<rparr>"
    using ok(2) by (simp add: same_leaves_def start_build_def)
  moreover have "new_adapter\<lparr>ad_values := v\<rparr> = new_adapter\<lparr>ad_values := v, ad_leaves := []\<rparr>" for v
    by (simp add: new_adapter_def)
  ultimately have "ab_state b = new_adapter\<lparr>ad_values := ad_values (ab_state b), ad_leaves := []\<rparr>" by metis
  then show "read_inv sampled wk [] b" using ok(1) unfolding read_inv_def by auto
  show "set wk = written_upto steps (length steps)" by (rule ok(3))
qed

lemma adapter_descriptors_spec:
  assumes "steps_ok steps sampled"
  shows "\<exists>state wk leaves. adapter_descriptors steps sampled = Inr (state, adapter_descs steps (wk @ leaves)) \<and>
     described steps wk leaves state"
proof -
  have ok: "single_upto steps (length steps)" "\<forall>i < length steps. set (ts_semantic (steps ! i)) \<subseteq> ts_key ` set steps"
    "\<forall>s \<in> read_upto steps (length steps). s \<in> written_upto steps (length steps) \<or> sampled s"
    using assms by (auto simp: steps_ok_def semantic_ok_def reads_ok_def)
  from write_steps [OF ok(1)] obtain r wk where
    w: "fold_err (write_step steps) (start_build, Map.empty, []) [0..<length steps] = Inr r"
    "write_inv steps (length steps) wk r" by blast
  obtain b writers writes where r: "r = (b, writers, writes)" by (cases r) auto
  note start = write_phase_start(1) [OF w(2) [unfolded r], of sampled] write_phase_start(2) [OF w(2) [unfolded r]]
  have writes: "writes = map (\<lambda>i. map (slot_id wk) (written steps i)) [0..<length steps]"
    using w(2) by (simp add: write_inv_def r)
  have "\<forall>step \<in> set steps. \<forall>s \<in> set (range_slots (ts_reads step)). s \<in> set wk \<or> sampled s"
    using ok(3) start(2) unfolding read_upto_steps [symmetric] by blast
  from read_steps [where reads = "[]", OF start(1) this] obtain b' leaves where rd:
    "fold_err (read_step sampled) (b, []) steps =
       Inr (b', map (\<lambda>step. map (slot_id (wk @ leaves)) (range_slots (ts_reads step))) steps)"
    "read_inv sampled wk leaves b'"
    "set leaves = (\<Union>step \<in> set steps. set (range_slots (ts_reads step))) - set wk"
    by auto
  have wids: "map (slot_id (wk @ leaves)) (written steps i) = map (slot_id wk) (written steps i)" if "i < length steps" for i
    using that start(2) by (intro extends_ids) (auto simp: written_upto_def)
  have "map (\<lambda>i. descriptor_of (steps ! i) (map (\<lambda>step. map (slot_id (wk @ leaves)) (range_slots (ts_reads step))) steps ! i)
      (writes ! i) (map (required_steps steps) [0..<length steps] ! i)) [0..<length steps] = adapter_descs steps (wk @ leaves)"
    by (simp add: adapter_descs_def writes wids)
  then have "adapter_descriptors steps sampled = Inr (ab_state b', adapter_descs steps (wk @ leaves))"
    using w(1) rd(1) semantic_steps(1) [OF order_refl ok(2)]
    by (simp add: adapter_descriptors_def start_build_def [symmetric] r)
  moreover have "described steps wk leaves (ab_state b')"
    using rd(2,3) start(2) unfolding read_upto_steps by (auto simp: described_def read_inv_def build_ok_def)
  ultimately show ?thesis by blast
qed

lemma adapter_descriptors_fail:
  assumes "\<not> steps_ok steps sampled"
  shows "\<exists>e. adapter_descriptors steps sampled = Inl e"
proof (cases "single_upto steps (length steps)")
  case single: True
  from write_steps [OF single] obtain r wk where
    w: "fold_err (write_step steps) (start_build, Map.empty, []) [0..<length steps] = Inr r"
    "write_inv steps (length steps) wk r" by blast
  obtain b writers writes where r: "r = (b, writers, writes)" by (cases r) auto
  note start = write_phase_start(1) [OF w(2) [unfolded r], of sampled] write_phase_start(2) [OF w(2) [unfolded r]]
  show ?thesis
  proof (cases "semantic_ok steps")
    case True
    then have sem: "\<forall>i < length steps. set (ts_semantic (steps ! i)) \<subseteq> ts_key ` set steps" by (auto simp: semantic_ok_def)
    from True single assms obtain s where "s \<in> read_upto steps (length steps)" "s \<notin> set wk" "\<not> sampled s"
      by (auto simp: steps_ok_def reads_ok_def start(2))
    moreover from this(1) obtain step where "step \<in> set steps" "s \<in> set (range_slots (ts_reads step))"
      unfolding read_upto_steps [symmetric] by blast
    ultimately obtain e where "fold_err (read_step sampled) (b, []) steps = Inl e"
      using read_steps_fail [OF start(1)] by blast
    then show ?thesis using w(1) semantic_steps(1) [OF order_refl sem]
      by (simp add: adapter_descriptors_def start_build_def [symmetric] r)
  next
    case False
    then have "\<exists>i < length steps. \<not> set (ts_semantic (steps ! i)) \<subseteq> ts_key ` set steps"
      unfolding semantic_ok_def by (metis in_set_conv_nth)
    from semantic_steps(2) [OF order_refl this] w(1) show ?thesis
      by (auto simp: adapter_descriptors_def start_build_def [symmetric] r)
  qed
next
  case False
  from write_steps_fail [OF this] show ?thesis by (auto simp: adapter_descriptors_def start_build_def [symmetric])
qed

section \<open>Ranks\<close>

definition slot_list :: "typed_step list \<Rightarrow> typed_slot list" where
  "slot_list steps = sorted_list_of_set (used_slots steps)"

lemma slot_list_facts [simp]:
  "distinct (slot_list steps)" "set (slot_list steps) = used_slots steps" "sorted (slot_list steps)"
  "length (slot_list steps) = card (used_slots steps)"
  by (simp_all add: slot_list_def)

lemma insort_key_by_cong: "\<forall>y \<in> insert x (set ys). f y = g y \<Longrightarrow> insort_key f x ys = insort_key g x ys"
  by (induction ys) auto

lemma sort_key_by_cong: "(\<And>x. x \<in> set xs \<Longrightarrow> f x = g x) \<Longrightarrow> sort_key f xs = sort_key g xs"
  by (induction xs) (auto intro!: insort_key_by_cong)

lemma map_sort_key: "map f (sort_key f xs) = sort (map f xs)"
  by (rule properties_for_sort [symmetric]) simp_all

lemma described_known:
  assumes "described steps wk leaves state"
  shows "sort (wk @ leaves) = slot_list steps" "length (wk @ leaves) = card (used_slots steps)"
    "set (wk @ leaves) = used_slots steps" "distinct (wk @ leaves)"
proof -
  show set: "set (wk @ leaves) = used_slots steps" and dist: "distinct (wk @ leaves)"
    using assms by (auto simp: described_def used_slots_def)
  then show "length (wk @ leaves) = card (used_slots steps)" by (metis distinct_card)
  then have "sort (wk @ leaves) = sorted_list_of_set (set (wk @ leaves))"
    using dist by (intro sorted_distinct_set_unique) simp_all
  then show "sort (wk @ leaves) = slot_list steps" unfolding set by (simp add: slot_list_def)
qed

lemma remap_positions:
  assumes "distinct order" "\<forall>x \<in> set order. x < n" "i < length order"
  shows "foldl (\<lambda>remap i. remap[order ! i := of_nat i]) (replicate n 0) [0..<length order] ! (order ! i) = (of_nat i :: value_id)"
proof -
  let ?I = "\<lambda>ys remap. length remap = n \<and> (\<forall>j \<in> set ys. remap ! (order ! j) = (of_nat j :: value_id))"
  have "?I [0..<length order] (foldl (\<lambda>remap i. remap[order ! i := of_nat i]) (replicate n 0) [0..<length order])"
  proof (rule foldl_invariant [where I = ?I])
    fix ys x zs remap assume split: "[0..<length order] = ys @ x # zs" and I: "?I ys remap"
    have x: "ys = [0..<x]" "x < length order" using upt_prefix [OF split] by auto
    have "order ! x \<noteq> order ! j" if "j \<in> set ys" for j
      using that x assms(1) by (simp add: nth_eq_iff_index_eq)
    moreover have "order ! x < n" using assms(2) x(2) by simp
    ultimately show "?I (ys @ [x]) (remap[order ! x := of_nat x])" using I by auto
  qed simp
  then show ?thesis using assms(3) by simp
qed

lemma value_remap_rank:
  assumes vals: "vals = map (\<lambda>s. new_value (fst s) (snd s)) known" and d: "distinct known"
    and small: "length known \<le> 2 ^ 64" and s: "s \<in> set known"
  shows "value_remap vals ! unat (slot_id known s) = slot_id (sort known) s"
    "map (\<lambda>i. vals ! i) (value_order vals) = map (\<lambda>s. new_value (fst s) (snd s)) (sort known)"
proof -
  let ?order = "value_order vals"
  let ?f = "\<lambda>i. known ! i"
  have slot: "slot_of (vals ! i) = known ! i" if "i < length known" for i
    using that by (simp add: vals slot_of_def new_value_def)
  have order_eq: "?order = sort_key ?f [0..<length known]"
    unfolding value_order_def vals length_map
    by (rule sort_key_by_cong) (use slot in \<open>simp add: vals\<close>)
  then have sorted_known: "map ?f ?order = sort known"
    by (simp add: map_sort_key map_nth)
  have order: "distinct ?order" "set ?order = {..<length known}" "length ?order = length known"
    by (auto simp: order_eq)
  obtain k where k: "s = known ! k" "k < length known" using s by (metis in_set_conv_nth)
  then obtain i where i: "i < length ?order" "?order ! i = k" using order(2) by (metis in_set_conv_nth lessThan_iff)
  then have "sort known ! i = s" using k(1) by (simp flip: sorted_known)
  then have rank: "slot_id (sort known) s = of_nat i"
    using slot_id_nth [of "sort known" i] d i(1) order(3) by simp
  have "unat (slot_id known s) = k" using slot_id_unat [OF d small k(2)] k(1) by simp
  moreover have "value_remap vals ! k = of_nat i"
    unfolding value_remap_def Let_def using remap_positions [OF order(1) _ i(1), of "length vals"] order(2) i(2)
    by (simp add: vals)
  ultimately show "value_remap vals ! unat (slot_id known s) = slot_id (sort known) s" using rank by simp
  have "map (\<lambda>i. vals ! i) ?order = map (\<lambda>i. new_value (fst (?f i)) (snd (?f i))) ?order"
    using order(2) by (auto simp: vals)
  also have "\<dots> = map (\<lambda>s. new_value (fst s) (snd s)) (map ?f ?order)" by simp
  finally show "map (\<lambda>i. vals ! i) ?order = map (\<lambda>s. new_value (fst s) (snd s)) (sort known)"
    unfolding sorted_known .
qed

end
