(* ===== verification/Op_Adapter_Props.thy ===== *)
theory Op_Adapter_Props
  imports Op_Canonical Op_Props
begin

text \<open>
  The adapter against the typed slots: it succeeds exactly on well-formed steps, the compiled
  edges are the slot dependencies of the steps, ids are ranks of slots, and the result does not
  depend on the order in which a backend lists its steps.
\<close>

section \<open>Dependencies between steps\<close>

definition typed_depends :: "typed_step list \<Rightarrow> nat \<Rightarrow> nat \<Rightarrow> bool" where
  "typed_depends steps p i \<longleftrightarrow> p < length steps \<and> i < length steps \<and>
     (p \<in> set (required_steps steps i) \<or> set (written steps p) \<inter> set (slots_read steps i) \<noteq> {})"

definition typed_live :: "typed_step list \<Rightarrow> string set \<Rightarrow> (nat \<times> nat) set" where
  "typed_live steps kept_out =
     {(p, i). typed_depends steps p i \<and> ts_key (steps ! p) \<notin> kept_out \<and> ts_key (steps ! i) \<notin> kept_out}"

definition typed_aside :: "typed_step list \<Rightarrow> string set \<Rightarrow> nat \<Rightarrow> bool" where
  "typed_aside steps kept_out i \<longleftrightarrow> ts_key (steps ! i) \<in> kept_out \<or> (i, i) \<in> (typed_live steps kept_out)\<^sup>+"

lemma steps_used:
  "i < length steps \<Longrightarrow> set (written steps i) \<subseteq> used_slots steps"
  "i < length steps \<Longrightarrow> set (slots_read steps i) \<subseteq> used_slots steps"
  by (auto simp: used_slots_def written_upto_def read_upto_def)

text \<open>A list that holds the used slots, each once and few enough for ids of 64 bits.\<close>

definition numbering :: "typed_step list \<Rightarrow> typed_slot list \<Rightarrow> bool" where
  "numbering steps known \<longleftrightarrow> distinct known \<and> set known = used_slots steps \<and> length known \<le> 2 ^ 64"

lemma numbering_mem:
  assumes "numbering steps known" "s \<in> used_slots steps" "set ss \<subseteq> used_slots steps"
  shows "slot_id known s \<in> slot_id known ` set ss \<longleftrightarrow> s \<in> set ss"
  using assms slot_id_inj [of known] unfolding numbering_def
  by (metis inj_on_image_mem_iff)

lemma numbering_disjoint:
  assumes "numbering steps known" "set ss \<subseteq> used_slots steps" "set ts \<subseteq> used_slots steps"
  shows "(\<exists>v \<in> slot_id known ` set ss. v \<in> slot_id known ` set ts) \<longleftrightarrow> set ss \<inter> set ts \<noteq> {}"
proof -
  have "(\<exists>v \<in> slot_id known ` set ss. v \<in> slot_id known ` set ts) \<longleftrightarrow> (\<exists>s \<in> set ss. slot_id known s \<in> slot_id known ` set ts)"
    by blast
  also have "\<dots> \<longleftrightarrow> (\<exists>s \<in> set ss. s \<in> set ts)"
    using numbering_mem [OF assms(1) _ assms(3)] assms(2) by blast
  finally show ?thesis by blast
qed

lemma depends_typed:
  assumes "numbering steps known"
  shows "depends (adapter_descs steps known) p i \<longleftrightarrow> typed_depends steps p i"
proof (cases "p < length steps \<and> i < length steps")
  case True
  then have "(\<exists>v \<in> slot_id known ` set (slots_read steps i). v \<in> slot_id known ` set (written steps p)) \<longleftrightarrow>
      set (slots_read steps i) \<inter> set (written steps p) \<noteq> {}"
    using numbering_disjoint [OF assms steps_used(2) steps_used(1)] by blast
  then show ?thesis using True by (auto simp: depends_def typed_depends_def descriptor_of_def)
qed (auto simp: depends_def typed_depends_def)

lemma live_typed:
  "numbering steps known \<Longrightarrow> live_edges (adapter_descs steps known) kept_out = typed_live steps kept_out"
  unfolding live_edges_def typed_live_def
  by (auto simp: depends_typed) (auto simp: typed_depends_def descriptor_of_def)

lemma aside_typed:
  "numbering steps known \<Longrightarrow> i < length steps \<Longrightarrow>
     set_aside (adapter_descs steps known) kept_out i \<longleftrightarrow> typed_aside steps kept_out i"
  by (simp add: set_aside_def typed_aside_def live_typed) (simp add: descriptor_of_def)

section \<open>When the adapter succeeds\<close>

definition typed_keys_ok :: "typed_step list \<Rightarrow> bool" where
  "typed_keys_ok steps \<longleftrightarrow> distinct (map ts_key steps) \<and> [] \<notin> ts_key ` set steps"

lemma typed_keys_iff:
  "typed_keys_ok steps \<longleftrightarrow>
     (\<forall>i < length steps. ts_key (steps ! i) \<noteq> [] \<and> (\<forall>j < i. ts_key (steps ! j) \<noteq> ts_key (steps ! i)))"
proof -
  have "distinct (map ts_key steps) \<longleftrightarrow> (\<forall>i < length steps. \<forall>j < i. ts_key (steps ! j) \<noteq> ts_key (steps ! i))"
    by (auto simp: distinct_conv_nth) (metis linorder_neqE_nat)
  moreover have "[] \<notin> ts_key ` set steps \<longleftrightarrow> (\<forall>i < length steps. ts_key (steps ! i) \<noteq> [])"
    using all_set_conv_all_nth [of steps "\<lambda>step. ts_key step \<noteq> []"] by (auto simp: image_iff)
  ultimately show ?thesis unfolding typed_keys_ok_def by blast
qed

lemma required_range:
  assumes "semantic_ok steps" "i < length steps" "p \<in> set (required_steps steps i)"
  shows "p < length steps"
proof -
  obtain key where key: "key \<in> set (ts_semantic (steps ! i))" "p = the (step_of_key steps key)"
    using assms(3) by (auto simp: required_steps_def)
  then have "step_of_key steps key \<noteq> None" using assms(1,2) step_of_key_iff(1) [of steps key] by (auto simp: semantic_ok_def)
  then show ?thesis using step_of_key_iff(2) [of steps key p] key(2) by auto
qed

lemma adapter_descs_ok:
  assumes n: "numbering steps (wk @ leaves)" and ok: "steps_ok steps sampled" and d: "described steps wk leaves state"
  shows "descs_ok (adapter_descs steps (wk @ leaves)) (set (ad_leaves state)) \<longleftrightarrow> typed_keys_ok steps"
proof -
  let ?known = "wk @ leaves" and ?id = "slot_id (wk @ leaves)"
  let ?descs = "adapter_descs steps ?known"
  have state: "set (ad_leaves state) = ?id ` set leaves" using d by (auto simp: described_def)
  have wk: "set wk = written_upto steps (length steps)" and lv: "set leaves \<subseteq> used_slots steps"
    "set leaves \<inter> written_upto steps (length steps) = {}"
    using d by (auto simp: described_def used_slots_def)
  have single: "set (written steps i) \<inter> set (written steps j) = {}" if "i < length steps" "j < i" for i j
    using ok that by (auto simp: steps_ok_def single_upto_def)
  have keys: "keys_ok ?descs (set (ad_leaves state)) i \<longleftrightarrow>
      ts_key (steps ! i) \<noteq> [] \<and> (\<forall>j < i. ts_key (steps ! j) \<noteq> ts_key (steps ! i))" if i: "i < length steps" for i
  proof -
    have "v \<notin> ?id ` set leaves \<and> (\<forall>j < i. v \<notin> set (desc_writes (?descs ! j)))"
      if v: "v \<in> set (desc_writes (?descs ! i))" for v
    proof -
      obtain s where s: "s \<in> set (written steps i)" "v = ?id s" using v i by (auto simp: descriptor_of_def)
      have used: "s \<in> used_slots steps" using s(1) steps_used(1) [OF i] by blast
      have "s \<notin> set leaves" using s(1) i lv(2) by (auto simp: written_upto_def)
      then have "v \<notin> ?id ` set leaves" using numbering_mem [OF n used lv(1)] s(2) by simp
      moreover have "v \<notin> ?id ` set (written steps j)" if "j < i" for j
        using numbering_mem [OF n used steps_used(1) [of j]] single [OF i that] s i that by auto
      ultimately show ?thesis using i by (simp add: descriptor_of_def)
    qed
    then show ?thesis unfolding keys_ok_def state using i by (simp add: descriptor_of_def)
  qed
  have "inputs_ok ?descs (set (ad_leaves state)) i" if i: "i < length steps" for i
  proof -
    have "v \<in> ?id ` set leaves \<or> (\<exists>p < length steps. v \<in> set (desc_writes (?descs ! p)))"
      if v: "v \<in> set (desc_reads (?descs ! i))" for v
    proof -
      obtain s where s: "s \<in> set (slots_read steps i)" "v = ?id s" using v i by (auto simp: descriptor_of_def)
      have "s \<in> set leaves \<or> s \<in> written_upto steps (length steps)"
        using s(1) i d by (auto simp: described_def read_upto_def)
      then show ?thesis
      proof
        assume "s \<in> written_upto steps (length steps)"
        then obtain p where "p < length steps" "s \<in> set (written steps p)" by (auto simp: written_upto_def)
        then show ?thesis using s(2) by (auto simp: descriptor_of_def)
      qed (use s(2) in blast)
    qed
    moreover have "\<forall>p \<in> set (desc_predecessors (?descs ! i)). p < length steps"
      using required_range [of steps i] ok i by (auto simp: steps_ok_def descriptor_of_def)
    ultimately show ?thesis unfolding inputs_ok_def state using i by simp
  qed
  then show ?thesis unfolding descs_ok_def typed_keys_iff using keys by auto
qed


text \<open>Everything a successful run tells, over some numbering of the slots.\<close>

definition slot_rank :: "typed_step list \<Rightarrow> typed_slot \<Rightarrow> value_id" where
  "slot_rank steps = slot_id (slot_list steps)"

definition final_descriptor :: "typed_step list \<Rightarrow> nat \<Rightarrow> op_descriptor" where
  "final_descriptor steps i = \<lparr> desc_key = ts_key (steps ! i), desc_kind = ts_kind (steps ! i),
     desc_reads = vec_unique (map (slot_rank steps) (slots_read steps i)),
     desc_writes = vec_unique (map (slot_rank steps) (written steps i)),
     desc_predecessors = [], desc_volatileInput = ts_externalReads (steps ! i) \<rparr>"

lemma remap_descriptor:
  assumes n: "numbering steps known" and vals: "vals = map (\<lambda>s. new_value (fst s) (snd s)) known"
    and i: "i < length steps" and desc: "op_descriptor oper = (adapter_descs steps known ! i)\<lparr>desc_predecessors := []\<rparr>"
  shows "op_descriptor (remap_op (\<lambda>v. value_remap vals ! unat v) oper) = final_descriptor steps i"
    "set (desc_reads (op_descriptor oper)) = slot_id known ` set (slots_read steps i)"
proof -
  have "sort known = sorted_list_of_set (set known)"
    using n by (intro sorted_distinct_set_unique) (simp_all add: numbering_def)
  then have ranks: "slot_id (sort known) = slot_rank steps"
    using n by (simp add: numbering_def slot_rank_def slot_list_def)
  have remap: "map ((\<lambda>v. value_remap vals ! unat v) \<circ> slot_id known) ss = map (slot_rank steps) ss"
    if "set ss \<subseteq> used_slots steps" for ss
    using value_remap_rank(1) [OF vals] n that unfolding ranks by (auto simp: numbering_def)
  show "op_descriptor (remap_op (\<lambda>v. value_remap vals ! unat v) oper) = final_descriptor steps i"
    using i
    by (simp add: remap_op_def Let_def desc final_descriptor_def descriptor_of_def
        remap [OF steps_used(1) [OF i]] remap [OF steps_used(2) [OF i]] del: map_eq_conv)
  show "set (desc_reads (op_descriptor oper)) = slot_id known ` set (slots_read steps i)"
    using i by (simp add: desc descriptor_of_def)
qed

lemma adapter_runE:
  assumes run: "RigExecOpCompileAdapter steps sampled policy retained = Inr (g, st)"
    and small: "card (used_slots steps) \<le> 2 ^ 64"
  obtains g0 wk leaves state where "steps_ok steps sampled" "described steps wk leaves state"
    "numbering steps (wk @ leaves)" "typed_keys_ok steps"
    "RigExecCompileOpGraph (adapter_descs steps (wk @ leaves)) (ad_leaves state) policy retained = Inr g0"
    "(g, st) = canonical_values g0 (adapter_descs steps (wk @ leaves)) state"
proof -
  have ok: "steps_ok steps sampled"
    using run adapter_descriptors_fail [of steps sampled]
    by (cases "steps_ok steps sampled") (auto simp: RigExecOpCompileAdapter_def)
  from adapter_descriptors_spec [OF ok] obtain state wk leaves where
    d: "adapter_descriptors steps sampled = Inr (state, adapter_descs steps (wk @ leaves))" "described steps wk leaves state" by blast
  note known = described_known [OF d(2)]
  have n: "numbering steps (wk @ leaves)" using known small by (simp add: numbering_def)
  from run d(1) obtain g0 where g0: "RigExecCompileOpGraph (adapter_descs steps (wk @ leaves)) (ad_leaves state) policy retained = Inr g0"
    "(g, st) = canonical_values g0 (adapter_descs steps (wk @ leaves)) state"
    by (auto simp: RigExecOpCompileAdapter_def split: sum.splits)
  then have "descs_ok (adapter_descs steps (wk @ leaves)) (set (ad_leaves state))" by (simp add: compile_iff)
  then have "typed_keys_ok steps" using adapter_descs_ok [OF n ok d(2)] by simp
  from that [OF ok d(2) n this g0] show ?thesis .
qed

lemma adapter_ops:
  assumes run: "RigExecOpCompileAdapter steps sampled policy retained = Inr (g, st)"
    and small: "card (used_slots steps) \<le> 2 ^ 64"
  shows "canonical_ops (g_ops g)" "distinct (map op_originalIndex (g_ops g))"
    "set (map op_originalIndex (g_ops g)) = {i. i < length steps \<and> \<not> typed_aside steps (retained_keys retained) i}"
    "\<forall>k < length (g_ops g). op_descriptor (g_ops g ! k) = final_descriptor steps (op_originalIndex (g_ops g ! k))"
    "\<forall>k < length (g_ops g). set (op_predecessors (g_ops g ! k)) =
       {j. j < length (g_ops g) \<and> typed_depends steps (op_originalIndex (g_ops g ! j)) (op_originalIndex (g_ops g ! k))}"
    "\<forall>k < length (g_ops g). \<forall>i < k. (\<forall>p \<in> set (op_predecessors (g_ops g ! k)). p < i) \<longrightarrow>
       desc_key (op_descriptor (g_ops g ! i)) < desc_key (op_descriptor (g_ops g ! k))"
    "typed_keys_ok steps" "steps_ok steps sampled"
proof -
  from run small obtain g0 wk leaves state where r: "steps_ok steps sampled" "described steps wk leaves state"
    "numbering steps (wk @ leaves)" "typed_keys_ok steps"
    "RigExecCompileOpGraph (adapter_descs steps (wk @ leaves)) (ad_leaves state) policy retained = Inr g0"
    "(g, st) = canonical_values g0 (adapter_descs steps (wk @ leaves)) state" by (rule adapter_runE)
  let ?descs = "adapter_descs steps (wk @ leaves)"
  let ?remap = "\<lambda>v. value_remap (ad_values state) ! unat v"
  have ops: "g_ops g = map (remap_op ?remap) (g_ops g0)" using r(6) by (simp add: canonical_values_def Let_def)
  then have len: "length (g_ops g) = length (g_ops g0)" by simp
  have same: "op_predecessors (g_ops g ! k) = op_predecessors (g_ops g0 ! k)" "op_successors (g_ops g ! k) = op_successors (g_ops g0 ! k)"
    "op_originalIndex (g_ops g ! k) = op_originalIndex (g_ops g0 ! k)" if "k < length (g_ops g)" for k
    using that by (simp_all add: ops remap_op_def Let_def)
  note ex = compiled_exactly [OF r(5)] and dep = compiled_depends [OF r(5)] and least = compiled_least_first [OF r(5)]
  have orig: "map op_originalIndex (g_ops g) = map op_originalIndex (g_ops g0)"
    by (simp add: ops remap_op_def Let_def)
  have edges_same: "op_edges_ok n k (g_ops g ! k) = op_edges_ok n k (g_ops g0 ! k)" if "k < length (g_ops g)" for n k
    using same [OF that] by (simp add: op_edges_ok_def)
  show "canonical_ops (g_ops g)"
    using dep edges_same same unfolding canonical_ops_def len by auto
  show "distinct (map op_originalIndex (g_ops g))" unfolding orig using ex by blast
  have set0: "set (map op_originalIndex (g_ops g0)) = {i. i < length steps \<and> \<not> typed_aside steps (retained_keys retained) i}"
    using ex aside_typed [OF r(3)] by auto
  then show "set (map op_originalIndex (g_ops g)) = {i. i < length steps \<and> \<not> typed_aside steps (retained_keys retained) i}"
    unfolding orig .
  have range: "op_originalIndex (g_ops g0 ! k) < length steps" if "k < length (g_ops g0)" for k
    using set0 that by (metis (mono_tags, lifting) length_map mem_Collect_eq nth_map nth_mem)
  have desc: "op_descriptor (g_ops g0 ! k) = (?descs ! op_originalIndex (g_ops g0 ! k))\<lparr>desc_predecessors := []\<rparr>"
    if "k < length (g_ops g0)" for k
    using ex that by simp
  have vals: "ad_values state = map (\<lambda>s. new_value (fst s) (snd s)) (wk @ leaves)"
    using r(2) by (simp add: described_def)
  show final: "\<forall>k < length (g_ops g). op_descriptor (g_ops g ! k) = final_descriptor steps (op_originalIndex (g_ops g ! k))"
    using remap_descriptor(1) [OF r(3) vals range desc] same(3) by (simp add: ops)
  show "\<forall>k < length (g_ops g). set (op_predecessors (g_ops g ! k)) =
       {j. j < length (g_ops g) \<and> typed_depends steps (op_originalIndex (g_ops g ! j)) (op_originalIndex (g_ops g ! k))}"
    using dep same depends_typed [OF r(3)] len by auto
  have key: "desc_key (op_descriptor (g_ops g ! k)) = desc_key (op_descriptor (g_ops g0 ! k))" if "k < length (g_ops g)" for k
    using that by (simp add: ops remap_op_def Let_def)
  show "\<forall>k < length (g_ops g). \<forall>i < k. (\<forall>p \<in> set (op_predecessors (g_ops g ! k)). p < i) \<longrightarrow>
       desc_key (op_descriptor (g_ops g ! i)) < desc_key (op_descriptor (g_ops g ! k))"
    using least key same(1) len by auto
  show "typed_keys_ok steps" "steps_ok steps sampled" by (rule r(4), rule r(1))
qed

end
