(* ===== verification/Op_Adapter_Tables.thy ===== *)
theory Op_Adapter_Tables
  imports Op_Adapter_Props
begin

text \<open>
  The tables of the adapter after a run (values, leaves, excluded values, readers), and the
  independence of the whole result from the order of the steps.
\<close>

section \<open>Readers\<close>

lemma readers_fold:
  "foldl (\<lambda>readers i. foldl (add_reader i) readers (vs i)) Map.empty [0..<k] v =
     (let l = concat (map (\<lambda>i. replicate (count_list (vs i) v) i) [0..<k]) in if l = [] then None else Some l)"
proof (induction k)
  case (Suc k)
  define R where "R = foldl (\<lambda>readers i. foldl (add_reader i) readers (vs i)) Map.empty [0..<k]"
  have step: "foldl (\<lambda>readers i. foldl (add_reader i) readers (vs i)) Map.empty [0..<Suc k] = foldl (add_reader k) R (vs k)"
    by (simp add: R_def)
  show ?case unfolding step unfolding add_readers using Suc.IH [folded R_def] by (auto simp: Let_def count_list_0_iff)
qed simp

lemma sorted_replicates: "sorted (concat (map (\<lambda>i. replicate (c i) i) [0..<k :: nat]))"
  by (induction k) (auto simp: sorted_append)

lemma unique_replicates: "remdups_adj (concat (map (\<lambda>i. replicate (c i) i) [0..<k])) = filter (\<lambda>i. c i \<noteq> 0) [0..<k :: nat]"
proof -
  let ?l = "concat (map (\<lambda>i. replicate (c i) i) [0..<k])"
  have "remdups_adj ?l = vec_unique ?l" by (simp add: vec_unique_def sort_key_id_if_sorted sorted_replicates)
  also have "\<dots> = filter (\<lambda>i. c i \<noteq> 0) [0..<k]"
    by (rule sorted_distinct_set_unique) (auto simp: sorted_wrt_filter)
  finally show ?thesis .
qed

lemma remap_readers_eq:
  "remap_readers remap ops v =
     (let rs = filter (\<lambda>i. v \<in> remap ` set (desc_reads (op_descriptor (ops ! i)))) [0..<length ops]
      in if rs = [] then None else Some rs)"
proof -
  let ?vs = "\<lambda>i. map remap (desc_reads (op_descriptor (ops ! i)))"
  let ?c = "\<lambda>i. count_list (?vs i) v"
  let ?l = "concat (map (\<lambda>i. replicate (?c i) i) [0..<length ops])"
  have "?l = [] \<longleftrightarrow> remdups_adj ?l = []" by simp
  then show ?thesis
    unfolding remap_readers_def readers_fold unique_replicates by (simp add: Let_def count_list_0_iff unique_replicates)
qed

section \<open>Tables\<close>

lemma excluded_iff:
  assumes "RigExecCompileOpGraph descs leaves policy retained = Inr g" "length descs \<le> 2 ^ 31" "i < length descs"
  shows "g_canonicalIndex g ! i < 0 \<longleftrightarrow> set_aside descs (retained_keys retained) i"
proof -
  from assms(1) obtain preds succs excluded order base where
    trace: "compile_trace descs retained g preds succs excluded order base" by (rule compile_traceE)
  note ord = trace_order [OF trace]
  have index: "g_canonicalIndex g = canonical_index (length descs) order"
    unfolding trace_fields(1) [OF trace] by (simp add: build_graph_def Let_def)
  have range: "\<forall>x \<in> set order. x < length descs" using ord(2) by auto
  note idx = canonical_index_nth [OF ord(1) range]
  show ?thesis
  proof (cases "set_aside descs (retained_keys retained) i")
    case False
    then have "i \<in> set order" using ord(2) assms(3) by auto
    then obtain k where k: "order ! k = i" "k < length order" by (metis in_set_conv_nth)
    have "length order \<le> length descs" using compiled_from_length [OF ord(4)] .
    then have "k < 2 ^ 31" using k(2) assms(2) by simp
    then have "int32_of k = int k" by (simp add: int32_of_def signed_take_bit_int_eq_self)
    then show ?thesis using idx(1) [OF k(2)] k(1) index False by simp
  next
    case True
    then have "i \<notin> set order" using ord(2) by auto
    then show ?thesis using idx(2) [OF assms(3)] index True by simp
  qed
qed

definition aside_slots :: "typed_step list \<Rightarrow> string set \<Rightarrow> typed_slot set" where
  "aside_slots steps kept_out = (\<Union>i \<in> {i. i < length steps \<and> typed_aside steps kept_out i}. set (written steps i))"

definition leaf_slots :: "typed_step list \<Rightarrow> typed_slot set" where
  "leaf_slots steps = read_upto steps (length steps) - written_upto steps (length steps)"

lemma adapter_tables:
  assumes run: "RigExecOpCompileAdapter steps sampled policy retained = Inr (g, st)"
    and small: "card (used_slots steps) \<le> 2 ^ 64" "length steps \<le> 2 ^ 31"
  shows "ad_values st = map (\<lambda>s. new_value (fst s) (snd s)) (slot_list steps)"
    "ad_leaves st = vec_unique (ad_leaves st)"
    "set (ad_leaves st) = slot_rank steps ` (leaf_slots steps \<union> aside_slots steps (retained_keys retained))"
    "set (ad_excludedValues st) = slot_rank steps ` aside_slots steps (retained_keys retained)"
    "g_readers g v = (let rs = filter (\<lambda>k. v \<in> set (desc_reads (op_descriptor (g_ops g ! k)))) [0..<length (g_ops g)]
       in if rs = [] then None else Some rs)"
    "ad_compiled st" "ad_changedLeaves st = []" "ad_changedValues st = []"
proof -
  from run small(1) obtain g0 wk leaves state where r: "steps_ok steps sampled" "described steps wk leaves state"
    "numbering steps (wk @ leaves)" "typed_keys_ok steps"
    "RigExecCompileOpGraph (adapter_descs steps (wk @ leaves)) (ad_leaves state) policy retained = Inr g0"
    "(g, st) = canonical_values g0 (adapter_descs steps (wk @ leaves)) state" by (rule adapter_runE)
  let ?known = "wk @ leaves" and ?descs = "adapter_descs steps (wk @ leaves)"
  let ?remap = "\<lambda>v. value_remap (ad_values state) ! unat v"
  have vals: "ad_values state = map (\<lambda>s. new_value (fst s) (snd s)) ?known" using r(2) by (simp add: described_def)
  have n: "distinct ?known" "length ?known \<le> 2 ^ 64" "set ?known = used_slots steps" using r(3) by (simp_all add: numbering_def)
  have sorted_known: "sort ?known = slot_list steps" by (rule described_known(1) [OF r(2)])
  have rank: "?remap (slot_id ?known s) = slot_rank steps s" if "s \<in> used_slots steps" for s
  proof -
    have "s \<in> set ?known" using that unfolding n(3) .
    from value_remap_rank(1) [OF vals n(1,2) this] show ?thesis unfolding sorted_known slot_rank_def .
  qed
  have excluded: "set (excluded_writes g0 ?descs) = slot_id ?known ` aside_slots steps (retained_keys retained)"
  proof -
    have "g_canonicalIndex g0 ! i < 0 \<longleftrightarrow> typed_aside steps (retained_keys retained) i" if "i < length steps" for i
      using excluded_iff [OF r(5)] aside_typed [OF r(3)] small(2) that by simp
    then have "set (excluded_writes g0 ?descs) =
        (\<Union>i \<in> {i. i < length steps \<and> typed_aside steps (retained_keys retained) i}. slot_id ?known ` set (written steps i))"
      by (auto simp: excluded_writes_def descriptor_of_def split: if_splits)
    then show ?thesis by (simp add: aside_slots_def image_UN)
  qed
  have used: "aside_slots steps (retained_keys retained) \<subseteq> used_slots steps" "leaf_slots steps \<subseteq> used_slots steps"
    using steps_used(1) by (auto simp: aside_slots_def leaf_slots_def used_slots_def)
  have to_rank: "?remap ` slot_id ?known ` A = slot_rank steps ` A" if "A \<subseteq> used_slots steps" for A
    unfolding image_image using rank that by (intro image_cong) auto
  have lv: "set (ad_leaves state) = slot_id ?known ` leaf_slots steps" using r(2) by (auto simp: described_def leaf_slots_def)
  note st = r(6) [unfolded canonical_values_def Let_def prod.inject]
  show "ad_values st = map (\<lambda>s. new_value (fst s) (snd s)) (slot_list steps)"
  proof (cases "?known = []")
    case True
    then have "ad_values state = []" "slot_list steps = []" using vals sorted_known by simp_all
    then show ?thesis using st by (simp add: value_order_def)
  next
    case False
    then have "hd ?known \<in> set ?known" by (rule hd_in_set)
    from value_remap_rank(2) [OF vals n(1,2) this] show ?thesis
      unfolding sorted_known using st by simp
  qed
  show "ad_leaves st = vec_unique (ad_leaves st)" using st by (simp add: vec_unique_id)
  have "set (ad_leaves st) = ?remap ` (set (ad_leaves state) \<union> set (excluded_writes g0 ?descs))"
    using st by (simp add: image_Un)
  also have "\<dots> = slot_rank steps ` (leaf_slots steps \<union> aside_slots steps (retained_keys retained))"
    unfolding lv excluded image_Un to_rank [OF used(1)] to_rank [OF used(2)] ..
  finally show "set (ad_leaves st) = slot_rank steps ` (leaf_slots steps \<union> aside_slots steps (retained_keys retained))" .
  have "set (ad_excludedValues st) = ?remap ` set (excluded_writes g0 ?descs)" using st by simp
  then show "set (ad_excludedValues st) = slot_rank steps ` aside_slots steps (retained_keys retained)"
    unfolding excluded to_rank [OF used(1)] .
  have "desc_reads (op_descriptor (g_ops g ! k)) = vec_unique (map ?remap (desc_reads (op_descriptor (g_ops g0 ! k))))"
    if "k < length (g_ops g0)" for k
    using st that by (simp add: remap_op_def Let_def)
  moreover have "length (g_ops g) = length (g_ops g0)" using st by simp
  ultimately have same: "filter (\<lambda>k. v \<in> set (desc_reads (op_descriptor (g_ops g ! k)))) [0..<length (g_ops g)] =
      filter (\<lambda>k. v \<in> ?remap ` set (desc_reads (op_descriptor (g_ops g0 ! k)))) [0..<length (g_ops g0)]"
    by (intro filter_cong) auto
  show "g_readers g v = (let rs = filter (\<lambda>k. v \<in> set (desc_reads (op_descriptor (g_ops g ! k)))) [0..<length (g_ops g)]
       in if rs = [] then None else Some rs)"
    unfolding same using st by (simp add: remap_readers_eq)
  show "ad_compiled st" "ad_changedLeaves st = []" "ad_changedValues st = []"
    using st r(2) by (simp_all add: described_def new_adapter_def)
qed

end
