(* ===== verification/Op_Adapter_Errors.thy ===== *)
theory Op_Adapter_Errors
  imports Op_Adapter_Tables
begin

text \<open>
  What an error of the adapter says: the slot, the steps and the keys it names are those of a
  second producer, of a prerequisite no step has, or of a read of a slot that is neither written
  nor sampled; and the compiler is reached only with descriptors in order.
\<close>

section \<open>A second producer\<close>

lemma write_slots_error:
  assumes b: "build_ok b known" and run: "fold_err (write_slot steps i) (b, writers, vs) ss = Inl e"
  shows "\<exists>s j. s \<in> set ss \<and> writers s = Some j \<and> j \<noteq> i \<and> e = TypedProducers s (ts_key (steps ! j)) (ts_key (steps ! i))"
proof -
  from run obtain ys s zs st where split: "ss = ys @ s # zs"
    "fold_err (write_slot steps i) (b, writers, vs) ys = Inr st" "write_slot steps i st s = Inl e" by (rule fold_err_InlE)
  have ok: "\<forall>t \<in> set ys. writers t \<in> {None, Some i}"
  proof (rule ccontr)
    assume "\<not> ?thesis"
    then obtain t j where "t \<in> set ys" "writers t = Some j" "j \<noteq> i" by auto
    from write_slots_fail [where writers = writers and vs = vs and b = b and steps = steps, OF this] split(2) show False by auto
  qed
  from write_slots [where vs = vs and steps = steps, OF b ok] split(2) obtain b' vs' where
    st: "st = (b', (\<lambda>s. if s \<in> set ys then Some i else writers s), vs')" by auto
  from split(3) have "s \<notin> set ys" "writers s \<noteq> None" "the (writers s) \<noteq> i"
    "e = TypedProducers s (ts_key (steps ! the (writers s))) (ts_key (steps ! i))"
    by (auto simp: st write_slot_def Let_def split: if_splits option.splits prod.splits)
  then obtain j where j: "writers s = Some j" "j \<noteq> i" "e = TypedProducers s (ts_key (steps ! j)) (ts_key (steps ! i))" by auto
  have "s \<in> set ss" unfolding split(1) by simp
  with j show ?thesis by (intro exI conjI)
qed

lemma write_steps_error:
  assumes "fold_err (write_step steps) (start_build, Map.empty, []) [0..<k] = Inl e"
  shows "\<exists>s i j. i < k \<and> j < i \<and> s \<in> set (written steps i) \<and> s \<in> set (written steps j) \<and>
     e = TypedProducers s (ts_key (steps ! j)) (ts_key (steps ! i))"
proof -
  from assms obtain ys i zs st where split: "[0..<k] = ys @ i # zs"
    "fold_err (write_step steps) (start_build, Map.empty, []) ys = Inr st" "write_step steps st i = Inl e" by (rule fold_err_InlE)
  then have ys: "ys = [0..<i]" "i < k" using upt_prefix [OF split(1)] by auto
  have "single_upto steps i" using write_steps_fail [of steps i] split(2) ys(1) by auto
  from write_steps [OF this] split(2) ys(1) obtain known where inv: "write_inv steps i known st" by auto
  obtain b writers writes where st: "st = (b, writers, writes)" by (cases st) auto
  note w = inv [unfolded st write_inv_def prod.case]
  have "fold_err (write_slot steps i) (b, writers, []) (written steps i) = Inl e"
    using split(3) by (auto simp: st write_step_def bind_err_Inl_iff)
  from write_slots_error [OF conjunct1 [OF w] this] obtain s j where
    s: "s \<in> set (written steps i)" "writers s = Some j" "e = TypedProducers s (ts_key (steps ! j)) (ts_key (steps ! i))" by blast
  moreover have "writers s = Some j \<longleftrightarrow> j < i \<and> s \<in> set (written steps j)" using w by blast
  ultimately show ?thesis using ys(2) by blast
qed

section \<open>An unknown prerequisite\<close>

lemma semantic_steps_error:
  assumes "fold_err (semantic_step steps) [] [0..<length steps] = Inl e"
  shows "\<exists>step \<in> set steps. \<exists>key \<in> set (ts_semantic step). key \<notin> ts_key ` set steps \<and> e = SemanticPredecessor (ts_key step) key"
proof -
  from assms obtain ys i zs preds where split: "[0..<length steps] = ys @ i # zs" "semantic_step steps preds i = Inl e"
    by (rule fold_err_InlE)
  have "i \<in> set [0..<length steps]" unfolding split(1) by simp
  then have i: "steps ! i \<in> set steps" by simp
  from split(2) have "fold_err (\<lambda>ps key. case step_of_key steps key of
        None \<Rightarrow> Inl (SemanticPredecessor (ts_key (steps ! i)) key) | Some p \<Rightarrow> Inr (ps @ [p])) [] (ts_semantic (steps ! i)) = Inl e"
    by (auto simp: semantic_step_def bind_err_Inl_iff)
  then obtain ks key ls ps where key: "ts_semantic (steps ! i) = ks @ key # ls"
    "(case step_of_key steps key of None \<Rightarrow> Inl (SemanticPredecessor (ts_key (steps ! i)) key) | Some p \<Rightarrow> Inr (ps @ [p])) = Inl e"
    by (rule fold_err_InlE)
  then have none: "step_of_key steps key = None" and e: "e = SemanticPredecessor (ts_key (steps ! i)) key" by (auto split: option.splits)
  have "key \<in> set (ts_semantic (steps ! i))" unfolding key(1) by simp
  moreover have "key \<notin> ts_key ` set steps" using none step_of_key_iff(1) [of steps key] by simp
  ultimately show ?thesis using i e by blast
qed

section \<open>A read of nothing\<close>

lemma read_slots_error:
  assumes b: "read_inv sampled wk leaves b" and run: "fold_err (read_slot sampled step) (b, vs) ss = Inl e"
  shows "\<exists>s \<in> set ss. s \<notin> set wk \<and> \<not> sampled s \<and> e = TypedReadHasNoProducer (ts_key step) s"
proof -
  from run obtain ys s zs st where split: "ss = ys @ s # zs"
    "fold_err (read_slot sampled step) (b, vs) ys = Inr st" "read_slot sampled step st s = Inl e" by (rule fold_err_InlE)
  have ok: "\<forall>t \<in> set ys. t \<in> set wk \<or> sampled t"
    using read_slots_fail [where vs = vs and step = step, OF b] split(2) by fastforce
  from read_slots [where vs = vs and step = step, OF b ok] split(2) obtain b' vs' leaves' where
    st: "st = (b', vs')" "read_inv sampled wk leaves' b'" by auto
  from split(3) have "ab_values b' s = None" "\<not> sampled s" "e = TypedReadHasNoProducer (ts_key step) s"
    by (auto simp: st(1) read_slot_def split: if_splits option.splits prod.splits)
  moreover from this(1) have "s \<notin> set wk" using build_ok_lookup [of b' "wk @ leaves'" s] st(2) by (auto simp: read_inv_def)
  ultimately show ?thesis using split(1) by auto
qed

lemma read_steps_error:
  assumes b: "read_inv sampled wk leaves b" and run: "fold_err (read_step sampled) (b, reads) xs = Inl e"
  shows "\<exists>step \<in> set xs. \<exists>s \<in> set (range_slots (ts_reads step)). s \<notin> set wk \<and> \<not> sampled s \<and>
     e = TypedReadHasNoProducer (ts_key step) s"
proof -
  from run obtain ys step zs st where split: "xs = ys @ step # zs"
    "fold_err (read_step sampled) (b, reads) ys = Inr st" "read_step sampled st step = Inl e" by (rule fold_err_InlE)
  have ok: "\<forall>x \<in> set ys. \<forall>s \<in> set (range_slots (ts_reads x)). s \<in> set wk \<or> sampled s"
    using read_steps_fail [where reads = reads, OF b] split(2) by fastforce
  from read_steps [where reads = reads, OF b ok] split(2) obtain b' reads' leaves' where
    st: "st = (b', reads')" "read_inv sampled wk leaves' b'" by auto
  have "fold_err (read_slot sampled step) (b', []) (range_slots (ts_reads step)) = Inl e"
    using split(3) by (auto simp: st(1) read_step_def bind_err_Inl_iff)
  from read_slots_error [OF st(2) this] show ?thesis using split(1) by auto
qed

section \<open>Every error\<close>

text \<open>What an error tells of the steps. The compiler itself is reached only when every slot has one
  producer, every prerequisite a step and every read a source; it then fails on an empty or a
  repeated key, or on a cycle under the policy that rejects them.\<close>

definition adapter_failure :: "typed_step list \<Rightarrow> (typed_slot \<Rightarrow> bool) \<Rightarrow> cycle_policy \<Rightarrow> adapter_error \<Rightarrow> bool" where
  "adapter_failure steps sampled policy e =
     (case e of
        TypedProducers s a b \<Rightarrow> \<exists>i < length steps. \<exists>j < i. s \<in> set (written steps i) \<and> s \<in> set (written steps j) \<and>
          a = ts_key (steps ! j) \<and> b = ts_key (steps ! i)
      | SemanticPredecessor a key \<Rightarrow> \<exists>step \<in> set steps. a = ts_key step \<and> key \<in> set (ts_semantic step) \<and> key \<notin> ts_key ` set steps
      | TypedReadHasNoProducer a s \<Rightarrow> \<exists>step \<in> set steps. a = ts_key step \<and> s \<in> set (range_slots (ts_reads step)) \<and>
          s \<notin> written_upto steps (length steps) \<and> \<not> sampled s
      | OpGraphError _ \<Rightarrow> steps_ok steps sampled \<and>
          (\<not> typed_keys_ok steps \<or> policy = Reject \<and> \<not> acyclic {(p, i). typed_depends steps p i}))"

lemma adapter_descriptors_error:
  assumes "adapter_descriptors steps sampled = Inl e"
  shows "adapter_failure steps sampled policy e"
proof (cases "fold_err (write_step steps) (start_build, Map.empty, []) [0..<length steps]")
  case (Inl e')
  then have "e' = e" using assms by (simp add: adapter_descriptors_def start_build_def [symmetric])
  with write_steps_error [OF Inl] obtain s i j where "i < length steps" "j < i" "s \<in> set (written steps i)"
    "s \<in> set (written steps j)" and e: "e = TypedProducers s (ts_key (steps ! j)) (ts_key (steps ! i))" by blast
  then show ?thesis unfolding adapter_failure_def e adapter_error.case by blast
next
  case (Inr r)
  then have "single_upto steps (length steps)" using write_steps_fail [of steps "length steps"] by auto
  from write_steps [OF this] Inr obtain known where inv: "write_inv steps (length steps) known r" by auto
  obtain b writers writes where r: "r = (b, writers, writes)" by (cases r) auto
  note start = write_phase_start(1) [OF inv [unfolded r], of sampled] write_phase_start(2) [OF inv [unfolded r]]
  show ?thesis
  proof (cases "fold_err (semantic_step steps) [] [0..<length steps]")
    case (Inl e')
    then have "e' = e" using assms Inr by (simp add: adapter_descriptors_def start_build_def [symmetric] r)
    with semantic_steps_error [OF Inl] show ?thesis by (auto simp: adapter_failure_def)
  next
    case sem: (Inr preds)
    then have "fold_err (read_step sampled) (b, []) steps = Inl e"
      using assms Inr by (auto simp: adapter_descriptors_def start_build_def [symmetric] r bind_err_Inl_iff)
    from read_steps_error [OF start(1) this] show ?thesis by (auto simp: adapter_failure_def start(2))
  qed
qed

end
