(* ===== verification/Op_Adapter_Claims.thy ===== *)
theory Op_Adapter_Claims
  imports Op_Adapter_Errors
begin

text \<open>
  The properties of the adapter: when it compiles, what the compiled graph is in terms of the
  slots of the steps, and that a backend may list its steps in any order.
\<close>

section \<open>Dependencies by key\<close>

definition step_depends :: "typed_step \<Rightarrow> typed_step \<Rightarrow> bool" where
  "step_depends a b \<longleftrightarrow> ts_key a \<in> set (ts_semantic b) \<or> set (range_slots (ts_writes a)) \<inter> set (range_slots (ts_reads b)) \<noteq> {}"

definition key_live :: "typed_step set \<Rightarrow> string set \<Rightarrow> (string \<times> string) set" where
  "key_live S kept_out = {(ts_key a, ts_key b) | a b. a \<in> S \<and> b \<in> S \<and> step_depends a b \<and> ts_key a \<notin> kept_out \<and> ts_key b \<notin> kept_out}"

definition aside_key :: "typed_step set \<Rightarrow> string set \<Rightarrow> string \<Rightarrow> bool" where
  "aside_key S kept_out key \<longleftrightarrow> key \<in> kept_out \<or> (key, key) \<in> (key_live S kept_out)\<^sup>+"

lemma typed_keys_inj: "typed_keys_ok steps \<Longrightarrow> i < length steps \<Longrightarrow> j < length steps \<Longrightarrow> ts_key (steps ! i) = ts_key (steps ! j) \<Longrightarrow> i = j"
  unfolding typed_keys_iff by (metis linorder_neqE_nat)

lemma required_iff:
  assumes keys: "typed_keys_ok steps" and sem: "semantic_ok steps" and i: "i < length steps" and p: "p < length steps"
  shows "p \<in> set (required_steps steps i) \<longleftrightarrow> ts_key (steps ! p) \<in> set (ts_semantic (steps ! i))"
proof -
  have found: "step_of_key steps (ts_key (steps ! q)) = Some q" if q: "q < length steps" for q
  proof -
    obtain r where r: "step_of_key steps (ts_key (steps ! q)) = Some r"
      using step_of_key_iff(1) [of steps "ts_key (steps ! q)"] q by (cases "step_of_key steps (ts_key (steps ! q))") auto
    with step_of_key_iff(2) [OF r] typed_keys_inj [OF keys _ q] show ?thesis by blast
  qed
  have "the (step_of_key steps key) = p \<longleftrightarrow> key = ts_key (steps ! p)" if key: "key \<in> set (ts_semantic (steps ! i))" for key
  proof -
    have "key \<in> ts_key ` set steps" using sem key i by (auto simp: semantic_ok_def)
    then obtain q where q: "q < length steps" "key = ts_key (steps ! q)" by (auto simp: set_conv_nth)
    then show ?thesis using found [OF q(1)] typed_keys_inj [OF keys q(1) p] by auto
  qed
  then show ?thesis by (force simp: required_steps_def)
qed

lemma typed_depends_steps:
  assumes "typed_keys_ok steps" "semantic_ok steps" "p < length steps" "i < length steps"
  shows "typed_depends steps p i \<longleftrightarrow> step_depends (steps ! p) (steps ! i)"
  using required_iff [OF assms(1,2,4,3)] assms(3,4) by (simp add: typed_depends_def step_depends_def)

lemma typed_aside_key:
  assumes keys: "typed_keys_ok steps" and sem: "semantic_ok steps" and i: "i < length steps"
  shows "typed_aside steps kept_out i \<longleftrightarrow> aside_key (set steps) kept_out (ts_key (steps ! i))"
proof -
  let ?R = "typed_live steps kept_out" and ?K = "key_live (set steps) kept_out"
  let ?k = "\<lambda>i. ts_key (steps ! i)"
  have R: "(p, q) \<in> ?R \<longleftrightarrow> p < length steps \<and> q < length steps \<and> (?k p, ?k q) \<in> ?K" for p q
  proof
    assume pq: "(p, q) \<in> ?R"
    then have range: "p < length steps" "q < length steps" by (auto simp: typed_live_def typed_depends_def)
    then show "p < length steps \<and> q < length steps \<and> (?k p, ?k q) \<in> ?K"
      using pq typed_depends_steps [OF keys sem range] nth_mem [OF range(1)] nth_mem [OF range(2)]
      unfolding typed_live_def key_live_def by blast
  next
    assume pq: "p < length steps \<and> q < length steps \<and> (?k p, ?k q) \<in> ?K"
    then obtain a b where ab: "a \<in> set steps" "b \<in> set steps" "step_depends a b" "?k p = ts_key a" "?k q = ts_key b"
      "?k p \<notin> kept_out" "?k q \<notin> kept_out" by (auto simp: key_live_def)
    then have "a = steps ! p" "b = steps ! q" using typed_keys_inj [OF keys] pq by (metis in_set_conv_nth)+
    then show "(p, q) \<in> ?R" using ab pq typed_depends_steps [OF keys sem, of p q] by (simp add: typed_live_def)
  qed
  have there: "(?k p, ?k q) \<in> ?K\<^sup>+" if "(p, q) \<in> ?R\<^sup>+" for p q
    using that by induction (use R in \<open>auto intro: trancl_into_trancl\<close>)
  have lifted: "p < length steps \<Longrightarrow> ?k p = x \<Longrightarrow> \<exists>q < length steps. ?k q = y \<and> (p, q) \<in> ?R\<^sup>+" if "(x, y) \<in> ?K\<^sup>+" for x y p
    using that
  proof induction
    case (base y)
    then obtain q where "q < length steps" "?k q = y" by (auto simp: key_live_def in_set_conv_nth)
    then show ?case using R base by blast
  next
    case (step y z)
    then obtain q where q: "q < length steps" "?k q = y" "(p, q) \<in> ?R\<^sup>+" by blast
    obtain r where r: "r < length steps" "?k r = z" using step.hyps(2) by (auto simp: key_live_def in_set_conv_nth)
    then have "(q, r) \<in> ?R" using R q step.hyps(2) by blast
    then show ?case using q(3) r by (blast intro: trancl_into_trancl)
  qed
  have "(i, i) \<in> ?R\<^sup>+ \<longleftrightarrow> (?k i, ?k i) \<in> ?K\<^sup>+"
    using there lifted [OF _ i refl] typed_keys_inj [OF keys _ i] by metis
  then show ?thesis by (simp add: typed_aside_def aside_key_def)
qed

section \<open>The order\<close>

definition least_key_order :: "typed_step list \<Rightarrow> bool" where
  "least_key_order S \<longleftrightarrow> distinct (map ts_key S) \<and>
     (\<forall>k < length S. \<forall>j < length S. step_depends (S ! j) (S ! k) \<longrightarrow> j < k) \<and>
     (\<forall>k < length S. \<forall>i < k. (\<forall>j < length S. step_depends (S ! j) (S ! k) \<longrightarrow> j < i) \<longrightarrow> ts_key (S ! i) < ts_key (S ! k))"

lemma least_key_first_half:
  assumes S: "least_key_order S" and T: "least_key_order T" and same: "set S = set T"
    and prefix: "\<forall>j < k. S ! j = T ! j" and k: "k < length S" and differ: "S ! k \<noteq> T ! k"
  shows "ts_key (T ! k) < ts_key (S ! k)"
proof -
  have dS: "distinct S" and dT: "distinct T" using S T by (auto simp: least_key_order_def distinct_map)
  then have len: "length S = length T" using same by (metis distinct_card)
  obtain m where m: "m < length T" "T ! m = S ! k" using k same by (metis in_set_conv_nth nth_mem)
  have "m \<noteq> k" using m differ by auto
  moreover have "\<not> m < k"
  proof
    assume "m < k"
    then have "S ! m = S ! k" using prefix m(2) by simp
    then show False using dS k \<open>m < k\<close> by (simp add: nth_eq_iff_index_eq)
  qed
  ultimately have km: "k < m" by simp
  have "j < k" if j: "j < length T" "step_depends (T ! j) (T ! m)" for j
  proof -
    obtain j' where j': "j' < length S" "S ! j' = T ! j" using j(1) same by (metis in_set_conv_nth nth_mem)
    then have "j' < k" using S j(2) m(2) k by (auto simp: least_key_order_def)
    then have "T ! j' = T ! j" using prefix j'(2) by simp
    then show ?thesis using dT j(1) j'(1) len \<open>j' < k\<close> by (simp add: nth_eq_iff_index_eq)
  qed
  then have "ts_key (T ! k) < ts_key (T ! m)" using T m(1) km by (auto simp: least_key_order_def)
  then show ?thesis by (simp add: m(2))
qed

lemma least_key_order_unique:
  assumes "least_key_order S" "least_key_order T" "set S = set T"
  shows "S = T"
proof (rule nth_equalityI)
  have d: "distinct S" "distinct T" using assms by (auto simp: least_key_order_def distinct_map)
  then show len: "length S = length T" using assms(3) by (metis distinct_card)
  fix k show "k < length S \<Longrightarrow> S ! k = T ! k"
  proof (induction k rule: less_induct)
    case (less k)
    then have prefix: "\<forall>j < k. S ! j = T ! j" by simp
    show ?case
    proof (rule ccontr)
      assume differ: "S ! k \<noteq> T ! k"
      from least_key_first_half [OF assms prefix less.prems differ] have "ts_key (T ! k) < ts_key (S ! k)" .
      moreover have "ts_key (S ! k) < ts_key (T ! k)"
        using least_key_first_half [OF assms(2,1) assms(3) [symmetric], of k] prefix less.prems len differ by auto
      ultimately show False by simp
    qed
  qed
qed

text \<open>The compiled operations as the steps they come from.\<close>

definition compiled_steps :: "typed_step list \<Rightarrow> compiled_graph \<Rightarrow> typed_step list" where
  "compiled_steps steps g = map (\<lambda>oper. steps ! op_originalIndex oper) (g_ops g)"

lemma compiled_steps_order:
  assumes run: "RigExecOpCompileAdapter steps sampled policy retained = Inr (g, st)"
    and small: "card (used_slots steps) \<le> 2 ^ 64"
  shows "least_key_order (compiled_steps steps g)"
    "set (compiled_steps steps g) = {a \<in> set steps. \<not> aside_key (set steps) (retained_keys retained) (ts_key a)}"
    "\<forall>k < length (g_ops g). set (op_predecessors (g_ops g ! k)) =
       {j. j < length (g_ops g) \<and> step_depends (compiled_steps steps g ! j) (compiled_steps steps g ! k)}"
proof -
  let ?S = "compiled_steps steps g"
  note a = adapter_ops [OF run small]
  have sem: "semantic_ok steps" using a(8) by (simp add: steps_ok_def)
  have orig: "op_originalIndex (g_ops g ! k) < length steps" if "k < length (g_ops g)" for k
    using a(3) that by (metis (mono_tags, lifting) length_map mem_Collect_eq nth_map nth_mem)
  have len: "length ?S = length (g_ops g)" by (simp add: compiled_steps_def)
  have key: "ts_key (?S ! k) = desc_key (op_descriptor (g_ops g ! k))" if "k < length (g_ops g)" for k
    using a(4) that by (simp add: compiled_steps_def final_descriptor_def)
  show preds: "\<forall>k < length (g_ops g). set (op_predecessors (g_ops g ! k)) =
       {j. j < length (g_ops g) \<and> step_depends (?S ! j) (?S ! k)}"
    using a(5) typed_depends_steps [OF a(7) sem] orig by (auto simp: compiled_steps_def)
  have "map ts_key ?S = map (\<lambda>i. ts_key (steps ! i)) (map op_originalIndex (g_ops g))"
    by (simp add: compiled_steps_def)
  moreover have "inj_on (\<lambda>i. ts_key (steps ! i)) (set (map op_originalIndex (g_ops g)))"
    unfolding a(3) by (rule inj_onI) (use typed_keys_inj [OF a(7)] in auto)
  ultimately have "distinct (map ts_key ?S)" using a(2) distinct_map by metis
  moreover have "j < k" if "k < length ?S" "j < length ?S" "step_depends (?S ! j) (?S ! k)" for j k
    using preds that op_edges_okD(5) [OF canonical_opsD [OF a(1)]] len by auto
  moreover have "ts_key (?S ! i) < ts_key (?S ! k)"
    if "k < length ?S" "i < k" "\<forall>j < length ?S. step_depends (?S ! j) (?S ! k) \<longrightarrow> j < i" for i k
    using a(6) preds that len key by auto
  ultimately show "least_key_order ?S" unfolding least_key_order_def by blast
  have "set ?S = (\<lambda>i. steps ! i) ` set (map op_originalIndex (g_ops g))" by (auto simp: compiled_steps_def)
  also have "\<dots> = {a \<in> set steps. \<not> aside_key (set steps) (retained_keys retained) (ts_key a)}"
    unfolding a(3) using typed_aside_key [OF a(7) sem] by (auto simp: in_set_conv_nth)
  finally show "set ?S = {a \<in> set steps. \<not> aside_key (set steps) (retained_keys retained) (ts_key a)}" .
qed


section \<open>When it compiles\<close>

text \<open>The compiler on the descriptors of steps in order.\<close>

lemma adapter_compiles:
  assumes ok: "steps_ok steps sampled" and small: "card (used_slots steps) \<le> 2 ^ 64" "length steps \<le> uint32_max"
  shows "(\<exists>r. RigExecOpCompileAdapter steps sampled policy None = Inr r) \<longleftrightarrow>
    typed_keys_ok steps \<and> (policy = Reject \<longrightarrow> acyclic {(p, i). typed_depends steps p i})"
proof -
  from adapter_descriptors_spec [OF ok] obtain state wk leaves where
    d: "adapter_descriptors steps sampled = Inr (state, adapter_descs steps (wk @ leaves))" "described steps wk leaves state" by blast
  have n: "numbering steps (wk @ leaves)" using described_known [OF d(2)] small(1) by (simp add: numbering_def)
  note keys = adapter_descs_ok [OF n ok d(2)]
  have "(\<exists>r. RigExecOpCompileAdapter steps sampled policy None = Inr r) \<longleftrightarrow>
      (\<exists>g. RigExecCompileOpGraph (adapter_descs steps (wk @ leaves)) (ad_leaves state) policy None = Inr g)"
    using d(1) by (auto simp: RigExecOpCompileAdapter_def split: sum.splits)
  also have "\<dots> \<longleftrightarrow> typed_keys_ok steps \<and> (policy = Reject \<longrightarrow> acyclic {(p, i). typed_depends steps p i})"
    using compiled_set_aside_iff [of "adapter_descs steps (wk @ leaves)" "ad_leaves state"]
      compiled_reject_iff [of "adapter_descs steps (wk @ leaves)" "ad_leaves state"] small(2)
    by (cases policy) (simp_all add: keys depends_typed [OF n])
  finally show ?thesis .
qed

lemma adapter_error_exact:
  assumes "RigExecOpCompileAdapter steps sampled policy None = Inl e"
    and small: "card (used_slots steps) \<le> 2 ^ 64" "length steps \<le> uint32_max"
  shows "adapter_failure steps sampled policy e"
proof (cases "adapter_descriptors steps sampled")
  case (Inl e')
  then show ?thesis using adapter_descriptors_error [OF Inl] assms(1) by (simp add: RigExecOpCompileAdapter_def)
next
  case (Inr r)
  then have ok: "steps_ok steps sampled" using adapter_descriptors_fail [of steps sampled] by auto
  have "\<not> (\<exists>r. RigExecOpCompileAdapter steps sampled policy None = Inr r)" using assms(1) by simp
  then have "\<not> typed_keys_ok steps \<or> policy = Reject \<and> \<not> acyclic {(p, i). typed_depends steps p i}"
    unfolding adapter_compiles [OF ok small] by blast
  moreover obtain g where "e = OpGraphError g"
    using assms(1) Inr by (cases r) (auto simp: RigExecOpCompileAdapter_def split: sum.splits)
  ultimately show ?thesis using ok by (simp add: adapter_failure_def)
qed

text \<open>C10. When the adapter compiles without retained exclusions. With cycles set aside it succeeds
  exactly on well-formed steps: non-empty distinct keys, no slot written by two steps, every
  semantic prerequisite the key of a step, every slot read written by some step or sampled. With
  cycles rejected it succeeds exactly when, besides, no step depends on itself through slots and
  prerequisites. Whenever it fails, the error tells which of these is broken and names the slot
  and the keys of the steps at fault, an empty or repeated key and a cycle being left to the
  compiler's own error.\<close>

theorem adapter_succeeds_iff:
  assumes "card (used_slots steps) \<le> 2 ^ 64" "length steps \<le> uint32_max"
  shows "((\<exists>r. RigExecOpCompileAdapter steps sampled SetAside None = Inr r) \<longleftrightarrow>
       typed_keys_ok steps \<and> steps_ok steps sampled) \<and>
    ((\<exists>r. RigExecOpCompileAdapter steps sampled Reject None = Inr r) \<longleftrightarrow>
       typed_keys_ok steps \<and> steps_ok steps sampled \<and> acyclic {(p, i). typed_depends steps p i}) \<and>
    (\<forall>policy e. RigExecOpCompileAdapter steps sampled policy None = Inl e \<longrightarrow> adapter_failure steps sampled policy e)"
proof (cases "steps_ok steps sampled")
  case True
  then show ?thesis using adapter_compiles [OF True assms] adapter_error_exact [OF _ assms] by simp
next
  case False
  then have "\<not> (\<exists>r. RigExecOpCompileAdapter steps sampled policy None = Inr r)" for policy
    using adapter_descriptors_fail [OF False] by (auto simp: RigExecOpCompileAdapter_def)
  then show ?thesis using False adapter_error_exact [OF _ assms] by simp
qed

text \<open>C9. The compiled graph in terms of the slots: it holds exactly the steps that are neither kept
  out nor on a cycle of slot reads and semantic prerequisites, in an order that is topological
  and takes the least key first; the predecessors of an operation are exactly the compiled
  steps that write a slot it reads or that it requires; the id of a slot is its rank by domain
  and slot among all slots used; the leaves are the slots nobody writes and those whose
  writer was set aside; and every value has exactly its readers.\<close>

theorem adapter_compiles_slots:
  assumes "RigExecOpCompileAdapter steps sampled policy retained = Inr (g, st)"
    and "card (used_slots steps) \<le> 2 ^ 64" "length steps \<le> 2 ^ 31"
  shows "least_key_order (compiled_steps steps g) \<and>
    set (compiled_steps steps g) = {a \<in> set steps. \<not> aside_key (set steps) (retained_keys retained) (ts_key a)} \<and>
    (\<forall>k < length (g_ops g). set (op_predecessors (g_ops g ! k)) =
       {j. j < length (g_ops g) \<and> step_depends (compiled_steps steps g ! j) (compiled_steps steps g ! k)}) \<and>
    (\<forall>k < length (g_ops g). op_descriptor (g_ops g ! k) = final_descriptor steps (op_originalIndex (g_ops g ! k))) \<and>
    ad_values st = map (\<lambda>s. new_value (fst s) (snd s)) (slot_list steps) \<and>
    set (ad_leaves st) = slot_rank steps ` (leaf_slots steps \<union> aside_slots steps (retained_keys retained)) \<and>
    (\<forall>v. g_readers g v = (let rs = filter (\<lambda>k. v \<in> set (desc_reads (op_descriptor (g_ops g ! k)))) [0..<length (g_ops g)]
       in if rs = [] then None else Some rs))"
  using compiled_steps_order [OF assms(1,2)] adapter_ops(4) [OF assms(1,2)] adapter_tables [OF assms] by blast

section \<open>The order of the steps\<close>

lemma used_slots_set: "used_slots steps = (\<Union>a \<in> set steps. set (range_slots (ts_writes a)) \<union> set (range_slots (ts_reads a)))"
  unfolding used_slots_def written_upto_def read_upto_def by (fastforce simp: in_set_conv_nth)

lemma leaf_slots_set:
  "leaf_slots steps = (\<Union>a \<in> set steps. set (range_slots (ts_reads a))) - (\<Union>a \<in> set steps. set (range_slots (ts_writes a)))"
  unfolding leaf_slots_def written_upto_def read_upto_def by (fastforce simp: in_set_conv_nth)

lemma aside_slots_set:
  assumes "typed_keys_ok steps" "semantic_ok steps"
  shows "aside_slots steps kept_out =
    (\<Union>a \<in> {a \<in> set steps. aside_key (set steps) kept_out (ts_key a)}. set (range_slots (ts_writes a)))"
  unfolding aside_slots_def using typed_aside_key [OF assms] by (fastforce simp: in_set_conv_nth)

definition step_descriptor :: "(typed_slot \<Rightarrow> value_id) \<Rightarrow> typed_step \<Rightarrow> op_descriptor" where
  "step_descriptor rank step = \<lparr> desc_key = ts_key step, desc_kind = ts_kind step,
     desc_reads = vec_unique (map rank (range_slots (ts_reads step))),
     desc_writes = vec_unique (map rank (range_slots (ts_writes step))),
     desc_predecessors = [], desc_volatileInput = ts_externalReads step \<rparr>"

text \<open>Two canonical lists of operations with the same descriptors and predecessor sets are the same
  up to the index an operation had before.\<close>

lemma canonical_ops_eq:
  assumes c: "canonical_ops ops" "canonical_ops ops'" and len: "length ops = length ops'"
    and d: "\<forall>k < length ops. op_descriptor (ops ! k) = op_descriptor (ops' ! k)"
    and p: "\<forall>k < length ops. set (op_predecessors (ops ! k)) = set (op_predecessors (ops' ! k))"
  shows "map (\<lambda>oper. oper\<lparr>op_originalIndex := 0\<rparr>) ops = map (\<lambda>oper. oper\<lparr>op_originalIndex := 0\<rparr>) ops'"
proof (rule nth_equalityI)
  fix k assume "k < length (map (\<lambda>oper. oper\<lparr>op_originalIndex := 0\<rparr>) ops)"
  then have k: "k < length ops" "k < length ops'" using len by simp_all
  note e = op_edges_okD [OF canonical_opsD [OF c(1) k(1)]] and e' = op_edges_okD [OF canonical_opsD [OF c(2) k(2)]]
  have preds: "op_predecessors (ops ! k) = op_predecessors (ops' ! k)"
    using sorted_distinct_set_unique e(1,2) e'(1,2) p k(1) by blast
  have "j \<in> set (op_successors (ops ! k)) \<longleftrightarrow> j \<in> set (op_successors (ops' ! k))" for j
  proof (cases "j < length ops")
    case True
    then show ?thesis
      using canonical_ops_mutual [OF c(1) k(1)] canonical_ops_mutual [OF c(2) k(2)] p len by auto
  next
    case False
    then show ?thesis using e(7) e'(7) len by auto
  qed
  then have "op_successors (ops ! k) = op_successors (ops' ! k)"
    using sorted_distinct_set_unique e(3,4) e'(3,4) by blast
  then show "map (\<lambda>oper. oper\<lparr>op_originalIndex := 0\<rparr>) ops ! k = map (\<lambda>oper. oper\<lparr>op_originalIndex := 0\<rparr>) ops' ! k"
    using k d preds by simp
qed (use len in simp)

text \<open>C11. The result is canonical: a backend that lists the same steps in another order gets the same
  operations with the same ids, edges, readers, values and leaves.\<close>

theorem adapter_order_independent:
  assumes "RigExecOpCompileAdapter steps sampled policy retained = Inr (g, st)"
    and "RigExecOpCompileAdapter steps' sampled policy retained = Inr (g', st')"
    and "mset steps' = mset steps" "card (used_slots steps) \<le> 2 ^ 64" "length steps \<le> 2 ^ 31"
  shows "map (\<lambda>oper. oper\<lparr>op_originalIndex := 0\<rparr>) (g_ops g) = map (\<lambda>oper. oper\<lparr>op_originalIndex := 0\<rparr>) (g_ops g') \<and>
    g_readers g = g_readers g' \<and> ad_values st = ad_values st' \<and> ad_leaves st = ad_leaves st' \<and>
    set (ad_excludedValues st) = set (ad_excludedValues st')"
proof -
  have same: "set steps' = set steps" "length steps' = length steps" using assms(3) by (metis set_mset_mset, metis size_mset)
  have used: "used_slots steps' = used_slots steps" by (simp add: used_slots_set same)
  then have rank: "slot_rank steps' = slot_rank steps" "slot_list steps' = slot_list steps"
    by (simp_all add: slot_rank_def slot_list_def)
  note small = assms(4,5) and small' = assms(4,5) [folded used same(2)]
  note a = adapter_ops [OF assms(1) small(1)] and a' = adapter_ops [OF assms(2) small'(1)]
  note c = compiled_steps_order [OF assms(1) small(1)] and c' = compiled_steps_order [OF assms(2) small'(1)]
  have sem: "semantic_ok steps" "semantic_ok steps'" using a(8) a'(8) by (simp_all add: steps_ok_def)
  have S: "compiled_steps steps g = compiled_steps steps' g'"
    using least_key_order_unique [OF c(1) c'(1)] c(2) c'(2) by (simp add: same)
  then have len: "length (g_ops g) = length (g_ops g')" by (metis compiled_steps_def length_map)
  have desc: "op_descriptor (g_ops g ! k) = step_descriptor (slot_rank steps) (compiled_steps steps g ! k)"
      "op_descriptor (g_ops g' ! k) = step_descriptor (slot_rank steps) (compiled_steps steps' g' ! k)"
    if "k < length (g_ops g)" for k
    using a(4) a'(4) that len by (simp_all add: final_descriptor_def step_descriptor_def compiled_steps_def rank)
  have ops: "map (\<lambda>oper. oper\<lparr>op_originalIndex := 0\<rparr>) (g_ops g) = map (\<lambda>oper. oper\<lparr>op_originalIndex := 0\<rparr>) (g_ops g')"
    using desc c(3) c'(3) S len by (intro canonical_ops_eq [OF a(1) a'(1) len]) auto
  note t = adapter_tables [OF assms(1) small] and t' = adapter_tables [OF assms(2) small']
  have "filter (\<lambda>k. v \<in> set (desc_reads (op_descriptor (g_ops g ! k)))) [0..<length (g_ops g)] =
      filter (\<lambda>k. v \<in> set (desc_reads (op_descriptor (g_ops g' ! k)))) [0..<length (g_ops g')]" for v
    unfolding len [symmetric] by (rule filter_cong [OF refl]) (use desc S in simp)
  then have "g_readers g = g_readers g'" by (intro ext) (simp add: t(5) t'(5))
  moreover have asides: "aside_slots steps' (retained_keys retained) = aside_slots steps (retained_keys retained)"
    by (simp add: aside_slots_set [OF a(7) sem(1)] aside_slots_set [OF a'(7) sem(2)] same)
  moreover have "leaf_slots steps' = leaf_slots steps" by (simp add: leaf_slots_set same)
  then have "set (ad_leaves st) = set (ad_leaves st')" by (simp add: t(3) t'(3) asides rank)
  then have "ad_leaves st = ad_leaves st'" using t(2) t'(2) vec_unique_cong by metis
  ultimately show ?thesis using ops t(1,4) t'(1,4) rank by simp
qed


section \<open>Witnesses\<close>

text \<open>Three steps: the first writes two slots from a sampled one, the second reads one of them, the
  third reads the other and requires the first by key.\<close>

definition demo_typed :: "typed_step list" where
  "demo_typed = [
     \<lparr> ts_key = ''c'', ts_kind = 0, ts_externalReads = False, ts_reads = [\<lparr>tr_domain = 1, tr_begin = 1, tr_end = 2\<rparr>,
        \<lparr>tr_domain = 2, tr_begin = 5, tr_end = 6\<rparr>], ts_writes = [], ts_semantic = [''a''] \<rparr>,
     \<lparr> ts_key = ''b'', ts_kind = 0, ts_externalReads = False, ts_reads = [\<lparr>tr_domain = 1, tr_begin = 0, tr_end = 1\<rparr>],
        ts_writes = [\<lparr>tr_domain = 2, tr_begin = 5, tr_end = 6\<rparr>], ts_semantic = [] \<rparr>,
     \<lparr> ts_key = ''a'', ts_kind = 0, ts_externalReads = True, ts_reads = [\<lparr>tr_domain = 0, tr_begin = 0, tr_end = 1\<rparr>],
        ts_writes = [\<lparr>tr_domain = 1, tr_begin = 0, tr_end = 2\<rparr>], ts_semantic = [] \<rparr>]"

definition demo_sampled :: "typed_slot \<Rightarrow> bool" where
  "demo_sampled s \<longleftrightarrow> fst s = 0"

lemma demo_typed_used: "used_slots demo_typed = {(0, 0), (1, 0), (1, 1), (2, 5)}"
  by (auto simp: used_slots_set demo_typed_def range_slots_def)

lemma demo_typed_small: "card (used_slots demo_typed) \<le> 2 ^ 64" "length demo_typed \<le> uint32_max" "length demo_typed \<le> 2 ^ 31"
  by (simp_all add: demo_typed_used) (simp_all add: demo_typed_def)

lemma demo_typed_shape: "length demo_typed = 3" "distinct (map ts_key demo_typed)"
  by (simp_all add: demo_typed_def)

lemma demo_typed_ok: "typed_keys_ok demo_typed" "steps_ok demo_typed demo_sampled"
proof -
  show "typed_keys_ok demo_typed" by (simp add: typed_keys_ok_def demo_typed_def)
  have "single_upto demo_typed (length demo_typed)"
    by (auto simp: single_upto_def demo_typed_def range_slots_def less_Suc_eq nth_Cons')
  moreover have "semantic_ok demo_typed" by (simp add: semantic_ok_def demo_typed_def)
  moreover have "leaf_slots demo_typed \<subseteq> Collect demo_sampled"
    by (auto simp: leaf_slots_set demo_typed_def range_slots_def demo_sampled_def)
  then have "reads_ok demo_typed demo_sampled" by (auto simp: reads_ok_def leaf_slots_def)
  ultimately show "steps_ok demo_typed demo_sampled" by (simp add: steps_ok_def)
qed

text \<open>The three steps compile under either policy.\<close>

lemma demo_typed_acyclic: "acyclic {(p, i). typed_depends demo_typed p i}"
proof -
  have "p > i" if "typed_depends demo_typed p i" for p i
    using that demo_typed_ok typed_depends_steps [OF demo_typed_ok(1), of p i]
    by (auto simp: typed_depends_def steps_ok_def step_depends_def demo_typed_def range_slots_def less_Suc_eq numeral_3_eq_3)
  then have "{(p, i). typed_depends demo_typed p i} \<subseteq> less_than\<inverse>" by auto
  then show ?thesis by (rule acyclic_subset [rotated]) (simp add: acyclic_converse wf_acyclic)
qed

theorem adapter_succeeds_iff_witness:
  "(\<exists>r. RigExecOpCompileAdapter demo_typed demo_sampled SetAside None = Inr r) \<and>
   (\<exists>r. RigExecOpCompileAdapter demo_typed demo_sampled Reject None = Inr r)"
  using adapter_succeeds_iff [OF demo_typed_small(1,2), of demo_sampled] demo_typed_ok demo_typed_acyclic by blast

lemma demo_adapter:
  assumes "set steps = set demo_typed" "length steps = 3" "distinct (map ts_key steps)"
  obtains g st where "RigExecOpCompileAdapter steps demo_sampled SetAside None = Inr (g, st)"
proof -
  have used: "card (used_slots steps) \<le> 2 ^ 64" using demo_typed_small(1) by (simp add: used_slots_set assms(1))
  have keys: "typed_keys_ok steps" using demo_typed_ok(1) assms(1,3) by (simp add: typed_keys_ok_def)
  have "single_upto steps (length steps)"
  proof -
    have "a = b" if "a \<in> set demo_typed" "b \<in> set demo_typed"
        "s \<in> set (range_slots (ts_writes a))" "s \<in> set (range_slots (ts_writes b))" for a b s
      using that by (auto simp: demo_typed_def range_slots_def)
    then have eq: "steps ! i = steps ! j" if "i < length steps" "j < length steps"
        "s \<in> set (written steps i)" "s \<in> set (written steps j)" for i j s
      using that assms(1) nth_mem by metis
    have "s \<notin> set (written steps j)" if "i < length steps" "j < i" "s \<in> set (written steps i)" for i j s
      using eq [of i j s] typed_keys_inj [OF keys, of i j] that by auto
    then show ?thesis unfolding single_upto_def by blast
  qed
  moreover have "semantic_ok steps" using demo_typed_ok(2) assms(1) by (simp add: steps_ok_def semantic_ok_def)
  moreover have "reads_ok steps demo_sampled"
  proof -
    have "leaf_slots steps = leaf_slots demo_typed" by (simp add: leaf_slots_set assms(1))
    then show ?thesis using demo_typed_ok(2) by (auto simp: steps_ok_def reads_ok_def leaf_slots_def)
  qed
  ultimately have ok: "steps_ok steps demo_sampled" by (simp add: steps_ok_def)
  from adapter_descriptors_spec [OF ok] obtain state wk leaves where
    d: "adapter_descriptors steps demo_sampled = Inr (state, adapter_descs steps (wk @ leaves))" "described steps wk leaves state" by blast
  have n: "numbering steps (wk @ leaves)" using described_known [OF d(2)] used by (simp add: numbering_def)
  have "descs_ok (adapter_descs steps (wk @ leaves)) (set (ad_leaves state))"
    using adapter_descs_ok [OF n ok d(2)] keys by blast
  with compile_set_aside_total [of "adapter_descs steps (wk @ leaves)" "ad_leaves state"] assms(2) obtain g0 where
    "RigExecCompileOpGraph (adapter_descs steps (wk @ leaves)) (ad_leaves state) SetAside None = Inr g0" by auto
  then show ?thesis
    using that d(1) by (cases "canonical_values g0 (adapter_descs steps (wk @ leaves)) state")
      (simp add: RigExecOpCompileAdapter_def)
qed

theorem adapter_compiles_slots_witness:
  "\<exists>g st. RigExecOpCompileAdapter demo_typed demo_sampled SetAside None = Inr (g, st) \<and>
     least_key_order (compiled_steps demo_typed g)"
proof -
  obtain g st where run: "RigExecOpCompileAdapter demo_typed demo_sampled SetAside None = Inr (g, st)"
    by (rule demo_adapter [OF refl demo_typed_shape])
  from adapter_compiles_slots [OF run demo_typed_small(1,3)] have "least_key_order (compiled_steps demo_typed g)" by (rule conjunct1)
  with run show ?thesis by (intro exI conjI)
qed

theorem adapter_order_independent_witness:
  "\<exists>g st g' st'. RigExecOpCompileAdapter demo_typed demo_sampled SetAside None = Inr (g, st) \<and>
     RigExecOpCompileAdapter (rev demo_typed) demo_sampled SetAside None = Inr (g', st') \<and> ad_values st = ad_values st'"
proof -
  obtain g st where run: "RigExecOpCompileAdapter demo_typed demo_sampled SetAside None = Inr (g, st)"
    by (rule demo_adapter [OF refl demo_typed_shape])
  obtain g' st' where run': "RigExecOpCompileAdapter (rev demo_typed) demo_sampled SetAside None = Inr (g', st')"
    by (rule demo_adapter [of "rev demo_typed"]) (simp_all add: demo_typed_shape flip: rev_map)
  have "mset (rev demo_typed) = mset demo_typed" by simp
  from adapter_order_independent [OF run run' this demo_typed_small(1,3)] have "ad_values st = ad_values st'" by blast
  with run run' show ?thesis by (intro exI conjI)
qed

end
