(* ===== verification/Op_Generations.thy ===== *)
theory Op_Generations
  imports Op_Value_Claims Op_Adapter_Claims
begin

text \<open>
  The runs of a compiled adapter: every value has one publisher, so the change flags of every
  run of a program are exact.
\<close>

lemma adapter_values_once:
  assumes run: "RigExecOpCompileAdapter steps sampled policy retained = Inr (g, st)"
    and small: "card (used_slots steps) \<le> 2 ^ 64" "length steps \<le> 2 ^ 31"
    and leaves: "distinct leaves" "set leaves \<subseteq> set (ad_leaves st)"
    and completed: "distinct completed" "set completed \<subseteq> {c. did_run g ran_flags c}"
  shows "publishes_once g leaves completed ran_flags st" "flags_known st"
proof -
  note a = adapter_ops [OF run small(1)] and t = adapter_tables [OF run small]
  let ?rank = "slot_rank steps" and ?o = "\<lambda>k. op_originalIndex (g_ops g ! k)"
  have inj: "inj_on ?rank (used_slots steps)"
    using slot_id_inj [of "slot_list steps"] small(1) by (simp add: slot_rank_def)
  have known: "in_state st (?rank s)" if "s \<in> used_slots steps" for s
  proof -
    from that obtain i where "s = slot_list steps ! i" "i < length (slot_list steps)"
      using slot_list_facts(2) [of steps] by (metis in_set_conv_nth)
    with slot_id_unat [of "slot_list steps" i] small(1) show ?thesis by (simp add: in_state_def t(1) slot_rank_def)
  qed
  have orig: "?o k < length steps" "\<not> typed_aside steps (retained_keys retained) (?o k)" if "k < length (g_ops g)" for k
    using a(3) nth_mem [of k "map op_originalIndex (g_ops g)"] that by auto
  have w: "set (op_publishes g k) = ?rank ` set (written steps (?o k))" "distinct (op_publishes g k)" if "k < length (g_ops g)" for k
    using a(4) that by (simp_all add: op_publishes_def final_descriptor_def)
  have did: "c < length (g_ops g)" if "did_run g ran_flags c" for c using that by (simp add: did_run_def)
  have single: "set (written steps i) \<inter> set (written steps j) = {}" if "i < length steps" "j < length steps" "i \<noteq> j" for i j
    using a(8) that unfolding steps_ok_def single_upto_def by (metis Int_commute linorder_neqE_nat)
  have apart: "?rank ` S \<inter> ?rank ` T = {}" if "S \<inter> T = {}" "S \<subseteq> used_slots steps" "T \<subseteq> used_slots steps" for S T
    using that inj_on_image_Int [OF inj that(2,3)] by simp
  have writes: "set (op_publishes g c) \<inter> set (op_publishes g d) = {}" if "c < length (g_ops g)" "d < length (g_ops g)" "c \<noteq> d" for c d
  proof -
    have "?o c \<noteq> ?o d" using a(2) that nth_eq_iff_index_eq [OF a(2), of c d] by simp
    then show ?thesis using w(1) that single orig(1) apart steps_used(1) by simp
  qed
  have leaf_used: "leaf_slots steps \<union> aside_slots steps (retained_keys retained) \<subseteq> used_slots steps"
    using steps_used(1) by (auto simp: leaf_slots_def aside_slots_def used_slots_def written_upto_def)
  have leaf: "set (ad_leaves st) \<inter> set (op_publishes g c) = {}" if c: "c < length (g_ops g)" for c
  proof -
    let ?L = "leaf_slots steps \<union> aside_slots steps (retained_keys retained)"
    have "?L \<inter> set (written steps (?o c)) = {}"
      using single orig [OF c] by (fastforce simp: leaf_slots_def aside_slots_def written_upto_def)
    moreover note leaf_used
    ultimately show ?thesis using w(1) [OF c] t(3) apart steps_used(1) [OF orig(1) [OF c]] by simp
  qed
  have "distinct (concat (map (op_publishes g) completed))"
    using completed did
  proof (induction completed)
    case (Cons c cs)
    have c: "c < length (g_ops g)" and cs: "\<forall>d \<in> set cs. d < length (g_ops g) \<and> d \<noteq> c" using Cons.prems by auto
    then have "set (op_publishes g c) \<inter> set (concat (map (op_publishes g) cs)) = {}" using writes by fastforce
    then show ?case using Cons w(2) [OF c] by simp
  qed simp
  moreover have "set leaves \<inter> set (concat (map (op_publishes g) completed)) = {}"
    using leaves(2) completed(2) did leaf by fastforce
  moreover have "\<forall>v \<in> set leaves. in_state st v"
    using leaves(2) known leaf_used unfolding t(3) by blast
  moreover have "\<forall>v \<in> set (op_publishes g c). in_state st v" if "did_run g ran_flags c" for c
    using w(1) [OF did [OF that]] known steps_used(1) [OF orig(1) [OF did [OF that]]] by auto
  ultimately show "publishes_once g leaves completed ran_flags st"
    using leaves(1) completed(2) by (simp add: publishes_once_def)
  show "flags_known st"
    by (auto simp: flags_known_def t(8) flag_at_def in_state_def value_at_def t(1) new_value_def)
qed

section \<open>Runs of a compiled adapter\<close>

text \<open>What a run brings: its samplers, the leaves it keys, the operations whose bodies completed in
  their order, the flags of those that ran, and the candidates it gathers from.\<close>

record adapter_run =
  ar_leafSample :: sampler
  ar_opSample :: "nat \<Rightarrow> sampler"
  ar_leaves :: "value_id list"
  ar_completed :: "nat list"
  ar_ran :: "bool list"
  ar_candidates :: "nat list option"

definition adapter_run_ok :: "compiled_graph \<Rightarrow> value_id list \<Rightarrow> adapter_run \<Rightarrow> bool" where
  "adapter_run_ok g leaves r \<longleftrightarrow> distinct (ar_leaves r) \<and> set (ar_leaves r) \<subseteq> set leaves \<and>
     distinct (ar_completed r) \<and> set (ar_completed r) \<subseteq> {c. did_run g (ar_ran r) c} \<and>
     (case ar_candidates r of None \<Rightarrow> True | Some cs \<Rightarrow> sorted cs \<and> distinct cs \<and> {c. did_run g (ar_ran r) c} \<subseteq> set cs)"

definition run_once :: "compiled_graph \<Rightarrow> adapter_state \<Rightarrow> adapter_run \<Rightarrow> adapter_state" where
  "run_once g st r = run_values g (ar_leafSample r) (ar_opSample r) (ar_leaves r) (ar_completed r) (ar_ran r) (ar_candidates r) st"

definition published_by :: "compiled_graph \<Rightarrow> adapter_run \<Rightarrow> value_id set" where
  "published_by g r = set (ar_leaves r @ concat (map (op_publishes g) (ar_completed r)))"

lemma adapter_runs_known:
  assumes run: "RigExecOpCompileAdapter steps sampled policy retained = Inr (g, st)"
    and small: "card (used_slots steps) \<le> 2 ^ 64" "length steps \<le> 2 ^ 31"
    and ok: "\<forall>r \<in> set runs. adapter_run_ok g (ad_leaves st) r"
  shows "flags_known (foldl (run_once g) st runs) \<and> (\<forall>v. in_state (foldl (run_once g) st runs) v = in_state st v)"
  using ok
proof (induction runs rule: rev_induct)
  case Nil
  show ?case using adapter_values_once(2) [OF run small, of "[]" "[]" "[]"] by simp
next
  case (snoc r runs)
  let ?st = "foldl (run_once g) st runs"
  have r: "adapter_run_ok g (ad_leaves st) r" and IH: "flags_known ?st" "\<forall>v. in_state ?st v = in_state st v"
    using snoc by simp_all
  then have "publishes_once g (ar_leaves r) (ar_completed r) (ar_ran r) st"
    by (intro adapter_values_once(1) [OF run small]) (simp_all add: adapter_run_ok_def)
  then have "publishes_once g (ar_leaves r) (ar_completed r) (ar_ran r) ?st" using IH(2) by (simp add: publishes_once_def)
  from run_changes [OF IH(1) this _ run_once_def] r have "flags_known (run_once g ?st r) \<and> (\<forall>v. in_state (run_once g ?st r) v = in_state ?st v)"
    unfolding adapter_run_ok_def by blast
  then show ?case using IH(2) by simp
qed

text \<open>C17. The change flags of a program's runs are exact. On a compiled adapter, after any runs (each
  with its own samplers, any subset of the leaves keyed, the bodies that completed in any order, some of
  those that ran failing, the gathering over every operation or over its candidates only), a
  further run leaves set exactly the flags it gathered for the next run to clear; a value's flag
  is set exactly if the run published it and it was new or its key is another than before;
  the revision counts exactly the set flags; and a value not published keeps its key.\<close>
theorem adapter_changes_exact:
  assumes "RigExecOpCompileAdapter steps sampled policy retained = Inr (g, st)"
    and "card (used_slots steps) \<le> 2 ^ 64" "length steps \<le> 2 ^ 31"
    and "\<forall>r \<in> set (runs @ [r]). adapter_run_ok g (ad_leaves st) r"
    and "st1 = foldl (run_once g) st runs" "st2 = run_once g st1 r"
  shows "flags_known st2 \<and>
     (\<forall>v. in_state st v \<longrightarrow>
        (flag_at st2 v \<longleftrightarrow> v \<in> published_by g r \<and> (\<not> ov_initialized (value_at st1 v) \<or> ov_key (value_at st2 v) \<noteq> ov_key (value_at st1 v))) \<and>
        ov_revision (value_at st2 v) = ov_revision (value_at st1 v) + of_bool (flag_at st2 v) \<and>
        (v \<notin> published_by g r \<longrightarrow> ov_key (value_at st2 v) = ov_key (value_at st1 v)))"
proof -
  have r: "adapter_run_ok g (ad_leaves st) r" and runs: "\<forall>r \<in> set runs. adapter_run_ok g (ad_leaves st) r"
    using assms(4) by simp_all
  note known = adapter_runs_known [OF assms(1-3) runs, folded assms(5)]
  have "publishes_once g (ar_leaves r) (ar_completed r) (ar_ran r) st"
    using r by (intro adapter_values_once(1) [OF assms(1-3)]) (simp_all add: adapter_run_ok_def)
  then have "publishes_once g (ar_leaves r) (ar_completed r) (ar_ran r) st1" using known by (simp add: publishes_once_def)
  from run_changes [OF conjunct1 [OF known] this _ assms(6) [unfolded run_once_def]] r known show ?thesis
    by (simp add: adapter_run_ok_def published_by_def)
qed

text \<open>Two runs of the three steps of \<open>demo_typed\<close>, every leaf keyed and every operation run.\<close>

definition demo_run :: "compiled_graph \<Rightarrow> adapter_state \<Rightarrow> byte list \<Rightarrow> adapter_run" where
  "demo_run g st bytes = \<lparr> ar_leafSample = \<lambda>_ _ _ _. bytes, ar_opSample = \<lambda>_ _ _ _ _. bytes, ar_leaves = ad_leaves st,
     ar_completed = [0..<length (g_ops g)], ar_ran = replicate (length (g_ops g)) True, ar_candidates = None \<rparr>"

theorem adapter_changes_exact_witness:
  "\<exists>g st. RigExecOpCompileAdapter demo_typed demo_sampled SetAside None = Inr (g, st) \<and>
     flags_known (run_once g (run_once g st (demo_run g st [1])) (demo_run g st [2]))"
proof -
  obtain g st where run: "RigExecOpCompileAdapter demo_typed demo_sampled SetAside None = Inr (g, st)"
    by (rule demo_adapter [OF refl demo_typed_shape])
  have "ad_leaves st = vec_unique (ad_leaves st)" by (rule adapter_tables(2) [OF run demo_typed_small(1,3)])
  then have "distinct (ad_leaves st)" using distinct_vec_unique by metis
  then have "adapter_run_ok g (ad_leaves st) (demo_run g st bytes)" for bytes
    by (auto simp: adapter_run_ok_def demo_run_def did_run_def)
  then have "\<forall>r \<in> set ([demo_run g st [1]] @ [demo_run g st [2]]). adapter_run_ok g (ad_leaves st) r" by simp
  from adapter_changes_exact [OF run demo_typed_small(1,3) this refl refl]
  have "flags_known (run_once g (foldl (run_once g) st [demo_run g st [1]]) (demo_run g st [2]))" by (rule conjunct1)
  with run show ?thesis by (intro exI conjI) simp_all
qed

end
