(* ===== verification/Cluster_Set.thy ===== *)
theory Cluster_Set
  imports Rig_Prelude
begin

unbundle bit_operations_syntax

text \<open>
  The bitset over clusters of \<open>bakedClusters.h\<close> and the intersection of
  \<open>outputAffectedIndex.cpp\<close>: a list of 64-bit words. A cluster id is an \<open>int\<close>, negative where
  there is none. The locale \<open>cluster_sets\<close> states what the index and the memo rely on; its
  interpretation on the words is at the end.
\<close>

section \<open>The operations\<close>

type_synonym cluster_set = "64 word list"

text \<open>The population count of a word, as the compiler's intrinsic answers it.\<close>

definition Popcount64 :: "64 word \<Rightarrow> nat" where
  "Popcount64 word = length (filter (\<lambda>b. bit word b) [0..<64])"

definition set_words :: "nat \<Rightarrow> nat" where
  "set_words clusters = (clusters + 63) div 64"

definition Resize :: "nat \<Rightarrow> cluster_set" where
  "Resize clusters = replicate (set_words clusters) 0"

definition Clear_set :: "cluster_set \<Rightarrow> cluster_set" where
  "Clear_set s = map (\<lambda>word. 0) s"

text \<open>\<open>Test\<close> and \<open>Set\<close> index the vector of words unchecked; a caller stays inside the width. The
  model reads absent words as zero and leaves them alone.\<close>

definition Test :: "cluster_set \<Rightarrow> int \<Rightarrow> bool" where
  "Test s cluster \<longleftrightarrow> 0 \<le> cluster \<and> nat cluster div 64 < length s \<and>
     drop_bit (nat cluster mod 64) (s ! (nat cluster div 64)) AND 1 \<noteq> 0"

definition Set_bit :: "int \<Rightarrow> cluster_set \<Rightarrow> cluster_set" where
  "Set_bit cluster s =
     (if 0 \<le> cluster
      then s[nat cluster div 64 := s ! (nat cluster div 64) OR push_bit (nat cluster mod 64) 1] else s)"

definition SetAll :: "nat \<Rightarrow> cluster_set" where
  "SetAll clusters = foldl (\<lambda>s c. Set_bit (int c) s) (Resize clusters) [0..<clusters]"

definition word_at :: "cluster_set \<Rightarrow> nat \<Rightarrow> 64 word" where
  "word_at s w = (if w < length s then s ! w else 0)"

text \<open>The loop over the widened words, with the flag \<open>grew\<close>.\<close>

definition union_word :: "cluster_set \<Rightarrow> bool \<times> cluster_set \<Rightarrow> nat \<Rightarrow> bool \<times> cluster_set" where
  "union_word other = (\<lambda>(grew, words) w.
     let before = words ! w; after = before OR word_at other w in
     (grew \<or> after \<noteq> before, words[w := after]))"

definition Union_set :: "cluster_set \<Rightarrow> cluster_set \<Rightarrow> bool \<times> cluster_set" where
  "Union_set s other =
     (let words = (if length s < length other then s @ replicate (length other - length s) 0 else s)
      in foldl (union_word other) (False, words) [0..<length words])"

definition Any :: "cluster_set \<Rightarrow> bool" where
  "Any s \<longleftrightarrow> (\<exists>word \<in> set s. word \<noteq> 0)"

definition Count :: "cluster_set \<Rightarrow> nat" where
  "Count s = sum_list (map Popcount64 s)"

definition RigExecIntersectClusterSets :: "cluster_set \<Rightarrow> cluster_set \<Rightarrow> cluster_set" where
  "RigExecIntersectClusterSets dirty affecting =
     map (\<lambda>w. word_at dirty w AND word_at affecting w) [0..<max (length dirty) (length affecting)]"

section \<open>The set a list of words stands for\<close>

definition bits_of :: "cluster_set \<Rightarrow> nat set" where
  "bits_of s = {c. bit (word_at s (c div 64)) (c mod 64)}"

lemma bits_of_iff: "c \<in> bits_of s \<longleftrightarrow> c div 64 < length s \<and> bit (s ! (c div 64)) (c mod 64)"
  by (simp add: bits_of_def word_at_def)

lemma bits_of_bound: "c \<in> bits_of s \<Longrightarrow> c < 64 * length s"
  by (simp add: bits_of_iff div_less_iff_less_mult mult.commute)

lemma finite_bits_of [simp]: "finite (bits_of s)"
  using bits_of_bound by (metis finite_nat_set_iff_bounded)

lemma Test_bits: "Test s c \<longleftrightarrow> 0 \<le> c \<and> nat c \<in> bits_of s"
  by (auto simp: Test_def bits_of_iff bit_iff_odd_drop_bit and_one_eq even_iff_mod_2_eq_zero odd_iff_mod_2_eq_one)

lemma length_Resize [simp]: "length (Resize n) = set_words n"
  by (simp add: Resize_def)

lemma bits_of_Resize [simp]: "bits_of (Resize n) = {}"
  by (auto simp: bits_of_iff Resize_def)

lemma bits_of_zeros [simp]: "bits_of (s @ replicate n 0) = bits_of s"
proof -
  have "word_at (s @ replicate n 0) w = word_at s w" for w by (auto simp: word_at_def nth_append)
  then show ?thesis by (simp add: bits_of_def)
qed

lemma bits_of_Clear [simp]: "bits_of (Clear_set s) = {}"
  by (auto simp: bits_of_iff Clear_set_def)

lemma length_Set_bit [simp]: "length (Set_bit c s) = length s"
  by (simp add: Set_bit_def)

lemma bits_of_Set_bit:
  assumes "nat c < 64 * length s"
  shows "bits_of (Set_bit c s) = (if 0 \<le> c then insert (nat c) (bits_of s) else bits_of s)"
proof (cases "0 \<le> c")
  case True
  define k where "k = nat c"
  have in_width: "k div 64 < length s" using assms by (simp add: k_def div_less_iff_less_mult mult.commute)
  have "d \<in> bits_of (s[k div 64 := s ! (k div 64) OR push_bit (k mod 64) 1]) \<longleftrightarrow> d = k \<or> d \<in> bits_of s" for d
  proof (cases "d div 64 = k div 64")
    case True
    then have "d = k \<longleftrightarrow> d mod 64 = k mod 64" by (metis div_mod_decomp)
    then show ?thesis using in_width True by (auto simp: bits_of_iff bit_or_iff bit_exp_iff)
  next
    case False
    then show ?thesis using in_width by (auto simp: bits_of_iff)
  qed
  then show ?thesis using True by (auto simp: Set_bit_def k_def)
qed (simp add: Set_bit_def)

lemma set_words_bound: "c < n \<Longrightarrow> c < 64 * set_words n"
  unfolding set_words_def by linarith

lemma SetAll_spec: "bits_of (SetAll n) = {..<n} \<and> length (SetAll n) = set_words n"
proof -
  let ?I = "\<lambda>ys s. bits_of s = set ys \<and> length s = set_words n"
  have "?I [0..<n] (foldl (\<lambda>s c. Set_bit (int c) s) (Resize n) [0..<n])"
  proof (rule foldl_invariant [where I = ?I])
    fix ys c zs s assume split: "[0..<n] = ys @ c # zs" and I: "?I ys s"
    have "c < n" using upt_prefix [OF split] by simp
    then show "?I (ys @ [c]) (Set_bit (int c) s)"
      using I set_words_bound [of c n] by (simp add: bits_of_Set_bit)
  qed simp
  then show ?thesis by (simp add: SetAll_def atLeast0LessThan)
qed

lemma bits_of_SetAll [simp]: "bits_of (SetAll n) = {..<n}" and length_SetAll [simp]: "length (SetAll n) = set_words n"
  using SetAll_spec [of n] by simp_all

lemma union_words:
  assumes "length other \<le> length words"
    and "foldl (union_word other) (False, words) [0..<length words] = (grew, words')"
  shows "length words' = length words \<and> (\<forall>w < length words. words' ! w = words ! w OR word_at other w) \<and>
    (grew \<longleftrightarrow> (\<exists>w < length words. words ! w OR word_at other w \<noteq> words ! w))"
proof -
  let ?I = "\<lambda>ys (g, ws). length ws = length words \<and>
      (\<forall>w < length words. ws ! w = (if w \<in> set ys then words ! w OR word_at other w else words ! w)) \<and>
      (g \<longleftrightarrow> (\<exists>w \<in> set ys. words ! w OR word_at other w \<noteq> words ! w))"
  have "?I [0..<length words] (foldl (union_word other) (False, words) [0..<length words])"
  proof (rule foldl_invariant [where I = ?I])
    fix ys w zs a assume split: "[0..<length words] = ys @ w # zs" and I: "?I ys a"
    have w: "w < length words" "w \<notin> set ys" using upt_prefix [OF split] by auto
    then show "?I (ys @ [w]) (union_word other a w)"
      using I by (cases a) (auto simp: union_word_def Let_def nth_list_update)
  qed simp
  then show ?thesis using assms(2) by auto
qed

lemma Union_spec:
  assumes "Union_set s other = (grew, s')"
  shows "bits_of s' = bits_of s \<union> bits_of other" "length s' = max (length s) (length other)"
    "grew \<longleftrightarrow> \<not> bits_of other \<subseteq> bits_of s"
proof -
  define words where "words = (if length s < length other then s @ replicate (length other - length s) 0 else s)"
  have len: "length words = max (length s) (length other)" "length other \<le> length words" by (simp_all add: words_def)
  have "foldl (union_word other) (False, words) [0..<length words] = (grew, s')"
    using assms by (simp add: Union_set_def words_def Let_def)
  note U = union_words [OF len(2) this]
  have same: "bits_of words = bits_of s" by (simp add: words_def)
  have other_bit: "c \<in> bits_of other \<longleftrightarrow> c div 64 < length words \<and> bit (word_at other (c div 64)) (c mod 64)" for c
    using len(2) by (auto simp: bits_of_def word_at_def)
  have "c \<in> bits_of s' \<longleftrightarrow> c \<in> bits_of words \<or> c \<in> bits_of other" for c
    using U unfolding other_bit by (auto simp: bits_of_iff bit_or_iff)
  then show "bits_of s' = bits_of s \<union> bits_of other" using same by blast
  show "length s' = max (length s) (length other)" using U len(1) by simp
  have "(\<exists>w < length words. words ! w OR word_at other w \<noteq> words ! w) \<longleftrightarrow> (\<exists>c. c \<in> bits_of other \<and> c \<notin> bits_of words)"
  proof
    assume "\<exists>w < length words. words ! w OR word_at other w \<noteq> words ! w"
    then obtain w b where w: "w < length words" "bit (words ! w OR word_at other w) b \<noteq> bit (words ! w) b"
      by (metis bit_eqI)
    then have b: "bit (word_at other w) b" "\<not> bit (words ! w) b" by (auto simp: bit_or_iff)
    have "b < 64" using bit_imp_le_length [OF b(1)] by simp
    then have "(64 * w + b) div 64 = w" "(64 * w + b) mod 64 = b" by simp_all
    then have "64 * w + b \<in> bits_of other \<and> 64 * w + b \<notin> bits_of words"
      using b w(1) unfolding other_bit by (simp add: bits_of_iff)
    then show "\<exists>c. c \<in> bits_of other \<and> c \<notin> bits_of words" by blast
  next
    assume "\<exists>c. c \<in> bits_of other \<and> c \<notin> bits_of words"
    then obtain c where "c \<in> bits_of other" and out: "c \<notin> bits_of words" by blast
    then have c: "c div 64 < length words" "bit (word_at other (c div 64)) (c mod 64)" by (simp_all add: other_bit)
    then have "\<not> bit (words ! (c div 64)) (c mod 64)" using out by (simp add: bits_of_iff)
    note c = c this
    then have "words ! (c div 64) OR word_at other (c div 64) \<noteq> words ! (c div 64)" by (metis bit_or_iff)
    then show "\<exists>w < length words. words ! w OR word_at other w \<noteq> words ! w" using c(1) by blast
  qed
  then show "grew \<longleftrightarrow> \<not> bits_of other \<subseteq> bits_of s" using U same by blast
qed

lemma Any_bits: "Any s \<longleftrightarrow> bits_of s \<noteq> {}"
proof
  assume "Any s"
  then obtain w where w: "w < length s" "s ! w \<noteq> 0" by (auto simp: Any_def in_set_conv_nth)
  then obtain b where b: "bit (s ! w) b" by (metis bit_0_eq bit_eqI bot_apply bot_bool_def)
  have "b < 64" using bit_imp_le_length [OF b] by simp
  then have "64 * w + b \<in> bits_of s" using b w(1) by (simp add: bits_of_iff)
  then show "bits_of s \<noteq> {}" by blast
next
  assume "bits_of s \<noteq> {}"
  then obtain c where "c div 64 < length s" "bit (s ! (c div 64)) (c mod 64)" by (auto simp: bits_of_iff)
  then show "Any s" unfolding Any_def by (metis bit_0_eq bot_apply bot_bool_def nth_mem)
qed

lemma Popcount64_card: "Popcount64 w = card {b. bit w b}"
proof -
  have "set (filter (\<lambda>b. bit w b) [0..<64]) = {b. bit w b}" using bit_imp_le_length [of w] by auto
  then show ?thesis unfolding Popcount64_def using distinct_card [of "filter (\<lambda>b. bit w b) [0..<64]"] by simp
qed

lemma Count_bits: "Count s = card (bits_of s)"
proof (induction s)
  case (Cons w s)
  have split: "bits_of (w # s) = {b. bit w b} \<union> (\<lambda>c. c + 64) ` bits_of s"
  proof (intro set_eqI iffI)
    fix c assume c: "c \<in> bits_of (w # s)"
    show "c \<in> {b. bit w b} \<union> (\<lambda>c. c + 64) ` bits_of s"
    proof (cases "c < 64")
      case True
      then show ?thesis using c by (simp add: bits_of_iff)
    next
      case False
      then obtain d where d: "c = d + 64" by (metis add.commute le_Suc_ex not_less)
      then have "c div 64 = Suc (d div 64)" "c mod 64 = d mod 64" by simp_all
      then have "d \<in> bits_of s" using c by (simp add: bits_of_iff)
      then show ?thesis using d by blast
    qed
  next
    fix c assume "c \<in> {b. bit w b} \<union> (\<lambda>c. c + 64) ` bits_of s"
    then consider "bit w c" | d where "d \<in> bits_of s" "c = d + 64" by blast
    then show "c \<in> bits_of (w # s)"
    proof cases
      case 1
      then have "c < 64" using bit_imp_le_length [OF 1] by simp
      then show ?thesis using 1 by (simp add: bits_of_iff)
    next
      case 2
      then have "c div 64 = Suc (d div 64)" "c mod 64 = d mod 64" by simp_all
      then show ?thesis using 2(1) by (simp add: bits_of_iff)
    qed
  qed
  have "{b. bit w b} \<inter> (\<lambda>c. c + 64) ` bits_of s = {}" using bit_imp_le_length [of w] by fastforce
  moreover have "finite {b. bit w b}" by (metis bits_of_bound finite_Un finite_bits_of split)
  ultimately have "card (bits_of (w # s)) = card {b. bit w b} + card ((\<lambda>c. c + 64) ` bits_of s)"
    unfolding split by (simp add: card_Un_disjoint)
  moreover have "card ((\<lambda>c. c + 64) ` bits_of s) = card (bits_of s)" by (simp add: card_image)
  ultimately show ?case using Cons by (simp add: Count_def Popcount64_card)
qed (simp add: Count_def bits_of_def word_at_def)

lemma bits_of_intersect: "bits_of (RigExecIntersectClusterSets s t) = bits_of s \<inter> bits_of t"
proof (intro set_eqI)
  fix c
  have "word_at (RigExecIntersectClusterSets s t) (c div 64) = word_at s (c div 64) AND word_at t (c div 64)"
    by (auto simp: word_at_def RigExecIntersectClusterSets_def)
  then show "c \<in> bits_of (RigExecIntersectClusterSets s t) \<longleftrightarrow> c \<in> bits_of s \<inter> bits_of t"
    by (simp add: bits_of_def bit_and_iff)
qed

section \<open>The interface\<close>

text \<open>What a client relies on: sets with an empty one, all of the first \<open>n\<close>, a union that says
  whether it added anything, and the emptiness test.\<close>

locale cluster_sets =
  fixes elems :: "'s \<Rightarrow> nat set"
    and none :: "nat \<Rightarrow> 's"
    and full :: "nat \<Rightarrow> 's"
    and join :: "'s \<Rightarrow> 's \<Rightarrow> bool \<times> 's"
    and some :: "'s \<Rightarrow> bool"
  assumes elems_none: "elems (none n) = {}"
    and elems_full: "elems (full n) = {..<n}"
    and elems_join: "elems (snd (join s t)) = elems s \<union> elems t"
    and join_grew: "fst (join s t) \<longleftrightarrow> \<not> elems t \<subseteq> elems s"
    and some_iff: "some s \<longleftrightarrow> elems s \<noteq> {}"
begin

lemma join_fold: "elems (foldl (\<lambda>out x. snd (join out (f x))) s xs) = elems s \<union> (\<Union>x \<in> set xs. elems (f x))"
  by (induction xs arbitrary: s) (auto simp: elems_join)

lemma join_fold_if:
  "elems (foldl (\<lambda>out x. if P x then snd (join out (f x)) else out) s xs) =
     elems s \<union> (\<Union>x \<in> {x \<in> set xs. P x}. elems (f x))"
  by (induction xs arbitrary: s) (auto simp: elems_join)

lemma join_stable: "\<not> fst (join s t) \<longleftrightarrow> elems (snd (join s t)) = elems s"
  by (auto simp: elems_join join_grew)

lemma some_full: "some (full n) \<longleftrightarrow> 0 < n"
  by (simp add: some_iff elems_full lessThan_empty_iff)

end

interpretation bitsets: cluster_sets bits_of Resize SetAll Union_set Any
  by unfold_locales (auto simp: Any_bits Union_spec [OF prod.collapse [symmetric]])

end
