(* ===== verification/Frame_Digest.thy ===== *)
theory Frame_Digest
  imports Usd_Values
begin

text \<open>
  The control half of a frame's cache key (\<open>frameCache.cpp\<close>, structs of \<open>frozenContext.h\<close>,
  \<open>tapSet.h\<close>, \<open>bakedProgram.h\<close>): the mixing of words, the folds of values, seeds, transports,
  upstream values and overrides, and the control-state digest by its three routes (plain,
  recorded order, burst cache). Storage is read little-endian, as on the hosts of the program.

  What the scene description library answers is a parameter: the text of a path and the name of
  a held type. The parameter \<open>same_overrides\<close> of the burst route is the equality of override
  lists, which rests on that library's equality of values. Of the sampled inputs of a frame the
  record keeps the fields the digests read.
\<close>

record 'p usd_names =
  nm_path :: "'p \<Rightarrow> string"
  nm_type :: "held_type \<Rightarrow> string"
  nm_empty :: string

text \<open>\<open>GetTypeName\<close> of a value, which may be empty.\<close>

definition type_name :: "'p usd_names \<Rightarrow> vt_value \<Rightarrow> string" where
  "type_name u value = (case value of None \<Rightarrow> nm_empty u | Some v \<Rightarrow> nm_type u (hv_type v))"

section \<open>Mixing\<close>

definition finalize_word :: "64 word \<Rightarrow> 64 word" where
  "finalize_word w0 =
     (let w1 = w0 + 0x9E3779B97F4A7C15;
          w2 = xor w1 (drop_bit 30 w1) * 0xBF58476D1CE4E5B9;
          w3 = xor w2 (drop_bit 27 w2) * 0x94D049BB133111EB
      in xor w3 (drop_bit 31 w3))"

definition MixWord :: "64 word \<Rightarrow> 64 word \<Rightarrow> 64 word" where
  "MixWord hash word = xor hash (finalize_word word) * 1099511628211"

fun le_word :: "byte list \<Rightarrow> 64 word" where
  "le_word [] = 0"
| "le_word (b # bs) = ucast b + 256 * le_word bs"

function FoldBytes :: "64 word \<Rightarrow> byte list \<Rightarrow> 64 word" where
  "FoldBytes hash bytes =
     (if 8 \<le> length bytes then FoldBytes (MixWord hash (le_word (take 8 bytes))) (drop 8 bytes)
      else if 0 < length bytes then MixWord hash (le_word bytes + of_nat (length bytes))
      else hash)"
  by pat_completeness auto
termination
  by (relation "measure (\<lambda>(hash, bytes). length bytes)") auto

declare FoldBytes.simps [simp del]

definition FoldU64 :: "64 word \<Rightarrow> 64 word \<Rightarrow> 64 word" where
  "FoldU64 hash value = MixWord hash value"

definition FoldString :: "64 word \<Rightarrow> string \<Rightarrow> 64 word" where
  "FoldString hash s = FoldBytes hash (text_bytes s)"

text \<open>A literal tag ended by the unit separator, and the separator alone.\<close>

definition FoldTag :: "64 word \<Rightarrow> string \<Rightarrow> 64 word" where
  "FoldTag hash s = FoldBytes hash (text_bytes s @ [0x1F])"

definition FoldDouble :: "64 word \<Rightarrow> double_bits \<Rightarrow> 64 word" where
  "FoldDouble hash d = FoldBytes hash (storage 8 d)"

definition FoldFlag :: "64 word \<Rightarrow> byte \<Rightarrow> 64 word" where
  "FoldFlag hash b = FoldBytes hash [b]"

definition digest_seed :: "64 word" where
  "digest_seed = 1469598103934665603"

section \<open>Values\<close>

datatype value_fold = FoldExact | FoldGeneric | FoldUnhashable

text \<open>The element types whose storage folds as it is; those of them an array may hold; the
  quaternions and the size of their scalar.\<close>

definition plain_floats :: "gf_type list" where
  "plain_floats = [T_float, T_double, T_half, T_vec2f, T_vec3f, T_vec4f, T_vec2d, T_vec3d, T_vec4d,
     T_vec2h, T_vec3h, T_vec4h, T_matrix2f, T_matrix2d, T_matrix3f, T_matrix3d, T_matrix4f, T_matrix4d]"

definition plain_float_arrays :: "gf_type list" where
  "plain_float_arrays = [T_float, T_double, T_half, T_vec2f, T_vec3f, T_vec4f, T_vec2d, T_vec3d, T_vec4d,
     T_vec2h, T_vec3h, T_vec4h, T_matrix4f, T_matrix4d]"

definition quat_scalar :: "gf_type \<Rightarrow> nat option" where
  "quat_scalar t = (case t of T_quatf \<Rightarrow> Some 4 | T_quatd \<Rightarrow> Some 8 | T_quath \<Rightarrow> Some 2 | _ \<Rightarrow> None)"

definition HoldsDirectFloat :: "vt_value \<Rightarrow> bool" where
  "HoldsDirectFloat value = (case value of None \<Rightarrow> False
     | Some v \<Rightarrow> (case hv_type v of
         Single t \<Rightarrow> t \<in> set plain_floats \<or> quat_scalar t \<noteq> None \<or> t = T_rotation
       | ArrayOf t \<Rightarrow> t \<in> set plain_float_arrays \<or> quat_scalar t \<noteq> None))"

definition CanHash :: "vt_value \<Rightarrow> bool" where
  "CanHash value = (case value of None \<Rightarrow> True | Some v \<Rightarrow> hv_hash v \<noteq> None)"

definition ClassifyVtValue :: "vt_value \<Rightarrow> value_fold" where
  "ClassifyVtValue value =
     (if value = None \<or> HoldsDirectFloat value then FoldExact
      else if CanHash value then FoldGeneric else FoldUnhashable)"

definition FoldArray :: "64 word \<Rightarrow> byte list list \<Rightarrow> 64 word" where
  "FoldArray hash elements =
     (let hash1 = FoldU64 hash (of_nat (length elements))
      in if elements \<noteq> [] then FoldBytes hash1 (concat elements) else hash1)"

text \<open>A quaternion: the real part, then the imaginary one.\<close>

definition FoldQuat :: "nat \<Rightarrow> 64 word \<Rightarrow> byte list \<Rightarrow> 64 word" where
  "FoldQuat n hash e = FoldBytes (FoldBytes hash (take n e)) (drop n e)"

definition FoldHashed :: "64 word \<Rightarrow> held_value \<Rightarrow> 64 word" where
  "FoldHashed hash v = (case hv_hash v of
       Some h \<Rightarrow> FoldU64 hash h | None \<Rightarrow> FoldString hash ''unhashable'')"

definition FoldVtValueAfterName :: "64 word \<Rightarrow> held_value \<Rightarrow> 64 word" where
  "FoldVtValueAfterName hash v = (case hv_type v of
       Single t \<Rightarrow>
         if t \<in> set plain_floats then FoldBytes hash (concat (hv_elements v))
         else (case quat_scalar t of
             Some n \<Rightarrow> FoldQuat n hash (concat (hv_elements v))
           | None \<Rightarrow>
               if t = T_rotation
               then FoldBytes (FoldBytes hash (take 24 (concat (hv_elements v)))) (drop 24 (concat (hv_elements v)))
               else FoldHashed hash v)
     | ArrayOf t \<Rightarrow>
         if t \<in> set plain_float_arrays then FoldArray hash (hv_elements v)
         else (case quat_scalar t of
             Some n \<Rightarrow> foldl (FoldQuat n) (FoldU64 hash (of_nat (length (hv_elements v)))) (hv_elements v)
           | None \<Rightarrow> FoldHashed hash v))"

definition FoldVtValue :: "'p usd_names \<Rightarrow> 64 word \<Rightarrow> vt_value \<Rightarrow> 64 word" where
  "FoldVtValue u hash value = (case value of
       None \<Rightarrow> FoldString hash ''empty''
     | Some v \<Rightarrow> FoldVtValueAfterName (FoldTag (FoldString hash (nm_type u (hv_type v))) '''') v)"

text \<open>The type names one digest call has spelled.\<close>

type_synonym type_names = "(held_type \<times> string) list"

definition TypeNames_Of :: "'p usd_names \<Rightarrow> held_value \<Rightarrow> type_names \<Rightarrow> string \<times> type_names" where
  "TypeNames_Of u v names = (case map_of names (hv_type v) of
       Some name \<Rightarrow> (name, names)
     | None \<Rightarrow> (nm_type u (hv_type v), names @ [(hv_type v, nm_type u (hv_type v))]))"

definition FoldVtValueNames :: "'p usd_names \<Rightarrow> 64 word \<Rightarrow> vt_value \<Rightarrow> type_names \<Rightarrow> 64 word \<times> type_names" where
  "FoldVtValueNames u hash value names = (case value of
       None \<Rightarrow> (FoldString hash ''empty'', names)
     | Some v \<Rightarrow> (let (name, names1) = TypeNames_Of u v names
                 in (FoldVtValueAfterName (FoldTag (FoldString hash name) '''') v, names1)))"

text \<open>The tag of a leaf's holder.\<close>

definition leaf_tag :: "held_type \<Rightarrow> 64 word option" where
  "leaf_tag t = (case t of
       ArrayOf T_int \<Rightarrow> Some 1 | ArrayOf T_float \<Rightarrow> Some 2 | Single T_int \<Rightarrow> Some 3
     | Single T_float \<Rightarrow> Some 4 | Single T_double \<Rightarrow> Some 5 | Single T_bool \<Rightarrow> Some 6
     | Single T_vec3f \<Rightarrow> Some 7 | Single T_vec3d \<Rightarrow> Some 8 | Single T_vec3i \<Rightarrow> Some 9
     | Single T_matrix4d \<Rightarrow> Some 10 | ArrayOf T_vec2f \<Rightarrow> Some 11 | ArrayOf T_vec3f \<Rightarrow> Some 12
     | ArrayOf T_double \<Rightarrow> Some 13 | Single T_token \<Rightarrow> Some 14 | _ \<Rightarrow> None)"

definition FoldLeafValue :: "'p usd_names \<Rightarrow> 64 word \<Rightarrow> vt_value \<Rightarrow> 64 word" where
  "FoldLeafValue u hash value = (case value of
       None \<Rightarrow> FoldU64 hash 0
     | Some v \<Rightarrow> (case leaf_tag (hv_type v) of
         None \<Rightarrow> FoldVtValue u (FoldU64 hash 15) value
       | Some t \<Rightarrow> (let hash1 = FoldU64 hash t; bytes = concat (hv_elements v)
           in case hv_type v of
               ArrayOf e \<Rightarrow> FoldArray hash1 (hv_elements v)
             | Single e \<Rightarrow>
                 if e = T_token
                 then (if bytes = [] then FoldU64 hash1 0
                       else FoldBytes (FoldU64 hash1 (of_nat (length bytes))) bytes)
                 else FoldBytes hash1 bytes)))"

section \<open>Frames and stage seeds\<close>

fun list3 :: "'a vec3 \<Rightarrow> 'a list" where
  "list3 (Vec3 a b c) = [a, b, c]"

fun list4 :: "'a vec4 \<Rightarrow> 'a list" where
  "list4 (Vec4 a b c d) = [a, b, c, d]"

definition FoldPointFrame :: "64 word \<Rightarrow> point_frame \<Rightarrow> 64 word" where
  "FoldPointFrame hash frame =
     FoldBytes (foldl FoldDouble hash (concat (map list3 (list4 (pf_points frame))))) (storage 4 (pf_flags frame))"

definition FoldMatrix :: "64 word \<Rightarrow> matrix4 \<Rightarrow> 64 word" where
  "FoldMatrix hash m = foldl FoldDouble hash (concat (map list4 (list4 m)))"

record stage_seeds =
  ss_xformBase :: "matrix4 list"
  ss_xformFrames :: "point_frame list"
  ss_nativeOk :: "byte list"
  ss_nativeFrames :: "point_frame list"
  ss_deltaOk :: "byte list"
  ss_deltaBase :: "matrix4 list"
  ss_intervening :: "matrix4 list"
  ss_interveningReset :: "byte list"

text \<open>A count, then every entry.\<close>

definition FoldCounted :: "(64 word \<Rightarrow> 'x \<Rightarrow> 64 word) \<Rightarrow> 64 word \<Rightarrow> 'x list \<Rightarrow> 64 word" where
  "FoldCounted step hash xs = foldl step (FoldU64 hash (of_nat (length xs))) xs"

definition FoldStageSeeds :: "64 word \<Rightarrow> stage_seeds \<Rightarrow> 64 word" where
  "FoldStageSeeds hash0 seeds =
     (let hash = FoldTag hash0 ''seeds'';
          hash = FoldCounted FoldMatrix hash (ss_xformBase seeds);
          hash = FoldCounted FoldPointFrame hash (ss_xformFrames seeds);
          hash = FoldCounted FoldFlag hash (ss_deltaOk seeds);
          hash = FoldCounted FoldMatrix hash (ss_deltaBase seeds);
          hash = FoldCounted FoldFlag hash (ss_nativeOk seeds);
          hash = FoldCounted FoldPointFrame hash (ss_nativeFrames seeds);
          hash = FoldCounted FoldMatrix hash (ss_intervening seeds)
      in foldl FoldFlag hash (ss_interveningReset seeds))"

section \<open>The sampled inputs\<close>

abbreviation burst_route_fresh :: int where "burst_route_fresh \<equiv> 0"
abbreviation burst_route_stage :: int where "burst_route_stage \<equiv> 1"
abbreviation burst_route_resolved :: int where "burst_route_resolved \<equiv> 2"

record 'p sampled_input =
  si_path :: 'p
  si_value :: vt_value
  si_hasValue :: bool
  si_burstSampleRoute :: int
  si_valueBlocked :: bool
  si_staticSample :: int

record 'p static_samples =
  st_samples :: "'p sampled_input list"
  st_level1 :: "64 word list"
  st_digestible :: "bool list"

record 'p upstream_value =
  uv_path :: 'p
  uv_value :: vt_value
  uv_foldHash :: "64 word"

record 'p head_leaf_constants =
  hl_keys :: "'p list"
  hl_varying :: "bool list"
  hl_values :: "vt_value list"
  hl_digest :: "64 word"
  hl_digestible :: bool

record 'p digest_order =
  do_paths :: "'p list"
  do_order :: "32 word list"
  do_prefix :: "64 word list"
  do_pathTextBytes :: nat

record 'p value_override =
  vo_prim :: 'p
  vo_computation :: string
  vo_attribute :: string
  vo_value :: vt_value

record 'p frame_inputs =
  fi_values :: "'p sampled_input list"
  fi_layoutLeaves :: "vt_value list list"
  fi_varyingLayoutRows :: "32 word list"
  fi_varyingRevisionLeaves :: "(32 word \<times> 32 word) list"
  fi_revisionLeaves :: "vt_value list list"
  fi_stageSeeds :: stage_seeds
  fi_headLeafConstants :: "'p head_leaf_constants option"
  fi_staticSamples :: "'p static_samples option"
  fi_digestOrder :: "'p digest_order option"
  fi_upstream :: "'p upstream_value list"

definition FoldHeadLeafConstants :: "64 word \<Rightarrow> 'p frame_inputs \<Rightarrow> 64 word" where
  "FoldHeadLeafConstants hash inputs = (case fi_headLeafConstants inputs of
       None \<Rightarrow> hash
     | Some k \<Rightarrow> FoldU64 (FoldBytes hash (text_bytes ''head'' @ [0])) (hl_digest k))"

definition FoldLayoutRow :: "'p usd_names \<Rightarrow> vt_value list list \<Rightarrow> 64 word \<Rightarrow> 32 word \<Rightarrow> 64 word" where
  "FoldLayoutRow u leaves hash row =
     (let hash1 = FoldU64 hash (ucast row)
      in if length leaves \<le> unat row then FoldU64 hash1 (- 1)
         else FoldCounted (FoldLeafValue u) hash1 (leaves ! unat row))"

definition FoldRevisionLeaf :: "'p usd_names \<Rightarrow> vt_value list list \<Rightarrow> 64 word \<Rightarrow> 32 word \<times> 32 word \<Rightarrow> 64 word" where
  "FoldRevisionLeaf u leaves hash rk =
     (let (row, key) = rk;
          hash1 = FoldU64 hash (or (push_bit 32 (ucast row)) (ucast key))
      in if unat row < length leaves \<and> unat key < length (leaves ! unat row)
         then FoldLeafValue u hash1 (leaves ! unat row ! unat key)
         else FoldU64 hash1 (- 1))"

definition FoldVaryingTransport :: "'p usd_names \<Rightarrow> 64 word \<Rightarrow> 'p frame_inputs \<Rightarrow> 64 word" where
  "FoldVaryingTransport u hash inputs =
     (if fi_varyingLayoutRows inputs = [] \<and> fi_varyingRevisionLeaves inputs = [] then hash
      else let hash1 = FoldCounted (FoldLayoutRow u (fi_layoutLeaves inputs)) (FoldTag hash ''vary'')
                         (fi_varyingLayoutRows inputs)
           in FoldCounted (FoldRevisionLeaf u (fi_revisionLeaves inputs)) hash1 (fi_varyingRevisionLeaves inputs))"

section \<open>Upstream values and overrides\<close>

definition FoldUpstreamEntry :: "'p usd_names \<Rightarrow> 64 word \<Rightarrow> 'p \<times> 'p upstream_value \<Rightarrow> 64 word" where
  "FoldUpstreamEntry u hash e =
     (let value = uv_value (snd e);
          hash1 = FoldTag (FoldString hash (nm_path u (fst e))) '''';
          hash2 = FoldTag (FoldString hash1 (type_name u value)) ''''
      in if array_valued value \<and> uv_foldHash (snd e) \<noteq> 0 then FoldU64 hash2 (uv_foldHash (snd e))
         else FoldVtValue u hash2 value)"

definition FoldUpstream :: "'p::linorder usd_names \<Rightarrow> 64 word \<Rightarrow> 'p upstream_value list \<Rightarrow> 64 word" where
  "FoldUpstream u hash upstream =
     (if upstream = [] then hash
      else let byPath = foldl (\<lambda>m v. omap_put (uv_path v) v m) [] upstream
           in FoldCounted (FoldUpstreamEntry u) (FoldTag hash ''ups'') byPath)"

definition UpstreamFoldHash :: "'p usd_names \<Rightarrow> vt_value \<Rightarrow> 64 word" where
  "UpstreamFoldHash u value =
     (if \<not> array_valued value then 0
      else let hash = FoldVtValue u (FoldString digest_seed (type_name u value)) value
           in if hash \<noteq> 0 then hash else 1)"

type_synonym override_key = "string \<times> string \<times> string"

definition override_key :: "'p usd_names \<Rightarrow> 'p value_override \<Rightarrow> override_key" where
  "override_key u o' = (nm_path u (vo_prim o'), vo_computation o', vo_attribute o')"

definition FoldOverrideEntry :: "'p usd_names \<Rightarrow> 64 word \<Rightarrow> override_key \<times> 'p value_override \<Rightarrow> 64 word" where
  "FoldOverrideEntry u hash e =
     (let (prim, computation, attribute) = fst e;
          hash1 = FoldTag (FoldString (FoldTag hash ''ovr'') prim) '''';
          hash2 = FoldTag (FoldString hash1 computation) '''';
          hash3 = FoldTag (FoldString hash2 attribute) ''''
      in FoldVtValue u hash3 (vo_value (snd e)))"

definition FoldOverrides :: "'p usd_names \<Rightarrow> 64 word \<Rightarrow> 'p value_override list \<Rightarrow> 64 word" where
  "FoldOverrides u hash overrides =
     (let byKey = foldl (\<lambda>m o'. omap_put (override_key u o') o' m) [] overrides
      in FoldCounted (FoldOverrideEntry u) hash byKey)"

end
