(* ===== verification/Baked_Program.thy ===== *)
theory Baked_Program
  imports Cluster_Set Frame_Digest
begin

text \<open>
  The baked program as far as its cones and the output-affected index read it
  (\<open>bakedProgramImpl.h\<close>, \<open>bakedClusters.h\<close>): the steps with the slots they declare, the
  clusters, the tables that tie sources to steps, and the cone tables themselves. A field
  the code stores as an \<open>int\<close> with -1 for \<open>none\<close> is an \<open>int\<close>; the ids inside a cluster's edge lists
  are never negative and are \<open>nat\<close>.
\<close>

section \<open>Steps\<close>

datatype slot_domain =
    D_Avars | D_PoseBase | D_PoseFin | D_PosedM | D_FinalMatrix | D_BaseMatrix | D_Aggregate | D_SolverPoints
  | D_Candidates | D_CommitTable | D_CommitDelta | D_CommitStaging | D_ConstraintDelta | D_PropertyResult
  | D_ChainBase | D_RevisionPacket | D_RevisionTransforms | D_RevisionOut | D_RevisionDone | D_ChainDirty
  | D_ChainPoints | D_DerivedOut | D_WeightPacket | D_WeightFrames | D_PoseWeight | D_Snapshots | D_FrameMatrix
  | D_Rest | D_Ladder | D_SkinTopology | D_WeightField | D_WeightFramesBase | D_SpaceValue | D_SpaceLeaf
  | D_DerivedBase | D_ChainInput | D_ConstraintInputs | D_SwitchFrame | D_RequiredStageFramesAdmission

record slot_range =
  sr_domain :: slot_domain
  sr_begin :: nat
  sr_end :: nat

datatype step_kind =
    K_ComposeSubtree | K_Solve | K_SolverCommit | K_Constraint | K_CommitDelta | K_PropagateChunk | K_CommitApply
  | K_ProviderMatrix | K_SnapshotFinals | K_PoseInterpolator | K_VolumePlacements | K_WeightPacket
  | K_InfluenceFold | K_RevisionStatic | K_RevisionChunk | K_RevisionFuse | K_ChainStatus | K_Derived
  | K_FrameMatrix | K_PropertyRevision | K_RestCompose | K_LadderCompose | K_SkinTopology | K_WeightField
  | K_SpaceExpression | K_AvarInputs | K_SpaceCheckpoint | K_ProviderRefresh | K_ChainInputs

definition RigExecBakedIsGeometryStep :: "step_kind \<Rightarrow> bool" where
  "RigExecBakedIsGeometryStep kind \<longleftrightarrow> kind \<in> {K_ChainInputs, K_WeightField, K_InfluenceFold, K_RevisionStatic,
     K_RevisionChunk, K_RevisionFuse, K_ChainStatus, K_Derived}"

record baked_step =
  st_kind :: step_kind
  st_object :: int
  st_reads :: "slot_range list"
  st_isHead :: bool
  st_externalReads :: bool
  st_varyingInputs :: bool
  st_overrideInputs :: "int list"
  st_readerWalks :: "int list"
  st_bindingLeaves :: "nat list"
  st_cluster :: int

record baked_cluster =
  bc_members :: "nat list"
  bc_preds :: "nat list"
  bc_succs :: "nat list"

record baked_clustering =
  cg_clusters :: "baked_cluster list"
  cg_clusterOf :: "int list"
  cg_topologicalOrder :: "nat list"

section \<open>Sources\<close>

record compose_group =
  gr_begin :: int
  gr_end :: int

record walk_step =
  ws_solverBatch :: bool
  ws_index :: int

record baked_constraint =
  ct_sourceNatives :: "int list"
  ct_worldUpNative :: int
  ct_deltaBase :: int
  ct_arrays :: int

text \<open>A binding of an avar: its flat slot (provider * 11 + channel), where its walk starts, if
  anywhere, and the override index of its input.\<close>

record 'p avar_binding =
  ab_slot :: nat
  ab_head :: "'p option"
  ab_overrideIndex :: int

record 'p geom_chain =
  ch_target :: 'p
  ch_moverPaths :: "'p list"

section \<open>Cones\<close>

record baked_cones =
  cn_cone :: "cluster_set list option"
  cn_always :: cluster_set
  cn_poseClusters :: cluster_set
  cn_avarCluster :: "int list"
  cn_chainBaseClusters :: "int list list"
  cn_solverPointsClusters :: "int list list"
  cn_revisionClusters :: "int list list"
  cn_revisionStaticCluster :: "int list"
  cn_nativeSourceClusters :: "int list list"
  cn_deltaBaseClusters :: "int list list"
  cn_constraintArrayClusters :: "int list list"
  cn_varyingSteps :: "int list"
  cn_overrideSteps :: "int list"
  cn_headReaders :: "int list list"
  cn_walkReaders :: "int list list"
  cn_fieldReaders :: "int list list"
  cn_fieldSteps :: "int list"
  cn_restReaders :: "int list list"
  cn_ladderReaders :: "int list list"
  cn_editRoute :: "8 word list"
  cn_alwaysSteps :: cluster_set
  cn_poseSteps :: cluster_set
  cn_avarStep :: "int list"
  cn_avarVersionSteps :: "int list list"
  cn_chainBaseSteps :: "int list list"
  cn_solverPointsSteps :: "int list list"
  cn_revisionSteps :: "int list list"
  cn_revisionStaticStep :: "int list"
  cn_nativeSourceSteps :: "int list list"
  cn_deltaBaseSteps :: "int list list"
  cn_constraintArraySteps :: "int list list"

definition new_cones :: baked_cones where
  "new_cones = \<lparr> cn_cone = None, cn_always = [], cn_poseClusters = [], cn_avarCluster = [], cn_chainBaseClusters = [],
     cn_solverPointsClusters = [], cn_revisionClusters = [], cn_revisionStaticCluster = [], cn_nativeSourceClusters = [],
     cn_deltaBaseClusters = [], cn_constraintArrayClusters = [], cn_varyingSteps = [], cn_overrideSteps = [],
     cn_headReaders = [], cn_walkReaders = [], cn_fieldReaders = [], cn_fieldSteps = [], cn_restReaders = [],
     cn_ladderReaders = [], cn_editRoute = [], cn_alwaysSteps = [], cn_poseSteps = [], cn_avarStep = [],
     cn_avarVersionSteps = [], cn_chainBaseSteps = [], cn_solverPointsSteps = [], cn_revisionSteps = [],
     cn_revisionStaticStep = [], cn_nativeSourceSteps = [], cn_deltaBaseSteps = [], cn_constraintArraySteps = [] \<rparr>"

definition Cone :: "baked_cones \<Rightarrow> cluster_set list" where
  "Cone cones = (case cn_cone cones of Some table \<Rightarrow> table | None \<Rightarrow> [])"

section \<open>The program\<close>

text \<open>The tables of the program; of those only counted, the count. \<open>pg_constraintArrays\<close> holds the
  path of each owning prim, \<open>None\<close> where the prim is not valid.\<close>

record 'p baked_program =
  pg_clustering :: baked_clustering
  pg_steps :: "baked_step list"
  pg_cones :: baked_cones
  pg_closed :: cluster_set
  pg_closedSteps :: cluster_set
  pg_paths :: "'p list"
  pg_avarBindings :: "'p avar_binding list"
  pg_avarConstantBindings :: "'p avar_binding list"
  pg_patchableAvars :: "('p, nat) omap"
  pg_chains :: "'p geom_chain list"
  pg_solverCount :: nat
  pg_solverIndex :: "('p, int) omap"
  pg_revisionIndex :: "(int \<times> int) list"
  pg_composeGroups :: "compose_group list"
  pg_walkSteps :: "walk_step list"
  pg_constraints :: "baked_constraint list"
  pg_nativeSources :: "'p list"
  pg_deltaBasePaths :: "'p list"
  pg_constraintArrays :: "'p option list"
  pg_overriddenCount :: nat
  pg_overridableInputs :: "('p, int list) omap"
  pg_folded :: "'p list"
  pg_ladderOverrides :: "int list"
  pg_leafOfOverride :: "int list"
  pg_leafCount :: nat
  pg_propertyVersionCount :: nat
  pg_weightFieldCount :: nat
  pg_readerWalkCount :: nat

section \<open>Tables indexed by an \<open>int\<close>\<close>

text \<open>\<open>table[size_t(i)] = x\<close> and \<open>table[size_t(i)].push_back(x)\<close>. The indices the code uses are inside
  the tables; the model leaves a table alone outside.\<close>

definition put_int :: "int \<Rightarrow> 'a \<Rightarrow> 'a list \<Rightarrow> 'a list" where
  "put_int i x table = (if 0 \<le> i then table[nat i := x] else table)"

definition push_at :: "nat \<Rightarrow> 'a \<Rightarrow> 'a list list \<Rightarrow> 'a list list" where
  "push_at n x table = (if n < length table then table[n := table ! n @ [x]] else table)"

definition push_int :: "int \<Rightarrow> 'a \<Rightarrow> 'a list list \<Rightarrow> 'a list list" where
  "push_int i x table = (if 0 \<le> i then push_at (nat i) x table else table)"

text \<open>The loop \<open>for (slot = range.begin; slot < range.end && slot < table.size(); ++slot)\<close> that
  pushes one entry per slot of a range.\<close>

definition push_range :: "slot_range \<Rightarrow> 'a \<Rightarrow> 'a list list \<Rightarrow> 'a list list" where
  "push_range r x table = foldl (\<lambda>t slot. push_at slot x t) table [sr_begin r..<min (sr_end r) (length table)]"

lemma push_at_simps [simp]:
  "length (push_at n x table) = length table"
  "m < length table \<Longrightarrow> push_at n x table ! m = (if m = n then table ! m @ [x] else table ! m)"
  by (auto simp: push_at_def)

lemma push_int_simps [simp]:
  "length (push_int i x table) = length table"
  "m < length table \<Longrightarrow> push_int i x table ! m = (if int m = i then table ! m @ [x] else table ! m)"
  by (auto simp: push_int_def)

lemma put_int_simps [simp]:
  "length (put_int i x table) = length table"
  "m < length table \<Longrightarrow> put_int i x table ! m = (if int m = i then x else table ! m)"
  by (auto simp: put_int_def nth_list_update)

lemma push_range_simps [simp]:
  "length (push_range r x table) = length table"
  "m < length table \<Longrightarrow> push_range r x table ! m = (if sr_begin r \<le> m \<and> m < sr_end r then table ! m @ [x] else table ! m)"
proof -
  let ?slots = "[sr_begin r..<min (sr_end r) (length table)]"
  let ?I = "\<lambda>ys t. length t = length table \<and>
      (\<forall>m < length table. t ! m = (if m \<in> set ys then table ! m @ [x] else table ! m))"
  have "?I ?slots (foldl (\<lambda>t slot. push_at slot x t) table ?slots)"
  proof (rule foldl_invariant [where I = ?I])
    fix ys slot zs t assume split: "?slots = ys @ slot # zs" and I: "?I ys t"
    have "slot \<notin> set ys" using upt_prefix [OF split] by simp
    then show "?I (ys @ [slot]) (push_at slot x t)" using I by auto
  qed simp
  then show "length (push_range r x table) = length table"
    "m < length table \<Longrightarrow> push_range r x table ! m = (if sr_begin r \<le> m \<and> m < sr_end r then table ! m @ [x] else table ! m)"
    unfolding push_range_def by auto
qed

end
