(* ===== verification/Baked_Cones.thy ===== *)
theory Baked_Cones
  imports Baked_Program
begin

text \<open>
  \<open>RigExecBakedClusterTopologicalOrder\<close> and \<open>RigExecBakedBuildCones\<close> of \<open>bakedSchedule.cpp\<close>: the
  order of the clusters, the tables from sources to the clusters and steps that read them,
  and the forward closure of every cluster. Which steps read through resolved inputs
  (\<open>RigExecBakedResolvedReaders\<close>, decided from the inputs of the bodies) is an argument.
\<close>

section \<open>The topological order\<close>

definition release_succ :: "int list \<times> nat list \<Rightarrow> nat \<Rightarrow> int list \<times> nat list" where
  "release_succ = (\<lambda>(remaining, ready) succ.
     if succ < length remaining
     then let left = remaining ! succ - 1 in (remaining[succ := left], if left = 0 then ready @ [succ] else ready)
     else (remaining, ready))"

text \<open>What the loop can still pop: the ready clusters and the counts above zero.\<close>

definition pending_sum :: "int list \<Rightarrow> nat" where
  "pending_sum remaining = sum_list (map nat remaining)"

lemma release_succs_measure:
  "length (snd (foldl release_succ (remaining, ready) succs)) + pending_sum (fst (foldl release_succ (remaining, ready) succs))
   \<le> length ready + pending_sum remaining"
proof (induction succs arbitrary: remaining ready)
  case (Cons x xs)
  obtain r q where step: "release_succ (remaining, ready) x = (r, q)" by fastforce
  have flip: "pending_sum (remaining[x := remaining ! x - 1]) + (if 1 \<le> remaining ! x then 1 else 0) = pending_sum remaining"
    if "x < length remaining"
    using that
  proof (induction remaining arbitrary: x)
    case (Cons y ys)
    then show ?case by (cases x) (auto simp: pending_sum_def)
  qed simp
  have "length q + pending_sum r \<le> length ready + pending_sum remaining"
    using step flip by (auto simp: release_succ_def Let_def split: if_splits)
  with Cons.IH [of r q] show ?case by (simp add: step)
qed simp

function order_loop :: "baked_cluster list \<Rightarrow> int list \<Rightarrow> nat list \<Rightarrow> nat list \<Rightarrow> nat list" where
  "order_loop clusters remaining ready order =
     (if ready = [] then order
      else let cluster = last ready;
               (remaining', ready') = foldl release_succ (remaining, butlast ready) (bc_succs (clusters ! cluster))
           in order_loop clusters remaining' ready' (order @ [cluster]))"
  by pat_completeness auto
termination
proof (relation "measure (\<lambda>(clusters, remaining, ready, order). length ready + pending_sum remaining)", goal_cases)
  case (2 clusters remaining ready order cluster released remaining' ready')
  then have "foldl release_succ (remaining, butlast ready) (bc_succs (clusters ! cluster)) = (remaining', ready')" by simp
  then show ?case
    using release_succs_measure [of remaining "butlast ready" "bc_succs (clusters ! cluster)"] 2(1)
    by (cases ready rule: rev_cases) auto
qed simp

declare order_loop.simps [simp del]

definition RigExecBakedClusterTopologicalOrder :: "baked_clustering \<Rightarrow> nat list" where
  "RigExecBakedClusterTopologicalOrder clustering =
     (let clusters = cg_clusters clustering;
          remaining = map (\<lambda>c. int (length (bc_preds c))) clusters
      in order_loop clusters remaining (filter (\<lambda>c. remaining ! c = 0) [0..<length clusters]) [])"

section \<open>Flags of the steps\<close>

definition note_flags :: "bool list \<Rightarrow> baked_cones \<Rightarrow> nat \<times> baked_step \<Rightarrow> baked_cones" where
  "note_flags resolved cones = (\<lambda>(index, step).
     let c1 = (if st_externalReads step
               then cones\<lparr>cn_always := Set_bit (st_cluster step) (cn_always cones),
                          cn_alwaysSteps := Set_bit (int index) (cn_alwaysSteps cones)\<rparr> else cones);
         c2 = (if \<not> RigExecBakedIsGeometryStep (st_kind step)
               then c1\<lparr>cn_poseClusters := Set_bit (st_cluster step) (cn_poseClusters c1),
                       cn_poseSteps := Set_bit (int index) (cn_poseSteps c1)\<rparr> else c1);
         c3 = (if st_varyingInputs step \<or> resolved ! index
               then c2\<lparr>cn_varyingSteps := cn_varyingSteps c2 @ [int index]\<rparr> else c2)
     in if st_overrideInputs step \<noteq> [] then c3\<lparr>cn_overrideSteps := cn_overrideSteps c3 @ [int index]\<rparr> else c3)"

section \<open>Edit routes\<close>

definition kEditRouteStep :: "8 word" where "kEditRouteStep = 1"
definition kEditRouteAvar :: "8 word" where "kEditRouteAvar = 2"
definition kEditRouteHead :: "8 word" where "kEditRouteHead = 4"

definition route_to :: "8 word \<Rightarrow> 8 word list \<Rightarrow> int \<Rightarrow> 8 word list" where
  "route_to reader routes index =
     (if 0 \<le> index \<and> nat index < length routes then routes[nat index := or (routes ! nat index) reader] else routes)"

definition edit_routes :: "'p baked_program \<Rightarrow> 8 word list" where
  "edit_routes B =
     (let r0 = replicate (pg_overriddenCount B) 0;
          r1 = foldl (\<lambda>r step. foldl (route_to kEditRouteStep) r (st_overrideInputs step)) r0 (pg_steps B);
          r2 = foldl (\<lambda>r b. route_to kEditRouteAvar r (ab_overrideIndex b)) r1 (pg_avarBindings B @ pg_avarConstantBindings B)
      in foldl (route_to kEditRouteHead) r2 (pg_ladderOverrides B))"

section \<open>Sources to clusters and steps\<close>

text \<open>The body of the loop over the steps, in the order of the code: the compose pass, the declared
  reads, the revisions.\<close>

definition note_compose :: "'p baked_program \<Rightarrow> baked_cones \<Rightarrow> nat \<times> baked_step \<Rightarrow> baked_cones" where
  "note_compose B cones = (\<lambda>(index, step).
     let c1 = (if st_kind step = K_AvarInputs
               then cones\<lparr>cn_avarCluster := put_int (st_object step) (st_cluster step) (cn_avarCluster cones),
                          cn_avarStep := put_int (st_object step) (int index) (cn_avarStep cones)\<rparr> else cones)
     in if st_kind step = K_ComposeSubtree
        then let g = pg_composeGroups B ! nat (st_object step) in
          c1\<lparr>cn_avarVersionSteps := foldl (\<lambda>table r.
               if sr_domain r \<noteq> D_Avars then table
               else foldl (\<lambda>t slot. if int slot < gr_begin g \<or> gr_end g \<le> int slot then push_at slot (int index) t else t)
                      table [sr_begin r..<min (sr_end r) (length table)]) (cn_avarVersionSteps c1) (st_reads step)\<rparr>
        else c1)"

definition note_source_reads :: "baked_cones \<Rightarrow> nat \<times> baked_step \<Rightarrow> baked_cones" where
  "note_source_reads cones = (\<lambda>(index, step). foldl (\<lambda>c r.
     if sr_domain r = D_ChainBase
     then c\<lparr>cn_chainBaseClusters := push_range r (st_cluster step) (cn_chainBaseClusters c),
            cn_chainBaseSteps := push_range r (int index) (cn_chainBaseSteps c)\<rparr>
     else if sr_domain r = D_SolverPoints
     then c\<lparr>cn_solverPointsClusters := push_range r (st_cluster step) (cn_solverPointsClusters c),
            cn_solverPointsSteps := push_range r (int index) (cn_solverPointsSteps c)\<rparr>
     else c) cones (st_reads step))"

definition note_revision :: "baked_cones \<Rightarrow> nat \<times> baked_step \<Rightarrow> baked_cones" where
  "note_revision cones = (\<lambda>(index, step).
     let c1 = (if st_kind step = K_RevisionStatic
               then cones\<lparr>cn_revisionStaticCluster := put_int (st_object step) (st_cluster step) (cn_revisionStaticCluster cones),
                          cn_revisionStaticStep := put_int (st_object step) (int index) (cn_revisionStaticStep cones)\<rparr>
               else cones)
     in if st_kind step \<in> {K_RevisionStatic, K_InfluenceFold, K_RevisionChunk, K_RevisionFuse}
        then c1\<lparr>cn_revisionClusters := push_int (st_object step) (st_cluster step) (cn_revisionClusters c1),
                cn_revisionSteps := push_int (st_object step) (int index) (cn_revisionSteps c1)\<rparr>
        else c1)"

definition note_sources :: "'p baked_program \<Rightarrow> baked_cones \<Rightarrow> nat \<times> baked_step \<Rightarrow> baked_cones" where
  "note_sources B cones e = note_revision (note_source_reads (note_compose B cones e) e) e"

section \<open>Readers of the head outputs\<close>

definition note_reader_range :: "nat \<Rightarrow> baked_cones \<Rightarrow> slot_range \<Rightarrow> baked_cones" where
  "note_reader_range index c r =
     (case sr_domain r of
        D_PropertyResult \<Rightarrow> c\<lparr>cn_headReaders := push_range r (int index) (cn_headReaders c)\<rparr>
      | D_WeightField \<Rightarrow> c\<lparr>cn_fieldReaders := push_range r (int index) (cn_fieldReaders c)\<rparr>
      | D_Rest \<Rightarrow> c\<lparr>cn_restReaders := push_range r (int index) (cn_restReaders c)\<rparr>
      | D_Ladder \<Rightarrow> c\<lparr>cn_ladderReaders := push_range r (int index) (cn_ladderReaders c)\<rparr>
      | _ \<Rightarrow> c)"

definition note_readers :: "baked_cones \<Rightarrow> nat \<times> baked_step \<Rightarrow> baked_cones" where
  "note_readers cones = (\<lambda>(index, step).
     if st_isHead step then cones
     else let c1 = (if st_kind step = K_WeightField
                    then cones\<lparr>cn_fieldSteps := put_int (st_object step) (int index) (cn_fieldSteps cones)\<rparr> else cones);
              c2 = foldl (note_reader_range index) c1 (st_reads step)
          in foldl (\<lambda>c walk. c\<lparr>cn_walkReaders := push_int walk (int index) (cn_walkReaders c)\<rparr>) c2 (st_readerWalks step))"

section \<open>Constraint sources\<close>

definition push_native :: "nat \<Rightarrow> int \<Rightarrow> baked_cones \<Rightarrow> int \<Rightarrow> baked_cones" where
  "push_native index cluster c native =
     (if 0 \<le> native
      then c\<lparr>cn_nativeSourceClusters := push_int native cluster (cn_nativeSourceClusters c),
             cn_nativeSourceSteps := push_int native (int index) (cn_nativeSourceSteps c)\<rparr> else c)"

definition note_constraint :: "'p baked_program \<Rightarrow> baked_cones \<Rightarrow> nat \<times> baked_step \<Rightarrow> baked_cones" where
  "note_constraint B cones = (\<lambda>(index, step).
     if st_kind step \<noteq> K_Constraint then cones
     else let walk = pg_walkSteps B ! nat (st_object step) in
       if ws_solverBatch walk \<or> ws_index walk < 0 then cones
       else let constraint = pg_constraints B ! nat (ws_index walk);
                c1 = foldl (push_native index (st_cluster step)) cones (ct_sourceNatives constraint);
                c2 = push_native index (st_cluster step) c1 (ct_worldUpNative constraint);
                c3 = (if 0 \<le> ct_deltaBase constraint
                      then c2\<lparr>cn_deltaBaseClusters := push_int (ct_deltaBase constraint) (st_cluster step) (cn_deltaBaseClusters c2),
                              cn_deltaBaseSteps := push_int (ct_deltaBase constraint) (int index) (cn_deltaBaseSteps c2)\<rparr>
                      else c2)
            in if 0 \<le> ct_arrays constraint
               then c3\<lparr>cn_constraintArrayClusters := push_int (ct_arrays constraint) (st_cluster step) (cn_constraintArrayClusters c3),
                       cn_constraintArraySteps := push_int (ct_arrays constraint) (int index) (cn_constraintArraySteps c3)\<rparr>
               else c3)"

section \<open>Closures\<close>

text \<open>One cluster of the walk against the order: itself, and the closures of its successors.\<close>

definition close_cluster :: "baked_cluster list \<Rightarrow> cluster_set list \<Rightarrow> nat \<Rightarrow> cluster_set list" where
  "close_cluster clusters closures cluster =
     closures[cluster := foldl (\<lambda>cone succ. snd (Union_set cone (closures ! succ)))
        (Set_bit (int cluster) (closures ! cluster)) (bc_succs (clusters ! cluster))]"

definition build_closures :: "baked_cluster list \<Rightarrow> nat list \<Rightarrow> cluster_set list" where
  "build_closures clusters order =
     foldl (close_cluster clusters) (replicate (length clusters) (Resize (length clusters))) (rev order)"

section \<open>The builder\<close>

definition numbered_steps :: "'p baked_program \<Rightarrow> (nat \<times> baked_step) list" where
  "numbered_steps B = zip [0..<length (pg_steps B)] (pg_steps B)"

definition source_tables :: "'p baked_program \<Rightarrow> baked_cones \<Rightarrow> baked_cones" where
  "source_tables B cones =
     (let paths = length (pg_paths B); chains = length (pg_chains B); solvers = pg_solverCount B;
          revisions = length (pg_revisionIndex B)
      in foldl (note_sources B)
           (cones\<lparr>cn_avarCluster := replicate paths (-1), cn_chainBaseClusters := replicate chains [],
              cn_solverPointsClusters := replicate solvers [], cn_revisionClusters := replicate revisions [],
              cn_revisionStaticCluster := replicate revisions (-1), cn_avarStep := replicate paths (-1),
              cn_avarVersionSteps := replicate paths [], cn_chainBaseSteps := replicate chains [],
              cn_solverPointsSteps := replicate solvers [], cn_revisionSteps := replicate revisions [],
              cn_revisionStaticStep := replicate revisions (-1)\<rparr>)
           (numbered_steps B))"

definition reader_tables :: "'p baked_program \<Rightarrow> baked_cones \<Rightarrow> baked_cones" where
  "reader_tables B cones =
     foldl note_readers
       (cones\<lparr>cn_headReaders := replicate (pg_propertyVersionCount B) [], cn_fieldReaders := replicate (pg_weightFieldCount B) [],
          cn_fieldSteps := replicate (pg_weightFieldCount B) (-1), cn_restReaders := replicate (length (pg_paths B)) [],
          cn_ladderReaders := replicate (length (pg_paths B)) [], cn_walkReaders := replicate (pg_readerWalkCount B) []\<rparr>)
       (numbered_steps B)"

definition constraint_tables :: "'p baked_program \<Rightarrow> baked_cones \<Rightarrow> baked_cones" where
  "constraint_tables B cones =
     (let natives = length (pg_nativeSources B); bases = length (pg_deltaBasePaths B);
          arrays = length (pg_constraintArrays B)
      in foldl (note_constraint B)
           (cones\<lparr>cn_nativeSourceClusters := replicate natives [], cn_deltaBaseClusters := replicate bases [],
              cn_constraintArrayClusters := replicate arrays [], cn_nativeSourceSteps := replicate natives [],
              cn_deltaBaseSteps := replicate bases [], cn_constraintArraySteps := replicate arrays []\<rparr>)
           (numbered_steps B))"

definition unique_tables :: "baked_cones \<Rightarrow> baked_cones" where
  "unique_tables cones = cones\<lparr>cn_nativeSourceClusters := map vec_unique (cn_nativeSourceClusters cones),
     cn_chainBaseClusters := map vec_unique (cn_chainBaseClusters cones),
     cn_solverPointsClusters := map vec_unique (cn_solverPointsClusters cones),
     cn_revisionClusters := map vec_unique (cn_revisionClusters cones)\<rparr>"

definition RigExecBakedBuildCones :: "bool list \<Rightarrow> 'p baked_program \<Rightarrow> 'p baked_program" where
  "RigExecBakedBuildCones resolved B =
     (let clusters = cg_clusters (pg_clustering B); n = length clusters; stepCount = length (pg_steps B);
          order = RigExecBakedClusterTopologicalOrder (pg_clustering B);
          B1 = B\<lparr>pg_clustering := (pg_clustering B)\<lparr>cg_topologicalOrder := order\<rparr>, pg_cones := new_cones,
                 pg_closed := Resize n, pg_closedSteps := Resize stepCount\<rparr>
      in if n = 0 then B1
         else let c0 = new_cones\<lparr>cn_always := Resize n, cn_poseClusters := Resize n,
                         cn_alwaysSteps := Resize stepCount, cn_poseSteps := Resize stepCount\<rparr>;
                  c1 = foldl (note_flags resolved) c0 (numbered_steps B);
                  c2 = c1\<lparr>cn_editRoute := edit_routes B\<rparr>;
                  c3 = constraint_tables B (reader_tables B (source_tables B c2))
              in B1\<lparr>pg_cones := (unique_tables c3)\<lparr>cn_cone := Some (build_closures clusters order)\<rparr>\<rparr>)"

end
