(* ===== verification/Baked_Closure.thy ===== *)
theory Baked_Closure
  imports Baked_Cones
begin

text \<open>
  The closures of the cone builder: on an acyclic clustering the order holds every cluster
  once, after its predecessors, and the closure of a cluster is the set of clusters reachable
  from it.
\<close>

section \<open>The cluster graph\<close>

definition cluster_edges :: "baked_cluster list \<Rightarrow> (nat \<times> nat) set" where
  "cluster_edges clusters = {(c, d). c < length clusters \<and> d \<in> set (bc_succs (clusters ! c))}"

text \<open>What the lowering and its validator guarantee of the clusters: edges listed at both ends, each
  once, between clusters, and without a cycle.\<close>

definition clusters_valid :: "baked_cluster list \<Rightarrow> bool" where
  "clusters_valid clusters \<longleftrightarrow>
     (\<forall>c < length clusters. distinct (bc_preds (clusters ! c)) \<and> distinct (bc_succs (clusters ! c)) \<and>
        set (bc_preds (clusters ! c)) \<subseteq> {..<length clusters} \<and> set (bc_succs (clusters ! c)) \<subseteq> {..<length clusters}) \<and>
     (\<forall>c < length clusters. \<forall>d < length clusters.
        d \<in> set (bc_succs (clusters ! c)) \<longleftrightarrow> c \<in> set (bc_preds (clusters ! d))) \<and>
     acyclic (cluster_edges clusters)"

lemma clusters_validD:
  assumes "clusters_valid clusters" "c < length clusters"
  shows "distinct (bc_preds (clusters ! c))" "distinct (bc_succs (clusters ! c))"
    "p \<in> set (bc_preds (clusters ! c)) \<Longrightarrow> p < length clusters \<and> c \<in> set (bc_succs (clusters ! p))"
    "d \<in> set (bc_succs (clusters ! c)) \<Longrightarrow> d < length clusters \<and> c \<in> set (bc_preds (clusters ! d))"
proof -
  have all: "\<And>c. c < length clusters \<Longrightarrow> set (bc_preds (clusters ! c)) \<subseteq> {..<length clusters} \<and>
      set (bc_succs (clusters ! c)) \<subseteq> {..<length clusters}"
    "\<And>c d. c < length clusters \<Longrightarrow> d < length clusters \<Longrightarrow>
      d \<in> set (bc_succs (clusters ! c)) \<longleftrightarrow> c \<in> set (bc_preds (clusters ! d))"
    using assms(1) by (auto simp: clusters_valid_def)
  show "distinct (bc_preds (clusters ! c))" "distinct (bc_succs (clusters ! c))"
    using assms by (auto simp: clusters_valid_def)
  show "p \<in> set (bc_preds (clusters ! c)) \<Longrightarrow> p < length clusters \<and> c \<in> set (bc_succs (clusters ! p))"
    using all(1) [OF assms(2)] all(2) [of p c] assms(2) by auto
  show "d \<in> set (bc_succs (clusters ! c)) \<Longrightarrow> d < length clusters \<and> c \<in> set (bc_preds (clusters ! d))"
    using all(1) [OF assms(2)] all(2) [of c d] assms(2) by auto
qed

lemma cluster_edges_wf:
  assumes "clusters_valid clusters"
  shows "wf (cluster_edges clusters)"
proof (rule finite_acyclic_wf)
  have "cluster_edges clusters \<subseteq> {..<length clusters} \<times> {..<length clusters}"
    using clusters_validD(4) [OF assms] by (auto simp: cluster_edges_def)
  then show "finite (cluster_edges clusters)" by (rule finite_subset) simp
  show "acyclic (cluster_edges clusters)" using assms by (simp add: clusters_valid_def)
qed

section \<open>The order\<close>

lemma release_succs_spec:
  assumes "distinct succs" "\<forall>d \<in> set succs. d < length remaining"
    and "foldl release_succ (remaining, ready) succs = (remaining', ready')"
  shows "length remaining' = length remaining \<and>
    (\<forall>d < length remaining. remaining' ! d = (if d \<in> set succs then remaining ! d - 1 else remaining ! d)) \<and>
    ready' = ready @ filter (\<lambda>d. remaining ! d = 1) succs"
proof -
  let ?I = "\<lambda>ys (r, q). length r = length remaining \<and>
      (\<forall>d < length remaining. r ! d = (if d \<in> set ys then remaining ! d - 1 else remaining ! d)) \<and>
      q = ready @ filter (\<lambda>d. remaining ! d = 1) ys"
  have "?I succs (foldl release_succ (remaining, ready) succs)"
  proof (rule foldl_invariant [where I = ?I])
    fix ys x zs a assume split: "succs = ys @ x # zs" and I: "?I ys a"
    have "x < length remaining" "x \<notin> set ys" using assms(1,2) split by auto
    then show "?I (ys @ [x]) (release_succ a x)"
      using I by (cases a) (auto simp: release_succ_def Let_def nth_list_update)
  qed simp
  then show ?thesis using assms(3) by simp
qed

definition open_preds :: "baked_cluster list \<Rightarrow> nat list \<Rightarrow> nat \<Rightarrow> nat set" where
  "open_preds clusters order c = set (bc_preds (clusters ! c)) - set order"

definition order_inv :: "baked_cluster list \<Rightarrow> int list \<Rightarrow> nat list \<Rightarrow> nat list \<Rightarrow> bool" where
  "order_inv clusters remaining ready order \<longleftrightarrow> length remaining = length clusters \<and> distinct (order @ ready) \<and>
     set (order @ ready) \<subseteq> {..<length clusters} \<and>
     (\<forall>c < length clusters. remaining ! c = int (card (open_preds clusters order c)) \<and>
        (c \<in> set (order @ ready) \<longleftrightarrow> open_preds clusters order c = {})) \<and>
     (\<forall>k < length order. open_preds clusters (take k order) (order ! k) = {})"

lemma order_inv_step:
  assumes valid: "clusters_valid clusters" and inv: "order_inv clusters remaining (rest @ [c]) order"
    and rel: "foldl release_succ (remaining, rest) (bc_succs (clusters ! c)) = (remaining', ready')"
  shows "order_inv clusters remaining' ready' (order @ [c])"
proof -
  let ?n = "length clusters" and ?succs = "bc_succs (clusters ! c)" and ?W = "open_preds clusters order"
  have len: "length remaining = ?n" and dist: "distinct (order @ rest @ [c])"
    and range: "set (order @ rest @ [c]) \<subseteq> {..<?n}"
    and counts: "\<And>d. d < ?n \<Longrightarrow> remaining ! d = int (card (?W d))"
    and member: "\<And>d. d < ?n \<Longrightarrow> d \<in> set (order @ rest @ [c]) \<longleftrightarrow> ?W d = {}"
    and past: "\<And>k. k < length order \<Longrightarrow> open_preds clusters (take k order) (order ! k) = {}"
    using inv by (simp_all add: order_inv_def)
  have c: "c < ?n" "c \<notin> set order" using dist range by auto
  have succs: "distinct ?succs" "\<forall>d \<in> set ?succs. d < length remaining"
    using clusters_validD(2,4) [OF valid c(1)] len by auto
  note spec = release_succs_spec [OF succs rel]
  have fin: "finite (?W d)" for d by (simp add: open_preds_def)
  have W': "open_preds clusters (order @ [c]) d = ?W d - {c}" for d by (auto simp: open_preds_def)
  have edge: "c \<in> ?W d \<longleftrightarrow> d \<in> set ?succs" if "d < ?n" for d
    using clusters_validD(3) [OF valid that, of c] clusters_validD(4) [OF valid c(1), of d] c(2)
    by (auto simp: open_preds_def)
  have one: "d \<in> set (filter (\<lambda>d. remaining ! d = 1) ?succs) \<longleftrightarrow> ?W d = {c}" if d: "d < ?n" for d
  proof -
    have "?W d = {c} \<longleftrightarrow> c \<in> ?W d \<and> card (?W d) = 1" by (auto simp: card_1_singleton_iff)
    then show ?thesis using edge [OF d] counts [OF d] by auto
  qed
  have new: "d \<in> set (order @ [c] @ ready') \<longleftrightarrow> ?W d - {c} = {}" if d: "d < ?n" for d
  proof -
    have "d \<in> set (order @ [c] @ ready') \<longleftrightarrow> d \<in> set (order @ rest @ [c]) \<or> ?W d = {c}"
      using one [OF d] spec by auto
    also have "\<dots> \<longleftrightarrow> ?W d - {c} = {}" using member [OF d] by auto
    finally show ?thesis .
  qed
  have fresh: "set (filter (\<lambda>d. remaining ! d = 1) ?succs) \<inter> set (order @ rest @ [c]) = {}"
  proof -
    have "d \<notin> set (order @ rest @ [c])" if "d \<in> set (filter (\<lambda>d. remaining ! d = 1) ?succs)" for d
    proof -
      have d: "d < ?n" using that succs(2) len by auto
      then show ?thesis using one [OF d] that member [OF d] by auto
    qed
    then show ?thesis by blast
  qed
  show ?thesis
    unfolding order_inv_def
  proof (intro conjI allI impI)
    show "length remaining' = ?n" using spec len by simp
    show "distinct ((order @ [c]) @ ready')" using dist fresh succs(1) spec by auto
    show "set ((order @ [c]) @ ready') \<subseteq> {..<?n}" using range spec succs(2) len by auto
    fix d assume d: "d < ?n"
    have "card (?W d - {c}) = (if c \<in> ?W d then card (?W d) - 1 else card (?W d))" by simp
    moreover have "c \<in> ?W d \<Longrightarrow> 0 < card (?W d)" using fin by (auto simp: card_gt_0_iff)
    ultimately show "remaining' ! d = int (card (open_preds clusters (order @ [c]) d))"
      using spec len d edge [OF d] counts [OF d] unfolding W' by auto
    show "d \<in> set ((order @ [c]) @ ready') \<longleftrightarrow> open_preds clusters (order @ [c]) d = {}"
      using new [OF d] unfolding W' by simp
  next
    fix k assume k: "k < length (order @ [c])"
    show "open_preds clusters (take k (order @ [c])) ((order @ [c]) ! k) = {}"
    proof (cases "k = length order")
      case True
      then show ?thesis using member [OF c(1)] by simp
    next
      case False
      then show ?thesis using past [of k] k by (simp add: nth_append)
    qed
  qed
qed

lemma order_loop_inv:
  assumes "clusters_valid clusters" "order_inv clusters remaining ready order"
  shows "\<exists>remaining'. order_inv clusters remaining' [] (order_loop clusters remaining ready order)"
  using assms
proof (induction clusters remaining ready order rule: order_loop.induct)
  case (1 clusters remaining ready order)
  show ?case
  proof (cases "ready = []")
    case True
    then show ?thesis using "1.prems"(2) by (auto simp: order_loop.simps)
  next
    case False
    then have ready: "ready = butlast ready @ [last ready]" by simp
    obtain r q where rel: "foldl release_succ (remaining, butlast ready) (bc_succs (clusters ! last ready)) = (r, q)"
      by fastforce
    have "order_inv clusters r q (order @ [last ready])"
      by (rule order_inv_step [OF "1.prems"(1) _ rel]) (use "1.prems"(2) ready in simp)
    from "1.IH" [OF False refl rel [symmetric] refl "1.prems"(1) this] show ?thesis
      using False rel by (simp add: order_loop.simps [of _ remaining ready order])
  qed
qed

lemma topological_order_spec:
  assumes valid: "clusters_valid (cg_clusters clustering)"
  shows "distinct (RigExecBakedClusterTopologicalOrder clustering)"
    "set (RigExecBakedClusterTopologicalOrder clustering) = {..<length (cg_clusters clustering)}"
    "RigExecBakedClusterTopologicalOrder clustering = xs @ c # ys \<Longrightarrow>
       set (bc_preds (cg_clusters clustering ! c)) \<subseteq> set xs"
proof -
  define clusters where "clusters = cg_clusters clustering"
  define order where "order = RigExecBakedClusterTopologicalOrder clustering"
  let ?n = "length clusters"
  have valid': "clusters_valid clusters" using valid by (simp add: clusters_def)
  let ?remaining = "map (\<lambda>c. int (length (bc_preds c))) clusters"
  have "order_inv clusters ?remaining (filter (\<lambda>c. ?remaining ! c = 0) [0..<?n]) []"
    using clusters_validD(1) [OF valid'] by (auto simp: order_inv_def open_preds_def distinct_card)
  from order_loop_inv [OF valid' this] obtain r where inv: "order_inv clusters r [] order"
    by (auto simp: order_def RigExecBakedClusterTopologicalOrder_def clusters_def Let_def)
  have in_order: "c \<in> set order" if "c < ?n" for c
    using that
  proof (induction c rule: wf_induct_rule [OF cluster_edges_wf [OF valid']])
    case (1 c)
    have "p \<in> set order" if "p \<in> set (bc_preds (clusters ! c))" for p
      using clusters_validD(3) [OF valid' "1.prems" that] "1.IH" by (auto simp: cluster_edges_def)
    then have "open_preds clusters order c = {}" by (auto simp: open_preds_def)
    then show ?case using inv "1.prems" by (simp add: order_inv_def)
  qed
  show "distinct (RigExecBakedClusterTopologicalOrder clustering)"
    using inv by (simp add: order_inv_def order_def)
  show "set (RigExecBakedClusterTopologicalOrder clustering) = {..<length (cg_clusters clustering)}"
    using inv in_order by (auto simp: order_inv_def order_def clusters_def)
  show "set (bc_preds (cg_clusters clustering ! c)) \<subseteq> set xs"
    if "RigExecBakedClusterTopologicalOrder clustering = xs @ c # ys"
  proof -
    have "order = xs @ c # ys" using that by (simp add: order_def)
    then have "open_preds clusters xs c = {}"
      using inv unfolding order_inv_def by (elim conjE allE [where x = "length xs"]) simp
    then show ?thesis by (auto simp: open_preds_def clusters_def)
  qed
qed

section \<open>The closures\<close>

definition cluster_reach :: "baked_cluster list \<Rightarrow> nat \<Rightarrow> nat set" where
  "cluster_reach clusters c = {d. (c, d) \<in> (cluster_edges clusters)\<^sup>*}"

lemma cluster_reach_unfold:
  assumes "c < length clusters"
  shows "cluster_reach clusters c = insert c (\<Union>d \<in> set (bc_succs (clusters ! c)). cluster_reach clusters d)"
proof (intro set_eqI iffI)
  fix d assume "d \<in> cluster_reach clusters c"
  then have "(c, d) \<in> (cluster_edges clusters)\<^sup>*" by (simp add: cluster_reach_def)
  then show "d \<in> insert c (\<Union>d \<in> set (bc_succs (clusters ! c)). cluster_reach clusters d)"
    by (cases rule: converse_rtranclE) (auto simp: cluster_reach_def cluster_edges_def)
next
  fix d assume "d \<in> insert c (\<Union>d \<in> set (bc_succs (clusters ! c)). cluster_reach clusters d)"
  then show "d \<in> cluster_reach clusters c"
    using assms by (auto simp: cluster_reach_def cluster_edges_def intro: converse_rtrancl_into_rtrancl)
qed

lemma cluster_reach_range:
  assumes "clusters_valid clusters" "c < length clusters"
  shows "cluster_reach clusters c \<subseteq> {..<length clusters}"
proof -
  have "d < length clusters" if "(c, d) \<in> (cluster_edges clusters)\<^sup>*" for d
    using that
  proof (induction rule: rtrancl_induct)
    case (step d e)
    then show ?case using clusters_validD(4) [OF assms(1) step(3)] by (auto simp: cluster_edges_def)
  qed (rule assms(2))
  then show ?thesis by (auto simp: cluster_reach_def)
qed

lemma length_union_fold:
  "\<forall>s \<in> set succs. length (closures ! s) \<le> length cone \<Longrightarrow>
     length (foldl (\<lambda>cone succ. snd (Union_set cone (closures ! succ))) cone succs) = length cone"
proof (induction succs arbitrary: cone)
  case (Cons x xs)
  have "length (snd (Union_set cone (closures ! x))) = length cone"
    using Union_spec(2) [OF prod.collapse [symmetric], of cone "closures ! x"] Cons.prems by simp
  then show ?case using Cons by simp
qed simp

lemma build_closures_spec:
  assumes valid: "clusters_valid (cg_clusters clustering)"
    and table: "table = build_closures (cg_clusters clustering) (RigExecBakedClusterTopologicalOrder clustering)"
  shows "length table = length (cg_clusters clustering) \<and> (\<forall>c < length (cg_clusters clustering).
     length (table ! c) = set_words (length (cg_clusters clustering)) \<and>
     bits_of (table ! c) = cluster_reach (cg_clusters clustering) c)"
proof -
  define clusters where "clusters = cg_clusters clustering"
  define order where "order = RigExecBakedClusterTopologicalOrder clustering"
  let ?n = "length clusters"
  have valid': "clusters_valid clusters" using valid by (simp add: clusters_def)
  note O = topological_order_spec [OF valid, folded order_def clusters_def]
  let ?I = "\<lambda>ys t. length t = ?n \<and> (\<forall>c < ?n. length (t ! c) = set_words ?n \<and>
      bits_of (t ! c) = (if c \<in> set ys then cluster_reach clusters c else {}))"
  have "?I (rev order) (foldl (close_cluster clusters) (replicate ?n (Resize ?n)) (rev order))"
  proof (rule foldl_invariant [where I = ?I])
    fix ys x zs t assume split: "rev order = ys @ x # zs" and I: "?I ys t"
    have order: "order = rev zs @ x # rev ys" using arg_cong [OF split, of rev] by simp
    then have x: "x < ?n" using O(2) by (metis in_set_conv_decomp lessThan_iff)
    let ?succs = "bc_succs (clusters ! x)"
    have succs: "d < ?n" "d \<in> set ys" if d: "d \<in> set ?succs" for d
    proof -
      show "d < ?n" using clusters_validD(4) [OF valid' x d] by blast
      have pred: "x \<in> set (bc_preds (clusters ! d))" using clusters_validD(4) [OF valid' x d] by blast
      have "d \<in> set order" using \<open>d < ?n\<close> O(2) by simp
      then obtain us vs where at_d: "order = us @ d # vs" by (auto simp: in_set_conv_decomp)
      then have "x \<in> set us" using O(3) [of us d vs] pred by blast
      show "d \<in> set ys"
      proof (rule ccontr)
        assume "d \<notin> set ys"
        moreover have "d \<noteq> x"
        proof
          assume "d = x"
          then show False using \<open>x \<in> set us\<close> at_d O(1) by simp
        qed
        ultimately have "d \<in> set (rev zs)" using \<open>d \<in> set order\<close> order by auto
        then obtain ps qs where "rev zs = ps @ d # qs" by (auto simp: in_set_conv_decomp)
        then have "order = ps @ d # (qs @ x # rev ys)" using order by simp
        then have "x \<in> set ps" using O(3) pred by blast
        then show False using O(1) \<open>rev zs = ps @ d # qs\<close> order by auto
      qed
    qed
    have cone: "bits_of (Set_bit (int x) (t ! x)) = insert x (bits_of (t ! x))"
      using I x set_words_bound [OF x] by (simp add: bits_of_Set_bit)
    have fresh: "x \<notin> set ys" using O(1) order by auto
    have "bits_of (close_cluster clusters t x ! x) =
        insert x (\<Union>d \<in> set ?succs. bits_of (t ! d))"
      using I x fresh unfolding close_cluster_def by (simp add: bitsets.join_fold cone)
    also have "\<dots> = cluster_reach clusters x"
      unfolding cluster_reach_unfold [OF x] using I succs by simp
    finally have reach: "bits_of (close_cluster clusters t x ! x) = cluster_reach clusters x" .
    have other: "close_cluster clusters t x ! c = t ! c" if "c \<noteq> x" for c
      using that by (simp add: close_cluster_def)
    have len: "length (close_cluster clusters t x) = ?n" using I by (simp add: close_cluster_def)
    have width: "length (close_cluster clusters t x ! x) = set_words ?n"
      using I x succs(1) unfolding close_cluster_def by (simp add: length_union_fold)
    show "?I (ys @ [x]) (close_cluster clusters t x)"
    proof (intro conjI allI impI len)
      fix c assume c: "c < ?n"
      show "length (close_cluster clusters t x ! c) = set_words ?n"
        using I c width other [of c] by (cases "c = x") simp_all
      show "bits_of (close_cluster clusters t x ! c) = (if c \<in> set (ys @ [x]) then cluster_reach clusters c else {})"
        using I c reach other [of c] by (cases "c = x") simp_all
    qed
  qed simp
  then show ?thesis
    using O(2) unfolding table build_closures_def order_def [symmetric] clusters_def [symmetric] by simp
qed

end
