(* ===== verification/Affected_Index.thy ===== *)
theory Affected_Index
  imports Baked_Closure
begin

text \<open>
  The output-affected index (\<open>outputAffectedIndex.cpp\<close>): for every control the clusters it
  reaches directly, and queries that close them over the cones. A control is named by the
  text of a path or of an override. The walk counter is part of the state: a query answers
  its set and the index with one walk more.
\<close>

section \<open>Control ids\<close>

type_synonym control_id = string

definition RigExecControlIdForPath :: "'p usd_names \<Rightarrow> 'p \<Rightarrow> control_id" where
  "RigExecControlIdForPath u path = nm_path u path"

definition RigExecControlIdForOverride :: "'p usd_names \<Rightarrow> 'p value_override \<Rightarrow> control_id" where
  "RigExecControlIdForOverride u o' = nm_path u (vo_prim o') @ ''|'' @ vo_computation o' @ ''|'' @ vo_attribute o'"

text \<open>What the code asks the library of a path.\<close>

record 'p path_ops =
  po_isEmpty :: "'p \<Rightarrow> bool"
  po_isProperty :: "'p \<Rightarrow> bool"
  po_isPrim :: "'p \<Rightarrow> bool"
  po_primPath :: "'p \<Rightarrow> 'p"
  po_hasPrefix :: "'p \<Rightarrow> 'p \<Rightarrow> bool"
  po_appendProperty :: "'p \<Rightarrow> string \<Rightarrow> 'p"

section \<open>State\<close>

record affected_index =
  ai_clusterCount :: nat
  ai_epochDigest :: "64 word"
  ai_cones :: "cluster_set list"
  ai_always :: cluster_set
  ai_varying :: cluster_set
  ai_override :: cluster_set
  ai_empty :: cluster_set
  ai_seeds :: "(control_id, int list) omap"
  ai_universe :: "control_id list"
  ai_walks :: nat

definition Clear_index :: affected_index where
  "Clear_index = \<lparr> ai_clusterCount = 0, ai_epochDigest = 0, ai_cones = [], ai_always = [], ai_varying = [],
     ai_override = [], ai_empty = [], ai_seeds = [], ai_universe = [], ai_walks = 0 \<rparr>"

definition Empty_index :: "affected_index \<Rightarrow> bool" where
  "Empty_index idx \<longleftrightarrow> ai_clusterCount idx = 0"

definition in_range :: "nat \<Rightarrow> int \<Rightarrow> bool" where
  "in_range n seed \<longleftrightarrow> 0 \<le> seed \<and> nat seed < n"

definition MapControl :: "control_id \<Rightarrow> int list \<Rightarrow> affected_index \<Rightarrow> affected_index" where
  "MapControl control seeds idx =
     (if ai_clusterCount idx = 0 then idx
      else idx\<lparr>ai_seeds := omap_put control (filter (in_range (ai_clusterCount idx)) seeds) (ai_seeds idx),
               ai_universe := insort_insert control (ai_universe idx)\<rparr>)"

definition IsKnownControl :: "control_id \<Rightarrow> affected_index \<Rightarrow> bool" where
  "IsKnownControl control idx \<longleftrightarrow> control \<in> set (ai_universe idx)"

definition ControlUniverse :: "affected_index \<Rightarrow> control_id list" where
  "ControlUniverse idx = ai_universe idx"

definition SeedsForControl :: "control_id \<Rightarrow> affected_index \<Rightarrow> int list" where
  "SeedsForControl control idx = (case map_of (ai_seeds idx) control of None \<Rightarrow> [] | Some seeds \<Rightarrow> seeds)"

section \<open>Queries\<close>

definition walked :: "affected_index \<Rightarrow> affected_index" where
  "walked idx = idx\<lparr>ai_walks := ai_walks idx + 1\<rparr>"

definition AffectedClusters :: "int list \<Rightarrow> affected_index \<Rightarrow> cluster_set \<times> affected_index" where
  "AffectedClusters seeds idx =
     (foldl (\<lambda>out seed. if in_range (ai_clusterCount idx) seed
          then snd (Union_set out (ai_cones idx ! nat seed)) else out) (Resize (ai_clusterCount idx)) seeds,
      walked idx)"

definition AffectedClustersOf :: "cluster_set \<Rightarrow> affected_index \<Rightarrow> cluster_set \<times> affected_index" where
  "AffectedClustersOf seeds idx =
     (foldl (\<lambda>out c. if Test seeds (int c) then snd (Union_set out (ai_cones idx ! c)) else out)
        (Resize (ai_clusterCount idx)) [0..<ai_clusterCount idx],
      walked idx)"

text \<open>One control: foreign, known without an entry, or mapped.\<close>

definition add_control :: "affected_index \<Rightarrow> cluster_set \<Rightarrow> control_id \<Rightarrow> cluster_set" where
  "add_control idx out control =
     (if control \<notin> set (ai_universe idx) then SetAll (ai_clusterCount idx)
      else case map_of (ai_seeds idx) control of
          None \<Rightarrow> out
        | Some seeds \<Rightarrow> foldl (\<lambda>out seed. snd (Union_set out (ai_cones idx ! nat seed))) out seeds)"

definition AffectedByControls :: "control_id list \<Rightarrow> affected_index \<Rightarrow> cluster_set \<times> affected_index" where
  "AffectedByControls controls idx =
     (foldl (add_control idx) (Resize (ai_clusterCount idx)) controls, walked idx)"

definition AllClusters :: "affected_index \<Rightarrow> cluster_set" where
  "AllClusters idx = SetAll (ai_clusterCount idx)"

definition ConeOf :: "int \<Rightarrow> affected_index \<Rightarrow> cluster_set" where
  "ConeOf cluster idx = (if in_range (ai_clusterCount idx) cluster then ai_cones idx ! nat cluster else ai_empty idx)"

section \<open>Seeds of the per-frame inputs\<close>

text \<open>The growing table from an override index to the clusters a change dirties.\<close>

definition add_seed :: "int list list \<Rightarrow> int \<Rightarrow> int \<Rightarrow> int list list" where
  "add_seed table index cluster =
     (if index < 0 then table
      else push_at (nat index) cluster
        (if length table \<le> nat index then table @ replicate (nat index + 1 - length table) [] else table))"

definition step_cluster :: "'p baked_program \<Rightarrow> int \<Rightarrow> int option" where
  "step_cluster B step = (if in_range (length (pg_steps B)) step then Some (st_cluster (pg_steps B ! nat step)) else None)"

definition cluster_count :: "'p baked_program \<Rightarrow> nat" where
  "cluster_count B = length (cg_clusters (pg_clustering B))"

definition seed_binding :: "'p baked_program \<Rightarrow> int list list \<Rightarrow> 'p avar_binding \<Rightarrow> int list list" where
  "seed_binding B table b =
     (let provider = ab_slot b div 11; cones = pg_cones B; n = cluster_count B in
      if length (cn_avarCluster cones) \<le> provider then table
      else let cluster = cn_avarCluster cones ! provider;
               t1 = (if in_range n cluster then add_seed table (ab_overrideIndex b) cluster else table)
           in if length (cn_avarVersionSteps cones) \<le> provider then t1
              else foldl (\<lambda>t step. case step_cluster B step of
                     None \<Rightarrow> t
                   | Some reader \<Rightarrow> if in_range n reader then add_seed t (ab_overrideIndex b) reader else t)
                   t1 (cn_avarVersionSteps cones ! provider))"

definition ops_of_leaf :: "'p baked_program \<Rightarrow> nat list list" where
  "ops_of_leaf B = foldl (\<lambda>table (i, step). foldl (\<lambda>t leaf. push_at leaf i t) table (st_bindingLeaves step))
     (replicate (pg_leafCount B) []) (numbered_steps B)"

definition seed_ladder :: "'p baked_program \<Rightarrow> nat list list \<Rightarrow> int list list \<Rightarrow> int \<Rightarrow> int list list" where
  "seed_ladder B opsOfLeaf table index =
     (if index < 0 \<or> length (pg_leafOfOverride B) \<le> nat index \<or> pg_leafOfOverride B ! nat index < 0 then table
      else let leaf = nat (pg_leafOfOverride B ! nat index) in
        if length opsOfLeaf \<le> leaf then table
        else foldl (\<lambda>t oper. let cluster = st_cluster (pg_steps B ! oper) in
               if in_range (cluster_count B) cluster then add_seed t index cluster else t) table (opsOfLeaf ! leaf))"

definition IndexSeeds :: "'p baked_program \<Rightarrow> int list list" where
  "IndexSeeds B =
     (let t0 = replicate (pg_overriddenCount B) [];
          t1 = foldl (\<lambda>t step. if in_range (cluster_count B) (st_cluster step)
                 then foldl (\<lambda>t input. add_seed t input (st_cluster step)) t (st_overrideInputs step) else t) t0 (pg_steps B);
          t2 = foldl (seed_binding B) t1 (pg_avarBindings B @ pg_avarConstantBindings B)
      in if pg_ladderOverrides B = [] then t2 else foldl (seed_ladder B (ops_of_leaf B)) t2 (pg_ladderOverrides B))"

definition OverridablePathSeeds :: "'p baked_program \<Rightarrow> int list list \<Rightarrow> 'p \<Rightarrow> int list" where
  "OverridablePathSeeds B indexSeeds path =
     (if path \<in> set (pg_folded B) then []
      else case map_of (pg_overridableInputs B) path of
          None \<Rightarrow> []
        | Some indices \<Rightarrow> vec_unique (concat (map (\<lambda>index. if in_range (length indexSeeds) index then indexSeeds ! nat index else [])
            indices)))"

definition RigExecOverrideSeeds :: "'p path_ops \<Rightarrow> 'p baked_program \<Rightarrow> 'p value_override \<Rightarrow> int list" where
  "RigExecOverrideSeeds po B o' =
     (if vo_attribute o' = [] then []
      else OverridablePathSeeds B (IndexSeeds B) (po_appendProperty po (vo_prim o') (vo_attribute o')))"

section \<open>Build\<close>

definition admit :: "affected_index \<Rightarrow> control_id \<times> int list \<Rightarrow> affected_index" where
  "admit idx = (\<lambda>(control, seeds).
     if control = [] then idx
     else idx\<lparr>ai_universe := insort_insert control (ai_universe idx),
              ai_seeds := omap_put control ((case map_of (ai_seeds idx) control of None \<Rightarrow> [] | Some kept \<Rightarrow> kept)
                  @ filter (in_range (ai_clusterCount idx)) seeds) (ai_seeds idx)\<rparr>)"

definition table_at :: "int list list \<Rightarrow> nat \<Rightarrow> int list" where
  "table_at table i = (if i < length table then table ! i else [])"

definition compose_clusters :: "'p baked_program \<Rightarrow> nat \<Rightarrow> int list" where
  "compose_clusters B slot =
     (let cones = pg_cones B in
      (if slot < length (cn_avarCluster cones) then [cn_avarCluster cones ! slot] else []) @
      (if slot < length (cn_avarVersionSteps cones)
       then List.map_filter (step_cluster B) (cn_avarVersionSteps cones ! slot) else []))"

text \<open>What each family of sources admits, in the order of its table.\<close>

definition provider_controls :: "'p usd_names \<Rightarrow> 'p baked_program \<Rightarrow> (control_id \<times> int list) list" where
  "provider_controls u B = map (\<lambda>slot. (RigExecControlIdForPath u (pg_paths B ! slot), compose_clusters B slot))
     [0..<min (length (pg_paths B)) (length (cn_avarCluster (pg_cones B)))]"

definition avar_controls :: "'p usd_names \<Rightarrow> 'p baked_program \<Rightarrow> (control_id \<times> int list) list" where
  "avar_controls u B =
     map (\<lambda>(path, k). (RigExecControlIdForPath u path,
         if k < length (pg_avarConstantBindings B)
         then compose_clusters B (ab_slot (pg_avarConstantBindings B ! k) div 11) else [])) (pg_patchableAvars B) @
     List.map_filter (\<lambda>b. map_option (\<lambda>head. (RigExecControlIdForPath u head, compose_clusters B (ab_slot b div 11))) (ab_head b))
       (pg_avarBindings B)"

definition chain_controls :: "'p usd_names \<Rightarrow> 'p baked_program \<Rightarrow> (control_id \<times> int list) list" where
  "chain_controls u B = map (\<lambda>c. (RigExecControlIdForPath u (ch_target (pg_chains B ! c)),
     table_at (cn_chainBaseClusters (pg_cones B)) c)) [0..<length (pg_chains B)]"

definition solver_controls :: "'p usd_names \<Rightarrow> 'p baked_program \<Rightarrow> (control_id \<times> int list) list" where
  "solver_controls u B = map (\<lambda>(path, si). (RigExecControlIdForPath u path,
     if 0 \<le> si then table_at (cn_solverPointsClusters (pg_cones B)) (nat si) else [])) (pg_solverIndex B)"

definition revision_control :: "'p usd_names \<Rightarrow> 'p baked_program \<Rightarrow> nat \<Rightarrow> (control_id \<times> int list) option" where
  "revision_control u B i =
     (let (chain, revision) = pg_revisionIndex B ! i; cones = pg_cones B in
      if \<not> in_range (length (pg_chains B)) chain then None
      else let movers = ch_moverPaths (pg_chains B ! nat chain) in
        if \<not> in_range (length movers) revision then None
        else Some (RigExecControlIdForPath u (movers ! nat revision),
          table_at (cn_revisionClusters cones) i @
          (if i < length (cn_revisionStaticCluster cones) then [cn_revisionStaticCluster cones ! i] else [])))"

definition revision_controls :: "'p usd_names \<Rightarrow> 'p baked_program \<Rightarrow> (control_id \<times> int list) list" where
  "revision_controls u B = List.map_filter (revision_control u B) [0..<length (pg_revisionIndex B)]"

definition constraint_controls :: "'p usd_names \<Rightarrow> 'p baked_program \<Rightarrow> (control_id \<times> int list) list" where
  "constraint_controls u B =
     map (\<lambda>i. (RigExecControlIdForPath u (pg_nativeSources B ! i), table_at (cn_nativeSourceClusters (pg_cones B)) i))
       [0..<length (pg_nativeSources B)] @
     map (\<lambda>i. (RigExecControlIdForPath u (pg_deltaBasePaths B ! i), table_at (cn_deltaBaseClusters (pg_cones B)) i))
       [0..<length (pg_deltaBasePaths B)] @
     List.map_filter (\<lambda>i. map_option (\<lambda>path. (RigExecControlIdForPath u path,
         table_at (cn_constraintArrayClusters (pg_cones B)) i)) (pg_constraintArrays B ! i))
       [0..<length (pg_constraintArrays B)]"

definition overridable_control ::
  "'p usd_names \<Rightarrow> 'p baked_program \<Rightarrow> int list list \<Rightarrow> 'p \<times> int list \<Rightarrow> (control_id \<times> int list) option" where
  "overridable_control u B indexSeeds = (\<lambda>(path, indices).
     let routes = cn_editRoute (pg_cones B);
         seedable = indices \<noteq> [] \<and>
           (\<forall>index \<in> set indices. (if in_range (length routes) index then routes ! nat index else 0) \<noteq> 0)
     in if \<not> seedable then None
        else let seeds = OverridablePathSeeds B indexSeeds path in
          if seeds = [] then None else Some (RigExecControlIdForPath u path, seeds))"

definition overridable_controls :: "'p usd_names \<Rightarrow> 'p baked_program \<Rightarrow> (control_id \<times> int list) list" where
  "overridable_controls u B = List.map_filter (overridable_control u B (IndexSeeds B)) (pg_overridableInputs B)"

definition all_controls :: "'p usd_names \<Rightarrow> 'p baked_program \<Rightarrow> (control_id \<times> int list) list" where
  "all_controls u B = provider_controls u B @ avar_controls u B @ chain_controls u B @ solver_controls u B @
     revision_controls u B @ constraint_controls u B @ overridable_controls u B"

text \<open>The closures of the clusters of a list of steps.\<close>

definition close_steps :: "'p baked_program \<Rightarrow> cluster_set list \<Rightarrow> int list \<Rightarrow> cluster_set" where
  "close_steps B cones steps = foldl (\<lambda>out step.
     if in_range (length (cg_clusterOf (pg_clustering B))) step
     then let cluster = cg_clusterOf (pg_clustering B) ! nat step in
       if in_range (length cones) cluster then snd (Union_set out (cones ! nat cluster)) else out
     else out) (Resize (cluster_count B)) steps"

definition resize_words :: "nat \<Rightarrow> cluster_set \<Rightarrow> cluster_set" where
  "resize_words n s = take n s @ replicate (n - length s) 0"

definition Build_index :: "'p usd_names \<Rightarrow> 'p baked_program \<Rightarrow> 64 word \<Rightarrow> affected_index" where
  "Build_index u B epoch =
     (let n = cluster_count B; cones = pg_cones B in
      if n = 0 then Clear_index\<lparr>ai_epochDigest := epoch\<rparr>
      else if length (Cone cones) \<noteq> n then Clear_index
      else foldl admit
        (Clear_index\<lparr>ai_clusterCount := n, ai_epochDigest := epoch, ai_cones := Cone cones,
           ai_always := resize_words (set_words n) (cn_always cones), ai_empty := Resize n,
           ai_varying := close_steps B (Cone cones) (cn_varyingSteps cones),
           ai_override := close_steps B (Cone cones) (cn_overrideSteps cones)\<rparr>)
        (all_controls u B))"

section \<open>Notices\<close>

definition add_notice_id :: "'p usd_names \<Rightarrow> 'p path_ops \<Rightarrow> control_id list \<Rightarrow> 'p \<Rightarrow> control_id list" where
  "add_notice_id u po ids path =
     (if po_isEmpty po path then ids
      else let ids1 = insort_insert (nm_path u path) ids in
        if po_isProperty po path then insort_insert (nm_path u (po_primPath po path)) ids1 else ids1)"

text \<open>Whether another entry of the notice stands at or under an info-only prim path; a twin of the
  same path is not more specific.\<close>

definition shadowed :: "'p path_ops \<Rightarrow> 'p list \<Rightarrow> 'p list \<Rightarrow> 'p list \<Rightarrow> nat \<Rightarrow> bool" where
  "shadowed po resynced resolved info i \<longleftrightarrow>
     (\<exists>other \<in> set resynced. po_hasPrefix po other (info ! i)) \<or>
     (\<exists>other \<in> set resolved. po_hasPrefix po other (info ! i)) \<or>
     (\<exists>j < length info. j \<noteq> i \<and> info ! j \<noteq> info ! i \<and> po_hasPrefix po (info ! j) (info ! i))"

definition RigExecNoticeControlIdsFromPaths ::
  "'p usd_names \<Rightarrow> 'p path_ops \<Rightarrow> 'p list \<Rightarrow> 'p list \<Rightarrow> 'p list \<Rightarrow> control_id list" where
  "RigExecNoticeControlIdsFromPaths u po resynced infoOnly resolved =
     foldl (\<lambda>ids i. let path = infoOnly ! i in
         if po_isEmpty po path then ids
         else if po_isPrim po path \<and> shadowed po resynced resolved infoOnly i then ids
         else add_notice_id u po ids path)
       (foldl (add_notice_id u po) (foldl (add_notice_id u po) [] resynced) resolved) [0..<length infoOnly]"

end
