(* ===== verification/Affected_Props.thy ===== *)
theory Affected_Props
  imports Affected_Index
begin

text \<open>
  The output-affected index answers reachability: its invariant under \<open>Build\<close> and \<open>MapControl\<close>,
  and the exact set every query gives, first over an abstract cluster set and then on the
  closures of the cone builder.
\<close>

section \<open>The invariant\<close>

definition index_inv :: "affected_index \<Rightarrow> bool" where
  "index_inv idx \<longleftrightarrow> length (ai_cones idx) = ai_clusterCount idx \<and> omap_wf (ai_seeds idx) \<and>
     sorted (ai_universe idx) \<and> distinct (ai_universe idx) \<and>
     (\<forall>control seeds. map_of (ai_seeds idx) control = Some seeds \<longrightarrow>
        control \<in> set (ai_universe idx) \<and> (\<forall>seed \<in> set seeds. in_range (ai_clusterCount idx) seed)) \<and>
     (\<forall>control \<in> set (ai_universe idx). map_of (ai_seeds idx) control \<noteq> None)"

lemma index_invD:
  assumes "index_inv idx"
  shows "length (ai_cones idx) = ai_clusterCount idx"
    "map_of (ai_seeds idx) control = Some seeds \<Longrightarrow> seed \<in> set seeds \<Longrightarrow> in_range (ai_clusterCount idx) seed"
    "control \<in> set (ai_universe idx) \<longleftrightarrow> (\<exists>seeds. map_of (ai_seeds idx) control = Some seeds)"
  using assms unfolding index_inv_def by (blast, blast, fastforce)

lemma Clear_index_inv: "index_inv Clear_index"
  by (simp add: index_inv_def Clear_index_def)

lemma sorted_distinct_insort_insert:
  "sorted xs \<Longrightarrow> sorted (insort_insert x xs)" "distinct xs \<Longrightarrow> distinct (insort_insert x xs)"
  "set (insort_insert x xs) = insert x (set xs)"
  by (simp_all add: sorted_insort_insert distinct_insort_insert set_insort_insert)

text \<open>Both ways a control is admitted put an entry with seeds in range and the control into the universe.\<close>

lemma put_control_inv:
  assumes "index_inv idx" "\<forall>seed \<in> set seeds. in_range (ai_clusterCount idx) seed"
  shows "index_inv (idx\<lparr>ai_universe := insort_insert control (ai_universe idx), ai_seeds := omap_put control seeds (ai_seeds idx)\<rparr>)"
    "index_inv (idx\<lparr>ai_seeds := omap_put control seeds (ai_seeds idx), ai_universe := insort_insert control (ai_universe idx)\<rparr>)"
  using assms unfolding index_inv_def by (simp_all add: sorted_distinct_insort_insert)

lemma index_admit_inv:
  assumes "index_inv idx"
  shows "index_inv (admit idx cs)" "ai_clusterCount (admit idx cs) = ai_clusterCount idx"
    "ai_cones (admit idx cs) = ai_cones idx" "ai_epochDigest (admit idx cs) = ai_epochDigest idx"
    "ai_always (admit idx cs) = ai_always idx" "ai_varying (admit idx cs) = ai_varying idx"
    "ai_override (admit idx cs) = ai_override idx"
proof -
  obtain control seeds where cs: "cs = (control, seeds)" by fastforce
  define kept where "kept = (case map_of (ai_seeds idx) control of None \<Rightarrow> [] | Some kept \<Rightarrow> kept)
      @ filter (in_range (ai_clusterCount idx)) seeds"
  have "\<forall>seed \<in> set kept. in_range (ai_clusterCount idx) seed"
    using index_invD(2) [OF assms] by (cases "map_of (ai_seeds idx) control") (auto simp: kept_def)
  from put_control_inv(1) [OF assms this] assms show "index_inv (admit idx cs)"
    by (simp add: cs admit_def kept_def [symmetric])
qed (simp_all add: admit_def split: prod.split)

lemma MapControl_inv:
  assumes "index_inv idx"
  shows "index_inv (MapControl control seeds idx)" "ai_clusterCount (MapControl control seeds idx) = ai_clusterCount idx"
    "ai_cones (MapControl control seeds idx) = ai_cones idx"
proof -
  have "\<forall>seed \<in> set (filter (in_range (ai_clusterCount idx)) seeds). in_range (ai_clusterCount idx) seed" by simp
  from put_control_inv(2) [OF assms this, of control] assms show "index_inv (MapControl control seeds idx)"
    by (simp add: MapControl_def)
qed (simp_all add: MapControl_def)

lemma index_admits_inv:
  assumes "index_inv idx"
  shows "index_inv (foldl admit idx cs) \<and> ai_clusterCount (foldl admit idx cs) = ai_clusterCount idx \<and>
    ai_cones (foldl admit idx cs) = ai_cones idx \<and> ai_epochDigest (foldl admit idx cs) = ai_epochDigest idx \<and>
    ai_always (foldl admit idx cs) = ai_always idx \<and> ai_varying (foldl admit idx cs) = ai_varying idx \<and>
    ai_override (foldl admit idx cs) = ai_override idx"
  using assms by (induction cs arbitrary: idx) (simp_all add: index_admit_inv)

text \<open>What the admissions record: the universe and, per control, the seeds of all its entries in
  range.\<close>

lemma admits_seeds:
  assumes "index_inv idx"
  shows "control \<in> set (ai_universe (foldl admit idx cs)) \<longleftrightarrow>
      control \<in> set (ai_universe idx) \<or> control \<noteq> [] \<and> control \<in> fst ` set cs"
    "seed \<in> set (SeedsForControl control (foldl admit idx cs)) \<longleftrightarrow>
      seed \<in> set (SeedsForControl control idx) \<or>
      control \<noteq> [] \<and> in_range (ai_clusterCount idx) seed \<and> (\<exists>seeds. (control, seeds) \<in> set cs \<and> seed \<in> set seeds)"
  using assms
proof (induction cs arbitrary: idx)
  case (Cons e cs)
  obtain c ss where e: "e = (c, ss)" by fastforce
  have uni: "control \<in> set (ai_universe (admit idx e)) \<longleftrightarrow> control \<in> set (ai_universe idx) \<or> control \<noteq> [] \<and> control = c"
    for idx by (auto simp: admit_def e sorted_distinct_insort_insert)
  have seeds: "seed \<in> set (SeedsForControl control (admit idx e)) \<longleftrightarrow>
      seed \<in> set (SeedsForControl control idx) \<or>
      control \<noteq> [] \<and> in_range (ai_clusterCount idx) seed \<and> control = c \<and> seed \<in> set ss" for idx
    by (auto simp: admit_def e SeedsForControl_def split: option.splits)
  {
    case 1
    show ?case unfolding foldl.simps Cons.IH(1) [OF index_admit_inv(1) [OF 1, of e]] uni by (auto simp: e)
  next
    case 2
    show ?case unfolding foldl.simps Cons.IH(2) [OF index_admit_inv(1) [OF 2, of e]] seeds index_admit_inv(2) [OF 2] by (auto simp: e)
  }
qed simp_all

text \<open>The state \<open>Build\<close> admits the sources into.\<close>

definition index_start :: "'p baked_program \<Rightarrow> 64 word \<Rightarrow> affected_index" where
  "index_start B epoch = Clear_index\<lparr>ai_clusterCount := cluster_count B, ai_epochDigest := epoch,
      ai_cones := Cone (pg_cones B), ai_always := resize_words (set_words (cluster_count B)) (cn_always (pg_cones B)),
      ai_empty := Resize (cluster_count B),
      ai_varying := close_steps B (Cone (pg_cones B)) (cn_varyingSteps (pg_cones B)),
      ai_override := close_steps B (Cone (pg_cones B)) (cn_overrideSteps (pg_cones B))\<rparr>"

lemma index_start_simps [simp]:
  "ai_clusterCount (index_start B epoch) = cluster_count B" "ai_cones (index_start B epoch) = Cone (pg_cones B)"
  "ai_seeds (index_start B epoch) = []" "ai_universe (index_start B epoch) = []"
  by (simp_all add: index_start_def Clear_index_def)

lemma Build_index_eq: "Build_index u B epoch =
   (if cluster_count B = 0 then Clear_index\<lparr>ai_epochDigest := epoch\<rparr>
    else if length (Cone (pg_cones B)) \<noteq> cluster_count B then Clear_index
    else foldl admit (index_start B epoch) (all_controls u B))"
  by (simp add: Build_index_def index_start_def Let_def)

lemma index_start_inv: "length (Cone (pg_cones B)) = cluster_count B \<Longrightarrow> index_inv (index_start B epoch)"
  by (simp add: index_inv_def)

lemma Build_index_inv:
  "index_inv (Build_index u B epoch)"
  "ai_clusterCount (Build_index u B epoch) =
     (if length (Cone (pg_cones B)) = cluster_count B then cluster_count B else 0)"
  "ai_clusterCount (Build_index u B epoch) \<noteq> 0 \<Longrightarrow> ai_cones (Build_index u B epoch) = Cone (pg_cones B)"
proof -
  note I = index_admits_inv [OF index_start_inv [of B epoch], of "all_controls u B"]
  have empty: "index_inv (Clear_index\<lparr>ai_epochDigest := epoch\<rparr>)" by (simp add: index_inv_def Clear_index_def)
  show "index_inv (Build_index u B epoch)"
    unfolding Build_index_eq using I Clear_index_inv empty by simp
  show "ai_clusterCount (Build_index u B epoch) = (if length (Cone (pg_cones B)) = cluster_count B then cluster_count B else 0)"
    unfolding Build_index_eq using I by (simp add: Clear_index_def)
  show "ai_cones (Build_index u B epoch) = Cone (pg_cones B)" if "ai_clusterCount (Build_index u B epoch) \<noteq> 0"
    using that I unfolding Build_index_eq by (auto simp: Clear_index_def split: if_splits)
qed

lemma Build_index_seeds:
  assumes "length (Cone (pg_cones B)) = cluster_count B" "cluster_count B \<noteq> 0"
  shows "seed \<in> set (SeedsForControl control (Build_index u B epoch)) \<longleftrightarrow> control \<noteq> [] \<and>
     in_range (cluster_count B) seed \<and> (\<exists>seeds. (control, seeds) \<in> set (all_controls u B) \<and> seed \<in> set seeds)"
proof -
  have "Build_index u B epoch = foldl admit (index_start B epoch) (all_controls u B)" using assms by (simp add: Build_index_eq)
  then show ?thesis
    using admits_seeds(2) [OF index_start_inv [OF assms(1), of epoch], of seed control "all_controls u B"]
    by (simp add: SeedsForControl_def)
qed

section \<open>Queries\<close>

text \<open>What one control adds, as a set.\<close>

definition control_reach :: "affected_index \<Rightarrow> control_id \<Rightarrow> nat set" where
  "control_reach idx control = (\<Union>seed \<in> set (SeedsForControl control idx). bits_of (ai_cones idx ! nat seed))"

lemma add_control_bits:
  assumes "index_inv idx"
  shows "bits_of (add_control idx out control) =
    (if IsKnownControl control idx then bits_of out \<union> control_reach idx control else {..<ai_clusterCount idx})"
proof (cases "IsKnownControl control idx")
  case True
  then obtain seeds where "map_of (ai_seeds idx) control = Some seeds"
    using index_invD(3) [OF assms] by (auto simp: IsKnownControl_def)
  then show ?thesis
    using True by (simp add: add_control_def IsKnownControl_def control_reach_def SeedsForControl_def bitsets.join_fold)
next
  case False
  then show ?thesis by (simp add: add_control_def IsKnownControl_def)
qed

lemma seed_in_range:
  assumes "index_inv idx" "seed \<in> set (SeedsForControl control idx)"
  shows "in_range (ai_clusterCount idx) seed"
proof (cases "map_of (ai_seeds idx) control")
  case (Some seeds)
  then show ?thesis using index_invD(2) [OF assms(1) Some] assms(2) by (simp add: SeedsForControl_def)
qed (use assms(2) in \<open>simp add: SeedsForControl_def\<close>)

lemma control_reach_range:
  assumes "index_inv idx" "\<forall>c < ai_clusterCount idx. bits_of (ai_cones idx ! c) \<subseteq> {..<ai_clusterCount idx}"
  shows "control_reach idx control \<subseteq> {..<ai_clusterCount idx}"
proof -
  have "bits_of (ai_cones idx ! nat seed) \<subseteq> {..<ai_clusterCount idx}" if "seed \<in> set (SeedsForControl control idx)" for seed
    using seed_in_range [OF assms(1) that] assms(2) by (simp add: in_range_def)
  then show ?thesis unfolding control_reach_def by blast
qed

text \<open>The fold: a foreign control makes the set full and it stays full.\<close>

lemma AffectedByControls_bits:
  assumes inv: "index_inv idx" and cones: "\<forall>c < ai_clusterCount idx. bits_of (ai_cones idx ! c) \<subseteq> {..<ai_clusterCount idx}"
  shows "bits_of (fst (AffectedByControls controls idx)) =
    (if \<forall>control \<in> set controls. IsKnownControl control idx then \<Union>control \<in> set controls. control_reach idx control
     else {..<ai_clusterCount idx})"
proof -
  note sub = control_reach_range [OF inv cones]
  have "bits_of (foldl (add_control idx) (Resize (ai_clusterCount idx)) controls) =
      (if \<forall>control \<in> set controls. IsKnownControl control idx then \<Union>control \<in> set controls. control_reach idx control
       else {..<ai_clusterCount idx})"
  proof (induction controls rule: rev_induct)
    case (snoc control controls)
    have all: "\<Union>(control_reach idx ` set controls) \<union> control_reach idx control \<subseteq> {..<ai_clusterCount idx}"
      using sub by blast
    show ?case
      unfolding foldl_append foldl.simps add_control_bits [OF inv] snoc
      using sub [of control] all by auto
  qed simp
  then show ?thesis by (simp add: AffectedByControls_def)
qed

lemma AffectedClusters_bits:
  "bits_of (fst (AffectedClusters seeds idx)) =
     (\<Union>seed \<in> {seed \<in> set seeds. in_range (ai_clusterCount idx) seed}. bits_of (ai_cones idx ! nat seed))"
  by (simp add: AffectedClusters_def bitsets.join_fold_if)

lemma AffectedClustersOf_bits:
  "bits_of (fst (AffectedClustersOf seeds idx)) =
     (\<Union>c \<in> bits_of seeds \<inter> {..<ai_clusterCount idx}. bits_of (ai_cones idx ! c))"
  by (auto simp: AffectedClustersOf_def bitsets.join_fold_if Test_bits)

section \<open>The index of a built program\<close>

lemma built_cones:
  assumes valid: "clusters_valid (cg_clusters (pg_clustering B))" and some: "cluster_count B \<noteq> 0"
    and built: "B' = RigExecBakedBuildCones resolved B"
  shows "length (Cone (pg_cones B')) = cluster_count B'" "cluster_count B' = cluster_count B"
    "cg_clusters (pg_clustering B') = cg_clusters (pg_clustering B)"
    "c < cluster_count B \<Longrightarrow> bits_of (Cone (pg_cones B') ! c) = cluster_reach (cg_clusters (pg_clustering B)) c"
proof -
  let ?table = "build_closures (cg_clusters (pg_clustering B)) (RigExecBakedClusterTopologicalOrder (pg_clustering B))"
  have cone: "Cone (pg_cones B') = ?table"
    using some unfolding built by (simp add: RigExecBakedBuildCones_def Let_def Cone_def cluster_count_def)
  show clusters: "cg_clusters (pg_clustering B') = cg_clusters (pg_clustering B)"
    unfolding built by (simp add: RigExecBakedBuildCones_def Let_def)
  then show count: "cluster_count B' = cluster_count B" by (simp add: cluster_count_def)
  have table: "length ?table = cluster_count B" "\<And>c. c < cluster_count B \<Longrightarrow> bits_of (?table ! c) = cluster_reach (cg_clusters (pg_clustering B)) c"
    using build_closures_spec [OF valid, of ?table, OF refl] by (auto simp: cluster_count_def)
  show "length (Cone (pg_cones B')) = cluster_count B'" by (simp only: cone count table(1))
  show "c < cluster_count B \<Longrightarrow> bits_of (Cone (pg_cones B') ! c) = cluster_reach (cg_clusters (pg_clustering B)) c"
    by (simp only: cone table(2))
qed

text \<open>An index built from such a program and then extended by explicit mappings.\<close>

definition mapped_index :: "(control_id \<times> int list) list \<Rightarrow> affected_index \<Rightarrow> affected_index" where
  "mapped_index maps idx = foldl (\<lambda>idx (control, seeds). MapControl control seeds idx) idx maps"

lemma mapped_index_inv:
  assumes "index_inv idx"
  shows "index_inv (mapped_index maps idx) \<and> ai_clusterCount (mapped_index maps idx) = ai_clusterCount idx \<and>
    ai_cones (mapped_index maps idx) = ai_cones idx"
  using assms
  by (induction maps arbitrary: idx) (auto simp: mapped_index_def MapControl_inv)

lemma built_index:
  assumes valid: "clusters_valid (cg_clusters (pg_clustering B))" and some: "cluster_count B \<noteq> 0"
    and idx: "idx = mapped_index maps (Build_index u (RigExecBakedBuildCones resolved B) epoch)"
  shows "index_inv idx" "ai_clusterCount idx = cluster_count B"
    "c < cluster_count B \<Longrightarrow> bits_of (ai_cones idx ! c) = cluster_reach (cg_clusters (pg_clustering B)) c"
    "\<forall>c < ai_clusterCount idx. bits_of (ai_cones idx ! c) \<subseteq> {..<ai_clusterCount idx}"
proof -
  note built = built_cones [OF valid some refl, where resolved = resolved]
  note I = Build_index_inv [of u "RigExecBakedBuildCones resolved B" epoch]
  have count: "ai_clusterCount (Build_index u (RigExecBakedBuildCones resolved B) epoch) = cluster_count B"
    using I(2) built(1,2) by simp
  have cones: "ai_cones (Build_index u (RigExecBakedBuildCones resolved B) epoch) = Cone (pg_cones (RigExecBakedBuildCones resolved B))"
    using I(3) count some by simp
  note M = mapped_index_inv [OF I(1), of maps, folded idx]
  show "index_inv idx" "ai_clusterCount idx = cluster_count B" using M count by simp_all
  show reach: "bits_of (ai_cones idx ! c) = cluster_reach (cg_clusters (pg_clustering B)) c" if "c < cluster_count B" for c
    using M cones built(4) [OF that] by simp
  show "\<forall>c < ai_clusterCount idx. bits_of (ai_cones idx ! c) \<subseteq> {..<ai_clusterCount idx}"
    using reach cluster_reach_range [OF valid] M count by (simp add: cluster_count_def)
qed

end
