(* ===== verification/Affected_Sources.thy ===== *)
theory Affected_Sources
  imports Affected_Props
begin

text \<open>
  From a source to the clusters that read it: what the passes of the cone builder record of
  the steps that read a source, that no later pass takes it away, and which clusters the
  per-frame inputs seed.
\<close>

section \<open>Tables only grow\<close>

definition table_le :: "'a list list \<Rightarrow> 'a list list \<Rightarrow> bool" where
  "table_le = list_all2 (\<lambda>xs ys. set xs \<subseteq> set ys)"

lemma table_le_refl [simp]: "table_le t t"
  by (simp add: table_le_def list_all2_refl)

lemma table_le_trans: "table_le s t \<Longrightarrow> table_le t v \<Longrightarrow> table_le s v"
  unfolding table_le_def by (rule list_all2_trans [where ?P1.0 = "\<lambda>xs ys. set xs \<subseteq> set ys"]) auto

lemma table_le_nth:
  assumes "table_le t t'"
  shows "length t' = length t" "k < length t \<Longrightarrow> x \<in> set (t ! k) \<Longrightarrow> x \<in> set (t' ! k)"
  using assms by (auto simp: table_le_def list_all2_conv_all_nth)

lemma table_le_push [simp]:
  "table_le t (push_at n x t)" "table_le t (push_int i x t)" "table_le t (push_range r x t)"
  by (auto simp: table_le_def list_all2_conv_all_nth)

definition cones_le :: "baked_cones \<Rightarrow> baked_cones \<Rightarrow> bool" where
  "cones_le c c' \<longleftrightarrow> table_le (cn_chainBaseClusters c) (cn_chainBaseClusters c') \<and>
     table_le (cn_solverPointsClusters c) (cn_solverPointsClusters c') \<and>
     table_le (cn_revisionClusters c) (cn_revisionClusters c') \<and>
     table_le (cn_nativeSourceClusters c) (cn_nativeSourceClusters c') \<and>
     table_le (cn_avarVersionSteps c) (cn_avarVersionSteps c') \<and>
     table_le (cn_deltaBaseClusters c) (cn_deltaBaseClusters c') \<and>
     table_le (cn_constraintArrayClusters c) (cn_constraintArrayClusters c')"

lemma cones_le_refl [simp]: "cones_le c c"
  by (simp add: cones_le_def)

lemma cones_le_trans: "cones_le a b \<Longrightarrow> cones_le b c \<Longrightarrow> cones_le a c"
  unfolding cones_le_def by (blast intro: table_le_trans)

lemma cones_leD:
  assumes "cones_le c c'"
  shows "table_le (cn_chainBaseClusters c) (cn_chainBaseClusters c')"
    "table_le (cn_solverPointsClusters c) (cn_solverPointsClusters c')"
    "table_le (cn_revisionClusters c) (cn_revisionClusters c')"
    "table_le (cn_nativeSourceClusters c) (cn_nativeSourceClusters c')"
    "table_le (cn_avarVersionSteps c) (cn_avarVersionSteps c')"
    "table_le (cn_deltaBaseClusters c) (cn_deltaBaseClusters c')"
    "table_le (cn_constraintArrayClusters c) (cn_constraintArrayClusters c')"
  using assms by (simp_all add: cones_le_def)

text \<open>A pass that only grows the tables grows them, and what one step records survives the rest.\<close>

definition listed :: "'a list list \<Rightarrow> nat \<Rightarrow> 'a \<Rightarrow> bool" where
  "listed table k x \<longleftrightarrow> k < length table \<and> x \<in> set (table ! k)"

lemma listed_mono: "table_le t t' \<Longrightarrow> listed t k x \<Longrightarrow> listed t' k x"
  using table_le_nth(1) [of t t'] table_le_nth(2) [of t t' k x] by (simp add: listed_def)

lemma listed_push:
  "n < length t \<Longrightarrow> listed (push_at n x t) n x" "n < length t \<Longrightarrow> listed (push_int (int n) x t) n x"
  "n < length t \<Longrightarrow> sr_begin r \<le> n \<Longrightarrow> n < sr_end r \<Longrightarrow> listed (push_range r x t) n x"
  by (simp_all add: listed_def)

lemma cones_le_fold:
  assumes "\<And>c e. cones_le c (f c e)"
  shows "cones_le c (foldl f c es)"
proof (induction es arbitrary: c)
  case (Cons e es)
  show ?case using cones_le_trans [OF assms [of c e] Cons] by simp
qed simp

lemma fold_records:
  assumes grow: "\<And>c e. cones_le c (f c e)" and mem: "e \<in> set es"
    and mono: "\<And>c c'. cones_le c c' \<Longrightarrow> table_le (tab c) (tab c')"
    and rec: "\<And>c'. length (tab c') = length (tab c) \<Longrightarrow> listed (tab (f c' e)) k x"
  shows "listed (tab (foldl f c es)) k x"
proof -
  obtain xs ys where split: "es = xs @ e # ys" using mem by (auto simp: in_set_conv_decomp)
  have "length (tab (foldl f c xs)) = length (tab c)"
    by (rule table_le_nth(1) [OF mono [OF cones_le_fold [OF grow]]])
  then have "listed (tab (f (foldl f c xs) e)) k x" by (rule rec)
  from listed_mono [OF mono [OF cones_le_fold [OF grow]] this] show ?thesis by (simp add: split)
qed

section \<open>The passes\<close>

definition note_read :: "nat \<Rightarrow> baked_step \<Rightarrow> baked_cones \<Rightarrow> slot_range \<Rightarrow> baked_cones" where
  "note_read index step c r =
     (if sr_domain r = D_ChainBase
      then c\<lparr>cn_chainBaseClusters := push_range r (st_cluster step) (cn_chainBaseClusters c),
             cn_chainBaseSteps := push_range r (int index) (cn_chainBaseSteps c)\<rparr>
      else if sr_domain r = D_SolverPoints
      then c\<lparr>cn_solverPointsClusters := push_range r (st_cluster step) (cn_solverPointsClusters c),
             cn_solverPointsSteps := push_range r (int index) (cn_solverPointsSteps c)\<rparr>
      else c)"

lemma note_source_reads_fold: "note_source_reads c (index, step) = foldl (note_read index step) c (st_reads step)"
  by (simp add: note_source_reads_def note_read_def [abs_def])

lemma note_read_le: "cones_le c (note_read index step c r)"
  by (simp add: note_read_def cones_le_def)

text \<open>The slots of one range the compose pass marks with a reading step.\<close>

definition push_outside :: "compose_group \<Rightarrow> int \<Rightarrow> int list list \<Rightarrow> slot_range \<Rightarrow> int list list" where
  "push_outside g index table r =
     (if sr_domain r \<noteq> D_Avars then table
      else foldl (\<lambda>t slot. if int slot < gr_begin g \<or> gr_end g \<le> int slot then push_at slot index t else t)
             table [sr_begin r..<min (sr_end r) (length table)])"

lemma table_le_fold:
  assumes "\<And>t x. table_le t (f t x)"
  shows "table_le t (foldl f t xs)"
proof (induction xs arbitrary: t)
  case (Cons x xs)
  show ?case using table_le_trans [OF assms [of t x] Cons] by simp
qed simp

lemma push_outside_le: "table_le t (push_outside g index t r)"
  unfolding push_outside_def by (simp add: table_le_fold)

lemma push_outside_listed:
  assumes "k < length t" "sr_domain r = D_Avars" "sr_begin r \<le> k" "k < sr_end r" "int k < gr_begin g \<or> gr_end g \<le> int k"
  shows "listed (push_outside g index t r) k index"
proof -
  let ?f = "\<lambda>t slot. if int slot < gr_begin g \<or> gr_end g \<le> int slot then push_at slot index t else t"
  have "k \<in> set [sr_begin r..<min (sr_end r) (length t)]" using assms by simp
  from split_list [OF this] obtain xs ys where split: "[sr_begin r..<min (sr_end r) (length t)] = xs @ k # ys" by blast
  have le: "table_le t (foldl ?f t xs)" for t xs by (rule table_le_fold) simp
  have "listed (?f (foldl ?f t xs) k) k index"
    using assms(1,5) table_le_nth(1) [OF le [of t xs]] by (simp add: listed_push)
  from listed_mono [OF le this] show ?thesis using assms(2) by (simp add: push_outside_def split)
qed

lemma note_compose_versions:
  "cn_avarVersionSteps (note_compose B c (index, step)) =
     (if st_kind step = K_ComposeSubtree
      then foldl (push_outside (pg_composeGroups B ! nat (st_object step)) (int index)) (cn_avarVersionSteps c) (st_reads step)
      else cn_avarVersionSteps c)"
  by (simp add: note_compose_def Let_def push_outside_def [abs_def])

lemma note_compose_le: "cones_le c (note_compose B c e)"
proof (cases e)
  case (Pair index step)
  have "table_le (cn_avarVersionSteps c) (cn_avarVersionSteps (note_compose B c (index, step)))"
    unfolding note_compose_versions by (simp add: table_le_fold push_outside_le)
  then show ?thesis unfolding Pair cones_le_def by (simp add: note_compose_def Let_def)
qed

lemma note_source_reads_le: "cones_le c (note_source_reads c e)"
  by (cases e) (simp add: note_source_reads_fold cones_le_fold note_read_le)

lemma note_revision_le: "cones_le c (note_revision c e)"
  by (cases e) (simp add: note_revision_def cones_le_def Let_def)

lemma note_sources_le: "cones_le c (note_sources B c e)"
  unfolding note_sources_def
  by (rule cones_le_trans [OF cones_le_trans [OF note_compose_le note_source_reads_le] note_revision_le])

lemma note_reader_range_le: "cones_le c (note_reader_range index c r)"
  unfolding note_reader_range_def by (cases "sr_domain r") (simp_all add: cones_le_def)

lemma push_walk_le: "cones_le c (c\<lparr>cn_walkReaders := push_int walk x (cn_walkReaders c)\<rparr>)"
  by (simp add: cones_le_def)

lemma note_readers_le: "cones_le c (note_readers c e)"
proof (cases e)
  case (Pair index step)
  let ?c1 = "if st_kind step = K_WeightField
      then c\<lparr>cn_fieldSteps := put_int (st_object step) (int index) (cn_fieldSteps c)\<rparr> else c"
  have "cones_le c ?c1" by (simp add: cones_le_def)
  then have "cones_le c (foldl (\<lambda>c walk. c\<lparr>cn_walkReaders := push_int walk (int index) (cn_walkReaders c)\<rparr>)
      (foldl (note_reader_range index) ?c1 (st_reads step)) (st_readerWalks step))"
    by (rule cones_le_trans [OF cones_le_trans [OF _ cones_le_fold [OF note_reader_range_le]] cones_le_fold [OF push_walk_le]])
  then show ?thesis by (simp add: Pair note_readers_def Let_def)
qed

lemma push_native_le: "cones_le c (push_native index cluster c native)"
  by (simp add: push_native_def cones_le_def)

lemma note_constraint_le: "cones_le c (note_constraint B c e)"
proof (cases e)
  case (Pair index step)
  define constraint where "constraint = pg_constraints B ! nat (ws_index (pg_walkSteps B ! nat (st_object step)))"
  define c2 where "c2 = push_native index (st_cluster step)
      (foldl (push_native index (st_cluster step)) c (ct_sourceNatives constraint)) (ct_worldUpNative constraint)"
  have "cones_le c c2"
    unfolding c2_def by (rule cones_le_trans [OF cones_le_fold [OF push_native_le] push_native_le])
  then show ?thesis
    by (simp add: Pair note_constraint_def Let_def constraint_def [symmetric] c2_def [symmetric])
      (auto simp: cones_le_def intro: table_le_trans)
qed

section \<open>What a step records\<close>

definition covers :: "slot_domain \<Rightarrow> nat \<Rightarrow> baked_step \<Rightarrow> bool" where
  "covers domain k step \<longleftrightarrow> (\<exists>r \<in> set (st_reads step). sr_domain r = domain \<and> sr_begin r \<le> k \<and> k < sr_end r)"

definition native_read :: "'p baked_program \<Rightarrow> nat \<Rightarrow> baked_step \<Rightarrow> bool" where
  "native_read B k step \<longleftrightarrow> st_kind step = K_Constraint \<and>
     (let walk = pg_walkSteps B ! nat (st_object step); constraint = pg_constraints B ! nat (ws_index walk)
      in \<not> ws_solverBatch walk \<and> 0 \<le> ws_index walk \<and>
         (int k \<in> set (ct_sourceNatives constraint) \<or> int k = ct_worldUpNative constraint))"

text \<open>One declared read, for either table of the loop over the reads.\<close>

lemma reads_record:
  assumes k: "k < length (tab c)" and cov: "covers domain k step"
    and mono: "\<And>c c'. cones_le c c' \<Longrightarrow> table_le (tab c) (tab c')"
    and one: "\<And>c r. sr_domain r = domain \<Longrightarrow> tab (note_read i step c r) = push_range r (st_cluster step) (tab c)"
  shows "listed (tab (note_sources B c (i, step))) k (st_cluster step)"
proof -
  obtain r where r: "r \<in> set (st_reads step)" "sr_domain r = domain" "sr_begin r \<le> k" "k < sr_end r"
    using cov by (auto simp: covers_def)
  let ?c1 = "note_compose B c (i, step)"
  have k1: "k < length (tab ?c1)" using k table_le_nth(1) [OF mono [OF note_compose_le [of c B "(i, step)"]]] by simp
  have "listed (tab (foldl (note_read i step) ?c1 (st_reads step))) k (st_cluster step)"
  proof (rule fold_records [where tab = tab, OF note_read_le r(1) mono])
    show "listed (tab (note_read i step c' r)) k (st_cluster step)" if "length (tab c') = length (tab ?c1)" for c'
      unfolding one [OF r(2)] using that k1 r by (simp add: listed_push)
  qed
  then have "listed (tab (note_source_reads ?c1 (i, step))) k (st_cluster step)" by (simp add: note_source_reads_fold)
  then show ?thesis unfolding note_sources_def by (rule listed_mono [OF mono [OF note_revision_le]])
qed

definition revision_kinds :: "step_kind set" where
  "revision_kinds = {K_RevisionStatic, K_InfluenceFold, K_RevisionChunk, K_RevisionFuse}"

lemma revision_records:
  assumes k: "k < length (cn_revisionClusters c)" and kind: "st_object step = int k" "st_kind step \<in> revision_kinds"
  shows "listed (cn_revisionClusters (note_sources B c (i, step))) k (st_cluster step)"
proof -
  let ?c2 = "note_source_reads (note_compose B c (i, step)) (i, step)"
  have "cones_le c ?c2" by (rule cones_le_trans [OF note_compose_le note_source_reads_le])
  from table_le_nth(1) [OF cones_leD(3) [OF this]] k have "k < length (cn_revisionClusters ?c2)" by simp
  then show ?thesis
    using kind by (auto simp: note_sources_def note_revision_def Let_def revision_kinds_def listed_push)
qed

lemma constraint_records:
  assumes k: "k < length (cn_nativeSourceClusters c)" and read: "native_read B k step"
  shows "listed (cn_nativeSourceClusters (note_constraint B c (i, step))) k (st_cluster step)"
proof -
  let ?walk = "pg_walkSteps B ! nat (st_object step)"
  define constraint where "constraint = pg_constraints B ! nat (ws_index ?walk)"
  define push where "push = push_native i (st_cluster step)"
  define c1 where "c1 = foldl push c (ct_sourceNatives constraint)"
  define c2 where "c2 = push c1 (ct_worldUpNative constraint)"
  have le: "cones_le c (push c native)" for c native unfolding push_def by (rule push_native_le)
  have rec: "listed (cn_nativeSourceClusters (push c' (int k))) k (st_cluster step)"
    if "length (cn_nativeSourceClusters c') = length (cn_nativeSourceClusters c)" for c'
    using that k by (simp add: push_def push_native_def listed_push)
  have "listed (cn_nativeSourceClusters c2) k (st_cluster step)"
  proof (cases "int k \<in> set (ct_sourceNatives constraint)")
    case True
    have "listed (cn_nativeSourceClusters c1) k (st_cluster step)"
      unfolding c1_def by (rule fold_records [where tab = cn_nativeSourceClusters and f = push, OF le True cones_leD(4) rec])
    then show ?thesis unfolding c2_def by (rule listed_mono [OF cones_leD(4) [OF le]])
  next
    case False
    then have "int k = ct_worldUpNative constraint"
      using read by (simp add: native_read_def Let_def constraint_def [symmetric])
    moreover have "cones_le c c1" unfolding c1_def by (rule cones_le_fold [OF le])
    ultimately show ?thesis unfolding c2_def using rec [OF table_le_nth(1) [OF cones_leD(4)]] by simp
  qed
  moreover have "cn_nativeSourceClusters (note_constraint B c (i, step)) = cn_nativeSourceClusters c2"
    using read
    by (simp add: native_read_def note_constraint_def Let_def constraint_def [symmetric] push_def [symmetric]
        c1_def [symmetric] c2_def [symmetric])
  ultimately show ?thesis by simp
qed

definition delta_read :: "'p baked_program \<Rightarrow> nat \<Rightarrow> baked_step \<Rightarrow> bool" where
  "delta_read B k step \<longleftrightarrow> st_kind step = K_Constraint \<and>
     (let walk = pg_walkSteps B ! nat (st_object step); constraint = pg_constraints B ! nat (ws_index walk)
      in \<not> ws_solverBatch walk \<and> 0 \<le> ws_index walk \<and> ct_deltaBase constraint = int k)"

definition array_read :: "'p baked_program \<Rightarrow> nat \<Rightarrow> baked_step \<Rightarrow> bool" where
  "array_read B k step \<longleftrightarrow> st_kind step = K_Constraint \<and>
     (let walk = pg_walkSteps B ! nat (st_object step); constraint = pg_constraints B ! nat (ws_index walk)
      in \<not> ws_solverBatch walk \<and> 0 \<le> ws_index walk \<and> ct_arrays constraint = int k)"

lemma foldl_select: "(\<And>c e. sel (f c e) = sel c) \<Longrightarrow> sel (foldl f c es) = sel c"
  by (induction es arbitrary: c) simp_all

lemma delta_records:
  assumes k: "k < length (cn_deltaBaseClusters c)" and read: "delta_read B k step"
  shows "listed (cn_deltaBaseClusters (note_constraint B c (i, step))) k (st_cluster step)"
proof -
  have "cn_deltaBaseClusters (foldl (push_native i cl) c ns) = cn_deltaBaseClusters c" for c cl ns
    by (rule foldl_select) (simp add: push_native_def)
  then show ?thesis
    using k read by (simp add: delta_read_def note_constraint_def Let_def push_native_def listed_push)
qed

lemma array_records:
  assumes k: "k < length (cn_constraintArrayClusters c)" and read: "array_read B k step"
  shows "listed (cn_constraintArrayClusters (note_constraint B c (i, step))) k (st_cluster step)"
proof -
  have "cn_constraintArrayClusters (foldl (push_native i cl) c ns) = cn_constraintArrayClusters c" for c cl ns
    by (rule foldl_select) (simp add: push_native_def)
  then show ?thesis
    using k read by (simp add: array_read_def note_constraint_def Let_def push_native_def listed_push)
qed

text \<open>The compose steps: those that read an avar from outside their group, and the step that composes
  the avars of a provider.\<close>

definition version_read :: "'p baked_program \<Rightarrow> nat \<Rightarrow> baked_step \<Rightarrow> bool" where
  "version_read B k step \<longleftrightarrow> st_kind step = K_ComposeSubtree \<and> covers D_Avars k step \<and>
     (let g = pg_composeGroups B ! nat (st_object step) in int k < gr_begin g \<or> gr_end g \<le> int k)"

lemma version_records:
  assumes k: "k < length (cn_avarVersionSteps c)" and read: "version_read B k step"
  shows "listed (cn_avarVersionSteps (note_sources B c (i, step))) k (int i)"
proof -
  let ?g = "pg_composeGroups B ! nat (st_object step)" and ?t = "cn_avarVersionSteps c"
  obtain r where r: "r \<in> set (st_reads step)" "sr_domain r = D_Avars" "sr_begin r \<le> k" "k < sr_end r"
    and out: "int k < gr_begin ?g \<or> gr_end ?g \<le> int k" and kind: "st_kind step = K_ComposeSubtree"
    using read by (auto simp: version_read_def covers_def Let_def)
  obtain xs ys where split: "st_reads step = xs @ r # ys" using r(1) by (auto simp: in_set_conv_decomp)
  have le: "table_le t (foldl (push_outside ?g (int i)) t rs)" for t rs by (rule table_le_fold) (rule push_outside_le)
  have "listed (push_outside ?g (int i) (foldl (push_outside ?g (int i)) ?t xs) r) k (int i)"
    by (rule push_outside_listed [OF _ r(2-4) out]) (simp add: k table_le_nth(1) [OF le])
  from listed_mono [OF le this]
  have "listed (cn_avarVersionSteps (note_compose B c (i, step))) k (int i)"
    using kind by (simp add: note_compose_versions split)
  from listed_mono [OF cones_leD(5) [OF note_source_reads_le] this]
  show ?thesis unfolding note_sources_def by (rule listed_mono [OF cones_leD(5) [OF note_revision_le]])
qed

lemma note_sources_avar:
  "cn_avarCluster (note_sources B c (i, step)) =
     (if st_kind step = K_AvarInputs then put_int (st_object step) (st_cluster step) (cn_avarCluster c) else cn_avarCluster c)"
proof -
  have reads: "cn_avarCluster (foldl (note_read i step) c rs) = cn_avarCluster c" for c rs
    by (induction rs arbitrary: c) (simp_all add: note_read_def)
  show ?thesis
    by (simp add: note_sources_def note_source_reads_fold note_revision_def note_compose_def reads Let_def)
qed

definition composes :: "nat \<Rightarrow> baked_step \<Rightarrow> bool" where
  "composes k step \<longleftrightarrow> st_kind step = K_AvarInputs \<and> st_object step = int k"

lemma avar_records:
  assumes k: "k < length (cn_avarCluster c)"
    and agree: "\<forall>(i, step) \<in> set es. composes k step \<longrightarrow> st_cluster step = cluster"
    and some: "\<exists>(i, step) \<in> set es. composes k step"
  shows "cn_avarCluster (foldl (note_sources B) c es) ! k = cluster"
    "length (cn_avarCluster (foldl (note_sources B) c es)) = length (cn_avarCluster c)"
proof -
  let ?I = "\<lambda>ys (c' :: baked_cones). length (cn_avarCluster c') = length (cn_avarCluster c) \<and>
      ((\<exists>(i, step) \<in> set ys. composes k step) \<longrightarrow> cn_avarCluster c' ! k = cluster)"
  have "?I es (foldl (note_sources B) c es)"
  proof (rule foldl_invariant [where I = ?I])
    fix ys x zs c' assume split: "es = ys @ x # zs" and I: "?I ys c'"
    obtain i step where x: "x = (i, step)" by fastforce
    have "composes k step \<Longrightarrow> st_cluster step = cluster" using agree by (auto simp: split x)
    then show "?I (ys @ [x]) (note_sources B c' x)"
      using I k unfolding x note_sources_avar by (auto simp: composes_def)
  qed simp
  then show "cn_avarCluster (foldl (note_sources B) c es) ! k = cluster"
    "length (cn_avarCluster (foldl (note_sources B) c es)) = length (cn_avarCluster c)"
    using some by simp_all
qed

section \<open>The seeds of the per-frame inputs\<close>

text \<open>The table of seeds grows in length too.\<close>

definition seeds_le :: "'a list list \<Rightarrow> 'a list list \<Rightarrow> bool" where
  "seeds_le t t' \<longleftrightarrow> length t \<le> length t' \<and> (\<forall>k < length t. set (t ! k) \<subseteq> set (t' ! k))"

lemma seeds_le_refl [simp]: "seeds_le t t"
  by (simp add: seeds_le_def)

lemma seeds_le_trans: "seeds_le s t \<Longrightarrow> seeds_le t v \<Longrightarrow> seeds_le s v"
  unfolding seeds_le_def by (meson less_le_trans order_trans)

lemma listed_seeds: "seeds_le t t' \<Longrightarrow> listed t k x \<Longrightarrow> listed t' k x"
  by (auto simp: seeds_le_def listed_def)

lemma add_seed_le: "seeds_le t (add_seed t index x)"
  by (auto simp: seeds_le_def add_seed_def push_at_def nth_list_update nth_append)

lemma add_seed_listed: "0 \<le> index \<Longrightarrow> listed (add_seed t index x) (nat index) x"
  by (simp add: add_seed_def listed_def push_at_def)

lemma seeds_le_fold:
  assumes "\<And>t x. seeds_le t (f t x)"
  shows "seeds_le t (foldl f t xs)"
proof (induction xs arbitrary: t)
  case (Cons x xs)
  show ?case using seeds_le_trans [OF assms [of t x] Cons] by simp
qed simp

lemma seeds_fold_listed:
  assumes "\<And>t x. seeds_le t (f t x)" "x \<in> set xs" "\<And>t. listed (f t x) k c"
  shows "listed (foldl f t xs) k c"
proof -
  obtain ys zs where "xs = ys @ x # zs" using assms(2) by (auto simp: in_set_conv_decomp)
  then show ?thesis using listed_seeds [OF seeds_le_fold [of f, OF assms(1)] assms(3)] by simp
qed

definition seed_step :: "'p baked_program \<Rightarrow> int list list \<Rightarrow> baked_step \<Rightarrow> int list list" where
  "seed_step B t step = (if in_range (cluster_count B) (st_cluster step)
     then foldl (\<lambda>t input. add_seed t input (st_cluster step)) t (st_overrideInputs step) else t)"

lemma seed_step_le: "seeds_le t (seed_step B t step)"
  by (simp add: seed_step_def seeds_le_fold add_seed_le)

definition seed_version :: "'p baked_program \<Rightarrow> int \<Rightarrow> int list list \<Rightarrow> int \<Rightarrow> int list list" where
  "seed_version B index t step = (case step_cluster B step of None \<Rightarrow> t
     | Some reader \<Rightarrow> if in_range (cluster_count B) reader then add_seed t index reader else t)"

lemma seed_version_le: "seeds_le t (seed_version B index t step)"
  by (simp add: seed_version_def add_seed_le split: option.split)

lemma seed_binding_eq:
  "seed_binding B table b =
     (let provider = ab_slot b div 11; cones = pg_cones B in
      if length (cn_avarCluster cones) \<le> provider then table
      else let cluster = cn_avarCluster cones ! provider;
               t1 = (if in_range (cluster_count B) cluster then add_seed table (ab_overrideIndex b) cluster else table)
           in if length (cn_avarVersionSteps cones) \<le> provider then t1
              else foldl (seed_version B (ab_overrideIndex b)) t1 (cn_avarVersionSteps cones ! provider))"
  by (simp add: seed_binding_def Let_def seed_version_def [abs_def])

lemma seed_binding_le: "seeds_le t (seed_binding B t b)"
proof -
  note versions = seeds_le_fold [where f = "seed_version B (ab_overrideIndex b)", OF seed_version_le]
  show ?thesis
    unfolding seed_binding_eq Let_def
    using seeds_le_trans [OF add_seed_le versions] versions by (simp add: add_seed_le)
qed

lemma seed_ladder_le: "seeds_le t (seed_ladder B opsOfLeaf t index)"
  by (simp add: seed_ladder_def Let_def seeds_le_fold add_seed_le)

lemma IndexSeeds_steps:
  "IndexSeeds B = foldl (seed_ladder B (ops_of_leaf B)) (foldl (seed_binding B)
     (foldl (seed_step B) (replicate (pg_overriddenCount B) []) (pg_steps B)) (pg_avarBindings B @ pg_avarConstantBindings B))
     (pg_ladderOverrides B)"
  by (simp add: IndexSeeds_def Let_def seed_step_def [abs_def])

lemma declared_seeds:
  assumes "step \<in> set (pg_steps B)" "in_range (cluster_count B) (st_cluster step)" "index \<in> set (st_overrideInputs step)" "0 \<le> index"
  shows "listed (IndexSeeds B) (nat index) (st_cluster step)"
proof -
  have one: "listed (seed_step B t step) (nat index) (st_cluster step)" for t
    using assms(2) seeds_fold_listed [where f = "\<lambda>t input. add_seed t input (st_cluster step)", OF add_seed_le assms(3) add_seed_listed [OF assms(4)]]
    by (simp add: seed_step_def)
  have "listed (foldl (seed_step B) (replicate (pg_overriddenCount B) []) (pg_steps B)) (nat index) (st_cluster step)"
    by (rule seeds_fold_listed [where f = "seed_step B", OF seed_step_le assms(1) one])
  then show ?thesis
    unfolding IndexSeeds_steps
    by (intro listed_seeds [OF seeds_le_fold [of "seed_ladder B (ops_of_leaf B)", OF seed_ladder_le]]
        listed_seeds [OF seeds_le_fold [of "seed_binding B", OF seed_binding_le]])
qed

lemma binding_seeds:
  assumes b: "b \<in> set (pg_avarBindings B @ pg_avarConstantBindings B)" "0 \<le> ab_overrideIndex b"
    and x: "x \<in> set (compose_clusters B (ab_slot b div 11))" "in_range (cluster_count B) x"
    and len: "length (cn_avarVersionSteps (pg_cones B)) = length (cn_avarCluster (pg_cones B))"
  shows "listed (IndexSeeds B) (nat (ab_overrideIndex b)) x"
proof -
  let ?p = "ab_slot b div 11" and ?v = "seed_version B (ab_overrideIndex b)"
  note vle = seed_version_le [of _ B "ab_overrideIndex b"]
  have p: "?p < length (cn_avarCluster (pg_cones B))"
    using x(1) len by (auto simp: compose_clusters_def Let_def split: if_splits)
  have one: "listed (seed_binding B t b) (nat (ab_overrideIndex b)) x" for t
  proof (cases "x = cn_avarCluster (pg_cones B) ! ?p")
    case True
    then show ?thesis
      using p x(2) listed_seeds [OF seeds_le_fold [of ?v, OF vle] add_seed_listed [OF b(2), of t x]]
        add_seed_listed [OF b(2), of t x]
      by (simp add: seed_binding_eq Let_def)
  next
    case False
    then obtain step where step: "step \<in> set (cn_avarVersionSteps (pg_cones B) ! ?p)" "step_cluster B step = Some x"
      using x(1) p len by (auto simp: compose_clusters_def Let_def set_map_filter)
    have "listed (foldl ?v t (cn_avarVersionSteps (pg_cones B) ! ?p)) (nat (ab_overrideIndex b)) x" for t
      by (rule seeds_fold_listed [where f = ?v, OF vle step(1)]) (simp add: seed_version_def step(2) x(2) add_seed_listed [OF b(2)])
    then show ?thesis using p len by (simp add: seed_binding_eq Let_def)
  qed
  have "listed (foldl (seed_binding B) t (pg_avarBindings B @ pg_avarConstantBindings B)) (nat (ab_overrideIndex b)) x" for t
    by (rule seeds_fold_listed [where f = "seed_binding B", OF seed_binding_le b(1) one])
  then show ?thesis
    unfolding IndexSeeds_steps by (intro listed_seeds [OF seeds_le_fold [of "seed_ladder B (ops_of_leaf B)", OF seed_ladder_le]])
qed

lemma ops_of_leaf_listed:
  assumes mem: "(i, step) \<in> set (numbered_steps B)" and leaf: "leaf \<in> set (st_bindingLeaves step)" "leaf < pg_leafCount B"
  shows "listed (ops_of_leaf B) leaf i"
proof -
  let ?g = "\<lambda>i t leaf. push_at leaf i t" and ?f = "\<lambda>table (i, step). foldl (\<lambda>t leaf. push_at leaf i t) table (st_bindingLeaves step)"
  have gle: "table_le t (foldl (?g i) t ls)" for i t ls by (rule table_le_fold) simp
  have fle: "table_le t (?f t e)" for t e using gle by (cases e) simp
  have listed_g: "listed (foldl (?g i) t (st_bindingLeaves step)) leaf i" if "length t = pg_leafCount B" for t
  proof -
    obtain ys zs where split: "st_bindingLeaves step = ys @ leaf # zs" using leaf(1) by (auto simp: in_set_conv_decomp)
    have "listed (?g i (foldl (?g i) t ys) leaf) leaf i"
      using leaf(2) that table_le_nth(1) [OF gle [of t i ys]] by (simp add: listed_push)
    from listed_mono [OF gle this] show ?thesis by (simp add: split)
  qed
  obtain ys zs where split: "numbered_steps B = ys @ (i, step) # zs" using mem by (auto simp: in_set_conv_decomp)
  let ?start = "replicate (pg_leafCount B) []"
  have "listed (?f (foldl ?f ?start ys) (i, step)) leaf i"
    using table_le_nth(1) [OF table_le_fold [of ?f, OF fle, of ?start ys]] by (simp add: listed_g)
  from listed_mono [OF table_le_fold [of ?f, OF fle] this] show ?thesis by (simp add: ops_of_leaf_def split)
qed

lemma ladder_seeds:
  assumes mem: "(i, step) \<in> set (numbered_steps B)" and at: "pg_steps B ! i = step"
    and range: "in_range (cluster_count B) (st_cluster step)"
    and index: "index \<in> set (pg_ladderOverrides B)" "0 \<le> index" "nat index < length (pg_leafOfOverride B)"
    and leaf: "0 \<le> pg_leafOfOverride B ! nat index" "nat (pg_leafOfOverride B ! nat index) < pg_leafCount B"
      "nat (pg_leafOfOverride B ! nat index) \<in> set (st_bindingLeaves step)"
  shows "listed (IndexSeeds B) (nat index) (st_cluster step)"
proof -
  let ?leaf = "nat (pg_leafOfOverride B ! nat index)"
  have op: "listed (ops_of_leaf B) ?leaf i" by (rule ops_of_leaf_listed [OF mem leaf(3,2)])
  let ?v = "\<lambda>t oper. let cluster = st_cluster (pg_steps B ! oper) in
      if in_range (cluster_count B) cluster then add_seed t index cluster else t"
  have "listed (foldl ?v t (ops_of_leaf B ! ?leaf)) (nat index) (st_cluster step)" for t
    by (rule seeds_fold_listed [where x = i])
      (use op range at in \<open>simp_all add: Let_def add_seed_le listed_def add_seed_listed [OF index(2), unfolded listed_def]\<close>)
  then have one: "listed (seed_ladder B (ops_of_leaf B) t index) (nat index) (st_cluster step)" for t
    using index leaf op by (simp add: seed_ladder_def Let_def listed_def)
  show ?thesis unfolding IndexSeeds_steps by (rule seeds_fold_listed [where f = "seed_ladder B (ops_of_leaf B)", OF seed_ladder_le index(1) one])
qed

end
