(* ===== verification/Affected_Flags.thy ===== *)
theory Affected_Flags
  imports Affected_Sources
begin

text \<open>
  The cones of a built program, and the tables its first pass over the steps and the edit routes
  leave in them: no later pass touches these.
\<close>

definition built :: "bool list \<Rightarrow> 'p baked_program \<Rightarrow> baked_cones" where
  "built resolved B = pg_cones (RigExecBakedBuildCones resolved B)"

lemma numbered_steps_iff: "(i, step) \<in> set (numbered_steps B) \<longleftrightarrow> i < length (pg_steps B) \<and> step = pg_steps B ! i"
proof
  assume "(i, step) \<in> set (numbered_steps B)"
  then show "i < length (pg_steps B) \<and> step = pg_steps B ! i" by (auto simp: numbered_steps_def in_set_zip)
next
  assume "i < length (pg_steps B) \<and> step = pg_steps B ! i"
  then have "numbered_steps B ! i = (i, step)" "i < length (numbered_steps B)" by (simp_all add: numbered_steps_def)
  then show "(i, step) \<in> set (numbered_steps B)" using nth_mem by fastforce
qed

definition flag_cones :: "bool list \<Rightarrow> 'p baked_program \<Rightarrow> baked_cones" where
  "flag_cones resolved B = foldl (note_flags resolved)
     (new_cones\<lparr>cn_always := Resize (cluster_count B), cn_poseClusters := Resize (cluster_count B),
        cn_alwaysSteps := Resize (length (pg_steps B)), cn_poseSteps := Resize (length (pg_steps B))\<rparr>) (numbered_steps B)"

text \<open>The later passes leave these tables alone.\<close>

definition flag_tables :: "baked_cones \<Rightarrow> cluster_set \<times> int list \<times> int list \<times> 8 word list" where
  "flag_tables c = (cn_always c, cn_varyingSteps c, cn_overrideSteps c, cn_editRoute c)"

lemma note_sources_flags: "flag_tables (note_sources B c e) = flag_tables c"
proof (cases e)
  case (Pair i step)
  have reads: "flag_tables (foldl (note_read i step) c rs) = flag_tables c" for c rs
    by (rule foldl_select [where sel = flag_tables]) (simp add: flag_tables_def note_read_def)
  have comp: "flag_tables (note_compose B c (i, step)) = flag_tables c"
    by (simp add: flag_tables_def note_compose_def Let_def)
  have "flag_tables (note_revision c (i, step)) = flag_tables c" for c
    by (simp add: flag_tables_def note_revision_def Let_def)
  then show ?thesis by (simp add: Pair note_sources_def note_source_reads_fold reads comp)
qed

lemma note_readers_flags: "flag_tables (note_readers c e) = flag_tables c"
proof (cases e)
  case (Pair i step)
  have ranges: "flag_tables (foldl (note_reader_range i) c rs) = flag_tables c" for c rs
  proof (rule foldl_select [where sel = flag_tables])
    fix c r show "flag_tables (note_reader_range i c r) = flag_tables c"
      unfolding note_reader_range_def flag_tables_def by (cases "sr_domain r") simp_all
  qed
  have walks: "flag_tables (foldl (\<lambda>c walk. c\<lparr>cn_walkReaders := push_int walk x (cn_walkReaders c)\<rparr>) c ws) = flag_tables c"
    for x c ws by (rule foldl_select [where sel = flag_tables]) (simp add: flag_tables_def)
  show ?thesis
    by (simp add: Pair note_readers_def Let_def walks ranges) (simp add: flag_tables_def)
qed

lemma note_constraint_flags: "flag_tables (note_constraint B c e) = flag_tables c"
proof (cases e)
  case (Pair i step)
  have one: "flag_tables (push_native i cl c native) = flag_tables c" for cl c native
    by (simp add: flag_tables_def push_native_def)
  have natives: "flag_tables (foldl (push_native i cl) c ns) = flag_tables c" for cl c ns
    by (rule foldl_select [where sel = flag_tables]) (rule one)
  define constraint where "constraint = pg_constraints B ! nat (ws_index (pg_walkSteps B ! nat (st_object step)))"
  define c2 where "c2 = push_native i (st_cluster step)
      (foldl (push_native i (st_cluster step)) c (ct_sourceNatives constraint)) (ct_worldUpNative constraint)"
  have "flag_tables c2 = flag_tables c" by (simp add: c2_def one natives)
  then show ?thesis
    by (simp add: Pair note_constraint_def Let_def constraint_def [symmetric] c2_def [symmetric]) (simp add: flag_tables_def)
qed

lemma built_flags:
  assumes "cluster_count B \<noteq> 0"
  shows "flag_tables (built resolved B) = flag_tables ((flag_cones resolved B)\<lparr>cn_editRoute := edit_routes B\<rparr>)"
proof -
  have src: "flag_tables (source_tables B c) = flag_tables c" for c
    unfolding source_tables_def Let_def foldl_select [of flag_tables, OF note_sources_flags] by (simp add: flag_tables_def)
  have rd: "flag_tables (reader_tables B c) = flag_tables c" for c
    unfolding reader_tables_def foldl_select [of flag_tables, OF note_readers_flags] by (simp add: flag_tables_def)
  have con: "flag_tables (constraint_tables B c) = flag_tables c" for c
    unfolding constraint_tables_def Let_def foldl_select [of flag_tables, OF note_constraint_flags] by (simp add: flag_tables_def)
  have uni: "flag_tables ((unique_tables c)\<lparr>cn_cone := k\<rparr>) = flag_tables c" for c k
    by (simp add: flag_tables_def unique_tables_def)
  have "built resolved B = (unique_tables (constraint_tables B (reader_tables B (source_tables B
      ((flag_cones resolved B)\<lparr>cn_editRoute := edit_routes B\<rparr>)))))\<lparr>cn_cone := Some (build_closures
        (cg_clusters (pg_clustering B)) (RigExecBakedClusterTopologicalOrder (pg_clustering B)))\<rparr>"
    using assms by (simp add: built_def RigExecBakedBuildCones_def Let_def cluster_count_def flag_cones_def)
  then show ?thesis by (simp only: uni con rd src)
qed

end
