(* ===== verification/Affected_Claims.thy ===== *)
theory Affected_Claims
  imports Affected_Flags
begin

text \<open>
  The claims of the output-affected index: the set a query answers is exactly the clusters
  reachable from the seeds of the edited controls, and editing a source reaches every cluster
  downstream of a step that reads it.
\<close>

section \<open>The tables of a built program\<close>

text \<open>Which source a control names, and which steps read it.\<close>

definition mover_of :: "'p baked_program \<Rightarrow> nat \<Rightarrow> 'p option" where
  "mover_of B k =
     (let (chain, revision) = pg_revisionIndex B ! k in
      if in_range (length (pg_chains B)) chain \<and> in_range (length (ch_moverPaths (pg_chains B ! nat chain))) revision
      then Some (ch_moverPaths (pg_chains B ! nat chain) ! nat revision) else None)"

definition provider_read :: "'p baked_program \<Rightarrow> nat \<Rightarrow> baked_step \<Rightarrow> bool" where
  "provider_read B slot step \<longleftrightarrow> slot < length (pg_paths B) \<and> (composes slot step \<or> version_read B slot step)"

text \<open>The steps a per-frame input reaches: those that declare it, those that read the avar it is bound
  to, and the rest and ladder steps over its leaf.\<close>

definition input_read :: "'p baked_program \<Rightarrow> int \<Rightarrow> baked_step \<Rightarrow> bool" where
  "input_read B index step \<longleftrightarrow> 0 \<le> index \<and>
     (index \<in> set (st_overrideInputs step) \<or>
      (\<exists>b \<in> set (pg_avarBindings B @ pg_avarConstantBindings B). ab_overrideIndex b = index \<and> provider_read B (ab_slot b div 11) step) \<or>
      index \<in> set (pg_ladderOverrides B) \<and> nat index < length (pg_leafOfOverride B) \<and> 0 \<le> pg_leafOfOverride B ! nat index \<and>
        nat (pg_leafOfOverride B ! nat index) < pg_leafCount B \<and>
        nat (pg_leafOfOverride B ! nat index) \<in> set (st_bindingLeaves step))"

text \<open>The inputs behind a path the program can route an edit of: none of them is without a reader, and
  the path is not folded away.\<close>

definition routed_inputs :: "'p baked_program \<Rightarrow> 'p \<Rightarrow> int list \<Rightarrow> bool" where
  "routed_inputs B path indices \<longleftrightarrow> map_of (pg_overridableInputs B) path = Some indices \<and> path \<notin> set (pg_folded B) \<and>
     (\<forall>index \<in> set indices. in_range (length (edit_routes B)) index \<and> edit_routes B ! nat index \<noteq> 0)"

text \<open>Every way a step reads a source the index admits by its path.\<close>

inductive reads_source :: "'p baked_program \<Rightarrow> 'p \<Rightarrow> baked_step \<Rightarrow> bool" for B where
  provider: "provider_read B k step \<Longrightarrow> reads_source B (pg_paths B ! k) step"
| patchable: "(path, k) \<in> set (pg_patchableAvars B) \<Longrightarrow> k < length (pg_avarConstantBindings B) \<Longrightarrow>
     provider_read B (ab_slot (pg_avarConstantBindings B ! k) div 11) step \<Longrightarrow> reads_source B path step"
| binding: "b \<in> set (pg_avarBindings B) \<Longrightarrow> ab_head b = Some path \<Longrightarrow> provider_read B (ab_slot b div 11) step \<Longrightarrow>
     reads_source B path step"
| chain: "k < length (pg_chains B) \<Longrightarrow> covers D_ChainBase k step \<Longrightarrow> reads_source B (ch_target (pg_chains B ! k)) step"
| solver: "k < pg_solverCount B \<Longrightarrow> (path, int k) \<in> set (pg_solverIndex B) \<Longrightarrow> covers D_SolverPoints k step \<Longrightarrow>
     reads_source B path step"
| mover: "k < length (pg_revisionIndex B) \<Longrightarrow> mover_of B k = Some path \<Longrightarrow> st_object step = int k \<Longrightarrow>
     st_kind step \<in> revision_kinds \<Longrightarrow> reads_source B path step"
| native: "k < length (pg_nativeSources B) \<Longrightarrow> native_read B k step \<Longrightarrow> reads_source B (pg_nativeSources B ! k) step"
| delta_base: "k < length (pg_deltaBasePaths B) \<Longrightarrow> delta_read B k step \<Longrightarrow> reads_source B (pg_deltaBasePaths B ! k) step"
| arrays: "k < length (pg_constraintArrays B) \<Longrightarrow> pg_constraintArrays B ! k = Some path \<Longrightarrow> array_read B k step \<Longrightarrow>
     reads_source B path step"
| inputs: "routed_inputs B path indices \<Longrightarrow> index \<in> set indices \<Longrightarrow> input_read B index step \<Longrightarrow> reads_source B path step"

text \<open>The schedule has one compose step per provider.\<close>

definition compose_steps_once :: "'p baked_program \<Rightarrow> bool" where
  "compose_steps_once B \<longleftrightarrow> (\<forall>i < length (pg_steps B). \<forall>j < length (pg_steps B). \<forall>k.
     composes k (pg_steps B ! i) \<and> composes k (pg_steps B ! j) \<longrightarrow> i = j)"

lemma composes_unique:
  "compose_steps_once B \<Longrightarrow> a \<in> set (pg_steps B) \<Longrightarrow> b \<in> set (pg_steps B) \<Longrightarrow> composes k a \<Longrightarrow> composes k b \<Longrightarrow> a = b"
  unfolding compose_steps_once_def by (metis in_set_conv_nth)

text \<open>The tables the later passes leave alone.\<close>

lemma reader_tables_le: "cones_le c (reader_tables B c)"
  unfolding reader_tables_def by (rule cones_le_trans [OF _ cones_le_fold [OF note_readers_le]]) (simp add: cones_le_def)

lemma note_readers_avar: "cn_avarCluster (note_readers c e) = cn_avarCluster c"
proof -
  have ranges: "cn_avarCluster (foldl (note_reader_range index) c rs) = cn_avarCluster c" for index c rs
  proof (induction rs arbitrary: c)
    case (Cons r rs)
    have "cn_avarCluster (note_reader_range index c r) = cn_avarCluster c"
      unfolding note_reader_range_def by (cases "sr_domain r") simp_all
    then show ?case using Cons by simp
  qed simp
  have walks: "cn_avarCluster (foldl (\<lambda>c walk. c\<lparr>cn_walkReaders := push_int walk x (cn_walkReaders c)\<rparr>) c ws) = cn_avarCluster c"
    for x c ws by (induction ws arbitrary: c) simp_all
  show ?thesis by (cases e) (simp add: note_readers_def Let_def ranges walks)
qed

lemma note_constraint_avar: "cn_avarCluster (note_constraint B c e) = cn_avarCluster c"
proof -
  have natives: "cn_avarCluster (foldl (push_native i cl) c ns) = cn_avarCluster c" for i cl c ns
    by (induction ns arbitrary: c) (simp_all add: push_native_def)
  show ?thesis by (cases e) (simp add: note_constraint_def Let_def natives push_native_def)
qed

lemma later_passes:
  "cn_avarCluster (constraint_tables B (reader_tables B c)) = cn_avarCluster c"
  "table_le (cn_chainBaseClusters c) (cn_chainBaseClusters (constraint_tables B (reader_tables B c)))"
  "table_le (cn_solverPointsClusters c) (cn_solverPointsClusters (constraint_tables B (reader_tables B c)))"
  "table_le (cn_revisionClusters c) (cn_revisionClusters (constraint_tables B (reader_tables B c)))"
  "table_le (cn_avarVersionSteps c) (cn_avarVersionSteps (constraint_tables B (reader_tables B c)))"
proof -
  let ?r = "reader_tables B c"
  define start where "start = ?r\<lparr>cn_nativeSourceClusters := replicate (length (pg_nativeSources B)) [],
      cn_deltaBaseClusters := replicate (length (pg_deltaBasePaths B)) [],
      cn_constraintArrayClusters := replicate (length (pg_constraintArrays B)) [],
      cn_nativeSourceSteps := replicate (length (pg_nativeSources B)) [],
      cn_deltaBaseSteps := replicate (length (pg_deltaBasePaths B)) [],
      cn_constraintArraySteps := replicate (length (pg_constraintArrays B)) []\<rparr>"
  have tab: "constraint_tables B ?r = foldl (note_constraint B) start (numbered_steps B)"
    by (simp add: constraint_tables_def start_def Let_def)
  have le: "cones_le start (constraint_tables B ?r)" unfolding tab by (rule cones_le_fold [OF note_constraint_le])
  note r = reader_tables_le [of c B]
  show "cn_avarCluster (constraint_tables B ?r) = cn_avarCluster c"
    unfolding tab foldl_select [of cn_avarCluster, OF note_constraint_avar]
    by (simp add: start_def reader_tables_def foldl_select [of cn_avarCluster, OF note_readers_avar])
  show "table_le (cn_chainBaseClusters c) (cn_chainBaseClusters (constraint_tables B ?r))"
    using table_le_trans [OF cones_leD(1) [OF r]] cones_leD(1) [OF le] by (simp add: start_def)
  show "table_le (cn_solverPointsClusters c) (cn_solverPointsClusters (constraint_tables B ?r))"
    using table_le_trans [OF cones_leD(2) [OF r]] cones_leD(2) [OF le] by (simp add: start_def)
  show "table_le (cn_revisionClusters c) (cn_revisionClusters (constraint_tables B ?r))"
    using table_le_trans [OF cones_leD(3) [OF r]] cones_leD(3) [OF le] by (simp add: start_def)
  show "table_le (cn_avarVersionSteps c) (cn_avarVersionSteps (constraint_tables B ?r))"
    using table_le_trans [OF cones_leD(5) [OF r]] cones_leD(5) [OF le] by (simp add: start_def)
qed

text \<open>What the built tables list.\<close>

lemma built_tables:
  assumes some: "cluster_count B \<noteq> 0" and mem: "(i, step) \<in> set (numbered_steps B)"
  shows "k < length (pg_chains B) \<Longrightarrow> covers D_ChainBase k step \<Longrightarrow>
      listed (cn_chainBaseClusters (built resolved B)) k (st_cluster step)"
    "k < pg_solverCount B \<Longrightarrow> covers D_SolverPoints k step \<Longrightarrow>
      listed (cn_solverPointsClusters (built resolved B)) k (st_cluster step)"
    "k < length (pg_revisionIndex B) \<Longrightarrow> st_object step = int k \<Longrightarrow> st_kind step \<in> revision_kinds \<Longrightarrow>
      listed (cn_revisionClusters (built resolved B)) k (st_cluster step)"
    "k < length (pg_nativeSources B) \<Longrightarrow> native_read B k step \<Longrightarrow>
      listed (cn_nativeSourceClusters (built resolved B)) k (st_cluster step)"
    "k < length (pg_paths B) \<Longrightarrow> version_read B k step \<Longrightarrow> listed (cn_avarVersionSteps (built resolved B)) k (int i)"
    "k < length (pg_paths B) \<Longrightarrow> composes k step \<Longrightarrow>
      \<forall>other \<in> set (pg_steps B). composes k other \<longrightarrow> st_cluster other = st_cluster step \<Longrightarrow>
      cn_avarCluster (built resolved B) ! k = st_cluster step"
    "length (cn_avarCluster (built resolved B)) = length (pg_paths B)"
    "length (cn_avarVersionSteps (built resolved B)) = length (pg_paths B)"
    "k < length (pg_deltaBasePaths B) \<Longrightarrow> delta_read B k step \<Longrightarrow>
      listed (cn_deltaBaseClusters (built resolved B)) k (st_cluster step)"
    "k < length (pg_constraintArrays B) \<Longrightarrow> array_read B k step \<Longrightarrow>
      listed (cn_constraintArrayClusters (built resolved B)) k (st_cluster step)"
    "cn_editRoute (built resolved B) = edit_routes B"
proof -
  define c2 where "c2 = (foldl (note_flags resolved)
      (new_cones\<lparr>cn_always := Resize (length (cg_clusters (pg_clustering B))),
         cn_poseClusters := Resize (length (cg_clusters (pg_clustering B))),
         cn_alwaysSteps := Resize (length (pg_steps B)), cn_poseSteps := Resize (length (pg_steps B))\<rparr>)
      (numbered_steps B))\<lparr>cn_editRoute := edit_routes B\<rparr>"
  define start where "start = c2\<lparr>cn_avarCluster := replicate (length (pg_paths B)) (-1),
      cn_chainBaseClusters := replicate (length (pg_chains B)) [],
      cn_solverPointsClusters := replicate (pg_solverCount B) [],
      cn_revisionClusters := replicate (length (pg_revisionIndex B)) [],
      cn_revisionStaticCluster := replicate (length (pg_revisionIndex B)) (-1), cn_avarStep := replicate (length (pg_paths B)) (-1),
      cn_avarVersionSteps := replicate (length (pg_paths B)) [], cn_chainBaseSteps := replicate (length (pg_chains B)) [],
      cn_solverPointsSteps := replicate (pg_solverCount B) [],
      cn_revisionSteps := replicate (length (pg_revisionIndex B)) [],
      cn_revisionStaticStep := replicate (length (pg_revisionIndex B)) (-1)\<rparr>"
  define src where "src = source_tables B c2"
  have src: "src = foldl (note_sources B) start (numbered_steps B)"
    by (simp add: src_def source_tables_def start_def Let_def)
  define c3 where "c3 = constraint_tables B (reader_tables B src)"
  have built: "built resolved B = (unique_tables c3)\<lparr>cn_cone := Some (build_closures (cg_clusters (pg_clustering B))
      (RigExecBakedClusterTopologicalOrder (pg_clustering B)))\<rparr>"
    using some by (simp add: built_def RigExecBakedBuildCones_def Let_def cluster_count_def c3_def src_def c2_def)
  have uniq: "listed (map vec_unique t) k x \<longleftrightarrow> listed t k x" for t :: "int list list" and k x
    by (auto simp: listed_def)
  note later = later_passes [where c = src and B = B, folded c3_def]
  note rec = fold_records [where f = "note_sources B" and c = start, OF note_sources_le mem, folded src]
  have "length (cn_avarCluster src) = length (cn_avarCluster start)"
    unfolding src by (rule foldl_select [where sel = "\<lambda>c. length (cn_avarCluster c)"])
      (auto simp: note_sources_avar)
  then show "length (cn_avarCluster (built resolved B)) = length (pg_paths B)"
    by (simp add: built unique_tables_def later(1) start_def)
  have "table_le (cn_avarVersionSteps start) (cn_avarVersionSteps c3)"
    by (rule table_le_trans [OF _ later(5)]) (simp add: src cones_leD(5) [OF cones_le_fold [OF note_sources_le]])
  then show "length (cn_avarVersionSteps (built resolved B)) = length (pg_paths B)"
    by (simp add: built unique_tables_def table_le_nth(1) start_def)
  show "cn_editRoute (built resolved B) = edit_routes B" using built_flags [OF some, of resolved] by (simp add: flag_tables_def)
  show "listed (cn_deltaBaseClusters (built resolved B)) k (st_cluster step)"
    if k: "k < length (pg_deltaBasePaths B)" and read: "delta_read B k step"
  proof -
    have "listed (cn_deltaBaseClusters c3) k (st_cluster step)"
      unfolding c3_def constraint_tables_def Let_def
      by (rule fold_records [OF note_constraint_le mem cones_leD(6)], assumption, rule delta_records [OF _ read])
        (simp add: k)
    then show ?thesis by (simp add: built unique_tables_def)
  qed
  show "listed (cn_constraintArrayClusters (built resolved B)) k (st_cluster step)"
    if k: "k < length (pg_constraintArrays B)" and read: "array_read B k step"
  proof -
    have "listed (cn_constraintArrayClusters c3) k (st_cluster step)"
      unfolding c3_def constraint_tables_def Let_def
      by (rule fold_records [OF note_constraint_le mem cones_leD(7)], assumption, rule array_records [OF _ read])
        (simp add: k)
    then show ?thesis by (simp add: built unique_tables_def)
  qed
  show "listed (cn_chainBaseClusters (built resolved B)) k (st_cluster step)"
    if k: "k < length (pg_chains B)" and read: "covers D_ChainBase k step"
  proof -
    have "listed (cn_chainBaseClusters src) k (st_cluster step)"
      by (rule rec [OF cones_leD(1)], assumption, rule reads_record [OF _ read cones_leD(1)])
        (simp_all add: start_def k note_read_def)
    from listed_mono [OF later(2) this] show ?thesis by (simp add: built unique_tables_def uniq)
  qed
  show "listed (cn_solverPointsClusters (built resolved B)) k (st_cluster step)"
    if k: "k < pg_solverCount B" and read: "covers D_SolverPoints k step"
  proof -
    have "listed (cn_solverPointsClusters src) k (st_cluster step)"
      by (rule rec [OF cones_leD(2)], assumption, rule reads_record [OF _ read cones_leD(2)])
        (simp_all add: start_def k note_read_def)
    from listed_mono [OF later(3) this] show ?thesis by (simp add: built unique_tables_def uniq)
  qed
  show "listed (cn_revisionClusters (built resolved B)) k (st_cluster step)"
    if k: "k < length (pg_revisionIndex B)" and kind: "st_object step = int k" "st_kind step \<in> revision_kinds"
  proof -
    have "listed (cn_revisionClusters src) k (st_cluster step)"
      by (rule rec [OF cones_leD(3)], assumption, rule revision_records [OF _ kind]) (simp add: start_def k)
    from listed_mono [OF later(4) this] show ?thesis by (simp add: built unique_tables_def uniq)
  qed
  show "listed (cn_avarVersionSteps (built resolved B)) k (int i)"
    if k: "k < length (pg_paths B)" and read: "version_read B k step"
  proof -
    have "listed (cn_avarVersionSteps src) k (int i)"
      by (rule rec [OF cones_leD(5)], assumption, rule version_records [OF _ read]) (simp add: start_def k)
    from listed_mono [OF later(5) this] show ?thesis by (simp add: built unique_tables_def)
  qed
  show "cn_avarCluster (built resolved B) ! k = st_cluster step"
    if k: "k < length (pg_paths B)" and own: "composes k step"
      and agree: "\<forall>other \<in> set (pg_steps B). composes k other \<longrightarrow> st_cluster other = st_cluster step"
  proof -
    have "\<forall>(j, other) \<in> set (numbered_steps B). composes k other \<longrightarrow> st_cluster other = st_cluster step"
      using agree by (auto simp: numbered_steps_iff)
    from avar_records(1) [OF _ this, of start B] have "cn_avarCluster src ! k = st_cluster step"
      using mem own k by (auto simp: src start_def)
    then show ?thesis by (simp add: built unique_tables_def later(1))
  qed
  show "listed (cn_nativeSourceClusters (built resolved B)) k (st_cluster step)"
    if k: "k < length (pg_nativeSources B)" and read: "native_read B k step"
  proof -
    have "listed (cn_nativeSourceClusters c3) k (st_cluster step)"
      unfolding c3_def constraint_tables_def Let_def
      by (rule fold_records [OF note_constraint_le mem cones_leD(4)], assumption, rule constraint_records [OF _ read])
        (simp add: k)
    then show ?thesis by (simp add: built unique_tables_def uniq)
  qed
qed

text \<open>A source is admitted with the clusters of its readers.\<close>

lemma listed_in_seeds:
  "listed table k x \<Longrightarrow> x \<in> set (table_at table k)"
  by (simp add: listed_def table_at_def)

lemma built_same [simp]:
  "pg_steps (RigExecBakedBuildCones resolved B) = pg_steps B"
  "pg_paths (RigExecBakedBuildCones resolved B) = pg_paths B"
  "pg_chains (RigExecBakedBuildCones resolved B) = pg_chains B"
  "pg_solverIndex (RigExecBakedBuildCones resolved B) = pg_solverIndex B"
  "pg_revisionIndex (RigExecBakedBuildCones resolved B) = pg_revisionIndex B"
  "pg_nativeSources (RigExecBakedBuildCones resolved B) = pg_nativeSources B"
  "pg_patchableAvars (RigExecBakedBuildCones resolved B) = pg_patchableAvars B"
  "pg_avarBindings (RigExecBakedBuildCones resolved B) = pg_avarBindings B"
  "pg_avarConstantBindings (RigExecBakedBuildCones resolved B) = pg_avarConstantBindings B"
  "pg_deltaBasePaths (RigExecBakedBuildCones resolved B) = pg_deltaBasePaths B"
  "pg_constraintArrays (RigExecBakedBuildCones resolved B) = pg_constraintArrays B"
  "pg_overridableInputs (RigExecBakedBuildCones resolved B) = pg_overridableInputs B"
  "pg_folded (RigExecBakedBuildCones resolved B) = pg_folded B"
  "pg_ladderOverrides (RigExecBakedBuildCones resolved B) = pg_ladderOverrides B"
  "pg_leafOfOverride (RigExecBakedBuildCones resolved B) = pg_leafOfOverride B"
  "pg_leafCount (RigExecBakedBuildCones resolved B) = pg_leafCount B"
  "cluster_count (RigExecBakedBuildCones resolved B) = cluster_count B"
  by (simp_all add: RigExecBakedBuildCones_def Let_def cluster_count_def)

text \<open>A provider's readers are among its compose clusters.\<close>

lemma provider_clusters:
  assumes some: "cluster_count B \<noteq> 0" and once: "compose_steps_once B" and mem: "(i, step) \<in> set (numbered_steps B)"
    and read: "provider_read B k step"
  shows "st_cluster step \<in> set (compose_clusters (RigExecBakedBuildCones resolved B) k)"
proof -
  note tables = built_tables [OF some mem, where resolved = resolved]
  have cones: "pg_cones (RigExecBakedBuildCones resolved B) = built resolved B" by (simp add: built_def)
  have step: "i < length (pg_steps B)" "step = pg_steps B ! i" using mem by (simp_all add: numbered_steps_iff)
  have k: "k < length (pg_paths B)" using read by (simp add: provider_read_def)
  show ?thesis
  proof (cases "version_read B k step")
    case True
    have l: "listed (cn_avarVersionSteps (built resolved B)) k (int i)" by (rule tables(5) [OF k True])
    have "step_cluster (RigExecBakedBuildCones resolved B) (int i) = Some (st_cluster step)"
      using step by (simp add: step_cluster_def in_range_def)
    then show ?thesis using l by (auto simp: compose_clusters_def Let_def cones listed_def set_map_filter intro!: bexI)
  next
    case False
    then have own: "composes k step" using read by (simp add: provider_read_def)
    have "step \<in> set (pg_steps B)" using step by simp
    then have "\<forall>other \<in> set (pg_steps B). composes k other \<longrightarrow> st_cluster other = st_cluster step"
      using composes_unique [OF once _ _ _ own] by blast
    then show ?thesis using tables(6) [OF k own] tables(7) k by (simp add: compose_clusters_def Let_def cones)
  qed
qed

text \<open>An input's readers are among its seeds.\<close>

lemma input_seeds:
  assumes some: "cluster_count B \<noteq> 0" and once: "compose_steps_once B" and mem: "(i, step) \<in> set (numbered_steps B)"
    and range: "in_range (cluster_count B) (st_cluster step)" and read: "input_read B index step"
  shows "listed (IndexSeeds (RigExecBakedBuildCones resolved B)) (nat index) (st_cluster step)"
proof -
  let ?B' = "RigExecBakedBuildCones resolved B"
  note tables = built_tables [OF some mem, where resolved = resolved]
  have cones: "pg_cones ?B' = built resolved B" by (simp add: built_def)
  have mem': "(i, step) \<in> set (numbered_steps ?B')" using mem by (simp add: numbered_steps_def)
  have step: "step \<in> set (pg_steps ?B')" "pg_steps ?B' ! i = step" using mem by (simp_all add: numbered_steps_iff)
  have pos: "0 \<le> index" using read by (simp add: input_read_def)
  consider (declared) "index \<in> set (st_overrideInputs step)"
    | (bound) b where "b \<in> set (pg_avarBindings B @ pg_avarConstantBindings B)" "ab_overrideIndex b = index"
        "provider_read B (ab_slot b div 11) step"
    | (ladder) "index \<in> set (pg_ladderOverrides B)" "nat index < length (pg_leafOfOverride B)" "0 \<le> pg_leafOfOverride B ! nat index"
        "nat (pg_leafOfOverride B ! nat index) < pg_leafCount B" "nat (pg_leafOfOverride B ! nat index) \<in> set (st_bindingLeaves step)"
    using read unfolding input_read_def by blast
  then show ?thesis
  proof cases
    case declared
    then show ?thesis using declared_seeds [OF step(1) _ _ pos] range by simp
  next
    case (bound b)
    have "length (cn_avarVersionSteps (pg_cones ?B')) = length (cn_avarCluster (pg_cones ?B'))" by (simp add: cones tables(7,8))
    from binding_seeds [OF _ _ provider_clusters [OF some once mem bound(3)] _ this] bound(1,2) pos range show ?thesis by simp
  next
    case ladder
    then show ?thesis using ladder_seeds [OF mem' step(2) _ _ pos] range by simp
  qed
qed

lemma source_admitted:
  assumes some: "cluster_count B \<noteq> 0" and once: "compose_steps_once B" and mem: "(i, step) \<in> set (numbered_steps B)"
    and range: "in_range (cluster_count B) (st_cluster step)" and read: "reads_source B path step"
  shows "\<exists>seeds. (RigExecControlIdForPath u path, seeds) \<in> set (all_controls u (RigExecBakedBuildCones resolved B)) \<and>
    st_cluster step \<in> set seeds"
proof -
  let ?B' = "RigExecBakedBuildCones resolved B" and ?id = "RigExecControlIdForPath u path"
  have cones: "pg_cones ?B' = built resolved B" by (simp add: built_def)
  note tables = built_tables [OF some mem, where resolved = resolved]
  note providers = provider_clusters [OF some once mem, where resolved = resolved]
  from read show ?thesis
  proof cases
    case (provider k)
    then have "k < length (pg_paths B)" by (simp add: provider_read_def)
    then have "(?id, compose_clusters ?B' k) \<in> set (provider_controls u ?B')"
      using provider(1) tables(7) by (auto simp: provider_controls_def cones intro!: image_eqI [where x = k])
    then show ?thesis using providers [OF provider(2)] unfolding all_controls_def by auto
  next
    case (patchable k)
    then have "(?id, compose_clusters ?B' (ab_slot (pg_avarConstantBindings B ! k) div 11)) \<in> set (avar_controls u ?B')"
      by (force simp: avar_controls_def intro!: image_eqI [where x = "(path, k)"])
    then show ?thesis using providers [OF patchable(3)] unfolding all_controls_def by auto
  next
    case (binding b)
    then have "(?id, compose_clusters ?B' (ab_slot b div 11)) \<in> set (avar_controls u ?B')"
      by (auto simp: avar_controls_def set_map_filter intro!: bexI [where x = b])
    then show ?thesis using providers [OF binding(3)] unfolding all_controls_def by auto
  next
    case (chain k)
    then have "st_cluster step \<in> set (table_at (cn_chainBaseClusters (built resolved B)) k)"
      by (intro listed_in_seeds tables(1))
    moreover have "(?id, table_at (cn_chainBaseClusters (built resolved B)) k) \<in> set (chain_controls u ?B')"
      using chain by (auto simp: chain_controls_def cones intro!: image_eqI [where x = k])
    ultimately show ?thesis unfolding all_controls_def by auto
  next
    case (solver k)
    then have "st_cluster step \<in> set (table_at (cn_solverPointsClusters (built resolved B)) k)"
      by (intro listed_in_seeds tables(2))
    moreover have "(?id, table_at (cn_solverPointsClusters (built resolved B)) k) \<in> set (solver_controls u ?B')"
      using solver by (auto simp: solver_controls_def cones intro!: image_eqI [where x = "(path, int k)"])
    ultimately show ?thesis unfolding all_controls_def by auto
  next
    case (mover k)
    have l: "st_cluster step \<in> set (table_at (cn_revisionClusters (built resolved B)) k)"
      by (intro listed_in_seeds tables(3) mover)
    obtain seeds where "revision_control u ?B' k = Some (?id, seeds)"
      "set (table_at (cn_revisionClusters (built resolved B)) k) \<subseteq> set seeds"
      using mover(2) by (auto simp: revision_control_def mover_of_def cones Let_def split: prod.splits if_splits)
    then have "(?id, seeds) \<in> set (revision_controls u ?B')" "st_cluster step \<in> set seeds"
      using mover(1) l by (auto simp: revision_controls_def set_map_filter)
    then show ?thesis unfolding all_controls_def by auto
  next
    case (native k)
    then have "st_cluster step \<in> set (table_at (cn_nativeSourceClusters (built resolved B)) k)"
      by (intro listed_in_seeds tables(4))
    moreover have "(?id, table_at (cn_nativeSourceClusters (built resolved B)) k) \<in> set (constraint_controls u ?B')"
      using native by (auto simp: constraint_controls_def cones)
    ultimately show ?thesis unfolding all_controls_def by auto
  next
    case (delta_base k)
    then have "st_cluster step \<in> set (table_at (cn_deltaBaseClusters (built resolved B)) k)"
      by (intro listed_in_seeds tables(9))
    moreover have "(?id, table_at (cn_deltaBaseClusters (built resolved B)) k) \<in> set (constraint_controls u ?B')"
      using delta_base by (auto simp: constraint_controls_def cones)
    ultimately show ?thesis unfolding all_controls_def by auto
  next
    case (arrays k)
    then have "st_cluster step \<in> set (table_at (cn_constraintArrayClusters (built resolved B)) k)"
      by (intro listed_in_seeds tables(10))
    moreover have "(?id, table_at (cn_constraintArrayClusters (built resolved B)) k) \<in> set (constraint_controls u ?B')"
      using arrays by (auto simp: constraint_controls_def cones set_map_filter intro!: bexI [where x = k])
    ultimately show ?thesis unfolding all_controls_def by auto
  next
    case (inputs indices index)
    define seeds where "seeds = OverridablePathSeeds ?B' (IndexSeeds ?B') path"
    have at: "map_of (pg_overridableInputs B) path = Some indices" "path \<notin> set (pg_folded B)"
      and routes: "\<forall>index \<in> set indices. in_range (length (edit_routes B)) index \<and> edit_routes B ! nat index \<noteq> 0"
      using inputs(1) by (simp_all add: routed_inputs_def)
    have "listed (IndexSeeds ?B') (nat index) (st_cluster step)" by (rule input_seeds [OF some once mem range inputs(3)])
    moreover have "0 \<le> index" using inputs(3) by (simp add: input_read_def)
    ultimately have seed: "st_cluster step \<in> set seeds"
      using at inputs(2) by (auto simp: seeds_def OverridablePathSeeds_def listed_def in_range_def intro!: bexI [where x = index])
    have "indices \<noteq> []" "\<forall>index \<in> set indices.
        (if in_range (length (edit_routes B)) index then edit_routes B ! nat index else 0) \<noteq> 0"
      using inputs(2) routes by auto
    moreover have "seeds \<noteq> []" using seed by auto
    ultimately have "overridable_control u ?B' (IndexSeeds ?B') (path, indices) = Some (?id, seeds)"
      unfolding overridable_control_def prod.case Let_def cones tables(11) seeds_def by simp
    then have "(?id, seeds) \<in> set (overridable_controls u ?B')"
      using map_of_SomeD [OF at(1)] by (auto simp: overridable_controls_def set_map_filter intro!: bexI [where x = "(path, indices)"])
    then show ?thesis using seed unfolding all_controls_def by auto
  qed
qed

section \<open>Claims\<close>

lemma known_iff:
  assumes "cluster_count B \<noteq> 0" "length (Cone (pg_cones B)) = cluster_count B"
  shows "IsKnownControl control (mapped_index maps (Build_index u B epoch)) \<longleftrightarrow>
    control \<in> fst ` set maps \<or> control \<noteq> [] \<and> control \<in> fst ` set (all_controls u B)"
proof -
  have grow: "IsKnownControl control (mapped_index maps idx) \<longleftrightarrow> IsKnownControl control idx \<or> control \<in> fst ` set maps"
    if "ai_clusterCount idx \<noteq> 0" for idx
    using that
  proof (induction maps arbitrary: idx)
    case (Cons e maps)
    obtain c seeds where e: "e = (c, seeds)" by fastforce
    have "ai_clusterCount (MapControl c seeds idx) \<noteq> 0" using Cons.prems by (simp add: MapControl_def)
    from Cons.IH [OF this] show ?case
      using Cons.prems by (auto simp: mapped_index_def e IsKnownControl_def MapControl_def set_insort_insert)
  qed (simp add: mapped_index_def)
  have "Build_index u B epoch = foldl admit (index_start B epoch) (all_controls u B)" using assms by (simp add: Build_index_eq)
  then have "IsKnownControl control (Build_index u B epoch) \<longleftrightarrow> control \<noteq> [] \<and> control \<in> fst ` set (all_controls u B)"
    using admits_seeds(1) [OF index_start_inv [OF assms(2), of epoch], of control "all_controls u B"]
    by (simp add: IsKnownControl_def)
  moreover have "ai_clusterCount (Build_index u B epoch) \<noteq> 0" using Build_index_inv(2) [of u B epoch] assms by simp
  ultimately show ?thesis using grow by auto
qed

text \<open>C13. The output-affected index is exact. For a program whose clusters are acyclic with edges listed at
  both ends, an index built from its cones, with any controls mapped explicitly afterwards,
  answers for a list of edited controls: every cluster, if some control of the list is
  neither mapped nor admitted from the program (an edit nobody can place reruns everything);
  otherwise precisely the clusters reachable in the cluster graph from a seed of one of the
  controls, no more and no fewer. The query changes nothing but its walk counter.\<close>

theorem affected_by_controls_exact:
  assumes "clusters_valid (cg_clusters (pg_clustering B))" "cluster_count B \<noteq> 0"
    and "idx = mapped_index maps (Build_index u (RigExecBakedBuildCones resolved B) epoch)"
    and "AffectedByControls controls idx = (affected, idx')"
  shows "idx' = idx\<lparr>ai_walks := ai_walks idx + 1\<rparr> \<and>
    (\<forall>control. IsKnownControl control idx = (control \<in> fst ` set maps \<or>
       control \<noteq> [] \<and> control \<in> fst ` set (all_controls u (RigExecBakedBuildCones resolved B)))) \<and>
    (\<forall>c. Test affected (int c) =
       (if \<exists>control \<in> set controls. \<not> IsKnownControl control idx then c < cluster_count B
        else \<exists>control \<in> set controls. \<exists>seed \<in> set (SeedsForControl control idx).
               (nat seed, c) \<in> (cluster_edges (cg_clusters (pg_clustering B)))\<^sup>*))"
proof -
  note I = built_index [OF assms(1,2,3)]
  have affected: "affected = fst (AffectedByControls controls idx)" "idx' = walked idx"
    using assms(4) by (simp_all add: AffectedByControls_def)
  have known: "\<forall>control. IsKnownControl control idx = (control \<in> fst ` set maps \<or>
       control \<noteq> [] \<and> control \<in> fst ` set (all_controls u (RigExecBakedBuildCones resolved B)))"
    using known_iff [of "RigExecBakedBuildCones resolved B"] built_cones(1,2) [OF assms(1,2) refl, where resolved = resolved]
      assms(2) unfolding assms(3) by simp
  have reach: "control_reach idx control = {c. \<exists>seed \<in> set (SeedsForControl control idx).
      (nat seed, c) \<in> (cluster_edges (cg_clusters (pg_clustering B)))\<^sup>*}" for control
  proof -
    have "bits_of (ai_cones idx ! nat seed) = cluster_reach (cg_clusters (pg_clustering B)) (nat seed)"
      if "seed \<in> set (SeedsForControl control idx)" for seed
      using seed_in_range [OF I(1) that] I(2,3) by (simp add: in_range_def)
    then show ?thesis by (auto simp: control_reach_def cluster_reach_def)
  qed
  have "bits_of affected = (if \<exists>control \<in> set controls. \<not> IsKnownControl control idx then {..<cluster_count B}
      else \<Union>control \<in> set controls. control_reach idx control)"
    unfolding affected AffectedByControls_bits [OF I(1,4)] I(2) by auto
  then have "\<forall>c. Test affected (int c) =
       (if \<exists>control \<in> set controls. \<not> IsKnownControl control idx then c < cluster_count B
        else \<exists>control \<in> set controls. \<exists>seed \<in> set (SeedsForControl control idx).
               (nat seed, c) \<in> (cluster_edges (cg_clusters (pg_clustering B)))\<^sup>*)"
    unfolding Test_bits reach by auto
  then show ?thesis using known by (simp add: affected(2) walked_def)
qed

lemma source_readers_affected:
  assumes "clusters_valid (cg_clusters (pg_clustering B))" "cluster_count B \<noteq> 0" and once: "compose_steps_once B"
    and "step \<in> set (pg_steps B)" "in_range (cluster_count B) (st_cluster step)" "reads_source B path step"
    and "nm_path u path \<noteq> []" "RigExecControlIdForPath u path \<in> set controls"
    and "c \<in> cluster_reach (cg_clusters (pg_clustering B)) (nat (st_cluster step))"
  shows "c \<in> bits_of (fst (AffectedByControls controls (Build_index u (RigExecBakedBuildCones resolved B) epoch)))"
proof -
  let ?B' = "RigExecBakedBuildCones resolved B" and ?id = "RigExecControlIdForPath u path"
  define idx where "idx = Build_index u ?B' epoch"
  have maps: "idx = mapped_index [] (Build_index u ?B' epoch)" by (simp add: idx_def mapped_index_def)
  note I = built_index [OF assms(1,2) maps]
  obtain i where "i < length (pg_steps B)" "step = pg_steps B ! i" using assms(4) by (auto simp: in_set_conv_nth)
  then have "(i, step) \<in> set (numbered_steps B)" by (simp add: numbered_steps_iff)
  from source_admitted [OF assms(2) once this assms(5,6)] obtain seeds where
    adm: "(?id, seeds) \<in> set (all_controls u ?B')" "st_cluster step \<in> set seeds" by blast
  note bc = built_cones [OF assms(1,2) refl, where resolved = resolved]
  have "st_cluster step \<in> set (SeedsForControl ?id idx)"
    unfolding idx_def Build_index_seeds [OF bc(1), unfolded bc(2), OF assms(2)]
    using adm assms(5,7) by (auto simp: RigExecControlIdForPath_def)
  moreover have "c \<in> bits_of (ai_cones idx ! nat (st_cluster step))"
    using I(3) [of "nat (st_cluster step)"] assms(5,9) by (simp add: in_range_def)
  ultimately have reach: "c \<in> control_reach idx ?id" unfolding control_reach_def by blast
  then have "c < ai_clusterCount idx" using control_reach_range [OF I(1,4)] by blast
  then show ?thesis
    unfolding idx_def [symmetric] AffectedByControls_bits [OF I(1,4)] using reach assms(8) by auto
qed

text \<open>C14. No reader of an edited source is missed. In a schedule with one compose step per provider,
  take any step that reads a source the index admits by its path: the compose step of the
  provider at that path, of a patchable avar or of a bound avar there, or a step that reads such
  an avar from another group; a step that declares a read of the base points of the chain with
  that target or of the points of that solver; a step of the revision with that mover; a
  constraint with that native source, delta base or array prim; or a step that a routed
  per-frame input behind the path reaches, by declaring it, through the avar bound to it or as a
  rest or ladder step over its leaf. When the path is among the edited controls, the index built
  from the cones answers a set with the step's cluster and every cluster reachable from it.\<close>

theorem edited_source_reruns_readers:
  assumes "clusters_valid (cg_clusters (pg_clustering B))" "cluster_count B \<noteq> 0" and once: "compose_steps_once B"
    and "step \<in> set (pg_steps B)" "in_range (cluster_count B) (st_cluster step)" "reads_source B path step"
    and "nm_path u path \<noteq> []" "RigExecControlIdForPath u path \<in> set controls"
    and "(nat (st_cluster step), c) \<in> (cluster_edges (cg_clusters (pg_clustering B)))\<^sup>*"
  shows "Test (fst (AffectedByControls controls (Build_index u (RigExecBakedBuildCones resolved B) epoch))) (int c)"
  using source_readers_affected [OF assms(1-8)] assms(9) by (simp add: Test_bits cluster_reach_def)

section \<open>Witnesses\<close>

text \<open>Three clusters, the first before the second; a step of the first reads the base points of the
  chain at \<open>/a\<close>, the third stands alone.\<close>

definition demo_step :: "int \<Rightarrow> baked_step" where
  "demo_step cluster = \<lparr> st_kind = K_RevisionFuse, st_object = -1,
     st_reads = (if cluster = 0 then [\<lparr> sr_domain = D_ChainBase, sr_begin = 0, sr_end = 1 \<rparr>] else []), st_isHead = False,
     st_externalReads = False, st_varyingInputs = False, st_overrideInputs = [], st_readerWalks = [], st_bindingLeaves = [],
     st_cluster = cluster \<rparr>"

definition demo_clusters :: "baked_cluster list" where
  "demo_clusters = [\<lparr> bc_members = [0], bc_preds = [], bc_succs = [1] \<rparr>,
     \<lparr> bc_members = [1], bc_preds = [0], bc_succs = [] \<rparr>, \<lparr> bc_members = [2], bc_preds = [], bc_succs = [] \<rparr>]"

definition demo_program :: "string baked_program" where
  "demo_program = \<lparr> pg_clustering = \<lparr> cg_clusters = demo_clusters, cg_clusterOf = [0, 1, 2], cg_topologicalOrder = [] \<rparr>,
     pg_steps = [demo_step 0, demo_step 1, demo_step 2], pg_cones = new_cones, pg_closed = [], pg_closedSteps = [],
     pg_paths = [], pg_avarBindings = [], pg_avarConstantBindings = [], pg_patchableAvars = [],
     pg_chains = [\<lparr> ch_target = ''/a'', ch_moverPaths = [] \<rparr>], pg_solverCount = 0, pg_solverIndex = [],
     pg_revisionIndex = [], pg_composeGroups = [], pg_walkSteps = [], pg_constraints = [], pg_nativeSources = [],
     pg_deltaBasePaths = [], pg_constraintArrays = [], pg_overriddenCount = 0, pg_overridableInputs = [], pg_folded = [],
     pg_ladderOverrides = [], pg_leafOfOverride = [], pg_leafCount = 0, pg_propertyVersionCount = 0,
     pg_weightFieldCount = 0, pg_readerWalkCount = 0 \<rparr>"

definition demo_path_names :: "string usd_names" where
  "demo_path_names = \<lparr> nm_path = (\<lambda>p. p), nm_type = (\<lambda>_. []), nm_empty = [] \<rparr>"

lemma demo_edges: "cluster_edges demo_clusters = {(0, 1)}"
  by (auto simp: cluster_edges_def demo_clusters_def less_Suc_eq numeral_3_eq_3)

lemma demo_valid: "clusters_valid (cg_clusters (pg_clustering demo_program))"
proof -
  have "acyclic (cluster_edges demo_clusters)"
    unfolding demo_edges by (rule acyclic_subset [OF wf_acyclic [OF wf_less]]) auto
  then show ?thesis
    unfolding clusters_valid_def
    by (auto simp: demo_program_def demo_clusters_def less_Suc_eq numeral_3_eq_3)
qed

lemma demo_count: "cluster_count demo_program = 3"
  by (simp add: cluster_count_def demo_program_def demo_clusters_def)

theorem affected_by_controls_exact_witness:
  "let idx = mapped_index [(''k'', [1])] (Build_index demo_path_names (RigExecBakedBuildCones [False, False, False] demo_program) 7)
   in IsKnownControl ''k'' idx \<and> \<not> IsKnownControl [] idx \<and>
      (\<forall>c. Test (fst (AffectedByControls [''k'', []] idx)) (int c) = (c < 3))"
proof -
  define idx where "idx = mapped_index [(''k'', [1])]
      (Build_index demo_path_names (RigExecBakedBuildCones [False, False, False] demo_program) 7)"
  have "cluster_count demo_program \<noteq> 0" by (simp add: demo_count)
  from affected_by_controls_exact [OF demo_valid this idx_def prod.collapse [symmetric], of "[''k'', []]"]
  show ?thesis unfolding idx_def [symmetric] Let_def by (simp add: demo_count)
qed

lemma demo_once: "compose_steps_once demo_program"
  by (simp add: compose_steps_once_def demo_program_def demo_step_def composes_def less_Suc_eq numeral_3_eq_3)

lemma demo_reads: "reads_source demo_program ''/a'' (demo_step 0)"
proof -
  have "reads_source demo_program (ch_target (pg_chains demo_program ! 0)) (demo_step 0)"
    by (rule reads_source.chain) (simp_all add: demo_program_def demo_step_def covers_def)
  then show ?thesis by (simp add: demo_program_def)
qed

theorem edited_source_reruns_readers_witness:
  "Test (fst (AffectedByControls [''/a''] (Build_index demo_path_names (RigExecBakedBuildCones [False, False, False] demo_program) 7))) (int 1)"
proof (rule edited_source_reruns_readers [OF demo_valid, where step = "demo_step 0" and path = "''/a''"])
  show "compose_steps_once demo_program" by (rule demo_once)
  show "reads_source demo_program ''/a'' (demo_step 0)" by (rule demo_reads)
  show "(nat (st_cluster (demo_step 0)), 1) \<in> (cluster_edges (cg_clusters (pg_clustering demo_program)))\<^sup>*"
    using demo_edges by (auto simp: demo_program_def demo_step_def)
qed (simp_all add: demo_count in_range_def demo_path_names_def RigExecControlIdForPath_def, simp_all add: demo_program_def demo_step_def)

end
