(* ===== verification/Warm_Scheduler.thy ===== *)
theory Warm_Scheduler
  imports Usd_Values
begin

text \<open>
  The background scheduler (\<open>backgroundScheduler.h\<close>, \<open>backgroundScheduler.cpp\<close>,
  \<open>generation.h\<close>): the job queue, the generation fence and the per-time fence tokens. Every
  method is one function of the scheduler's state; each critical section of the lock is
  atomic. Code the scheduler calls without holding its lock (the job factory, the work of a
  job) is a function that may change the scheduler, since any other method may run meanwhile.

  A rig path is a value of a linearly ordered type \<open>'r\<close>, a closure a value of a type \<open>'w\<close> (an
  empty \<open>std::function\<close> is \<open>None\<close>). A \<open>std::map\<close> is an ordered map. Generations and fence
  tokens are 64-bit words; the counters, which count single events, are naturals. The
  transition hook is the log of the transitions it was given. Profiler records and the
  condition variable leave no trace in the state.
\<close>

section \<open>Switches\<close>

datatype frame_cache_mode = ModeOn | ModeOff | ModeWarmOff

definition RigExecParseFrameCacheMode :: "string \<Rightarrow> frame_cache_mode" where
  "RigExecParseFrameCacheMode value =
     (if value = ''on'' then ModeOn else if value = ''off'' then ModeOff
      else if value = ''warm-off'' then ModeWarmOff else ModeOn)"

text \<open>The environment: the value of \<open>RIGEXEC_FRAME_CACHE\<close>, if set, and the library's parallel
  evaluation switch.\<close>

record host =
  h_frameCache :: "string option"
  h_parallel :: bool

definition RigExecFrameCacheModeFromEnvironment :: "host \<Rightarrow> frame_cache_mode" where
  "RigExecFrameCacheModeFromEnvironment h =
     RigExecParseFrameCacheMode (case h_frameCache h of None \<Rightarrow> ''on'' | Some value \<Rightarrow> value)"

definition warming_gate :: "frame_cache_mode \<Rightarrow> bool \<Rightarrow> bool" where
  "warming_gate mode parallelEvalEnabled \<longleftrightarrow> mode = ModeOn \<and> parallelEvalEnabled"

definition RigExecBackgroundWarmingEnabled :: "host \<Rightarrow> bool" where
  "RigExecBackgroundWarmingEnabled h = warming_gate (RigExecFrameCacheModeFromEnvironment h) (h_parallel h)"

section \<open>Data\<close>

datatype warm_priority = Neighbor | Sweep

fun priority_rank :: "warm_priority \<Rightarrow> nat" where
  "priority_rank Neighbor = 0"
| "priority_rank Sweep = 1"

record 'r warm_request =
  wr_rig :: 'r
  wr_time :: time_code
  wr_priority :: warm_priority
  wr_generation :: "64 word"
  wr_fenceToken :: "64 word"

datatype warm_outcome = Published | DeclinedInvalid | DeclinedGeneration

datatype warm_skip_reason = SkipNone | FreezeRefused | Unsampleable | D7Exempt

record 'w warm_factory_result =
  wf_work :: "'w option"
  wf_skip :: warm_skip_reason
  wf_detail :: string

record sampling_budget =
  sb_maxFactoryInvocations :: nat
  sb_maxMs :: double
  sb_startUs :: "64 word"

datatype transition_kind = Queued | Running | Finished | Canceled | Shed | DroppedStale | DroppedAtShutdown

record 'r warm_transition =
  wt_rig :: 'r
  wt_time :: double
  wt_kind :: transition_kind
  wt_outcome :: warm_outcome

record ('r, 'w) queued_job =
  qj_request :: "'r warm_request"
  qj_work :: 'w

text \<open>A queue key: the rank of the priority, then the enqueue sequence.\<close>

type_synonym queue_key = "nat \<times> nat"

record ('r, 'w) scheduler =
  s_generations :: "('r, 64 word) omap"
  s_queue :: "(queue_key, ('r, 'w) queued_job) omap"
  s_queuedByRigAndTime :: "('r \<times> double, queue_key) omap"
  s_runningByRigAndTime :: "('r \<times> double, nat) omap"
  s_fenceTokens :: "('r \<times> double, 64 word) omap"
  s_fenceCounters :: "('r, 64 word) omap"
  s_inFlight :: "('r, nat) omap"
  s_sequence :: nat
  s_running :: nat
  s_completed :: nat
  s_published :: nat
  s_declinedInvalid :: nat
  s_declinedGeneration :: nat
  s_droppedStale :: nat
  s_canceled :: nat
  s_shed :: nat
  s_coalesced :: nat
  s_upgraded :: nat
  s_declined :: nat
  s_declinedFreezeRefused :: nat
  s_declinedUnsampleable :: nat
  s_declinedD7Exempt :: nat
  s_factoryInvocations :: nat
  s_droppedAtShutdown :: nat
  s_hook :: bool
  s_log :: "'r warm_transition list"
  s_perRigCap :: nat
  s_workerCount :: nat
  s_stopping :: bool

record scheduler_stats =
  st_queuedDepth :: nat
  st_running :: nat
  st_completed :: nat
  st_published :: nat
  st_declinedInvalid :: nat
  st_declinedGeneration :: nat
  st_droppedStale :: nat
  st_canceled :: nat
  st_shed :: nat
  st_coalesced :: nat
  st_upgraded :: nat
  st_declined :: nat
  st_declinedFreezeRefused :: nat
  st_declinedUnsampleable :: nat
  st_declinedD7Exempt :: nat
  st_droppedAtShutdown :: nat
  st_factoryInvocations :: nat

section \<open>Construction and plain queries\<close>

text \<open>The pool has as many workers as asked for, between 0 and 4, unless the system starts only
  \<open>started\<close> of them.\<close>

definition new_scheduler :: "int \<Rightarrow> nat \<Rightarrow> ('r, 'w) scheduler" where
  "new_scheduler workerCount started =
     \<lparr>s_generations = [], s_queue = [], s_queuedByRigAndTime = [], s_runningByRigAndTime = [],
      s_fenceTokens = [], s_fenceCounters = [], s_inFlight = [], s_sequence = 0, s_running = 0, s_completed = 0,
      s_published = 0, s_declinedInvalid = 0, s_declinedGeneration = 0, s_droppedStale = 0, s_canceled = 0,
      s_shed = 0, s_coalesced = 0, s_upgraded = 0, s_declined = 0, s_declinedFreezeRefused = 0,
      s_declinedUnsampleable = 0, s_declinedD7Exempt = 0, s_factoryInvocations = 0, s_droppedAtShutdown = 0,
      s_hook = False, s_log = [], s_perRigCap = 96,
      s_workerCount = min (nat (if 4 < workerCount then 4 else workerCount)) started, s_stopping = False\<rparr>"

definition SetTransitionHook :: "bool \<Rightarrow> ('r, 'w) scheduler \<Rightarrow> ('r, 'w) scheduler" where
  "SetTransitionHook hook s = s\<lparr>s_hook := hook\<rparr>"

definition report ::
  "'r warm_request \<Rightarrow> transition_kind \<Rightarrow> warm_outcome \<Rightarrow> ('r, 'w) scheduler \<Rightarrow> ('r, 'w) scheduler" where
  "report request kind out s =
     (if \<not> s_hook s then s
      else s\<lparr>s_log := s_log s @ [\<lparr>wt_rig = wr_rig request, wt_time = time_value (wr_time request),
              wt_kind = kind, wt_outcome = out\<rparr>]\<rparr>)"

definition CurrentGeneration :: "('r, 'w) scheduler \<Rightarrow> 'r \<Rightarrow> 64 word" where
  "CurrentGeneration s rig = (case map_of (s_generations s) rig of None \<Rightarrow> 0 | Some g \<Rightarrow> g)"

definition IsGenerationCurrent :: "('r, 'w) scheduler \<Rightarrow> 'r \<Rightarrow> 64 word \<Rightarrow> bool" where
  "IsGenerationCurrent s rig generation \<longleftrightarrow> CurrentGeneration s rig = generation"

definition InFlightCount :: "('r, 'w) scheduler \<Rightarrow> 'r \<Rightarrow> nat" where
  "InFlightCount s rig = (case map_of (s_inFlight s) rig of None \<Rightarrow> 0 | Some n \<Rightarrow> n)"

definition current_fence_token :: "('r, 'w) scheduler \<Rightarrow> 'r \<Rightarrow> double \<Rightarrow> 64 word" where
  "current_fence_token s rig t = (case map_of (s_fenceTokens s) (rig, t) of None \<Rightarrow> 0 | Some k \<Rightarrow> k)"

definition CurrentFenceToken :: "('r, 'w) scheduler \<Rightarrow> 'r \<Rightarrow> time_code \<Rightarrow> 64 word" where
  "CurrentFenceToken s rig time = (if \<not> usable_time time then 0 else current_fence_token s rig (time_value time))"

definition IsWarmRequestCurrent :: "('r, 'w) scheduler \<Rightarrow> 'r \<Rightarrow> 64 word \<Rightarrow> time_code \<Rightarrow> 64 word \<Rightarrow> bool" where
  "IsWarmRequestCurrent s rig generation time fenceToken =
     (if CurrentGeneration s rig \<noteq> generation then False
      else if \<not> usable_time time then fenceToken = 0
      else current_fence_token s rig (time_value time) = fenceToken)"

definition QueuedTimes :: "('r, 'w) scheduler \<Rightarrow> 'r \<Rightarrow> time_code list" where
  "QueuedTimes s rig = map (\<lambda>e. TimeValue (snd (fst e))) (filter (\<lambda>e. fst (fst e) = rig) (s_queuedByRigAndTime s))"

definition InFlightTimes :: "('r, 'w) scheduler \<Rightarrow> 'r \<Rightarrow> time_code list" where
  "InFlightTimes s rig = map TimeValue (vec_unique
     (map (\<lambda>e. snd (fst e)) (filter (\<lambda>e. fst (fst e) = rig) (s_queuedByRigAndTime s)) @
      map (\<lambda>e. snd (fst e)) (filter (\<lambda>e. fst (fst e) = rig) (s_runningByRigAndTime s))))"

definition SetPerRigJobCap :: "nat \<Rightarrow> ('r, 'w) scheduler \<Rightarrow> ('r, 'w) scheduler" where
  "SetPerRigJobCap cap s = s\<lparr>s_perRigCap := cap\<rparr>"

definition GetPerRigJobCap :: "('r, 'w) scheduler \<Rightarrow> nat" where
  "GetPerRigJobCap s = s_perRigCap s"

definition Stats :: "('r, 'w) scheduler \<Rightarrow> scheduler_stats" where
  "Stats s = \<lparr>st_queuedDepth = length (s_queue s), st_running = s_running s, st_completed = s_completed s,
     st_published = s_published s, st_declinedInvalid = s_declinedInvalid s,
     st_declinedGeneration = s_declinedGeneration s, st_droppedStale = s_droppedStale s,
     st_canceled = s_canceled s, st_shed = s_shed s, st_coalesced = s_coalesced s, st_upgraded = s_upgraded s,
     st_declined = s_declined s, st_declinedFreezeRefused = s_declinedFreezeRefused s,
     st_declinedUnsampleable = s_declinedUnsampleable s, st_declinedD7Exempt = s_declinedD7Exempt s,
     st_droppedAtShutdown = s_droppedAtShutdown s, st_factoryInvocations = s_factoryInvocations s\<rparr>"

text \<open>What \<open>WaitUntilIdle\<close> waits for.\<close>

definition idle_or_stopping :: "('r, 'w) scheduler \<Rightarrow> bool" where
  "idle_or_stopping s \<longleftrightarrow> s_stopping s \<or> (s_queue s = [] \<and> s_running s = 0)"

section \<open>Purges\<close>

definition leave_flight :: "'r::linorder \<Rightarrow> ('r, 'w) scheduler \<Rightarrow> ('r, 'w) scheduler" where
  "leave_flight rig s =
     (case map_of (s_inFlight s) rig of
        Some n \<Rightarrow> if 0 < n
          then if n - 1 = 0 then s\<lparr>s_inFlight := omap_erase rig (s_inFlight s)\<rparr>
               else s\<lparr>s_inFlight := omap_put rig (n - 1) (s_inFlight s)\<rparr>
          else s
      | None \<Rightarrow> s)"

text \<open>The body the purging loops share: forget the time, report, erase the job, lower the rig's
  count and count the purge.\<close>

definition count_purge :: "transition_kind \<Rightarrow> ('r, 'w) scheduler \<Rightarrow> ('r, 'w) scheduler" where
  "count_purge kind s =
     (if kind = Shed then s\<lparr>s_shed := s_shed s + 1\<rparr>
      else s\<lparr>s_canceled := s_canceled s + 1\<rparr>)"

definition purge_entry ::
  "transition_kind \<Rightarrow> ('r::linorder, 'w) scheduler \<Rightarrow> queue_key \<times> ('r, 'w) queued_job \<Rightarrow> ('r, 'w) scheduler" where
  "purge_entry kind s e =
     (let request = qj_request (snd e);
          s1 = s\<lparr>s_queuedByRigAndTime := omap_erase (wr_rig request, time_value (wr_time request)) (s_queuedByRigAndTime s)\<rparr>;
          s2 = report request kind Published s1;
          s3 = s2\<lparr>s_queue := omap_erase (fst e) (s_queue s2)\<rparr>
      in count_purge kind (leave_flight (wr_rig request) s3))"

definition purge_where ::
  "('r warm_request \<Rightarrow> bool) \<Rightarrow> transition_kind \<Rightarrow> ('r::linorder, 'w) scheduler \<Rightarrow> ('r, 'w) scheduler" where
  "purge_where retire kind s =
     foldl (\<lambda>s e. if \<not> retire (qj_request (snd e)) then s else purge_entry kind s e) s (s_queue s)"

definition CancelGeneration :: "'r::linorder \<Rightarrow> ('r, 'w) scheduler \<Rightarrow> ('r, 'w) scheduler" where
  "CancelGeneration rig s =
     purge_where (\<lambda>request. wr_rig request = rig) Canceled
       (s\<lparr>s_generations := omap_put rig (CurrentGeneration s rig + 1) (s_generations s)\<rparr>)"

definition ResetRig :: "'r::linorder \<Rightarrow> ('r, 'w) scheduler \<Rightarrow> ('r, 'w) scheduler" where
  "ResetRig rig s =
     (let s1 = s\<lparr>s_fenceCounters := omap_erase rig (s_fenceCounters s),
                 s_fenceTokens := filter (\<lambda>e. fst (fst e) \<noteq> rig) (s_fenceTokens s)\<rparr>;
          s2 = purge_where (\<lambda>request. wr_rig request = rig) Canceled s1
      in s2\<lparr>s_inFlight := omap_erase rig (s_inFlight s2)\<rparr>)"

text \<open>One affected time: the next value of the rig's counter becomes its token.\<close>

definition assign_token :: "'r::linorder \<Rightarrow> ('r, 'w) scheduler \<Rightarrow> double \<Rightarrow> ('r, 'w) scheduler" where
  "assign_token rig s t =
     (let counter = (case map_of (s_fenceCounters s) rig of None \<Rightarrow> 0 | Some k \<Rightarrow> k) + 1
      in s\<lparr>s_fenceCounters := omap_put rig counter (s_fenceCounters s),
           s_fenceTokens := omap_put (rig, t) counter (s_fenceTokens s)\<rparr>)"

definition affected_times :: "time_code list \<Rightarrow> double list" where
  "affected_times codes = vec_unique (map time_value (filter usable_time codes))"

definition CancelGenerationTimes ::
  "'r::linorder \<Rightarrow> time_code list \<Rightarrow> ('r, 'w) scheduler \<Rightarrow> nat \<times> ('r, 'w) scheduler" where
  "CancelGenerationTimes rig codes s =
     (let affected = affected_times codes;
          retire = (\<lambda>request. wr_rig request = rig \<and> time_value (wr_time request) \<in> set affected);
          s1 = foldl (assign_token rig) s affected
      in (length (filter (\<lambda>e. retire (qj_request (snd e))) (s_queue s1)), purge_where retire Canceled s1))"

text \<open>\<open>request.time > playhead\<close> of \<open>NotePlaybackAdvanced\<close>, whose playhead is finite and whose
  queued times are.\<close>

definition NotePlaybackAdvanced ::
  "'r::linorder \<Rightarrow> time_code \<Rightarrow> ('r, 'w) scheduler \<Rightarrow> nat \<times> ('r, 'w) scheduler" where
  "NotePlaybackAdvanced rig playhead s =
     (if \<not> usable_time playhead then (0, s)
      else let retire = (\<lambda>request. \<not> (wr_rig request \<noteq> rig \<or> wr_priority request \<noteq> Sweep \<or>
                 double_greater (time_value (wr_time request)) (time_value playhead)))
           in (length (filter (\<lambda>e. retire (qj_request (snd e))) (s_queue s)), purge_where retire Shed s))"

section \<open>Enqueueing\<close>

definition decline :: "('r, 'w) scheduler \<Rightarrow> ('r, 'w) scheduler" where
  "decline s = s\<lparr>s_declined := s_declined s + 1\<rparr>"

definition merge_if_queued ::
  "'r::linorder \<times> double \<Rightarrow> warm_priority \<Rightarrow> ('r, 'w) scheduler \<Rightarrow> bool \<times> ('r, 'w) scheduler" where
  "merge_if_queued coalesceKey priority s =
     (case map_of (s_queuedByRigAndTime s) coalesceKey of
        None \<Rightarrow> (False, s)
      | Some oldKey \<Rightarrow>
        (case map_of (s_queue s) oldKey of
           Some job \<Rightarrow>
             if priority = Neighbor \<and> wr_priority (qj_request job) = Sweep
             then let promoted = job\<lparr>qj_request := (qj_request job)\<lparr>wr_priority := Neighbor\<rparr>\<rparr>;
                      newKey = (priority_rank Neighbor, snd oldKey)
                  in (True, s\<lparr>s_queue := omap_emplace newKey promoted (omap_erase oldKey (s_queue s)),
                       s_queuedByRigAndTime := omap_put coalesceKey newKey (s_queuedByRigAndTime s),
                       s_upgraded := s_upgraded s + 1\<rparr>)
             else (True, s\<lparr>s_coalesced := s_coalesced s + 1\<rparr>)
         | None \<Rightarrow> (True, s\<lparr>s_coalesced := s_coalesced s + 1\<rparr>)))"

definition insert_job ::
  "'r::linorder \<Rightarrow> time_code \<Rightarrow> warm_priority \<Rightarrow> 64 word \<Rightarrow> 'w \<Rightarrow> ('r, 'w) scheduler \<Rightarrow> ('r, 'w) scheduler" where
  "insert_job rig time priority generation work s =
     (let t = time_value time;
          request = \<lparr>wr_rig = rig, wr_time = time, wr_priority = priority, wr_generation = generation,
                     wr_fenceToken = current_fence_token s rig t\<rparr>;
          key = (priority_rank priority, s_sequence s)
      in report request Queued Published
           (s\<lparr>s_sequence := s_sequence s + 1,
              s_queue := omap_emplace key \<lparr>qj_request = request, qj_work = work\<rparr> (s_queue s),
              s_queuedByRigAndTime := omap_emplace (rig, t) key (s_queuedByRigAndTime s),
              s_inFlight := omap_put rig (InFlightCount s rig + 1) (s_inFlight s)\<rparr>))"

definition Enqueue ::
  "host \<Rightarrow> 'r::linorder \<Rightarrow> time_code \<Rightarrow> warm_priority \<Rightarrow> 64 word \<Rightarrow> 'w option \<Rightarrow>
     ('r, 'w) scheduler \<Rightarrow> bool \<times> ('r, 'w) scheduler" where
  "Enqueue h rig time priority generation work s =
     (if \<not> RigExecBackgroundWarmingEnabled h then (False, decline s)
      else if \<not> usable_time time then (False, decline s)
      else case work of None \<Rightarrow> (False, decline s)
      | Some w \<Rightarrow>
        if s_stopping s then (False, decline s)
        else if CurrentGeneration s rig \<noteq> generation then (False, decline s)
        else case merge_if_queued (rig, time_value time) priority s of
          (True, s') \<Rightarrow> (True, s')
        | (False, s') \<Rightarrow>
          if s_perRigCap s' \<le> InFlightCount s' rig then (False, decline s')
          else (True, insert_job rig time priority generation w s'))"

section \<open>Triggers\<close>

text \<open>The sampling ledger of one trigger. The clock is the sequence of values \<open>NowUs()\<close> returns,
  with the number of readings taken so far.\<close>

record ledger =
  l_budget :: sampling_budget
  l_invocations :: nat
  l_startUs :: "64 word"
  l_clock :: "nat \<Rightarrow> 64 word"
  l_readings :: nat

datatype trigger_outcome = Enqueued | Skipped | Stop

type_synonym ('r, 'w) job_factory = "time_code \<Rightarrow> ('r, 'w) scheduler \<Rightarrow> 'w warm_factory_result \<times> ('r, 'w) scheduler"

text \<open>What both critical sections of a trigger decide first; \<open>None\<close> goes on.\<close>

definition trigger_admit ::
  "'r::linorder \<Rightarrow> time_code \<Rightarrow> warm_priority \<Rightarrow> 64 word \<Rightarrow> ('r, 'w) scheduler \<Rightarrow>
     trigger_outcome option \<times> ('r, 'w) scheduler" where
  "trigger_admit rig time priority generation s =
     (if s_stopping s \<or> CurrentGeneration s rig \<noteq> generation then (Some Stop, s)
      else case merge_if_queued (rig, time_value time) priority s of
        (True, s') \<Rightarrow> (Some Skipped, s')
      | (False, s') \<Rightarrow> if s_perRigCap s' \<le> InFlightCount s' rig then (Some Stop, s') else (None, s'))"

definition budget_spent :: "ledger \<Rightarrow> bool \<times> ledger" where
  "budget_spent l =
     (if sb_maxFactoryInvocations (l_budget l) \<le> l_invocations l then (True, l)
      else if double_less (sb_maxMs (l_budget l)) PosInf
      then let now = l_clock l (l_readings l)
           in (double_le (sb_maxMs (l_budget l)) (double_div_fin (double_of_int (uint (now - l_startUs l))) 1000),
               l\<lparr>l_readings := l_readings l + 1\<rparr>)
      else (False, l))"

definition note_factory :: "('r, 'w) scheduler \<Rightarrow> ('r, 'w) scheduler" where
  "note_factory s = s\<lparr>s_factoryInvocations := s_factoryInvocations s + 1\<rparr>"

definition note_skip :: "warm_skip_reason \<Rightarrow> ('r, 'w) scheduler \<Rightarrow> ('r, 'w) scheduler" where
  "note_skip skip s =
     (case skip of
        SkipNone \<Rightarrow> s
      | FreezeRefused \<Rightarrow> (decline s)\<lparr>s_declinedFreezeRefused := s_declinedFreezeRefused s + 1\<rparr>
      | Unsampleable \<Rightarrow> (decline s)\<lparr>s_declinedUnsampleable := s_declinedUnsampleable s + 1\<rparr>
      | D7Exempt \<Rightarrow> (decline s)\<lparr>s_declinedD7Exempt := s_declinedD7Exempt s + 1\<rparr>)"

definition enqueue_trigger_time ::
  "'r::linorder \<Rightarrow> time_code \<Rightarrow> warm_priority \<Rightarrow> 64 word \<Rightarrow> ('r, 'w) job_factory option \<Rightarrow>
     ledger \<times> ('r, 'w) scheduler \<Rightarrow> trigger_outcome \<times> ledger \<times> ('r, 'w) scheduler" where
  "enqueue_trigger_time rig time priority generation factory = (\<lambda>(l, s).
     if \<not> usable_time time then (Skipped, l, s)
     else case trigger_admit rig time priority generation s of
       (Some out, s1) \<Rightarrow> (out, l, s1)
     | (None, s1) \<Rightarrow>
       case budget_spent l of
         (True, l1) \<Rightarrow> (Stop, l1, s1)
       | (False, l1) \<Rightarrow>
         let (built, l2, s2) = (case factory of
               None \<Rightarrow> (\<lparr>wf_work = None, wf_skip = SkipNone, wf_detail = []\<rparr>, l1, s1)
             | Some f \<Rightarrow> let (built, s') = f time s1
                 in (built, l1\<lparr>l_invocations := l_invocations l1 + 1\<rparr>, note_factory s'))
         in case wf_work built of
              None \<Rightarrow> (Skipped, l2, note_skip (wf_skip built) s2)
            | Some work \<Rightarrow>
              case trigger_admit rig time priority generation s2 of
                (Some out, s3) \<Rightarrow> (out, l2, s3)
              | (None, s3) \<Rightarrow> (Enqueued, l2, insert_job rig time priority generation work s3))"

text \<open>A burst: the times in order, the playhead left out, up to the first stop. The result says
  whether the burst was stopped and how many jobs it enqueued.\<close>

fun enqueue_times ::
  "(time_code \<Rightarrow> ledger \<times> ('r, 'w) scheduler \<Rightarrow> trigger_outcome \<times> ledger \<times> ('r, 'w) scheduler) \<Rightarrow>
     time_code \<Rightarrow> nat \<Rightarrow> time_code list \<Rightarrow> ledger \<times> ('r, 'w) scheduler \<Rightarrow> bool \<times> nat \<times> ledger \<times> ('r, 'w) scheduler" where
  "enqueue_times f playhead n [] ls = (False, n, ls)"
| "enqueue_times f playhead n (time # codes) ls =
     (if time_eq time playhead then enqueue_times f playhead n codes ls
      else case f time ls of
        (Stop, ls') \<Rightarrow> (True, n, ls')
      | (Enqueued, ls') \<Rightarrow> enqueue_times f playhead (n + 1) codes ls'
      | (Skipped, ls') \<Rightarrow> enqueue_times f playhead n codes ls')"

text \<open>The neighbors, closest first, and before after.\<close>

definition neighbor_times :: "double \<Rightarrow> int \<Rightarrow> time_code list" where
  "neighbor_times center radius =
     concat (map (\<lambda>step. [TimeValue (double_add center (double_of_int (- step))),
                          TimeValue (double_add center (double_of_int step))]) [1..radius])"

definition enqueue_sweep_times ::
  "'r::linorder \<Rightarrow> time_code \<Rightarrow> 64 word \<Rightarrow> time_code list \<Rightarrow> ('r, 'w) job_factory option \<Rightarrow>
     nat \<Rightarrow> ledger \<times> ('r, 'w) scheduler \<Rightarrow> nat \<times> ledger \<times> ('r, 'w) scheduler" where
  "enqueue_sweep_times rig playhead generation sweepTimes factory enqueued ls =
     (case factory of None \<Rightarrow> (enqueued, ls)
      | Some f \<Rightarrow> snd (enqueue_times (\<lambda>time. enqueue_trigger_time rig time Sweep generation factory)
          playhead enqueued sweepTimes ls))"

definition start_ledger :: "sampling_budget \<Rightarrow> (nat \<Rightarrow> 64 word) \<Rightarrow> ledger" where
  "start_ledger budget clock =
     (if sb_startUs budget \<noteq> 0
      then \<lparr>l_budget = budget, l_invocations = 0, l_startUs = sb_startUs budget, l_clock = clock, l_readings = 0\<rparr>
      else \<lparr>l_budget = budget, l_invocations = 0, l_startUs = clock 0, l_clock = clock, l_readings = 1\<rparr>)"

definition OnEditCommitted ::
  "host \<Rightarrow> (nat \<Rightarrow> 64 word) \<Rightarrow> 'r::linorder \<Rightarrow> time_code \<Rightarrow> 64 word \<Rightarrow> time_code list \<Rightarrow> ('r, 'w) job_factory option \<Rightarrow>
     int \<Rightarrow> sampling_budget \<Rightarrow> ('r, 'w) scheduler \<Rightarrow> nat \<times> ledger \<times> ('r, 'w) scheduler" where
  "OnEditCommitted h clock rig playhead generation sweepTimes factory neighborRadius budget s =
     (let l = start_ledger budget clock in
      if \<not> usable_time playhead then (0, l, s)
      else if \<not> RigExecBackgroundWarmingEnabled h then (0, l, s)
      else if 0 < neighborRadius \<and> factory \<noteq> None
      then case enqueue_times (\<lambda>time. enqueue_trigger_time rig time Neighbor generation factory)
             playhead 0 (neighbor_times (time_value playhead) neighborRadius) (l, s) of
          (True, n, ls) \<Rightarrow> (n, ls)
        | (False, n, ls) \<Rightarrow> enqueue_sweep_times rig playhead generation sweepTimes factory n ls
      else enqueue_sweep_times rig playhead generation sweepTimes factory 0 (l, s))"

definition OnIdle ::
  "host \<Rightarrow> (nat \<Rightarrow> 64 word) \<Rightarrow> 'r::linorder \<Rightarrow> time_code \<Rightarrow> 64 word \<Rightarrow> time_code list \<Rightarrow> ('r, 'w) job_factory option \<Rightarrow>
     sampling_budget \<Rightarrow> ('r, 'w) scheduler \<Rightarrow> nat \<times> ledger \<times> ('r, 'w) scheduler" where
  "OnIdle h clock rig playhead generation sweepTimes factory budget s =
     (let l = start_ledger budget clock in
      if \<not> usable_time playhead then (0, l, s)
      else if \<not> RigExecBackgroundWarmingEnabled h then (0, l, s)
      else enqueue_sweep_times rig playhead generation sweepTimes factory 0 (l, s))"

section \<open>Running jobs\<close>

text \<open>Taking the first queued job. A waiting caller sleeps until it can have one of the other two
  answers; \<open>Blocks\<close> is that sleep.\<close>

datatype ('r, 'w) pop_result = Popped "('r, 'w) queued_job" | NoJob | Blocks

definition PopJob :: "bool \<Rightarrow> ('r::linorder, 'w) scheduler \<Rightarrow> ('r, 'w) pop_result \<times> ('r, 'w) scheduler" where
  "PopJob wait s =
     (if s_stopping s then (NoJob, s)
      else case s_queue s of
        [] \<Rightarrow> (if wait then Blocks else NoJob, s)
      | (key, job) # rest \<Rightarrow>
        let request = qj_request job; slot = (wr_rig request, time_value (wr_time request));
            running = (case map_of (s_runningByRigAndTime s) slot of None \<Rightarrow> 0 | Some n \<Rightarrow> n)
        in (Popped job, report request Running Published
             (s\<lparr>s_queuedByRigAndTime := omap_erase slot (s_queuedByRigAndTime s), s_queue := rest,
                s_running := s_running s + 1,
                s_runningByRigAndTime := omap_put slot (running + 1) (s_runningByRigAndTime s)\<rparr>)))"

definition leave_running :: "'r::linorder warm_request \<Rightarrow> ('r, 'w) scheduler \<Rightarrow> ('r, 'w) scheduler" where
  "leave_running request s =
     (let slot = (wr_rig request, time_value (wr_time request)) in
      case map_of (s_runningByRigAndTime s) slot of
        None \<Rightarrow> s
      | Some n \<Rightarrow> if n - 1 = 0 then s\<lparr>s_runningByRigAndTime := omap_erase slot (s_runningByRigAndTime s)\<rparr>
          else s\<lparr>s_runningByRigAndTime := omap_put slot (n - 1) (s_runningByRigAndTime s)\<rparr>)"

definition FinishJob :: "'r::linorder warm_request \<Rightarrow> bool \<Rightarrow> warm_outcome \<Rightarrow> ('r, 'w) scheduler \<Rightarrow> ('r, 'w) scheduler" where
  "FinishJob request completed out s =
     (let s1 = s\<lparr>s_running := s_running s - 1\<rparr>;
          s2 = leave_flight (wr_rig request) (leave_running request s1)
      in if completed
         then let s3 = s2\<lparr>s_completed := s_completed s2 + 1\<rparr>;
                  s4 = (case out of
                      Published \<Rightarrow> s3\<lparr>s_published := s_published s3 + 1\<rparr>
                    | DeclinedGeneration \<Rightarrow> s3\<lparr>s_declinedGeneration := s_declinedGeneration s3 + 1\<rparr>
                    | DeclinedInvalid \<Rightarrow> s3\<lparr>s_declinedInvalid := s_declinedInvalid s3 + 1\<rparr>)
              in report request Finished out s4
         else report request DroppedStale Published (s2\<lparr>s_droppedStale := s_droppedStale s2 + 1\<rparr>))"

text \<open>The work of a job answers an outcome, or \<open>None\<close> when it throws.\<close>

type_synonym ('r, 'w) work_runner = "'w \<Rightarrow> 'r warm_request \<Rightarrow> ('r, 'w) scheduler \<Rightarrow> warm_outcome option \<times> ('r, 'w) scheduler"

definition ExecutePoppedJob ::
  "('r::linorder, 'w) work_runner \<Rightarrow> ('r, 'w) queued_job \<Rightarrow> ('r, 'w) scheduler \<Rightarrow> bool \<times> ('r, 'w) scheduler" where
  "ExecutePoppedJob run_work job s =
     (let request = qj_request job in
      if \<not> IsGenerationCurrent s (wr_rig request) (wr_generation request)
      then (False, FinishJob request False DeclinedInvalid s)
      else let (answer, s') = run_work (qj_work job) request s;
               out = (case answer of Some out \<Rightarrow> out | None \<Rightarrow> DeclinedInvalid)
           in (True, FinishJob request True out s'))"

definition RunNextQueuedForTesting ::
  "('r::linorder, 'w) work_runner \<Rightarrow> ('r, 'w) scheduler \<Rightarrow> bool \<times> ('r, 'w) scheduler" where
  "RunNextQueuedForTesting run_work s =
     (case PopJob False s of
        (Popped job, s') \<Rightarrow> (True, snd (ExecutePoppedJob run_work job s'))
      | (_, s') \<Rightarrow> (False, s'))"

text \<open>The drain ends when the queue is empty; work that keeps enqueueing keeps it going.\<close>

partial_function (option) drain_queue ::
  "('r::linorder, 'w) work_runner \<Rightarrow> nat \<Rightarrow> ('r, 'w) scheduler \<Rightarrow> (nat \<times> ('r, 'w) scheduler) option" where
  "drain_queue run_work taken s =
     (case PopJob False s of
        (Popped job, s1) \<Rightarrow>
          (case ExecutePoppedJob run_work job s1 of
             (ok, s2) \<Rightarrow> drain_queue run_work (if ok then taken + 1 else taken) s2)
      | (NoJob, s1) \<Rightarrow> Some (taken, s1)
      | (Blocks, s1) \<Rightarrow> Some (taken, s1))"

definition DrainQueueForTesting ::
  "('r::linorder, 'w) work_runner \<Rightarrow> ('r, 'w) scheduler \<Rightarrow> (nat \<times> ('r, 'w) scheduler) option" where
  "DrainQueueForTesting run_work s = drain_queue run_work 0 s"

section \<open>Shutdown\<close>

definition stop_pool :: "('r, 'w) scheduler \<Rightarrow> ('r, 'w) scheduler" where
  "stop_pool s = s\<lparr>s_stopping := True\<rparr>"

text \<open>After the workers are joined: what is still queued is dropped and counted.\<close>

definition drop_at_shutdown ::
  "('r::linorder, 'w) scheduler \<Rightarrow> queue_key \<times> ('r, 'w) queued_job \<Rightarrow> ('r, 'w) scheduler" where
  "drop_at_shutdown s e =
     (let s1 = report (qj_request (snd e)) DroppedAtShutdown Published
                 (leave_flight (wr_rig (qj_request (snd e))) s)
      in s1\<lparr>s_droppedAtShutdown := s_droppedAtShutdown s1 + 1\<rparr>)"

definition drop_queue :: "('r::linorder, 'w) scheduler \<Rightarrow> ('r, 'w) scheduler" where
  "drop_queue s = (foldl drop_at_shutdown s (s_queue s))\<lparr>s_queue := [], s_queuedByRigAndTime := []\<rparr>"

section \<open>The generation checks\<close>

definition RigExecGenerationCheckAtStart :: "('r, 'w) scheduler \<Rightarrow> 'r \<Rightarrow> 64 word \<Rightarrow> bool" where
  "RigExecGenerationCheckAtStart s rig generation = IsGenerationCurrent s rig generation"

definition RigExecGenerationCheckBeforePublish :: "('r, 'w) scheduler \<Rightarrow> 'r \<Rightarrow> 64 word \<Rightarrow> bool" where
  "RigExecGenerationCheckBeforePublish s rig generation = IsGenerationCurrent s rig generation"

definition RigExecShouldEnqueueBackgroundJob :: "bool \<Rightarrow> bool" where
  "RigExecShouldEnqueueBackgroundJob bakeRefused \<longleftrightarrow> \<not> bakeRefused"

definition RigExecShouldMemoizeUiThreadResult :: "bool \<Rightarrow> bool" where
  "RigExecShouldMemoizeUiThreadResult bakeRefused = True"

end
