(* ===== verification/Warm_Queue.thy ===== *)
theory Warm_Queue
  imports Warm_Scheduler
begin

text \<open>
  What the scheduler's operations do to its state, field by field, and the invariant of the
  queue and its coalescing index with its preservation by every operation.
\<close>

section \<open>Effects as updates\<close>

definition leave_map :: "('r::linorder, nat) omap \<Rightarrow> 'r \<Rightarrow> ('r, nat) omap" where
  "leave_map m rig = (case map_of m rig of None \<Rightarrow> m
     | Some n \<Rightarrow> if n = 0 then m else if n = 1 then omap_erase rig m else omap_put rig (n - 1) m)"

definition log_of :: "('r, 'w) scheduler \<Rightarrow> 'r warm_request \<Rightarrow> transition_kind \<Rightarrow> warm_outcome \<Rightarrow> 'r warm_transition list" where
  "log_of s request kind out = (if s_hook s then [\<lparr>wt_rig = wr_rig request, wt_time = time_value (wr_time request),
      wt_kind = kind, wt_outcome = out\<rparr>] else [])"

lemma log_of_hook: "s_hook s = s_hook s' \<Longrightarrow> log_of s = log_of s'"
  by (intro ext) (simp add: log_of_def)

lemma report_eq: "report request kind out s = s\<lparr>s_log := s_log s @ log_of s request kind out\<rparr>"
  by (simp add: report_def log_of_def)

lemma leave_flight_eq: "leave_flight rig s = s\<lparr>s_inFlight := leave_map (s_inFlight s) rig\<rparr>"
  by (auto simp: leave_flight_def leave_map_def split: option.splits)

definition count_of :: "('k \<rightharpoonup> nat) \<Rightarrow> 'k \<Rightarrow> nat" where
  "count_of m k = (case m k of None \<Rightarrow> 0 | Some n \<Rightarrow> n)"

lemma count_of_simps [simp]:
  "m k = None \<Longrightarrow> count_of m k = 0" "m k = Some n \<Longrightarrow> count_of m k = n"
  "count_of (m(k \<mapsto> n)) l = (if k = l then n else count_of m l)"
  "count_of (m(k := None)) l = (if k = l then 0 else count_of m l)"
  by (simp_all add: count_of_def)

lemma InFlightCount_eq: "InFlightCount s rig = count_of (map_of (s_inFlight s)) rig"
  by (simp add: InFlightCount_def count_of_def)

definition positive_counts :: "('k::linorder, nat) omap \<Rightarrow> bool" where
  "positive_counts m \<longleftrightarrow> omap_wf m \<and> (\<forall>k n. map_of m k = Some n \<longrightarrow> 0 < n)"

lemma positive_counts_Nil [simp]: "positive_counts []"
  by (simp add: positive_counts_def)

lemma positive_counts_put: "positive_counts m \<Longrightarrow> 0 < n \<Longrightarrow> positive_counts (omap_put k n m)"
  by (simp add: positive_counts_def)

lemma positive_counts_erase: "positive_counts m \<Longrightarrow> positive_counts (omap_erase k m)"
  by (simp add: positive_counts_def)

lemma count_leave_map: "count_of (map_of (leave_map m rig)) k = count_of (map_of m) k - (if k = rig then 1 else 0)"
  by (auto simp: leave_map_def split: option.splits)

lemma positive_leave_map: "positive_counts m \<Longrightarrow> positive_counts (leave_map m rig)"
  by (auto simp: leave_map_def positive_counts_def split: option.splits)

lemma count_leave_maps:
  "count_of (map_of (foldl leave_map m rigs)) k = count_of (map_of m) k - count_list rigs k"
  by (induction rigs arbitrary: m) (auto simp: count_leave_map)

lemma positive_leave_maps: "positive_counts m \<Longrightarrow> positive_counts (foldl leave_map m rigs)"
  by (induction rigs arbitrary: m) (auto simp: positive_leave_map)

section \<open>The queue invariant\<close>

abbreviation request_slot :: "'r warm_request \<Rightarrow> 'r \<times> double" where
  "request_slot request \<equiv> (wr_rig request, time_value (wr_time request))"

abbreviation job_slot :: "('r, 'w) queued_job \<Rightarrow> 'r \<times> double" where
  "job_slot job \<equiv> request_slot (qj_request job)"

definition queue_inv :: "('r::linorder, 'w) scheduler \<Rightarrow> bool" where
  "queue_inv s \<longleftrightarrow> omap_wf (s_queue s) \<and> omap_wf (s_queuedByRigAndTime s) \<and>
     (\<forall>k job. map_of (s_queue s) k = Some job \<longrightarrow>
        fst k = priority_rank (wr_priority (qj_request job)) \<and> snd k < s_sequence s \<and>
        usable_time (wr_time (qj_request job)) \<and> map_of (s_queuedByRigAndTime s) (job_slot job) = Some k) \<and>
     (\<forall>slot k. map_of (s_queuedByRigAndTime s) slot = Some k \<longrightarrow>
        (\<exists>job. map_of (s_queue s) k = Some job \<and> job_slot job = slot)) \<and>
     inj_on snd (dom (map_of (s_queue s)))"

lemma queue_invD:
  assumes "queue_inv s"
  shows "omap_wf (s_queue s)" "omap_wf (s_queuedByRigAndTime s)"
    "map_of (s_queue s) k = Some job \<Longrightarrow> fst k = priority_rank (wr_priority (qj_request job))"
    "map_of (s_queue s) k = Some job \<Longrightarrow> snd k < s_sequence s"
    "map_of (s_queue s) k = Some job \<Longrightarrow> usable_time (wr_time (qj_request job))"
    "map_of (s_queue s) k = Some job \<Longrightarrow> map_of (s_queuedByRigAndTime s) (job_slot job) = Some k"
    "map_of (s_queuedByRigAndTime s) slot = Some k \<Longrightarrow> \<exists>job. map_of (s_queue s) k = Some job \<and> job_slot job = slot"
    "map_of (s_queue s) k = Some job \<Longrightarrow> map_of (s_queue s) l = Some job' \<Longrightarrow> snd k = snd l \<Longrightarrow> k = l"
proof -
  show "map_of (s_queue s) k = Some job \<Longrightarrow> map_of (s_queue s) l = Some job' \<Longrightarrow> snd k = snd l \<Longrightarrow> k = l"
    using assms unfolding queue_inv_def by (auto dest: inj_onD)
qed (use assms in \<open>unfold queue_inv_def, blast+\<close>)

lemma queue_mem: "queue_inv s \<Longrightarrow> (k, job) \<in> set (s_queue s) \<longleftrightarrow> map_of (s_queue s) k = Some job"
  by (simp add: queue_invD(1) omap_wf_mem_iff)

text \<open>The invariant reads three fields.\<close>

lemma queue_inv_cong:
  "s_queue s = s_queue s' \<Longrightarrow> s_queuedByRigAndTime s = s_queuedByRigAndTime s' \<Longrightarrow> s_sequence s = s_sequence s' \<Longrightarrow>
     queue_inv s \<longleftrightarrow> queue_inv s'"
  by (simp add: queue_inv_def)

lemma slot_unique:
  assumes "queue_inv s" "map_of (s_queue s) k = Some job" "map_of (s_queue s) l = Some job'" "job_slot job = job_slot job'"
  shows "k = l"
  using queue_invD(6) [OF assms(1,2)] queue_invD(6) [OF assms(1,3)] assms(4) by simp

section \<open>Purging\<close>

definition retired :: "('r warm_request \<Rightarrow> bool) \<Rightarrow> ('r, 'w) scheduler \<Rightarrow> (queue_key \<times> ('r, 'w) queued_job) list" where
  "retired retire s = filter (\<lambda>e. retire (qj_request (snd e))) (s_queue s)"

lemma purge_entry_eq:
  "purge_entry kind s e = s
     \<lparr>s_queuedByRigAndTime := omap_erase (job_slot (snd e)) (s_queuedByRigAndTime s),
      s_log := s_log s @ log_of s (qj_request (snd e)) kind Published,
      s_queue := omap_erase (fst e) (s_queue s),
      s_inFlight := leave_map (s_inFlight s) (wr_rig (qj_request (snd e))),
      s_shed := s_shed s + (if kind = Shed then 1 else 0),
      s_canceled := s_canceled s + (if kind = Shed then 0 else 1)\<rparr>"
  by (simp add: purge_entry_def report_eq leave_flight_eq count_purge_def Let_def log_of_def)

definition purged ::
  "transition_kind \<Rightarrow> ('r::linorder, 'w) scheduler \<Rightarrow> (queue_key \<times> ('r, 'w) queued_job) list \<Rightarrow> ('r, 'w) scheduler" where
  "purged kind s es = s
     \<lparr>s_queuedByRigAndTime := foldl (\<lambda>m e. omap_erase (job_slot (snd e)) m) (s_queuedByRigAndTime s) es,
      s_log := s_log s @ concat (map (\<lambda>e. log_of s (qj_request (snd e)) kind Published) es),
      s_queue := filter (\<lambda>e. e \<notin> set es) (s_queue s),
      s_inFlight := foldl leave_map (s_inFlight s) (map (\<lambda>e. wr_rig (qj_request (snd e))) es),
      s_shed := s_shed s + (if kind = Shed then length es else 0),
      s_canceled := s_canceled s + (if kind = Shed then 0 else length es)\<rparr>"

lemma purged_snoc:
  assumes "distinct (map fst (s_queue s))" "e \<in> set (s_queue s)" "e \<notin> set es"
  shows "purge_entry kind (purged kind s es) e = purged kind s (es @ [e])"
proof -
  have "omap_erase (fst e) (filter (\<lambda>x. x \<notin> set es) (s_queue s)) = filter (\<lambda>x. x \<notin> set (es @ [e])) (s_queue s)"
    unfolding omap_erase_def filter_filter using assms(1,2)
    by (intro filter_cong) (auto simp: distinct_map dest: inj_onD)
  moreover have "log_of (purged kind s es) = log_of s" by (rule log_of_hook) (simp add: purged_def)
  ultimately show ?thesis by (simp add: purge_entry_eq purged_def)
qed

lemma purge_where_eq:
  assumes wf: "omap_wf (s_queue s)"
  shows "purge_where retire kind s = purged kind s (retired retire s)"
proof -
  have keys: "distinct (map fst (s_queue s))" using wf by (simp add: omap_wf_def)
  have "foldl (\<lambda>s e. if \<not> retire (qj_request (snd e)) then s else purge_entry kind s e) s (s_queue s) =
      purged kind s (filter (\<lambda>e. retire (qj_request (snd e))) (s_queue s))"
  proof (rule foldl_invariant [where I = "\<lambda>ys a. a = purged kind s (filter (\<lambda>e. retire (qj_request (snd e))) ys)"])
    show "s = purged kind s (filter (\<lambda>e. retire (qj_request (snd e))) [])" by (simp add: purged_def)
    fix ys e zs a
    assume split: "s_queue s = ys @ e # zs" and a: "a = purged kind s (filter (\<lambda>e. retire (qj_request (snd e))) ys)"
    have "e \<in> set (s_queue s)" "e \<notin> set ys" using split keys by (auto simp: distinct_map)
    then show "(if \<not> retire (qj_request (snd e)) then a else purge_entry kind a e) =
        purged kind s (filter (\<lambda>e. retire (qj_request (snd e))) (ys @ [e]))"
      using purged_snoc [OF keys, of e "filter (\<lambda>e. retire (qj_request (snd e))) ys" kind] a by auto
  qed
  then show ?thesis by (simp add: purge_where_def retired_def)
qed

lemma map_of_erases:
  "map_of (foldl (\<lambda>m e. omap_erase (f e) m) m es) k = (if k \<in> f ` set es then None else map_of m k)"
  by (induction es arbitrary: m) auto

lemma omap_wf_erases: "omap_wf m \<Longrightarrow> omap_wf (foldl (\<lambda>m e. omap_erase (f e) m) m es)"
  by (induction es arbitrary: m) auto

lemma purge_queue:
  assumes wf: "omap_wf (s_queue s)"
  shows "s_queue (purge_where retire kind s) = filter (\<lambda>e. \<not> retire (qj_request (snd e))) (s_queue s)"
    "s_queue (purge_where retire kind s) = filter (\<lambda>e. e \<notin> set (retired retire s)) (s_queue s)"
  unfolding purge_where_eq [OF wf] by (auto simp: purged_def retired_def intro!: filter_cong)

lemma purge_frame [simp]:
  assumes "omap_wf (s_queue s)"
  shows "s_generations (purge_where retire kind s) = s_generations s"
    "s_fenceTokens (purge_where retire kind s) = s_fenceTokens s"
    "s_fenceCounters (purge_where retire kind s) = s_fenceCounters s"
    "s_runningByRigAndTime (purge_where retire kind s) = s_runningByRigAndTime s"
    "s_sequence (purge_where retire kind s) = s_sequence s"
    "s_running (purge_where retire kind s) = s_running s"
    "s_stopping (purge_where retire kind s) = s_stopping s"
    "s_perRigCap (purge_where retire kind s) = s_perRigCap s"
  using assms by (simp_all add: purge_where_eq purged_def)

lemma purge_queue_inv:
  assumes inv: "queue_inv s"
  shows "queue_inv (purge_where retire kind s)"
proof -
  note wf = queue_invD(1) [OF inv]
  have key: "map_of (s_queue (purge_where retire kind s)) k =
      (case map_of (s_queue s) k of None \<Rightarrow> None | Some job \<Rightarrow> if retire (qj_request job) then None else Some job)" for k
    unfolding purge_queue(1) [OF wf] using map_of_filter_value [OF omap_wf_distinct [OF wf], of "\<lambda>job. \<not> retire (qj_request job)"]
    by (simp split: option.splits if_splits)
  have keyD: "map_of (s_queue (purge_where retire kind s)) k = Some job \<longleftrightarrow>
      map_of (s_queue s) k = Some job \<and> \<not> retire (qj_request job)" for k job
    unfolding key by (auto split: option.splits if_splits)
  have slots: "slot \<in> (\<lambda>e. job_slot (snd e)) ` set (retired retire s) \<longleftrightarrow>
      (\<exists>k job. map_of (s_queue s) k = Some job \<and> retire (qj_request job) \<and> job_slot job = slot)" for slot
    unfolding retired_def by (auto simp: queue_mem [OF inv] image_iff; metis snd_conv)
  have index: "map_of (s_queuedByRigAndTime (purge_where retire kind s)) slot =
      (if \<exists>k job. map_of (s_queue s) k = Some job \<and> retire (qj_request job) \<and> job_slot job = slot then None
       else map_of (s_queuedByRigAndTime s) slot)" for slot
    unfolding purge_where_eq [OF wf] purged_def by (simp add: map_of_erases slots)
  have "omap_wf (s_queuedByRigAndTime (purge_where retire kind s))"
    unfolding purge_where_eq [OF wf] purged_def using queue_invD(2) [OF inv] by (simp add: omap_wf_erases)
  moreover have "inj_on snd (dom (map_of (s_queue (purge_where retire kind s))))"
    using inv unfolding queue_inv_def
    by (elim conjE) (erule inj_on_subset, auto simp: key dom_def split: option.splits if_splits)
  moreover have "omap_wf (s_queue (purge_where retire kind s))" using wf by (simp add: purge_queue(1))
  moreover have "fst k = priority_rank (wr_priority (qj_request job)) \<and> snd k < s_sequence s \<and>
      usable_time (wr_time (qj_request job)) \<and>
      map_of (s_queuedByRigAndTime (purge_where retire kind s)) (job_slot job) = Some k"
    if "map_of (s_queue (purge_where retire kind s)) k = Some job" for k job
  proof -
    from that have job: "map_of (s_queue s) k = Some job" "\<not> retire (qj_request job)" by (simp_all add: keyD)
    have "\<not> (\<exists>l job'. map_of (s_queue s) l = Some job' \<and> retire (qj_request job') \<and> job_slot job' = job_slot job)"
      using slot_unique [OF inv _ job(1)] job by fastforce
    then show ?thesis unfolding index using queue_invD(3-6) [OF inv job(1)] by simp
  qed
  moreover have "\<exists>job. map_of (s_queue (purge_where retire kind s)) k = Some job \<and> job_slot job = slot"
    if "map_of (s_queuedByRigAndTime (purge_where retire kind s)) slot = Some k" for slot k
  proof -
    from that have old: "map_of (s_queuedByRigAndTime s) slot = Some k"
      and no: "\<not> (\<exists>k job. map_of (s_queue s) k = Some job \<and> retire (qj_request job) \<and> job_slot job = slot)"
      unfolding index by (simp_all split: if_splits)
    from queue_invD(7) [OF inv old] obtain job where "map_of (s_queue s) k = Some job" "job_slot job = slot" by blast
    then show ?thesis using no unfolding keyD by blast
  qed
  ultimately show ?thesis unfolding queue_inv_def purge_frame [OF wf] by blast
qed

section \<open>Merging, inserting, taking\<close>

text \<open>What identifies a queued request; promotion changes its priority only.\<close>

type_synonym 'r request_ident = "'r \<times> time_code \<times> 64 word \<times> 64 word"

definition wr_ident :: "'r warm_request \<Rightarrow> 'r request_ident" where
  "wr_ident request = (wr_rig request, wr_time request, wr_generation request, wr_fenceToken request)"

definition queue_idents :: "('r, 'w) scheduler \<Rightarrow> 'r request_ident multiset" where
  "queue_idents s = image_mset (\<lambda>e. wr_ident (qj_request (snd e))) (mset (s_queue s))"

lemma size_queue_idents [simp]: "size (queue_idents s) = length (s_queue s)"
  by (simp add: queue_idents_def)

lemma queue_idents_mem:
  "queue_inv s \<Longrightarrow> x \<in># queue_idents s \<longleftrightarrow> (\<exists>k job. map_of (s_queue s) k = Some job \<and> x = wr_ident (qj_request job))"
proof -
  assume inv: "queue_inv s"
  have "x \<in># queue_idents s \<longleftrightarrow> (\<exists>(k, job) \<in> set (s_queue s). x = wr_ident (qj_request job))"
    by (force simp: queue_idents_def)
  then show ?thesis using queue_mem [OF inv] by blast
qed

definition merged :: "'r::linorder \<times> double \<Rightarrow> queue_key \<Rightarrow> ('r, 'w) queued_job \<Rightarrow> ('r, 'w) scheduler \<Rightarrow> ('r, 'w) scheduler" where
  "merged slot oldKey job s = s
     \<lparr>s_queue := omap_put (0, snd oldKey) (job\<lparr>qj_request := (qj_request job)\<lparr>wr_priority := Neighbor\<rparr>\<rparr>)
        (omap_erase oldKey (s_queue s)),
      s_queuedByRigAndTime := omap_put slot (0, snd oldKey) (s_queuedByRigAndTime s),
      s_upgraded := s_upgraded s + 1\<rparr>"

lemma merge_cases:
  assumes inv: "queue_inv s"
  obtains (absent) "map_of (s_queuedByRigAndTime s) slot = None" "merge_if_queued slot priority s = (False, s)"
  | (coalesced) k job where "map_of (s_queuedByRigAndTime s) slot = Some k" "map_of (s_queue s) k = Some job"
      "job_slot job = slot" "priority = Sweep \<or> wr_priority (qj_request job) = Neighbor"
      "merge_if_queued slot priority s = (True, s\<lparr>s_coalesced := s_coalesced s + 1\<rparr>)"
  | (promoted) k job where "map_of (s_queuedByRigAndTime s) slot = Some k" "map_of (s_queue s) k = Some job"
      "job_slot job = slot" "priority = Neighbor" "wr_priority (qj_request job) = Sweep" "k = (1, snd k)"
      "map_of (s_queue s) (0, snd k) = None" "merge_if_queued slot priority s = (True, merged slot k job s)"
proof (cases "map_of (s_queuedByRigAndTime s) slot")
  case None
  then show thesis by (intro absent) (simp_all add: merge_if_queued_def)
next
  case (Some k)
  from queue_invD(7) [OF inv Some] obtain job where job: "map_of (s_queue s) k = Some job" "job_slot job = slot" by blast
  show thesis
  proof (cases "priority = Neighbor \<and> wr_priority (qj_request job) = Sweep")
    case True
    have k: "k = (1, snd k)" using queue_invD(3) [OF inv job(1)] True by (simp add: prod_eq_iff)
    have fresh: "map_of (s_queue s) (0, snd k) = None"
    proof (cases "map_of (s_queue s) (0, snd k)")
      case (Some job')
      from queue_invD(8) [OF inv job(1) Some] k show ?thesis by (metis prod.inject snd_conv zero_neq_one)
    qed
    then have "merge_if_queued slot priority s = (True, merged slot k job s)"
      using Some job True by (simp add: merge_if_queued_def merged_def omap_emplace_def Let_def)
    then show thesis using promoted Some job True k fresh by blast
  next
    case False
    then have "priority = Sweep \<or> wr_priority (qj_request job) = Neighbor"
      using warm_priority.exhaust by metis
    moreover have "merge_if_queued slot priority s = (True, s\<lparr>s_coalesced := s_coalesced s + 1\<rparr>)"
      using Some job False by (auto simp: merge_if_queued_def)
    ultimately show thesis using coalesced Some job by blast
  qed
qed

lemma merged_inv:
  assumes inv: "queue_inv s" and job: "map_of (s_queue s) k = Some job" "job_slot job = slot" "k = (1, snd k)"
    "map_of (s_queue s) (0, snd k) = None"
  shows "queue_inv (merged slot k job s)" "queue_idents (merged slot k job s) = queue_idents s"
proof -
  let ?job = "job\<lparr>qj_request := (qj_request job)\<lparr>wr_priority := Neighbor\<rparr>\<rparr>"
  have look: "map_of (s_queue (merged slot k job s)) = (map_of (s_queue s))(k := None, (0, snd k) \<mapsto> ?job)"
    by (simp add: merged_def)
  have index: "map_of (s_queuedByRigAndTime (merged slot k job s)) = (map_of (s_queuedByRigAndTime s))(slot \<mapsto> (0, snd k))"
    by (simp add: merged_def)
  have neq: "k \<noteq> (0, snd k)" using job(1,4) by auto
  have slot: "job_slot ?job = slot" using job(2) by simp
  have other: "map_of (s_queuedByRigAndTime s) slot = Some k" using queue_invD(6) [OF inv job(1)] job(2) by simp
  have "fst l = priority_rank (wr_priority (qj_request j)) \<and> snd l < s_sequence s \<and> usable_time (wr_time (qj_request j)) \<and>
      map_of (s_queuedByRigAndTime (merged slot k job s)) (job_slot j) = Some l"
    if "map_of (s_queue (merged slot k job s)) l = Some j" for l j
  proof (cases "l = (0, snd k)")
    case True
    then have "j = ?job" using that by (simp add: look)
    then show ?thesis using True queue_invD(4,5) [OF inv job(1)] slot by (simp add: index)
  next
    case False
    then have l: "map_of (s_queue s) l = Some j" "l \<noteq> k" using that by (auto simp: look split: if_splits)
    have "job_slot j \<noteq> slot" using slot_unique [OF inv l(1) job(1)] l(2) job(2) by auto
    then show ?thesis using queue_invD(3-6) [OF inv l(1)] by (simp add: index)
  qed
  moreover have "\<exists>j. map_of (s_queue (merged slot k job s)) l = Some j \<and> job_slot j = t"
    if "map_of (s_queuedByRigAndTime (merged slot k job s)) t = Some l" for t l
  proof (cases "t = slot")
    case True
    then have "l = (0, snd k)" using that by (simp add: index)
    then show ?thesis using slot True by (simp add: look)
  next
    case False
    then have "map_of (s_queuedByRigAndTime s) t = Some l" using that by (simp add: index)
    from queue_invD(7) [OF inv this] obtain j where j: "map_of (s_queue s) l = Some j" "job_slot j = t" by blast
    have "l \<noteq> k" using j job(1,2) False by auto
    moreover have "l \<noteq> (0, snd k)" using j(1) job(4) by auto
    ultimately show ?thesis using j by (simp add: look)
  qed
  moreover have "inj_on snd (dom (map_of (s_queue (merged slot k job s))))"
  proof (rule inj_onI)
    fix a b assume ab: "a \<in> dom (map_of (s_queue (merged slot k job s)))" "b \<in> dom (map_of (s_queue (merged slot k job s)))"
      "snd a = snd b"
    have no: "snd l \<noteq> snd k" if "l \<in> dom (map_of (s_queue s))" "l \<noteq> k" for l
      using queue_invD(8) [OF inv _ job(1)] that by blast
    have old: "a = b" if "a \<in> dom (map_of (s_queue s))" "b \<in> dom (map_of (s_queue s))"
      using queue_invD(8) [OF inv] that ab(3) by blast
    have dom: "l = (0, snd k) \<or> (l \<in> dom (map_of (s_queue s)) \<and> l \<noteq> k)"
      if "l \<in> dom (map_of (s_queue (merged slot k job s)))" for l
      using that by (auto simp: look split: if_splits)
    from dom [OF ab(1)] dom [OF ab(2)] show "a = b"
      using no [of a] no [of b] old ab(3) by (elim disjE conjE) simp_all
  qed
  moreover have "omap_wf (s_queue (merged slot k job s))" "omap_wf (s_queuedByRigAndTime (merged slot k job s))"
    using queue_invD(1,2) [OF inv] by (simp_all add: merged_def)
  moreover have "s_sequence (merged slot k job s) = s_sequence s" by (simp add: merged_def)
  ultimately show "queue_inv (merged slot k job s)" unfolding queue_inv_def by simp
  have "map_of (omap_erase k (s_queue s)) (0, snd k) = None" using job(4) by simp
  then have "mset (s_queue (merged slot k job s)) = add_mset ((0, snd k), ?job) (mset (omap_erase k (s_queue s)))"
    by (simp add: merged_def mset_omap_put)
  then show "queue_idents (merged slot k job s) = queue_idents s"
    using mset_omap_erase [OF queue_invD(1) [OF inv] job(1)] by (simp add: queue_idents_def wr_ident_def)
qed

definition new_request :: "('r, 'w) scheduler \<Rightarrow> 'r \<Rightarrow> time_code \<Rightarrow> warm_priority \<Rightarrow> 64 word \<Rightarrow> 'r warm_request" where
  "new_request s rig time priority generation = \<lparr>wr_rig = rig, wr_time = time, wr_priority = priority,
     wr_generation = generation, wr_fenceToken = current_fence_token s rig (time_value time)\<rparr>"

definition inserted ::
  "'r::linorder warm_request \<Rightarrow> 'w \<Rightarrow> ('r, 'w) scheduler \<Rightarrow> ('r, 'w) scheduler" where
  "inserted request work s =
     (let key = (priority_rank (wr_priority request), s_sequence s) in s
      \<lparr>s_sequence := s_sequence s + 1,
       s_queue := omap_put key \<lparr>qj_request = request, qj_work = work\<rparr> (s_queue s),
       s_queuedByRigAndTime := omap_put (request_slot request) key (s_queuedByRigAndTime s),
       s_inFlight := omap_put (wr_rig request) (InFlightCount s (wr_rig request) + 1) (s_inFlight s),
       s_log := s_log s @ log_of s request Queued Published\<rparr>)"

lemma fresh_key: "queue_inv s \<Longrightarrow> map_of (s_queue s) (r, s_sequence s) = None"
proof (cases "map_of (s_queue s) (r, s_sequence s)")
  case (Some job)
  assume "queue_inv s"
  from queue_invD(4) [OF this Some] show ?thesis by simp
qed

lemma insert_eq:
  assumes "queue_inv s" "map_of (s_queuedByRigAndTime s) (rig, time_value time) = None"
  shows "insert_job rig time priority generation work s = inserted (new_request s rig time priority generation) work s"
  using assms fresh_key [OF assms(1)]
  by (simp add: insert_job_def inserted_def new_request_def report_eq omap_emplace_def Let_def log_of_def)

lemma inserted_inv:
  assumes inv: "queue_inv s" and free: "map_of (s_queuedByRigAndTime s) (request_slot request) = None"
    and usable: "usable_time (wr_time request)"
  shows "queue_inv (inserted request work s)" "queue_idents (inserted request work s) = add_mset (wr_ident request) (queue_idents s)"
proof -
  let ?key = "(priority_rank (wr_priority request), s_sequence s)" and ?job = "\<lparr>qj_request = request, qj_work = work\<rparr>"
  note fresh = fresh_key [OF inv, of "priority_rank (wr_priority request)"]
  have look: "map_of (s_queue (inserted request work s)) = (map_of (s_queue s))(?key \<mapsto> ?job)"
    and index: "map_of (s_queuedByRigAndTime (inserted request work s)) =
      (map_of (s_queuedByRigAndTime s))(request_slot request \<mapsto> ?key)"
    and sequence: "s_sequence (inserted request work s) = s_sequence s + 1"
    by (simp_all add: inserted_def Let_def)
  have other: "job_slot j \<noteq> request_slot request" if "map_of (s_queue s) l = Some j" for l j
    using queue_invD(6) [OF inv that] free by (metis option.distinct(1))
  have "fst l = priority_rank (wr_priority (qj_request j)) \<and> snd l < s_sequence s + 1 \<and> usable_time (wr_time (qj_request j)) \<and>
      map_of (s_queuedByRigAndTime (inserted request work s)) (job_slot j) = Some l"
    if "map_of (s_queue (inserted request work s)) l = Some j" for l j
  proof (cases "l = ?key")
    case True
    then have "j = ?job" using that by (simp add: look)
    then show ?thesis using True usable by (simp add: index)
  next
    case False
    then have l: "map_of (s_queue s) l = Some j" using that by (simp add: look)
    show ?thesis using queue_invD(3-6) [OF inv l] other [OF l] by (auto simp: index)
  qed
  moreover have "\<exists>j. map_of (s_queue (inserted request work s)) l = Some j \<and> job_slot j = t"
    if "map_of (s_queuedByRigAndTime (inserted request work s)) t = Some l" for t l
  proof (cases "t = request_slot request")
    case True
    then show ?thesis using that by (simp add: index look)
  next
    case False
    then have "map_of (s_queuedByRigAndTime s) t = Some l" using that by (simp add: index)
    from queue_invD(7) [OF inv this] fresh show ?thesis by (auto simp: look)
  qed
  moreover have "inj_on snd (dom (map_of (s_queue (inserted request work s))))"
  proof -
    have "inj_on snd (dom (map_of (s_queue s)))" using inv by (simp add: queue_inv_def)
    moreover have "snd l \<noteq> s_sequence s" if "l \<in> dom (map_of (s_queue s))" for l
      using queue_invD(4) [OF inv] that by fastforce
    then have "s_sequence s \<notin> snd ` dom (map_of (s_queue s))" by (metis imageE)
    ultimately show ?thesis using fresh by (simp add: look domIff)
  qed
  moreover have "omap_wf (s_queue (inserted request work s))" "omap_wf (s_queuedByRigAndTime (inserted request work s))"
    using queue_invD(1,2) [OF inv] by (simp_all add: inserted_def Let_def)
  ultimately show "queue_inv (inserted request work s)" unfolding queue_inv_def sequence by simp
  show "queue_idents (inserted request work s) = add_mset (wr_ident request) (queue_idents s)"
    using mset_omap_put [OF fresh] by (simp add: queue_idents_def inserted_def Let_def)
qed

definition taken :: "('r::linorder, 'w) queued_job \<Rightarrow> ('r, 'w) scheduler \<Rightarrow> ('r, 'w) scheduler" where
  "taken job s = s
     \<lparr>s_queuedByRigAndTime := omap_erase (job_slot job) (s_queuedByRigAndTime s), s_queue := tl (s_queue s),
      s_running := s_running s + 1,
      s_runningByRigAndTime := omap_put (job_slot job) (count_of (map_of (s_runningByRigAndTime s)) (job_slot job) + 1)
         (s_runningByRigAndTime s),
      s_log := s_log s @ log_of s (qj_request job) Running Published\<rparr>"

lemma pop_eq:
  "PopJob wait s = (Popped job, s') \<longleftrightarrow> \<not> s_stopping s \<and> (\<exists>k rest. s_queue s = (k, job) # rest) \<and> s' = taken job s"
  by (auto simp: PopJob_def taken_def report_eq log_of_def count_of_def Let_def split: list.splits option.splits)

lemma taken_inv:
  assumes inv: "queue_inv s" and queue: "s_queue s = (k, job) # rest"
  shows "queue_inv (taken job s)" "queue_idents s = add_mset (wr_ident (qj_request job)) (queue_idents (taken job s))"
    "\<And>l j. map_of (s_queue s) l = Some j \<Longrightarrow> k \<le> l"
proof -
  have wf: "omap_wf ((k, job) # rest)" using queue_invD(1) [OF inv] by (simp add: queue)
  have look: "map_of rest = (map_of (s_queue s))(k := None)"
    using map_of_omap_erase [of k "(k, job) # rest"] by (simp only: omap_erase_hd [OF wf] queue)
  have here: "map_of (s_queue s) k = Some job" by (simp add: queue)
  have sel: "s_queue (taken job s) = rest" "s_sequence (taken job s) = s_sequence s"
    "map_of (s_queuedByRigAndTime (taken job s)) = (map_of (s_queuedByRigAndTime s))(job_slot job := None)"
    by (simp_all add: taken_def queue)
  have "fst l = priority_rank (wr_priority (qj_request j)) \<and> snd l < s_sequence s \<and> usable_time (wr_time (qj_request j)) \<and>
      map_of (s_queuedByRigAndTime (taken job s)) (job_slot j) = Some l" if "map_of rest l = Some j" for l j
  proof -
    from that have l: "map_of (s_queue s) l = Some j" "l \<noteq> k" by (auto simp: look split: if_splits)
    have "job_slot j \<noteq> job_slot job" using slot_unique [OF inv l(1) here] l(2) by blast
    then show ?thesis using queue_invD(3-6) [OF inv l(1)] by (simp add: sel(3))
  qed
  moreover have "\<exists>j. map_of rest l = Some j \<and> job_slot j = t"
    if "map_of (s_queuedByRigAndTime (taken job s)) t = Some l" for t l
  proof -
    from that have t: "map_of (s_queuedByRigAndTime s) t = Some l" "t \<noteq> job_slot job" by (auto simp: sel(3) split: if_splits)
    from queue_invD(7) [OF inv t(1)] obtain j where "map_of (s_queue s) l = Some j" "job_slot j = t" by blast
    moreover from this have "l \<noteq> k" using here t(2) by auto
    ultimately show ?thesis by (simp add: look)
  qed
  moreover have "inj_on snd (dom (map_of rest))"
    using inv unfolding queue_inv_def by (elim conjE) (erule inj_on_subset, auto simp: look)
  moreover have "omap_wf rest" "omap_wf (s_queuedByRigAndTime (taken job s))"
    using wf queue_invD(2) [OF inv] by (simp_all add: omap_wf_Cons taken_def)
  ultimately show "queue_inv (taken job s)" unfolding queue_inv_def sel(1,2) by blast
  show "queue_idents s = add_mset (wr_ident (qj_request job)) (queue_idents (taken job s))"
    by (simp add: queue_idents_def sel queue)
  fix l j assume "map_of (s_queue s) l = Some j"
  then have "l = k \<or> l \<in> dom (map_of rest)" by (auto simp: queue split: if_splits)
  then show "k \<le> l" using wf by (auto simp: omap_wf_Cons intro: less_imp_le)
qed

definition finished ::
  "'r::linorder warm_request \<Rightarrow> bool \<Rightarrow> warm_outcome \<Rightarrow> ('r, 'w) scheduler \<Rightarrow> ('r, 'w) scheduler" where
  "finished request ok out s = s
     \<lparr>s_running := s_running s - 1,
      s_runningByRigAndTime := s_runningByRigAndTime (leave_running request s),
      s_inFlight := leave_map (s_inFlight s) (wr_rig request),
      s_completed := s_completed s + (if ok then 1 else 0),
      s_published := s_published s + (if ok \<and> out = Published then 1 else 0),
      s_declinedGeneration := s_declinedGeneration s + (if ok \<and> out = DeclinedGeneration then 1 else 0),
      s_declinedInvalid := s_declinedInvalid s + (if ok \<and> out = DeclinedInvalid then 1 else 0),
      s_droppedStale := s_droppedStale s + (if ok then 0 else 1),
      s_log := s_log s @ (if ok then log_of s request Finished out else log_of s request DroppedStale Published)\<rparr>"

lemma leave_running_eq:
  "leave_running request s = s\<lparr>s_runningByRigAndTime := s_runningByRigAndTime (leave_running request s)\<rparr>"
  "s_runningByRigAndTime (leave_running request (s\<lparr>s_running := n\<rparr>)) = s_runningByRigAndTime (leave_running request s)"
  by (auto simp: leave_running_def Let_def split: option.splits)

lemma finish_eq: "FinishJob request ok out s = finished request ok out s"
proof -
  have "leave_running request (s\<lparr>s_running := n\<rparr>) =
      s\<lparr>s_running := n, s_runningByRigAndTime := s_runningByRigAndTime (leave_running request s)\<rparr>" for n
    using leave_running_eq(1) [of request "s\<lparr>s_running := n\<rparr>"] by (simp add: leave_running_eq(2))
  then show ?thesis
    by (cases out) (simp_all add: FinishJob_def finished_def Let_def leave_flight_eq report_eq log_of_def)
qed

lemma finished_inv:
  "queue_inv (finished request ok out s) \<longleftrightarrow> queue_inv s" "queue_idents (finished request ok out s) = queue_idents s"
  by (simp_all add: finished_def queue_inv_def queue_idents_def)

lemma leave_running_counts:
  assumes "positive_counts (s_runningByRigAndTime s)"
  shows "positive_counts (s_runningByRigAndTime (leave_running request s))"
    "count_of (map_of (s_runningByRigAndTime (leave_running request s))) slot =
       count_of (map_of (s_runningByRigAndTime s)) slot - (if slot = request_slot request then 1 else 0)"
  using assms by (auto simp: leave_running_def positive_counts_def Let_def split: option.splits)

end
