(* ===== verification/Warm_Pool.thy ===== *)
theory Warm_Pool
  imports Warm_Queue
begin

text \<open>
  The scheduler together with the workers that hold a popped job: a step relation with one
  rule per critical section, and the invariants of its reachable states. A worker fetches a
  job, decides in a second critical section whether its generation still stands, runs the
  work outside the lock, and reports the end in a third one.
\<close>

section \<open>Steps\<close>

datatype 'r worker = Fetched "'r warm_request" | Stale "'r warm_request" | Working "'r warm_request"

fun worker_request :: "'r worker \<Rightarrow> 'r warm_request" where
  "worker_request (Fetched r) = r"
| "worker_request (Stale r) = r"
| "worker_request (Working r) = r"

type_synonym ('r, 'w) pool = "('r, 'w) scheduler \<times> 'r worker list"

text \<open>One critical section of a method other than those of a worker. \<open>retire\<close> is \<open>False\<close> for the
  steps that may not reset a rig while one of its jobs is held by a worker.\<close>

inductive method_step :: "bool \<Rightarrow> 'r worker list \<Rightarrow> ('r::linorder, 'w) scheduler \<Rightarrow> ('r, 'w) scheduler \<Rightarrow> bool"
  for anyReset :: bool and ws :: "'r worker list" where
  step_cancel: "method_step anyReset ws s (CancelGeneration rig s)"
| step_cancel_times: "method_step anyReset ws s (snd (CancelGenerationTimes rig codes s))"
| step_playback: "method_step anyReset ws s (snd (NotePlaybackAdvanced rig playhead s))"
| step_reset: "anyReset \<or> (\<forall>w \<in> set ws. wr_rig (worker_request w) \<noteq> rig) \<Longrightarrow> method_step anyReset ws s (ResetRig rig s)"
| step_enqueue: "method_step anyReset ws s (snd (Enqueue h rig time priority generation work s))"
| step_admit: "usable_time time \<Longrightarrow> method_step anyReset ws s (snd (trigger_admit rig time priority generation s))"
| step_insert: "usable_time time \<Longrightarrow> trigger_admit rig time priority generation s = (None, s') \<Longrightarrow>
     method_step anyReset ws s (insert_job rig time priority generation work s')"
| step_factory: "method_step anyReset ws s (note_factory s)"
| step_skip: "method_step anyReset ws s (note_skip skip s)"
| step_cap: "method_step anyReset ws s (SetPerRigJobCap cap s)"
| step_hook: "method_step anyReset ws s (SetTransitionHook hook s)"
| step_stop: "method_step anyReset ws s (stop_pool s)"

inductive pool_step :: "bool \<Rightarrow> ('r::linorder, 'w) pool \<Rightarrow> ('r, 'w) pool \<Rightarrow> bool" for anyReset :: bool where
  pool_method: "method_step anyReset ws s s' \<Longrightarrow> pool_step anyReset (s, ws) (s', ws)"
| pool_fetch: "PopJob wait s = (Popped job, s') \<Longrightarrow> pool_step anyReset (s, ws) (s', Fetched (qj_request job) # ws)"
| pool_check: "pool_step anyReset (s, us @ Fetched r # vs)
     (s, us @ (if IsGenerationCurrent s (wr_rig r) (wr_generation r) then Working r else Stale r) # vs)"
| pool_drop: "pool_step anyReset (s, us @ Stale r # vs) (FinishJob r False DeclinedInvalid s, us @ vs)"
| pool_finish: "pool_step anyReset (s, us @ Working r # vs) (FinishJob r True out s, us @ vs)"

text \<open>The states an execution of the program can be in, from a new scheduler on.\<close>

inductive pool_reachable :: "bool \<Rightarrow> ('r::linorder, 'w) pool \<Rightarrow> bool" for anyReset :: bool where
  reach_start: "pool_reachable anyReset (new_scheduler workerCount started, [])"
| reach_step: "pool_reachable anyReset p \<Longrightarrow> pool_step anyReset p p' \<Longrightarrow> pool_reachable anyReset p'"

section \<open>The books\<close>

definition balanced :: "('r, 'w) scheduler \<Rightarrow> bool" where
  "balanced s \<longleftrightarrow>
     s_sequence s = s_published s + s_declinedInvalid s + s_declinedGeneration s + s_droppedStale s + s_canceled s +
       s_shed s + s_droppedAtShutdown s + length (s_queue s) + s_running s \<and>
     s_completed s = s_published s + s_declinedInvalid s + s_declinedGeneration s"

definition worker_idents :: "'r worker list \<Rightarrow> 'r request_ident multiset" where
  "worker_idents ws = mset (map (\<lambda>w. wr_ident (worker_request w)) ws)"

text \<open>How many jobs of a rig are queued or held by a worker, and how many of a time.\<close>

definition held_of :: "'r request_ident multiset \<Rightarrow> 'r \<Rightarrow> nat" where
  "held_of M rig = size {# x \<in># M. fst x = rig #}"

definition held_at :: "'r request_ident multiset \<Rightarrow> 'r \<times> double \<Rightarrow> nat" where
  "held_at M slot = size {# x \<in># M. (fst x, time_value (fst (snd x))) = slot #}"

lemma held_simps [simp]:
  "held_of {#} rig = 0" "held_of (add_mset x M) rig = (if fst x = rig then 1 else 0) + held_of M rig"
  "held_of (M + N) rig = held_of M rig + held_of N rig"
  "held_at {#} slot = 0" "held_at (add_mset x M) slot = (if (fst x, time_value (fst (snd x))) = slot then 1 else 0) + held_at M slot"
  by (simp_all add: held_of_def held_at_def)

definition fence_current :: "('r, 'w) scheduler \<Rightarrow> 'r request_ident \<Rightarrow> bool" where
  "fence_current s = (\<lambda>(rig, time, generation, token).
     usable_time time \<and> CurrentGeneration s rig = generation \<and> current_fence_token s rig (time_value time) = token)"

definition sched_inv :: "('r::linorder, 'w) scheduler \<Rightarrow> bool" where
  "sched_inv s \<longleftrightarrow> queue_inv s \<and> balanced s \<and> positive_counts (s_inFlight s) \<and> positive_counts (s_runningByRigAndTime s) \<and>
     omap_wf (s_fenceTokens s) \<and> (\<forall>x \<in># queue_idents s. fence_current s x)"

text \<open>The part of the invariant that ties the scheduler to its workers. The in-flight count is
  exact as long as no rig is reset under a running job.\<close>

definition workers_inv :: "bool \<Rightarrow> ('r::linorder, 'w) pool \<Rightarrow> bool" where
  "workers_inv anyReset = (\<lambda>(s, ws).
     s_running s = length ws \<and>
     (\<forall>slot. count_of (map_of (s_runningByRigAndTime s)) slot = held_at (worker_idents ws) slot) \<and>
     (\<forall>rig. InFlightCount s rig \<le> held_of (queue_idents s + worker_idents ws) rig) \<and>
     (\<not> anyReset \<longrightarrow> (\<forall>rig. InFlightCount s rig = held_of (queue_idents s + worker_idents ws) rig)))"

section \<open>Every method keeps the invariants\<close>

text \<open>What a method may do to the books: queue and counters change together, the workers' side
  stays.\<close>

definition same_fences :: "('r, 'w) scheduler \<Rightarrow> ('r, 'w) scheduler \<Rightarrow> bool" where
  "same_fences s s' \<longleftrightarrow> s_generations s' = s_generations s \<and> s_fenceTokens s' = s_fenceTokens s"

lemma same_fences_current: "same_fences s s' \<Longrightarrow> fence_current s' = fence_current s"
  by (intro ext) (auto simp: same_fences_def fence_current_def CurrentGeneration_def current_fence_token_def)

text \<open>Changes of fields no invariant reads.\<close>

definition same_books :: "('r, 'w) scheduler \<Rightarrow> ('r, 'w) scheduler \<Rightarrow> bool" where
  "same_books s s' \<longleftrightarrow> same_fences s s' \<and> s_queue s' = s_queue s \<and> s_queuedByRigAndTime s' = s_queuedByRigAndTime s \<and>
     s_runningByRigAndTime s' = s_runningByRigAndTime s \<and> s_inFlight s' = s_inFlight s \<and> s_sequence s' = s_sequence s \<and>
     s_running s' = s_running s \<and> s_published s' = s_published s \<and> s_declinedInvalid s' = s_declinedInvalid s \<and>
     s_declinedGeneration s' = s_declinedGeneration s \<and> s_droppedStale s' = s_droppedStale s \<and>
     s_canceled s' = s_canceled s \<and> s_shed s' = s_shed s \<and> s_droppedAtShutdown s' = s_droppedAtShutdown s \<and>
     s_completed s' = s_completed s"

lemma same_books_inv:
  assumes "same_books s s'"
  shows "sched_inv s' \<longleftrightarrow> sched_inv s" "workers_inv anyReset (s', ws) \<longleftrightarrow> workers_inv anyReset (s, ws)"
proof -
  have f: "same_fences s s'" and q: "queue_idents s' = queue_idents s" and i: "InFlightCount s' = InFlightCount s"
    using assms by (auto simp: same_books_def queue_idents_def InFlightCount_def)
  show "sched_inv s' \<longleftrightarrow> sched_inv s"
    using assms unfolding sched_inv_def same_fences_current [OF f] q
    by (simp add: same_books_def same_fences_def balanced_def queue_inv_def)
  show "workers_inv anyReset (s', ws) \<longleftrightarrow> workers_inv anyReset (s, ws)"
    using assms unfolding workers_inv_def by (simp add: same_books_def i q)
qed

lemma same_books_refl [simp]: "same_books s s"
  by (simp add: same_books_def same_fences_def)

lemma same_books_updates [simp]:
  "same_books s (decline s)" "same_books s (note_factory s)"
  "same_books s (SetPerRigJobCap cap s)" "same_books s (SetTransitionHook hook s)" "same_books s (stop_pool s)"
  "same_books s (s\<lparr>s_coalesced := n\<rparr>)"
  by (simp_all add: same_books_def same_fences_def decline_def note_factory_def
      SetPerRigJobCap_def SetTransitionHook_def stop_pool_def)

lemma same_books_skip [simp]: "same_books s (note_skip skip s)"
  by (cases skip) (simp_all add: same_books_def same_fences_def decline_def note_skip_def)

subsection \<open>Purges\<close>

lemma count_list_mset: "count_list xs x = count (mset xs) x"
  by (induction xs) auto

lemma purged_idents:
  assumes "omap_wf (s_queue s)"
  shows "queue_idents s = queue_idents (purge_where retire kind s) +
      image_mset (\<lambda>e. wr_ident (qj_request (snd e))) (mset (retired retire s))"
proof -
  have "mset (s_queue s) = mset (filter (\<lambda>e. \<not> retire (qj_request (snd e))) (s_queue s)) +
      mset (filter (\<lambda>e. retire (qj_request (snd e))) (s_queue s))"
    by (metis multiset_partition mset_filter add.commute)
  then show ?thesis
    unfolding queue_idents_def purge_queue(1) [OF assms] retired_def image_mset_union [symmetric] by (simp only:)
qed

lemma held_of_retired:
  "held_of (image_mset (\<lambda>e. wr_ident (qj_request (snd e))) (mset es)) rig =
     count_list (map (\<lambda>e. wr_rig (qj_request (snd e))) es) rig"
  by (induction es) (auto simp: wr_ident_def)

lemma purge_books:
  assumes inv: "queue_inv s" "balanced s" "positive_counts (s_inFlight s)"
  shows "balanced (purge_where retire kind s)" "positive_counts (s_inFlight (purge_where retire kind s))"
    "InFlightCount (purge_where retire kind s) rig =
       InFlightCount s rig - held_of (image_mset (\<lambda>e. wr_ident (qj_request (snd e))) (mset (retired retire s))) rig"
    "length (s_queue s) = length (s_queue (purge_where retire kind s)) + length (retired retire s)"
proof -
  note wf = queue_invD(1) [OF inv(1)]
  show len: "length (s_queue s) = length (s_queue (purge_where retire kind s)) + length (retired retire s)"
    using arg_cong [OF purged_idents [OF wf, of retire kind], of size] by simp
  then show "balanced (purge_where retire kind s)"
    using inv(2) unfolding purge_where_eq [OF wf] by (simp add: balanced_def purged_def)
  show "positive_counts (s_inFlight (purge_where retire kind s))"
    unfolding purge_where_eq [OF wf] using inv(3) by (simp add: purged_def positive_leave_maps)
  show "InFlightCount (purge_where retire kind s) rig =
       InFlightCount s rig - held_of (image_mset (\<lambda>e. wr_ident (qj_request (snd e))) (mset (retired retire s))) rig"
    unfolding purge_where_eq [OF wf] by (simp add: InFlightCount_eq purged_def count_leave_maps held_of_retired)
qed

lemma purge_workers:
  assumes inv: "queue_inv s" "balanced s" "positive_counts (s_inFlight s)" and workers: "workers_inv anyReset (s, ws)"
  shows "workers_inv anyReset (purge_where retire kind s, ws)"
proof -
  note wf = queue_invD(1) [OF inv(1)]
  have counts: "InFlightCount s rig \<le> held_of (queue_idents s + worker_idents ws) rig"
    "\<not> anyReset \<Longrightarrow> InFlightCount s rig = held_of (queue_idents s + worker_idents ws) rig" for rig
    using workers by (simp_all add: workers_inv_def)
  have "InFlightCount (purge_where retire kind s) rig \<le> held_of (queue_idents (purge_where retire kind s) + worker_idents ws) rig"
    "\<not> anyReset \<Longrightarrow> InFlightCount (purge_where retire kind s) rig =
        held_of (queue_idents (purge_where retire kind s) + worker_idents ws) rig" for rig
    using counts [of rig] unfolding purge_books(3) [OF inv] purged_idents [OF wf, of retire kind] by simp_all
  then show ?thesis using workers purge_frame [OF wf, of retire kind] by (simp add: workers_inv_def)
qed

text \<open>A purge keeps the fences of what stays when the requests whose fence moved are purged.\<close>

lemma purge_sched:
  assumes inv: "queue_inv s" "balanced s" "positive_counts (s_inFlight s)" "positive_counts (s_runningByRigAndTime s)"
    "omap_wf (s_fenceTokens s)"
    and fences: "\<And>k job. map_of (s_queue s) k = Some job \<Longrightarrow> \<not> retire (qj_request job) \<Longrightarrow>
        fence_current s (wr_ident (qj_request job))"
  shows "sched_inv (purge_where retire kind s)"
proof -
  note wf = queue_invD(1) [OF inv(1)]
  have same: "same_fences s (purge_where retire kind s)" using wf by (simp add: same_fences_def)
  have "fence_current s x" if "x \<in># queue_idents (purge_where retire kind s)" for x
  proof -
    from that obtain e where "e \<in> set (s_queue s)" "\<not> retire (qj_request (snd e))" "x = wr_ident (qj_request (snd e))"
      by (auto simp: queue_idents_def purge_queue(1) [OF wf])
    then show ?thesis using fences [of "fst e" "snd e"] queue_mem [OF inv(1), of "fst e" "snd e"] by simp
  qed
  then show ?thesis
    unfolding sched_inv_def same_fences_current [OF same]
    using purge_queue_inv [OF inv(1)] purge_books(1,2) [OF inv(1-3)] inv(4,5) wf by simp
qed

lemma sched_invD:
  assumes "sched_inv s"
  shows "queue_inv s" "balanced s" "positive_counts (s_inFlight s)" "positive_counts (s_runningByRigAndTime s)"
    "omap_wf (s_fenceTokens s)" "x \<in># queue_idents s \<Longrightarrow> fence_current s x"
    "map_of (s_queue s) k = Some job \<Longrightarrow> fence_current s (wr_ident (qj_request job))"
proof -
  show current: "fence_current s x" if "x \<in># queue_idents s" for x
    using assms that by (simp add: sched_inv_def)
  show "fence_current s (wr_ident (qj_request job))" if "map_of (s_queue s) k = Some job"
    using assms queue_idents_mem [of s "wr_ident (qj_request job)"] that
    by (intro current) (unfold sched_inv_def, blast)
qed (use assms in \<open>simp_all add: sched_inv_def\<close>)

lemma same_fields_sched:
  assumes "sched_inv s" "s_queue s' = s_queue s" "s_queuedByRigAndTime s' = s_queuedByRigAndTime s"
    "s_sequence s' = s_sequence s" "balanced s' = balanced s" "s_inFlight s' = s_inFlight s"
    "s_runningByRigAndTime s' = s_runningByRigAndTime s"
  shows "queue_inv s'" "balanced s'" "positive_counts (s_inFlight s')" "positive_counts (s_runningByRigAndTime s')"
  using assms queue_inv_cong [of s' s] by (simp_all add: sched_inv_def)

lemma CancelGeneration_inv:
  assumes "sched_inv s"
  shows "sched_inv (CancelGeneration rig s)" "workers_inv anyReset (s, ws) \<Longrightarrow> workers_inv anyReset (CancelGeneration rig s, ws)"
proof -
  let ?s = "s\<lparr>s_generations := omap_put rig (CurrentGeneration s rig + 1) (s_generations s)\<rparr>"
  have fields: "queue_inv ?s" "balanced ?s" "positive_counts (s_inFlight ?s)" "positive_counts (s_runningByRigAndTime ?s)"
    by (rule same_fields_sched [OF assms]; simp add: balanced_def)+
  show "sched_inv (CancelGeneration rig s)"
    unfolding CancelGeneration_def
  proof (rule purge_sched [OF fields])
    fix k job assume "map_of (s_queue ?s) k = Some job" "wr_rig (qj_request job) \<noteq> rig"
    then show "fence_current ?s (wr_ident (qj_request job))"
      using sched_invD(7) [OF assms, of k job]
      by (simp add: fence_current_def wr_ident_def CurrentGeneration_def current_fence_token_def)
  qed (use sched_invD(5) [OF assms] in simp)
  assume "workers_inv anyReset (s, ws)"
  then have w: "workers_inv anyReset (?s, ws)" by (simp add: workers_inv_def InFlightCount_def queue_idents_def)
  show "workers_inv anyReset (CancelGeneration rig s, ws)"
    unfolding CancelGeneration_def by (rule purge_workers [OF fields(1-3) w])
qed

text \<open>Assigning tokens touches the tokens of the affected times and the rig's counter.\<close>

definition tokened :: "'r::linorder \<Rightarrow> double list \<Rightarrow> ('r, 'w) scheduler \<Rightarrow> ('r, 'w) scheduler" where
  "tokened rig ts s = foldl (assign_token rig) s ts"

lemma tokened_frame:
  "\<exists>counters tokens. tokened rig ts s = s\<lparr>s_fenceCounters := counters, s_fenceTokens := tokens\<rparr> \<and>
     (omap_wf (s_fenceTokens s) \<longrightarrow> omap_wf tokens) \<and>
     (\<forall>slot. fst slot \<noteq> rig \<or> snd slot \<notin> set ts \<longrightarrow> map_of tokens slot = map_of (s_fenceTokens s) slot)"
  unfolding tokened_def
proof (induction ts arbitrary: s)
  case Nil
  show ?case by (rule exI [where x = "s_fenceCounters s"], rule exI [where x = "s_fenceTokens s"]) simp
next
  case (Cons t ts)
  let ?s = "assign_token rig s t"
  have step: "\<exists>counters tokens. ?s = s\<lparr>s_fenceCounters := counters, s_fenceTokens := tokens\<rparr> \<and>
      (omap_wf (s_fenceTokens s) \<longrightarrow> omap_wf tokens) \<and>
      (\<forall>slot. slot \<noteq> (rig, t) \<longrightarrow> map_of tokens slot = map_of (s_fenceTokens s) slot)"
    unfolding assign_token_def Let_def by (rule exI, rule exI, rule conjI, rule refl) simp
  then obtain counters1 tokens1 where s1: "?s = s\<lparr>s_fenceCounters := counters1, s_fenceTokens := tokens1\<rparr>"
    "omap_wf (s_fenceTokens s) \<longrightarrow> omap_wf tokens1"
    "\<forall>slot. slot \<noteq> (rig, t) \<longrightarrow> map_of tokens1 slot = map_of (s_fenceTokens s) slot" by blast
  from Cons.IH [of ?s] obtain counters tokens where
    "foldl (assign_token rig) ?s ts = ?s\<lparr>s_fenceCounters := counters, s_fenceTokens := tokens\<rparr>"
    "omap_wf (s_fenceTokens ?s) \<longrightarrow> omap_wf tokens"
    "\<forall>slot. fst slot \<noteq> rig \<or> snd slot \<notin> set ts \<longrightarrow> map_of tokens slot = map_of (s_fenceTokens ?s) slot" by blast
  then show ?case using s1 by (intro exI [where x = counters] exI [where x = tokens]) auto
qed

lemma CancelGenerationTimes_inv:
  assumes "sched_inv s"
  shows "sched_inv (snd (CancelGenerationTimes rig codes s))"
    "workers_inv anyReset (s, ws) \<Longrightarrow> workers_inv anyReset (snd (CancelGenerationTimes rig codes s), ws)"
proof -
  let ?ts = "affected_times codes"
  let ?retire = "\<lambda>request. wr_rig request = rig \<and> time_value (wr_time request) \<in> set ?ts"
  obtain counters tokens where s1: "tokened rig ?ts s = s\<lparr>s_fenceCounters := counters, s_fenceTokens := tokens\<rparr>"
    and wf: "omap_wf (s_fenceTokens s) \<longrightarrow> omap_wf tokens"
    and other: "\<forall>slot. fst slot \<noteq> rig \<or> snd slot \<notin> set ?ts \<longrightarrow> map_of tokens slot = map_of (s_fenceTokens s) slot"
    using tokened_frame by blast
  let ?s = "s\<lparr>s_fenceCounters := counters, s_fenceTokens := tokens\<rparr>"
  have eq: "snd (CancelGenerationTimes rig codes s) = purge_where ?retire Canceled ?s"
    unfolding CancelGenerationTimes_def Let_def tokened_def [symmetric] s1 by simp
  have fields: "queue_inv ?s" "balanced ?s" "positive_counts (s_inFlight ?s)" "positive_counts (s_runningByRigAndTime ?s)"
    by (rule same_fields_sched [OF assms]; simp add: balanced_def)+
  show "sched_inv (snd (CancelGenerationTimes rig codes s))"
    unfolding eq
  proof (rule purge_sched [OF fields])
    fix k job assume "map_of (s_queue ?s) k = Some job" "\<not> ?retire (qj_request job)"
    then show "fence_current ?s (wr_ident (qj_request job))"
      using sched_invD(7) [OF assms, of k job] other
      by (auto simp: fence_current_def wr_ident_def CurrentGeneration_def current_fence_token_def)
  qed (use sched_invD(5) [OF assms] wf in simp)
  assume "workers_inv anyReset (s, ws)"
  then have w: "workers_inv anyReset (?s, ws)" by (simp add: workers_inv_def InFlightCount_def queue_idents_def)
  show "workers_inv anyReset (snd (CancelGenerationTimes rig codes s), ws)"
    unfolding eq by (rule purge_workers [OF fields(1-3) w])
qed

lemma NotePlaybackAdvanced_inv:
  assumes "sched_inv s"
  shows "sched_inv (snd (NotePlaybackAdvanced rig playhead s))"
    "workers_inv anyReset (s, ws) \<Longrightarrow> workers_inv anyReset (snd (NotePlaybackAdvanced rig playhead s), ws)"
  using assms purge_sched [OF sched_invD(1-5) [OF assms], of _ Shed] purge_workers [OF sched_invD(1-3) [OF assms]]
    sched_invD(7) [OF assms] by (auto simp: NotePlaybackAdvanced_def Let_def)

lemma queue_idents_rig:
  "queue_inv s \<Longrightarrow> held_of (queue_idents (purge_where (\<lambda>request. wr_rig request = rig) kind s)) rig = 0"
  unfolding held_of_def queue_idents_def by (auto simp: purge_queue(1) [OF queue_invD(1)] wr_ident_def)

lemma ResetRig_inv:
  assumes "sched_inv s"
  shows "sched_inv (ResetRig rig s)"
    "workers_inv anyReset (s, ws) \<Longrightarrow> anyReset \<or> (\<forall>w \<in> set ws. wr_rig (worker_request w) \<noteq> rig) \<Longrightarrow>
       workers_inv anyReset (ResetRig rig s, ws)"
proof -
  let ?retire = "\<lambda>request. wr_rig request = rig"
  let ?s = "s\<lparr>s_fenceCounters := omap_erase rig (s_fenceCounters s),
      s_fenceTokens := filter (\<lambda>e. fst (fst e) \<noteq> rig) (s_fenceTokens s)\<rparr>"
  let ?p = "purge_where ?retire Canceled ?s"
  have eq: "ResetRig rig s = ?p\<lparr>s_inFlight := omap_erase rig (s_inFlight ?p)\<rparr>" by (simp add: ResetRig_def Let_def)
  have fields: "queue_inv ?s" "balanced ?s" "positive_counts (s_inFlight ?s)" "positive_counts (s_runningByRigAndTime ?s)"
    by (rule same_fields_sched [OF assms]; simp add: balanced_def)+
  have "sched_inv ?p"
  proof (rule purge_sched [OF fields])
    fix k job assume "map_of (s_queue ?s) k = Some job" "\<not> ?retire (qj_request job)"
    then show "fence_current ?s (wr_ident (qj_request job))"
      using sched_invD(7) [OF assms, of k job]
      by (auto simp: fence_current_def wr_ident_def CurrentGeneration_def current_fence_token_def
          map_of_filter_key [where P = "\<lambda>k. fst k \<noteq> rig"])
  qed (use sched_invD(5) [OF assms] in simp)
  then show "sched_inv (ResetRig rig s)"
    unfolding eq by (auto simp: sched_inv_def queue_inv_def balanced_def queue_idents_def fence_current_def
        CurrentGeneration_def current_fence_token_def positive_counts_erase)
  assume "workers_inv anyReset (s, ws)"
  then have "workers_inv anyReset (?s, ws)" by (simp add: workers_inv_def InFlightCount_def queue_idents_def)
  then have w: "workers_inv anyReset (?p, ws)" by (rule purge_workers [OF fields(1-3)])
  assume free: "anyReset \<or> (\<forall>w \<in> set ws. wr_rig (worker_request w) \<noteq> rig)"
  have idle: "held_of (worker_idents ws) rig = 0" if "\<not> anyReset"
    using free that by (auto simp: held_of_def worker_idents_def wr_ident_def)
  define p where "p = ?p"
  have r: "ResetRig rig s = p\<lparr>s_inFlight := omap_erase rig (s_inFlight p)\<rparr>" by (simp only: eq p_def)
  have count: "InFlightCount (ResetRig rig s) r = (if r = rig then 0 else InFlightCount p r)"
    and idents: "queue_idents (ResetRig rig s) = queue_idents p" for r
    unfolding r by (simp_all add: InFlightCount_def queue_idents_def)
  have "held_of (queue_idents p) rig = 0" unfolding p_def by (rule queue_idents_rig [OF fields(1)])
  then show "workers_inv anyReset (ResetRig rig s, ws)"
    using w [folded p_def] idle unfolding workers_inv_def prod.case count idents by (simp add: r)
qed

subsection \<open>Enqueueing\<close>

lemma merge_inv:
  assumes "sched_inv s" "merge_if_queued slot priority s = (b, s')"
  shows "sched_inv s'" "workers_inv anyReset (s, ws) \<Longrightarrow> workers_inv anyReset (s', ws)"
    "b \<longleftrightarrow> map_of (s_queuedByRigAndTime s) slot \<noteq> None" "\<not> b \<Longrightarrow> s' = s"
    "InFlightCount s' = InFlightCount s" "s_perRigCap s' = s_perRigCap s"
proof -
  note inv = sched_invD(1) [OF assms(1)]
  have goal: "sched_inv s' \<and> (workers_inv anyReset (s, ws) \<longrightarrow> workers_inv anyReset (s', ws)) \<and>
    (b \<longleftrightarrow> map_of (s_queuedByRigAndTime s) slot \<noteq> None) \<and> (\<not> b \<longrightarrow> s' = s) \<and>
    InFlightCount s' = InFlightCount s \<and> s_perRigCap s' = s_perRigCap s" for ws anyReset
    using inv
  proof (cases rule: merge_cases [where slot = slot and priority = priority])
    case absent
    then show ?thesis using assms by simp
  next
    case (coalesced k job)
    then have "s' = s\<lparr>s_coalesced := s_coalesced s + 1\<rparr>" "b" using assms(2) by simp_all
    then show ?thesis
      using coalesced(1) same_books_inv [of s s'] assms(1) by (simp add: InFlightCount_def fun_eq_iff)
  next
    case (promoted k job)
    then have s': "s' = merged slot k job s" and b using assms(2) by simp_all
    note m = merged_inv [OF inv promoted(2,3,6,7)]
    have len: "length (s_queue s') = length (s_queue s)" using arg_cong [OF m(2), of size] by (simp add: s')
    have f: "same_fences s s'" by (simp add: s' merged_def same_fences_def)
    have q: "queue_idents s' = queue_idents s" by (simp only: s' m(2))
    have "sched_inv s'"
      unfolding sched_inv_def same_fences_current [OF f] q
      using assms(1) m(1) len by (simp add: sched_inv_def s' balanced_def) (simp add: merged_def)
    moreover have "workers_inv anyReset (s', ws) = workers_inv anyReset (s, ws)"
      unfolding workers_inv_def prod.case q by (simp add: s' merged_def InFlightCount_def)
    ultimately show ?thesis using promoted(1) \<open>b\<close> by (simp add: s' merged_def InFlightCount_def fun_eq_iff)
  qed
  show "sched_inv s'" "workers_inv anyReset (s, ws) \<Longrightarrow> workers_inv anyReset (s', ws)"
    "b \<longleftrightarrow> map_of (s_queuedByRigAndTime s) slot \<noteq> None" "\<not> b \<Longrightarrow> s' = s"
    "InFlightCount s' = InFlightCount s" "s_perRigCap s' = s_perRigCap s"
    using goal by blast+
qed

lemma insert_inv:
  assumes inv: "sched_inv s" and free: "map_of (s_queuedByRigAndTime s) (rig, time_value time) = None"
    and usable: "usable_time time" and current: "CurrentGeneration s rig = generation"
  shows "sched_inv (insert_job rig time priority generation work s)"
    "workers_inv anyReset (s, ws) \<Longrightarrow> workers_inv anyReset (insert_job rig time priority generation work s, ws)"
proof -
  let ?r = "new_request s rig time priority generation" and ?s = "insert_job rig time priority generation work s"
  note q = sched_invD(1) [OF inv]
  have eq: "?s = inserted ?r work s" by (rule insert_eq [OF q free])
  have slot: "request_slot ?r = (rig, time_value time)" "wr_time ?r = time" "wr_rig ?r = rig" by (simp_all add: new_request_def)
  have free': "map_of (s_queuedByRigAndTime s) (request_slot ?r) = None" using free by (simp add: slot)
  have usable': "usable_time (wr_time ?r)" using usable by (simp add: slot)
  note ins = inserted_inv [OF q free' usable', of work, folded eq]
  have len: "length (s_queue ?s) = length (s_queue s) + 1" using arg_cong [OF ins(2), of size] by simp
  have f: "same_fences s ?s" by (simp add: eq inserted_def Let_def same_fences_def)
  have "fence_current s (wr_ident ?r)"
    using usable current by (simp add: fence_current_def wr_ident_def new_request_def)
  then have fences: "\<forall>x \<in># queue_idents ?s. fence_current s x" using sched_invD(6) [OF inv] by (auto simp: ins(2))
  have "positive_counts (s_inFlight ?s)"
    using sched_invD(3) [OF inv] by (simp add: eq inserted_def Let_def positive_counts_put)
  moreover have "balanced ?s"
    using sched_invD(2) [OF inv] len by (simp add: balanced_def eq) (simp add: inserted_def Let_def)
  ultimately show "sched_inv ?s"
    unfolding sched_inv_def same_fences_current [OF f] using ins(1) fences sched_invD(4,5) [OF inv]
    by (simp add: eq inserted_def Let_def)
  have count: "InFlightCount ?s r = InFlightCount s r + (if r = rig then 1 else 0)" for r
    by (auto simp: eq inserted_def Let_def InFlightCount_eq slot)
  have held: "held_of (queue_idents ?s + M) r = held_of (queue_idents s + M) r + (if r = rig then 1 else 0)" for r M
    by (auto simp: ins(2) wr_ident_def slot)
  assume "workers_inv anyReset (s, ws)"
  then show "workers_inv anyReset (?s, ws)"
    unfolding workers_inv_def prod.case count held by (simp add: eq inserted_def Let_def)
qed

lemma admit_inv:
  assumes "sched_inv s" "trigger_admit rig time priority generation s = (out, s')"
  shows "sched_inv s'" "workers_inv anyReset (s, ws) \<Longrightarrow> workers_inv anyReset (s', ws)"
    "out = None \<Longrightarrow> s' = s \<and> map_of (s_queuedByRigAndTime s) (rig, time_value time) = None \<and>
       CurrentGeneration s rig = generation \<and> InFlightCount s rig < s_perRigCap s \<and> \<not> s_stopping s"
proof -
  obtain b s1 where m: "merge_if_queued (rig, time_value time) priority s = (b, s1)" by fastforce
  note mi = merge_inv [OF assms(1) m]
  show "sched_inv s'" "workers_inv anyReset (s, ws) \<Longrightarrow> workers_inv anyReset (s', ws)"
    "out = None \<Longrightarrow> s' = s \<and> map_of (s_queuedByRigAndTime s) (rig, time_value time) = None \<and>
       CurrentGeneration s rig = generation \<and> InFlightCount s rig < s_perRigCap s \<and> \<not> s_stopping s"
    using assms mi(1,2,4) mi(3) [symmetric] m
    by (auto simp: trigger_admit_def simp del: not_None_eq split: if_splits bool.splits)
qed

lemma Enqueue_cases:
  assumes "sched_inv s"
  obtains (declined) "Enqueue h rig time priority generation work s = (False, decline s)"
  | (merged) s' where "RigExecBackgroundWarmingEnabled h" "usable_time time" "work \<noteq> None" "\<not> s_stopping s"
      "CurrentGeneration s rig = generation" "merge_if_queued (rig, time_value time) priority s = (True, s')"
      "Enqueue h rig time priority generation work s = (True, s')"
  | (queued) w where "RigExecBackgroundWarmingEnabled h" "usable_time time" "work = Some w" "\<not> s_stopping s"
      "CurrentGeneration s rig = generation" "map_of (s_queuedByRigAndTime s) (rig, time_value time) = None"
      "InFlightCount s rig < s_perRigCap s"
      "Enqueue h rig time priority generation work s = (True, insert_job rig time priority generation w s)"
proof -
  obtain b s1 where m: "merge_if_queued (rig, time_value time) priority s = (b, s1)" by fastforce
  note mi = merge_inv [OF assms m]
  show thesis
  proof (cases "RigExecBackgroundWarmingEnabled h \<and> usable_time time \<and> work \<noteq> None \<and> \<not> s_stopping s \<and>
      CurrentGeneration s rig = generation")
    case False
    then have "Enqueue h rig time priority generation work s = (False, decline s)"
      by (auto simp: Enqueue_def split: option.splits)
    then show thesis by (rule declined)
  next
    case True
    then obtain w where w: "work = Some w" by auto
    show thesis
    proof (cases b)
      case True
      then show thesis using merged m w \<open>RigExecBackgroundWarmingEnabled h \<and> _\<close> by (simp add: Enqueue_def)
    next
      case False
      then have s1: "s1 = s" "map_of (s_queuedByRigAndTime s) (rig, time_value time) = None" using mi(3,4) by blast+
      show thesis
        using declined queued m w s1 False \<open>RigExecBackgroundWarmingEnabled h \<and> _\<close>
        by (cases "InFlightCount s rig < s_perRigCap s") (simp_all add: Enqueue_def)
    qed
  qed
qed

lemma Enqueue_inv:
  assumes "sched_inv s"
  shows "sched_inv (snd (Enqueue h rig time priority generation work s))"
    "workers_inv anyReset (s, ws) \<Longrightarrow> workers_inv anyReset (snd (Enqueue h rig time priority generation work s), ws)"
  using assms
proof (atomize (full), cases rule: Enqueue_cases [where h = h and rig = rig and time = time and priority = priority
      and generation = generation and work = work])
  case declined
  then show "sched_inv (snd (Enqueue h rig time priority generation work s)) \<and>
      (workers_inv anyReset (s, ws) \<longrightarrow> workers_inv anyReset (snd (Enqueue h rig time priority generation work s), ws))"
    using assms same_books_inv [of s "decline s"] by simp
next
  case (merged s')
  then show "sched_inv (snd (Enqueue h rig time priority generation work s)) \<and>
      (workers_inv anyReset (s, ws) \<longrightarrow> workers_inv anyReset (snd (Enqueue h rig time priority generation work s), ws))"
    using merge_inv(1,2) [OF assms merged(6)] by simp
next
  case (queued w)
  then show "sched_inv (snd (Enqueue h rig time priority generation work s)) \<and>
      (workers_inv anyReset (s, ws) \<longrightarrow> workers_inv anyReset (snd (Enqueue h rig time priority generation work s), ws))"
    using insert_inv [OF assms queued(6,2,5)] by simp
qed

subsection \<open>Workers\<close>

lemma take_inv:
  assumes inv: "sched_inv s" and queue: "s_queue s = (k, job) # rest"
  shows "sched_inv (taken job s)"
    "workers_inv anyReset (s, ws) \<Longrightarrow> workers_inv anyReset (taken job s, Fetched (qj_request job) # ws)"
proof -
  note q = sched_invD(1) [OF inv]
  note t = taken_inv [OF q queue]
  have f: "same_fences s (taken job s)" by (simp add: taken_def same_fences_def)
  have "balanced (taken job s)" using sched_invD(2) [OF inv] by (simp add: balanced_def taken_def queue)
  moreover have "\<forall>x \<in># queue_idents (taken job s). fence_current s x"
  proof
    fix x assume "x \<in># queue_idents (taken job s)"
    then have "x \<in># queue_idents s" unfolding t(2) by simp
    then show "fence_current s x" by (rule sched_invD(6) [OF inv])
  qed
  moreover have "positive_counts (s_inFlight (taken job s))" "omap_wf (s_fenceTokens (taken job s))"
    "positive_counts (s_runningByRigAndTime (taken job s))"
    using sched_invD(3-5) [OF inv] by (simp_all add: taken_def positive_counts_put)
  ultimately show "sched_inv (taken job s)"
    unfolding sched_inv_def same_fences_current [OF f] using t(1) by (intro conjI)
  assume w: "workers_inv anyReset (s, ws)"
  have idents: "worker_idents (Fetched (qj_request job) # ws) = add_mset (wr_ident (qj_request job)) (worker_idents ws)"
    by (simp add: worker_idents_def)
  have held: "held_of (queue_idents (taken job s) + worker_idents (Fetched (qj_request job) # ws)) r =
      held_of (queue_idents s + worker_idents ws) r" for r
    by (simp add: t(2) idents)
  have "count_of (map_of (s_runningByRigAndTime s)) slot = held_at (worker_idents ws) slot" for slot
    using w by (simp only: workers_inv_def prod.case)
  then have "count_of (map_of (s_runningByRigAndTime (taken job s))) slot =
      held_at (worker_idents (Fetched (qj_request job) # ws)) slot" for slot
    unfolding idents by (auto simp: taken_def wr_ident_def)
  moreover have "InFlightCount (taken job s) = InFlightCount s" "s_running (taken job s) = Suc (s_running s)"
    by (auto simp: taken_def InFlightCount_def)
  ultimately show "workers_inv anyReset (taken job s, Fetched (qj_request job) # ws)"
    using w unfolding workers_inv_def prod.case held by (simp del: held_simps)
qed

lemma finish_inv:
  assumes inv: "sched_inv s" and w: "workers_inv anyReset (s, us @ worker # vs)"
  shows "sched_inv (FinishJob (worker_request worker) ok out s)"
    "workers_inv anyReset (FinishJob (worker_request worker) ok out s, us @ vs)"
proof -
  let ?r = "worker_request worker" and ?s = "FinishJob (worker_request worker) ok out s"
  have running: "s_running s = Suc (length (us @ vs))" using w by (simp add: workers_inv_def)
  have f: "same_fences s ?s" by (simp add: finish_eq finished_def same_fences_def)
  have q: "queue_idents ?s = queue_idents s" by (simp add: finish_eq finished_inv)
  have sel: "s_queue ?s = s_queue s" "s_sequence ?s = s_sequence s" by (simp_all add: finish_eq finished_def)
  have "balanced ?s"
    using sched_invD(2) [OF inv] running
    by (cases ok; cases out) (simp_all add: balanced_def finish_eq finished_def)
  then show "sched_inv ?s"
    unfolding sched_inv_def same_fences_current [OF f] q
    using sched_invD [OF inv] leave_running_counts(1) [of s ?r]
    by (simp add: finish_eq finished_inv) (simp add: finished_def positive_leave_map)
  have idents: "worker_idents (us @ worker # vs) = add_mset (wr_ident ?r) (worker_idents (us @ vs))"
    by (simp add: worker_idents_def)
  have "count_of (map_of (s_runningByRigAndTime s)) slot =
      (if slot = request_slot ?r then 1 else 0) + held_at (worker_idents (us @ vs)) slot" for slot
  proof -
    have "count_of (map_of (s_runningByRigAndTime s)) slot = held_at (worker_idents (us @ worker # vs)) slot"
      using w by (simp only: workers_inv_def prod.case)
    then show ?thesis unfolding idents by (auto simp: wr_ident_def)
  qed
  then have "count_of (map_of (s_runningByRigAndTime ?s)) slot = held_at (worker_idents (us @ vs)) slot" for slot
    using leave_running_counts(2) [OF sched_invD(4) [OF inv], of ?r slot]
    by (simp add: finish_eq finished_def)
  moreover have count: "InFlightCount ?s r = InFlightCount s r - (if r = wr_rig ?r then 1 else 0)" for r
    by (simp add: InFlightCount_eq finish_eq finished_def count_leave_map)
  have held: "held_of (queue_idents s + worker_idents (us @ worker # vs)) r =
      (if r = wr_rig ?r then 1 else 0) + held_of (queue_idents s + worker_idents (us @ vs)) r" for r
    by (auto simp: idents wr_ident_def)
  have bound: "InFlightCount s r \<le> held_of (queue_idents s + worker_idents (us @ worker # vs)) r"
    and exact: "\<not> anyReset \<Longrightarrow> InFlightCount s r = held_of (queue_idents s + worker_idents (us @ worker # vs)) r" for r
    using w unfolding workers_inv_def prod.case by blast+
  have "InFlightCount ?s r \<le> held_of (queue_idents s + worker_idents (us @ vs)) r" for r
    using bound [of r] unfolding held count by (simp del: held_simps split: if_splits)
  moreover have "\<not> anyReset \<Longrightarrow> InFlightCount ?s r = held_of (queue_idents s + worker_idents (us @ vs)) r" for r
    using exact [of r] unfolding held count by (simp del: held_simps split: if_splits)
  moreover have "s_running ?s = length (us @ vs)" using running by (simp add: finish_eq finished_def)
  ultimately show "workers_inv anyReset (?s, us @ vs)"
    unfolding workers_inv_def prod.case q by blast
qed

end
