(* ===== verification/Warm_Props.thy ===== *)
theory Warm_Props
  imports Warm_Pool
begin

text \<open>
  The properties of the background scheduler, with their witnesses.
\<close>

section \<open>Reachable pools\<close>

lemma method_step_inv:
  assumes "method_step anyReset ws s s'" "sched_inv s"
  shows "sched_inv s'" "workers_inv anyReset (s, ws) \<Longrightarrow> workers_inv anyReset (s', ws)"
proof -
  have "sched_inv s' \<and> (workers_inv anyReset (s, ws) \<longrightarrow> workers_inv anyReset (s', ws))"
    using assms
  proof (cases rule: method_step.cases)
    case (step_cancel rig)
    then show ?thesis using CancelGeneration_inv [OF assms(2)] by blast
  next
    case (step_cancel_times rig codes)
    then show ?thesis using CancelGenerationTimes_inv [OF assms(2)] by blast
  next
    case (step_playback rig playhead)
    then show ?thesis using NotePlaybackAdvanced_inv [OF assms(2)] by blast
  next
    case (step_reset rig)
    then show ?thesis using ResetRig_inv [OF assms(2)] by blast
  next
    case (step_enqueue h rig time priority generation work)
    then show ?thesis using Enqueue_inv [OF assms(2)] by blast
  next
    case (step_admit time rig priority generation)
    obtain out s1 where "trigger_admit rig time priority generation s = (out, s1)" by fastforce
    then show ?thesis using step_admit admit_inv(1,2) [OF assms(2)] by auto
  next
    case (step_insert time rig priority generation s1 work)
    from admit_inv(3) [OF assms(2) step_insert(3)] insert_inv [OF assms(2)] step_insert(1,2)
    show ?thesis by blast
  qed (use same_books_inv [of s s'] in simp_all)
  then show "sched_inv s'" "workers_inv anyReset (s, ws) \<Longrightarrow> workers_inv anyReset (s', ws)" by blast+
qed

definition pool_inv :: "bool \<Rightarrow> ('r::linorder, 'w) pool \<Rightarrow> bool" where
  "pool_inv anyReset p \<longleftrightarrow> sched_inv (fst p) \<and> workers_inv anyReset p"

lemma pool_step_inv:
  assumes "pool_step anyReset p p'" "pool_inv anyReset p"
  shows "pool_inv anyReset p'"
  using assms
proof (cases rule: pool_step.cases)
  case (pool_method ws s s')
  then show ?thesis using method_step_inv [OF pool_method(3)] assms(2) by (simp add: pool_inv_def)
next
  case (pool_fetch wait s job s' ws)
  then obtain k rest where "s_queue s = (k, job) # rest" "s' = taken job s" by (auto simp: pop_eq)
  then show ?thesis using take_inv [of s k job rest] assms(2) pool_fetch by (simp add: pool_inv_def)
next
  case (pool_check s us r vs)
  let ?w = "if IsGenerationCurrent s (wr_rig r) (wr_generation r) then Working r else Stale r"
  have "worker_idents (us @ ?w # vs) = worker_idents (us @ Fetched r # vs)" by (simp add: worker_idents_def)
  then have "workers_inv anyReset (s, us @ ?w # vs) \<longleftrightarrow> workers_inv anyReset (s, us @ Fetched r # vs)"
    unfolding workers_inv_def prod.case by (simp del: held_simps)
  then show ?thesis using assms(2) unfolding pool_check pool_inv_def by simp
next
  case (pool_drop s us r vs)
  then show ?thesis using finish_inv [of s anyReset us "Stale r" vs] assms(2) by (simp add: pool_inv_def)
next
  case (pool_finish s us r vs out)
  then show ?thesis using finish_inv [of s anyReset us "Working r" vs] assms(2) by (simp add: pool_inv_def)
qed

lemma new_scheduler_inv: "pool_inv anyReset (new_scheduler n m, [])"
  by (simp add: pool_inv_def sched_inv_def workers_inv_def new_scheduler_def queue_inv_def balanced_def
      queue_idents_def worker_idents_def InFlightCount_def)

lemma reachable_inv:
  assumes "pool_reachable anyReset p"
  shows "pool_inv anyReset p"
  using assms by induction (simp_all add: new_scheduler_inv pool_step_inv)

lemma reachableD:
  assumes "pool_reachable anyReset (s, ws)"
  shows "sched_inv s" "workers_inv anyReset (s, ws)"
  using reachable_inv [OF assms] by (simp_all add: pool_inv_def)

section \<open>A run for the witnesses\<close>

definition fill_host :: host where
  "fill_host = \<lparr>h_frameCache = None, h_parallel = True\<rparr>"

lemma fill_host_on [simp]: "RigExecBackgroundWarmingEnabled fill_host"
  by (simp add: fill_host_def RigExecBackgroundWarmingEnabled_def RigExecFrameCacheModeFromEnvironment_def
      RigExecParseFrameCacheMode_def warming_gate_def)

definition demo_start :: "(nat, nat) scheduler" where
  "demo_start = new_scheduler 0 0"

definition demo_sweep :: "(nat, nat) scheduler" where
  "demo_sweep = snd (Enqueue fill_host 0 (TimeValue (Fin 5)) Sweep 0 (Some 50) demo_start)"

definition demo_two :: "(nat, nat) scheduler" where
  "demo_two = snd (Enqueue fill_host 0 (TimeValue (Fin 3)) Neighbor 0 (Some 30) demo_sweep)"

lemma demo_reachable: "pool_reachable b (demo_start, [])" "pool_reachable b (demo_sweep, [])" "pool_reachable b (demo_two, [])"
proof -
  show start: "pool_reachable b (demo_start, [])" unfolding demo_start_def by (rule reach_start)
  show sweep: "pool_reachable b (demo_sweep, [])"
    unfolding demo_sweep_def by (rule reach_step [OF start pool_method [OF step_enqueue]])
  show "pool_reachable b (demo_two, [])"
    unfolding demo_two_def by (rule reach_step [OF sweep pool_method [OF step_enqueue]])
qed

lemmas run_scheduler = new_scheduler_def Enqueue_def merge_if_queued_def insert_job_def InFlightCount_def
  CurrentGeneration_def current_fence_token_def report_def omap_emplace_def omap_put_def omap_erase_def Let_def

lemma demo_queue:
  "s_queue demo_sweep = [((1, 0), \<lparr>qj_request = \<lparr>wr_rig = 0, wr_time = TimeValue (Fin 5), wr_priority = Sweep,
      wr_generation = 0, wr_fenceToken = 0\<rparr>, qj_work = 50\<rparr>)]"
  "s_queue demo_two = [((0, 1), \<lparr>qj_request = \<lparr>wr_rig = 0, wr_time = TimeValue (Fin 3), wr_priority = Neighbor,
      wr_generation = 0, wr_fenceToken = 0\<rparr>, qj_work = 30\<rparr>)] @ s_queue demo_sweep"
  by (simp_all add: demo_two_def demo_sweep_def demo_start_def run_scheduler)

section \<open>The books and the queue\<close>

lemma drop_queue_books:
  assumes "balanced s"
  shows "balanced (drop_queue s)" "s_droppedAtShutdown (drop_queue s) = s_droppedAtShutdown s + length (s_queue s)"
proof -
  have step: "drop_at_shutdown a e = a\<lparr>s_inFlight := leave_map (s_inFlight a) (wr_rig (qj_request (snd e))),
      s_log := s_log a @ log_of a (qj_request (snd e)) DroppedAtShutdown Published,
      s_droppedAtShutdown := s_droppedAtShutdown a + 1\<rparr>" for a :: "('a, 'b) scheduler" and e
    by (simp add: drop_at_shutdown_def leave_flight_eq report_eq Let_def log_of_def)
  have "\<exists>m l. foldl drop_at_shutdown s es = s\<lparr>s_inFlight := m, s_log := l,
      s_droppedAtShutdown := s_droppedAtShutdown s + length es\<rparr>" for es
  proof (induction es rule: rev_induct)
    case Nil
    show ?case by (rule exI [where x = "s_inFlight s"], rule exI [where x = "s_log s"]) simp
  next
    case (snoc e es)
    then obtain m l where "foldl drop_at_shutdown s es = s\<lparr>s_inFlight := m, s_log := l,
      s_droppedAtShutdown := s_droppedAtShutdown s + length es\<rparr>" by blast
    then show ?case unfolding foldl_append by (simp add: step) blast
  qed
  from this [of "s_queue s"] obtain m l where "drop_queue s = s\<lparr>s_inFlight := m, s_log := l,
      s_droppedAtShutdown := s_droppedAtShutdown s + length (s_queue s), s_queue := [], s_queuedByRigAndTime := []\<rparr>"
    unfolding drop_queue_def by auto
  then show "balanced (drop_queue s)" "s_droppedAtShutdown (drop_queue s) = s_droppedAtShutdown s + length (s_queue s)"
    using assms by (simp_all add: balanced_def)
qed

text \<open>C32. The books balance in every reachable state, and after a shutdown: every job that ever
  entered the queue (the enqueue sequence counts them) is published, declined, dropped,
  canceled, shed, queued or running, exactly once; the running count is the number of workers
  that hold a job.\<close>

theorem scheduler_books_balance:
  assumes "pool_reachable anyReset (s, ws)"
  shows "(let st = Stats s in
      s_sequence s = st_published st + st_declinedInvalid st + st_declinedGeneration st + st_droppedStale st +
        st_canceled st + st_shed st + st_droppedAtShutdown st + st_queuedDepth st + st_running st \<and>
      st_completed st = st_published st + st_declinedInvalid st + st_declinedGeneration st \<and>
      st_running st = length ws) \<and>
    (let st = Stats (drop_queue s) in
      s_sequence (drop_queue s) = st_published st + st_declinedInvalid st + st_declinedGeneration st +
        st_droppedStale st + st_canceled st + st_shed st + st_droppedAtShutdown st + st_queuedDepth st + st_running st)"
  using sched_invD(2) [OF reachableD(1) [OF assms]] drop_queue_books(1) [of s] reachableD(2) [OF assms]
  by (simp add: Stats_def balanced_def workers_inv_def Let_def)

theorem scheduler_books_balance_witness:
  "pool_reachable True (demo_two, []) \<and> s_sequence demo_two = 2 \<and> st_queuedDepth (Stats demo_two) = 2"
  using scheduler_books_balance [OF demo_reachable(3) [of True]] demo_reachable(3)
  by (simp add: Stats_def Let_def demo_two_def demo_sweep_def demo_start_def run_scheduler)

text \<open>C33. Nothing stale waits in the queue: in every reachable state a queued job has a finite
  time, its generation and its fence token are the current ones, its key carries its priority,
  and the coalescing index has exactly one entry per queued job, so no frame is queued twice.\<close>

theorem queued_jobs_are_current:
  assumes "pool_reachable anyReset (s, ws)" "(k, job) \<in> set (s_queue s)"
  shows "usable_time (wr_time (qj_request job)) \<and>
    IsWarmRequestCurrent s (wr_rig (qj_request job)) (wr_generation (qj_request job)) (wr_time (qj_request job))
      (wr_fenceToken (qj_request job)) \<and>
    fst k = priority_rank (wr_priority (qj_request job)) \<and>
    map_of (s_queuedByRigAndTime s) (job_slot job) = Some k \<and>
    (\<forall>l job'. (l, job') \<in> set (s_queue s) \<longrightarrow> job_slot job' = job_slot job \<longrightarrow> l = k \<and> job' = job)"
proof -
  note inv = reachableD(1) [OF assms(1)]
  note q = sched_invD(1) [OF inv]
  from assms(2) have job: "map_of (s_queue s) k = Some job" by (simp add: queue_mem [OF q])
  have "l = k \<and> job' = job" if "(l, job') \<in> set (s_queue s)" "job_slot job' = job_slot job" for l job'
  proof -
    from that have l: "map_of (s_queue s) l = Some job'" by (simp add: queue_mem [OF q])
    show ?thesis using slot_unique [OF q l job that(2)] l job by simp
  qed
  moreover have "IsWarmRequestCurrent s (wr_rig (qj_request job)) (wr_generation (qj_request job))
      (wr_time (qj_request job)) (wr_fenceToken (qj_request job))"
    using sched_invD(7) [OF inv job] by (simp add: fence_current_def wr_ident_def IsWarmRequestCurrent_def)
  ultimately show ?thesis using queue_invD(3,5,6) [OF q job] by blast
qed

theorem queued_jobs_are_current_witness:
  "\<exists>k job. (k, job) \<in> set (s_queue demo_two) \<and>
     IsWarmRequestCurrent demo_two (wr_rig (qj_request job)) (wr_generation (qj_request job))
       (wr_time (qj_request job)) (wr_fenceToken (qj_request job))"
proof -
  obtain k job where "(k, job) \<in> set (s_queue demo_two)" by (simp add: demo_queue) blast
  then show ?thesis using queued_jobs_are_current [OF demo_reachable(3)] by blast
qed

section \<open>In-flight counts\<close>

lemma held_of_queue: "held_of (queue_idents s) rig = length (filter (\<lambda>e. wr_rig (qj_request (snd e)) = rig) (s_queue s))"
proof -
  have "held_of (image_mset (\<lambda>e. wr_ident (qj_request (snd e))) (mset q)) rig =
      length (filter (\<lambda>e. wr_rig (qj_request (snd e)) = rig) q)" for q :: "(queue_key \<times> ('a, 'b) queued_job) list"
    by (induction q) (auto simp: wr_ident_def)
  then show ?thesis by (simp add: queue_idents_def)
qed

lemma held_of_workers: "held_of (worker_idents ws) rig = length (filter (\<lambda>w. wr_rig (worker_request w) = rig) ws)"
  by (induction ws) (auto simp: worker_idents_def wr_ident_def)

text \<open>C36. The in-flight count that drives the cap is the number of the rig's jobs that are queued
  or held by a worker, in every state reached without resetting a rig under a running job. It
  never exceeds that number, whatever is reset.\<close>

theorem in_flight_is_exact:
  assumes "pool_reachable anyReset (s, ws)"
  shows "InFlightCount s rig \<le> length (filter (\<lambda>e. wr_rig (qj_request (snd e)) = rig) (s_queue s)) +
           length (filter (\<lambda>w. wr_rig (worker_request w) = rig) ws) \<and>
    (anyReset \<or> InFlightCount s rig = length (filter (\<lambda>e. wr_rig (qj_request (snd e)) = rig) (s_queue s)) +
           length (filter (\<lambda>w. wr_rig (worker_request w) = rig) ws))"
  using reachableD(2) [OF assms]
  unfolding workers_inv_def prod.case held_simps held_of_queue held_of_workers by blast

theorem in_flight_is_exact_witness: "InFlightCount demo_two 0 = 2 \<and> length (s_queue demo_two) = 2"
  using in_flight_is_exact [OF demo_reachable(3) [of False], of 0] by (simp add: demo_queue)

text \<open>C38. Resetting a rig while one of its jobs runs loses that exactness, and with it the cap: a
  reset forgets the running job, whose end then lowers the count of a job queued since. With a
  cap of one job the rig ends up with two.\<close>

definition reset_trace :: "(nat, nat) scheduler list" where
  "reset_trace = (let
     s1 = SetPerRigJobCap 1 demo_start;
     s2 = snd (Enqueue fill_host 0 (TimeValue (Fin 1)) Neighbor 0 (Some 10) s1);
     s3 = snd (PopJob False s2);
     s4 = ResetRig 0 s3;
     s5 = snd (Enqueue fill_host 0 (TimeValue (Fin 2)) Neighbor 0 (Some 20) s4);
     r = \<lparr>wr_rig = 0, wr_time = TimeValue (Fin 1), wr_priority = Neighbor, wr_generation = 0, wr_fenceToken = 0\<rparr>;
     s6 = FinishJob r True Published s5;
     s7 = snd (Enqueue fill_host 0 (TimeValue (Fin 3)) Neighbor 0 (Some 30) s6)
   in [s1, s2, s3, s4, s5, s6, s7])"

theorem reset_under_running_job_lifts_cap:
  "pool_reachable True (last reset_trace, []) \<and> s_perRigCap (last reset_trace) = 1 \<and>
     length (s_queue (last reset_trace)) = 2"
proof -
  let ?r = "\<lparr>wr_rig = 0::nat, wr_time = TimeValue (Fin 1), wr_priority = Neighbor, wr_generation = 0, wr_fenceToken = 0\<rparr>"
  define s1 where "s1 = SetPerRigJobCap 1 demo_start"
  define s2 where "s2 = snd (Enqueue fill_host 0 (TimeValue (Fin 1)) Neighbor 0 (Some 10) s1)"
  define s3 where "s3 = snd (PopJob False s2)"
  define s4 where "s4 = ResetRig 0 s3"
  define s5 where "s5 = snd (Enqueue fill_host 0 (TimeValue (Fin 2)) Neighbor 0 (Some 20) s4)"
  define s6 where "s6 = FinishJob ?r True Published s5"
  define s7 where "s7 = snd (Enqueue fill_host 0 (TimeValue (Fin 3)) Neighbor 0 (Some 30) s6)"
  have last: "last reset_trace = s7"
    unfolding s7_def s6_def s5_def s4_def s3_def s2_def s1_def reset_trace_def Let_def by simp
  have s2: "s2 = demo_start\<lparr>s_perRigCap := 1, s_sequence := 1, s_queue := [((0, 0), \<lparr>qj_request = ?r, qj_work = 10\<rparr>)],
      s_queuedByRigAndTime := [((0, Fin 1), (0, 0))], s_inFlight := [(0, 1)]\<rparr>"
    by (simp add: s2_def s1_def demo_start_def SetPerRigJobCap_def run_scheduler)
  have s3: "s3 = demo_start\<lparr>s_perRigCap := 1, s_sequence := 1, s_inFlight := [(0, 1)], s_running := 1,
      s_runningByRigAndTime := [((0, Fin 1), 1)]\<rparr>"
    by (simp add: s3_def s2 demo_start_def PopJob_def run_scheduler)
  have pop: "PopJob False s2 = (Popped \<lparr>qj_request = ?r, qj_work = 10\<rparr>, s3)"
    by (simp add: s3_def s2 demo_start_def PopJob_def run_scheduler)
  have s4: "s4 = demo_start\<lparr>s_perRigCap := 1, s_sequence := 1, s_running := 1, s_runningByRigAndTime := [((0, Fin 1), 1)]\<rparr>"
    by (simp add: s4_def s3 demo_start_def ResetRig_def purge_where_def run_scheduler)
  have s5: "s5 = demo_start\<lparr>s_perRigCap := 1, s_sequence := 2, s_running := 1, s_runningByRigAndTime := [((0, Fin 1), 1)],
      s_queue := [((0, 1), \<lparr>qj_request = ?r\<lparr>wr_time := TimeValue (Fin 2)\<rparr>, qj_work = 20\<rparr>)],
      s_queuedByRigAndTime := [((0, Fin 2), (0, 1))], s_inFlight := [(0, 1)]\<rparr>"
    by (simp add: s5_def s4 demo_start_def run_scheduler)
  have s7: "s_perRigCap s7 = 1 \<and> length (s_queue s7) = 2"
    by (simp add: s7_def s6_def s5 demo_start_def FinishJob_def leave_running_def leave_flight_def run_scheduler)
  have "pool_reachable True (s1, [])"
    unfolding s1_def by (rule reach_step [OF demo_reachable(1) pool_method [OF step_cap]])
  then have "pool_reachable True (s2, [])"
    unfolding s2_def by (rule reach_step [OF _ pool_method [OF step_enqueue]])
  from reach_step [OF this pool_fetch [OF pop]] have "pool_reachable True (s3, [Fetched ?r])" by simp
  then have "pool_reachable True (s3, [Working ?r])"
    using reach_step [OF _ pool_check [of True s3 "[]" ?r "[]"]]
    by (simp add: IsGenerationCurrent_def CurrentGeneration_def s3 demo_start_def new_scheduler_def)
  then have "pool_reachable True (s4, [Working ?r])"
    unfolding s4_def by (rule reach_step [OF _ pool_method [OF step_reset]]) simp
  then have "pool_reachable True (s5, [Working ?r])"
    unfolding s5_def by (rule reach_step [OF _ pool_method [OF step_enqueue]])
  then have "pool_reachable True (s6, [])"
    using reach_step [OF _ pool_finish [of True s5 "[]" ?r "[]" Published]] by (simp add: s6_def)
  then have "pool_reachable True (s7, [])"
    unfolding s7_def by (rule reach_step [OF _ pool_method [OF step_enqueue]])
  then show ?thesis using s7 unfolding last by simp
qed

end
