(* ===== verification/Warm_Fence.thy ===== *)
theory Warm_Fence
  imports Warm_Props
begin

text \<open>
  The properties of the fence and of the scheduling order: what a bump of the generation
  retires for good, which job a worker takes next, what an enqueue answers, what a trigger may
  enqueue, and that a drain ends.
\<close>

section \<open>Generations only move forward\<close>

lemma generation_frames [simp]:
  "CurrentGeneration (decline s) = CurrentGeneration s" "CurrentGeneration (note_factory s) = CurrentGeneration s"
  "CurrentGeneration (SetPerRigJobCap cap s) = CurrentGeneration s"
  "CurrentGeneration (SetTransitionHook hook s) = CurrentGeneration s"
  "CurrentGeneration (stop_pool s) = CurrentGeneration s"
  by (auto simp: CurrentGeneration_def decline_def note_factory_def SetPerRigJobCap_def SetTransitionHook_def stop_pool_def)

lemma generation_cong: "s_generations s' = s_generations s \<Longrightarrow> CurrentGeneration s' = CurrentGeneration s"
  by (auto simp: CurrentGeneration_def)

lemma generations_skip: "s_generations (note_skip skip s) = s_generations s"
  by (cases skip) (simp_all add: note_skip_def decline_def)

lemma generations_merge: "queue_inv s \<Longrightarrow> merge_if_queued slot priority s = (b, s') \<Longrightarrow> s_generations s' = s_generations s"
  by (cases rule: merge_cases [where slot = slot and priority = priority and s = s]) (auto simp: merged_def)

lemma generations_insert: "s_generations (insert_job rig time priority generation work s) = s_generations s"
  by (simp add: insert_job_def report_eq Let_def)

lemma generations_admit:
  "queue_inv s \<Longrightarrow> trigger_admit rig time priority generation s = (out, s') \<Longrightarrow> s_generations s' = s_generations s"
  using generations_merge [of s "(rig, time_value time)" priority]
  by (auto simp: trigger_admit_def split: if_splits bool.splits prod.splits)

lemma generations_purge [simp]:
  "omap_wf (s_queue s) \<Longrightarrow> CurrentGeneration (purge_where retire kind s) = CurrentGeneration s"
  by (rule generation_cong) simp

lemma method_generation:
  assumes "method_step anyReset ws s s'" "sched_inv s"
  shows "CurrentGeneration s' rig = CurrentGeneration s rig \<or> CurrentGeneration s' rig = CurrentGeneration s rig + 1"
  using assms(1)
proof (cases rule: method_step.cases)
  case (step_cancel r)
  have "omap_wf (s_queue s)" using queue_invD(1) [OF sched_invD(1) [OF assms(2)]] .
  then show ?thesis unfolding step_cancel CancelGeneration_def by (simp add: CurrentGeneration_def)
next
  case (step_cancel_times r codes)
  have wf: "omap_wf (s_queue s)" using queue_invD(1) [OF sched_invD(1) [OF assms(2)]] .
  obtain counters tokens where "tokened r (affected_times codes) s = s\<lparr>s_fenceCounters := counters, s_fenceTokens := tokens\<rparr>"
    using tokened_frame by blast
  then have "CurrentGeneration s' = CurrentGeneration s"
    using wf unfolding step_cancel_times CancelGenerationTimes_def Let_def tokened_def [symmetric]
    by (intro generation_cong) simp
  then show ?thesis by simp
next
  case (step_playback r playhead)
  then show ?thesis using queue_invD(1) [OF sched_invD(1) [OF assms(2)]]
    by (simp add: NotePlaybackAdvanced_def Let_def)
next
  case (step_reset r)
  have "omap_wf (s_queue s)" using queue_invD(1) [OF sched_invD(1) [OF assms(2)]] .
  then have "CurrentGeneration s' = CurrentGeneration s"
    unfolding step_reset by (intro generation_cong) (simp add: ResetRig_def Let_def)
  then show ?thesis by simp
next
  case (step_enqueue h r time priority generation work)
  have "s_generations (snd (Enqueue h r time priority generation work s)) = s_generations s"
    using assms(2)
  proof (cases rule: Enqueue_cases [where h = h and rig = r and time = time and priority = priority
        and generation = generation and work = work])
    case (merged s1)
    then show ?thesis using generations_merge [OF sched_invD(1) [OF assms(2)] merged(6)] by simp
  qed (simp_all add: decline_def generations_insert)
  then show ?thesis using step_enqueue generation_cong by metis
next
  case (step_admit time r priority generation)
  obtain out s1 where a: "trigger_admit r time priority generation s = (out, s1)" by fastforce
  then show ?thesis using generation_cong [OF generations_admit [OF sched_invD(1) [OF assms(2)] a]] step_admit by simp
next
  case (step_insert time r priority generation s1 work)
  then show ?thesis
    using generation_cong [OF generations_admit [OF sched_invD(1) [OF assms(2)] step_insert(3)]]
      generation_cong [OF generations_insert] by metis
next
  case (step_skip skip)
  then show ?thesis using generation_cong [OF generations_skip] by metis
qed simp_all

lemma pool_generation:
  assumes "pool_step anyReset p p'" "pool_inv anyReset p"
  shows "CurrentGeneration (fst p') rig = CurrentGeneration (fst p) rig \<or>
    CurrentGeneration (fst p') rig = CurrentGeneration (fst p) rig + 1"
  using assms
proof (cases rule: pool_step.cases)
  case (pool_method ws s s')
  then show ?thesis using method_generation [OF pool_method(3), of rig] assms(2) by (simp add: pool_inv_def)
qed (auto simp: pop_eq taken_def finish_eq finished_def CurrentGeneration_def)

lemma generation_advance:
  "(pool_step anyReset ^^ n) p p' \<Longrightarrow> pool_inv anyReset p \<Longrightarrow>
     pool_inv anyReset p' \<and> (\<exists>k \<le> n. CurrentGeneration (fst p') rig = CurrentGeneration (fst p) rig + of_nat k)"
proof (induction n arbitrary: p')
  case (Suc n)
  from Suc.prems(1) obtain q where q: "(pool_step anyReset ^^ n) p q" "pool_step anyReset q p'" by auto
  from Suc.IH [OF q(1) Suc.prems(2)] obtain k where k: "pool_inv anyReset q" "k \<le> n"
    "CurrentGeneration (fst q) rig = CurrentGeneration (fst p) rig + of_nat k" by blast
  from pool_generation [OF q(2) k(1), of rig] show ?case
  proof
    assume "CurrentGeneration (fst p') rig = CurrentGeneration (fst q) rig"
    then show ?thesis using k pool_step_inv [OF q(2) k(1)] by (intro conjI exI [where x = k]) auto
  next
    assume "CurrentGeneration (fst p') rig = CurrentGeneration (fst q) rig + 1"
    then show ?thesis using k pool_step_inv [OF q(2) k(1)]
      by (intro conjI exI [where x = "Suc k"]) (simp_all add: add.commute add.left_commute)
  qed
qed auto

text \<open>C31. An edit retires for good: after \<open>CancelGeneration\<close> nothing of the rig is queued, and
  whatever the program does in the next $2^{64} - 2$ critical sections, no job of an earlier
  generation passes the check before its run or the fence before its publish.\<close>

theorem edit_retires_for_good:
  assumes "pool_reachable anyReset (s, ws)"
    and "(pool_step anyReset ^^ n) (CancelGeneration rig s, ws) (s', ws')" and "n < 2 ^ 64 - 1"
  shows "(\<forall>(k, job) \<in> set (s_queue (CancelGeneration rig s)). wr_rig (qj_request job) \<noteq> rig) \<and>
    \<not> RigExecGenerationCheckAtStart s' rig (CurrentGeneration s rig) \<and>
    \<not> RigExecGenerationCheckBeforePublish s' rig (CurrentGeneration s rig) \<and>
    \<not> IsWarmRequestCurrent s' rig (CurrentGeneration s rig) time token"
proof -
  note inv = reachableD(1) [OF assms(1)]
  let ?s = "s\<lparr>s_generations := omap_put rig (CurrentGeneration s rig + 1) (s_generations s)\<rparr>"
  have wf: "omap_wf (s_queue ?s)" using queue_invD(1) [OF sched_invD(1) [OF inv]] by simp
  have "pool_step anyReset (s, ws) (CancelGeneration rig s, ws)" by (rule pool_method [OF step_cancel])
  then have "pool_inv anyReset (CancelGeneration rig s, ws)"
    using pool_step_inv reachable_inv [OF assms(1)] by blast
  from generation_advance [OF assms(2) this, of rig] obtain k where k: "k \<le> n"
    "CurrentGeneration s' rig = CurrentGeneration (CancelGeneration rig s) rig + of_nat k" by auto
  have "CurrentGeneration (CancelGeneration rig s) rig = CurrentGeneration s rig + 1"
    unfolding CancelGeneration_def generations_purge [OF wf] by (simp add: CurrentGeneration_def)
  then have "CurrentGeneration s' rig = CurrentGeneration s rig + of_nat (Suc k)" using k(2) by simp
  moreover have "of_nat (Suc k) \<noteq> (0 :: 64 word)"
  proof
    assume "of_nat (Suc k) = (0 :: 64 word)"
    then have "2 ^ 64 dvd Suc k" by (simp only: word_of_nat_eq_0_iff) simp
    then have "2 ^ 64 \<le> Suc k" by (rule dvd_imp_le) simp
    then show False using k(1) assms(3) by linarith
  qed
  ultimately have "CurrentGeneration s' rig \<noteq> CurrentGeneration s rig" by simp
  moreover have "\<forall>(k, job) \<in> set (s_queue (CancelGeneration rig s)). wr_rig (qj_request job) \<noteq> rig"
    unfolding CancelGeneration_def purge_queue(1) [OF wf] by auto
  ultimately show ?thesis
    by (simp add: RigExecGenerationCheckAtStart_def RigExecGenerationCheckBeforePublish_def IsGenerationCurrent_def
        IsWarmRequestCurrent_def)
qed

theorem edit_retires_for_good_witness:
  "\<not> IsWarmRequestCurrent (CancelGeneration 0 demo_two) 0 0 (TimeValue (Fin 3)) 0 \<and>
     pool_reachable True (demo_two, [])"
proof -
  have "CurrentGeneration demo_two 0 = 0"
    by (simp add: demo_two_def demo_sweep_def demo_start_def run_scheduler)
  moreover have "(pool_step True ^^ 0) (CancelGeneration 0 demo_two, []) (CancelGeneration 0 demo_two, [])" by simp
  ultimately show ?thesis
    using edit_retires_for_good [where anyReset = True and s = demo_two and ws = "[]" and n = 0 and rig = 0
        and s' = "CancelGeneration 0 demo_two" and ws' = "[]" and time = "TimeValue (Fin 3)" and token = 0]
      demo_reachable(3) by simp
qed

section \<open>The order of service\<close>

text \<open>A worker takes the queued job of least priority rank and, within a rank, of earliest
  enqueue; the job leaves the queue and the index, counts as running, and the rest of the
  queue stands.\<close>

theorem pop_takes_best:
  assumes "pool_reachable anyReset (s, ws)" "PopJob wait s = (Popped job, s')"
  shows "\<exists>k. s_queue s = (k, job) # s_queue s' \<and>
    (\<forall>(l, job') \<in> set (s_queue s). fst k < fst l \<or> (fst k = fst l \<and> snd k \<le> snd l)) \<and>
    (wr_priority (qj_request job) = Sweep \<longrightarrow> (\<forall>(l, job') \<in> set (s_queue s). wr_priority (qj_request job') = Sweep)) \<and>
    map_of (s_queuedByRigAndTime s') (job_slot job) = None \<and> s_running s' = s_running s + 1"
proof -
  note q = sched_invD(1) [OF reachableD(1) [OF assms(1)]]
  from assms(2) obtain k rest where queue: "s_queue s = (k, job) # rest" and s': "s' = taken job s" by (auto simp: pop_eq)
  note t = taken_inv [OF q queue]
  have least: "k \<le> l" if "(l, job') \<in> set (s_queue s)" for l job'
    using t(3) that by (simp add: queue_mem [OF q])
  then have order: "fst k < fst l \<or> (fst k = fst l \<and> snd k \<le> snd l)" if "(l, job') \<in> set (s_queue s)" for l job'
    using least [OF that] by (cases k; cases l) auto
  have "wr_priority (qj_request job') = Sweep"
    if sweep: "wr_priority (qj_request job) = Sweep" and mem: "(l, job') \<in> set (s_queue s)" for l job'
  proof -
    have "map_of (s_queue s) k = Some job" "map_of (s_queue s) l = Some job'"
      using mem by (simp add: queue, simp add: queue_mem [OF q])
    then have "fst k = 1" "fst l = priority_rank (wr_priority (qj_request job'))"
      using queue_invD(3) [OF q] sweep by simp_all
    then show ?thesis using order [OF mem] by (cases "wr_priority (qj_request job')") auto
  qed
  then have "\<forall>(l, job') \<in> set (s_queue s). wr_priority (qj_request job) = Sweep \<longrightarrow> wr_priority (qj_request job') = Sweep"
    by blast
  moreover have "\<forall>(l, job') \<in> set (s_queue s). fst k < fst l \<or> (fst k = fst l \<and> snd k \<le> snd l)"
    using order by blast
  moreover have "s_queue s = (k, job) # s_queue s'" "map_of (s_queuedByRigAndTime s') (job_slot job) = None"
    "s_running s' = s_running s + 1"
    by (simp_all add: queue s' taken_def)
  ultimately show ?thesis by blast
qed

theorem pop_takes_best_witness:
  "\<exists>job s'. PopJob False demo_two = (Popped job, s') \<and> wr_time (qj_request job) = TimeValue (Fin 3) \<and> s_running s' = 1"
proof -
  obtain k job rest where queue: "s_queue demo_two = (k, job) # rest" "wr_time (qj_request job) = TimeValue (Fin 3)"
    by (simp add: demo_queue)
  moreover have stop: "\<not> s_stopping demo_two" "s_running demo_two = 0"
    by (simp_all add: demo_two_def demo_sweep_def demo_start_def run_scheduler)
  ultimately have "PopJob False demo_two = (Popped job, taken job demo_two)" by (simp add: pop_eq)
  with pop_takes_best [OF demo_reachable(3) this] queue(2) stop show ?thesis by auto
qed

section \<open>What an enqueue answers\<close>

text \<open>An enqueue succeeds exactly when filling is on, the time is finite, there is work, the
  pool runs, the generation is current, and the frame is queued already or the rig is below its
  cap. Then the frame is queued, as a neighbor if that was asked for; a frame that was queued
  keeps its work and its place, a new one is stamped with the current fence. A refusal only
  counts.\<close>

theorem enqueue_answer:
  assumes "pool_reachable anyReset (s, ws)"
  shows "case Enqueue h rig time priority generation work s of (accepted, s') \<Rightarrow>
    (accepted \<longleftrightarrow> RigExecBackgroundWarmingEnabled h \<and> usable_time time \<and> work \<noteq> None \<and> \<not> s_stopping s \<and>
       CurrentGeneration s rig = generation \<and>
       (map_of (s_queuedByRigAndTime s) (rig, time_value time) \<noteq> None \<or> InFlightCount s rig < s_perRigCap s)) \<and>
    (\<not> accepted \<longrightarrow> s' = decline s) \<and>
    (accepted \<longrightarrow> (\<exists>k job. map_of (s_queue s') k = Some job \<and> job_slot job = (rig, time_value time) \<and>
       (priority = Neighbor \<longrightarrow> wr_priority (qj_request job) = Neighbor) \<and>
       (case map_of (s_queuedByRigAndTime s) (rig, time_value time) of
          None \<Rightarrow> work = Some (qj_work job) \<and> s_sequence s' = s_sequence s + 1 \<and>
            IsWarmRequestCurrent s rig (wr_generation (qj_request job)) time (wr_fenceToken (qj_request job))
        | Some old \<Rightarrow> snd k = snd old \<and> s_sequence s' = s_sequence s \<and>
            (\<exists>first. map_of (s_queue s) old = Some first \<and> qj_work job = qj_work first))))"
proof -
  note inv = reachableD(1) [OF assms]
  note q = sched_invD(1) [OF inv]
  show ?thesis
    using inv
  proof (cases rule: Enqueue_cases [where h = h and rig = rig and time = time and priority = priority
        and generation = generation and work = work])
    case declined
    have "\<not> (RigExecBackgroundWarmingEnabled h \<and> usable_time time \<and> work \<noteq> None \<and> \<not> s_stopping s \<and>
       CurrentGeneration s rig = generation \<and>
       (map_of (s_queuedByRigAndTime s) (rig, time_value time) \<noteq> None \<or> InFlightCount s rig < s_perRigCap s))"
    proof
      assume all: "RigExecBackgroundWarmingEnabled h \<and> usable_time time \<and> work \<noteq> None \<and> \<not> s_stopping s \<and>
       CurrentGeneration s rig = generation \<and>
       (map_of (s_queuedByRigAndTime s) (rig, time_value time) \<noteq> None \<or> InFlightCount s rig < s_perRigCap s)"
      obtain b s1 where m: "merge_if_queued (rig, time_value time) priority s = (b, s1)" by fastforce
      note mi = merge_inv [OF inv m]
      from all have "fst (Enqueue h rig time priority generation work s)"
        using m mi(4,5,6) mi(3) [symmetric] by (cases b) (auto simp: Enqueue_def simp del: not_None_eq)
      then show False using declined by simp
    qed
    then show ?thesis using declined by simp
  next
    case (merged s1)
    have slot: "map_of (s_queuedByRigAndTime s) (rig, time_value time) \<noteq> None" "s1 \<noteq> s1 \<Longrightarrow> False"
      using merge_inv(3) [OF inv merged(6)] by simp_all
    have "\<exists>k job. map_of (s_queue s1) k = Some job \<and> job_slot job = (rig, time_value time) \<and>
       (priority = Neighbor \<longrightarrow> wr_priority (qj_request job) = Neighbor) \<and>
       (case map_of (s_queuedByRigAndTime s) (rig, time_value time) of None \<Rightarrow> False
        | Some old \<Rightarrow> snd k = snd old \<and> s_sequence s1 = s_sequence s \<and>
            (\<exists>first. map_of (s_queue s) old = Some first \<and> qj_work job = qj_work first))"
      using q
    proof (cases rule: merge_cases [where slot = "(rig, time_value time)" and priority = priority])
      case absent
      then show ?thesis using slot(1) by simp
    next
      case (coalesced k job)
      then have "s1 = s\<lparr>s_coalesced := s_coalesced s + 1\<rparr>" using merged(6) by simp
      then show ?thesis using coalesced by (intro exI [where x = k] exI [where x = job]) auto
    next
      case (promoted k job)
      then have "s1 = merged (rig, time_value time) k job s" using merged(6) by simp
      then show ?thesis using promoted
        by (intro exI [where x = "(0, snd k)"] exI [where x = "job\<lparr>qj_request := (qj_request job)\<lparr>wr_priority := Neighbor\<rparr>\<rparr>"])
          (simp add: merged_def)
    qed
    then show ?thesis using merged slot by (auto split: option.splits)
  next
    case (queued w)
    let ?r = "new_request s rig time priority generation"
    have eq: "insert_job rig time priority generation w s = inserted ?r w s" by (rule insert_eq [OF q queued(6)])
    have "map_of (s_queue (inserted ?r w s)) (priority_rank priority, s_sequence s) = Some \<lparr>qj_request = ?r, qj_work = w\<rparr>"
      "s_sequence (inserted ?r w s) = s_sequence s + 1"
      by (simp_all add: inserted_def Let_def new_request_def)
    then have "\<exists>k job. map_of (s_queue (inserted ?r w s)) k = Some job \<and> job_slot job = (rig, time_value time) \<and>
       (priority = Neighbor \<longrightarrow> wr_priority (qj_request job) = Neighbor) \<and>
       work = Some (qj_work job) \<and> s_sequence (inserted ?r w s) = s_sequence s + 1 \<and>
       IsWarmRequestCurrent s rig (wr_generation (qj_request job)) time (wr_fenceToken (qj_request job))"
      using queued(2,3,5)
      by (intro exI [where x = "(priority_rank priority, s_sequence s)"] exI [where x = "\<lparr>qj_request = ?r, qj_work = w\<rparr>"])
        (simp add: new_request_def IsWarmRequestCurrent_def)
    then show ?thesis using queued unfolding eq by simp
  qed
qed

theorem enqueue_answer_witness:
  "fst (Enqueue fill_host 0 (TimeValue (Fin 5)) Neighbor 0 (Some 99) demo_two) \<and> pool_reachable True (demo_two, [])"
proof -
  have "map_of (s_queuedByRigAndTime demo_two) (0, time_value (TimeValue (Fin 5))) \<noteq> None"
    "\<not> s_stopping demo_two" "CurrentGeneration demo_two 0 = 0"
    by (simp_all add: demo_two_def demo_sweep_def demo_start_def run_scheduler)
  then show ?thesis
    using enqueue_answer [OF demo_reachable(3), where h = fill_host and rig = 0 and time = "TimeValue (Fin 5)"
        and priority = Neighbor and generation = 0 and work = "Some 99"] demo_reachable(3)
    by (simp add: case_prod_beta)
qed

end
