(* ===== verification/Warm_Trigger.thy ===== *)
theory Warm_Trigger
  imports Warm_Fence
begin

text \<open>
  The properties of the triggers, of the playback shedding, of the drain and of the per-time
  fence across a reset.
\<close>

section \<open>Triggers\<close>

text \<open>A factory that only samples: it does not call the scheduler, and nobody else does meanwhile.\<close>

definition quiet_factory :: "('r, 'w) job_factory option \<Rightarrow> bool" where
  "quiet_factory factory \<longleftrightarrow> (\<forall>f. factory = Some f \<longrightarrow> (\<forall>time s. snd (f time s) = s))"

text \<open>What one trigger time may change: the entry of its own slot, one more job when it enqueues,
  one more factory call within the budget.\<close>

definition trigger_effect ::
  "'r::linorder \<times> double \<Rightarrow> ledger \<times> ('r, 'w) scheduler \<Rightarrow> nat \<times> ledger \<times> ('r, 'w) scheduler \<Rightarrow> bool" where
  "trigger_effect protected = (\<lambda>(l, s) (n, l', s').
     sched_inv s' \<and> s_sequence s' = s_sequence s + n \<and> l_budget l' = l_budget l \<and>
     (l_invocations l \<le> sb_maxFactoryInvocations (l_budget l) \<longrightarrow> l_invocations l' \<le> sb_maxFactoryInvocations (l_budget l)) \<and>
     map_of (s_queuedByRigAndTime s') protected = map_of (s_queuedByRigAndTime s) protected)"

lemma trigger_effect_refl: "sched_inv s \<Longrightarrow> trigger_effect protected (l, s) (0, l, s)"
  by (simp add: trigger_effect_def)

lemma trigger_effect_trans:
  "trigger_effect protected ls (n, ls') \<Longrightarrow> trigger_effect protected ls' (m, ls'') \<Longrightarrow>
     trigger_effect protected ls (n + m, ls'')"
  by (cases ls; cases ls'; cases ls'') (auto simp: trigger_effect_def)

lemma merge_effect:
  assumes "sched_inv s" "merge_if_queued slot priority s = (b, s')"
  shows "sched_inv s'" "s_sequence s' = s_sequence s"
    "other \<noteq> slot \<Longrightarrow> map_of (s_queuedByRigAndTime s') other = map_of (s_queuedByRigAndTime s) other"
proof -
  show "sched_inv s'" by (rule merge_inv(1) [OF assms])
  have "s_sequence s' = s_sequence s \<and>
      (other \<noteq> slot \<longrightarrow> map_of (s_queuedByRigAndTime s') other = map_of (s_queuedByRigAndTime s) other)"
    using sched_invD(1) [OF assms(1)] assms(2)
    by (cases rule: merge_cases [where slot = slot and priority = priority]) (auto simp: merged_def)
  then show "s_sequence s' = s_sequence s"
    "other \<noteq> slot \<Longrightarrow> map_of (s_queuedByRigAndTime s') other = map_of (s_queuedByRigAndTime s) other"
    by blast+
qed

lemma admit_effect:
  assumes "sched_inv s" "trigger_admit rig time priority generation s = (out, s')"
  shows "sched_inv s'" "s_sequence s' = s_sequence s" "out \<noteq> Some Enqueued"
    "other \<noteq> (rig, time_value time) \<Longrightarrow> map_of (s_queuedByRigAndTime s') other = map_of (s_queuedByRigAndTime s) other"
proof -
  obtain b s1 where m: "merge_if_queued (rig, time_value time) priority s = (b, s1)" by fastforce
  note e = merge_effect [OF assms(1) m]
  show "sched_inv s'" "s_sequence s' = s_sequence s" "out \<noteq> Some Enqueued"
    "other \<noteq> (rig, time_value time) \<Longrightarrow> map_of (s_queuedByRigAndTime s') other = map_of (s_queuedByRigAndTime s) other"
    using assms m e by (auto simp: trigger_admit_def split: if_splits bool.splits)
qed

lemma budget_effect:
  "budget_spent l = (b, l') \<Longrightarrow> l_budget l' = l_budget l \<and> l_invocations l' = l_invocations l \<and>
     (\<not> b \<longrightarrow> l_invocations l < sb_maxFactoryInvocations (l_budget l))"
  by (auto simp: budget_spent_def Let_def split: if_splits)

lemma trigger_time_effect:
  assumes inv: "sched_inv s" and quiet: "quiet_factory factory" and protected: "protected \<noteq> (rig, time_value time)"
    and run: "enqueue_trigger_time rig time priority generation factory (l, s) = (out, ls')"
  shows "trigger_effect protected (l, s) (if out = Enqueued then 1 else 0, ls')"
proof (cases "usable_time time")
  case False
  then show ?thesis using run inv by (auto simp: enqueue_trigger_time_def trigger_effect_refl)
next
  case usable: True
  obtain o1 s1 where a1: "trigger_admit rig time priority generation s = (o1, s1)" by fastforce
  note e1 = admit_effect [OF inv a1]
  show ?thesis
  proof (cases o1)
    case (Some o')
    then have "out = o'" "ls' = (l, s1)" "o' \<noteq> Enqueued"
      using run usable a1 e1(3) by (simp_all add: enqueue_trigger_time_def)
    then show ?thesis using e1 protected by (simp add: trigger_effect_def)
  next
    case None
    have s1: "s1 = s" using admit_inv(3) [OF inv a1] None by blast
    obtain b l1 where b: "budget_spent l = (b, l1)" by fastforce
    note be = budget_effect [OF b]
    show ?thesis
    proof (cases b)
      case True
      then have "out = Stop" "ls' = (l1, s)" using run usable a1 None b s1 by (simp_all add: enqueue_trigger_time_def)
      then show ?thesis using be inv by (simp add: trigger_effect_def)
    next
      case False
      obtain built l2 s2 where f: "(case factory of
               None \<Rightarrow> (\<lparr>wf_work = None, wf_skip = SkipNone, wf_detail = []\<rparr>, l1, s1)
             | Some f \<Rightarrow> let (built, s') = f time s1
                 in (built, l1\<lparr>l_invocations := l_invocations l1 + 1\<rparr>, note_factory s')) = (built, l2, s2)"
        by (rule prod_cases3)
      have s2: "s2 = s \<or> s2 = note_factory s"
        and l2: "l_budget l2 = l_budget l" "l_invocations l2 \<le> l_invocations l + 1"
        using f quiet be s1 by (auto simp: quiet_factory_def Let_def split: option.splits prod.splits) (metis snd_conv)+
      have same: "same_books s s2" using s2 by auto
      then have inv2: "sched_inv s2" "s_sequence s2 = s_sequence s" "s_queuedByRigAndTime s2 = s_queuedByRigAndTime s"
        using inv same_books_inv(1) [OF same] by (simp_all add: same_books_def)
      have run2: "enqueue_trigger_time rig time priority generation factory (l, s) = (case wf_work built of
              None \<Rightarrow> (Skipped, l2, note_skip (wf_skip built) s2)
            | Some work \<Rightarrow>
              case trigger_admit rig time priority generation s2 of
                (Some out, s3) \<Rightarrow> (out, l2, s3)
              | (None, s3) \<Rightarrow> (Enqueued, l2, insert_job rig time priority generation work s3))"
        using usable a1 None b False f by (simp add: enqueue_trigger_time_def)
      have invocations: "l_invocations l2 \<le> sb_maxFactoryInvocations (l_budget l)" using be l2(2) False by simp
      show ?thesis
      proof (cases "wf_work built")
        case None
        have skip: "same_books s2 (note_skip (wf_skip built) s2)" by simp
        then have "sched_inv (note_skip (wf_skip built) s2)" using same_books_inv(1) [OF skip] inv2(1) by simp
        then show ?thesis using run run2 None inv2 invocations l2(1) skip
          by (auto simp: trigger_effect_def same_books_def)
      next
        case (Some work)
        obtain o3 s3 where a3: "trigger_admit rig time priority generation s2 = (o3, s3)" by fastforce
        note e3 = admit_effect [OF inv2(1) a3]
        show ?thesis
        proof (cases o3)
          case (Some o')
          then show ?thesis using run run2 \<open>wf_work built = Some work\<close> a3 e3(1-3) e3(4) [OF protected] inv2 invocations l2(1)
            by (auto simp: trigger_effect_def)
        next
          case None
          note admitted = admit_inv(3) [OF inv2(1) a3 None]
          then have s3: "s3 = s2" by blast
          let ?s = "insert_job rig time priority generation work s2"
          have "sched_inv ?s" using insert_inv(1) [OF inv2(1)] admitted usable by blast
          moreover have "?s = inserted (new_request s2 rig time priority generation) work s2"
            using insert_eq [OF sched_invD(1) [OF inv2(1)]] admitted by blast
          then have "s_sequence ?s = s_sequence s2 + 1"
            "map_of (s_queuedByRigAndTime ?s) protected = map_of (s_queuedByRigAndTime s2) protected"
            using protected by (simp_all add: inserted_def Let_def new_request_def)
          ultimately show ?thesis
            using run run2 Some a3 None s3 inv2 invocations l2(1) by (auto simp: trigger_effect_def)
        qed
      qed
    qed
  qed
qed

lemma playhead_slot:
  "usable_time playhead \<Longrightarrow> \<not> time_eq time playhead \<Longrightarrow> usable_time time \<Longrightarrow> (rig, time_value playhead) \<noteq> (r, time_value time)"
  by (cases playhead; cases time) (auto simp: double_eq_finite)

lemma unusable_time_skips: "\<not> usable_time time \<Longrightarrow> enqueue_trigger_time rig time priority generation factory ls = (Skipped, ls)"
  by (cases ls) (simp add: enqueue_trigger_time_def)

lemma trigger_times_effect:
  assumes quiet: "quiet_factory factory" and playhead: "usable_time playhead"
  shows "sched_inv s \<Longrightarrow>
    enqueue_times (\<lambda>time. enqueue_trigger_time rig time priority generation factory) playhead n codes (l, s) = (stop, m, ls') \<Longrightarrow>
    n \<le> m \<and> trigger_effect (rig, time_value playhead) (l, s) (m - n, ls')"
proof (induction codes arbitrary: n l s)
  case Nil
  then show ?case by (auto simp: trigger_effect_refl)
next
  case (Cons time codes)
  let ?f = "\<lambda>time. enqueue_trigger_time rig time priority generation factory"
  show ?case
  proof (cases "time_eq time playhead")
    case True
    then show ?thesis using Cons by simp
  next
    case False
    obtain out l1 s1 where step: "?f time (l, s) = (out, l1, s1)" by (rule prod_cases3)
    have e: "trigger_effect (rig, time_value playhead) (l, s) (if out = Enqueued then 1 else 0, l1, s1)"
    proof (cases "usable_time time")
      case True
      from trigger_time_effect [OF Cons.prems(1) quiet playhead_slot [OF playhead False True] step] show ?thesis .
    next
      case False
      then show ?thesis using step unusable_time_skips [OF False, of rig priority generation factory "(l, s)"] Cons.prems(1)
        by (simp add: trigger_effect_refl)
    qed
    then have inv: "sched_inv s1" by (simp add: trigger_effect_def)
    show ?thesis
    proof (cases out)
      case Enqueued
      with Cons.prems(2) step False have "enqueue_times ?f playhead (n + 1) codes (l1, s1) = (stop, m, ls')" by simp
      from Cons.IH [OF inv this] trigger_effect_trans [of _ "(l, s)" 1 "(l1, s1)" "m - (n + 1)" ls'] e Enqueued
      show ?thesis by (simp add: Suc_diff_Suc Suc_le_eq)
    next
      case Skipped
      with Cons.prems(2) step False have "enqueue_times ?f playhead n codes (l1, s1) = (stop, m, ls')" by simp
      from Cons.IH [OF inv this] trigger_effect_trans [of _ "(l, s)" 0 "(l1, s1)" "m - n" ls'] e Skipped
      show ?thesis by simp
    next
      case Stop
      with Cons.prems(2) step False show ?thesis using e by auto
    qed
  qed
qed

lemma sweep_effect:
  assumes "quiet_factory factory" "usable_time playhead" "sched_inv s"
    and "enqueue_sweep_times rig playhead generation sweepTimes factory n (l, s) = (m, ls')"
  shows "n \<le> m \<and> trigger_effect (rig, time_value playhead) (l, s) (m - n, ls')"
proof (cases factory)
  case None
  then show ?thesis using assms(3,4) by (auto simp: enqueue_sweep_times_def trigger_effect_refl)
next
  case (Some f)
  then obtain stop where "enqueue_times (\<lambda>time. enqueue_trigger_time rig time Sweep generation factory) playhead n
      sweepTimes (l, s) = (stop, m, ls')"
    using assms(4) by (auto simp: enqueue_sweep_times_def) (metis prod.collapse)
  from trigger_times_effect [OF assms(1,2,3) this] show ?thesis .
qed

lemma start_ledger_simps [simp]: "l_budget (start_ledger budget clock) = budget" "l_invocations (start_ledger budget clock) = 0"
  by (simp_all add: start_ledger_def)

text \<open>A commit trigger only warms: whatever times it is given, the entry of the playhead's own
  frame is untouched, the returned count is exactly the number of jobs that entered the queue,
  and the factory is called at most as often as the budget says.\<close>

theorem commit_trigger_only_warms:
  assumes "pool_reachable anyReset (s, ws)" and "quiet_factory factory"
    and "OnEditCommitted h clock rig playhead generation sweepTimes factory radius budget s = (n, l, s')"
  shows "s_sequence s' = s_sequence s + n \<and> l_invocations l \<le> sb_maxFactoryInvocations budget \<and>
    map_of (s_queuedByRigAndTime s') (rig, time_value playhead) =
      map_of (s_queuedByRigAndTime s) (rig, time_value playhead)"
proof -
  note inv = reachableD(1) [OF assms(1)]
  let ?l = "start_ledger budget clock"
  have final: ?thesis if "trigger_effect (rig, time_value playhead) (?l, s) (n, l, s')"
    using that by (simp add: trigger_effect_def)
  show ?thesis
  proof (cases "usable_time playhead \<and> RigExecBackgroundWarmingEnabled h")
    case False
    then have "n = 0" "s' = s" "l = ?l" using assms(3) by (auto simp: OnEditCommitted_def Let_def split: if_splits)
    then show ?thesis by simp
  next
    case True
    then have play: "usable_time playhead" by blast
    show ?thesis
    proof (cases "0 < radius \<and> factory \<noteq> None")
      case False
      then have "enqueue_sweep_times rig playhead generation sweepTimes factory 0 (?l, s) = (n, l, s')"
        using assms(3) True by (auto simp: OnEditCommitted_def Let_def split: if_splits)
      from sweep_effect [OF assms(2) play inv this] final show ?thesis by simp
    next
      case near: True
      obtain stop m l1 s1 where first: "enqueue_times (\<lambda>time. enqueue_trigger_time rig time Neighbor generation factory)
          playhead 0 (neighbor_times (time_value playhead) radius) (?l, s) = (stop, m, l1, s1)" by (rule prod_cases4)
      from trigger_times_effect [OF assms(2) play inv first]
      have e: "trigger_effect (rig, time_value playhead) (?l, s) (m, l1, s1)" by simp
      show ?thesis
      proof (cases stop)
        case True
        then show ?thesis using assms(3) near \<open>usable_time playhead \<and> _\<close> first e final
          by (simp add: OnEditCommitted_def Let_def)
      next
        case False
        then have "enqueue_sweep_times rig playhead generation sweepTimes factory m (l1, s1) = (n, l, s')"
          using assms(3) near True first by (simp add: OnEditCommitted_def Let_def)
        moreover have "sched_inv s1" using e by (simp add: trigger_effect_def)
        ultimately have "m \<le> n \<and> trigger_effect (rig, time_value playhead) (l1, s1) (n - m, l, s')"
          by (intro sweep_effect [OF assms(2) play]) simp_all
        then show ?thesis using trigger_effect_trans [OF e, of "n - m" "(l, s')"] final by simp
      qed
    qed
  qed
qed

definition demo_factory :: "(nat, nat) job_factory" where
  "demo_factory = (\<lambda>time s. (\<lparr>wf_work = Some 7, wf_skip = SkipNone, wf_detail = []\<rparr>, s))"

definition demo_budget :: sampling_budget where
  "demo_budget = \<lparr>sb_maxFactoryInvocations = 3, sb_maxMs = PosInf, sb_startUs = 0\<rparr>"

theorem commit_trigger_only_warms_witness:
  "\<exists>n l s'. OnEditCommitted fill_host (\<lambda>_. 0) 0 (TimeValue (Fin 3)) 0 [TimeValue (Fin 3), TimeValue (Fin 9)]
      (Some demo_factory) 2 demo_budget demo_two = (n, l, s') \<and> s_sequence s' = 2 + n \<and> l_invocations l \<le> 3"
proof -
  obtain n l s' where run: "OnEditCommitted fill_host (\<lambda>_. 0) 0 (TimeValue (Fin 3)) 0 [TimeValue (Fin 3), TimeValue (Fin 9)]
      (Some demo_factory) 2 demo_budget demo_two = (n, l, s')" by (rule prod_cases3)
  have "quiet_factory (Some demo_factory)" by (simp add: quiet_factory_def demo_factory_def)
  from commit_trigger_only_warms [OF demo_reachable(3) this run] run show ?thesis
    by (simp add: demo_budget_def demo_two_def demo_sweep_def demo_start_def run_scheduler)
qed

section \<open>Playback and the drain\<close>

text \<open>Advancing the playhead sheds exactly the rig's queued sweep jobs at or before it: neighbors,
  later times and other rigs stay queued, and the answer is the number shed.\<close>

theorem playback_sheds_exactly:
  assumes "pool_reachable anyReset (s, ws)" and "NotePlaybackAdvanced rig playhead s = (n, s')"
  shows "(\<forall>k job. (k, job) \<in> set (s_queue s') \<longleftrightarrow> (k, job) \<in> set (s_queue s) \<and>
      \<not> (usable_time playhead \<and> wr_rig (qj_request job) = rig \<and> wr_priority (qj_request job) = Sweep \<and>
         time_value (wr_time (qj_request job)) \<le> time_value playhead)) \<and>
    s_shed s' = s_shed s + n \<and> length (s_queue s) = length (s_queue s') + n"
proof (cases "usable_time playhead")
  case False
  then show ?thesis using assms(2) by (auto simp: NotePlaybackAdvanced_def)
next
  case True
  note inv = reachableD(1) [OF assms(1)]
  note q = sched_invD(1) [OF inv]
  note wf = queue_invD(1) [OF q]
  define retire where "retire = (\<lambda>request :: 'a warm_request. \<not> (wr_rig request \<noteq> rig \<or> wr_priority request \<noteq> Sweep \<or>
                 double_greater (time_value (wr_time request)) (time_value playhead)))"
  have s': "s' = purge_where retire Shed s" and n: "n = length (retired retire s)"
    using assms(2) True by (auto simp: NotePlaybackAdvanced_def Let_def retire_def retired_def)
  have "s_shed s' = s_shed s + n" unfolding s' n purge_where_eq [OF wf] by (simp add: purged_def)
  moreover have "length (s_queue s) = length (s_queue s') + n"
    unfolding s' n by (rule purge_books(4) [OF sched_invD(1-3) [OF inv]])
  moreover have "retire (qj_request job) \<longleftrightarrow> wr_rig (qj_request job) = rig \<and> wr_priority (qj_request job) = Sweep \<and>
         time_value (wr_time (qj_request job)) \<le> time_value playhead" if "(k, job) \<in> set (s_queue s)" for k job
  proof -
    have "usable_time (wr_time (qj_request job))" using queue_invD(5) [OF q] that by (simp add: queue_mem [OF q])
    then have "time_value (wr_time (qj_request job)) \<noteq> NaN" by (cases "wr_time (qj_request job)") auto
    then show ?thesis by (auto simp: retire_def less_double_iff [symmetric] not_less)
  qed
  ultimately show ?thesis unfolding s' purge_queue(1) [OF wf] using True by fastforce
qed

theorem playback_sheds_exactly_witness:
  "\<exists>n s'. NotePlaybackAdvanced 0 (TimeValue (Fin 4)) demo_two = (n, s') \<and> length (s_queue s') + n = 2"
proof -
  obtain n s' where run: "NotePlaybackAdvanced 0 (TimeValue (Fin 4)) demo_two = (n, s')" by fastforce
  from playback_sheds_exactly [OF demo_reachable(3) run] run show ?thesis by (simp add: demo_queue)
qed

lemma finished_frame: "s_queue (FinishJob r ok out s) = s_queue s" "s_stopping (FinishJob r ok out s) = s_stopping s"
  by (simp_all add: finish_eq finished_def)

lemma drain_result:
  assumes quiet: "\<And>w r s. snd (run_work w r s) = s"
  shows "pool_inv anyReset (s, ws) \<Longrightarrow> \<not> s_stopping s \<Longrightarrow>
    \<exists>s'. drain_queue run_work n s = Some (n + length (s_queue s), s') \<and> s_queue s' = [] \<and> pool_inv anyReset (s', ws)"
proof (induction "length (s_queue s)" arbitrary: s n)
  case 0
  then have "PopJob False s = (NoJob, s)" by (simp add: PopJob_def)
  then show ?case using 0 by (subst drain_queue.simps) simp
next
  case (Suc k)
  then obtain key job rest where queue: "s_queue s = (key, job) # rest" by (cases "s_queue s") auto
  let ?s = "taken job s"
  have pop: "PopJob False s = (Popped job, ?s)" using Suc.prems(2) by (simp add: pop_eq queue)
  let ?r = "qj_request job"
  have inv: "sched_inv s" using Suc.prems(1) by (simp add: pool_inv_def)
  then have "CurrentGeneration s (wr_rig ?r) = wr_generation ?r"
    using sched_invD(7) [OF inv, of key job] by (simp add: queue fence_current_def wr_ident_def)
  moreover have "CurrentGeneration ?s = CurrentGeneration s" by (rule generation_cong) (simp add: taken_def)
  ultimately have current: "IsGenerationCurrent ?s (wr_rig ?r) (wr_generation ?r)" by (simp add: IsGenerationCurrent_def)
  obtain answer s1 where work: "run_work (qj_work job) ?r ?s = (answer, s1)" by fastforce
  then have s1: "s1 = ?s" using quiet [of "qj_work job" ?r ?s] by simp
  define out where "out = (case answer of Some out \<Rightarrow> out | None \<Rightarrow> DeclinedInvalid)"
  let ?t = "FinishJob ?r True out ?s"
  have exec: "ExecutePoppedJob run_work job ?s = (True, ?t)"
    using current work s1 by (simp add: ExecutePoppedJob_def Let_def out_def)
  have "pool_inv anyReset (?s, Fetched ?r # ws)"
    using pool_step_inv [OF pool_fetch [OF pop] Suc.prems(1)] .
  then have inv': "pool_inv anyReset (?t, ws)"
    using finish_inv [of ?s anyReset "[]" "Fetched ?r" ws] by (simp add: pool_inv_def)
  have "length (s_queue ?t) = k" "\<not> s_stopping ?t"
    using Suc.hyps(2) Suc.prems(2) by (simp_all add: finished_frame queue) (simp_all add: taken_def queue)
  from Suc.hyps(1) [OF this(1) [symmetric] inv' this(2), of "Suc n"] this(1) Suc.hyps(2)
  show ?case unfolding Suc.hyps(2) [symmetric] by (subst drain_queue.simps) (simp add: pop exec)
qed

text \<open>C37. Draining ends: with work that does not itself change the scheduler, the drain returns
  after running every job that was queued (none is stale) and leaves the queue empty and the
  books balanced.\<close>

theorem drain_terminates:
  assumes "pool_reachable anyReset (s, ws)" "\<not> s_stopping s" "\<And>w r s. snd (run_work w r s) = s"
  shows "\<exists>s'. DrainQueueForTesting run_work s = Some (length (s_queue s), s') \<and> s_queue s' = [] \<and> balanced s'"
proof -
  have "\<exists>s'. drain_queue run_work 0 s = Some (0 + length (s_queue s), s') \<and> s_queue s' = [] \<and> pool_inv anyReset (s', ws)"
    by (rule drain_result [OF _ reachable_inv [OF assms(1)] assms(2)]) (rule assms(3))
  then show ?thesis
    unfolding DrainQueueForTesting_def pool_inv_def using sched_invD(2) by fastforce
qed

theorem drain_terminates_witness:
  "\<exists>s'. DrainQueueForTesting (\<lambda>w r s. (Some Published, s)) demo_two = Some (2, s') \<and> s_queue s' = []"
proof -
  have "\<not> s_stopping demo_two" by (simp add: demo_two_def demo_sweep_def demo_start_def run_scheduler)
  from drain_terminates [OF demo_reachable(3) this, of "\<lambda>w r s. (Some Published, s)"]
  show ?thesis by (auto simp: demo_queue)
qed

section \<open>Tokens across a reset\<close>

text \<open>C39. Resetting a rig revives retired work: a running job whose frame a scoped edit has just
  retired fails the publish fence, but once the rig is reset, its tokens are forgotten and the
  same job passes the fence again.\<close>

theorem reset_revives_retired_job:
  "\<exists>(s :: (nat, nat) scheduler) r. pool_reachable True (s, [Working r]) \<and>
     \<not> IsWarmRequestCurrent s (wr_rig r) (wr_generation r) (wr_time r) (wr_fenceToken r) \<and>
     IsWarmRequestCurrent (ResetRig (wr_rig r) s) (wr_rig r) (wr_generation r) (wr_time r) (wr_fenceToken r)"
proof -
  let ?r = "\<lparr>wr_rig = 0::nat, wr_time = TimeValue (Fin 5), wr_priority = Sweep, wr_generation = 0, wr_fenceToken = 0\<rparr>"
  define s1 where "s1 = snd (PopJob False demo_sweep)"
  define s2 where "s2 = snd (CancelGenerationTimes 0 [TimeValue (Fin 5)] s1)"
  have s1: "s1 = demo_start\<lparr>s_sequence := 1, s_inFlight := [(0, 1)], s_running := 1,
      s_runningByRigAndTime := [((0, Fin 5), 1)]\<rparr>"
    by (simp add: s1_def demo_sweep_def demo_start_def PopJob_def run_scheduler)
  have pop: "PopJob False demo_sweep = (Popped \<lparr>qj_request = ?r, qj_work = 50\<rparr>, s1)"
    by (simp add: s1_def demo_sweep_def demo_start_def PopJob_def run_scheduler)
  have s2: "s2 = s1\<lparr>s_fenceCounters := [(0, 1)], s_fenceTokens := [((0, Fin 5), 1)]\<rparr>"
    by (simp add: s2_def s1 demo_start_def CancelGenerationTimes_def affected_times_def vec_unique_def assign_token_def
        purge_where_def run_scheduler)
  from reach_step [OF demo_reachable(2) pool_fetch [OF pop]] have "pool_reachable True (s1, [Fetched ?r])" by simp
  then have "pool_reachable True (s1, [Working ?r])"
    using reach_step [OF _ pool_check [of True s1 "[]" ?r "[]"]]
    by (simp add: IsGenerationCurrent_def CurrentGeneration_def s1 demo_start_def new_scheduler_def)
  then have "pool_reachable True (s2, [Working ?r])"
    unfolding s2_def by (rule reach_step [OF _ pool_method [OF step_cancel_times]])
  moreover have "\<not> IsWarmRequestCurrent s2 0 0 (TimeValue (Fin 5)) 0"
    by (simp add: s2 s1 demo_start_def IsWarmRequestCurrent_def run_scheduler)
  moreover have "IsWarmRequestCurrent (ResetRig 0 s2) 0 0 (TimeValue (Fin 5)) 0"
    by (simp add: s2 s1 demo_start_def IsWarmRequestCurrent_def ResetRig_def purge_where_def run_scheduler)
  ultimately show ?thesis by (intro exI [where x = s2] exI [where x = ?r]) simp
qed

end
