(* ===== verification/Task_List.thy ===== *)
theory Task_List
  imports Affected_Index
begin

text \<open>
  The task-list cache (\<open>taskListCache.cpp\<close>): the closed affected set of one control in one
  epoch, memoized in a map ordered by the pair, with the counters of its operations. Every
  operation runs under the cache's mutex and is one step. \<open>want\<close> tells whether the caller
  passed a place for the answer.
\<close>

section \<open>State and operations\<close>

type_synonym task_key = "64 word \<times> control_id"

record task_list_cache =
  tl_map :: "(task_key, cluster_set) omap"
  tl_hits :: nat
  tl_misses :: nat
  tl_stores :: nat

record task_list_stats =
  ts_hits :: nat
  ts_misses :: nat
  ts_stores :: nat
  ts_entries :: nat

definition new_task_list :: task_list_cache where
  "new_task_list = \<lparr> tl_map = [], tl_hits = 0, tl_misses = 0, tl_stores = 0 \<rparr>"

definition Lookup_task :: "64 word \<Rightarrow> control_id \<Rightarrow> bool \<Rightarrow> task_list_cache \<Rightarrow> cluster_set option \<times> task_list_cache" where
  "Lookup_task epoch control want c =
     (if \<not> want then (None, c\<lparr>tl_misses := tl_misses c + 1\<rparr>)
      else case map_of (tl_map c) (epoch, control) of
          None \<Rightarrow> (None, c\<lparr>tl_misses := tl_misses c + 1\<rparr>)
        | Some s \<Rightarrow> (Some s, c\<lparr>tl_hits := tl_hits c + 1\<rparr>))"

definition Store_task :: "64 word \<Rightarrow> control_id \<Rightarrow> cluster_set \<Rightarrow> task_list_cache \<Rightarrow> task_list_cache" where
  "Store_task epoch control s c =
     c\<lparr>tl_map := omap_put (epoch, control) s (tl_map c), tl_stores := tl_stores c + 1\<rparr>"

text \<open>The loop over the map: an entry of the epoch is erased and counted, any other passed over.\<close>

fun drop_epoch :: "64 word \<Rightarrow> (task_key, cluster_set) omap \<Rightarrow> nat \<times> (task_key, cluster_set) omap" where
  "drop_epoch epoch [] = (0, [])"
| "drop_epoch epoch (e # m) =
     (let (dropped, kept) = drop_epoch epoch m
      in if fst (fst e) = epoch then (dropped + 1, kept) else (dropped, e # kept))"

definition InvalidateEpoch_tasks :: "64 word \<Rightarrow> task_list_cache \<Rightarrow> nat \<times> task_list_cache" where
  "InvalidateEpoch_tasks epoch c = (let (dropped, kept) = drop_epoch epoch (tl_map c) in (dropped, c\<lparr>tl_map := kept\<rparr>))"

definition Clear_tasks :: "task_list_cache \<Rightarrow> task_list_cache" where
  "Clear_tasks c = c\<lparr>tl_map := [], tl_hits := 0, tl_misses := 0, tl_stores := 0\<rparr>"

definition Stats_tasks :: "task_list_cache \<Rightarrow> task_list_stats" where
  "Stats_tasks c = \<lparr> ts_hits = tl_hits c, ts_misses = tl_misses c, ts_stores = tl_stores c, ts_entries = length (tl_map c) \<rparr>"

definition Size_tasks :: "task_list_cache \<Rightarrow> nat" where
  "Size_tasks c = length (tl_map c)"

section \<open>The memo as a partial map\<close>

definition memo_of :: "task_list_cache \<Rightarrow> task_key \<rightharpoonup> cluster_set" where
  "memo_of c = map_of (tl_map c)"

definition task_list_inv :: "task_list_cache \<Rightarrow> bool" where
  "task_list_inv c \<longleftrightarrow> omap_wf (tl_map c)"

lemma drop_epoch_spec:
  "drop_epoch epoch m = (length (filter (\<lambda>e. fst (fst e) = epoch) m), filter (\<lambda>e. fst (fst e) \<noteq> epoch) m)"
  by (induction m) simp_all

lemma task_list_inv_steps:
  "task_list_inv new_task_list"
  "task_list_inv c \<Longrightarrow> task_list_inv (snd (Lookup_task epoch control want c))"
  "task_list_inv c \<Longrightarrow> task_list_inv (Store_task epoch control s c)"
  "task_list_inv c \<Longrightarrow> task_list_inv (snd (InvalidateEpoch_tasks epoch c))"
  "task_list_inv (Clear_tasks c)"
  by (simp_all add: task_list_inv_def new_task_list_def Lookup_task_def Store_task_def InvalidateEpoch_tasks_def
      Clear_tasks_def drop_epoch_spec split: option.split)

lemma memo_of_steps:
  "memo_of (snd (Lookup_task epoch control want c)) = memo_of c"
  "memo_of (Store_task epoch control s c) = (memo_of c)((epoch, control) \<mapsto> s)"
  "memo_of (snd (InvalidateEpoch_tasks epoch c)) = memo_of c |` {k. fst k \<noteq> epoch}"
  "memo_of (Clear_tasks c) = Map.empty"
proof -
  show "memo_of (snd (InvalidateEpoch_tasks epoch c)) = memo_of c |` {k. fst k \<noteq> epoch}"
  proof
    fix k
    have "map_of (filter (\<lambda>e. fst (fst e) \<noteq> epoch) m) k = (map_of m |` {k. fst k \<noteq> epoch}) k"
      for m :: "(task_key, cluster_set) omap"
      by (induction m) (auto simp: restrict_map_def)
    then show "memo_of (snd (InvalidateEpoch_tasks epoch c)) k = (memo_of c |` {k. fst k \<noteq> epoch}) k"
      by (simp add: memo_of_def InvalidateEpoch_tasks_def drop_epoch_spec)
  qed
qed (simp_all add: memo_of_def Lookup_task_def Store_task_def Clear_tasks_def split: option.split)

lemma Lookup_task_answer:
  "fst (Lookup_task epoch control want c) = (if want then memo_of c (epoch, control) else None)"
  by (simp add: Lookup_task_def memo_of_def split: option.split)

text \<open>What an invalidation answers: the number of selections held for the epoch.\<close>

lemma InvalidateEpoch_tasks_count:
  assumes "task_list_inv c"
  shows "fst (InvalidateEpoch_tasks epoch c) = card {control. memo_of c (epoch, control) \<noteq> None}"
proof -
  let ?held = "filter (\<lambda>e. fst (fst e) = epoch) (tl_map c)"
  have wf: "omap_wf (tl_map c)" using assms by (simp add: task_list_inv_def)
  have "distinct (map fst ?held)" using omap_wf_distinct [OF wf] by (simp add: distinct_map_filter)
  then have "length ?held = card (fst ` set ?held)" using distinct_card [of "map fst ?held"] by simp
  also have "fst ` set ?held = Pair epoch ` {control. memo_of c (epoch, control) \<noteq> None}"
    using omap_wf_mem_iff [OF wf] by (force simp: memo_of_def image_iff)
  also have "card \<dots> = card {control. memo_of c (epoch, control) \<noteq> None}" by (rule card_image) (simp add: inj_on_def)
  finally show ?thesis by (simp add: InvalidateEpoch_tasks_def drop_epoch_spec)
qed

end
