(* ===== verification/Frame_Control.thy ===== *)
theory Frame_Control
  imports Frame_Digest
begin

text \<open>
  The control-state digest (\<open>frameCache.cpp\<close>): the level-1 digest of a sample, the recorded fold
  order, and the digest over a frame's inputs by the plain route, the recorded order and the
  memo of a burst; the refusal digest; and which inputs can be digested at all.
\<close>

section \<open>One sample\<close>

definition SamplePrefix :: "'p usd_names \<Rightarrow> 'p \<Rightarrow> 64 word" where
  "SamplePrefix u path = FoldString (FoldTag digest_seed ''src'') (nm_path u path)"

text \<open>The fold of the value may keep a state of its own (the type names spelled).\<close>

definition SampleFromPrefix ::
  "(64 word \<Rightarrow> vt_value \<Rightarrow> 's \<Rightarrow> 64 word \<times> 's) \<Rightarrow> 64 word \<Rightarrow> 'p sampled_input \<Rightarrow> 's \<Rightarrow> 64 word \<times> 's" where
  "SampleFromPrefix foldValue hash sample s =
     (let hash1 = FoldBytes hash [if si_hasValue sample then 1 else 0];
          hash2 = FoldBytes hash1 [if si_valueBlocked sample then 1 else 0]
      in if si_hasValue sample then foldValue hash2 (si_value sample) s
         else (FoldString hash2 ''novalue'', s))"

definition SampleDigest :: "'p usd_names \<Rightarrow> 'p sampled_input \<Rightarrow> 64 word" where
  "SampleDigest u sample =
     fst (SampleFromPrefix (\<lambda>hash value s. (FoldVtValue u hash value, s)) (SamplePrefix u (si_path sample)) sample ())"

definition SampleDigestible :: "'p sampled_input \<Rightarrow> bool" where
  "SampleDigestible sample \<longleftrightarrow> \<not> si_hasValue sample \<or> ClassifyVtValue (si_value sample) \<noteq> FoldUnhashable"

definition StaticEntry :: "'p frame_inputs \<Rightarrow> 'p sampled_input \<Rightarrow> nat option" where
  "StaticEntry inputs sample = (case fi_staticSamples inputs of
       None \<Rightarrow> None
     | Some table \<Rightarrow>
         if si_staticSample sample < 0 \<or> length (st_samples table) \<le> nat (si_staticSample sample)
            \<or> length (st_level1 table) \<noteq> length (st_samples table)
            \<or> length (st_digestible table) \<noteq> length (st_samples table)
            \<or> si_path (st_samples table ! nat (si_staticSample sample)) \<noteq> si_path sample
         then None else Some (nat (si_staticSample sample)))"

definition OrderedLevel1 ::
  "'p usd_names \<Rightarrow> 'p frame_inputs \<Rightarrow> 'p sampled_input \<Rightarrow> 64 word \<Rightarrow> type_names \<Rightarrow> 64 word \<times> type_names" where
  "OrderedLevel1 u inputs sample prefix names = (case StaticEntry inputs sample of
       Some entry \<Rightarrow> (st_level1 (the (fi_staticSamples inputs)) ! entry, names)
     | None \<Rightarrow> SampleFromPrefix (FoldVtValueNames u) prefix sample names)"

section \<open>The recorded order\<close>

text \<open>\<open>std::map::emplace\<close> per element, with its index: the first element of a path wins.\<close>

definition first_indices :: "'p::linorder list \<Rightarrow> ('p, nat) omap" where
  "first_indices paths = foldl (\<lambda>m i. omap_emplace (paths ! i) i m) [] [0..<length paths]"

definition RecordFrameDigestOrder :: "'p::linorder usd_names \<Rightarrow> 'p sampled_input list \<Rightarrow> 'p digest_order" where
  "RecordFrameDigestOrder u values =
     (let paths = map si_path values; ordered = first_indices paths
      in \<lparr> do_paths = paths,
           do_order = map (\<lambda>e. of_nat (snd e)) ordered,
           do_prefix = map (\<lambda>e. SamplePrefix u (fst e)) ordered,
           do_pathTextBytes = sum_list (map (\<lambda>p. length (nm_path u p)) paths) \<rparr>)"

definition FrameDigestOrderMatches :: "'p digest_order option \<Rightarrow> 'p sampled_input list \<Rightarrow> bool" where
  "FrameDigestOrderMatches order values = (case order of
       None \<Rightarrow> False
     | Some r \<Rightarrow> length (do_paths r) = length values \<and> length (do_prefix r) = length (do_order r)
         \<and> (\<forall>i < length values. do_paths r ! i = si_path (values ! i)))"

definition FrameDigestOrderPathTextBytes :: "'p digest_order option \<Rightarrow> nat" where
  "FrameDigestOrderPathTextBytes order = (case order of None \<Rightarrow> 0 | Some r \<Rightarrow> do_pathTextBytes r)"

text \<open>\<open>std::lower_bound\<close> on a range its predicate partitions is the rest of the range past the
  elements that satisfy it.\<close>

definition FrameDigestOrderHasPath :: "'p::linorder digest_order option \<Rightarrow> 'p \<Rightarrow> bool" where
  "FrameDigestOrderHasPath order path = (case order of
       None \<Rightarrow> False
     | Some r \<Rightarrow> (case dropWhile (\<lambda>index. do_paths r ! unat index < path) (do_order r) of
           [] \<Rightarrow> False
         | found # _ \<Rightarrow> do_paths r ! unat found = path))"

section \<open>The digest\<close>

text \<open>The loop over the recorded order.\<close>

fun fold_recorded ::
  "'p usd_names \<Rightarrow> 'p frame_inputs \<Rightarrow> (32 word \<times> 64 word) list \<Rightarrow> 64 word \<Rightarrow> type_names \<Rightarrow> 64 word" where
  "fold_recorded u inputs [] hash names = hash"
| "fold_recorded u inputs ((index, prefix) # rest) hash names =
     (let (level1, names1) = OrderedLevel1 u inputs (fi_values inputs ! unat index) prefix names
      in fold_recorded u inputs rest (FoldU64 hash level1) names1)"

text \<open>The map of the plain route, and what follows the samples on every route.\<close>

definition first_samples :: "'p::linorder sampled_input list \<Rightarrow> ('p, 'p sampled_input) omap" where
  "first_samples values = foldl (\<lambda>m s. omap_emplace (si_path s) s m) [] values"

definition fold_rest ::
  "'p::linorder usd_names \<Rightarrow> 64 word \<Rightarrow> 'p frame_inputs \<Rightarrow> 'p value_override list \<Rightarrow> 'p upstream_value list \<Rightarrow> 64 word" where
  "fold_rest u hash0 inputs overrides upstream =
     (let hash = FoldHeadLeafConstants hash0 inputs;
          hash = FoldVaryingTransport u hash inputs;
          hash = FoldStageSeeds hash (fi_stageSeeds inputs);
          hash = FoldUpstream u hash upstream
      in FoldOverrides u hash overrides)"

definition ControlStateDigest ::
  "'p::linorder usd_names \<Rightarrow> 'p frame_inputs \<Rightarrow> 'p value_override list \<Rightarrow> 'p upstream_value list \<Rightarrow> 64 word" where
  "ControlStateDigest u inputs overrides upstream =
     (let hash =
        (if FrameDigestOrderMatches (fi_digestOrder inputs) (fi_values inputs)
         then let recorded = the (fi_digestOrder inputs)
              in fold_recorded u inputs (zip (do_order recorded) (do_prefix recorded))
                   (FoldU64 digest_seed (of_nat (length (do_order recorded)))) []
         else let ordered = first_samples (fi_values inputs)
              in foldl (\<lambda>hash kv. FoldU64 hash (SampleDigest u (snd kv)))
                   (FoldU64 digest_seed (of_nat (length ordered))) ordered)
      in fold_rest u hash inputs overrides upstream)"

text \<open>The overloads that take the inputs' own upstream list, or no overrides.\<close>

definition ControlStateDigestOwn :: "'p::linorder usd_names \<Rightarrow> 'p frame_inputs \<Rightarrow> 'p value_override list \<Rightarrow> 64 word" where
  "ControlStateDigestOwn u inputs overrides = ControlStateDigest u inputs overrides (fi_upstream inputs)"

definition ControlStateDigestPlain :: "'p::linorder usd_names \<Rightarrow> 'p frame_inputs \<Rightarrow> 64 word" where
  "ControlStateDigestPlain u inputs = ControlStateDigestOwn u inputs []"

definition FoldConstantDigest :: "64 word \<Rightarrow> 64 word \<Rightarrow> 64 word" where
  "FoldConstantDigest controlDigest constantDigest =
     FoldU64 (FoldU64 (FoldTag digest_seed ''const'') controlDigest) constantDigest"

definition ControlStateDigestWithConstants ::
  "'p::linorder usd_names \<Rightarrow> 'p frame_inputs \<Rightarrow> 'p value_override list \<Rightarrow> 'p upstream_value list \<Rightarrow> 64 word \<Rightarrow> 64 word" where
  "ControlStateDigestWithConstants u inputs overrides upstream constantDigest =
     FoldConstantDigest (ControlStateDigest u inputs overrides upstream) constantDigest"

section \<open>The burst's memo\<close>

record 'p burst_static_sample =
  bs_sample :: "'p sampled_input"
  bs_digest :: "64 word"
  bs_digestValid :: bool

record 'p burst_cache =
  bc_overrides :: "'p value_override list"
  bc_usable :: bool
  bc_staticStage :: "('p, 'p burst_static_sample) omap"
  bc_staticResolved :: "('p, 'p burst_static_sample) omap"
  bc_sortedOrder :: "nat list"
  bc_orderValuesSize :: nat
  bc_orderFirstPath :: "'p option"
  bc_orderLastPath :: "'p option"

definition record_burst_order :: "'p::linorder frame_inputs \<Rightarrow> 'p burst_cache \<Rightarrow> 'p burst_cache" where
  "record_burst_order inputs cache =
     (let paths = map si_path (fi_values inputs)
      in cache\<lparr>bc_sortedOrder := map snd (first_indices paths),
               bc_orderValuesSize := length paths,
               bc_orderFirstPath := (if paths = [] then bc_orderFirstPath cache else Some (hd paths)),
               bc_orderLastPath := (if paths = [] then bc_orderLastPath cache else Some (last paths))\<rparr>)"

definition foreign_vector :: "'p frame_inputs \<Rightarrow> 'p burst_cache \<Rightarrow> bool" where
  "foreign_vector inputs cache \<longleftrightarrow>
     length (fi_values inputs) \<noteq> bc_orderValuesSize cache
     \<or> Some (si_path (hd (fi_values inputs))) \<noteq> bc_orderFirstPath cache
     \<or> Some (si_path (last (fi_values inputs))) \<noteq> bc_orderLastPath cache"

text \<open>The memo of a sample's route, and the level-1 it serves, computing it at first use.\<close>

definition memo_level1 ::
  "'p::linorder usd_names \<Rightarrow> 'p sampled_input \<Rightarrow> ('p, 'p burst_static_sample) omap
     \<Rightarrow> (64 word \<times> ('p, 'p burst_static_sample) omap) option" where
  "memo_level1 u sample memo = (case map_of memo (si_path sample) of
       None \<Rightarrow> None
     | Some found \<Rightarrow>
         if bs_digestValid found then Some (bs_digest found, memo)
         else Some (SampleDigest u sample, omap_put (si_path sample)
                (found\<lparr>bs_digest := SampleDigest u sample, bs_digestValid := True\<rparr>) memo))"

definition burst_level1 ::
  "'p::linorder usd_names \<Rightarrow> 'p sampled_input \<Rightarrow> 'p burst_cache \<Rightarrow> (64 word \<times> 'p burst_cache) option" where
  "burst_level1 u sample cache =
     (if si_burstSampleRoute sample = burst_route_stage then
        (case memo_level1 u sample (bc_staticStage cache) of None \<Rightarrow> None
         | Some (d, memo) \<Rightarrow> Some (d, cache\<lparr>bc_staticStage := memo\<rparr>))
      else if si_burstSampleRoute sample = burst_route_resolved then
        (case memo_level1 u sample (bc_staticResolved cache) of None \<Rightarrow> None
         | Some (d, memo) \<Rightarrow> Some (d, cache\<lparr>bc_staticResolved := memo\<rparr>))
      else None)"

fun burst_recorded ::
  "'p::linorder usd_names \<Rightarrow> 'p frame_inputs \<Rightarrow> (32 word \<times> 64 word) list \<Rightarrow> 64 word \<Rightarrow> type_names \<Rightarrow> 'p burst_cache
     \<Rightarrow> 64 word \<times> 'p burst_cache" where
  "burst_recorded u inputs [] hash names cache = (hash, cache)"
| "burst_recorded u inputs ((index, prefix) # rest) hash names cache =
     (let sample = fi_values inputs ! unat index
      in case burst_level1 u sample cache of
        Some (level1, cache1) \<Rightarrow> burst_recorded u inputs rest (FoldU64 hash level1) names cache1
      | None \<Rightarrow> (let (level1, names1) = OrderedLevel1 u inputs sample prefix names
                in burst_recorded u inputs rest (FoldU64 hash level1) names1 cache))"

fun burst_sorted ::
  "'p::linorder usd_names \<Rightarrow> 'p frame_inputs \<Rightarrow> nat list \<Rightarrow> 64 word \<Rightarrow> 'p burst_cache \<Rightarrow> 64 word \<times> 'p burst_cache" where
  "burst_sorted u inputs [] hash cache = (hash, cache)"
| "burst_sorted u inputs (i # rest) hash cache =
     (let sample = fi_values inputs ! i
      in case burst_level1 u sample cache of
        Some (level1, cache1) \<Rightarrow> burst_sorted u inputs rest (FoldU64 hash level1) cache1
      | None \<Rightarrow> burst_sorted u inputs rest (FoldU64 hash (SampleDigest u sample)) cache)"

text \<open>The digest and the cache it leaves; \<open>None\<close> is a null cache.\<close>

definition ControlStateDigestWithBurstCache ::
  "'p::linorder usd_names \<Rightarrow> ('p value_override list \<Rightarrow> 'p value_override list \<Rightarrow> bool) \<Rightarrow> 'p frame_inputs
     \<Rightarrow> 'p value_override list \<Rightarrow> 'p upstream_value list \<Rightarrow> 'p burst_cache option \<Rightarrow> 64 word \<times> 'p burst_cache option" where
  "ControlStateDigestWithBurstCache u same_overrides inputs overrides upstream cache = (case cache of
       None \<Rightarrow> (ControlStateDigest u inputs overrides upstream, None)
     | Some c \<Rightarrow>
         if \<not> bc_usable c \<or> \<not> same_overrides overrides (bc_overrides c)
         then (ControlStateDigest u inputs overrides upstream, cache)
         else if bc_sortedOrder c \<noteq> [] \<and> foreign_vector inputs c
         then (ControlStateDigest u inputs overrides upstream, cache)
         else
           let c1 = (if bc_sortedOrder c = [] then record_burst_order inputs c else c);
               (hash, c2) =
                 (if FrameDigestOrderMatches (fi_digestOrder inputs) (fi_values inputs)
                  then let recorded = the (fi_digestOrder inputs)
                       in burst_recorded u inputs (zip (do_order recorded) (do_prefix recorded))
                            (FoldU64 digest_seed (of_nat (length (do_order recorded)))) [] c1
                  else burst_sorted u inputs (bc_sortedOrder c1)
                         (FoldU64 digest_seed (of_nat (length (bc_sortedOrder c1)))) c1)
           in (fold_rest u hash inputs overrides upstream, Some c2))"

section \<open>Frames that cannot be sampled\<close>

text \<open>The time is absent (the default time) or the bits of its value.\<close>

definition RefusalControlDigest ::
  "'p::linorder usd_names \<Rightarrow> double_bits option \<Rightarrow> 64 word \<Rightarrow> 'p value_override list \<Rightarrow> 'p upstream_value list \<Rightarrow> 64 word" where
  "RefusalControlDigest u time stageEditSerial overrides upstream =
     (let hash = FoldU64 (FoldTag digest_seed ''refusal'') stageEditSerial;
          hash = (case time of None \<Rightarrow> FoldString hash ''default''
                  | Some bits \<Rightarrow> FoldDouble (FoldTag hash ''time'') bits);
          hash = FoldUpstream u hash upstream
      in FoldOverrides u hash overrides)"

definition folds :: "vt_value \<Rightarrow> bool" where
  "folds value \<longleftrightarrow> ClassifyVtValue value \<noteq> FoldUnhashable"

definition ControlStateDigestible :: "'p frame_inputs \<Rightarrow> 'p value_override list \<Rightarrow> bool" where
  "ControlStateDigestible inputs overrides \<longleftrightarrow>
     (\<forall>sampled \<in> set (fi_values inputs). \<not> si_hasValue sampled \<or>
        (case StaticEntry inputs sampled of
           Some entry \<Rightarrow> st_digestible (the (fi_staticSamples inputs)) ! entry
         | None \<Rightarrow> folds (si_value sampled)))
     \<and> (case fi_headLeafConstants inputs of None \<Rightarrow> True | Some k \<Rightarrow> hl_digestible k)
     \<and> (\<forall>row \<in> set (fi_varyingLayoutRows inputs). unat row < length (fi_layoutLeaves inputs)
          \<and> list_all folds (fi_layoutLeaves inputs ! unat row))
     \<and> (\<forall>(row, key) \<in> set (fi_varyingRevisionLeaves inputs).
          unat row < length (fi_revisionLeaves inputs)
          \<and> unat key < length (fi_revisionLeaves inputs ! unat row)
          \<and> folds (fi_revisionLeaves inputs ! unat row ! unat key))
     \<and> (\<forall>value \<in> set (fi_upstream inputs). folds (uv_value value))
     \<and> (\<forall>o' \<in> set overrides. folds (vo_value o'))"

definition RefusalControlDigestible :: "'p value_override list \<Rightarrow> 'p upstream_value list \<Rightarrow> bool" where
  "RefusalControlDigestible overrides upstream \<longleftrightarrow>
     (\<forall>o' \<in> set overrides. folds (vo_value o')) \<and> (\<forall>value \<in> set upstream. folds (uv_value value))"

end
