(* ===== verification/Frame_Cache.thy ===== *)
theory Frame_Cache
  imports Usd_Values
begin

text \<open>
  The store of the per-frame pose cache (\<open>frameCache.h\<close>, \<open>frameCache.cpp\<close>): sixteen shards of
  keyed entries, a use clock, the byte accounting, and the operations look up, publish, evict,
  clear and set the cap. Every call is one step on the state. Sizes are 64-bit words with their
  wrap-around; the clock and the counters of single events are naturals. The table of a shard
  is held in key order, where the code's hash table has an order of its own: only the order
  inside one report of evicted entries can show it. The callback is the list of the reports it
  was given. The sizes of the host's types are a parameter.
\<close>

section \<open>Keys\<close>

datatype frame_key = FrameKey (epochDigest: "64 word") (controlDigest: "64 word")

definition frame_key_before :: "frame_key \<Rightarrow> frame_key \<Rightarrow> bool" where
  "frame_key_before a b \<longleftrightarrow>
     (if epochDigest a \<noteq> epochDigest b then epochDigest a < epochDigest b
      else controlDigest a < controlDigest b)"

instantiation frame_key :: linorder
begin

definition less_frame_key :: "frame_key \<Rightarrow> frame_key \<Rightarrow> bool" where
  "less_frame_key a b \<longleftrightarrow> frame_key_before a b"

definition less_eq_frame_key :: "frame_key \<Rightarrow> frame_key \<Rightarrow> bool" where
  "less_eq_frame_key a b \<longleftrightarrow> a = b \<or> a < b"

instance
proof
  fix a b c :: frame_key
  show "a < b \<longleftrightarrow> a \<le> b \<and> \<not> b \<le> a"
    by (auto simp: less_frame_key_def frame_key_before_def less_eq_frame_key_def split: if_splits)
  show "a \<le> a" by (simp add: less_eq_frame_key_def)
  show "a \<le> b \<Longrightarrow> b \<le> c \<Longrightarrow> a \<le> c"
    by (auto simp: less_frame_key_def frame_key_before_def less_eq_frame_key_def split: if_splits)
  show "a \<le> b \<Longrightarrow> b \<le> a \<Longrightarrow> a = b"
    by (auto simp: less_frame_key_def frame_key_before_def less_eq_frame_key_def split: if_splits)
  show "a \<le> b \<or> b \<le> a"
    by (cases a; cases b) (auto simp: less_frame_key_def frame_key_before_def less_eq_frame_key_def)
qed

end

abbreviation fnv_offset :: "64 word" where "fnv_offset \<equiv> 1469598103934665603"
abbreviation fnv_prime :: "64 word" where "fnv_prime \<equiv> 1099511628211"

definition frame_key_hash :: "frame_key \<Rightarrow> 64 word" where
  "frame_key_hash key =
     (let hash1 = xor fnv_offset (epochDigest key) * fnv_prime
      in xor hash1 (controlDigest key) * fnv_prime)"

text \<open>The index of a key's shard: the hash modulo the sixteen shards.\<close>

definition shard_of :: "frame_key \<Rightarrow> 4 word" where
  "shard_of key = ucast (frame_key_hash key mod 16)"

definition shard_ids :: "4 word list" where
  "shard_ids = map word_of_nat [0..<16]"

section \<open>Accounted size of a pose\<close>

text \<open>The sizes of the host's types.\<close>

record type_sizes =
  sz_pose :: "64 word"
  sz_path :: "64 word"
  sz_string :: "64 word"
  sz_token :: "64 word"
  sz_value :: "64 word"
  sz_frame :: "64 word"

definition element_size :: "type_sizes \<Rightarrow> gf_type \<Rightarrow> 64 word option" where
  "element_size z t = (case t of
       T_float \<Rightarrow> Some 4 | T_double \<Rightarrow> Some 8 | T_int \<Rightarrow> Some 4 | T_bool \<Rightarrow> Some 1
     | T_vec2f \<Rightarrow> Some 8 | T_vec3f \<Rightarrow> Some 12 | T_vec3d \<Rightarrow> Some 24 | T_vec4f \<Rightarrow> Some 16
     | T_matrix4d \<Rightarrow> Some 128 | T_token \<Rightarrow> Some (sz_token z) | T_path \<Rightarrow> Some (sz_path z)
     | _ \<Rightarrow> None)"

definition array_element_size :: "type_sizes \<Rightarrow> gf_type \<Rightarrow> 64 word option" where
  "array_element_size z t = (case t of
       T_vec3f \<Rightarrow> Some 12 | T_vec3d \<Rightarrow> Some 24 | T_vec2f \<Rightarrow> Some 8 | T_vec4f \<Rightarrow> Some 16
     | T_float \<Rightarrow> Some 4 | T_double \<Rightarrow> Some 8 | T_int \<Rightarrow> Some 4 | T_bool \<Rightarrow> Some 1
     | T_string \<Rightarrow> Some (sz_string z) | _ \<Rightarrow> None)"

definition VtValueBytes :: "type_sizes \<Rightarrow> vt_value \<Rightarrow> 64 word" where
  "VtValueBytes z value = (case value of None \<Rightarrow> 0
     | Some v \<Rightarrow> (case hv_type v of
         ArrayOf t \<Rightarrow> (case array_element_size z t of
             Some n \<Rightarrow> of_nat (length (hv_elements v)) * n | None \<Rightarrow> sz_value z)
       | Single t \<Rightarrow> (case element_size z t of
             Some n \<Rightarrow> n
           | None \<Rightarrow> (if t = T_string then of_nat (length (concat (hv_elements v))) else sz_value z))))"

definition FrameCachePoseBytes :: "type_sizes \<Rightarrow> 'p rig_pose \<Rightarrow> 64 word" where
  "FrameCachePoseBytes z pose =
     sz_pose z
     + of_nat (length (rp_jointFramesBase pose)) * (sz_path z + sz_frame z)
     + of_nat (length (rp_jointFramesFinal pose)) * (sz_path z + sz_frame z)
     + of_nat (length (rp_jointMatricesFinal pose)) * (sz_path z + 128)
     + of_nat (length (rp_controlFrames pose)) * (sz_path z + sz_frame z)
     + of_nat (length (rp_providerXforms pose)) * (sz_path z + 128)
     + of_nat (length (rp_providerBaseXforms pose)) * (sz_path z + 128)
     + sum_list (map (\<lambda>kv. sz_path z + of_nat (length (snd kv)) * sz_frame z) (rp_solverFrames pose))
     + sum_list (map (\<lambda>kv. sz_path z + VtValueBytes z (snd kv)) (rp_movedProperties pose))
     + sum_list (map (\<lambda>kv. sz_path z + VtValueBytes z (snd kv)) (rp_movedPropertiesCpu pose))
     + sum_list (map (\<lambda>kv. sz_path z + sz_path z + of_nat (length (wfd_weights (snd kv))) * 4)
         (rp_weightFields pose))
     + of_nat (length (rp_weightFrames pose)) * (sz_path z + 128)
     + sum_list (map (\<lambda>d. of_nat (length d)) (rp_diagnostics pose))"

section \<open>The store\<close>

record entry_provenance =
  ep_clusters :: "int list"
  ep_weightReads :: "string list"
  ep_constantRegions :: "64 word list"
  ep_aliasTimes :: "double list"
  ep_unfoldedControlDigest :: "64 word"

definition new_provenance :: entry_provenance where
  "new_provenance = \<lparr> ep_clusters = [], ep_weightReads = [], ep_constantRegions = [],
     ep_aliasTimes = [], ep_unfoldedControlDigest = 0 \<rparr>"

abbreviation provenance_alias_cap :: nat where "provenance_alias_cap \<equiv> 1024"

record ('p, 'h) cache_entry =
  ce_time :: time_code
  ce_pose :: "'p rig_pose option"
  ce_bytes :: "64 word"
  ce_retained :: "'h option"
  ce_provenance :: entry_provenance
  ce_lastUse :: nat

record eviction =
  ev_key :: frame_key
  ev_time :: time_code

text \<open>A shard maps a key to a handle of an entry, which may be null.\<close>

type_synonym ('p, 'h) shard = "(frame_key, ('p, 'h) cache_entry option) omap"

record ('p, 'h) frame_cache =
  fc_shards :: "4 word \<Rightarrow> ('p, 'h) shard"
  fc_clock :: nat
  fc_byteCap :: "64 word"
  fc_hits :: nat
  fc_misses :: nat
  fc_published :: nat
  fc_evictions :: nat
  fc_entryCount :: nat
  fc_bytes :: "64 word"
  fc_callback :: bool
  fc_reported :: "eviction list list"

definition new_frame_cache :: "('p, 'h) frame_cache" where
  "new_frame_cache = \<lparr> fc_shards = (\<lambda>_. []), fc_clock = 1, fc_byteCap = 1280 * 1024 * 1024,
     fc_hits = 0, fc_misses = 0, fc_published = 0, fc_evictions = 0, fc_entryCount = 0,
     fc_bytes = 0, fc_callback = False, fc_reported = [] \<rparr>"

text \<open>The accesses of a sharded table.\<close>

definition shard_look :: "(4 word \<Rightarrow> (frame_key, 'e) omap) \<Rightarrow> frame_key \<Rightarrow> 'e option" where
  "shard_look t key = map_of (t (shard_of key)) key"

definition shard_put :: "frame_key \<Rightarrow> 'e \<Rightarrow> (4 word \<Rightarrow> (frame_key, 'e) omap) \<Rightarrow> 4 word \<Rightarrow> (frame_key, 'e) omap" where
  "shard_put key e t = t (shard_of key := omap_put key e (t (shard_of key)))"

definition shard_erase :: "frame_key \<Rightarrow> (4 word \<Rightarrow> (frame_key, 'e) omap) \<Rightarrow> 4 word \<Rightarrow> (frame_key, 'e) omap" where
  "shard_erase key t = t (shard_of key := omap_erase key (t (shard_of key)))"

text \<open>What the code reads through a handle it does not test; a null one is never read.\<close>

definition null_entry :: "('p, 'h) cache_entry" where
  "null_entry = \<lparr> ce_time = DefaultTime, ce_pose = None, ce_bytes = 0, ce_retained = None,
     ce_provenance = new_provenance, ce_lastUse = 0 \<rparr>"

definition deref :: "('p, 'h) cache_entry option \<Rightarrow> ('p, 'h) cache_entry" where
  "deref e = (case e of Some x \<Rightarrow> x | None \<Rightarrow> null_entry)"

definition stamp :: "time_code \<Rightarrow> double" where
  "stamp time = (case time of DefaultTime \<Rightarrow> Fin 0 | TimeValue v \<Rightarrow> v)"

section \<open>Reporting and reading\<close>

definition SetEvictionCallback :: "bool \<Rightarrow> ('p, 'h) frame_cache \<Rightarrow> ('p, 'h) frame_cache" where
  "SetEvictionCallback callback c = c\<lparr>fc_callback := callback\<rparr>"

definition ReportEvictions :: "eviction list \<Rightarrow> ('p, 'h) frame_cache \<Rightarrow> ('p, 'h) frame_cache" where
  "ReportEvictions evicted c =
     (if evicted = [] then c
      else if fc_callback c then c\<lparr>fc_reported := fc_reported c @ [evicted]\<rparr> else c)"

definition count_miss :: "('p, 'h) frame_cache \<Rightarrow> ('p, 'h) frame_cache" where
  "count_miss c = c\<lparr>fc_misses := fc_misses c + 1\<rparr>"

text \<open>A corrupt entry: a null handle, a null or invalid pose, or no bytes.\<close>

definition corrupt :: "('p, 'h) cache_entry option \<Rightarrow> bool" where
  "corrupt e = (case e of None \<Rightarrow> True
     | Some x \<Rightarrow> (case ce_pose x of None \<Rightarrow> True | Some pose \<Rightarrow> ce_bytes x = 0 \<or> \<not> rp_valid pose))"

text \<open>Removal of an entry from the table and the accounts.\<close>

definition drop_entry :: "frame_key \<Rightarrow> ('p, 'h) cache_entry option \<Rightarrow> ('p, 'h) frame_cache \<Rightarrow> ('p, 'h) frame_cache" where
  "drop_entry key e c = c\<lparr>fc_bytes := fc_bytes c - ce_bytes (deref e),
     fc_entryCount := fc_entryCount c - 1, fc_evictions := fc_evictions c + 1,
     fc_shards := shard_erase key (fc_shards c)\<rparr>"

definition eviction_of :: "frame_key \<Rightarrow> ('p, 'h) cache_entry option \<Rightarrow> eviction" where
  "eviction_of key e = \<lparr>ev_key = key, ev_time = ce_time (deref e)\<rparr>"

text \<open>\<open>Lookup\<close>: the answer is the pose, the retained handle and the accounted bytes; \<open>want\<close> is
  whether the caller passed a pose to fill.\<close>

definition Lookup ::
  "frame_key \<Rightarrow> bool \<Rightarrow> ('p, 'h) frame_cache \<Rightarrow> ('p rig_pose \<times> 'h option \<times> 64 word) option \<times> ('p, 'h) frame_cache" where
  "Lookup key want c =
     (if \<not> want then (None, count_miss c)
      else case shard_look (fc_shards c) key of
        None \<Rightarrow> (None, count_miss c)
      | Some e \<Rightarrow>
          if corrupt e then
            (None, count_miss (ReportEvictions [eviction_of key e] (drop_entry key e c)))
          else
            let entry = deref e;
                c1 = c\<lparr>fc_shards := shard_put key (Some (entry\<lparr>ce_lastUse := fc_clock c\<rparr>)) (fc_shards c),
                       fc_clock := fc_clock c + 1\<rparr>
            in (Some (the (ce_pose entry), ce_retained entry, ce_bytes entry),
                c1\<lparr>fc_hits := fc_hits c1 + 1\<rparr>))"

definition LookupProvenance :: "frame_key \<Rightarrow> bool \<Rightarrow> ('p, 'h) frame_cache \<Rightarrow> entry_provenance option" where
  "LookupProvenance key want c =
     (if \<not> want then None
      else case shard_look (fc_shards c) key of Some (Some entry) \<Rightarrow> Some (ce_provenance entry) | _ \<Rightarrow> None)"

definition add_alias :: "double \<Rightarrow> entry_provenance \<Rightarrow> entry_provenance" where
  "add_alias stamped p =
     (if provenance_alias_cap \<le> length (ep_aliasTimes p) then p
      else if \<exists>listed \<in> set (ep_aliasTimes p). double_eq listed stamped then p
      else p\<lparr>ep_aliasTimes := ep_aliasTimes p @ [stamped]\<rparr>)"

definition NoteProvenanceAlias :: "frame_key \<Rightarrow> time_code \<Rightarrow> ('p, 'h) frame_cache \<Rightarrow> ('p, 'h) frame_cache" where
  "NoteProvenanceAlias key time c =
     (case shard_look (fc_shards c) key of
        Some (Some entry) \<Rightarrow>
          c\<lparr>fc_shards := shard_put key
              (Some (entry\<lparr>ce_provenance := add_alias (stamp time) (ce_provenance entry)\<rparr>)) (fc_shards c)\<rparr>
      | _ \<Rightarrow> c)"

section \<open>Eviction\<close>

text \<open>The scan of a pass: the entry with the least use seen so far.\<close>

definition note_candidate ::
  "(frame_key \<times> nat) option \<Rightarrow> frame_key \<times> ('p, 'h) cache_entry option \<Rightarrow> (frame_key \<times> nat) option" where
  "note_candidate best kv =
     (let use = ce_lastUse (deref (snd kv))
      in case best of None \<Rightarrow> Some (fst kv, use)
         | Some (victim, victimUse) \<Rightarrow> if use < victimUse then Some (fst kv, use) else best)"

definition find_victim :: "('p, 'h) frame_cache \<Rightarrow> (frame_key \<times> nat) option" where
  "find_victim c = foldl (\<lambda>best i. foldl note_candidate best (fc_shards c i)) None shard_ids"

text \<open>The loop of \<open>_EvictUntilUnderCap\<close>; its guard is the first argument.\<close>

fun evict_passes ::
  "nat \<Rightarrow> 64 word \<Rightarrow> eviction list \<Rightarrow> ('p, 'h) frame_cache \<Rightarrow> ('p, 'h) frame_cache" where
  "evict_passes 0 cap evicted c = ReportEvictions evicted c"
| "evict_passes (Suc guard) cap evicted c =
     (if fc_bytes c \<le> cap then ReportEvictions evicted c
      else case find_victim c of
        None \<Rightarrow> ReportEvictions evicted c
      | Some (victim, victimUse) \<Rightarrow>
          (case shard_look (fc_shards c) victim of
             None \<Rightarrow> evict_passes guard cap evicted c
           | Some e \<Rightarrow>
               if ce_lastUse (deref e) \<noteq> victimUse then evict_passes guard cap evicted c
               else evict_passes guard cap (evicted @ [eviction_of victim e]) (drop_entry victim e c)))"

definition EvictUntilUnderCap :: "('p, 'h) frame_cache \<Rightarrow> ('p, 'h) frame_cache" where
  "EvictUntilUnderCap c = evict_passes (fc_entryCount c + 16) (fc_byteCap c) [] c"

definition SetByteCap :: "64 word \<Rightarrow> ('p, 'h) frame_cache \<Rightarrow> ('p, 'h) frame_cache" where
  "SetByteCap bytes c = EvictUntilUnderCap (c\<lparr>fc_byteCap := bytes\<rparr>)"

definition GetByteCap :: "('p, 'h) frame_cache \<Rightarrow> 64 word" where
  "GetByteCap c = fc_byteCap c"

section \<open>Publishing\<close>

definition first_alias :: "double \<Rightarrow> entry_provenance \<Rightarrow> entry_provenance" where
  "first_alias stamped p =
     (case ep_aliasTimes p of
        [] \<Rightarrow> p\<lparr>ep_aliasTimes := [stamped]\<rparr>
      | front # rest \<Rightarrow> if double_eq front stamped then p
                       else p\<lparr>ep_aliasTimes := stamped # ep_aliasTimes p\<rparr>)"

definition link_entry :: "frame_key \<Rightarrow> ('p, 'h) cache_entry \<Rightarrow> ('p, 'h) frame_cache \<Rightarrow> ('p, 'h) frame_cache" where
  "link_entry key entry c =
     (let c1 = (case shard_look (fc_shards c) key of
          Some old \<Rightarrow> c\<lparr>fc_bytes := fc_bytes c - ce_bytes (deref old) + ce_bytes entry,
                         fc_shards := shard_put key (Some entry) (fc_shards c)\<rparr>
        | None \<Rightarrow> c\<lparr>fc_shards := shard_put key (Some entry) (fc_shards c),
                     fc_entryCount := fc_entryCount c + 1, fc_bytes := fc_bytes c + ce_bytes entry\<rparr>)
      in c1\<lparr>fc_published := fc_published c1 + 1\<rparr>)"

definition Publish ::
  "type_sizes \<Rightarrow> frame_key \<Rightarrow> time_code \<Rightarrow> 'p rig_pose \<Rightarrow> 64 word \<Rightarrow> 'h option \<Rightarrow> entry_provenance option
     \<Rightarrow> ('p, 'h) frame_cache \<Rightarrow> bool \<times> ('p, 'h) frame_cache" where
  "Publish z key time pose retainedBytes retained provenance c =
     (if \<not> rp_valid pose then (False, c)
      else if 0 < retainedBytes \<and> retained = None then (False, c)
      else let bytes = FrameCachePoseBytes z pose + retainedBytes
           in if bytes = 0 \<or> fc_byteCap c < bytes then (False, c)
              else let entry = \<lparr> ce_time = time, ce_pose = Some pose, ce_bytes = bytes,
                         ce_retained = retained,
                         ce_provenance = first_alias (stamp time)
                           (case provenance of Some p \<Rightarrow> p | None \<Rightarrow> new_provenance),
                         ce_lastUse = fc_clock c \<rparr>
                   in (True, EvictUntilUnderCap (link_entry key entry (c\<lparr>fc_clock := fc_clock c + 1\<rparr>))))"

section \<open>Dropping entries\<close>

definition Evict :: "frame_key \<Rightarrow> ('p, 'h) frame_cache \<Rightarrow> bool \<times> ('p, 'h) frame_cache" where
  "Evict key c = (case shard_look (fc_shards c) key of
       None \<Rightarrow> (False, c)
     | Some e \<Rightarrow> (True, ReportEvictions [eviction_of key e] (drop_entry key e c)))"

text \<open>The walk over one shard: each entry is kept or dropped.\<close>

definition epoch_step ::
  "64 word \<Rightarrow> eviction list \<times> ('p, 'h) frame_cache \<Rightarrow> frame_key \<times> ('p, 'h) cache_entry option
     \<Rightarrow> eviction list \<times> ('p, 'h) frame_cache" where
  "epoch_step epoch s kv =
     (if epochDigest (fst kv) \<noteq> epoch then s
      else (fst s @ [eviction_of (fst kv) (snd kv)], drop_entry (fst kv) (snd kv) (snd s)))"

definition evict_epoch_shard ::
  "64 word \<Rightarrow> eviction list \<times> ('p, 'h) frame_cache \<Rightarrow> 4 word \<Rightarrow> eviction list \<times> ('p, 'h) frame_cache" where
  "evict_epoch_shard epoch s i = foldl (epoch_step epoch) s (fc_shards (snd s) i)"

definition EvictEpoch :: "64 word \<Rightarrow> ('p, 'h) frame_cache \<Rightarrow> nat \<times> ('p, 'h) frame_cache" where
  "EvictEpoch epoch c =
     (let (evicted, c1) = foldl (evict_epoch_shard epoch) ([], c) shard_ids
      in (length evicted, ReportEvictions evicted c1))"

definition clear_shard ::
  "eviction list \<times> ('p, 'h) frame_cache \<Rightarrow> 4 word \<Rightarrow> eviction list \<times> ('p, 'h) frame_cache" where
  "clear_shard s i =
     (let (evicted, c) = s; kvs = fc_shards c i
      in (evicted @ map (\<lambda>kv. eviction_of (fst kv) (snd kv)) kvs,
          c\<lparr>fc_bytes := fc_bytes c - sum_list (map (\<lambda>kv. ce_bytes (deref (snd kv))) kvs),
            fc_entryCount := fc_entryCount c - length kvs,
            fc_shards := (fc_shards c)(i := [])\<rparr>))"

definition Clear :: "('p, 'h) frame_cache \<Rightarrow> ('p, 'h) frame_cache" where
  "Clear c =
     (let (evicted, c1) = foldl clear_shard ([], c) shard_ids
      in ReportEvictions evicted
           (c1\<lparr>fc_hits := 0, fc_misses := 0, fc_published := 0, fc_evictions := 0\<rparr>))"

record cache_stats =
  cs_hits :: nat
  cs_misses :: nat
  cs_published :: nat
  cs_evictions :: nat
  cs_entryCount :: nat
  cs_bytes :: "64 word"

definition CacheStats :: "('p, 'h) frame_cache \<Rightarrow> cache_stats" where
  "CacheStats c = \<lparr> cs_hits = fc_hits c, cs_misses = fc_misses c, cs_published = fc_published c,
     cs_evictions = fc_evictions c, cs_entryCount = fc_entryCount c, cs_bytes = fc_bytes c \<rparr>"

end
