(* ===== verification/Frame_Reuse.thy ===== *)
theory Frame_Reuse
  imports Task_List Frame_Control Frame_Cache
begin

text \<open>
  Reuse of a retained frame (\<open>frameCacheSparsity.cpp\<close>): which controls differ between a retained
  frame and a request, whether the retained pose may be served for the request, the accounted
  bytes of the retained inputs, and the invalidation of an epoch in both caches. Equality of
  two dynamically typed values as the library defines it is a parameter (\<open>vt_eq\<close>); the source
  comparison of the program (\<open>bakedOpValues.cpp\<close>) is modelled on the stored bytes.
\<close>

section \<open>Retained frames\<close>

text \<open>The frame inputs with what only this file reads: the time, the paths parallel to the layout
  leaves, and the address of the shared table of constants.\<close>

record 'p timed_inputs = "'p frame_inputs" +
  ti_time :: time_code
  ti_layoutSourcePaths :: "'p list list"
  ti_headTable :: nat

record 'p retained_state =
  rs_inputs :: "'p timed_inputs"
  rs_overrides :: "'p value_override list"
  rs_epochDigest :: "64 word"
  rs_constantDigest :: "64 word"
  rs_clusterCount :: nat

definition RigExecCaptureRetainedState ::
  "'p timed_inputs \<Rightarrow> 'p value_override list \<Rightarrow> 64 word \<Rightarrow> nat \<Rightarrow> 64 word \<Rightarrow> 'p retained_state" where
  "RigExecCaptureRetainedState inputs overrides epoch clusterCount constantDigest =
     \<lparr> rs_inputs = inputs, rs_overrides = overrides, rs_epochDigest = epoch,
       rs_constantDigest = constantDigest, rs_clusterCount = clusterCount \<rparr>"

section \<open>The decision to retain\<close>

record sparsity_decision =
  sd_go :: bool
  sd_fullFramesAtCap :: "64 word"

definition RigExecDecideSparsity :: "64 word \<Rightarrow> 64 word \<Rightarrow> 64 word \<Rightarrow> 64 word \<Rightarrow> sparsity_decision" where
  "RigExecDecideSparsity arenaBytes poseBytes byteCap minFrames =
     (let fullBytes = arenaBytes + poseBytes in
      if fullBytes = 0 \<or> byteCap = 0 then \<lparr> sd_go = False, sd_fullFramesAtCap = 0 \<rparr>
      else let full = byteCap div fullBytes
           in \<lparr> sd_go = (minFrames \<le> full \<and> 0 < minFrames), sd_fullFramesAtCap = full \<rparr>)"

definition RigExecStream0SparsityDecision :: sparsity_decision where
  "RigExecStream0SparsityDecision = RigExecDecideSparsity 2767505 430258 (1280 * 1024 * 1024) 16"

definition ArrayBytes :: "type_sizes \<Rightarrow> vt_value \<Rightarrow> 64 word" where
  "ArrayBytes z value = (case value of None \<Rightarrow> sz_value z
     | Some v \<Rightarrow> (case hv_type v of
         ArrayOf t \<Rightarrow>
           (let n = of_nat (length (hv_elements v)) in
            case t of
              T_vec3f \<Rightarrow> n * 12 | T_vec3d \<Rightarrow> n * 24 | T_vec2f \<Rightarrow> n * 8 | T_vec4f \<Rightarrow> n * 16
            | T_float \<Rightarrow> n * 4 | T_double \<Rightarrow> n * 8 | T_int \<Rightarrow> n * 4 | T_bool \<Rightarrow> n
            | T_string \<Rightarrow> sum_list (map (\<lambda>s. of_nat (length s)) (hv_elements v))
            | _ \<Rightarrow> sz_value z)
       | Single t \<Rightarrow> (if t = T_string then of_nat (length (concat (hv_elements v))) else sz_value z)))"

text \<open>\<open>sz_state\<close> is the size of the retained state itself, a flag is one byte.\<close>

definition RigExecRetainedSourcesBytes :: "'p usd_names \<Rightarrow> type_sizes \<Rightarrow> 64 word \<Rightarrow> 'p retained_state \<Rightarrow> 64 word" where
  "RigExecRetainedSourcesBytes u z sz_state state =
     (let inputs = rs_inputs state;
          ordered = FrameDigestOrderMatches (fi_digestOrder inputs) (fi_values inputs);
          text = (\<lambda>path. of_nat (length (nm_path u path)));
          total = sz_state + (if ordered then of_nat (FrameDigestOrderPathTextBytes (fi_digestOrder inputs)) else 0);
          total = foldl (\<lambda>n s. n + (if ordered then 1 else text (si_path s) + 1)
                     + (if si_hasValue s then ArrayBytes z (si_value s) else 0)) total (fi_values inputs);
          total = foldl (\<lambda>n o'. n + text (vo_prim o') + of_nat (length (vo_computation o'))
                     + of_nat (length (vo_attribute o')) + ArrayBytes z (vo_value o')) total (rs_overrides state)
      in foldl (\<lambda>n v. n + text (uv_path v) + ArrayBytes z (uv_value v)) total (fi_upstream inputs))"

section \<open>Same values\<close>

definition exact_types :: "gf_type list" where
  "exact_types = [T_double, T_float, T_int, T_bool, T_token, T_string, T_vec2f, T_vec3f, T_vec3d, T_vec3i, T_matrix4d]"

definition exact_type :: "held_type \<Rightarrow> bool" where
  "exact_type h = (case h of Single t \<Rightarrow> t \<in> set exact_types \<or> t = T_path | ArrayOf t \<Rightarrow> t \<in> set exact_types)"

definition RigExecExactSourceValueEqual :: "vt_value \<Rightarrow> vt_value \<Rightarrow> bool" where
  "RigExecExactSourceValueEqual a b = (case a of
       None \<Rightarrow> b = None
     | Some v \<Rightarrow> (case b of None \<Rightarrow> False
         | Some w \<Rightarrow> exact_type (hv_type v) \<and> hv_type w = hv_type v \<and> hv_elements w = hv_elements v))"

definition RigExecSameSourceValue :: "vt_value \<Rightarrow> bool \<Rightarrow> vt_value \<Rightarrow> bool \<Rightarrow> bool" where
  "RigExecSameSourceValue a aHas b bHas =
     (if aHas \<noteq> bHas then False else if \<not> aHas then True else RigExecExactSourceValueEqual a b)"

definition RigExecSameUpstream :: "'p upstream_value list \<Rightarrow> 'p upstream_value list \<Rightarrow> bool" where
  "RigExecSameUpstream a b \<longleftrightarrow> length a = length b \<and>
     (\<forall>i < length a. uv_path (a ! i) = uv_path (b ! i) \<and> uv_foldHash (a ! i) = uv_foldHash (b ! i) \<and>
        RigExecSameSourceValue (uv_value (a ! i)) True (uv_value (b ! i)) True)"

section \<open>Changed controls\<close>

definition same_sample :: "'p sampled_input \<Rightarrow> 'p sampled_input \<Rightarrow> bool" where
  "same_sample s t \<longleftrightarrow> si_valueBlocked s = si_valueBlocked t \<and>
     RigExecSameSourceValue (si_value s) (si_hasValue s) (si_value t) (si_hasValue t)"

text \<open>The keys of two tables whose entries differ: those of the first table that the second lacks or
  answers differently, then those only the second has.\<close>

definition changed_keys :: "('v \<Rightarrow> 'v \<Rightarrow> bool) \<Rightarrow> ('k, 'v) omap \<Rightarrow> ('k, 'v) omap \<Rightarrow> ('k \<times> 'v) list" where
  "changed_keys same was new =
     filter (\<lambda>(k, v). case map_of new k of None \<Rightarrow> True | Some w \<Rightarrow> \<not> same v w) was @
     filter (\<lambda>(k, v). map_of was k = None) new"

definition changed_samples ::
  "'p::linorder usd_names \<Rightarrow> 'p timed_inputs \<Rightarrow> 'p timed_inputs \<Rightarrow> control_id list" where
  "changed_samples u cached requested =
     map (\<lambda>e. RigExecControlIdForPath u (fst e))
       (changed_keys same_sample (first_samples (fi_values cached)) (first_samples (fi_values requested)))"

definition row_length :: "'x list list \<Rightarrow> nat \<Rightarrow> nat" where
  "row_length table row = (if row < length table then length (table ! row) else 0)"

definition layout_key_changed ::
  "'p usd_names \<Rightarrow> 'p timed_inputs \<Rightarrow> 'p timed_inputs \<Rightarrow> nat \<Rightarrow> nat \<Rightarrow> control_id list" where
  "layout_key_changed u cached requested row key =
     (let oldRows = fi_layoutLeaves cached; newRows = fi_layoutLeaves requested;
          oldPaths = ti_layoutSourcePaths cached; newPaths = ti_layoutSourcePaths requested;
          haveOld = key < row_length oldRows row \<and> key < row_length oldPaths row;
          haveNew = key < row_length newRows row \<and> key < row_length newPaths row;
          same = haveOld \<and> haveNew \<and> oldPaths ! row ! key = newPaths ! row ! key \<and>
            RigExecExactSourceValueEqual (oldRows ! row ! key) (newRows ! row ! key)
      in if same then []
         else (if key < row_length oldPaths row then [RigExecControlIdForPath u (oldPaths ! row ! key)] else []) @
              (if key < row_length newPaths row then [RigExecControlIdForPath u (newPaths ! row ! key)] else []))"

definition changed_layouts :: "'p usd_names \<Rightarrow> 'p timed_inputs \<Rightarrow> 'p timed_inputs \<Rightarrow> control_id list" where
  "changed_layouts u cached requested =
     concat (map (\<lambda>row. concat (map (layout_key_changed u cached requested row)
         [0..<max (max (row_length (fi_layoutLeaves cached) row) (row_length (fi_layoutLeaves requested) row))
                  (max (row_length (ti_layoutSourcePaths cached) row) (row_length (ti_layoutSourcePaths requested) row))]))
       [0..<max (length (fi_layoutLeaves cached)) (length (fi_layoutLeaves requested))])"

definition constants_of :: "'p::linorder timed_inputs \<Rightarrow> ('p, vt_value) omap" where
  "constants_of inputs = (case fi_headLeafConstants inputs of
       None \<Rightarrow> []
     | Some table \<Rightarrow> foldl (\<lambda>m j. if hl_varying table ! j then m else omap_emplace (hl_keys table ! j) (hl_values table ! j) m)
         [] [0..<length (hl_keys table)])"

definition changed_constants :: "'p::linorder usd_names \<Rightarrow> 'p timed_inputs \<Rightarrow> 'p timed_inputs \<Rightarrow> control_id list" where
  "changed_constants u cached requested =
     (if ti_headTable cached = ti_headTable requested then []
      else map (\<lambda>e. RigExecControlIdForPath u (fst e))
        (changed_keys (\<lambda>a b. RigExecSameSourceValue a (a \<noteq> None) b (b \<noteq> None)) (constants_of cached) (constants_of requested)))"

definition overrides_by_key :: "'p usd_names \<Rightarrow> 'p value_override list \<Rightarrow> (override_key, 'p value_override) omap" where
  "overrides_by_key u overrides = foldl (\<lambda>m o'. omap_put (override_key u o') o' m) [] overrides"

definition changed_overrides ::
  "'p usd_names \<Rightarrow> (vt_value \<Rightarrow> vt_value \<Rightarrow> bool) \<Rightarrow> 'p value_override list \<Rightarrow> 'p value_override list \<Rightarrow> control_id list" where
  "changed_overrides u vt_eq cached requested =
     map (\<lambda>e. RigExecControlIdForOverride u (snd e))
       (changed_keys (\<lambda>old new. vt_eq (vo_value new) (vo_value old)) (overrides_by_key u cached) (overrides_by_key u requested))"

definition RigExecChangedControls ::
  "'p::linorder usd_names \<Rightarrow> (vt_value \<Rightarrow> vt_value \<Rightarrow> bool) \<Rightarrow> 'p retained_state \<Rightarrow> 'p timed_inputs \<Rightarrow>
     'p value_override list \<Rightarrow> control_id list" where
  "RigExecChangedControls u vt_eq cached requested overrides =
     vec_unique (changed_samples u (rs_inputs cached) requested @ changed_layouts u (rs_inputs cached) requested @
       changed_constants u (rs_inputs cached) requested @ changed_overrides u vt_eq (rs_overrides cached) overrides)"

section \<open>Reuse\<close>

definition revision_leaf :: "'p timed_inputs \<Rightarrow> 32 word \<times> 32 word \<Rightarrow> vt_value option" where
  "revision_leaf inputs = (\<lambda>(row, key).
     if unat row < length (fi_revisionLeaves inputs) \<and> unat key < length (fi_revisionLeaves inputs ! unat row)
     then Some (fi_revisionLeaves inputs ! unat row ! unat key) else None)"

definition SameVaryingRevisionLeaves :: "'p timed_inputs \<Rightarrow> 'p timed_inputs \<Rightarrow> bool" where
  "SameVaryingRevisionLeaves a b \<longleftrightarrow> fi_varyingRevisionLeaves a = fi_varyingRevisionLeaves b \<and>
     (\<forall>leaf \<in> set (fi_varyingRevisionLeaves a).
        case revision_leaf a leaf of None \<Rightarrow> False
        | Some was \<Rightarrow> (case revision_leaf b leaf of None \<Rightarrow> False
            | Some new \<Rightarrow> RigExecSameSourceValue was (was \<noteq> None) new (new \<noteq> None)))"

definition complete_layouts :: "'p path_ops \<Rightarrow> 'p timed_inputs \<Rightarrow> bool" where
  "complete_layouts po inputs \<longleftrightarrow> length (fi_layoutLeaves inputs) = length (ti_layoutSourcePaths inputs) \<and>
     (\<forall>row < length (fi_layoutLeaves inputs).
        length (fi_layoutLeaves inputs ! row) = length (ti_layoutSourcePaths inputs ! row) \<and>
        (\<forall>path \<in> set (ti_layoutSourcePaths inputs ! row). \<not> po_isEmpty po path))"

definition dirty_clusters ::
  "bool \<Rightarrow> bool \<Rightarrow> control_id list \<Rightarrow> affected_index \<Rightarrow> cluster_set \<times> affected_index" where
  "dirty_clusters moved overridden controls idx =
     (let (dirty0, idx') = AffectedByControls controls idx;
          dirty1 = (if moved then snd (Union_set (snd (Union_set dirty0 (ai_always idx'))) (ai_varying idx')) else dirty0)
      in (if overridden then snd (Union_set dirty1 (ai_override idx')) else dirty1, idx'))"

definition RigExecCanReuseRetainedPose ::
  "'p::linorder usd_names \<Rightarrow> 'p path_ops \<Rightarrow> (vt_value \<Rightarrow> vt_value \<Rightarrow> bool) \<Rightarrow> affected_index \<Rightarrow> 'p retained_state \<Rightarrow>
     64 word \<Rightarrow> 'p timed_inputs \<Rightarrow> 'p value_override list \<Rightarrow> bool \<times> affected_index" where
  "RigExecCanReuseRetainedPose u po vt_eq idx cached epoch requested overrides =
     (if Empty_index idx \<or> ai_epochDigest idx \<noteq> epoch \<or> rs_epochDigest cached \<noteq> epoch \<or>
         rs_clusterCount cached \<noteq> ai_clusterCount idx \<or>
         \<not> RigExecSameUpstream (fi_upstream (rs_inputs cached)) (fi_upstream requested) \<or>
         \<not> SameVaryingRevisionLeaves (rs_inputs cached) requested
      then (False, idx)
      else if \<not> complete_layouts po (rs_inputs cached) \<or> \<not> complete_layouts po requested then (False, idx)
      else let (dirty, idx') = dirty_clusters (\<not> time_eq (ti_time requested) (ti_time (rs_inputs cached)))
                 (overrides \<noteq> []) (RigExecChangedControls u vt_eq cached requested overrides) idx
           in (\<not> Any dirty, idx'))"

section \<open>Provenance of a full evaluation\<close>

definition RigExecConstantRegionForBinding :: "nat \<Rightarrow> 64 word" where
  "RigExecConstantRegionForBinding binding = of_nat (binding div 64)"

text \<open>\<open>weightObjects\<close> are the paths of the weight objects the program reaches.\<close>

definition RigExecFullEvalProvenance ::
  "'p usd_names \<Rightarrow> 'p path_ops \<Rightarrow> 'p list \<Rightarrow> 'p baked_program \<Rightarrow> time_code \<Rightarrow> entry_provenance" where
  "RigExecFullEvalProvenance u po weightObjects B time =
     \<lparr> ep_clusters = map int [0..<cluster_count B],
       ep_weightReads = vec_unique (map (nm_path u) (filter (\<lambda>p. \<not> po_isEmpty po p) weightObjects)),
       ep_constantRegions = foldl (\<lambda>regions b. let region = RigExecConstantRegionForBinding b in
           if regions = [] \<or> last regions \<noteq> region then regions @ [region] else regions)
         [] [0..<length (pg_avarConstantBindings B)],
       ep_aliasTimes = [stamp time], ep_unfoldedControlDigest = 0 \<rparr>"

section \<open>Candidates\<close>

text \<open>The index from an epoch and a time to the key published for them, an ordered map; the times are
  of any ordered type \<open>'t\<close>.\<close>

type_synonym 't candidate_index = "(64 word \<times> 't, frame_key) omap"

definition NotePublished :: "64 word \<Rightarrow> 't::linorder \<Rightarrow> frame_key \<Rightarrow> 't candidate_index \<Rightarrow> 't candidate_index" where
  "NotePublished epoch time key m = omap_put (epoch, time) key m"

definition Find_candidate :: "64 word \<Rightarrow> 't::linorder \<Rightarrow> bool \<Rightarrow> 't candidate_index \<Rightarrow> frame_key option" where
  "Find_candidate epoch time want m = (if want then map_of m (epoch, time) else None)"

definition Drop_candidate :: "64 word \<Rightarrow> 't::linorder \<Rightarrow> 't candidate_index \<Rightarrow> bool \<times> 't candidate_index" where
  "Drop_candidate epoch time m = (map_of m (epoch, time) \<noteq> None, omap_erase (epoch, time) m)"

definition Clear_candidates :: "'t candidate_index \<Rightarrow> 't candidate_index" where
  "Clear_candidates m = []"

definition Size_candidates :: "'t candidate_index \<Rightarrow> nat" where
  "Size_candidates m = length m"

section \<open>Invalidation\<close>

definition RigExecInvalidateEpoch ::
  "64 word \<Rightarrow> ('p, 'h) frame_cache \<Rightarrow> task_list_cache \<Rightarrow> nat \<times> ('p, 'h) frame_cache \<times> task_list_cache" where
  "RigExecInvalidateEpoch epoch cache memo =
     (let memo' = snd (InvalidateEpoch_tasks epoch memo); (dropped, cache') = EvictEpoch epoch cache
      in (dropped, cache', memo'))"

text \<open>\<open>invalidated\<close> is the answer of the program's \<open>IsInvalidatedBy\<close> to the notice.\<close>

definition RigExecNoteCaptureIndex ::
  "bool \<Rightarrow> 64 word \<Rightarrow> ('p, 'h) frame_cache \<Rightarrow> task_list_cache \<Rightarrow> bool \<times> ('p, 'h) frame_cache \<times> task_list_cache" where
  "RigExecNoteCaptureIndex invalidated epoch cache memo =
     (if \<not> invalidated then (False, cache, memo) else (True, snd (RigExecInvalidateEpoch epoch cache memo)))"

end
