(* ===== verification/Frame_Mix.thy ===== *)
theory Frame_Mix
  imports Frame_Control
begin

text \<open>
  The folds as functions of the running hash: mixing a word is a bijection in the hash and in
  the word, so every fold is injective in the hash it starts from. A digest that differs at one
  point of the stream and agrees afterwards therefore differs at the end.
\<close>

named_theorems digest_inj \<open>folds injective in the running hash\<close>

section \<open>The mixing function\<close>

lemma xorshift_inj: "0 < s \<Longrightarrow> inj (\<lambda>x :: 'a::len word. xor x (drop_bit s x))"
proof (rule injI)
  fix x y :: "'a word"
  assume s: "0 < s" and eq: "xor x (drop_bit s x) = xor y (drop_bit s y)"
  have step: "(bit x n \<noteq> bit x (s + n)) = (bit y n \<noteq> bit y (s + n))" for n
    using arg_cong [OF eq, of "\<lambda>w. bit w n"] by (simp add: bit_xor_iff bit_drop_bit_eq)
  have "bit x n = bit y n" for n
  proof (induction "LENGTH('a) - n" arbitrary: n rule: less_induct)
    case less
    show ?case
    proof (cases "n < LENGTH('a)")
      case True
      then have "bit x (s + n) = bit y (s + n)" using less [of "s + n"] s by simp
      with step [of n] show ?thesis by blast
    next
      case False
      then show ?thesis by (simp add: bit_eq_iff not_less bit_word.rep_eq)
    qed
  qed
  then show "x = y" by (rule bit_word_eqI)
qed

lemma odd_mult_inj:
  fixes c d :: "64 word"
  assumes "c * d = 1"
  shows "inj (\<lambda>x. x * c)"
proof (rule injI)
  fix x y :: "64 word"
  assume "x * c = y * c"
  then have "x * (c * d) = y * (c * d)" by (simp flip: mult.assoc)
  then show "x = y" by (simp add: assms)
qed

lemma finalize_word_inj: "inj finalize_word"
proof -
  have a: "inj (\<lambda>w :: 64 word. w + 0x9E3779B97F4A7C15)" by (simp add: inj_def)
  have m1: "inj (\<lambda>w :: 64 word. w * 0xBF58476D1CE4E5B9)"
    by (rule odd_mult_inj [where d = "0x96de1b173f119089"]) simp
  have m2: "inj (\<lambda>w :: 64 word. w * 0x94D049BB133111EB)"
    by (rule odd_mult_inj [where d = "0x319642b2d24d8ec3"]) simp
  have x: "inj (\<lambda>w :: 64 word. xor w (drop_bit 30 w))" "inj (\<lambda>w :: 64 word. xor w (drop_bit 27 w))"
    "inj (\<lambda>w :: 64 word. xor w (drop_bit 31 w))" by (simp_all add: xorshift_inj)
  have "finalize_word = (\<lambda>w. xor w (drop_bit 31 w)) \<circ> ((\<lambda>w. w * 0x94D049BB133111EB)
      \<circ> ((\<lambda>w. xor w (drop_bit 27 w)) \<circ> ((\<lambda>w. w * 0xBF58476D1CE4E5B9)
      \<circ> ((\<lambda>w. xor w (drop_bit 30 w)) \<circ> (\<lambda>w. w + 0x9E3779B97F4A7C15)))))"
    by (rule ext) (simp add: finalize_word_def Let_def)
  then show ?thesis by (rule ssubst) (intro inj_compose a m1 m2 x)
qed

lemma fnv_mult_inj: "inj (\<lambda>w :: 64 word. w * 1099511628211)"
  by (rule odd_mult_inj [where d = "0xce965057aff6957b"]) simp

lemma MixWord_word_inj: "MixWord h a = MixWord h b \<longleftrightarrow> a = b"
proof
  assume "MixWord h a = MixWord h b"
  then have "xor h (finalize_word a) = xor h (finalize_word b)"
    unfolding MixWord_def by (rule injD [OF fnv_mult_inj])
  then have "xor h (xor h (finalize_word a)) = xor h (xor h (finalize_word b))" by simp
  then have "finalize_word a = finalize_word b" by (simp flip: xor.assoc)
  then show "a = b" by (rule injD [OF finalize_word_inj])
qed simp

lemma MixWord_inj [digest_inj]: "inj (\<lambda>h. MixWord h w)"
proof (rule injI)
  fix g h assume "MixWord g w = MixWord h w"
  then have "xor g (finalize_word w) = xor h (finalize_word w)"
    unfolding MixWord_def by (rule injD [OF fnv_mult_inj])
  then have "xor (xor g (finalize_word w)) (finalize_word w) = xor (xor h (finalize_word w)) (finalize_word w)"
    by simp
  then show "g = h" by (simp add: xor.assoc)
qed

section \<open>Folds are injective in the hash\<close>

lemma FoldU64_inj [digest_inj]: "inj (\<lambda>h. FoldU64 h w)"
  unfolding FoldU64_def by (rule MixWord_inj)

lemma FoldU64_word_inj: "FoldU64 h a = FoldU64 h b \<longleftrightarrow> a = b"
  by (simp add: FoldU64_def MixWord_word_inj)

lemma inj_comp: "inj f \<Longrightarrow> inj g \<Longrightarrow> inj (\<lambda>h. f (g h))"
  by (auto simp: inj_def)

lemma FoldBytes_inj [digest_inj]: "inj (\<lambda>h. FoldBytes h bs)"
proof (induction bs rule: length_induct)
  case (1 bs)
  show ?case
  proof (cases "8 \<le> length bs")
    case True
    then have "inj (\<lambda>h. FoldBytes h (drop 8 bs))" using 1 by simp
    then have "inj (\<lambda>h. FoldBytes (MixWord h (le_word (take 8 bs))) (drop 8 bs))"
      by (rule inj_comp) (rule MixWord_inj)
    then show ?thesis using True by (subst FoldBytes.simps) simp
  next
    case False
    then show ?thesis by (subst FoldBytes.simps) (cases "bs = []", simp_all add: MixWord_inj)
  qed
qed

lemma foldl_inj: "(\<And>x. inj (\<lambda>h. f h x)) \<Longrightarrow> inj (\<lambda>h. foldl f h xs)"
proof (induction xs)
  case (Cons x xs)
  have "inj (\<lambda>h. foldl f (f h x) xs)"
    by (rule inj_comp [OF Cons.IH [OF Cons.prems] Cons.prems])
  then show ?case by simp
qed simp

lemma FoldString_inj [digest_inj]: "inj (\<lambda>h. FoldString h s)"
  unfolding FoldString_def by (rule FoldBytes_inj)

lemma FoldTag_inj [digest_inj]: "inj (\<lambda>h. FoldTag h s)"
  unfolding FoldTag_def by (rule FoldBytes_inj)

lemma FoldDouble_inj [digest_inj]: "inj (\<lambda>h. FoldDouble h d)"
  unfolding FoldDouble_def by (rule FoldBytes_inj)

lemma FoldFlag_inj [digest_inj]: "inj (\<lambda>h. FoldFlag h b)"
  unfolding FoldFlag_def by (rule FoldBytes_inj)

lemma FoldCounted_inj [digest_inj]: "(\<And>x. inj (\<lambda>h. f h x)) \<Longrightarrow> inj (\<lambda>h. FoldCounted f h xs)"
  unfolding FoldCounted_def by (rule inj_comp [OF foldl_inj FoldU64_inj])

lemma FoldArray_inj [digest_inj]: "inj (\<lambda>h. FoldArray h xs)"
proof (cases "xs = []")
  case False
  then show ?thesis unfolding FoldArray_def Let_def
    by (simp add: inj_comp [OF FoldBytes_inj FoldU64_inj])
qed (simp add: FoldArray_def FoldU64_inj)

lemma FoldQuat_inj [digest_inj]: "inj (\<lambda>h. FoldQuat n h e)"
  unfolding FoldQuat_def by (rule inj_comp [OF FoldBytes_inj FoldBytes_inj])

lemma FoldHashed_inj [digest_inj]: "inj (\<lambda>h. FoldHashed h v)"
  unfolding FoldHashed_def by (cases "hv_hash v") (simp_all add: digest_inj)

lemma FoldVtValueAfterName_inj [digest_inj]: "inj (\<lambda>h. FoldVtValueAfterName h v)"
proof -
  note [intro] = inj_comp [OF FoldBytes_inj FoldBytes_inj] FoldBytes_inj FoldQuat_inj FoldHashed_inj
    FoldArray_inj inj_comp [OF foldl_inj FoldU64_inj]
  show ?thesis
  proof (cases "hv_type v")
    case (Single t)
    then show ?thesis by (cases "t \<in> set plain_floats"; cases "quat_scalar t"; cases "t = T_rotation")
        (auto simp: FoldVtValueAfterName_def)
  next
    case (ArrayOf t)
    then show ?thesis by (cases "t \<in> set plain_float_arrays"; cases "quat_scalar t")
        (auto simp: FoldVtValueAfterName_def)
  qed
qed

lemma FoldVtValue_inj [digest_inj]: "inj (\<lambda>h. FoldVtValue u h value)"
proof (cases "value")
  case (Some v)
  have "inj (\<lambda>h. FoldVtValueAfterName (FoldTag (FoldString h s) '''') v)" for s
    by (rule inj_comp [OF FoldVtValueAfterName_inj inj_comp [OF FoldTag_inj FoldString_inj]])
  then show ?thesis using Some by (simp add: FoldVtValue_def)
qed (simp add: FoldVtValue_def FoldString_inj)

lemma FoldLeafValue_inj [digest_inj]: "inj (\<lambda>h. FoldLeafValue u h value)"
proof (cases "value")
  case (Some v)
  note [intro] = inj_comp [OF FoldBytes_inj inj_comp [OF FoldU64_inj FoldU64_inj]]
    inj_comp [OF FoldU64_inj FoldU64_inj] inj_comp [OF FoldBytes_inj FoldU64_inj]
    inj_comp [OF FoldArray_inj FoldU64_inj] inj_comp [OF FoldVtValue_inj FoldU64_inj]
  show ?thesis
  proof (cases "leaf_tag (hv_type v)")
    case None
    then show ?thesis using Some by (auto simp: FoldLeafValue_def)
  next
    case t: (Some t)
    show ?thesis
    proof (cases "hv_type v")
      case (Single e)
      then show ?thesis using Some t
        by (cases "e = T_token"; cases "concat (hv_elements v) = []")
          (auto simp: FoldLeafValue_def Let_def simp del: concat_eq_Nil_conv)
    next
      case (ArrayOf e)
      then show ?thesis using Some t by (auto simp: FoldLeafValue_def Let_def)
    qed
  qed
qed (simp add: FoldLeafValue_def FoldU64_inj)

lemma FoldPointFrame_inj [digest_inj]: "inj (\<lambda>h. FoldPointFrame h f)"
  unfolding FoldPointFrame_def by (rule inj_comp [OF FoldBytes_inj foldl_inj]) (rule FoldDouble_inj)

lemma FoldMatrix_inj [digest_inj]: "inj (\<lambda>h. FoldMatrix h m)"
  unfolding FoldMatrix_def by (rule foldl_inj) (rule FoldDouble_inj)

lemma FoldStageSeeds_inj [digest_inj]: "inj (\<lambda>h. FoldStageSeeds h seeds)"
  unfolding FoldStageSeeds_def Let_def
  by (intro inj_comp [OF foldl_inj] inj_comp [OF FoldCounted_inj] FoldTag_inj FoldFlag_inj FoldMatrix_inj FoldPointFrame_inj)

lemma FoldHeadLeafConstants_inj [digest_inj]: "inj (\<lambda>h. FoldHeadLeafConstants h inputs)"
  by (cases "fi_headLeafConstants inputs")
    (simp_all add: FoldHeadLeafConstants_def inj_comp [OF FoldU64_inj FoldBytes_inj])

lemma FoldLayoutRow_inj [digest_inj]: "inj (\<lambda>h. FoldLayoutRow u leaves h row)"
  by (cases "length leaves \<le> unat row")
    (simp_all add: FoldLayoutRow_def Let_def inj_comp [OF FoldU64_inj FoldU64_inj]
      inj_comp [OF FoldCounted_inj FoldU64_inj] FoldLeafValue_inj)

lemma FoldRevisionLeaf_inj [digest_inj]: "inj (\<lambda>h. FoldRevisionLeaf u leaves h rk)"
  by (cases rk; cases "unat (fst rk) < length leaves \<and> unat (snd rk) < length (leaves ! unat (fst rk))")
    (auto simp: FoldRevisionLeaf_def Let_def intro: inj_comp [OF FoldU64_inj FoldU64_inj]
      inj_comp [OF FoldLeafValue_inj FoldU64_inj])

lemma FoldVaryingTransport_inj [digest_inj]: "inj (\<lambda>h. FoldVaryingTransport u h inputs)"
proof (cases "fi_varyingLayoutRows inputs = [] \<and> fi_varyingRevisionLeaves inputs = []")
  case False
  have "inj (\<lambda>h. FoldCounted (FoldRevisionLeaf u r) (FoldCounted (FoldLayoutRow u l) (FoldTag h s) xs) ys)" for r l s xs ys
    by (intro inj_comp [OF FoldCounted_inj] FoldTag_inj FoldLayoutRow_inj FoldRevisionLeaf_inj)
  then show ?thesis unfolding FoldVaryingTransport_def Let_def if_not_P [OF False] .
qed (simp add: FoldVaryingTransport_def)

lemma FoldUpstreamEntry_inj [digest_inj]: "inj (\<lambda>h. FoldUpstreamEntry u h e)"
  unfolding FoldUpstreamEntry_def Let_def
  by (cases "array_valued (uv_value (snd e)) \<and> uv_foldHash (snd e) \<noteq> 0")
    (auto intro!: inj_comp [OF FoldU64_inj] inj_comp [OF FoldVtValue_inj] inj_comp [OF FoldTag_inj]
      inj_comp [OF FoldString_inj] FoldString_inj)

lemma FoldUpstream_inj [digest_inj]: "inj (\<lambda>h. FoldUpstream u h upstream)"
  by (cases "upstream = []")
    (simp_all add: FoldUpstream_def Let_def inj_comp [OF FoldCounted_inj [OF FoldUpstreamEntry_inj] FoldTag_inj])

lemma FoldOverrideEntry_inj [digest_inj]: "inj (\<lambda>h. FoldOverrideEntry u h e)"
proof -
  obtain prim computation attribute where "fst e = (prim, computation, attribute)" by (cases "fst e")
  then show ?thesis unfolding FoldOverrideEntry_def Let_def
    by (auto intro!: inj_comp [OF FoldVtValue_inj] inj_comp [OF FoldTag_inj]
      inj_comp [OF FoldString_inj] FoldTag_inj)
qed

lemma FoldOverrides_inj [digest_inj]: "inj (\<lambda>h. FoldOverrides u h overrides)"
  unfolding FoldOverrides_def Let_def by (rule FoldCounted_inj [OF FoldOverrideEntry_inj])

lemma fold_rest_inj [digest_inj]: "inj (\<lambda>h. fold_rest u h inputs overrides upstream)"
  unfolding fold_rest_def Let_def
  by (intro inj_comp [OF FoldOverrides_inj] inj_comp [OF FoldUpstream_inj] inj_comp [OF FoldStageSeeds_inj]
      inj_comp [OF FoldVaryingTransport_inj] FoldHeadLeafConstants_inj)

end
