(* ===== verification/Frame_Routes.thy ===== *)
theory Frame_Routes
  imports Frame_Mix
begin

text \<open>
  The three routes of the control-state digest against one reference: the first sample of each
  path, in path order. The recorded order and the burst's memo name the same samples in the
  same order as long as what the samplers recorded is true.
\<close>

section \<open>First samples\<close>

definition reference_samples :: "'p::linorder sampled_input list \<Rightarrow> 'p sampled_input list" where
  "reference_samples values =
     map (\<lambda>p. the (find (\<lambda>s. si_path s = p) values)) (vec_unique (map si_path values))"

definition reference_digest :: "'p::linorder usd_names \<Rightarrow> 'p sampled_input list \<Rightarrow> 64 word" where
  "reference_digest u values =
     foldl FoldU64 (FoldU64 digest_seed (of_nat (length (reference_samples values))))
       (map (SampleDigest u) (reference_samples values))"

lemma omap_wf_emplace_fold: "omap_wf m \<Longrightarrow> omap_wf (foldl (\<lambda>m x. omap_emplace (f x) (g x) m) m xs)"
  by (induction xs arbitrary: m) simp_all

lemma map_of_emplace_fold:
  "map_of (foldl (\<lambda>m x. omap_emplace (f x) (g x) m) m xs) k
     = (case map_of m k of Some v \<Rightarrow> Some v | None \<Rightarrow> map_option g (find (\<lambda>x. f x = k) xs))"
  by (induction xs arbitrary: m) (auto split: option.splits)

lemma find_cong_iff: "find P xs = None \<longleftrightarrow> (\<forall>x \<in> set xs. \<not> P x)"
  by (auto simp: find_None_iff)

lemma omap_list:
  assumes "omap_wf m"
  shows "m = map (\<lambda>k. (k, the (map_of m k))) (map fst m)"
proof (rule nth_equalityI)
  fix i assume i: "i < length m"
  then have "map_of m (fst (m ! i)) = Some (snd (m ! i))"
    using assms by (intro map_of_is_SomeI) (simp_all add: omap_wf_def)
  then show "m ! i = map (\<lambda>k. (k, the (map_of m k))) (map fst m) ! i"
    using i by (simp add: prod_eq_iff)
qed simp

lemma first_samples_wf: "omap_wf (first_samples values)"
  unfolding first_samples_def by (rule omap_wf_emplace_fold) simp

lemma first_samples_look: "map_of (first_samples values) k = find (\<lambda>s. si_path s = k) values"
  unfolding first_samples_def by (simp add: map_of_emplace_fold option.map_ident)

lemma first_samples_reference: "map snd (first_samples values) = reference_samples values"
proof -
  let ?m = "first_samples values"
  have wf: "omap_wf ?m" by (rule first_samples_wf)
  have look: "map_of ?m k = find (\<lambda>s. si_path s = k) values" for k by (rule first_samples_look)
  have "set (map fst ?m) = set (map si_path values)"
  proof (rule set_eqI)
    fix k
    have "k \<in> set (map fst ?m) \<longleftrightarrow> map_of ?m k \<noteq> None" by (simp add: map_of_eq_None_iff)
    also have "\<dots> \<longleftrightarrow> k \<in> set (map si_path values)" unfolding look find_cong_iff by auto
    finally show "k \<in> set (map fst ?m) \<longleftrightarrow> k \<in> set (map si_path values)" .
  qed
  then have keys: "map fst ?m = vec_unique (map si_path values)"
    using wf by (intro sorted_distinct_set_unique) (auto simp: omap_wf_def)
  show ?thesis
    using arg_cong [OF omap_list [OF wf], of "map snd"] by (simp add: keys look comp_def reference_samples_def)
qed

lemma length_first_samples: "length (first_samples values) = length (reference_samples values)"
  by (metis first_samples_reference length_map)

text \<open>The indices of the recorded order name the same samples.\<close>

lemma omap_emplace_map:
  "map (\<lambda>(k, v). (k, f v)) (omap_emplace k v m) = omap_emplace k (f v) (map (\<lambda>(k, v). (k, f v)) m)"
proof -
  have look: "map_of (map (\<lambda>(k, v). (k, f v)) m) k = map_option f (map_of m k)" for k
    by (induction m) auto
  have ins: "map (\<lambda>(k, v). (k, f v)) (insort_key fst (k, v) n) = insort_key fst (k, f v) (map (\<lambda>(k, v). (k, f v)) n)" for n
    by (induction n) auto
  have er: "map (\<lambda>(k, v). (k, f v)) (omap_erase k n) = omap_erase k (map (\<lambda>(k, v). (k, f v)) n)" for n
    by (induction n) (auto simp: omap_erase_def)
  show ?thesis by (simp add: omap_emplace_def omap_put_def look ins er)
qed

lemma first_samples_indices:
  "first_samples values = map (\<lambda>(p, i). (p, values ! i)) (first_indices (map si_path values))"
proof -
  have "foldl (\<lambda>m i. omap_emplace (si_path (values ! i)) (values ! i) m) (map (\<lambda>(p, i). (p, values ! i)) m) is
      = map (\<lambda>(p, i). (p, values ! i)) (foldl (\<lambda>m i. omap_emplace (map si_path values ! i) i m) m is)"
    if "set is \<subseteq> {0..<length values}" for "is" m
    using that
  proof (induction "is" arbitrary: m)
    case (Cons i "is")
    have "omap_emplace (si_path (values ! i)) (values ! i) (map (\<lambda>(p, i). (p, values ! i)) m)
        = map (\<lambda>(p, i). (p, values ! i)) (omap_emplace (si_path (values ! i)) i m)"
      by (rule omap_emplace_map [symmetric])
    then show ?case using Cons by simp
  qed simp
  from this [of "[0..<length values]" "[]"] have
    "foldl (\<lambda>m i. omap_emplace (si_path (values ! i)) (values ! i) m) [] [0..<length values]
      = map (\<lambda>(p, i). (p, values ! i)) (first_indices (map si_path values))"
    by (simp add: first_indices_def)
  moreover have "first_samples values = foldl (\<lambda>m i. omap_emplace (si_path (values ! i)) (values ! i) m) [] [0..<length values]"
  proof -
    have "first_samples (map ((!) values) [0..<length values])
        = foldl (\<lambda>m i. omap_emplace (si_path (values ! i)) (values ! i) m) [] [0..<length values]"
      unfolding first_samples_def by (simp only: foldl_map)
    then show ?thesis by (simp add: map_nth)
  qed
  ultimately show ?thesis by simp
qed

lemma first_indices_index:
  assumes "e \<in> set (first_indices paths)"
  shows "snd e < length paths \<and> paths ! snd e = fst e"
proof -
  have wf: "omap_wf (first_indices paths)"
    unfolding first_indices_def by (rule omap_wf_emplace_fold) simp
  have "map_of (first_indices paths) (fst e) = Some (snd e)"
    using omap_wf_mem_iff [OF wf, of "fst e" "snd e"] assms by simp
  then have "find (\<lambda>i. paths ! i = fst e) [0..<length paths] = Some (snd e)"
    unfolding first_indices_def by (simp add: map_of_emplace_fold option.map_ident)
  then show ?thesis by (auto simp: find_Some_iff)
qed

lemma reference_samples_indices:
  "reference_samples values = map (\<lambda>e. values ! snd e) (first_indices (map si_path values))"
  unfolding first_samples_reference [symmetric] first_samples_indices by (simp add: comp_def case_prod_unfold)

section \<open>The recorded order\<close>

definition names_ok :: "'p usd_names \<Rightarrow> type_names \<Rightarrow> bool" where
  "names_ok u names \<longleftrightarrow> (\<forall>t n. map_of names t = Some n \<longrightarrow> n = nm_type u t)"

lemma FoldVtValueNames_ok:
  "names_ok u names \<Longrightarrow> \<exists>names'. FoldVtValueNames u hash value names = (FoldVtValue u hash value, names')
     \<and> names_ok u names'"
  by (cases "value")
    (auto simp: FoldVtValueNames_def FoldVtValue_def TypeNames_Of_def names_ok_def map_add_Some_iff
      split: option.splits if_splits)

text \<open>What the samplers promise: a sample marked as a copy of a static entry has the entry's
  digest, and a recorded order was recorded by \<open>RigExecRecordFrameDigestOrder\<close>.\<close>

definition static_table_true :: "'p usd_names \<Rightarrow> 'p frame_inputs \<Rightarrow> bool" where
  "static_table_true u inputs \<longleftrightarrow> (\<forall>s \<in> set (fi_values inputs). \<forall>e.
     StaticEntry inputs s = Some e \<longrightarrow> st_level1 (the (fi_staticSamples inputs)) ! e = SampleDigest u s)"

definition order_recorded :: "'p::linorder usd_names \<Rightarrow> 'p frame_inputs \<Rightarrow> bool" where
  "order_recorded u inputs \<longleftrightarrow>
     (\<forall>r. fi_digestOrder inputs = Some r \<longrightarrow> (\<exists>vs. r = RecordFrameDigestOrder u vs))
     \<and> length (fi_values inputs) \<le> 2 ^ 32"

lemma OrderedLevel1_ok:
  assumes "names_ok u names" "static_table_true u inputs" "s \<in> set (fi_values inputs)"
  shows "\<exists>names'. OrderedLevel1 u inputs s (SamplePrefix u (si_path s)) names = (SampleDigest u s, names')
           \<and> names_ok u names'"
proof (cases "StaticEntry inputs s")
  case None
  show ?thesis
  proof (cases "si_hasValue s")
    case True
    then show ?thesis using FoldVtValueNames_ok [OF assms(1)] None
      by (simp add: OrderedLevel1_def SampleDigest_def SampleFromPrefix_def Let_def)
  next
    case False
    then show ?thesis using None assms(1)
      by (simp add: OrderedLevel1_def SampleDigest_def SampleFromPrefix_def Let_def)
  qed
next
  case (Some e)
  then show ?thesis using assms by (simp add: OrderedLevel1_def static_table_true_def)
qed

text \<open>The pairs of the loop: an index and the state of its path.\<close>

definition order_pairs :: "'p usd_names \<Rightarrow> 'p sampled_input list \<Rightarrow> nat list \<Rightarrow> (32 word \<times> 64 word) list" where
  "order_pairs u values idx = map (\<lambda>i. (of_nat i, SamplePrefix u (si_path (values ! i)))) idx"

lemma index_back: "i < 2 ^ 32 \<Longrightarrow> unat (of_nat i :: 32 word) = i"
  by (simp add: unsigned_of_nat take_bit_eq_mod)

lemma fold_recorded_samples:
  assumes "names_ok u names" "static_table_true u inputs"
    and "\<forall>i \<in> set idx. i < length (fi_values inputs)" "length (fi_values inputs) \<le> 2 ^ 32"
  shows "fold_recorded u inputs (order_pairs u (fi_values inputs) idx) hash names
           = foldl FoldU64 hash (map (\<lambda>i. SampleDigest u (fi_values inputs ! i)) idx)"
  using assms(1,3)
proof (induction idx arbitrary: hash names)
  case (Cons i idx)
  have i: "fi_values inputs ! i \<in> set (fi_values inputs)" "unat (of_nat i :: 32 word) = i"
    using Cons.prems(2) assms(4) by (simp_all add: index_back)
  obtain names' where "OrderedLevel1 u inputs (fi_values inputs ! i) (SamplePrefix u (si_path (fi_values inputs ! i))) names
      = (SampleDigest u (fi_values inputs ! i), names')" "names_ok u names'"
    using OrderedLevel1_ok [OF Cons.prems(1) assms(2) i(1)] by blast
  then show ?case using Cons i(2) by (simp add: order_pairs_def)
qed (simp add: order_pairs_def)

lemma recorded_pairs:
  assumes "order_recorded u inputs" "FrameDigestOrderMatches (fi_digestOrder inputs) (fi_values inputs)"
  defines "r \<equiv> the (fi_digestOrder inputs)" and "idx \<equiv> map snd (first_indices (map si_path (fi_values inputs)))"
  shows "zip (do_order r) (do_prefix r) = order_pairs u (fi_values inputs) idx" "length (do_order r) = length idx"
proof -
  obtain vs where vs: "fi_digestOrder inputs = Some (RecordFrameDigestOrder u vs)"
    using assms(1,2) by (auto simp: order_recorded_def FrameDigestOrderMatches_def split: option.splits)
  have "map si_path vs = map si_path (fi_values inputs)"
    using assms(2) by (intro nth_equalityI) (auto simp: vs FrameDigestOrderMatches_def RecordFrameDigestOrder_def Let_def)
  then have r: "r = RecordFrameDigestOrder u (fi_values inputs)"
    by (simp add: r_def vs RecordFrameDigestOrder_def Let_def)
  have "si_path (fi_values inputs ! snd e) = fst e" if "e \<in> set (first_indices (map si_path (fi_values inputs)))" for e
    using first_indices_index [OF that] by (auto simp: nth_map)
  then show "zip (do_order r) (do_prefix r) = order_pairs u (fi_values inputs) idx"
    by (simp add: r RecordFrameDigestOrder_def Let_def idx_def order_pairs_def zip_map_map zip_same_conv_map comp_def)
  show "length (do_order r) = length idx" by (simp add: r RecordFrameDigestOrder_def Let_def idx_def)
qed

lemma idx_samples:
  "map (\<lambda>i. SampleDigest u (values ! i)) (map snd (first_indices (map si_path values)))
     = map (SampleDigest u) (reference_samples values)"
  "length (map snd (first_indices (map si_path values))) = length (reference_samples values)"
  by (simp_all add: reference_samples_indices comp_def)

lemma fold_samples:
  "foldl (\<lambda>hash kv. FoldU64 hash (SampleDigest u (snd kv))) h m
     = foldl FoldU64 h (map (SampleDigest u) (map snd m))"
  by (simp add: foldl_map)

lemma control_digest_reference:
  assumes "static_table_true u inputs" "order_recorded u inputs"
  shows "ControlStateDigest u inputs overrides upstream
           = fold_rest u (reference_digest u (fi_values inputs)) inputs overrides upstream"
proof (cases "FrameDigestOrderMatches (fi_digestOrder inputs) (fi_values inputs)")
  case True
  let ?idx = "map snd (first_indices (map si_path (fi_values inputs)))"
  have bound: "\<forall>i \<in> set ?idx. i < length (fi_values inputs)" using first_indices_index by fastforce
  have "names_ok u []" by (simp add: names_ok_def)
  from fold_recorded_samples [OF this assms(1) bound] assms(2) show ?thesis
    unfolding ControlStateDigest_def reference_digest_def Let_def
    by (simp only: True if_True recorded_pairs [OF assms(2) True] order_recorded_def idx_samples)
next
  case False
  show ?thesis unfolding ControlStateDigest_def reference_digest_def Let_def
    by (simp only: False if_False fold_samples length_first_samples first_samples_reference)
qed

section \<open>The burst's memo\<close>

text \<open>A burst serves a sample of a route from the route's map, so the sample digests as the stored
  one; a memoised digest is that of the stored sample.\<close>

definition memo_true :: "'p usd_names \<Rightarrow> int \<Rightarrow> 'p sampled_input list \<Rightarrow> ('p, 'p burst_static_sample) omap \<Rightarrow> bool" where
  "memo_true u route values memo \<longleftrightarrow> (\<forall>s \<in> set values. si_burstSampleRoute s = route \<longrightarrow>
     (\<forall>m. map_of memo (si_path s) = Some m \<longrightarrow> SampleDigest u s = SampleDigest u (bs_sample m)
        \<and> (bs_digestValid m \<longrightarrow> bs_digest m = SampleDigest u (bs_sample m))))"

definition burst_true :: "'p usd_names \<Rightarrow> 'p sampled_input list \<Rightarrow> 'p burst_cache \<Rightarrow> bool" where
  "burst_true u values c \<longleftrightarrow> memo_true u burst_route_stage values (bc_staticStage c)
     \<and> memo_true u burst_route_resolved values (bc_staticResolved c)"

text \<open>The order of a burst describes the vectors that pass its shape check.\<close>

definition burst_order_true :: "'p::linorder frame_inputs \<Rightarrow> 'p burst_cache \<Rightarrow> bool" where
  "burst_order_true inputs c \<longleftrightarrow> bc_sortedOrder c = [] \<or> foreign_vector inputs c
     \<or> bc_sortedOrder c = map snd (first_indices (map si_path (fi_values inputs)))"

lemma memo_level1_true:
  assumes "memo_true u route values memo" "s \<in> set values" "si_burstSampleRoute s = route"
    and "memo_level1 u s memo = Some (d, memo')"
  shows "d = SampleDigest u s \<and> memo_true u route values memo'"
proof -
  obtain m where m: "map_of memo (si_path s) = Some m"
    using assms(4) by (auto simp: memo_level1_def split: option.splits)
  have ok: "SampleDigest u s = SampleDigest u (bs_sample m)"
    "bs_digestValid m \<Longrightarrow> bs_digest m = SampleDigest u (bs_sample m)"
    using assms(1-3) m by (auto simp: memo_true_def)
  show ?thesis
  proof (cases "bs_digestValid m")
    case True
    then show ?thesis using assms(1,4) m ok by (simp add: memo_level1_def)
  next
    case False
    then have "d = SampleDigest u s"
      "memo' = omap_put (si_path s) (m\<lparr>bs_digest := SampleDigest u s, bs_digestValid := True\<rparr>) memo"
      using assms(4) m by (auto simp: memo_level1_def)
    moreover have "memo_true u route values
        (omap_put (si_path s) (m\<lparr>bs_digest := SampleDigest u s, bs_digestValid := True\<rparr>) memo)"
      unfolding memo_true_def
    proof (intro ballI impI allI)
      fix s' m'
      assume s': "s' \<in> set values" "si_burstSampleRoute s' = route"
        "map_of (omap_put (si_path s) (m\<lparr>bs_digest := SampleDigest u s, bs_digestValid := True\<rparr>) memo) (si_path s') = Some m'"
      show "SampleDigest u s' = SampleDigest u (bs_sample m')
          \<and> (bs_digestValid m' \<longrightarrow> bs_digest m' = SampleDigest u (bs_sample m'))"
      proof (cases "si_path s' = si_path s")
        case True
        then have "SampleDigest u s' = SampleDigest u (bs_sample m)"
          using assms(1) s'(1,2) m unfolding memo_true_def by metis
        then show ?thesis using True s'(3) ok(1) by auto
      next
        case False
        then have "map_of memo (si_path s') = Some m'" using s'(3) by simp
        then show ?thesis using assms(1) s'(1,2) unfolding memo_true_def by blast
      qed
    qed
    ultimately show ?thesis by simp
  qed
qed

lemma burst_level1_true:
  assumes "burst_true u values c" "s \<in> set values" "burst_level1 u s c = Some (d, c')"
  shows "d = SampleDigest u s \<and> burst_true u values c'"
proof (cases "si_burstSampleRoute s = burst_route_stage")
  case True
  then obtain memo where m: "memo_level1 u s (bc_staticStage c) = Some (d, memo)" "c' = c\<lparr>bc_staticStage := memo\<rparr>"
    using assms(3) by (auto simp: burst_level1_def split: option.splits)
  show ?thesis using memo_level1_true [OF _ assms(2) True m(1)] assms(1) m(2) by (simp add: burst_true_def)
next
  case False
  then have r: "si_burstSampleRoute s = burst_route_resolved"
    using assms(3) by (auto simp: burst_level1_def split: if_splits)
  with False obtain memo where m: "memo_level1 u s (bc_staticResolved c) = Some (d, memo)" "c' = c\<lparr>bc_staticResolved := memo\<rparr>"
    using assms(3) by (auto simp: burst_level1_def split: option.splits)
  show ?thesis using memo_level1_true [OF _ assms(2) r m(1)] assms(1) m(2) by (simp add: burst_true_def)
qed

lemma burst_sorted_samples:
  assumes "burst_true u (fi_values inputs) c" "\<forall>i \<in> set idx. i < length (fi_values inputs)"
  shows "\<exists>c'. burst_sorted u inputs idx hash c
             = (foldl FoldU64 hash (map (\<lambda>i. SampleDigest u (fi_values inputs ! i)) idx), c')
           \<and> burst_true u (fi_values inputs) c'"
  using assms
proof (induction idx arbitrary: hash c)
  case (Cons i idx)
  have i: "fi_values inputs ! i \<in> set (fi_values inputs)" using Cons.prems(2) by simp
  show ?case
  proof (cases "burst_level1 u (fi_values inputs ! i) c")
    case None
    then show ?thesis using Cons by (simp add: Let_def)
  next
    case (Some dc)
    then obtain d c1 where dc: "burst_level1 u (fi_values inputs ! i) c = Some (d, c1)" by (cases dc) simp
    from burst_level1_true [OF Cons.prems(1) i dc] Cons show ?thesis using dc by (simp add: Let_def)
  qed
qed simp

lemma burst_recorded_samples:
  assumes "burst_true u (fi_values inputs) c" "names_ok u names" "static_table_true u inputs"
    and "\<forall>i \<in> set idx. i < length (fi_values inputs)" "length (fi_values inputs) \<le> 2 ^ 32"
  shows "\<exists>c'. burst_recorded u inputs (order_pairs u (fi_values inputs) idx) hash names c
             = (foldl FoldU64 hash (map (\<lambda>i. SampleDigest u (fi_values inputs ! i)) idx), c')
           \<and> burst_true u (fi_values inputs) c'"
  using assms(1,2,4)
proof (induction idx arbitrary: hash c names)
  case Nil
  then show ?case by (simp add: order_pairs_def)
next
  case (Cons i idx)
  let ?s = "fi_values inputs ! i"
  have i: "?s \<in> set (fi_values inputs)" "unat (of_nat i :: 32 word) = i"
    using Cons.prems(3) assms(5) by (simp_all add: index_back)
  have pairs: "order_pairs u (fi_values inputs) (i # idx)
      = (of_nat i, SamplePrefix u (si_path ?s)) # order_pairs u (fi_values inputs) idx"
    by (simp add: order_pairs_def)
  show ?case
  proof (cases "burst_level1 u ?s c")
    case None
    obtain names' where "OrderedLevel1 u inputs ?s (SamplePrefix u (si_path ?s)) names = (SampleDigest u ?s, names')"
      "names_ok u names'" using OrderedLevel1_ok [OF Cons.prems(2) assms(3) i(1)] by blast
    then show ?thesis using None Cons.IH [OF Cons.prems(1)] Cons.prems(3) unfolding pairs
      by (simp add: i(2) Let_def)
  next
    case (Some dc)
    then obtain d c1 where dc: "burst_level1 u ?s c = Some (d, c1)" by (cases dc) simp
    from burst_level1_true [OF Cons.prems(1) i(1) dc] show ?thesis
      using dc Cons.IH [OF _ Cons.prems(2)] Cons.prems(3) unfolding pairs by (simp add: i(2) Let_def)
  qed
qed

lemma record_burst_order_frame:
  "bc_sortedOrder (record_burst_order inputs c) = map snd (first_indices (map si_path (fi_values inputs)))"
  "burst_true u values (record_burst_order inputs c) = burst_true u values c"
  by (simp_all add: record_burst_order_def Let_def burst_true_def)

lemma burst_digest_reference:
  assumes "static_table_true u inputs" "order_recorded u inputs"
    and "\<forall>c. cache = Some c \<longrightarrow> burst_true u (fi_values inputs) c \<and> burst_order_true inputs c"
  shows "fst (ControlStateDigestWithBurstCache u same inputs overrides upstream cache)
           = ControlStateDigest u inputs overrides upstream
       \<and> (\<forall>c. snd (ControlStateDigestWithBurstCache u same inputs overrides upstream cache) = Some c
              \<longrightarrow> burst_true u (fi_values inputs) c)"
proof (cases cache)
  case None
  then show ?thesis by (simp add: ControlStateDigestWithBurstCache_def)
next
  case (Some c)
  have ok: "burst_true u (fi_values inputs) c" "burst_order_true inputs c" using assms(3) Some by blast+
  show ?thesis
  proof (cases "\<not> bc_usable c \<or> \<not> same overrides (bc_overrides c) \<or> (bc_sortedOrder c \<noteq> [] \<and> foreign_vector inputs c)")
    case True
    then show ?thesis using Some ok(1) by (auto simp: ControlStateDigestWithBurstCache_def)
  next
    case False
    let ?idx = "map snd (first_indices (map si_path (fi_values inputs)))"
    define c1 where "c1 = (if bc_sortedOrder c = [] then record_burst_order inputs c else c)"
    have c1: "bc_sortedOrder c1 = ?idx" "burst_true u (fi_values inputs) c1"
      using ok False by (auto simp: c1_def record_burst_order_frame burst_order_true_def)
    have bound: "\<forall>i \<in> set ?idx. i < length (fi_values inputs)" using first_indices_index by fastforce
    have size: "length (fi_values inputs) \<le> 2 ^ 32" using assms(2) by (simp add: order_recorded_def)
    define hc where "hc =
      (if FrameDigestOrderMatches (fi_digestOrder inputs) (fi_values inputs)
       then let recorded = the (fi_digestOrder inputs)
            in burst_recorded u inputs (zip (do_order recorded) (do_prefix recorded))
                 (FoldU64 digest_seed (of_nat (length (do_order recorded)))) [] c1
       else burst_sorted u inputs (bc_sortedOrder c1)
              (FoldU64 digest_seed (of_nat (length (bc_sortedOrder c1)))) c1)"
    have "fst hc = reference_digest u (fi_values inputs) \<and> burst_true u (fi_values inputs) (snd hc)"
    proof (cases "FrameDigestOrderMatches (fi_digestOrder inputs) (fi_values inputs)")
      case True
      have "names_ok u []" by (simp add: names_ok_def)
      from burst_recorded_samples [OF c1(2) this assms(1) bound size, of "FoldU64 digest_seed (of_nat (length ?idx))"]
      show ?thesis unfolding hc_def Let_def reference_digest_def
        by (auto simp only: True if_True recorded_pairs [OF assms(2) True] idx_samples fst_conv snd_conv)
    next
      case False
      from burst_sorted_samples [OF c1(2) bound, of "FoldU64 digest_seed (of_nat (length ?idx))"]
      show ?thesis unfolding hc_def Let_def reference_digest_def
        by (auto simp only: False if_False c1(1) idx_samples fst_conv snd_conv)
    qed
    moreover have "ControlStateDigestWithBurstCache u same inputs overrides upstream cache
        = (fold_rest u (fst hc) inputs overrides upstream, Some (snd hc))"
    proof -
      have nb: "bc_usable c" "same overrides (bc_overrides c)"
        "\<not> (bc_sortedOrder c \<noteq> [] \<and> foreign_vector inputs c)" using False by auto
      show ?thesis
        by (simp only: ControlStateDigestWithBurstCache_def Some option.case nb not_True_eq_False simp_thms
            if_False Let_def case_prod_unfold hc_def c1_def)
    qed
    ultimately show ?thesis using control_digest_reference [OF assms(1,2)] by simp
  qed
qed

end
