(* ===== verification/Reuse_Props.thy ===== *)
theory Reuse_Props
  imports Frame_Reuse Affected_Claims Frame_Routes
begin

text \<open>
  What the reuse of a retained frame rests on: the changed controls are exactly the keys whose
  entries differ, the dirty set is the union of what each reason dirties, and the sets of the
  index hold the clusters of every step that reads outside the graph, at a varying input or
  at an overridden one.
\<close>

section \<open>Changed keys\<close>

definition differs :: "('v \<Rightarrow> 'v \<Rightarrow> bool) \<Rightarrow> 'v option \<Rightarrow> 'v option \<Rightarrow> bool" where
  "differs same a b = (case a of None \<Rightarrow> b \<noteq> None | Some v \<Rightarrow> (case b of None \<Rightarrow> True | Some w \<Rightarrow> \<not> same v w))"

lemma changed_keys_iff:
  assumes "omap_wf was" "omap_wf new"
  shows "k \<in> fst ` set (changed_keys same was new) \<longleftrightarrow> differs same (map_of was k) (map_of new k)"
proof -
  have mem: "(k, v) \<in> set was \<longleftrightarrow> map_of was k = Some v" "(k, v) \<in> set new \<longleftrightarrow> map_of new k = Some v" for v
    using assms by (simp_all add: omap_wf_mem_iff)
  have "k \<in> fst ` set (changed_keys same was new) \<longleftrightarrow>
      (\<exists>v. (k, v) \<in> set was \<and> (case map_of new k of None \<Rightarrow> True | Some w \<Rightarrow> \<not> same v w)) \<or>
      (\<exists>v. (k, v) \<in> set new \<and> map_of was k = None)"
    by (force simp: changed_keys_def)
  also have "\<dots> \<longleftrightarrow> differs same (map_of was k) (map_of new k)"
    unfolding mem by (auto simp: differs_def split: option.splits)
  finally show ?thesis .
qed

text \<open>Every sampled path that differs is among the changed controls.\<close>

definition sample_differs :: "'p timed_inputs \<Rightarrow> 'p timed_inputs \<Rightarrow> 'p \<Rightarrow> bool" where
  "sample_differs was new path \<longleftrightarrow>
     differs same_sample (find (\<lambda>s. si_path s = path) (fi_values was)) (find (\<lambda>s. si_path s = path) (fi_values new))"

lemma differing_sample_changed:
  assumes "sample_differs (rs_inputs cached) requested path"
  shows "RigExecControlIdForPath u path \<in> set (RigExecChangedControls u vt_eq cached requested overrides)"
proof -
  have "path \<in> fst ` set (changed_keys same_sample (first_samples (fi_values (rs_inputs cached))) (first_samples (fi_values requested)))"
    unfolding changed_keys_iff [OF first_samples_wf first_samples_wf] first_samples_look
    using assms by (simp add: sample_differs_def)
  then show ?thesis by (auto simp: RigExecChangedControls_def changed_samples_def)
qed

section \<open>The dirty set\<close>

lemma dirty_clusters_bits:
  assumes "dirty_clusters moved overridden controls idx = (dirty, idx')"
  shows "bits_of dirty = bits_of (fst (AffectedByControls controls idx)) \<union>
      (if moved then bits_of (ai_always idx) \<union> bits_of (ai_varying idx) else {}) \<union>
      (if overridden then bits_of (ai_override idx) else {})"
    "idx' = walked idx"
  using assms
  by (auto simp: dirty_clusters_def Let_def AffectedByControls_def walked_def bitsets.elems_join split: if_splits prod.splits)

lemma reuse_conditions:
  assumes "fst (RigExecCanReuseRetainedPose u po vt_eq idx cached epoch requested overrides)"
  shows "\<not> Empty_index idx" "ai_epochDigest idx = epoch" "rs_epochDigest cached = epoch"
    "bits_of (fst (AffectedByControls (RigExecChangedControls u vt_eq cached requested overrides) idx)) = {}"
    "\<not> time_eq (ti_time requested) (ti_time (rs_inputs cached)) \<Longrightarrow> bits_of (ai_always idx) = {} \<and> bits_of (ai_varying idx) = {}"
    "overrides \<noteq> [] \<Longrightarrow> bits_of (ai_override idx) = {}"
proof -
  obtain dirty idx' where dirty: "dirty_clusters (\<not> time_eq (ti_time requested) (ti_time (rs_inputs cached)))
      (overrides \<noteq> []) (RigExecChangedControls u vt_eq cached requested overrides) idx = (dirty, idx')" by fastforce
  have pass: "\<not> Empty_index idx" "ai_epochDigest idx = epoch" "rs_epochDigest cached = epoch" and none: "bits_of dirty = {}"
    using assms dirty by (auto simp: RigExecCanReuseRetainedPose_def Any_bits split: if_splits)
  show "\<not> Empty_index idx" "ai_epochDigest idx = epoch" "rs_epochDigest cached = epoch" by (rule pass)+
  note D = dirty_clusters_bits(1) [OF dirty, unfolded none]
  show "bits_of (fst (AffectedByControls (RigExecChangedControls u vt_eq cached requested overrides) idx)) = {}"
    using D by blast
  show "\<not> time_eq (ti_time requested) (ti_time (rs_inputs cached)) \<Longrightarrow> bits_of (ai_always idx) = {} \<and> bits_of (ai_varying idx) = {}"
    using D by auto
  show "overrides \<noteq> [] \<Longrightarrow> bits_of (ai_override idx) = {}" using D by auto
qed

section \<open>The flags of the steps\<close>

text \<open>What the loop over the flags leaves in the three tables: exactly the flagged steps.\<close>

definition flags_noted :: "nat \<Rightarrow> bool list \<Rightarrow> (nat \<times> baked_step) list \<Rightarrow> baked_cones \<Rightarrow> bool" where
  "flags_noted n resolved ys c \<longleftrightarrow> length (cn_always c) = set_words n \<and>
     bits_of (cn_always c) = (\<lambda>(i, step). nat (st_cluster step)) ` {(i, step) \<in> set ys. st_externalReads step} \<and>
     set (cn_varyingSteps c) = (\<lambda>(i, step). int i) ` {(i, step) \<in> set ys. st_varyingInputs step \<or> resolved ! i} \<and>
     set (cn_overrideSteps c) = (\<lambda>(i, step). int i) ` {(i, step) \<in> set ys. st_overrideInputs step \<noteq> []}"

lemma note_flags_noted:
  assumes I: "flags_noted n resolved ys c" and range: "in_range n (st_cluster step)"
  shows "flags_noted n resolved (ys @ [(i, step)]) (note_flags resolved c (i, step))"
proof -
  have len: "length (cn_always c) = set_words n" using I by (simp add: flags_noted_def)
  have "nat (st_cluster step) < 64 * length (cn_always c)"
    using set_words_bound [of "nat (st_cluster step)" n] range len by (simp add: in_range_def)
  then have bits: "bits_of (Set_bit (st_cluster step) (cn_always c)) = insert (nat (st_cluster step)) (bits_of (cn_always c))"
    using range by (simp add: bits_of_Set_bit in_range_def)
  have grow: "{(j, s) \<in> set (ys @ [(i, step)]). P j s} =
      {(j, s) \<in> set ys. P j s} \<union> (if P i step then {(i, step)} else {})" for P :: "nat \<Rightarrow> baked_step \<Rightarrow> bool"
    by auto
  have tables: "cn_always (note_flags resolved c (i, step)) =
       (if st_externalReads step then Set_bit (st_cluster step) (cn_always c) else cn_always c)"
    "set (cn_varyingSteps (note_flags resolved c (i, step))) =
       set (cn_varyingSteps c) \<union> (if st_varyingInputs step \<or> resolved ! i then {int i} else {})"
    "set (cn_overrideSteps (note_flags resolved c (i, step))) =
       set (cn_overrideSteps c) \<union> (if st_overrideInputs step \<noteq> [] then {int i} else {})"
    by (simp_all add: note_flags_def Let_def)
  show ?thesis
    using I bits unfolding flags_noted_def grow tables by (simp add: image_Un)
qed

text \<open>Each step is in the cluster the partition records for it.\<close>

definition clusters_recorded :: "'p baked_program \<Rightarrow> bool" where
  "clusters_recorded B \<longleftrightarrow> length (cg_clusterOf (pg_clustering B)) = length (pg_steps B) \<and>
     (\<forall>i < length (pg_steps B). cg_clusterOf (pg_clustering B) ! i = st_cluster (pg_steps B ! i) \<and>
        in_range (cluster_count B) (st_cluster (pg_steps B ! i)))"

lemma flag_cones_noted:
  assumes "clusters_recorded B"
  shows "flags_noted (cluster_count B) resolved (numbered_steps B) (flag_cones resolved B)"
proof -
  let ?I = "flags_noted (cluster_count B) resolved"
  show ?thesis
    unfolding flag_cones_def
  proof (rule foldl_invariant [where I = ?I])
    fix ys e zs c assume split: "numbered_steps B = ys @ e # zs" and I: "?I ys c"
    obtain i step where e: "e = (i, step)" by fastforce
    have "(i, step) \<in> set (numbered_steps B)" using split e by simp
    then have "in_range (cluster_count B) (st_cluster step)"
      using assms by (auto simp: numbered_steps_iff clusters_recorded_def)
    from note_flags_noted [OF I this] show "?I (ys @ [e]) (note_flags resolved c e)" by (simp add: e)
  qed (simp add: flags_noted_def new_cones_def)
qed

text \<open>The closure of a list of steps is empty only for no steps: every step is in its own closure.\<close>

lemma close_steps_empty:
  assumes steps: "set steps \<subseteq> int ` {..<length (cg_clusterOf (pg_clustering B))}"
    and own: "\<And>i. i < length (cg_clusterOf (pg_clustering B)) \<Longrightarrow> in_range (length cones) (cg_clusterOf (pg_clustering B) ! i) \<and>
      bits_of (cones ! nat (cg_clusterOf (pg_clustering B) ! i)) \<noteq> {}"
  shows "bits_of (close_steps B cones steps) = {} \<longleftrightarrow> set steps = {}"
proof -
  let ?P = "\<lambda>step. in_range (length (cg_clusterOf (pg_clustering B))) step \<and>
      in_range (length cones) (cg_clusterOf (pg_clustering B) ! nat step)"
  let ?cone = "\<lambda>step. bits_of (cones ! nat (cg_clusterOf (pg_clustering B) ! nat step))"
  have "close_steps B cones steps = foldl (\<lambda>out step. if ?P step
      then snd (Union_set out (cones ! nat (cg_clusterOf (pg_clustering B) ! nat step))) else out) (Resize (cluster_count B)) steps"
    unfolding close_steps_def Let_def by (rule arg_cong [where f = "\<lambda>f. foldl f (Resize (cluster_count B)) steps"]) (intro ext, simp)
  then have bits: "bits_of (close_steps B cones steps) = (\<Union>step \<in> {step \<in> set steps. ?P step}. ?cone step)"
    by (simp add: bitsets.join_fold_if)
  have "?P step \<and> ?cone step \<noteq> {}" if mem: "step \<in> set steps" for step
  proof -
    have "step \<in> int ` {..<length (cg_clusterOf (pg_clustering B))}" using steps mem by (rule subsetD)
    then obtain i where "step = int i" "i < length (cg_clusterOf (pg_clustering B))" by auto
    then show ?thesis using own [of i] by (simp add: in_range_def)
  qed
  then have "{step \<in> set steps. ?P step} = set steps" "\<forall>step \<in> set steps. ?cone step \<noteq> {}" by blast+
  then show ?thesis unfolding bits by (simp add: UNION_empty_conv)
qed

text \<open>The sets of the index are empty exactly when no step has the flag.\<close>

lemma flagged_sets:
  assumes valid: "clusters_valid (cg_clusters (pg_clustering B))" and some: "cluster_count B \<noteq> 0"
    and recorded: "clusters_recorded B"
    and idx: "idx = Build_index u (RigExecBakedBuildCones resolved B) epoch"
  shows "bits_of (ai_always idx) = {} \<longleftrightarrow> (\<forall>step \<in> set (pg_steps B). \<not> st_externalReads step)"
    "bits_of (ai_varying idx) = {} \<longleftrightarrow> (\<forall>i < length (pg_steps B). \<not> st_varyingInputs (pg_steps B ! i) \<and> \<not> resolved ! i)"
    "bits_of (ai_override idx) = {} \<longleftrightarrow> (\<forall>step \<in> set (pg_steps B). st_overrideInputs step = [])"
    "ai_epochDigest idx = epoch"
proof -
  let ?B' = "RigExecBakedBuildCones resolved B"
  note bc = built_cones [OF valid some refl, where resolved = resolved]
  have at: "cg_clusterOf (pg_clustering ?B') = cg_clusterOf (pg_clustering B)"
    by (simp add: RigExecBakedBuildCones_def Let_def)
  have place: "in_range (cluster_count B) (cg_clusterOf (pg_clustering B) ! i)" "length (cg_clusterOf (pg_clustering B)) = length (pg_steps B)"
    if "i < length (cg_clusterOf (pg_clustering B))" for i using recorded that by (auto simp: clusters_recorded_def)
  have own: "bits_of (Cone (pg_cones ?B') ! nat (cg_clusterOf (pg_clustering B) ! i)) \<noteq> {}"
    if "i < length (cg_clusterOf (pg_clustering B))" for i
    using bc(4) [of "nat (cg_clusterOf (pg_clustering B) ! i)"] place(1) [OF that] by (auto simp: in_range_def cluster_reach_def)
  have flags: "flag_tables (pg_cones ?B') = flag_tables ((flag_cones resolved B)\<lparr>cn_editRoute := edit_routes B\<rparr>)"
    using built_flags [OF some, of resolved] by (simp add: built_def)
  have noted: "flags_noted (cluster_count B) resolved (numbered_steps B) (pg_cones ?B')"
    using flag_cones_noted [OF recorded, of resolved] flags by (simp add: flags_noted_def flag_tables_def)
  have start: "ai_always idx = resize_words (set_words (cluster_count ?B')) (cn_always (pg_cones ?B'))"
    "ai_varying idx = close_steps ?B' (Cone (pg_cones ?B')) (cn_varyingSteps (pg_cones ?B'))"
    "ai_override idx = close_steps ?B' (Cone (pg_cones ?B')) (cn_overrideSteps (pg_cones ?B'))"
    "ai_epochDigest idx = epoch"
    using index_admits_inv [OF index_start_inv [OF bc(1), of epoch], of "all_controls u ?B'"] bc(1,2) some
    unfolding idx Build_index_eq by (simp_all add: index_start_def)
  have close: "bits_of (close_steps ?B' (Cone (pg_cones ?B')) steps) = {} \<longleftrightarrow> set steps = {}"
    if "set steps \<subseteq> int ` {..<length (pg_steps B)}" for steps
  proof (rule close_steps_empty)
    have len: "length (cg_clusterOf (pg_clustering ?B')) = length (pg_steps B)" using recorded by (simp add: at clusters_recorded_def)
    show "set steps \<subseteq> int ` {..<length (cg_clusterOf (pg_clustering ?B'))}" using that unfolding len .
    fix i assume "i < length (cg_clusterOf (pg_clustering ?B'))"
    then have i: "i < length (cg_clusterOf (pg_clustering B))" by (simp only: at)
    show "in_range (length (Cone (pg_cones ?B'))) (cg_clusterOf (pg_clustering ?B') ! i) \<and>
        bits_of (Cone (pg_cones ?B') ! nat (cg_clusterOf (pg_clustering ?B') ! i)) \<noteq> {}"
      using place(1) [OF i] own [OF i] unfolding at bc(1) bc(2) by blast
  qed
  have sub: "set steps \<subseteq> int ` {..<length (pg_steps B)}"
    if "set steps = (\<lambda>(i, step). int i) ` {(i, step) \<in> set (numbered_steps B). P i step}" for steps P
    unfolding that by (auto simp: numbered_steps_iff)
  have none: "{(i, step) \<in> set (numbered_steps B). P i step} = {} \<longleftrightarrow> (\<forall>i < length (pg_steps B). \<not> P i (pg_steps B ! i))" for P
    by (auto simp: numbered_steps_iff)
  have each: "(\<forall>i < length (pg_steps B). P (pg_steps B ! i)) \<longleftrightarrow> (\<forall>step \<in> set (pg_steps B). P step)" for P
    by (simp add: all_set_conv_all_nth)
  have tables: "bits_of (cn_always (pg_cones ?B')) = {} \<longleftrightarrow> {(i, step) \<in> set (numbered_steps B). st_externalReads step} = {}"
    "set (cn_varyingSteps (pg_cones ?B')) = (\<lambda>(i, step). int i) ` {(i, step) \<in> set (numbered_steps B). st_varyingInputs step \<or> resolved ! i}"
    "set (cn_overrideSteps (pg_cones ?B')) = (\<lambda>(i, step). int i) ` {(i, step) \<in> set (numbered_steps B). st_overrideInputs step \<noteq> []}"
    "length (cn_always (pg_cones ?B')) = set_words (cluster_count B)"
    using noted unfolding flags_noted_def by simp_all
  show "bits_of (ai_always idx) = {} \<longleftrightarrow> (\<forall>step \<in> set (pg_steps B). \<not> st_externalReads step)"
  proof -
    have same: "ai_always idx = cn_always (pg_cones ?B')" using tables(4) bc(2) by (simp add: start(1) resize_words_def)
    show ?thesis unfolding same tables(1) none [of "\<lambda>i step. st_externalReads step"] by (rule each)
  qed
  show "bits_of (ai_varying idx) = {} \<longleftrightarrow> (\<forall>i < length (pg_steps B). \<not> st_varyingInputs (pg_steps B ! i) \<and> \<not> resolved ! i)"
    unfolding start(2) close [OF sub [OF tables(2)]]
    unfolding tables(2) image_is_empty none by blast
  show "bits_of (ai_override idx) = {} \<longleftrightarrow> (\<forall>step \<in> set (pg_steps B). st_overrideInputs step = [])"
    unfolding start(3) close [OF sub [OF tables(3)]]
    unfolding tables(3) image_is_empty none each [of "\<lambda>step. \<not> st_overrideInputs step \<noteq> []"] by blast
  show "ai_epochDigest idx = epoch" by (rule start(4))
qed

section \<open>The decision\<close>

text \<open>No cluster is affected exactly when every control is known and has no seeds.\<close>

lemma none_affected:
  assumes "clusters_valid (cg_clusters (pg_clustering B))" "cluster_count B \<noteq> 0"
    and idx: "idx = Build_index u (RigExecBakedBuildCones resolved B) epoch"
  shows "bits_of (fst (AffectedByControls controls idx)) = {} \<longleftrightarrow>
    (\<forall>control \<in> set controls. IsKnownControl control idx \<and> SeedsForControl control idx = [])"
proof -
  have maps: "idx = mapped_index [] (Build_index u (RigExecBakedBuildCones resolved B) epoch)" by (simp add: idx mapped_index_def)
  note I = built_index [OF assms(1,2) maps]
  have "control_reach idx control = {} \<longleftrightarrow> SeedsForControl control idx = []" for control
  proof -
    have "nat seed \<in> bits_of (ai_cones idx ! nat seed)" if mem: "seed \<in> set (SeedsForControl control idx)" for seed
    proof -
      have "nat seed < cluster_count B" using seed_in_range [OF I(1) mem] unfolding I(2) in_range_def by (rule conjunct2)
      from I(3) [OF this] show ?thesis by (simp add: cluster_reach_def)
    qed
    then have "\<forall>seed \<in> set (SeedsForControl control idx). bits_of (ai_cones idx ! nat seed) \<noteq> {}" by blast
    then have "control_reach idx control = {} \<longleftrightarrow> set (SeedsForControl control idx) = {}"
      unfolding control_reach_def UNION_empty_conv by (cases "SeedsForControl control idx") simp_all
    then show ?thesis by simp
  qed
  then have none: "(\<Union>control \<in> set controls. control_reach idx control) = {} \<longleftrightarrow>
      (\<forall>control \<in> set controls. SeedsForControl control idx = [])" by simp
  have some: "{..<ai_clusterCount idx} \<noteq> {}" using assms(2) I(2) by auto
  show ?thesis
  proof (cases "\<forall>control \<in> set controls. IsKnownControl control idx")
    case True
    show ?thesis unfolding AffectedByControls_bits [OF I(1,4)] if_P [OF True] none using True by simp
  next
    case False
    show ?thesis unfolding AffectedByControls_bits [OF I(1,4)] if_not_P [OF False] using False some by blast
  qed
qed

lemma reuse_exact:
  assumes "clusters_valid (cg_clusters (pg_clustering B))" "clusters_recorded B"
    and idx: "idx = Build_index u (RigExecBakedBuildCones resolved B) built_epoch"
  shows "fst (RigExecCanReuseRetainedPose u po vt_eq idx cached epoch requested overrides) \<longleftrightarrow>
    cluster_count B \<noteq> 0 \<and> built_epoch = epoch \<and> rs_epochDigest cached = epoch \<and> rs_clusterCount cached = cluster_count B \<and>
    RigExecSameUpstream (fi_upstream (rs_inputs cached)) (fi_upstream requested) \<and>
    SameVaryingRevisionLeaves (rs_inputs cached) requested \<and>
    complete_layouts po (rs_inputs cached) \<and> complete_layouts po requested \<and>
    (\<forall>control \<in> set (RigExecChangedControls u vt_eq cached requested overrides).
       IsKnownControl control idx \<and> SeedsForControl control idx = []) \<and>
    (time_eq (ti_time requested) (ti_time (rs_inputs cached)) \<or>
       (\<forall>i < length (pg_steps B). \<not> st_externalReads (pg_steps B ! i) \<and> \<not> st_varyingInputs (pg_steps B ! i) \<and> \<not> resolved ! i)) \<and>
    (overrides = [] \<or> (\<forall>step \<in> set (pg_steps B). st_overrideInputs step = []))"
proof (cases "cluster_count B = 0")
  case True
  have "cluster_count (RigExecBakedBuildCones resolved B) = cluster_count B"
    by (simp add: RigExecBakedBuildCones_def Let_def cluster_count_def)
  then have "Empty_index idx" using True by (simp add: idx Build_index_def Clear_index_def Empty_index_def)
  then show ?thesis using True by (simp add: RigExecCanReuseRetainedPose_def)
next
  case False
  have maps: "idx = mapped_index [] (Build_index u (RigExecBakedBuildCones resolved B) built_epoch)"
    by (simp add: idx mapped_index_def)
  have count: "ai_clusterCount idx = cluster_count B" by (rule built_index(2) [OF assms(1) False maps])
  note F = flagged_sets [OF assms(1) False assms(2) idx]
  obtain dirty idx' where dirty: "dirty_clusters (\<not> time_eq (ti_time requested) (ti_time (rs_inputs cached)))
      (overrides \<noteq> []) (RigExecChangedControls u vt_eq cached requested overrides) idx = (dirty, idx')" by fastforce
  have none: "bits_of dirty = {} \<longleftrightarrow>
      (\<forall>control \<in> set (RigExecChangedControls u vt_eq cached requested overrides).
         IsKnownControl control idx \<and> SeedsForControl control idx = []) \<and>
      (time_eq (ti_time requested) (ti_time (rs_inputs cached)) \<or>
         (\<forall>i < length (pg_steps B). \<not> st_externalReads (pg_steps B ! i) \<and> \<not> st_varyingInputs (pg_steps B ! i) \<and> \<not> resolved ! i)) \<and>
      (overrides = [] \<or> (\<forall>step \<in> set (pg_steps B). st_overrideInputs step = []))"
    (is "_ \<longleftrightarrow> ?known \<and> (?still \<or> ?fixed) \<and> (overrides = [] \<or> ?plain)")
  proof -
    have always: "bits_of (ai_always idx) \<union> bits_of (ai_varying idx) = {} \<longleftrightarrow> ?fixed"
      unfolding Un_empty F(1,2) all_set_conv_all_nth by (simp add: all_conj_distrib imp_conjR)
    have moved: "(if \<not> ?still then bits_of (ai_always idx) \<union> bits_of (ai_varying idx) else {}) = {} \<longleftrightarrow> ?still \<or> ?fixed"
      using always by (simp del: Un_empty)
    have overridden: "(if overrides \<noteq> [] then bits_of (ai_override idx) else {}) = {} \<longleftrightarrow> overrides = [] \<or> ?plain"
      using F(3) by simp
    show ?thesis
      unfolding dirty_clusters_bits(1) [OF dirty] Un_empty none_affected [OF assms(1) False idx] moved overridden by (rule conj_assoc)
  qed
  show ?thesis
    unfolding none [symmetric] RigExecCanReuseRetainedPose_def Empty_index_def dirty count F(4) Let_def prod.case
    using False by (auto simp: Any_bits)
qed

section \<open>What a changed source changes\<close>

text \<open>An entry of the layout rows: its path and its value.\<close>

definition layout_entry :: "'p timed_inputs \<Rightarrow> nat \<Rightarrow> nat \<Rightarrow> ('p \<times> vt_value) option" where
  "layout_entry inputs row key =
     (if key < row_length (ti_layoutSourcePaths inputs) row \<and> key < row_length (fi_layoutLeaves inputs) row
      then Some (ti_layoutSourcePaths inputs ! row ! key, fi_layoutLeaves inputs ! row ! key) else None)"

definition layout_differs :: "'p timed_inputs \<Rightarrow> 'p timed_inputs \<Rightarrow> 'p \<Rightarrow> bool" where
  "layout_differs was new path \<longleftrightarrow> (\<exists>row key.
     (\<exists>v. layout_entry was row key = Some (path, v) \<or> layout_entry new row key = Some (path, v)) \<and>
     \<not> (\<exists>v w. layout_entry was row key = Some (path, v) \<and> layout_entry new row key = Some (path, w) \<and>
          RigExecExactSourceValueEqual v w))"

definition constant_differs :: "'p::linorder timed_inputs \<Rightarrow> 'p timed_inputs \<Rightarrow> 'p \<Rightarrow> bool" where
  "constant_differs was new path \<longleftrightarrow> ti_headTable was \<noteq> ti_headTable new \<and>
     differs (\<lambda>a b. RigExecSameSourceValue a (a \<noteq> None) b (b \<noteq> None)) (map_of (constants_of was) path) (map_of (constants_of new) path)"

lemma differing_layout_changed:
  assumes "layout_differs (rs_inputs cached) requested path"
  shows "RigExecControlIdForPath u path \<in> set (RigExecChangedControls u vt_eq cached requested overrides)"
proof -
  let ?was = "rs_inputs cached"
  obtain row key v where entry: "layout_entry ?was row key = Some (path, v) \<or> layout_entry requested row key = Some (path, v)"
    and moved: "\<not> (\<exists>v w. layout_entry ?was row key = Some (path, v) \<and> layout_entry requested row key = Some (path, w) \<and>
        RigExecExactSourceValueEqual v w)" using assms unfolding layout_differs_def by blast
  have listed: "RigExecControlIdForPath u path \<in> set (layout_key_changed u ?was requested row key)"
    using entry moved by (auto simp: layout_key_changed_def layout_entry_def Let_def split: if_splits)
  have "row < max (length (fi_layoutLeaves ?was)) (length (fi_layoutLeaves requested))"
    using entry by (auto simp: layout_entry_def row_length_def split: if_splits)
  moreover have "key < max (max (row_length (fi_layoutLeaves ?was) row) (row_length (fi_layoutLeaves requested) row))
      (max (row_length (ti_layoutSourcePaths ?was) row) (row_length (ti_layoutSourcePaths requested) row))"
    using entry by (auto simp: layout_entry_def split: if_splits)
  ultimately have "RigExecControlIdForPath u path \<in> set (changed_layouts u ?was requested)"
    unfolding changed_layouts_def using listed by fastforce
  then show ?thesis by (simp add: RigExecChangedControls_def)
qed

lemma constants_fold_wf:
  "omap_wf m \<Longrightarrow> omap_wf (foldl (\<lambda>m j. if skip j then m else omap_emplace (k j) (v j) m) m js)"
  by (induction js arbitrary: m) simp_all

lemma constants_of_wf: "omap_wf (constants_of inputs)"
  unfolding constants_of_def by (cases "fi_headLeafConstants inputs") (simp_all add: constants_fold_wf)

lemma differing_constant_changed:
  assumes "constant_differs (rs_inputs cached) requested path"
  shows "RigExecControlIdForPath u path \<in> set (RigExecChangedControls u vt_eq cached requested overrides)"
proof -
  have "path \<in> fst ` set (changed_keys (\<lambda>a b. RigExecSameSourceValue a (a \<noteq> None) b (b \<noteq> None))
      (constants_of (rs_inputs cached)) (constants_of requested))"
    unfolding changed_keys_iff [OF constants_of_wf constants_of_wf] using assms by (simp add: constant_differs_def)
  then show ?thesis using assms by (auto simp: RigExecChangedControls_def changed_constants_def constant_differs_def)
qed

lemmas source_changed = differing_sample_changed differing_layout_changed differing_constant_changed

end
