(* ===== verification/Frame_Table.thy ===== *)
theory Frame_Table
  imports Frame_Cache
begin

text \<open>
  The sharded table as a map, and the order of use. The shards together obey the laws of a map;
  the entries of all shards are a multiset that a put and an erase change by one entry; sorted
  by their last use they are the recency list, whose head is the entry the eviction scan finds.
\<close>

section \<open>The shards together\<close>

definition shards_wf :: "(4 word \<Rightarrow> (frame_key, 'e) omap) \<Rightarrow> bool" where
  "shards_wf t \<longleftrightarrow> (\<forall>i. omap_wf (t i) \<and> (\<forall>k. map_of (t i) k \<noteq> None \<longrightarrow> shard_of k = i))"

definition shard_entries :: "(4 word \<Rightarrow> (frame_key, 'e) omap) \<Rightarrow> (frame_key \<times> 'e) list" where
  "shard_entries t = concat (map t shard_ids)"

lemma shards_wf_look:
  "shards_wf t \<Longrightarrow> map_of (t i) k = (if shard_of k = i then shard_look t k else None)"
  unfolding shards_wf_def shard_look_def by (metis (full_types))

interpretation shards: key_map shard_look shard_put shard_erase shards_wf
proof
  fix k :: frame_key and v :: 'e and m n :: "4 word \<Rightarrow> (frame_key, 'e) omap"
  show "shard_look (shard_put k v m) = (shard_look m)(k \<mapsto> v)"
    by (auto simp: shard_look_def shard_put_def fun_eq_iff)
  show "shard_look (shard_erase k m) = (shard_look m)(k := None)"
    by (auto simp: shard_look_def shard_erase_def fun_eq_iff)
  show "shards_wf m \<Longrightarrow> shards_wf (shard_put k v m)"
    by (auto simp: shards_wf_def shard_put_def split: if_splits)
  show "shards_wf m \<Longrightarrow> shards_wf (shard_erase k m)"
    by (auto simp: shards_wf_def shard_erase_def split: if_splits)
  assume wf: "shards_wf m" "shards_wf n" and eq: "shard_look m = shard_look n"
  show "m = n"
  proof
    fix i
    have "map_of (m i) = map_of (n i)"
      using shards_wf_look [OF wf(1)] shards_wf_look [OF wf(2)] eq by (simp add: fun_eq_iff)
    then show "m i = n i" using wf by (intro omap_wf_ext) (auto simp: shards_wf_def)
  qed
qed

lemmas shard_laws = shards.look_put shards.look_erase shards.wf_put shards.wf_erase

lemma shard_ids_all: "set shard_ids = UNIV" "distinct shard_ids"
proof -
  have "x \<in> set shard_ids" for x :: "4 word"
  proof -
    have "unat x < 2 ^ LENGTH(4)" by (rule unsigned_less)
    then have "unat x < 16" by simp
    then have "word_of_nat (unat x) \<in> set shard_ids" unfolding shard_ids_def set_map set_upt
      by (intro imageI) simp
    then show ?thesis by simp
  qed
  then show "set shard_ids = UNIV" by blast
  then have "card (set shard_ids) = length shard_ids" by (simp add: shard_ids_def card_word)
  then show "distinct shard_ids" by (rule card_distinct)
qed

lemma mset_shard_entries: "mset (shard_entries t) = (\<Sum>i \<in> UNIV. mset (t i))"
proof -
  have "mset (shard_entries t) = sum_list (map (\<lambda>i. mset (t i)) shard_ids)"
    by (simp add: shard_entries_def mset_concat comp_def)
  also have "\<dots> = (\<Sum>i \<in> UNIV. mset (t i))"
    using shard_ids_all by (metis sum_list_distinct_conv_sum_set)
  finally show ?thesis .
qed

lemma mset_shard_update:
  "mset (shard_entries (t(i := s))) + mset (t i) = mset (shard_entries t) + mset s"
proof -
  have "(\<Sum>j \<in> UNIV - {i}. mset ((t(i := s)) j)) = (\<Sum>j \<in> UNIV - {i}. mset (t j))"
    by (rule sum.cong) auto
  then show ?thesis
    unfolding mset_shard_entries by (simp add: sum.remove [of UNIV i] ac_simps)
qed

lemma mset_shard_put:
  "shard_look t k = None \<Longrightarrow> mset (shard_entries (shard_put k e t)) = add_mset (k, e) (mset (shard_entries t))"
  using mset_shard_update [of t "shard_of k" "omap_put k e (t (shard_of k))"]
  by (simp add: shard_put_def shard_look_def mset_omap_put)

lemma mset_shard_erase:
  assumes "shards_wf t" "shard_look t k = Some e"
  shows "mset (shard_entries t) = add_mset (k, e) (mset (shard_entries (shard_erase k t)))"
proof -
  have "mset (t (shard_of k)) = add_mset (k, e) (mset (omap_erase k (t (shard_of k))))"
    using assms by (intro mset_omap_erase) (auto simp: shards_wf_def shard_look_def)
  then show ?thesis
    using mset_shard_update [of t "shard_of k" "omap_erase k (t (shard_of k))"]
    by (simp add: shard_erase_def)
qed

lemma mset_shard_replace:
  assumes "shards_wf t" "shard_look t k = Some e"
  shows "mset (shard_entries (shard_put k e' t)) = add_mset (k, e') (mset (shard_entries (shard_erase k t)))"
proof -
  have "shard_put k e' t = shard_put k e' (shard_erase k t)"
    using assms(1) by (simp add: shards.put_erase)
  then show ?thesis by (simp add: mset_shard_put shard_laws)
qed

lemma shard_entries_iff: "shards_wf t \<Longrightarrow> (k, e) \<in> set (shard_entries t) \<longleftrightarrow> shard_look t k = Some e"
proof -
  assume wf: "shards_wf t"
  have "(k, e) \<in> set (t i) \<longleftrightarrow> map_of (t i) k = Some e" for i
    using wf by (simp add: shards_wf_def omap_wf_mem_iff)
  then show ?thesis
    using shards_wf_look [OF wf] by (auto simp: shard_entries_def shard_ids_all split: if_splits)
qed

lemma distinct_shard_entries: "shards_wf t \<Longrightarrow> distinct (map fst (shard_entries t))"
proof -
  assume wf: "shards_wf t"
  have own: "shard_of (fst kv) = i" if "kv \<in> set (t i)" for kv i
  proof -
    have "map_of (t i) (fst kv) \<noteq> None" using that by (metis map_of_eq_None_iff image_eqI)
    then show ?thesis using wf unfolding shards_wf_def by blast
  qed
  have "distinct is \<Longrightarrow> distinct (map fst (concat (map t is)))" for "is"
  proof (induction "is")
    case (Cons i "is")
    have "distinct (map fst (t i))" using wf by (auto simp: shards_wf_def omap_wf_def)
    moreover have "fst ` set (t i) \<inter> fst ` set (concat (map t is)) = {}"
    proof (rule equals0I)
      fix k assume "k \<in> fst ` set (t i) \<inter> fst ` set (concat (map t is))"
      then obtain a b j where "a \<in> set (t i)" "b \<in> set (t j)" "j \<in> set is" "fst a = k" "fst b = k"
        by auto
      then show False using own [of a i] own [of b j] Cons.prems by auto
    qed
    moreover have "distinct (map fst (concat (map t is)))" using Cons by simp
    ultimately show ?case by simp
  qed simp
  then show ?thesis using shard_ids_all by (simp add: shard_entries_def)
qed

text \<open>Without its entry, no entry of the key is left.\<close>

lemma mset_shard_erase_filter:
  assumes "shards_wf t"
  shows "mset (shard_entries (shard_erase k t)) = filter_mset (\<lambda>kv. fst kv \<noteq> k) (mset (shard_entries t))"
proof (cases "shard_look t k")
  case None
  then have "filter (\<lambda>kv. fst kv \<noteq> k) (shard_entries t) = shard_entries t"
    using shard_entries_iff [OF assms] by (metis (mono_tags, lifting) filter_True option.distinct(1) prod.collapse)
  then show ?thesis
    using shards.erase_fresh [OF assms None] by (metis mset_filter)
next
  case (Some e)
  have "shards_wf (shard_erase k t)" using assms by (simp add: shard_laws)
  then have "filter (\<lambda>kv. fst kv \<noteq> k) (shard_entries (shard_erase k t)) = shard_entries (shard_erase k t)"
    using shard_entries_iff
    by (metis (mono_tags, lifting) filter_True fun_upd_same option.distinct(1) prod.collapse shards.look_erase)
  then have "filter_mset (\<lambda>kv. fst kv \<noteq> k) (mset (shard_entries (shard_erase k t))) = mset (shard_entries (shard_erase k t))"
    by (metis mset_filter)
  then show ?thesis using mset_shard_erase [OF assms Some] by simp
qed

section \<open>The order of use\<close>

type_synonym ('p, 'h) slot = "frame_key \<times> ('p, 'h) cache_entry option"

definition slot_use :: "('p, 'h) slot \<Rightarrow> nat" where
  "slot_use kv = ce_lastUse (deref (snd kv))"

definition slot_bytes :: "('p, 'h) slot \<Rightarrow> 64 word" where
  "slot_bytes kv = ce_bytes (deref (snd kv))"

definition cache_entries :: "('p, 'h) frame_cache \<Rightarrow> ('p, 'h) slot list" where
  "cache_entries c = shard_entries (fc_shards c)"

definition recency :: "('p, 'h) frame_cache \<Rightarrow> ('p, 'h) slot list" where
  "recency c = sort_key slot_use (cache_entries c)"

text \<open>The state the operations keep: every entry sits in the shard of its key and is whole, no
  two share a use, all uses precede the clock, and the accounts are exact.\<close>

definition cache_inv :: "('p, 'h) frame_cache \<Rightarrow> bool" where
  "cache_inv c \<longleftrightarrow> shards_wf (fc_shards c)
     \<and> (\<forall>kv \<in> set (cache_entries c). \<not> corrupt (snd kv) \<and> slot_use kv < fc_clock c)
     \<and> inj_on slot_use (set (cache_entries c))
     \<and> fc_entryCount c = length (cache_entries c)
     \<and> fc_bytes c = sum_list (map slot_bytes (cache_entries c))"

lemma cache_invD:
  assumes "cache_inv c"
  shows "shards_wf (fc_shards c)"
    and "kv \<in> set (cache_entries c) \<Longrightarrow> \<not> corrupt (snd kv)"
    and "kv \<in> set (cache_entries c) \<Longrightarrow> slot_use kv < fc_clock c"
    and "inj_on slot_use (set (cache_entries c))"
    and "fc_entryCount c = length (cache_entries c)"
    and "fc_bytes c = sum_list (map slot_bytes (cache_entries c))"
  using assms by (auto simp: cache_inv_def)

lemma mset_recency [simp]: "mset (recency c) = mset (cache_entries c)"
  by (simp add: recency_def)

lemma set_recency [simp]: "set (recency c) = set (cache_entries c)"
  by (simp add: recency_def)

lemma length_recency [simp]: "length (recency c) = length (cache_entries c)"
  by (simp add: recency_def)

lemma sorted_recency: "sorted (map slot_use (recency c))"
  by (simp add: recency_def)

lemma recency_eqI:
  assumes "mset l = mset (cache_entries c)" "inj_on slot_use (set l)" "sorted (map slot_use l)"
  shows "recency c = l"
  unfolding recency_def
  using assms by (metis set_mset_mset sort_key_inj_key_eq)

lemma sum_list_mset_cong:
  fixes f :: "'a \<Rightarrow> 'b::comm_monoid_add"
  shows "mset xs = mset ys \<Longrightarrow> sum_list (map f xs) = sum_list (map f ys)"
  by (metis mset_map sum_mset_sum_list)

lemma bytes_recency: "cache_inv c \<Longrightarrow> fc_bytes c = sum_list (map slot_bytes (recency c))"
  using sum_list_mset_cong [OF mset_recency] cache_invD(6) by metis

lemma distinct_recency: "cache_inv c \<Longrightarrow> distinct (map fst (recency c))"
proof -
  assume "cache_inv c"
  then have "distinct (map fst (cache_entries c))"
    by (simp add: cache_entries_def cache_invD(1) distinct_shard_entries)
  then show ?thesis by (metis mset_map mset_recency mset_eq_imp_distinct_iff)
qed

lemma look_iff: "cache_inv c \<Longrightarrow> shard_look (fc_shards c) k = Some e \<longleftrightarrow> (k, e) \<in> set (cache_entries c)"
  by (simp add: cache_entries_def shard_entries_iff cache_invD(1))

lemma look_None_iff: "cache_inv c \<Longrightarrow> shard_look (fc_shards c) k = None \<longleftrightarrow> k \<notin> fst ` set (cache_entries c)"
proof -
  assume "cache_inv c"
  from look_iff [OF this, of k] have "(\<exists>e. shard_look (fc_shards c) k = Some e) \<longleftrightarrow> k \<in> fst ` set (cache_entries c)"
    by force
  then show ?thesis by (metis not_None_eq)
qed

text \<open>The invariant from the recency list of a new state.\<close>

lemma cache_invI:
  assumes "shards_wf (fc_shards c)" "mset l = mset (cache_entries c)"
    and "\<And>kv. kv \<in> set l \<Longrightarrow> \<not> corrupt (snd kv) \<and> slot_use kv < fc_clock c"
    and "inj_on slot_use (set l)" "sorted (map slot_use l)"
    and "fc_entryCount c = length l" "fc_bytes c = sum_list (map slot_bytes l)"
  shows "cache_inv c \<and> recency c = l"
proof
  have "set l = set (cache_entries c)" "length l = length (cache_entries c)"
    "sum_list (map slot_bytes l) = sum_list (map slot_bytes (cache_entries c))"
    using assms(2) by (auto dest: mset_eq_setD mset_eq_length sum_list_mset_cong)
  then show "cache_inv c" using assms unfolding cache_inv_def by simp
  show "recency c = l" using assms by (intro recency_eqI)
qed

section \<open>The eviction scan\<close>

lemma foldl_concat: "foldl (\<lambda>a x. foldl f a (g x)) s xs = foldl f s (concat (map g xs))"
  by (induction xs arbitrary: s) auto

lemma find_victim_entries: "find_victim c = foldl note_candidate None (cache_entries c)"
  by (simp add: find_victim_def cache_entries_def shard_entries_def foldl_concat)

lemma note_candidate_simps:
  "note_candidate None kv = Some (fst kv, slot_use kv)"
  "note_candidate (Some (k, u)) kv = (if slot_use kv < u then Some (fst kv, slot_use kv) else Some (k, u))"
  by (simp_all add: note_candidate_def slot_use_def)

lemma scan_least:
  "\<exists>k' u'. foldl note_candidate (Some (k, u)) kvs = Some (k', u') \<and> u' \<le> u
     \<and> (\<forall>kv \<in> set kvs. u' \<le> slot_use kv)
     \<and> ((k', u') = (k, u) \<or> (\<exists>kv \<in> set kvs. k' = fst kv \<and> u' = slot_use kv))"
proof (induction kvs arbitrary: k u)
  case (Cons kv kvs)
  show ?case
  proof (cases "slot_use kv < u")
    case True
    from Cons [of "fst kv" "slot_use kv"] obtain k' u' where
      "foldl note_candidate (Some (fst kv, slot_use kv)) kvs = Some (k', u')" "u' \<le> slot_use kv"
      "\<forall>x \<in> set kvs. u' \<le> slot_use x"
      "(k', u') = (fst kv, slot_use kv) \<or> (\<exists>x \<in> set kvs. k' = fst x \<and> u' = slot_use x)" by blast
    then show ?thesis using True by (intro exI [of _ k'] exI [of _ u']) (auto simp: note_candidate_simps)
  next
    case False
    from Cons [of k u] obtain k' u' where
      "foldl note_candidate (Some (k, u)) kvs = Some (k', u')" "u' \<le> u"
      "\<forall>x \<in> set kvs. u' \<le> slot_use x"
      "(k', u') = (k, u) \<or> (\<exists>x \<in> set kvs. k' = fst x \<and> u' = slot_use x)" by blast
    then show ?thesis using False by (intro exI [of _ k'] exI [of _ u']) (auto simp: note_candidate_simps)
  qed
qed simp

lemma find_victim_recency:
  assumes "cache_inv c"
  shows "find_victim c = (case recency c of [] \<Rightarrow> None | kv # rest \<Rightarrow> Some (fst kv, slot_use kv))"
proof (cases "recency c")
  case Nil
  then have "cache_entries c = []" by (metis length_0_conv length_recency)
  then show ?thesis using Nil by (simp add: find_victim_entries)
next
  case (Cons kv0 rest)
  then obtain x xs where x: "cache_entries c = x # xs"
    by (metis length_0_conv length_recency list.distinct(1) neq_Nil_conv)
  from scan_least [of "fst x" "slot_use x" xs] obtain k u where
    f: "find_victim c = Some (k, u)" and
    le: "\<forall>kv \<in> set (cache_entries c). u \<le> slot_use kv" and
    ex: "\<exists>kv \<in> set (cache_entries c). k = fst kv \<and> u = slot_use kv"
    by (auto simp: find_victim_entries x note_candidate_simps)
  from ex obtain y where y: "y \<in> set (cache_entries c)" "k = fst y" "u = slot_use y" by blast
  have "kv0 \<in> set (cache_entries c)" using Cons by (metis list.set_intros(1) set_recency)
  moreover have "slot_use kv0 \<le> slot_use y"
  proof -
    have "set (recency c) = insert kv0 (set rest)" using Cons by simp
    then have "y = kv0 \<or> y \<in> set rest" using y(1) by (simp only: set_recency insert_iff)
    then show ?thesis using sorted_recency [of c] Cons by auto
  qed
  ultimately have "slot_use y = slot_use kv0" using le y(3) by (metis order_antisym)
  then have "y = kv0" using y(1) \<open>kv0 \<in> set (cache_entries c)\<close> by (rule inj_onD [OF cache_invD(4) [OF assms]])
  then show ?thesis using f y Cons by simp
qed

end
