(* ===== verification/Frame_LRU.thy ===== *)
theory Frame_LRU
  imports Frame_Table
begin

text \<open>
  What the store promises: a list of items, least recently used first, under a byte cap. A
  lookup moves its item to the end, a publication appends and then sheds from the front while
  the sizes exceed the cap. This theory states that specification and proves, operation by
  operation, that the sharded store keeps its invariant and acts as the list does.
\<close>

section \<open>The specification\<close>

record ('p, 'h) cache_item =
  it_time :: time_code
  it_pose :: "'p rig_pose"
  it_bytes :: "64 word"
  it_retained :: "'h option"
  it_provenance :: entry_provenance

type_synonym ('p, 'h) lru = "(frame_key \<times> ('p, 'h) cache_item) list"

definition lru_bytes :: "('p, 'h) lru \<Rightarrow> 64 word" where
  "lru_bytes l = sum_list (map (\<lambda>kv. it_bytes (snd kv)) l)"

fun lru_shed :: "64 word \<Rightarrow> ('p, 'h) lru \<Rightarrow> ('p, 'h) lru" where
  "lru_shed cap [] = []"
| "lru_shed cap (x # l) = (if lru_bytes (x # l) \<le> cap then x # l else lru_shed cap l)"

definition without :: "frame_key \<Rightarrow> (frame_key \<times> 'v) list \<Rightarrow> (frame_key \<times> 'v) list" where
  "without k l = filter (\<lambda>kv. fst kv \<noteq> k) l"

definition lru_alias :: "frame_key \<Rightarrow> time_code \<Rightarrow> ('p, 'h) lru \<Rightarrow> ('p, 'h) lru" where
  "lru_alias k time l = map (\<lambda>(k', i). (k', if k' = k
     then i\<lparr>it_provenance := add_alias (stamp time) (it_provenance i)\<rparr> else i)) l"

text \<open>The item an entry stands for, and the list a store stands for.\<close>

definition item_of :: "('p, 'h) cache_entry \<Rightarrow> ('p, 'h) cache_item" where
  "item_of e = \<lparr> it_time = ce_time e, it_pose = the (ce_pose e), it_bytes = ce_bytes e,
     it_retained = ce_retained e, it_provenance = ce_provenance e \<rparr>"

definition abs_slot :: "('p, 'h) slot \<Rightarrow> frame_key \<times> ('p, 'h) cache_item" where
  "abs_slot kv = (fst kv, item_of (deref (snd kv)))"

definition abs_cache :: "('p, 'h) frame_cache \<Rightarrow> ('p, 'h) lru" where
  "abs_cache c = map abs_slot (recency c)"

definition slot_eviction :: "('p, 'h) slot \<Rightarrow> eviction" where
  "slot_eviction kv = eviction_of (fst kv) (snd kv)"

section \<open>Parts of the state the table does not read\<close>

lemma recency_frame [simp]:
  "recency (c\<lparr>fc_hits := n\<rparr>) = recency c" "recency (c\<lparr>fc_misses := n\<rparr>) = recency c"
  "recency (c\<lparr>fc_published := n\<rparr>) = recency c" "recency (c\<lparr>fc_evictions := n\<rparr>) = recency c"
  "recency (c\<lparr>fc_byteCap := w\<rparr>) = recency c" "recency (c\<lparr>fc_reported := r\<rparr>) = recency c"
  "recency (c\<lparr>fc_callback := b\<rparr>) = recency c"
  by (simp_all add: recency_def cache_entries_def)

lemma cache_inv_frame [simp]:
  "cache_inv (c\<lparr>fc_hits := n\<rparr>) = cache_inv c" "cache_inv (c\<lparr>fc_misses := n\<rparr>) = cache_inv c"
  "cache_inv (c\<lparr>fc_published := n\<rparr>) = cache_inv c" "cache_inv (c\<lparr>fc_evictions := n\<rparr>) = cache_inv c"
  "cache_inv (c\<lparr>fc_byteCap := w\<rparr>) = cache_inv c" "cache_inv (c\<lparr>fc_reported := r\<rparr>) = cache_inv c"
  "cache_inv (c\<lparr>fc_callback := b\<rparr>) = cache_inv c"
  by (simp_all add: cache_inv_def cache_entries_def)

lemma ReportEvictions_update:
  "ReportEvictions ev c = c\<lparr>fc_reported := fc_reported c @ (if ev = [] \<or> \<not> fc_callback c then [] else [ev])\<rparr>"
  by (simp add: ReportEvictions_def)

lemma abs_cache_frame [simp]:
  "abs_cache (c\<lparr>fc_hits := n\<rparr>) = abs_cache c" "abs_cache (c\<lparr>fc_misses := n\<rparr>) = abs_cache c"
  "abs_cache (c\<lparr>fc_published := n\<rparr>) = abs_cache c" "abs_cache (c\<lparr>fc_evictions := n\<rparr>) = abs_cache c"
  "abs_cache (c\<lparr>fc_byteCap := w\<rparr>) = abs_cache c" "abs_cache (c\<lparr>fc_reported := r\<rparr>) = abs_cache c"
  "abs_cache (c\<lparr>fc_callback := b\<rparr>) = abs_cache c"
  by (simp_all add: abs_cache_def)

section \<open>Lists without a key\<close>

lemma without_map: "(\<And>kv. fst (f kv) = fst kv) \<Longrightarrow> without k (map f l) = map f (without k l)"
  by (simp add: without_def filter_map comp_def)

lemma fst_abs_slot [simp]: "fst (abs_slot kv) = fst kv"
  by (simp add: abs_slot_def)

lemma set_without: "set (without k l) = {kv \<in> set l. fst kv \<noteq> k}"
  by (auto simp: without_def)

lemma without_id: "k \<notin> fst ` set l \<Longrightarrow> without k l = l"
  unfolding without_def by (rule filter_True) auto

lemma without_split:
  assumes "(k, e) \<in> set l" "distinct (map fst l)"
  shows "mset l = add_mset (k, e) (mset (without k l))"
proof -
  from assms(1) obtain xs ys where l: "l = xs @ (k, e) # ys" by (meson split_list)
  then have "k \<notin> fst ` set xs" "k \<notin> fst ` set ys" using assms(2) by auto
  then show ?thesis using without_id [of k xs] without_id [of k ys] l by (simp add: without_def)
qed

lemma sorted_without: "sorted (map f l) \<Longrightarrow> sorted (map f (without k l))"
  unfolding without_def by (rule sorted_filter)

lemma map_of_abs_cache:
  assumes "cache_inv c"
  shows "map_of (abs_cache c) k = map_option (\<lambda>e. item_of (deref e)) (shard_look (fc_shards c) k)"
proof (cases "shard_look (fc_shards c) k")
  case None
  then have "k \<notin> fst ` set (abs_cache c)"
    using assms by (simp add: abs_cache_def look_None_iff image_image)
  then show ?thesis using None by (metis map_of_eq_None_iff option.map_disc_iff)
next
  case (Some e)
  then have "(k, item_of (deref e)) \<in> set (abs_cache c)"
    using assms by (force simp: abs_cache_def look_iff abs_slot_def)
  moreover have "distinct (map fst (abs_cache c))"
    using distinct_recency [OF assms] by (simp add: abs_cache_def comp_def)
  ultimately show ?thesis using Some by simp
qed

lemma lru_bytes_abs: "cache_inv c \<Longrightarrow> lru_bytes (abs_cache c) = fc_bytes c"
  by (simp add: lru_bytes_def abs_cache_def bytes_recency comp_def abs_slot_def item_of_def slot_bytes_def
      [abs_def])

section \<open>Removing an entry\<close>

lemma mset_table_without:
  "cache_inv c \<Longrightarrow> mset (shard_entries (shard_erase k (fc_shards c))) = mset (without k (recency c))"
  by (simp add: mset_shard_erase_filter cache_invD(1) without_def cache_entries_def [symmetric])

lemma accounts_without:
  assumes "cache_inv c" "shard_look (fc_shards c) k = Some e"
  shows "fc_entryCount c = Suc (length (without k (recency c)))"
    and "fc_bytes c = ce_bytes (deref e) + sum_list (map slot_bytes (without k (recency c)))"
proof -
  have m: "mset (recency c) = mset ((k, e) # without k (recency c))"
    using assms without_split [of k e "recency c"] by (simp add: look_iff distinct_recency)
  show "fc_entryCount c = Suc (length (without k (recency c)))"
    using mset_eq_length [OF m] cache_invD(5) [OF assms(1)] by simp
  show "fc_bytes c = ce_bytes (deref e) + sum_list (map slot_bytes (without k (recency c)))"
    using sum_list_mset_cong [OF m, of slot_bytes] bytes_recency [OF assms(1)] by (simp add: slot_bytes_def)
qed

text \<open>The parts of the state a change of the table leaves alone.\<close>

definition same_account :: "('p, 'h) frame_cache \<Rightarrow> ('p, 'h) frame_cache \<Rightarrow> bool" where
  "same_account c d \<longleftrightarrow> fc_clock c = fc_clock d \<and> fc_byteCap c = fc_byteCap d \<and> fc_hits c = fc_hits d
     \<and> fc_misses c = fc_misses d \<and> fc_published c = fc_published d
     \<and> fc_callback c = fc_callback d \<and> fc_reported c = fc_reported d"

lemma same_account_refl [simp]: "same_account c c"
  by (simp add: same_account_def)

lemma same_account_trans: "same_account a b \<Longrightarrow> same_account b c \<Longrightarrow> same_account a c"
  by (simp add: same_account_def)

lemma drop_entry_result:
  assumes "cache_inv c" "shard_look (fc_shards c) k = Some e"
  shows "cache_inv (drop_entry k e c) \<and> recency (drop_entry k e c) = without k (recency c)"
    and "same_account (drop_entry k e c) c" "fc_evictions (drop_entry k e c) = fc_evictions c + 1"
proof -
  let ?l = "without k (recency c)"
  show "cache_inv (drop_entry k e c) \<and> recency (drop_entry k e c) = ?l"
  proof (rule cache_invI)
    show "shards_wf (fc_shards (drop_entry k e c))"
      by (simp add: drop_entry_def shard_laws cache_invD(1) [OF assms(1)])
    show "mset ?l = mset (cache_entries (drop_entry k e c))"
      by (simp add: drop_entry_def cache_entries_def mset_table_without [OF assms(1)])
    show "\<not> corrupt (snd kv) \<and> slot_use kv < fc_clock (drop_entry k e c)" if "kv \<in> set ?l" for kv
      using that cache_invD(2,3) [OF assms(1)] by (simp add: set_without drop_entry_def)
    show "inj_on slot_use (set ?l)"
      using cache_invD(4) [OF assms(1)] by (auto simp: set_without intro: inj_on_subset)
    show "sorted (map slot_use ?l)" using sorted_recency by (rule sorted_without)
    show "fc_entryCount (drop_entry k e c) = length ?l"
      by (simp add: drop_entry_def accounts_without [OF assms])
    show "fc_bytes (drop_entry k e c) = sum_list (map slot_bytes ?l)"
      by (simp add: drop_entry_def accounts_without(2) [OF assms])
  qed
  show "same_account (drop_entry k e c) c" "fc_evictions (drop_entry k e c) = fc_evictions c + 1"
    by (simp_all add: drop_entry_def same_account_def)
qed

section \<open>Putting an entry last\<close>

lemma touch_result:
  assumes "cache_inv c" "ce_lastUse en = fc_clock c" "\<not> corrupt (Some en)"
    and "fc_shards d = shard_put k (Some en) (fc_shards c)" "fc_clock d = Suc (fc_clock c)"
    and "fc_entryCount d = Suc (length (without k (recency c)))"
    and "fc_bytes d = ce_bytes en + sum_list (map slot_bytes (without k (recency c)))"
  shows "cache_inv d \<and> recency d = without k (recency c) @ [(k, Some en)]"
proof (rule cache_invI)
  let ?l = "without k (recency c) @ [(k, Some en)]"
  have older: "slot_use kv < fc_clock c" if "kv \<in> set (without k (recency c))" for kv
    using that cache_invD(3) [OF assms(1)] by (simp add: set_without)
  have last: "slot_use (k, Some en) = fc_clock c" by (simp add: slot_use_def deref_def assms(2))
  show "shards_wf (fc_shards d)" by (simp add: assms(4) shard_laws cache_invD(1) [OF assms(1)])
  have "shard_put k (Some en) (fc_shards c) = shard_put k (Some en) (shard_erase k (fc_shards c))"
    by (simp add: shards.put_erase cache_invD(1) [OF assms(1)])
  then show "mset ?l = mset (cache_entries d)"
    by (simp add: cache_entries_def assms(4) mset_shard_put shard_laws mset_table_without [OF assms(1)])
  show "\<not> corrupt (snd kv) \<and> slot_use kv < fc_clock d" if "kv \<in> set ?l" for kv
    using that cache_invD(2) [OF assms(1), of kv] older [of kv] last assms(3,5)
    by (auto simp: set_without)
  show "inj_on slot_use (set ?l)"
    using cache_invD(4) [OF assms(1)] older last by (fastforce simp: set_without inj_on_def)
  show "sorted (map slot_use ?l)"
    using sorted_without [OF sorted_recency, of k c] older last by (auto simp: sorted_append less_imp_le)
  show "fc_entryCount d = length ?l" by (simp add: assms(6))
  show "fc_bytes d = sum_list (map slot_bytes ?l)"
    by (simp add: assms(7) slot_bytes_def deref_def)
qed

lemma abs_snoc:
  "recency d = without k (recency c) @ [(k, Some en)] \<Longrightarrow> abs_cache d = without k (abs_cache c) @ [(k, item_of en)]"
  by (simp add: abs_cache_def without_map) (simp add: abs_slot_def deref_def)

lemma abs_without: "recency d = without k (recency c) \<Longrightarrow> abs_cache d = without k (abs_cache c)"
  by (simp add: abs_cache_def without_map)

end
