(* ===== verification/Frame_Ops.thy ===== *)
theory Frame_Ops
  imports Frame_LRU
begin

text \<open>
  The operations of the frame cache against the recency list: what each does to the invariant,
  to the list and to the reports. The eviction loop removes a prefix of the list, the least one
  after which the sizes fit the cap; a guard of as many passes as there are entries is enough.
\<close>

section \<open>The eviction loop\<close>

lemma recency_hd:
  assumes "cache_inv c" "recency c = kv # rest"
  shows "shard_look (fc_shards c) (fst kv) = Some (snd kv)" "without (fst kv) (recency c) = rest"
proof -
  have "kv \<in> set (cache_entries c)" using assms(2) by (metis list.set_intros(1) set_recency)
  then show "shard_look (fc_shards c) (fst kv) = Some (snd kv)" by (simp add: look_iff assms(1))
  have "fst kv \<notin> fst ` set rest" using distinct_recency [OF assms(1)] assms(2) by simp
  then show "without (fst kv) (recency c) = rest"
    using without_id [of "fst kv" rest] assms(2) by (simp add: without_def)
qed

lemma evict_pass:
  assumes "cache_inv c" "recency c = kv # rest" "\<not> fc_bytes c \<le> cap"
  shows "evict_passes (Suc guard) cap ev c
           = evict_passes guard cap (ev @ [slot_eviction kv]) (drop_entry (fst kv) (snd kv) c)"
  using assms by (simp add: find_victim_recency recency_hd slot_use_def slot_eviction_def)

lemma lru_shed_abs:
  "recency c = kv # rest \<Longrightarrow> \<not> lru_bytes (abs_cache c) \<le> cap \<Longrightarrow>
     lru_shed cap (abs_cache c) = lru_shed cap (map abs_slot rest)"
  by (simp add: abs_cache_def)

lemma evict_passes_result:
  assumes "cache_inv c" "length (recency c) \<le> guard"
  shows "\<exists>d n. evict_passes guard cap ev c
             = ReportEvictions (ev @ map slot_eviction (take n (recency c))) d
           \<and> cache_inv d \<and> recency d = drop n (recency c) \<and> n \<le> length (recency c)
           \<and> abs_cache d = lru_shed cap (abs_cache c) \<and> fc_bytes d \<le> cap
           \<and> same_account d c \<and> fc_evictions d = fc_evictions c + n"
  using assms
proof (induction guard arbitrary: c ev)
  case 0
  then have "recency c = []" by (simp only: le_zero_eq length_0_conv)
  moreover from this have "abs_cache c = []" "fc_bytes c = 0"
    using bytes_recency [OF "0.prems"(1)] by (simp_all add: abs_cache_def)
  ultimately show ?case using 0 by (intro exI [of _ c] exI [of _ 0]) simp
next
  case (Suc guard)
  show ?case
  proof (cases "fc_bytes c \<le> cap")
    case True
    then have "lru_shed cap (abs_cache c) = abs_cache c"
      using lru_bytes_abs [OF Suc.prems(1)] by (cases "abs_cache c") auto
    then show ?thesis using Suc True by (intro exI [of _ c] exI [of _ 0]) simp
  next
    case False
    then obtain kv rest where r: "recency c = kv # rest"
      using bytes_recency [OF Suc.prems(1)] by (cases "recency c") auto
    let ?c = "drop_entry (fst kv) (snd kv) c"
    note dr = drop_entry_result [OF Suc.prems(1) recency_hd(1) [OF Suc.prems(1) r]]
    have rec: "recency ?c = rest" using dr(1) recency_hd(2) [OF Suc.prems(1) r] by simp
    moreover from this have "length (recency ?c) \<le> guard" using Suc.prems(2) r by simp
    ultimately obtain d n where d:
      "evict_passes guard cap (ev @ [slot_eviction kv]) ?c
         = ReportEvictions ((ev @ [slot_eviction kv]) @ map slot_eviction (take n rest)) d"
      "cache_inv d" "recency d = drop n rest" "n \<le> length rest"
      "abs_cache d = lru_shed cap (abs_cache ?c)" "fc_bytes d \<le> cap"
      "same_account d ?c" "fc_evictions d = fc_evictions ?c + n"
      using Suc.IH [of ?c "ev @ [slot_eviction kv]"] dr(1) by auto
    have "lru_shed cap (abs_cache c) = lru_shed cap (abs_cache ?c)"
      using lru_shed_abs [OF r] False lru_bytes_abs [OF Suc.prems(1)] rec by (simp add: abs_cache_def)
    then show ?thesis
      using d dr(2,3) evict_pass [OF Suc.prems(1) r False, of guard ev] r same_account_trans
      by (intro exI [of _ d] exI [of _ "Suc n"]) auto
  qed
qed

lemma EvictUntilUnderCap_result:
  assumes "cache_inv c"
  obtains d n where
    "EvictUntilUnderCap c = ReportEvictions (map slot_eviction (take n (recency c))) d"
    "cache_inv d" "recency d = drop n (recency c)" "n \<le> length (recency c)"
    "abs_cache d = lru_shed (fc_byteCap c) (abs_cache c)" "fc_bytes d \<le> fc_byteCap c"
    "same_account d c" "fc_evictions d = fc_evictions c + n"
proof -
  have "length (recency c) \<le> fc_entryCount c + 16" using cache_invD(5) [OF assms] by simp
  from evict_passes_result [OF assms this, of "fc_byteCap c" "[]"] that show thesis
    unfolding EvictUntilUnderCap_def by auto
qed

section \<open>Lookups and aliases\<close>

lemma Lookup_hit:
  assumes "cache_inv c" "shard_look (fc_shards c) k = Some e"
  shows "fst (Lookup k True c) = Some (the (ce_pose (deref e)), ce_retained (deref e), ce_bytes (deref e))"
    and "cache_inv (snd (Lookup k True c))"
    and "abs_cache (snd (Lookup k True c)) = without k (abs_cache c) @ [(k, item_of (deref e))]"
    and "fc_bytes (snd (Lookup k True c)) = fc_bytes c"
    and "fc_byteCap (snd (Lookup k True c)) = fc_byteCap c"
    and "fc_reported (snd (Lookup k True c)) = fc_reported c"
    and "fc_callback (snd (Lookup k True c)) = fc_callback c"
proof -
  have "\<not> corrupt e" using assms cache_invD(2) [OF assms(1), of "(k, e)"] by (simp add: look_iff)
  then obtain x where x: "e = Some x" "\<not> corrupt (Some x)" by (cases e) (auto simp: corrupt_def)
  define en where "en = x\<lparr>ce_lastUse := fc_clock c\<rparr>"
  define d where "d = c\<lparr>fc_shards := shard_put k (Some en) (fc_shards c), fc_clock := fc_clock c + 1\<rparr>"
  have run: "Lookup k True c = (Some (the (ce_pose x), ce_retained x, ce_bytes x), d\<lparr>fc_hits := fc_hits d + 1\<rparr>)"
    using x assms(2) by (simp add: Lookup_def deref_def en_def d_def)
  have t: "cache_inv d \<and> recency d = without k (recency c) @ [(k, Some en)]"
  proof (rule touch_result [OF assms(1)])
    show "ce_lastUse en = fc_clock c" "fc_clock d = Suc (fc_clock c)"
      "fc_shards d = shard_put k (Some en) (fc_shards c)" by (simp_all add: en_def d_def)
    show "\<not> corrupt (Some en)" using x(2) by (simp add: corrupt_def en_def split: option.splits)
    show "fc_entryCount d = Suc (length (without k (recency c)))"
      using accounts_without(1) [OF assms] by (simp add: d_def)
    show "fc_bytes d = ce_bytes en + sum_list (map slot_bytes (without k (recency c)))"
      using accounts_without(2) [OF assms] x(1) by (simp add: d_def en_def deref_def)
  qed
  show "fst (Lookup k True c) = Some (the (ce_pose (deref e)), ce_retained (deref e), ce_bytes (deref e))"
    by (simp add: run x(1) deref_def)
  show "cache_inv (snd (Lookup k True c))" using t by (simp add: run)
  have "item_of en = item_of (deref e)" by (simp add: item_of_def en_def x(1) deref_def)
  then show "abs_cache (snd (Lookup k True c)) = without k (abs_cache c) @ [(k, item_of (deref e))]"
    using abs_snoc [of d k c en] t by (simp add: run)
  show "fc_bytes (snd (Lookup k True c)) = fc_bytes c" "fc_byteCap (snd (Lookup k True c)) = fc_byteCap c"
    "fc_reported (snd (Lookup k True c)) = fc_reported c"
    "fc_callback (snd (Lookup k True c)) = fc_callback c" by (simp_all add: run d_def)
qed

lemma Lookup_miss:
  "\<not> want \<or> shard_look (fc_shards c) k = None \<Longrightarrow> Lookup k want c = (None, c\<lparr>fc_misses := fc_misses c + 1\<rparr>)"
  by (auto simp: Lookup_def count_miss_def)

lemma LookupProvenance_item:
  assumes "cache_inv c"
  shows "LookupProvenance k want c
           = (if want then map_option it_provenance (map_of (abs_cache c) k) else None)"
proof (cases "shard_look (fc_shards c) k")
  case (Some e)
  have "\<not> corrupt e" using Some cache_invD(2) [OF assms, of "(k, e)"] by (simp add: look_iff assms)
  then show ?thesis using Some
    by (cases e) (simp_all add: LookupProvenance_def map_of_abs_cache assms corrupt_def deref_def item_of_def)
qed (simp add: LookupProvenance_def map_of_abs_cache assms)

lemma lru_alias_id: "k \<notin> fst ` set l \<Longrightarrow> lru_alias k time l = l"
  unfolding lru_alias_def by (rule map_idI) force

lemma NoteProvenanceAlias_result:
  assumes "cache_inv c"
  shows "cache_inv (NoteProvenanceAlias k time c)
       \<and> abs_cache (NoteProvenanceAlias k time c) = lru_alias k time (abs_cache c)
       \<and> same_account (NoteProvenanceAlias k time c) c \<and> fc_bytes (NoteProvenanceAlias k time c) = fc_bytes c"
proof (cases "shard_look (fc_shards c) k")
  case None
  then have "k \<notin> fst ` set (abs_cache c)"
    using assms by (simp add: abs_cache_def look_None_iff image_image)
  then show ?thesis using None assms by (simp add: NoteProvenanceAlias_def lru_alias_id)
next
  case (Some e)
  have mem: "(k, e) \<in> set (recency c)" using Some by (simp add: look_iff assms)
  have "\<not> corrupt e" using mem cache_invD(2) [OF assms, of "(k, e)"] by simp
  then obtain x where x: "e = Some x" "\<not> corrupt (Some x)" by (cases e) (auto simp: corrupt_def)
  define en where "en = x\<lparr>ce_provenance := add_alias (stamp time) (ce_provenance x)\<rparr>"
  define d where "d = c\<lparr>fc_shards := shard_put k (Some en) (fc_shards c)\<rparr>"
  define up where "up = (\<lambda>kv :: ('a, 'b) slot. if fst kv = k then (k, Some en) else kv)"
  have run: "NoteProvenanceAlias k time c = d" using Some x(1) by (simp add: NoteProvenanceAlias_def d_def en_def)
  have only: "e' = e" if "(k, e') \<in> set (recency c)" for e'
    using that mem distinct_recency [OF assms] by (metis eq_key_imp_eq_value)
  have use: "slot_use (up kv) = slot_use kv" "slot_bytes (up kv) = slot_bytes kv" if "kv \<in> set (recency c)" for kv
    using that only [of "snd kv"] x(1)
    by (cases kv, auto simp: up_def slot_use_def slot_bytes_def en_def deref_def)+
  have "cache_inv d \<and> recency d = map up (recency c)"
  proof (rule cache_invI)
    show "shards_wf (fc_shards d)" by (simp add: d_def shard_laws cache_invD(1) [OF assms])
    have "shard_put k (Some en) (fc_shards c) = shard_put k (Some en) (shard_erase k (fc_shards c))"
      by (simp add: shards.put_erase cache_invD(1) [OF assms])
    then have "mset (cache_entries d) = add_mset (k, Some en) (mset (without k (recency c)))"
      by (simp add: cache_entries_def d_def mset_shard_put shard_laws mset_table_without [OF assms])
    moreover have "map up (without k (recency c)) = without k (recency c)"
      by (rule map_idI) (auto simp: up_def set_without)
    then have "image_mset up (mset (without k (recency c))) = mset (without k (recency c))"
      by (metis mset_map)
    moreover have "up (k, e) = (k, Some en)" by (simp add: up_def)
    ultimately show "mset (map up (recency c)) = mset (cache_entries d)"
      using arg_cong [OF without_split [OF mem distinct_recency [OF assms]], of "image_mset up"]
      by (simp only: mset_map image_mset_add_mset)
    show "\<not> corrupt (snd kv) \<and> slot_use kv < fc_clock d" if "kv \<in> set (map up (recency c))" for kv
    proof -
      from that obtain kv0 where kv0: "kv0 \<in> set (recency c)" "kv = up kv0" by auto
      have "\<not> corrupt (Some en)" using x(2) by (simp add: corrupt_def en_def split: option.splits)
      then have "\<not> corrupt (snd kv)" using kv0 cache_invD(2) [OF assms, of kv0] by (auto simp: up_def)
      moreover have "slot_use kv < fc_clock d"
        using kv0 use(1) cache_invD(3) [OF assms, of kv0] by (simp add: d_def)
      ultimately show ?thesis ..
    qed
    show "inj_on slot_use (set (map up (recency c)))"
      using cache_invD(4) [OF assms] use(1) by (auto simp: inj_on_def)
    have "map slot_use (map up (recency c)) = map slot_use (recency c)" using use(1) by simp
    then show "sorted (map slot_use (map up (recency c)))" using sorted_recency by metis
    show "fc_entryCount d = length (map up (recency c))" by (simp add: d_def cache_invD(5) [OF assms])
    have "map slot_bytes (map up (recency c)) = map slot_bytes (recency c)" using use(2) by simp
    moreover have "fc_bytes d = fc_bytes c" by (simp add: d_def)
    ultimately show "fc_bytes d = sum_list (map slot_bytes (map up (recency c)))"
      by (simp only: bytes_recency [OF assms])
  qed
  moreover have "abs_slot (up kv) = (case abs_slot kv of (k', i) \<Rightarrow>
      (k', if k' = k then i\<lparr>it_provenance := add_alias (stamp time) (it_provenance i)\<rparr> else i))"
    if "kv \<in> set (recency c)" for kv
    using that only [of "snd kv"] x(1)
    by (cases kv) (auto simp: up_def abs_slot_def item_of_def en_def deref_def)
  ultimately show ?thesis
    by (simp add: run abs_cache_def lru_alias_def comp_def) (simp add: d_def same_account_def)
qed

end
