(* ===== verification/Frame_Evict.thy ===== *)
theory Frame_Evict
  imports Frame_Ops
begin

text \<open>
  The operations that publish and drop entries, against the recency list: \<open>Publish\<close>, \<open>Evict\<close>,
  \<open>EvictEpoch\<close>, \<open>Clear\<close> and \<open>SetByteCap\<close>.
\<close>

section \<open>Publishing\<close>

text \<open>The tests before anything is stored, and the item a publication stores.\<close>

definition publishable :: "type_sizes \<Rightarrow> 'p rig_pose \<Rightarrow> 64 word \<Rightarrow> 'h option \<Rightarrow> 64 word \<Rightarrow> bool" where
  "publishable z pose retainedBytes retained cap \<longleftrightarrow> rp_valid pose
     \<and> \<not> (0 < retainedBytes \<and> retained = None)
     \<and> FrameCachePoseBytes z pose + retainedBytes \<noteq> 0
     \<and> FrameCachePoseBytes z pose + retainedBytes \<le> cap"

definition published_item ::
  "type_sizes \<Rightarrow> time_code \<Rightarrow> 'p rig_pose \<Rightarrow> 64 word \<Rightarrow> 'h option \<Rightarrow> entry_provenance option \<Rightarrow> ('p, 'h) cache_item" where
  "published_item z time pose retainedBytes retained provenance = \<lparr> it_time = time, it_pose = pose,
     it_bytes = FrameCachePoseBytes z pose + retainedBytes, it_retained = retained,
     it_provenance = first_alias (stamp time) (case provenance of Some p \<Rightarrow> p | None \<Rightarrow> new_provenance) \<rparr>"

lemma Publish_refused:
  "\<not> publishable z pose rb h (fc_byteCap c) \<Longrightarrow> Publish z k time pose rb h pr c = (False, c)"
  by (auto simp: Publish_def publishable_def Let_def not_le)

definition publish_entry ::
  "type_sizes \<Rightarrow> time_code \<Rightarrow> 'p rig_pose \<Rightarrow> 64 word \<Rightarrow> 'h option \<Rightarrow> entry_provenance option \<Rightarrow> nat \<Rightarrow> ('p, 'h) cache_entry" where
  "publish_entry z time pose retainedBytes retained provenance use = \<lparr> ce_time = time, ce_pose = Some pose,
     ce_bytes = FrameCachePoseBytes z pose + retainedBytes, ce_retained = retained,
     ce_provenance = first_alias (stamp time) (case provenance of Some p \<Rightarrow> p | None \<Rightarrow> new_provenance),
     ce_lastUse = use \<rparr>"

lemma Publish_accepted:
  "publishable z pose rb h (fc_byteCap c) \<Longrightarrow> Publish z k time pose rb h pr c
     = (True, EvictUntilUnderCap (link_entry k (publish_entry z time pose rb h pr (fc_clock c))
                                    (c\<lparr>fc_clock := fc_clock c + 1\<rparr>)))"
  by (auto simp: Publish_def publishable_def publish_entry_def Let_def)

lemma link_entry_result:
  assumes "cache_inv c" "ce_lastUse en = fc_clock c" "\<not> corrupt (Some en)"
  shows "cache_inv (link_entry k en (c\<lparr>fc_clock := fc_clock c + 1\<rparr>))
       \<and> recency (link_entry k en (c\<lparr>fc_clock := fc_clock c + 1\<rparr>)) = without k (recency c) @ [(k, Some en)]"
proof -
  let ?c = "c\<lparr>fc_clock := fc_clock c + 1\<rparr>"
  show ?thesis
  proof (cases "shard_look (fc_shards c) k")
    case (Some old)
    define d where "d = c\<lparr>fc_clock := fc_clock c + 1, fc_bytes := fc_bytes c - ce_bytes (deref old) + ce_bytes en,
        fc_shards := shard_put k (Some en) (fc_shards c)\<rparr>"
    have "cache_inv d \<and> recency d = without k (recency c) @ [(k, Some en)]"
      using assms by (rule touch_result)
        (simp_all add: d_def accounts_without(1) [OF assms(1) Some] accounts_without(2) [OF assms(1) Some])
    moreover have "link_entry k en ?c = d\<lparr>fc_published := fc_published d + 1\<rparr>"
      using Some by (simp add: link_entry_def d_def)
    ultimately show ?thesis by simp
  next
    case None
    then have id: "without k (recency c) = recency c"
      using look_None_iff [OF assms(1), of k] by (intro without_id) simp
    define d where "d = c\<lparr>fc_clock := fc_clock c + 1, fc_shards := shard_put k (Some en) (fc_shards c),
        fc_entryCount := fc_entryCount c + 1, fc_bytes := fc_bytes c + ce_bytes en\<rparr>"
    have "cache_inv d \<and> recency d = without k (recency c) @ [(k, Some en)]"
      using assms by (rule touch_result)
        (simp_all add: d_def id cache_invD(5) [OF assms(1)] bytes_recency [OF assms(1)])
    moreover have "link_entry k en ?c = d\<lparr>fc_published := fc_published d + 1\<rparr>"
      using None by (simp add: link_entry_def d_def)
    ultimately show ?thesis by simp
  qed
qed

lemma link_entry_frame:
  "fc_byteCap (link_entry k en c) = fc_byteCap c" "fc_reported (link_entry k en c) = fc_reported c"
  "fc_callback (link_entry k en c) = fc_callback c" "fc_clock (link_entry k en c) = fc_clock c"
  "fc_published (link_entry k en c) = fc_published c + 1" "fc_hits (link_entry k en c) = fc_hits c"
  "fc_misses (link_entry k en c) = fc_misses c" "fc_evictions (link_entry k en c) = fc_evictions c"
  by (simp_all add: link_entry_def Let_def split: option.splits)

text \<open>What the eviction loop reports, in terms of the list: the items it shed.\<close>

definition item_eviction :: "frame_key \<times> ('p, 'h) cache_item \<Rightarrow> eviction" where
  "item_eviction kv = \<lparr>ev_key = fst kv, ev_time = it_time (snd kv)\<rparr>"

lemma slot_eviction_abs: "slot_eviction kv = item_eviction (abs_slot kv)"
  by (simp add: slot_eviction_def eviction_of_def item_eviction_def abs_slot_def item_of_def)

definition shed_items :: "64 word \<Rightarrow> ('p, 'h) lru \<Rightarrow> ('p, 'h) lru" where
  "shed_items cap l = take (length l - length (lru_shed cap l)) l"

text \<open>One batch is reported, and only when something was dropped and a callback is set.\<close>

definition report_batch :: "bool \<Rightarrow> eviction list \<Rightarrow> eviction list list" where
  "report_batch callback ev = (if ev = [] \<or> \<not> callback then [] else [ev])"

lemma ReportEvictions_batch:
  "ReportEvictions ev c = c\<lparr>fc_reported := fc_reported c @ report_batch (fc_callback c) ev\<rparr>"
  by (simp add: ReportEvictions_update report_batch_def)

lemma evict_result:
  assumes "cache_inv c"
  shows "cache_inv (EvictUntilUnderCap c)"
    and "abs_cache (EvictUntilUnderCap c) = lru_shed (fc_byteCap c) (abs_cache c)"
    and "fc_bytes (EvictUntilUnderCap c) \<le> fc_byteCap c"
    and "fc_byteCap (EvictUntilUnderCap c) = fc_byteCap c"
    and "fc_callback (EvictUntilUnderCap c) = fc_callback c"
    and "fc_reported (EvictUntilUnderCap c) = fc_reported c
          @ report_batch (fc_callback c) (map item_eviction (shed_items (fc_byteCap c) (abs_cache c)))"
    and "fc_published (EvictUntilUnderCap c) = fc_published c"
    and "fc_evictions (EvictUntilUnderCap c) + fc_entryCount (EvictUntilUnderCap c) = fc_evictions c + fc_entryCount c"
proof -
  from EvictUntilUnderCap_result [OF assms] obtain d n where d:
    "EvictUntilUnderCap c = ReportEvictions (map slot_eviction (take n (recency c))) d"
    "cache_inv d" "recency d = drop n (recency c)" "n \<le> length (recency c)"
    "abs_cache d = lru_shed (fc_byteCap c) (abs_cache c)" "fc_bytes d \<le> fc_byteCap c"
    "same_account d c" "fc_evictions d = fc_evictions c + n" by metis
  have len: "length (lru_shed (fc_byteCap c) (abs_cache c)) = length (abs_cache c) - n"
    using d(3,5) by (metis abs_cache_def length_drop length_map)
  have "n \<le> length (abs_cache c)" using d(4) by (simp add: abs_cache_def)
  then have n: "length (abs_cache c) - length (lru_shed (fc_byteCap c) (abs_cache c)) = n"
    using len by simp
  have ev: "map slot_eviction (take n (recency c)) = map item_eviction (shed_items (fc_byteCap c) (abs_cache c))"
    unfolding shed_items_def n by (simp add: abs_cache_def take_map slot_eviction_abs comp_def)
  show "cache_inv (EvictUntilUnderCap c)" using d(2) by (simp add: d(1) ReportEvictions_batch)
  show "abs_cache (EvictUntilUnderCap c) = lru_shed (fc_byteCap c) (abs_cache c)"
    using d(5) by (simp add: d(1) ReportEvictions_batch)
  show "fc_bytes (EvictUntilUnderCap c) \<le> fc_byteCap c" using d(6) by (simp add: d(1) ReportEvictions_batch)
  show "fc_byteCap (EvictUntilUnderCap c) = fc_byteCap c" "fc_callback (EvictUntilUnderCap c) = fc_callback c"
    "fc_published (EvictUntilUnderCap c) = fc_published c"
    using d(7) by (simp_all add: d(1) ReportEvictions_batch same_account_def)
  show "fc_reported (EvictUntilUnderCap c) = fc_reported c
          @ report_batch (fc_callback c) (map item_eviction (shed_items (fc_byteCap c) (abs_cache c)))"
    using d(7) unfolding d(1) ev ReportEvictions_batch by (simp add: same_account_def)
  have "length (recency d) = length (recency c) - n" using d(3) by (simp only: length_drop)
  then have "fc_entryCount d + n = fc_entryCount c"
    using cache_invD(5) [OF d(2)] cache_invD(5) [OF assms] d(4) by simp
  then show "fc_evictions (EvictUntilUnderCap c) + fc_entryCount (EvictUntilUnderCap c) = fc_evictions c + fc_entryCount c"
    using d(8) by (simp add: d(1) ReportEvictions_batch)
qed

lemma Publish_result:
  fixes c :: "('p, 'h) frame_cache" and k :: frame_key and time :: time_code and pr :: "entry_provenance option"
  assumes "cache_inv c" "publishable z pose rb h (fc_byteCap c)"
  defines "l \<equiv> without k (abs_cache c) @ [(k, published_item z time pose rb h pr)]"
    and "c' \<equiv> snd (Publish z k time pose rb h pr c)"
  shows "cache_inv c'" "abs_cache c' = lru_shed (fc_byteCap c) l" "fc_bytes c' \<le> fc_byteCap c"
    and "fc_byteCap c' = fc_byteCap c" "fc_callback c' = fc_callback c"
    and "fc_reported c' = fc_reported c
          @ report_batch (fc_callback c) (map item_eviction (shed_items (fc_byteCap c) l))"
proof -
  define en where "en = publish_entry z time pose rb h pr (fc_clock c)"
  define d where "d = link_entry k en (c\<lparr>fc_clock := fc_clock c + 1\<rparr>)"
  have "ce_lastUse en = fc_clock c" by (simp add: en_def publish_entry_def)
  moreover have "\<not> corrupt (Some en)"
    using assms(2) by (simp add: corrupt_def en_def publish_entry_def publishable_def)
  ultimately have t: "cache_inv d \<and> recency d = without k (recency c) @ [(k, Some en)]"
    unfolding d_def by (rule link_entry_result [OF assms(1)])
  have "item_of en = published_item z time pose rb h pr"
    by (simp add: item_of_def en_def publish_entry_def published_item_def)
  then have a: "abs_cache d = l" using abs_snoc [of d k c en] t by (simp add: l_def)
  have c': "c' = EvictUntilUnderCap d"
    using Publish_accepted [OF assms(2)] by (simp add: c'_def d_def en_def)
  have fr: "fc_byteCap d = fc_byteCap c" "fc_callback d = fc_callback c" "fc_reported d = fc_reported c"
    by (simp_all add: d_def link_entry_frame)
  note ev = evict_result [OF conjunct1 [OF t]]
  show "cache_inv c'" "abs_cache c' = lru_shed (fc_byteCap c) l" "fc_bytes c' \<le> fc_byteCap c"
    "fc_byteCap c' = fc_byteCap c" "fc_callback c' = fc_callback c"
    using ev(1-5) by (simp_all add: c' a fr)
  show "fc_reported c' = fc_reported c
          @ report_batch (fc_callback c) (map item_eviction (shed_items (fc_byteCap c) l))"
    using ev(6) by (simp add: c' a fr)
qed

lemma SetByteCap_result:
  assumes "cache_inv c"
  shows "cache_inv (SetByteCap b c)" "abs_cache (SetByteCap b c) = lru_shed b (abs_cache c)"
    and "fc_bytes (SetByteCap b c) \<le> b" "fc_byteCap (SetByteCap b c) = b"
    and "fc_callback (SetByteCap b c) = fc_callback c"
    and "fc_reported (SetByteCap b c) = fc_reported c
          @ report_batch (fc_callback c) (map item_eviction (shed_items b (abs_cache c)))"
  using evict_result [of "c\<lparr>fc_byteCap := b\<rparr>"] assms by (simp_all add: SetByteCap_def)

section \<open>Dropping entries\<close>

lemma Evict_result:
  assumes "cache_inv c"
  shows "fst (Evict k c) \<longleftrightarrow> map_of (abs_cache c) k \<noteq> None"
    and "cache_inv (snd (Evict k c))" "abs_cache (snd (Evict k c)) = without k (abs_cache c)"
    and "fc_byteCap (snd (Evict k c)) = fc_byteCap c" "fc_callback (snd (Evict k c)) = fc_callback c"
    and "fc_reported (snd (Evict k c)) = fc_reported c @ report_batch (fc_callback c)
           (case map_of (abs_cache c) k of None \<Rightarrow> [] | Some i \<Rightarrow> [item_eviction (k, i)])"
proof -
  have "fst (Evict k c) = (map_of (abs_cache c) k \<noteq> None)
      \<and> cache_inv (snd (Evict k c)) \<and> abs_cache (snd (Evict k c)) = without k (abs_cache c)
      \<and> fc_byteCap (snd (Evict k c)) = fc_byteCap c \<and> fc_callback (snd (Evict k c)) = fc_callback c
      \<and> fc_reported (snd (Evict k c)) = fc_reported c @ report_batch (fc_callback c)
           (case map_of (abs_cache c) k of None \<Rightarrow> [] | Some i \<Rightarrow> [item_eviction (k, i)])"
  proof (cases "shard_look (fc_shards c) k")
    case None
    then have "without k (abs_cache c) = abs_cache c"
      using look_None_iff [OF assms, of k] by (intro without_id) (simp add: abs_cache_def image_image)
    then show ?thesis using None assms by (simp add: Evict_def map_of_abs_cache report_batch_def)
  next
    case (Some e)
    note dr = drop_entry_result [OF assms Some]
    have "eviction_of k e = item_eviction (k, item_of (deref e))"
      by (simp add: eviction_of_def item_eviction_def item_of_def)
    then show ?thesis
      using Some assms dr abs_without [of "drop_entry k e c" k c]
      by (simp add: Evict_def map_of_abs_cache ReportEvictions_batch same_account_def)
  qed
  then show "fst (Evict k c) \<longleftrightarrow> map_of (abs_cache c) k \<noteq> None"
    "cache_inv (snd (Evict k c))" "abs_cache (snd (Evict k c)) = without k (abs_cache c)"
    "fc_byteCap (snd (Evict k c)) = fc_byteCap c" "fc_callback (snd (Evict k c)) = fc_callback c"
    "fc_reported (snd (Evict k c)) = fc_reported c @ report_batch (fc_callback c)
           (case map_of (abs_cache c) k of None \<Rightarrow> [] | Some i \<Rightarrow> [item_eviction (k, i)])"
    by blast+
qed

end
