(* ===== verification/Frame_Bulk.thy ===== *)
theory Frame_Bulk
  imports Frame_Evict
begin

text \<open>
  \<open>EvictEpoch\<close> and \<open>Clear\<close>, which walk the shards one after another: after some shards have been
  walked, exactly the entries of those shards that were to go are gone, and the report lists
  each of them once.
\<close>

section \<open>The entries of one shard\<close>

lemma concat_single: "distinct js \<Longrightarrow> concat (map (\<lambda>j. if j = i then g j else []) js) = (if i \<in> set js then g i else [])"
  by (induction js) auto

lemma shard_own: "shards_wf t \<Longrightarrow> kv \<in> set (t i) \<Longrightarrow> shard_of (fst kv) = i"
  unfolding shards_wf_def by (metis image_eqI map_of_eq_None_iff)

lemma shard_filter:
  assumes "shards_wf t"
  shows "filter (\<lambda>kv. shard_of (fst kv) = i) (shard_entries t) = t i"
proof -
  have "filter (\<lambda>kv. shard_of (fst kv) = i) (t j) = (if j = i then t j else [])" for j
    using shard_own [OF assms] by (auto simp: filter_id_conv filter_empty_conv)
  then have "filter (\<lambda>kv. shard_of (fst kv) = i) (shard_entries t)
      = concat (map (\<lambda>j. if j = i then t j else []) shard_ids)"
    by (simp add: shard_entries_def filter_concat comp_def)
  then show ?thesis by (simp add: concat_single shard_ids_all)
qed

lemma set_shard: "cache_inv c \<Longrightarrow> set (fc_shards c i) = {kv \<in> set (recency c). shard_of (fst kv) = i}"
proof -
  assume "cache_inv c"
  from arg_cong [OF shard_filter [OF cache_invD(1) [OF this]], of set i] show ?thesis
    by (auto simp: cache_entries_def)
qed

lemma mset_shard: "cache_inv c \<Longrightarrow> mset (fc_shards c i) = filter_mset (\<lambda>kv. shard_of (fst kv) = i) (mset (recency c))"
proof -
  assume "cache_inv c"
  from arg_cong [OF shard_filter [OF cache_invD(1) [OF this]], of mset i] show ?thesis
    by (simp add: cache_entries_def)
qed

lemma distinct_shard: "cache_inv c \<Longrightarrow> distinct (map fst (fc_shards c i))"
  using cache_invD(1) [of c] by (simp add: shards_wf_def omap_wf_def)

section \<open>Evicting an epoch\<close>

lemma epoch_step_cases:
  "epochDigest (fst kv) \<noteq> ep \<Longrightarrow> epoch_step ep s kv = s"
  "epochDigest (fst kv) = ep \<Longrightarrow> epoch_step ep (ev, c) kv = (ev @ [slot_eviction kv], drop_entry (fst kv) (snd kv) c)"
  by (simp_all add: epoch_step_def slot_eviction_def)

lemma epoch_steps_result:
  assumes "cache_inv c" "set kvs \<subseteq> set (recency c)" "distinct (map fst kvs)"
  shows "\<exists>d. foldl (epoch_step ep) (ev, c) kvs
             = (ev @ map slot_eviction (filter (\<lambda>kv. epochDigest (fst kv) = ep) kvs), d)
           \<and> cache_inv d \<and> same_account d c
           \<and> recency d = filter (\<lambda>kv. \<not> (epochDigest (fst kv) = ep \<and> fst kv \<in> fst ` set kvs)) (recency c)"
  using assms
proof (induction kvs arbitrary: c ev)
  case Nil
  then show ?case by (intro exI [of _ c]) simp
next
  case (Cons kv kvs)
  show ?case
  proof (cases "epochDigest (fst kv) = ep")
    case False
    from Cons have "set kvs \<subseteq> set (recency c)" "distinct (map fst kvs)" by auto
    then obtain d where d: "foldl (epoch_step ep) (ev, c) kvs
             = (ev @ map slot_eviction (filter (\<lambda>kv. epochDigest (fst kv) = ep) kvs), d)"
      "cache_inv d" "same_account d c"
      "recency d = filter (\<lambda>kv. \<not> (epochDigest (fst kv) = ep \<and> fst kv \<in> fst ` set kvs)) (recency c)"
      using Cons.IH [OF Cons.prems(1)] by blast
    have "recency d = filter (\<lambda>x. \<not> (epochDigest (fst x) = ep \<and> fst x \<in> fst ` set (kv # kvs))) (recency c)"
      unfolding d(4) by (rule filter_cong) (use False in auto)
    then show ?thesis using d False by (intro exI [of _ d]) (simp add: epoch_step_cases)
  next
    case True
    have look: "shard_look (fc_shards c) (fst kv) = Some (snd kv)"
      using Cons.prems(1,2) by (simp add: look_iff)
    let ?c = "drop_entry (fst kv) (snd kv) c"
    note dr = drop_entry_result [OF Cons.prems(1) look]
    have "set kvs \<subseteq> set (recency ?c)" "distinct (map fst kvs)"
      using Cons.prems dr(1) by (auto simp: set_without rev_image_eqI)
    then obtain d where d: "foldl (epoch_step ep) (ev @ [slot_eviction kv], ?c) kvs
             = ((ev @ [slot_eviction kv]) @ map slot_eviction (filter (\<lambda>kv. epochDigest (fst kv) = ep) kvs), d)"
      "cache_inv d" "same_account d ?c"
      "recency d = filter (\<lambda>kv. \<not> (epochDigest (fst kv) = ep \<and> fst kv \<in> fst ` set kvs)) (recency ?c)"
      using Cons.IH [of ?c] dr(1) by blast
    have "recency d = filter (\<lambda>x. \<not> (epochDigest (fst x) = ep \<and> fst x \<in> fst ` set (kv # kvs))) (recency c)"
      unfolding d(4) conjunct2 [OF dr(1)] without_def filter_filter
      by (rule filter_cong) (use True in auto)
    then show ?thesis using d(1,2) same_account_trans [OF d(3) dr(2)] True
      by (intro exI [of _ d]) (simp add: epoch_step_cases)
  qed
qed

definition epoch_walked :: "64 word \<Rightarrow> 4 word set \<Rightarrow> ('p, 'h) slot \<Rightarrow> bool" where
  "epoch_walked ep is kv \<longleftrightarrow> epochDigest (fst kv) = ep \<and> shard_of (fst kv) \<in> is"

lemma epoch_walked_UNIV: "epoch_walked ep UNIV = (\<lambda>kv. epochDigest (fst kv) = ep)"
  by (simp add: epoch_walked_def fun_eq_iff)

lemma evict_epoch_shards_result:
  assumes "cache_inv c" "distinct is"
  shows "\<exists>ev' d. foldl (evict_epoch_shard ep) (ev, c) is = (ev @ ev', d)
           \<and> cache_inv d \<and> same_account d c
           \<and> recency d = filter (\<lambda>kv. \<not> epoch_walked ep (set is) kv) (recency c)
           \<and> mset ev' = image_mset slot_eviction (filter_mset (epoch_walked ep (set is)) (mset (recency c)))"
  using assms
proof (induction "is" arbitrary: c ev)
  case Nil
  then show ?case by (intro exI [of _ "[]"] exI [of _ c]) (simp add: epoch_walked_def)
next
  case (Cons i "is")
  have "set (fc_shards c i) \<subseteq> set (recency c)" using set_shard [OF Cons.prems(1)] by blast
  from epoch_steps_result [OF Cons.prems(1) this distinct_shard [OF Cons.prems(1)], of ep ev] obtain c1 where c1:
    "evict_epoch_shard ep (ev, c) i
       = (ev @ map slot_eviction (filter (\<lambda>kv. epochDigest (fst kv) = ep) (fc_shards c i)), c1)"
    "cache_inv c1" "same_account c1 c"
    "recency c1 = filter (\<lambda>kv. \<not> (epochDigest (fst kv) = ep \<and> fst kv \<in> fst ` set (fc_shards c i))) (recency c)"
    unfolding evict_epoch_shard_def by auto
  let ?e = "map slot_eviction (filter (\<lambda>kv. epochDigest (fst kv) = ep) (fc_shards c i))"
  have r1: "recency c1 = filter (\<lambda>kv. \<not> epoch_walked ep {i} kv) (recency c)"
    unfolding c1(4) by (rule filter_cong) (auto simp: epoch_walked_def set_shard [OF Cons.prems(1)])
  have "mset ?e = image_mset slot_eviction (filter_mset (\<lambda>kv. epochDigest (fst kv) = ep) (mset (fc_shards c i)))"
    by simp
  then have e1: "mset ?e = image_mset slot_eviction (filter_mset (epoch_walked ep {i}) (mset (recency c)))"
    unfolding mset_shard [OF Cons.prems(1)] filter_filter_mset epoch_walked_def
    by (simp add: conj_commute)
  from Cons.IH [OF c1(2), of "ev @ ?e"] Cons.prems(2) obtain ev' d where d:
    "foldl (evict_epoch_shard ep) (ev @ ?e, c1) is = ((ev @ ?e) @ ev', d)" "cache_inv d" "same_account d c1"
    "recency d = filter (\<lambda>kv. \<not> epoch_walked ep (set is) kv) (recency c1)"
    "mset ev' = image_mset slot_eviction (filter_mset (epoch_walked ep (set is)) (mset (recency c1)))" by auto
  have r: "recency d = filter (\<lambda>kv. \<not> epoch_walked ep (set (i # is)) kv) (recency c)"
    unfolding d(4) r1 filter_filter by (rule filter_cong) (auto simp: epoch_walked_def)
  have split: "filter_mset (epoch_walked ep (set (i # is))) (mset (recency c))
      = filter_mset (epoch_walked ep {i}) (mset (recency c))
        + filter_mset (epoch_walked ep (set is)) (mset (recency c1))"
    (is "?a = ?b + ?c")
  proof -
    have c: "?c = filter_mset (\<lambda>kv. epoch_walked ep (set is) kv) (mset (recency c))"
      unfolding r1 mset_filter filter_filter_mset using Cons.prems(2)
      by (intro filter_mset_cong) (auto simp: epoch_walked_def)
    have "filter_mset (\<lambda>kv. epoch_walked ep {i} kv) ?a = ?b"
      unfolding filter_filter_mset by (rule filter_mset_cong) (auto simp: epoch_walked_def)
    moreover have "filter_mset (\<lambda>kv. \<not> epoch_walked ep {i} kv) ?a = ?c"
      unfolding c filter_filter_mset using Cons.prems(2)
      by (intro filter_mset_cong) (auto simp: epoch_walked_def)
    ultimately show ?thesis by (metis multiset_partition)
  qed
  have "mset (?e @ ev') = image_mset slot_eviction ?a"
    unfolding split image_mset_union by (simp only: mset_append e1 d(5))
  then show ?case using d r c1(1) same_account_trans [OF d(3) c1(3)]
    by (intro exI [of _ "?e @ ev'"] exI [of _ d]) simp
qed

lemma abs_filter:
  "recency d = filter (\<lambda>kv. P (fst kv)) (recency c) \<Longrightarrow> abs_cache d = filter (\<lambda>kv. P (fst kv)) (abs_cache c)"
  by (simp add: abs_cache_def filter_map comp_def)

lemma EvictEpoch_result:
  fixes c :: "('p, 'h) frame_cache" and ep :: "64 word"
  assumes "cache_inv c"
  defines "gone \<equiv> filter (\<lambda>kv. epochDigest (fst kv) = ep) (abs_cache c)" and "c' \<equiv> snd (EvictEpoch ep c)"
  shows "fst (EvictEpoch ep c) = length gone" "cache_inv c'"
    and "abs_cache c' = filter (\<lambda>kv. epochDigest (fst kv) \<noteq> ep) (abs_cache c)"
    and "fc_byteCap c' = fc_byteCap c" "fc_callback c' = fc_callback c"
    and "\<exists>ev. fc_reported c' = fc_reported c @ report_batch (fc_callback c) ev
           \<and> mset ev = image_mset item_eviction (mset gone)"
proof -
  from evict_epoch_shards_result [OF assms(1) shard_ids_all(2), of ep "[]"] obtain ev d where d:
    "foldl (evict_epoch_shard ep) ([], c) shard_ids = (ev, d)" "cache_inv d" "same_account d c"
    "recency d = filter (\<lambda>kv. epochDigest (fst kv) \<noteq> ep) (recency c)"
    "mset ev = image_mset slot_eviction (filter_mset (\<lambda>kv. epochDigest (fst kv) = ep) (mset (recency c)))"
    by (auto simp: epoch_walked_UNIV shard_ids_all)
  have run: "EvictEpoch ep c = (length ev, ReportEvictions ev d)" by (simp add: EvictEpoch_def d(1))
  have ev: "mset ev = image_mset item_eviction (mset gone)"
  proof -
    have "image_mset item_eviction (mset gone)
        = mset (map slot_eviction (filter (\<lambda>kv. epochDigest (fst kv) = ep) (recency c)))"
      by (simp add: gone_def abs_cache_def filter_map comp_def slot_eviction_abs [abs_def] image_mset.compositionality
          del: mset_filter)
    then show ?thesis unfolding d(5) by (simp only: mset_map mset_filter)
  qed
  show "fst (EvictEpoch ep c) = length gone" using arg_cong [OF ev, of size] by (simp add: run)
  show "cache_inv c'" "abs_cache c' = filter (\<lambda>kv. epochDigest (fst kv) \<noteq> ep) (abs_cache c)"
    using d(2) abs_filter [OF d(4)] by (simp_all add: c'_def run ReportEvictions_batch)
  show "fc_byteCap c' = fc_byteCap c" "fc_callback c' = fc_callback c"
    using d(3) by (simp_all add: c'_def run ReportEvictions_batch same_account_def)
  show "\<exists>ev. fc_reported c' = fc_reported c @ report_batch (fc_callback c) ev
           \<and> mset ev = image_mset item_eviction (mset gone)"
    using ev d(3) by (intro exI [of _ ev]) (simp add: c'_def run ReportEvictions_batch same_account_def)
qed

section \<open>Clearing\<close>

lemma clear_shard_result:
  assumes "cache_inv c"
  shows "\<exists>d. clear_shard (ev, c) i = (ev @ map slot_eviction (fc_shards c i), d)
           \<and> cache_inv d \<and> same_account d c
           \<and> recency d = filter (\<lambda>kv. shard_of (fst kv) \<noteq> i) (recency c)"
proof -
  let ?k = "fc_shards c i"
  define d where "d = c\<lparr>fc_bytes := fc_bytes c - sum_list (map slot_bytes ?k),
      fc_entryCount := fc_entryCount c - length ?k, fc_shards := (fc_shards c)(i := [])\<rparr>"
  let ?l = "filter (\<lambda>kv. shard_of (fst kv) \<noteq> i) (recency c)"
  have run: "clear_shard (ev, c) i = (ev @ map slot_eviction ?k, d)"
    by (simp add: clear_shard_def Let_def d_def slot_eviction_def [abs_def] slot_bytes_def [abs_def])
  have part: "mset (recency c) = mset (?k @ ?l)"
    unfolding mset_append mset_shard [OF assms] mset_filter by (rule multiset_partition)
  have "cache_inv d \<and> recency d = ?l"
  proof (rule cache_invI)
    show "shards_wf (fc_shards d)" using cache_invD(1) [OF assms] by (simp add: shards_wf_def d_def)
    have "mset (shard_entries ((fc_shards c)(i := []))) + mset ?k = mset (recency c)"
      using mset_shard_update [of "fc_shards c" i "[]"] by (simp add: cache_entries_def)
    moreover have "cache_entries d = shard_entries ((fc_shards c)(i := []))"
      by (simp add: cache_entries_def d_def)
    ultimately have "mset (cache_entries d) + mset ?k = mset ?l + mset ?k"
      unfolding part mset_append by (simp only: add.commute)
    then show "mset ?l = mset (cache_entries d)" by (simp only: add_right_cancel)
    show "\<not> corrupt (snd kv) \<and> slot_use kv < fc_clock d" if "kv \<in> set ?l" for kv
      using that cache_invD(2,3) [OF assms, of kv] by (simp add: d_def)
    show "inj_on slot_use (set ?l)"
      using cache_invD(4) [OF assms] by (auto intro: inj_on_subset)
    show "sorted (map slot_use ?l)" using sorted_recency by (rule sorted_filter)
    show "fc_entryCount d = length ?l"
      using mset_eq_length [OF part] by (simp add: d_def cache_invD(5) [OF assms])
    show "fc_bytes d = sum_list (map slot_bytes ?l)"
      using sum_list_mset_cong [OF part, of slot_bytes] by (simp add: d_def bytes_recency [OF assms])
  qed
  then show ?thesis using run by (intro exI [of _ d]) (simp add: d_def same_account_def)
qed

lemma clear_shards_result:
  assumes "cache_inv c" "distinct is"
  shows "\<exists>ev' d. foldl clear_shard (ev, c) is = (ev @ ev', d)
           \<and> cache_inv d \<and> same_account d c
           \<and> recency d = filter (\<lambda>kv. shard_of (fst kv) \<notin> set is) (recency c)
           \<and> mset ev' = image_mset slot_eviction (filter_mset (\<lambda>kv. shard_of (fst kv) \<in> set is) (mset (recency c)))"
  using assms
proof (induction "is" arbitrary: c ev)
  case Nil
  then show ?case by (intro exI [of _ "[]"] exI [of _ c]) simp
next
  case (Cons i "is")
  let ?e = "map slot_eviction (fc_shards c i)"
  from clear_shard_result [OF Cons.prems(1), of ev i] obtain c1 where c1:
    "clear_shard (ev, c) i = (ev @ ?e, c1)" "cache_inv c1" "same_account c1 c"
    "recency c1 = filter (\<lambda>kv. shard_of (fst kv) \<noteq> i) (recency c)" by blast
  have e1: "mset ?e = image_mset slot_eviction (filter_mset (\<lambda>kv. shard_of (fst kv) = i) (mset (recency c)))"
    by (simp only: mset_map mset_shard [OF Cons.prems(1)])
  from Cons.IH [OF c1(2), of "ev @ ?e"] Cons.prems(2) obtain ev' d where d:
    "foldl clear_shard (ev @ ?e, c1) is = ((ev @ ?e) @ ev', d)" "cache_inv d" "same_account d c1"
    "recency d = filter (\<lambda>kv. shard_of (fst kv) \<notin> set is) (recency c1)"
    "mset ev' = image_mset slot_eviction (filter_mset (\<lambda>kv. shard_of (fst kv) \<in> set is) (mset (recency c1)))" by auto
  have r: "recency d = filter (\<lambda>kv. shard_of (fst kv) \<notin> set (i # is)) (recency c)"
    unfolding d(4) c1(4) filter_filter by (rule filter_cong) auto
  let ?a = "filter_mset (\<lambda>kv. shard_of (fst kv) \<in> set (i # is)) (mset (recency c))"
  have "filter_mset (\<lambda>kv. shard_of (fst kv) = i) ?a = filter_mset (\<lambda>kv. shard_of (fst kv) = i) (mset (recency c))"
    unfolding filter_filter_mset by (rule filter_mset_cong) auto
  moreover have "filter_mset (\<lambda>kv. shard_of (fst kv) \<noteq> i) ?a
      = filter_mset (\<lambda>kv. shard_of (fst kv) \<in> set is) (mset (recency c1))"
    unfolding c1(4) mset_filter filter_filter_mset using Cons.prems(2) by (intro filter_mset_cong) auto
  ultimately have "mset (?e @ ev') = image_mset slot_eviction ?a"
    by (metis mset_append e1 d(5) image_mset_union multiset_partition)
  then show ?case using d r c1(1) same_account_trans [OF d(3) c1(3)]
    by (intro exI [of _ "?e @ ev'"] exI [of _ d]) simp
qed

lemma Clear_result:
  assumes "cache_inv c"
  shows "cache_inv (Clear c)" "abs_cache (Clear c) = []"
    and "fc_byteCap (Clear c) = fc_byteCap c" "fc_callback (Clear c) = fc_callback c"
    and "\<exists>ev. fc_reported (Clear c) = fc_reported c @ report_batch (fc_callback c) ev
           \<and> mset ev = image_mset item_eviction (mset (abs_cache c))"
proof -
  from clear_shards_result [OF assms shard_ids_all(2), of "[]"] obtain ev d where d:
    "foldl clear_shard ([], c) shard_ids = (ev, d)" "cache_inv d" "same_account d c" "recency d = []"
    "mset ev = image_mset slot_eviction (mset (recency c))"
    by (auto simp: shard_ids_all)
  have run: "Clear c = ReportEvictions ev (d\<lparr>fc_hits := 0, fc_misses := 0, fc_published := 0, fc_evictions := 0\<rparr>)"
    by (simp add: Clear_def d(1))
  show "cache_inv (Clear c)" "abs_cache (Clear c) = []"
    using d(2,4) by (simp_all add: run ReportEvictions_batch abs_cache_def)
  show "fc_byteCap (Clear c) = fc_byteCap c" "fc_callback (Clear c) = fc_callback c"
    using d(3) by (simp_all add: run ReportEvictions_batch same_account_def)
  have "mset ev = image_mset item_eviction (mset (abs_cache c))"
    unfolding d(5) abs_cache_def by (simp add: slot_eviction_abs [abs_def] image_mset.compositionality comp_def)
  then show "\<exists>ev. fc_reported (Clear c) = fc_reported c @ report_batch (fc_callback c) ev
           \<and> mset ev = image_mset item_eviction (mset (abs_cache c))"
    using d(3) by (intro exI [of _ ev]) (simp add: run ReportEvictions_batch same_account_def)
qed

end
