(* ===== verification/Frame_Props.thy ===== *)
theory Frame_Props
  imports Frame_Bulk
begin

text \<open>
  The frame cache as its clients see it: any sequence of calls answers, and reports, exactly as
  the least-recently-used list does; a published pose is the one a lookup returns; the byte
  account is exact and under the cap.
\<close>

section \<open>Calls and their answers\<close>

datatype ('p, 'h) cache_op =
    OpLookup frame_key bool
  | OpProvenance frame_key bool
  | OpAlias frame_key time_code
  | OpPublish frame_key time_code "'p rig_pose" "64 word" "'h option" "entry_provenance option"
  | OpEvict frame_key
  | OpEvictEpoch "64 word"
  | OpClear
  | OpSetByteCap "64 word"

datatype ('p, 'h) cache_answer =
    Found "('p rig_pose \<times> 'h option \<times> 64 word) option"
  | Provenance "entry_provenance option"
  | Accepted bool
  | Dropped nat
  | NoAnswer

fun cache_run :: "type_sizes \<Rightarrow> ('p, 'h) cache_op \<Rightarrow> ('p, 'h) frame_cache \<Rightarrow> ('p, 'h) cache_answer \<times> ('p, 'h) frame_cache" where
  "cache_run z (OpLookup k want) c = (Found (fst (Lookup k want c)), snd (Lookup k want c))"
| "cache_run z (OpProvenance k want) c = (Provenance (LookupProvenance k want c), c)"
| "cache_run z (OpAlias k time) c = (NoAnswer, NoteProvenanceAlias k time c)"
| "cache_run z (OpPublish k time pose rb h pr) c =
     (Accepted (fst (Publish z k time pose rb h pr c)), snd (Publish z k time pose rb h pr c))"
| "cache_run z (OpEvict k) c = (Accepted (fst (Evict k c)), snd (Evict k c))"
| "cache_run z (OpEvictEpoch ep) c = (Dropped (fst (EvictEpoch ep c)), snd (EvictEpoch ep c))"
| "cache_run z OpClear c = (NoAnswer, Clear c)"
| "cache_run z (OpSetByteCap b) c = (NoAnswer, SetByteCap b c)"

text \<open>The specification of each call: its answer, the items it reports as dropped, the new list.\<close>

type_synonym ('p, 'h) lru_state = "64 word \<times> ('p, 'h) lru"

fun lru_run :: "type_sizes \<Rightarrow> ('p, 'h) cache_op \<Rightarrow> ('p, 'h) lru_state \<Rightarrow> ('p, 'h) cache_answer \<times> ('p, 'h) lru \<times> ('p, 'h) lru_state" where
  "lru_run z (OpLookup k want) (cap, l) =
     (case if want then map_of l k else None of
        None \<Rightarrow> (Found None, [], cap, l)
      | Some i \<Rightarrow> (Found (Some (it_pose i, it_retained i, it_bytes i)), [], cap, without k l @ [(k, i)]))"
| "lru_run z (OpProvenance k want) (cap, l) =
     (Provenance (if want then map_option it_provenance (map_of l k) else None), [], cap, l)"
| "lru_run z (OpAlias k time) (cap, l) = (NoAnswer, [], cap, lru_alias k time l)"
| "lru_run z (OpPublish k time pose rb h pr) (cap, l) =
     (if \<not> publishable z pose rb h cap then (Accepted False, [], cap, l)
      else let l' = without k l @ [(k, published_item z time pose rb h pr)]
           in (Accepted True, shed_items cap l', cap, lru_shed cap l'))"
| "lru_run z (OpEvict k) (cap, l) =
     (Accepted (map_of l k \<noteq> None), filter (\<lambda>kv. fst kv = k) l, cap, without k l)"
| "lru_run z (OpEvictEpoch ep) (cap, l) =
     (let gone = filter (\<lambda>kv. epochDigest (fst kv) = ep) l
      in (Dropped (length gone), gone, cap, filter (\<lambda>kv. epochDigest (fst kv) \<noteq> ep) l))"
| "lru_run z OpClear (cap, l) = (NoAnswer, l, cap, [])"
| "lru_run z (OpSetByteCap b) (cap, l) = (NoAnswer, shed_items b l, b, lru_shed b l)"

text \<open>A run of calls: each answer with the multiset of the evictions the call reported.\<close>

fun cache_trace :: "type_sizes \<Rightarrow> ('p, 'h) cache_op list \<Rightarrow> ('p, 'h) frame_cache \<Rightarrow> (('p, 'h) cache_answer \<times> eviction multiset) list" where
  "cache_trace z [] c = []"
| "cache_trace z (op # ops) c = (let (ans, c') = cache_run z op c
     in (ans, mset (concat (drop (length (fc_reported c)) (fc_reported c')))) # cache_trace z ops c')"

fun lru_trace :: "type_sizes \<Rightarrow> ('p, 'h) cache_op list \<Rightarrow> ('p, 'h) lru_state \<Rightarrow> (('p, 'h) cache_answer \<times> eviction multiset) list" where
  "lru_trace z [] s = []"
| "lru_trace z (op # ops) s = (let (ans, gone, s') = lru_run z op s
     in (ans, mset (map item_eviction gone)) # lru_trace z ops s')"

fun cache_after :: "type_sizes \<Rightarrow> ('p, 'h) cache_op list \<Rightarrow> ('p, 'h) frame_cache \<Rightarrow> ('p, 'h) frame_cache" where
  "cache_after z [] c = c"
| "cache_after z (op # ops) c = cache_after z ops (snd (cache_run z op c))"

section \<open>The simulation\<close>

definition abs_state :: "('p, 'h) frame_cache \<Rightarrow> ('p, 'h) lru_state" where
  "abs_state c = (fc_byteCap c, abs_cache c)"

lemma distinct_abs_cache: "cache_inv c \<Longrightarrow> distinct (map fst (abs_cache c))"
  using distinct_recency by (simp add: abs_cache_def comp_def)

lemma Lookup_item:
  assumes "cache_inv c"
  shows "fst (Lookup k want c) = (if want then map_option (\<lambda>i. (it_pose i, it_retained i, it_bytes i))
           (map_of (abs_cache c) k) else None)"
    and "cache_inv (snd (Lookup k want c))"
    and "abs_state (snd (Lookup k want c)) = (fc_byteCap c,
           case if want then map_of (abs_cache c) k else None of None \<Rightarrow> abs_cache c
           | Some i \<Rightarrow> without k (abs_cache c) @ [(k, i)])"
    and "fc_reported (snd (Lookup k want c)) = fc_reported c" "fc_callback (snd (Lookup k want c)) = fc_callback c"
proof -
  have "fst (Lookup k want c) = (if want then map_option (\<lambda>i. (it_pose i, it_retained i, it_bytes i))
           (map_of (abs_cache c) k) else None)
      \<and> cache_inv (snd (Lookup k want c))
      \<and> abs_state (snd (Lookup k want c)) = (fc_byteCap c,
           case if want then map_of (abs_cache c) k else None of None \<Rightarrow> abs_cache c
           | Some i \<Rightarrow> without k (abs_cache c) @ [(k, i)])
      \<and> fc_reported (snd (Lookup k want c)) = fc_reported c \<and> fc_callback (snd (Lookup k want c)) = fc_callback c"
  proof (cases "want \<and> shard_look (fc_shards c) k \<noteq> None")
    case True
    then obtain e where e: "shard_look (fc_shards c) k = Some e" and want by auto
    then show ?thesis using Lookup_hit [OF assms e]
      by (simp add: map_of_abs_cache assms abs_state_def) (simp add: item_of_def)
  next
    case False
    then show ?thesis using Lookup_miss [of want c k] assms by (auto simp: map_of_abs_cache abs_state_def)
  qed
  then show "fst (Lookup k want c) = (if want then map_option (\<lambda>i. (it_pose i, it_retained i, it_bytes i))
           (map_of (abs_cache c) k) else None)" "cache_inv (snd (Lookup k want c))"
    "abs_state (snd (Lookup k want c)) = (fc_byteCap c,
           case if want then map_of (abs_cache c) k else None of None \<Rightarrow> abs_cache c
           | Some i \<Rightarrow> without k (abs_cache c) @ [(k, i)])"
    "fc_reported (snd (Lookup k want c)) = fc_reported c" "fc_callback (snd (Lookup k want c)) = fc_callback c"
    by blast+
qed

lemma concat_report_batch [simp]: "concat (report_batch True ev) = ev"
  by (simp add: report_batch_def)

lemma filter_key:
  "distinct (map fst l) \<Longrightarrow> filter (\<lambda>kv. fst kv = k) l = (case map_of l k of None \<Rightarrow> [] | Some i \<Rightarrow> [(k, i)])"
proof (induction l)
  case (Cons kv l)
  have "map_of l (fst kv) = None" using Cons.prems by (simp add: map_of_eq_None_iff)
  then show ?case using Cons by (cases kv) (auto split: option.splits)
qed simp

lemma cache_simulation:
  assumes "cache_inv c" "fc_callback c"
  shows "cache_inv (snd (cache_run z op c))" "fc_callback (snd (cache_run z op c))"
    and "\<exists>ev. fc_reported (snd (cache_run z op c)) = fc_reported c @ ev
          \<and> lru_run z op (abs_state c) = (fst (cache_run z op c), fst (snd (lru_run z op (abs_state c))),
                abs_state (snd (cache_run z op c)))
          \<and> mset (concat ev) = mset (map item_eviction (fst (snd (lru_run z op (abs_state c)))))"
proof -
  have "cache_inv (snd (cache_run z op c)) \<and> fc_callback (snd (cache_run z op c))
    \<and> (\<exists>ev. fc_reported (snd (cache_run z op c)) = fc_reported c @ ev
          \<and> lru_run z op (abs_state c) = (fst (cache_run z op c), fst (snd (lru_run z op (abs_state c))),
                abs_state (snd (cache_run z op c)))
          \<and> mset (concat ev) = mset (map item_eviction (fst (snd (lru_run z op (abs_state c))))))"
  proof (cases op)
    case (OpLookup k want)
    then show ?thesis using Lookup_item [OF assms(1), of k want] assms(2)
      by (intro conjI exI [of _ "[]"]) (auto simp: abs_state_def split: option.splits)
  next
    case (OpProvenance k want)
    then show ?thesis using LookupProvenance_item [OF assms(1), of k want] assms
      by (intro conjI exI [of _ "[]"]) (simp_all add: abs_state_def)
  next
    case (OpAlias k time)
    then show ?thesis using NoteProvenanceAlias_result [OF assms(1), of k time] assms(2)
      by (intro conjI exI [of _ "[]"]) (simp_all add: abs_state_def same_account_def)
  next
    case (OpPublish k time pose rb h pr)
    show ?thesis
    proof (cases "publishable z pose rb h (fc_byteCap c)")
      case True
      let ?l = "without k (abs_cache c) @ [(k, published_item z time pose rb h pr)]"
      show ?thesis using OpPublish Publish_result [OF assms(1) True, of k time pr] assms(2) True
          Publish_accepted [OF True, of k time pr]
        by (intro conjI exI [of _ "report_batch True (map item_eviction (shed_items (fc_byteCap c) ?l))"])
          (simp_all add: abs_state_def Let_def)
    next
      case False
      then show ?thesis using OpPublish Publish_refused [OF False, of k time pr] assms
        by (intro conjI exI [of _ "[]"]) (simp_all add: abs_state_def)
    qed
  next
    case (OpEvict k)
    then show ?thesis using Evict_result [OF assms(1), of k] assms(2)
        filter_key [OF distinct_abs_cache [OF assms(1)], of k]
      by (intro conjI exI [of _ "report_batch True (case map_of (abs_cache c) k of None \<Rightarrow> []
              | Some i \<Rightarrow> [item_eviction (k, i)])"])
        (simp_all add: abs_state_def split: option.splits)
  next
    case (OpEvictEpoch ep)
    note r = EvictEpoch_result [OF assms(1), of ep]
    from r(6) obtain ev where "fc_reported (snd (EvictEpoch ep c)) = fc_reported c @ report_batch True ev"
      "mset ev = image_mset item_eviction (mset (filter (\<lambda>kv. epochDigest (fst kv) = ep) (abs_cache c)))"
      using assms(2) by auto
    then show ?thesis using OpEvictEpoch r(1-5) assms(2)
      by (intro conjI exI [of _ "report_batch True ev"]) (simp_all add: abs_state_def Let_def)
  next
    case OpClear
    note r = Clear_result [OF assms(1)]
    from r(5) obtain ev where "fc_reported (Clear c) = fc_reported c @ report_batch True ev"
      "mset ev = image_mset item_eviction (mset (abs_cache c))" using assms(2) by auto
    then show ?thesis using OpClear r(1-4) assms(2)
      by (intro conjI exI [of _ "report_batch True ev"]) (simp_all add: abs_state_def)
  next
    case (OpSetByteCap b)
    then show ?thesis using SetByteCap_result [OF assms(1), of b] assms(2)
      by (intro conjI exI [of _ "report_batch True (map item_eviction (shed_items b (abs_cache c)))"])
        (simp_all add: abs_state_def)
  qed
  then show "cache_inv (snd (cache_run z op c))" "fc_callback (snd (cache_run z op c))"
    "\<exists>ev. fc_reported (snd (cache_run z op c)) = fc_reported c @ ev
          \<and> lru_run z op (abs_state c) = (fst (cache_run z op c), fst (snd (lru_run z op (abs_state c))),
                abs_state (snd (cache_run z op c)))
          \<and> mset (concat ev) = mset (map item_eviction (fst (snd (lru_run z op (abs_state c)))))"
    by blast+
qed

lemma cache_trace_sim:
  "cache_inv c \<Longrightarrow> fc_callback c \<Longrightarrow> cache_trace z ops c = lru_trace z ops (abs_state c)"
proof (induction ops arbitrary: c)
  case (Cons op ops)
  obtain ans c' where run: "cache_run z op c = (ans, c')" by (cases "cache_run z op c")
  obtain a gone s' where lru: "lru_run z op (abs_state c) = (a, gone, s')"
    by (cases "lru_run z op (abs_state c)") auto
  note sim = cache_simulation [OF Cons.prems, of z op, unfolded run lru]
  from sim(3) obtain ev where ev: "fc_reported c' = fc_reported c @ ev" "a = ans" "s' = abs_state c'"
    "mset (concat ev) = mset (map item_eviction gone)" by auto
  then show ?case using Cons.IH [of c'] sim(1,2) run lru by simp
qed simp

text \<open>A cache with its index attached, and that it satisfies the invariant.\<close>

definition start_cache :: "('p, 'h) frame_cache" where
  "start_cache = SetEvictionCallback True new_frame_cache"

lemma start_cache_inv: "cache_inv start_cache" "fc_callback start_cache"
  "abs_state start_cache = (1280 * 1024 * 1024, [])"
proof -
  have e: "cache_entries (start_cache :: ('p, 'h) frame_cache) = []"
    by (simp add: cache_entries_def shard_entries_def start_cache_def SetEvictionCallback_def new_frame_cache_def)
  then show "cache_inv (start_cache :: ('p, 'h) frame_cache)"
    unfolding cache_inv_def e shards_wf_def
    by (simp add: start_cache_def SetEvictionCallback_def new_frame_cache_def)
  show "fc_callback (start_cache :: ('p, 'h) frame_cache)"
    by (simp add: start_cache_def SetEvictionCallback_def)
  have "abs_cache (start_cache :: ('p, 'h) frame_cache) = []" by (simp add: abs_cache_def recency_def e)
  then show "abs_state (start_cache :: ('p, 'h) frame_cache) = (1280 * 1024 * 1024, [])"
    by (simp add: abs_state_def) (simp add: start_cache_def SetEvictionCallback_def new_frame_cache_def)
qed

lemma cache_after_inv:
  "cache_inv c \<Longrightarrow> fc_callback c \<Longrightarrow> cache_inv (cache_after z ops c) \<and> fc_callback (cache_after z ops c)"
proof (induction ops arbitrary: c)
  case (Cons op ops)
  then show ?case using cache_simulation(1,2) [OF Cons.prems] by simp
qed simp

lemmas reached_inv = conjunct1 [OF cache_after_inv [OF start_cache_inv(1,2)]]

section \<open>The sizes held\<close>

definition lru_size :: "('p, 'h) lru \<Rightarrow> nat" where
  "lru_size l = sum_list (map (\<lambda>kv. unat (it_bytes (snd kv))) l)"

lemma lru_size_simps [simp]:
  "lru_size [] = 0" "lru_size (x # l) = unat (it_bytes (snd x)) + lru_size l"
  "lru_size (l @ m) = lru_size l + lru_size m"
  by (simp_all add: lru_size_def)

lemma lru_bytes_size: "lru_bytes l = of_nat (lru_size l)"
  by (induction l) (simp_all add: lru_bytes_def)

lemma lru_bytes_le_iff: "lru_size l < 2 ^ 64 \<Longrightarrow> lru_bytes l \<le> cap \<longleftrightarrow> lru_size l \<le> unat cap"
  unfolding lru_bytes_size word_le_nat_alt by (simp add: unsigned_of_nat take_bit_eq_mod)

lemma lru_size_filter: "lru_size (filter P l) \<le> lru_size l"
  by (induction l) auto

lemma lru_size_without: "lru_size (without k l) \<le> lru_size l"
  unfolding without_def by (rule lru_size_filter)

lemma lru_size_shed: "lru_size l < 2 ^ 64 \<Longrightarrow> lru_size (lru_shed cap l) \<le> unat cap"
proof (induction l)
  case (Cons x l)
  then show ?case using lru_bytes_le_iff [of "x # l" cap] by simp
qed simp

lemma lru_size_touch:
  "map_of l k = Some i \<Longrightarrow> lru_size (without k l) + unat (it_bytes i) \<le> lru_size l"
proof (induction l)
  case (Cons x l)
  then show ?case using lru_size_without [of k l]
    by (cases x) (auto simp: without_def split: if_splits)
qed simp

lemma lru_size_alias: "lru_size (lru_alias k time l) = lru_size l"
  by (induction l) (auto simp: lru_alias_def)

text \<open>Caps below half the address space, so that a publication cannot wrap the account.\<close>

fun op_capped :: "('p, 'h) cache_op \<Rightarrow> bool" where
  "op_capped (OpSetByteCap b) \<longleftrightarrow> unat b < 2 ^ 63"
| "op_capped _ \<longleftrightarrow> True"

fun lru_fits :: "('p, 'h) lru_state \<Rightarrow> bool" where
  "lru_fits (cap, l) \<longleftrightarrow> unat cap < 2 ^ 63 \<and> lru_size l \<le> unat cap"

lemma lru_run_fits:
  assumes "lru_fits s" "op_capped op"
  shows "lru_fits (snd (snd (lru_run z op s)))"
proof -
  obtain cap l where s: "s = (cap, l)" by (cases s)
  have cap: "unat cap < 2 ^ 63" and l: "lru_size l \<le> unat cap" using assms(1) s by auto
  show ?thesis
  proof (cases op)
    case (OpLookup k want)
    then show ?thesis using s cap l lru_size_touch [of l k]
      by (auto split: option.splits intro: order_trans)
  next
    case (OpPublish k time pose rb h pr)
    show ?thesis
    proof (cases "publishable z pose rb h cap")
      case True
      define i where "i = published_item z time pose rb h pr"
      have "unat (it_bytes i) \<le> unat cap"
        using True by (simp add: i_def published_item_def publishable_def word_le_nat_alt)
      then have "lru_size (without k l @ [(k, i)]) < 2 ^ 64"
        using cap l lru_size_without [of k l] by simp
      from lru_size_shed [OF this, of cap] show ?thesis using s OpPublish True cap by (simp add: Let_def i_def)
    qed (use s OpPublish cap l in simp)
  next
    case (OpEvict k)
    then show ?thesis using s cap l lru_size_without [of k l] by simp
  next
    case (OpEvictEpoch ep)
    then show ?thesis using s cap l lru_size_filter [of "\<lambda>kv. epochDigest (fst kv) \<noteq> ep" l] by (simp add: Let_def)
  next
    case (OpSetByteCap b)
    have "lru_size l < 2 ^ 64" using cap l by simp
    then show ?thesis using s OpSetByteCap assms(2) lru_size_shed by simp
  qed (use s cap l in \<open>simp_all add: lru_size_alias\<close>)
qed

lemma cache_after_fits:
  "cache_inv c \<Longrightarrow> fc_callback c \<Longrightarrow> lru_fits (abs_state c) \<Longrightarrow> list_all op_capped ops \<Longrightarrow>
     lru_fits (abs_state (cache_after z ops c))"
proof (induction ops arbitrary: c)
  case (Cons op ops)
  note sim = cache_simulation [OF Cons.prems(1,2), of z op]
  have "lru_fits (abs_state (snd (cache_run z op c)))"
    using lru_run_fits [OF Cons.prems(3), of op z] Cons.prems(4) sim(3) by (metis list.pred_inject(2) snd_conv)
  then show ?case using Cons.IH [OF sim(1,2)] Cons.prems(4) by simp
qed simp

section \<open>Properties\<close>

text \<open>C26. The frame cache implements a least-recently-used list. On any sequence of lookups,
  provenance reads, aliases, publications, evictions, epoch evictions, clears and cap changes
  from a new cache, every answer, and every set of evictions reported to the index, is the one
  the list gives: a lookup moves its item to the end, a publication appends and sheds from the
  front until the sizes fit the cap, and only dropped items are reported, each once (a replaced
  item is not).\<close>

theorem frame_cache_refines_lru:
  "cache_trace z ops start_cache = lru_trace z ops (1280 * 1024 * 1024, [])"
  using cache_trace_sim [OF start_cache_inv(1,2)] by (simp only: start_cache_inv(3))

lemma lru_shed_last: "it_bytes i \<le> cap \<Longrightarrow> \<exists>l'. lru_shed cap (l @ [(k, i)]) = l' @ [(k, i)]"
proof (induction l)
  case Nil
  then show ?case by (simp add: lru_bytes_def)
next
  case (Cons x l)
  then show ?case by (metis append_Cons lru_shed.simps(2))
qed

text \<open>C27. A published pose is the one served. After any calls, a publication the cache accepts
  survives its own eviction pass: the lookup of its key that follows is a hit and returns the
  pose, the retained handle and the accounted size that were published, and its provenance
  lists the time it was published for. A refused publication changes nothing.\<close>

theorem publish_then_lookup:
  fixes c :: "('p, 'h) frame_cache"
  assumes "c = cache_after z ops start_cache" "Publish z k time pose rb h pr c = (ok, c')"
  shows "if ok then fst (Lookup k True c') = Some (pose, h, FrameCachePoseBytes z pose + rb)
             \<and> LookupProvenance k True c' = Some (first_alias (stamp time)
                 (case pr of Some p \<Rightarrow> p | None \<Rightarrow> new_provenance))
             \<and> rp_valid pose \<and> \<not> (0 < rb \<and> h = None)
         else c' = c"
proof (cases "publishable z pose rb h (fc_byteCap c)")
  case True
  have inv: "cache_inv c" using assms(1) reached_inv by simp
  let ?i = "published_item z time pose rb h pr"
  note r = Publish_result [OF inv True, of k time pr, unfolded assms(2) snd_conv]
  have "it_bytes ?i \<le> fc_byteCap c" using True by (simp add: published_item_def publishable_def)
  then obtain l' where l': "abs_cache c' = l' @ [(k, ?i)]" using lru_shed_last r(2) by metis
  then have "(k, ?i) \<in> set (abs_cache c')" by simp
  with distinct_abs_cache [OF r(1)] have "map_of (abs_cache c') k = Some ?i" by (rule map_of_is_SomeI)
  then show ?thesis using Lookup_item(1) [OF r(1), of k True] LookupProvenance_item [OF r(1), of k True] True
      Publish_accepted [OF True, of k time pr] assms(2)
    by (simp add: published_item_def publishable_def)
next
  case False
  from Publish_refused [OF this, of k time pr] show ?thesis using assms(2) by simp
qed

text \<open>C28. The byte account is exact and bounded. With every cap below \<open>2^63\<close>, after any calls
  the number of entries is the number the shards hold, the accounted bytes are the true sum of
  the entries' sizes (no wrap), and they do not exceed the cap in force; and every entry held
  is whole: it has a valid pose and a size, so no lookup ever drops one.\<close>

theorem frame_cache_account:
  fixes c :: "('p, 'h) frame_cache"
  assumes "c = cache_after z ops start_cache" "list_all op_capped ops"
  shows "cs_entryCount (CacheStats c) = length (cache_entries c)
    \<and> unat (cs_bytes (CacheStats c)) = sum_list (map (\<lambda>kv. unat (slot_bytes kv)) (cache_entries c))
    \<and> cs_bytes (CacheStats c) \<le> GetByteCap c
    \<and> list_all (\<lambda>kv. \<not> corrupt (snd kv)) (cache_entries c)"
proof -
  have inv: "cache_inv c" using assms(1) reached_inv by simp
  have "lru_fits (abs_state c)" unfolding assms(1)
    by (rule cache_after_fits [OF start_cache_inv(1,2)]) (simp_all add: start_cache_inv(3) assms(2))
  then have fits: "unat (fc_byteCap c) < 2 ^ 63" "lru_size (abs_cache c) \<le> unat (fc_byteCap c)"
    by (simp_all add: abs_state_def)
  have "lru_size (abs_cache c) = sum_list (map (\<lambda>kv. unat (slot_bytes kv)) (recency c))"
    by (simp add: lru_size_def abs_cache_def comp_def abs_slot_def item_of_def slot_bytes_def)
  then have size: "lru_size (abs_cache c) = sum_list (map (\<lambda>kv. unat (slot_bytes kv)) (cache_entries c))"
    using sum_list_mset_cong [OF mset_recency] by metis
  have "unat (fc_bytes c) = lru_size (abs_cache c)"
    unfolding lru_bytes_abs [OF inv, symmetric] lru_bytes_size
    using fits by (simp add: unsigned_of_nat take_bit_eq_mod)
  then show ?thesis
    using size fits(2) cache_invD(2,5) [OF inv]
    by (simp add: CacheStats_def GetByteCap_def word_le_nat_alt list_all_iff)
qed

section \<open>Witnesses\<close>

text \<open>A publication that is accepted and one that is refused; a small cap.\<close>

definition demo_sizes :: type_sizes where
  "demo_sizes = \<lparr> sz_pose = 100, sz_path = 8, sz_string = 32, sz_token = 8, sz_value = 16, sz_frame = 104 \<rparr>"

definition demo_pose :: "nat rig_pose" where
  "demo_pose = new_pose\<lparr>rp_valid := True\<rparr>"

lemma demo_publishable: "publishable demo_sizes demo_pose 0 (None :: nat option) (fc_byteCap start_cache)"
  by (simp add: publishable_def demo_pose_def new_pose_def FrameCachePoseBytes_def demo_sizes_def
      start_cache_def SetEvictionCallback_def new_frame_cache_def)

theorem publish_then_lookup_witness:
  "fst (Lookup (FrameKey 1 2) True
      (snd (Publish demo_sizes (FrameKey 1 2) DefaultTime demo_pose 0 (None :: nat option) None start_cache)))
    = Some (demo_pose, None, 100)"
proof -
  have b: "FrameCachePoseBytes demo_sizes demo_pose = 100"
    by (simp add: demo_pose_def new_pose_def FrameCachePoseBytes_def demo_sizes_def)
  have "fst (Publish demo_sizes (FrameKey 1 2) DefaultTime demo_pose 0 (None :: nat option) None start_cache)"
    by (simp add: Publish_accepted [OF demo_publishable])
  then show ?thesis
    using publish_then_lookup [of start_cache demo_sizes "[]" "FrameKey 1 2" DefaultTime demo_pose 0 None None
        True "snd (Publish demo_sizes (FrameKey 1 2) DefaultTime demo_pose 0 (None :: nat option) None start_cache)"]
    by (simp add: b prod_eq_iff)
qed

theorem frame_cache_account_witness:
  "cs_entryCount (CacheStats (cache_after demo_sizes
      [OpPublish (FrameKey 1 2) DefaultTime demo_pose 0 (None :: nat option) None, OpSetByteCap 50] start_cache))
     = length (cache_entries (cache_after demo_sizes
      [OpPublish (FrameKey 1 2) DefaultTime demo_pose 0 (None :: nat option) None, OpSetByteCap 50] start_cache))
   \<and> cs_bytes (CacheStats (cache_after demo_sizes
      [OpPublish (FrameKey 1 2) DefaultTime demo_pose 0 (None :: nat option) None, OpSetByteCap 50] start_cache)) \<le> 50"
proof -
  let ?ops = "[OpPublish (FrameKey 1 2) DefaultTime demo_pose 0 (None :: nat option) None, OpSetByteCap 50]"
  have "list_all op_capped ?ops" by simp
  from frame_cache_account [OF refl this, of demo_sizes] have
    "cs_entryCount (CacheStats (cache_after demo_sizes ?ops start_cache)) = length (cache_entries (cache_after demo_sizes ?ops start_cache))"
    "cs_bytes (CacheStats (cache_after demo_sizes ?ops start_cache)) \<le> GetByteCap (cache_after demo_sizes ?ops start_cache)"
    by blast+
  moreover have "GetByteCap (cache_after demo_sizes ?ops start_cache) = 50"
    using SetByteCap_result(4) [OF Publish_result(1) [OF start_cache_inv(1) demo_publishable], of 50]
    by (simp add: GetByteCap_def)
  ultimately show ?thesis by simp
qed

end
