(* ===== verification/Frame_Claims.thy ===== *)
theory Frame_Claims
  imports Frame_Routes
begin

text \<open>
  What the control-state digest means: the routes agree, only the first sample of a path and the
  last entry of a key count, one changed sample moves the digest, and when two short streams
  fold alike.
\<close>

section \<open>Little-endian words\<close>

fun le_nat :: "byte list \<Rightarrow> nat" where
  "le_nat [] = 0"
| "le_nat (b # bs) = unat b + 256 * le_nat bs"

lemma le_word_nat: "le_word bs = of_nat (le_nat bs)"
proof (induction bs)
  case (Cons b bs)
  have "(ucast b :: 64 word) = of_nat (unat b)" by simp
  then show ?case using Cons by simp
qed simp

lemma byte_bound: "unat (b :: byte) < 256"
proof -
  have "unat b < 2 ^ LENGTH(8)" by (rule unsigned_less)
  then show ?thesis by simp
qed

lemma le_nat_bound: "le_nat bs < 256 ^ length bs"
proof (induction bs)
  case (Cons b bs)
  then show ?case using byte_bound [of b] by simp
qed simp

lemma le_nat_inj: "length a = length b \<Longrightarrow> le_nat a = le_nat b \<longleftrightarrow> a = b"
proof (induction a b rule: list_induct2)
  case (Cons x xs y ys)
  have "unat x = (unat x + 256 * n) mod 256" "unat y = (unat y + 256 * n) mod 256"
    "n = (unat x + 256 * n) div 256" "n = (unat y + 256 * n) div 256" for n
    using byte_bound [of x] byte_bound [of y] by simp_all
  then have "unat x + 256 * le_nat xs = unat y + 256 * le_nat ys \<longleftrightarrow> unat x = unat y \<and> le_nat xs = le_nat ys"
    by metis
  then show ?case using Cons by (simp add: word_unat_eq_iff)
qed simp

lemma le_nat_high: "bs \<noteq> [] \<Longrightarrow> last bs \<noteq> 0 \<Longrightarrow> 256 ^ (length bs - 1) \<le> le_nat bs"
proof (induction bs)
  case (Cons b bs)
  show ?case
  proof (cases "bs = []")
    case True
    then show ?thesis using Cons.prems by (simp add: Suc_leI unat_gt_0)
  next
    case False
    then have "256 ^ (length bs - 1) \<le> le_nat bs" using Cons by simp
    then have "256 * 256 ^ (length bs - 1) \<le> 256 * le_nat bs" by simp
    moreover have "(256 :: nat) * 256 ^ (length bs - 1) = 256 ^ length bs"
      using False by (cases bs) simp_all
    ultimately show ?thesis by simp
  qed
qed simp

section \<open>Short streams\<close>

lemma FoldBytes_tail: "0 < length bs \<Longrightarrow> length bs < 8 \<Longrightarrow>
    FoldBytes h bs = MixWord h (of_nat (le_nat bs + length bs))"
  by (subst FoldBytes.simps) (simp add: le_word_nat)

lemma tail_bound: "length bs < 8 \<Longrightarrow> le_nat bs + length bs < 2 ^ 64"
proof -
  assume l: "length bs < 8"
  then have "(256 :: nat) ^ length bs \<le> 256 ^ 7" by (intro power_increasing) simp_all
  moreover have "(256 :: nat) ^ 7 + 7 < 2 ^ 64" by simp
  ultimately show ?thesis using le_nat_bound [of bs] l by linarith
qed

lemma word64_nat_inj: "a < 2 ^ 64 \<Longrightarrow> b < 2 ^ 64 \<Longrightarrow> (of_nat a :: 64 word) = of_nat b \<longleftrightarrow> a = b"
proof
  assume b: "a < 2 ^ 64" "b < 2 ^ 64" and eq: "(of_nat a :: 64 word) = of_nat b"
  have "unat (of_nat a :: 64 word) = a" "unat (of_nat b :: 64 word) = b"
    using b by (simp_all add: unsigned_of_nat take_bit_eq_mod)
  then show "a = b" using eq by metis
qed simp

lemma FoldBytes_tail_iff:
  assumes "0 < length a" "length a < 8" "0 < length b" "length b < 8"
  shows "FoldBytes h a = FoldBytes h b \<longleftrightarrow> le_nat a + length a = le_nat b + length b"
  using assms tail_bound by (simp add: FoldBytes_tail MixWord_word_inj word64_nat_inj del: of_nat_add)

lemma tail_free:
  assumes "length a < length b" "last b \<noteq> 0" "length b < 8"
  shows "le_nat a + length a < le_nat b + length b"
proof -
  have "b \<noteq> []" using assms(1) by auto
  then have "256 ^ (length b - 1) \<le> le_nat b" using assms(2) by (rule le_nat_high)
  moreover have "(256 :: nat) ^ length a \<le> 256 ^ (length b - 1)"
    using assms(1) by (intro power_increasing) simp_all
  ultimately have "le_nat a < le_nat b" using le_nat_bound [of a] by linarith
  then show ?thesis using assms(1) by simp
qed

text \<open>A stream of one word.\<close>

lemma FoldBytes_word: "length bs = 8 \<Longrightarrow> FoldBytes h bs = MixWord h (of_nat (le_nat bs))"
  by (subst FoldBytes.simps) (simp add: le_word_nat FoldBytes.simps [of _ "[]"])

lemma FoldBytes_same_length:
  assumes "length a = length b" "length a \<le> 8"
  shows "FoldBytes h a = FoldBytes h b \<longleftrightarrow> a = b"
proof (cases "length a = 8")
  case True
  have "le_nat a < 2 ^ 64" "le_nat b < 2 ^ 64" using le_nat_bound [of a] le_nat_bound [of b] assms True by simp_all
  then show ?thesis using True assms by (simp add: FoldBytes_word MixWord_word_inj word64_nat_inj le_nat_inj)
next
  case False
  then show ?thesis using assms FoldBytes_tail_iff [of a b h] le_nat_inj [OF assms(1)]
    by (cases "0 < length a") auto
qed

section \<open>One changed sample\<close>

lemma foldl_FoldU64_inj: "inj (\<lambda>h. foldl FoldU64 h ws)"
  by (rule foldl_inj) (rule FoldU64_inj)

lemma foldl_FoldU64_change:
  "a \<noteq> b \<Longrightarrow> foldl FoldU64 h (xs @ a # ys) \<noteq> foldl FoldU64 h (xs @ b # ys)"
proof
  assume "a \<noteq> b" "foldl FoldU64 h (xs @ a # ys) = foldl FoldU64 h (xs @ b # ys)"
  then have "foldl FoldU64 (FoldU64 (foldl FoldU64 h xs) a) ys = foldl FoldU64 (FoldU64 (foldl FoldU64 h xs) b) ys"
    by simp
  then have "FoldU64 (foldl FoldU64 h xs) a = FoldU64 (foldl FoldU64 h xs) b"
    by (rule injD [OF foldl_FoldU64_inj])
  then show False using \<open>a \<noteq> b\<close> by (simp only: FoldU64_word_inj)
qed

lemma find_replace:
  "p \<notin> si_path ` set xs \<Longrightarrow> si_path s = p \<Longrightarrow> si_path s' = p \<Longrightarrow>
     find (\<lambda>x. si_path x = q) (xs @ s' # ys) = (if q = p then Some s' else find (\<lambda>x. si_path x = q) (xs @ s # ys))"
  by (induction xs) auto

lemma reference_change:
  assumes "p \<notin> si_path ` set xs" "si_path s = p" "si_path s' = p" "SampleDigest u s \<noteq> SampleDigest u s'"
  shows "reference_digest u (xs @ s # ys) \<noteq> reference_digest u (xs @ s' # ys)"
proof -
  let ?ps = "vec_unique (map si_path (xs @ s # ys))"
  have ps: "vec_unique (map si_path (xs @ s' # ys)) = ?ps" using assms(2,3) by simp
  have "p \<in> set ?ps" using assms(2) by simp
  then obtain as bs where split: "?ps = as @ p # bs" by (meson split_list)
  have "distinct ?ps" by simp
  then have "p \<notin> set as" "p \<notin> set bs" unfolding split by auto
  define first where "first = (\<lambda>q. the (find (\<lambda>x. si_path x = q) (xs @ s # ys)))"
  have r: "reference_samples (xs @ s # ys) = map first as @ s # map first bs"
    using find_replace [OF assms(1,2,2), of p] assms(2) unfolding reference_samples_def split first_def by simp
  have "map (\<lambda>q. the (find (\<lambda>x. si_path x = q) (xs @ s' # ys))) as = map first as"
    "map (\<lambda>q. the (find (\<lambda>x. si_path x = q) (xs @ s' # ys))) bs = map first bs"
    using \<open>p \<notin> set as\<close> \<open>p \<notin> set bs\<close> find_replace [OF assms(1-3)] by (auto simp: first_def)
  then have r': "reference_samples (xs @ s' # ys) = map first as @ s' # map first bs"
    using find_replace [OF assms(1-3), of p] unfolding reference_samples_def ps split by simp
  show ?thesis unfolding reference_digest_def r r' map_append list.map length_append list.size
    by (rule foldl_FoldU64_change [OF assms(4)])
qed

lemma SampleDigest_scalar:
  assumes "si_hasValue s" "si_value s = Some \<lparr>hv_type = Single t, hv_elements = [a], hv_hash = h\<rparr>"
    and "s' = s\<lparr>si_value := Some \<lparr>hv_type = Single t, hv_elements = [b], hv_hash = h'\<rparr>\<rparr>"
    and "t \<in> set plain_floats" "length a = length b" "length a \<le> 8" "a \<noteq> b"
  shows "SampleDigest u s \<noteq> SampleDigest u s'"
  using assms by (simp add: SampleDigest_def SampleFromPrefix_def FoldVtValue_def FoldVtValueAfterName_def
      FoldBytes_same_length)

lemma fold_rest_frame:
  "fold_rest u h (i\<lparr>fi_values := v\<rparr>) ov up = fold_rest u h i ov up"
  "fold_rest u h (i\<lparr>fi_digestOrder := r\<rparr>) ov up = fold_rest u h i ov up"
  by (simp_all add: fold_rest_def FoldHeadLeafConstants_def FoldVaryingTransport_def Let_def)

section \<open>Properties\<close>

text \<open>C20. The three ways to compute the control digest agree. When what the samplers recorded is
  true (a sample marked as a copy of a static entry digests as the entry, a recorded order was
  recorded by \<open>RigExecRecordFrameDigestOrder\<close>, the memo of a burst holds digests of the samples
  it serves and its order describes the vectors of its shape), the plain digest, the recorded
  order and the burst's memo all give the reference: the first sample of each path in path
  order, then the constants, transports, seeds, upstream values and overrides. The burst leaves
  its memo true, so the next frame may use it.\<close>

theorem digest_routes_agree:
  assumes "static_table_true u inputs" "order_recorded u inputs"
    and "\<forall>c. cache = Some c \<longrightarrow> burst_true u (fi_values inputs) c \<and> burst_order_true inputs c"
  shows "ControlStateDigest u inputs overrides upstream
           = fold_rest u (reference_digest u (fi_values inputs)) inputs overrides upstream
       \<and> fst (ControlStateDigestWithBurstCache u same inputs overrides upstream cache)
           = fold_rest u (reference_digest u (fi_values inputs)) inputs overrides upstream
       \<and> (\<forall>c. snd (ControlStateDigestWithBurstCache u same inputs overrides upstream cache) = Some c
              \<longrightarrow> burst_true u (fi_values inputs) c)"
  using control_digest_reference [OF assms(1,2)] burst_digest_reference [OF assms] by simp

lemma foldl_omap_put_last:
  "map_of (foldl (\<lambda>m x. omap_put (f x) x m) m xs) k
     = (case find (\<lambda>x. f x = k) (rev xs) of Some x \<Rightarrow> Some x | None \<Rightarrow> map_of m k)"
proof (induction xs arbitrary: m rule: rev_induct)
  case (snoc x xs)
  then show ?case by auto
qed simp

lemma foldl_omap_put_wf: "omap_wf m \<Longrightarrow> omap_wf (foldl (\<lambda>m x. omap_put (f x) x m) m xs)"
  by (induction xs arbitrary: m) simp_all

lemma last_entries_eq:
  assumes "\<And>k. find (\<lambda>x. f x = k) (rev xs) = find (\<lambda>x. f x = k) (rev ys)"
  shows "foldl (\<lambda>m x. omap_put (f x) x m) [] xs = foldl (\<lambda>m x. omap_put (f x) x m) [] ys"
  by (rule omap_wf_ext) (auto simp: foldl_omap_put_wf foldl_omap_put_last assms fun_eq_iff)

lemma find_image: "{k. \<exists>x \<in> set xs. f x = k} = {k. find (\<lambda>x. f x = k) xs \<noteq> None}"
  by (auto simp: find_None_iff)

text \<open>C24. What the control digest ignores. Two sample vectors with the same first sample for
  every path, two override lists with the same last override for every (prim, computation,
  attribute), and two upstream lists with the same last value for every path give the same
  digest, whatever the order and the repetitions.\<close>

theorem digest_order_independent:
  assumes "static_table_true u inputs" "order_recorded u inputs"
    and "static_table_true u (inputs\<lparr>fi_values := values, fi_digestOrder := order\<rparr>)"
      "order_recorded u (inputs\<lparr>fi_values := values, fi_digestOrder := order\<rparr>)"
    and "\<And>p. find (\<lambda>s. si_path s = p) values = find (\<lambda>s. si_path s = p) (fi_values inputs)"
    and "\<And>k. find (\<lambda>o'. override_key u o' = k) (rev ov') = find (\<lambda>o'. override_key u o' = k) (rev ov)"
    and "\<And>p. find (\<lambda>v. uv_path v = p) (rev up') = find (\<lambda>v. uv_path v = p) (rev up)"
  shows "ControlStateDigest u (inputs\<lparr>fi_values := values, fi_digestOrder := order\<rparr>) ov' up'
           = ControlStateDigest u inputs ov up"
proof -
  have "set (map si_path values) = set (map si_path (fi_values inputs))"
  proof -
    have "set (map si_path vs) = {k. \<exists>s \<in> set vs. si_path s = k}" for vs :: "'a sampled_input list" by auto
    then show ?thesis unfolding find_image using assms(5) by simp
  qed
  then have "reference_samples values = reference_samples (fi_values inputs)"
    unfolding reference_samples_def assms(5) by (metis vec_unique_cong)
  then have ref: "reference_digest u values = reference_digest u (fi_values inputs)"
    by (simp add: reference_digest_def)
  have "up' = [] \<longleftrightarrow> up = []"
  proof -
    have "xs = [] \<longleftrightarrow> (\<forall>p. find (\<lambda>v. uv_path v = p) (rev xs) = None)" for xs :: "'a upstream_value list"
      by (cases xs) (auto simp: find_None_iff)
    then show ?thesis using assms(7) by simp
  qed
  then have up: "FoldUpstream u h up' = FoldUpstream u h up" for h
    unfolding FoldUpstream_def last_entries_eq [OF assms(7)] by simp
  have ov: "FoldOverrides u h ov' = FoldOverrides u h ov" for h
    unfolding FoldOverrides_def last_entries_eq [OF assms(6)] ..
  have "fold_rest u h (inputs\<lparr>fi_values := values, fi_digestOrder := order\<rparr>) ov' up' = fold_rest u h inputs ov up" for h
    unfolding fold_rest_frame by (simp only: fold_rest_def up ov)
  then show ?thesis
    unfolding control_digest_reference [OF assms(1,2)] control_digest_reference [OF assms(3,4)] using ref by simp
qed

text \<open>C22. One changed control misses the cache. If a frame's samples differ from another's in one
  first sample of a path, holding two different bit patterns of the same scalar type of at most
  eight bytes (a float, a double, a pair of floats), and agree elsewhere, then their control
  digests differ, with the epoch's constants folded in as well: the mixing never lets the
  remainder of the stream cancel the difference. In particular +0.0 and -0.0 are told apart.\<close>

theorem changed_sample_moves_digest:
  assumes "fi_values inputs = xs @ s # ys" "si_path s \<notin> si_path ` set xs" "si_hasValue s"
    and "si_value s = Some \<lparr>hv_type = Single t, hv_elements = [a], hv_hash = h\<rparr>"
    and "s' = s\<lparr>si_value := Some \<lparr>hv_type = Single t, hv_elements = [b], hv_hash = h'\<rparr>\<rparr>"
    and "t \<in> set plain_floats" "length a = length b" "length a \<le> 8" "a \<noteq> b"
    and "inputs' = inputs\<lparr>fi_values := xs @ s' # ys\<rparr>"
    and "static_table_true u inputs" "order_recorded u inputs"
      "static_table_true u inputs'" "order_recorded u inputs'"
  shows "ControlStateDigestWithConstants u inputs overrides upstream k
           \<noteq> ControlStateDigestWithConstants u inputs' overrides upstream k"
proof -
  have "SampleDigest u s \<noteq> SampleDigest u s'" by (rule SampleDigest_scalar [OF assms(3-9)])
  then have "reference_digest u (xs @ s # ys) \<noteq> reference_digest u (xs @ s' # ys)"
    using assms(5) by (intro reference_change [OF assms(2)]) simp_all
  moreover have "fold_rest u x inputs' overrides upstream = fold_rest u x inputs overrides upstream" for x
    by (simp only: assms(10) fold_rest_frame)
  ultimately have "ControlStateDigest u inputs overrides upstream \<noteq> ControlStateDigest u inputs' overrides upstream"
    unfolding control_digest_reference [OF assms(11,12)] control_digest_reference [OF assms(13,14)]
    using assms(1,10) injD [OF fold_rest_inj [of u inputs overrides upstream]] by auto
  moreover have "inj (\<lambda>d. FoldConstantDigest d k)"
    unfolding FoldConstantDigest_def
    by (rule inj_comp [OF FoldU64_inj]) (simp add: inj_def FoldU64_word_inj)
  ultimately show ?thesis unfolding ControlStateDigestWithConstants_def by (auto dest: injD)
qed

text \<open>When two short streams fold alike. The fold mixes a tail of fewer than eight bytes as
  its little-endian number plus its length, so the one-byte stream 2 and the two-byte stream
  1, 0 fold to the same hash from every state, although the comment in the source says that the
  length keeps a short tail from equalling a longer one. Tails that do not end in a zero byte
  (every path, name and token) are told apart, of equal length or not.\<close>

theorem short_tail_folds:
  "FoldBytes h [2] = FoldBytes h [1, 0]
   \<and> (0 < length a \<and> length a < 8 \<and> 0 < length b \<and> length b < 8 \<and> last a \<noteq> 0 \<and> last b \<noteq> 0
      \<longrightarrow> (FoldBytes h a = FoldBytes h b \<longleftrightarrow> a = b))"
proof (intro conjI impI)
  show "FoldBytes h [2] = FoldBytes h [1, 0]" by (subst FoldBytes_tail_iff) simp_all
  assume b: "0 < length a \<and> length a < 8 \<and> 0 < length b \<and> length b < 8 \<and> last a \<noteq> 0 \<and> last b \<noteq> 0"
  show "FoldBytes h a = FoldBytes h b \<longleftrightarrow> a = b"
  proof (cases "length a" "length b" rule: linorder_cases)
    case equal
    then show ?thesis using b FoldBytes_same_length [of a b h] by simp
  next
    case less
    then show ?thesis using b tail_free [of a b] FoldBytes_tail_iff [of a b h] by auto
  next
    case greater
    then show ?thesis using b tail_free [of b a] FoldBytes_tail_iff [of a b h] by auto
  qed
qed

section \<open>Witnesses\<close>

text \<open>Two frames with one control each, at +0.0 and at -0.0, and a burst that serves it.\<close>

definition demo_names :: "nat usd_names" where
  "demo_names = \<lparr> nm_path = (\<lambda>p. ''/rig.a''), nm_type = (\<lambda>t. ''double''), nm_empty = ''void'' \<rparr>"

definition demo_sample :: "byte \<Rightarrow> nat sampled_input" where
  "demo_sample sign = \<lparr> si_path = 1,
     si_value = Some \<lparr>hv_type = Single T_double, hv_elements = [[0, 0, 0, 0, 0, 0, 0, sign]], hv_hash = Some 0\<rparr>,
     si_hasValue = True, si_burstSampleRoute = burst_route_stage, si_valueBlocked = False, si_staticSample = - 1 \<rparr>"

definition demo_inputs :: "byte \<Rightarrow> nat frame_inputs" where
  "demo_inputs sign = \<lparr> fi_values = [demo_sample sign], fi_layoutLeaves = [], fi_varyingLayoutRows = [],
     fi_varyingRevisionLeaves = [], fi_revisionLeaves = [],
     fi_stageSeeds = \<lparr> ss_xformBase = [], ss_xformFrames = [], ss_nativeOk = [], ss_nativeFrames = [],
       ss_deltaOk = [], ss_deltaBase = [], ss_intervening = [], ss_interveningReset = [] \<rparr>,
     fi_headLeafConstants = None, fi_staticSamples = None,
     fi_digestOrder = Some (RecordFrameDigestOrder demo_names [demo_sample sign]), fi_upstream = [] \<rparr>"

definition demo_burst :: "nat burst_cache" where
  "demo_burst = \<lparr> bc_overrides = [], bc_usable = True,
     bc_staticStage = [(1, \<lparr>bs_sample = demo_sample 0, bs_digest = 0, bs_digestValid = False\<rparr>)],
     bc_staticResolved = [], bc_sortedOrder = [], bc_orderValuesSize = 0,
     bc_orderFirstPath = None, bc_orderLastPath = None \<rparr>"

lemma demo_true: "static_table_true demo_names (demo_inputs sign)" "order_recorded demo_names (demo_inputs sign)"
  by (auto simp: static_table_true_def StaticEntry_def order_recorded_def demo_inputs_def)

lemma demo_burst_true: "burst_true demo_names (fi_values (demo_inputs 0)) demo_burst" "burst_order_true (demo_inputs 0) demo_burst"
  by (simp_all add: burst_true_def memo_true_def burst_order_true_def demo_burst_def demo_inputs_def)

theorem digest_routes_agree_witness:
  "fst (ControlStateDigestWithBurstCache demo_names (=) (demo_inputs 0) [] [] (Some demo_burst))
     = fold_rest demo_names (reference_digest demo_names [demo_sample 0]) (demo_inputs 0) [] []"
  using digest_routes_agree [of demo_names "demo_inputs 0" "Some demo_burst" "[]" "[]" "(=)"]
    demo_true demo_burst_true by (simp add: demo_inputs_def)

theorem digest_order_independent_witness:
  "ControlStateDigest demo_names ((demo_inputs 0)\<lparr>fi_values := [demo_sample 0, demo_sample 1], fi_digestOrder := None\<rparr>) [] []
     = ControlStateDigest demo_names (demo_inputs 0) [] []"
proof (rule digest_order_independent [OF demo_true])
  let ?i = "(demo_inputs 0)\<lparr>fi_values := [demo_sample 0, demo_sample 1], fi_digestOrder := None\<rparr>"
  show "static_table_true demo_names ?i" "order_recorded demo_names ?i"
    by (simp_all add: static_table_true_def StaticEntry_def order_recorded_def demo_inputs_def)
  show "find (\<lambda>s. si_path s = p) [demo_sample 0, demo_sample 1] = find (\<lambda>s. si_path s = p) (fi_values (demo_inputs 0))" for p
    by (simp add: demo_inputs_def demo_sample_def)
qed simp_all

theorem changed_sample_moves_digest_witness:
  "ControlStateDigestWithConstants demo_names (demo_inputs 0) [] [] 7
     \<noteq> ControlStateDigestWithConstants demo_names ((demo_inputs 0)\<lparr>fi_values := [demo_sample 0x80]\<rparr>) [] [] 7"
proof (rule changed_sample_moves_digest [where xs = "[]" and ys = "[]" and s = "demo_sample 0" and s' = "demo_sample 0x80"
      and t = T_double and a = "[0, 0, 0, 0, 0, 0, 0, 0]" and b = "[0, 0, 0, 0, 0, 0, 0, 0x80]"])
  let ?i = "(demo_inputs 0)\<lparr>fi_values := [demo_sample 0x80]\<rparr>"
  show "static_table_true demo_names ?i" "order_recorded demo_names ?i"
    by (auto simp: static_table_true_def StaticEntry_def order_recorded_def demo_inputs_def)
  show "static_table_true demo_names (demo_inputs 0)" "order_recorded demo_names (demo_inputs 0)"
    by (rule demo_true)+
qed (simp_all add: demo_inputs_def demo_sample_def plain_floats_def)

theorem short_tail_folds_witness:
  "FoldBytes 0 [1, 2] = FoldBytes 0 [3] \<longleftrightarrow> [1, 2] = [3 :: byte]"
  using short_tail_folds [of 0 "[1, 2]" "[3]"] by simp

end
