(* ===== verification/Reuse_Claims.thy ===== *)
theory Reuse_Claims
  imports Reuse_Props Frame_Props Frame_Claims
begin

text \<open>
  The claims of frame reuse: the decision to serve a retained pose, exactly, and what it means for
  the sources the steps read; that the decision never looks at the stage seeds, which the
  control digest does fold; and the invalidation of an epoch, which empties both caches of
  that epoch and of nothing else.
\<close>

section \<open>A moved stage frame\<close>

text \<open>The twelve coordinates of a frame, in the order they are folded, and the native frames of a request.\<close>

definition coordinates :: "point_frame \<Rightarrow> double_bits list" where
  "coordinates frame = concat (map list3 (list4 (pf_points frame)))"

abbreviation native_frames :: "('p, 'z) frame_inputs_scheme \<Rightarrow> point_frame list" where
  "native_frames inputs \<equiv> ss_nativeFrames (fi_stageSeeds inputs)"

definition with_native :: "point_frame list \<Rightarrow> ('p, 'z) frame_inputs_scheme \<Rightarrow> ('p, 'z) frame_inputs_scheme" where
  "with_native frames inputs = inputs\<lparr>fi_stageSeeds := (fi_stageSeeds inputs)\<lparr>ss_nativeFrames := frames\<rparr>\<rparr>"

lemma length_coordinates: "length (coordinates frame) = 12"
proof -
  obtain a b c d where "pf_points frame = Vec4 a b c d" by (cases "pf_points frame")
  then show ?thesis by (cases a; cases b; cases c; cases d) (simp add: coordinates_def)
qed

lemma storage_eq: "storage 8 a = storage 8 b \<longleftrightarrow> a = (b :: 64 word)"
  by (simp add: inj_eq storage_inj)

lemma FoldDouble_value_inj: "FoldDouble h a = FoldDouble h b \<longleftrightarrow> a = b"
  unfolding FoldDouble_def using FoldBytes_same_length [of "storage 8 a" "storage 8 b" h]
  by (simp add: storage_eq)

text \<open>Folding a list with one element replaced tells the two elements apart, when the step does.\<close>

lemma foldl_update_inj:
  assumes "\<And>x. inj (\<lambda>h. f h x)" "i < length xs"
  shows "\<exists>h. \<forall>x. foldl f start (xs[i := x]) = foldl f start xs \<longleftrightarrow> f h x = f h (xs ! i)"
proof -
  let ?h = "foldl f start (take i xs)"
  have at: "foldl f start (xs[i := x]) = foldl f (f ?h x) (drop (Suc i) xs)" for x
    using assms(2) by (simp add: upd_conv_take_nth_drop)
  have "foldl f start xs = foldl f (f ?h (xs ! i)) (drop (Suc i) xs)"
    using at [of "xs ! i"] by simp
  then have "foldl f start (xs[i := x]) = foldl f start xs \<longleftrightarrow> f ?h x = f ?h (xs ! i)" for x
    using at [of x] inj_eq [OF foldl_inj [where f = f and xs = "drop (Suc i) xs", OF assms(1)]] by simp
  then show ?thesis by blast
qed

lemma moved_frame_fold:
  assumes "k < 12" "coordinates moved = (coordinates frame)[k := x]" "pf_flags moved = pf_flags frame"
  shows "FoldPointFrame h moved = FoldPointFrame h frame \<longleftrightarrow> x = coordinates frame ! k"
proof -
  obtain h' where h': "\<forall>x. foldl FoldDouble h ((coordinates frame)[k := x]) = foldl FoldDouble h (coordinates frame) \<longleftrightarrow>
      FoldDouble h' x = FoldDouble h' (coordinates frame ! k)"
    using foldl_update_inj [where f = FoldDouble and i = k and xs = "coordinates frame" and start = h, OF FoldDouble_inj]
      assms(1) length_coordinates [of frame] by auto
  then show ?thesis
    unfolding FoldPointFrame_def coordinates_def [symmetric] assms(2,3)
    by (simp add: inj_eq [OF FoldBytes_inj] FoldDouble_value_inj)
qed

text \<open>The digest as an injective function of what the native frames fold to.\<close>

lemma native_digest:
  fixes inputs :: "'p::linorder frame_inputs"
  shows "\<exists>later start. inj later \<and> (\<forall>frames. length frames = n \<longrightarrow>
    ControlStateDigest u (with_native frames inputs) overrides upstream = later (foldl FoldPointFrame start frames))"
proof -
  let ?seeds = "fi_stageSeeds inputs"
  define later where "later = (\<lambda>h. FoldOverrides u (FoldUpstream u (foldl FoldFlag (FoldCounted FoldMatrix h
      (ss_intervening ?seeds)) (ss_interveningReset ?seeds)) upstream) overrides)"
  have inj: "inj later"
    unfolding later_def
    by (intro inj_comp [OF FoldOverrides_inj] inj_comp [OF FoldUpstream_inj] inj_comp [OF foldl_inj] FoldFlag_inj
        FoldCounted_inj FoldMatrix_inj)
  define first where "first = (\<lambda>i. if FrameDigestOrderMatches (fi_digestOrder i) (fi_values i)
       then let recorded = the (fi_digestOrder i)
            in fold_recorded u i (zip (do_order recorded) (do_prefix recorded))
                 (FoldU64 digest_seed (of_nat (length (do_order recorded)))) []
       else let ordered = first_samples (fi_values i)
            in foldl (\<lambda>hash kv. FoldU64 hash (SampleDigest u (snd kv)))
                 (FoldU64 digest_seed (of_nat (length ordered))) ordered)"
  have level1: "OrderedLevel1 u (inputs\<lparr>fi_stageSeeds := s\<rparr>) = OrderedLevel1 u inputs" for s
    by (intro ext) (simp add: OrderedLevel1_def StaticEntry_def split: option.split)
  have same: "fold_recorded u (inputs\<lparr>fi_stageSeeds := s\<rparr>) es h names = fold_recorded u inputs es h names" for s es h names
  proof (induction es arbitrary: h names)
    case (Cons e es)
    obtain i prefix where e: "e = (i, prefix)" by fastforce
    show ?case by (simp add: e Cons level1 cong: prod.case_cong)
  qed simp
  define start where "start = FoldU64 (FoldCounted FoldFlag (FoldCounted FoldMatrix (FoldCounted FoldFlag
      (FoldCounted FoldPointFrame (FoldCounted FoldMatrix (FoldTag (FoldVaryingTransport u (FoldHeadLeafConstants (first inputs) inputs) inputs)
        ''seeds'') (ss_xformBase ?seeds)) (ss_xformFrames ?seeds)) (ss_deltaOk ?seeds)) (ss_deltaBase ?seeds)) (ss_nativeOk ?seeds))
      (of_nat n)"
  have digest: "ControlStateDigest u i overrides upstream = fold_rest u (first i) i overrides upstream" for i
    by (simp add: ControlStateDigest_def first_def Let_def)
  have frame: "first (inputs\<lparr>fi_stageSeeds := s\<rparr>) = first inputs"
    "FoldHeadLeafConstants k (inputs\<lparr>fi_stageSeeds := s\<rparr>) = FoldHeadLeafConstants k inputs"
    "FoldVaryingTransport u k (inputs\<lparr>fi_stageSeeds := s\<rparr>) = FoldVaryingTransport u k inputs" for s k
    by (simp_all add: first_def same Let_def FoldHeadLeafConstants_def FoldVaryingTransport_def cong: if_cong)
  have "ControlStateDigest u (with_native frames inputs) overrides upstream = later (foldl FoldPointFrame start frames)"
    if "length frames = n" for frames
    unfolding digest with_native_def fold_rest_def Let_def frame
    by (simp add: FoldStageSeeds_def FoldCounted_def [of FoldPointFrame _ frames] that later_def start_def Let_def)
  then show ?thesis using inj by blast
qed

lemma moved_native_digest:
  fixes inputs :: "'p::linorder frame_inputs"
  assumes "i < length (native_frames inputs)" "k < 12" "coordinates moved = (coordinates (native_frames inputs ! i))[k := x]"
    "pf_flags moved = pf_flags (native_frames inputs ! i)"
  shows "ControlStateDigest u (with_native ((native_frames inputs)[i := moved]) inputs) overrides upstream =
     ControlStateDigest u inputs overrides upstream \<longleftrightarrow> x = coordinates (native_frames inputs ! i) ! k"
proof -
  have self: "inputs = with_native (native_frames inputs) inputs" by (simp add: with_native_def)
  obtain later start where inj: "inj later" and digest: "\<forall>frames. length frames = length (native_frames inputs) \<longrightarrow>
      ControlStateDigest u (with_native frames inputs) overrides upstream = later (foldl FoldPointFrame start frames)"
    using native_digest [of "length (native_frames inputs)" u inputs overrides upstream] by blast
  obtain h where h: "\<forall>m. foldl FoldPointFrame start ((native_frames inputs)[i := m]) = foldl FoldPointFrame start (native_frames inputs) \<longleftrightarrow>
      FoldPointFrame h m = FoldPointFrame h (native_frames inputs ! i)"
    using foldl_update_inj [where f = FoldPointFrame and start = start, OF FoldPointFrame_inj assms(1)] by blast
  have "ControlStateDigest u inputs overrides upstream = later (foldl FoldPointFrame start (native_frames inputs))"
    by (subst self) (simp add: digest)
  then show ?thesis
    using digest h moved_frame_fold [OF assms(2-4), of h] by (simp add: inj_eq [OF inj])
qed

lemma reuse_seeds_irrelevant:
  "RigExecCanReuseRetainedPose u po vt_eq idx cached epoch (requested\<lparr>fi_stageSeeds := seeds\<rparr>) overrides =
   RigExecCanReuseRetainedPose u po vt_eq idx cached epoch requested overrides"
proof -
  have layouts: "changed_layouts u (rs_inputs cached) (requested\<lparr>fi_stageSeeds := seeds\<rparr>) =
      changed_layouts u (rs_inputs cached) requested"
    by (simp add: changed_layouts_def layout_key_changed_def [abs_def] Let_def cong: if_cong)
  have changed: "RigExecChangedControls u vt_eq cached (requested\<lparr>fi_stageSeeds := seeds\<rparr>) overrides =
      RigExecChangedControls u vt_eq cached requested overrides"
    unfolding RigExecChangedControls_def layouts
    by (simp add: changed_samples_def changed_constants_def constants_of_def)
  have leaf: "revision_leaf (requested\<lparr>fi_stageSeeds := seeds\<rparr>) = revision_leaf requested"
    by (simp add: revision_leaf_def cong: if_cong)
  have "SameVaryingRevisionLeaves (rs_inputs cached) (requested\<lparr>fi_stageSeeds := seeds\<rparr>) =
      SameVaryingRevisionLeaves (rs_inputs cached) requested"
    by (simp add: SameVaryingRevisionLeaves_def leaf cong: option.case_cong)
  moreover have "complete_layouts po (requested\<lparr>fi_stageSeeds := seeds\<rparr>) = complete_layouts po requested"
    by (simp add: complete_layouts_def)
  ultimately show ?thesis by (simp add: RigExecCanReuseRetainedPose_def changed)
qed

section \<open>Reuse and the sources\<close>

text \<open>A path read by a step is not among the changed controls of an accepted request.\<close>

lemma reused_source_unchanged:
  fixes B :: "('p::linorder) baked_program"
  assumes "clusters_valid (cg_clusters (pg_clustering B))" "clusters_recorded B"
    and idx: "idx = Build_index u (RigExecBakedBuildCones resolved B) built_epoch"
    and once: "compose_steps_once B" and step: "step \<in> set (pg_steps B)"
    and reads: "reads_source B path step" and name: "nm_path u path \<noteq> []"
    and reused: "fst (RigExecCanReuseRetainedPose u po vt_eq idx cached epoch requested overrides)"
  shows "RigExecControlIdForPath u path \<notin> set (RigExecChangedControls u vt_eq cached requested overrides)"
proof
  let ?changed = "RigExecChangedControls u vt_eq cached requested overrides"
  assume changed: "RigExecControlIdForPath u path \<in> set ?changed"
  obtain i where "i < length (pg_steps B)" "step = pg_steps B ! i" using step by (auto simp: in_set_conv_nth)
  then have range: "in_range (cluster_count B) (st_cluster step)" using assms(2) by (auto simp: clusters_recorded_def)
  then have some: "cluster_count B \<noteq> 0" by (auto simp: in_range_def)
  have "nat (st_cluster step) \<in> bits_of (fst (AffectedByControls ?changed idx))"
    unfolding idx by (rule source_readers_affected [OF assms(1) some once step range reads name changed]) (simp add: cluster_reach_def)
  moreover have "\<forall>control \<in> set ?changed. IsKnownControl control idx \<and> SeedsForControl control idx = []"
    using reused unfolding reuse_exact [OF assms(1-3)] by blast
  ultimately show False using none_affected [OF assms(1) some idx] by blast
qed

section \<open>Claims\<close>

text \<open>C15. The reuse decision is exact, and every reader's sources are among what it compares. For a
  program with an acyclic clustering that records the cluster of every step, and an index
  built from its cones, the retained pose may serve the request exactly when all of this
  holds: the program has clusters; the index, the frame and the request are of one epoch and
  the frame of this many clusters; the upstream values and the varying revision leaves are
  the same; both sides give a path for every layout leaf; every control that differs is known
  to the index and seeds no cluster; the time is the frame's, or no step reads outside the
  graph, at a varying input or through a resolved one; and no override stands, or no step reads an
  overridable input. When it may and each provider has one compose step, then for every step
  and every source it reads among those the index admits by path, nothing the request carries
  under that path differs from the frame: not the first sample of the path, not a layout leaf
  of the path, and not a head constant of the path where the two share no table. The stage
  seeds are not among what is compared.\<close>

theorem reuse_sees_every_input:
  fixes B :: "('p::linorder) baked_program" and cached :: "'p retained_state"
  assumes "clusters_valid (cg_clusters (pg_clustering B))" "clusters_recorded B"
    and "idx = Build_index u (RigExecBakedBuildCones resolved B) built_epoch"
  shows "(fst (RigExecCanReuseRetainedPose u po vt_eq idx cached epoch requested overrides) \<longleftrightarrow>
      cluster_count B \<noteq> 0 \<and> built_epoch = epoch \<and> rs_epochDigest cached = epoch \<and> rs_clusterCount cached = cluster_count B \<and>
      RigExecSameUpstream (fi_upstream (rs_inputs cached)) (fi_upstream requested) \<and>
      SameVaryingRevisionLeaves (rs_inputs cached) requested \<and>
      complete_layouts po (rs_inputs cached) \<and> complete_layouts po requested \<and>
      (\<forall>control \<in> set (RigExecChangedControls u vt_eq cached requested overrides).
         IsKnownControl control idx \<and> SeedsForControl control idx = []) \<and>
      (time_eq (ti_time requested) (ti_time (rs_inputs cached)) \<or>
         (\<forall>i < length (pg_steps B). \<not> st_externalReads (pg_steps B ! i) \<and> \<not> st_varyingInputs (pg_steps B ! i) \<and> \<not> resolved ! i)) \<and>
      (overrides = [] \<or> (\<forall>step \<in> set (pg_steps B). st_overrideInputs step = []))) \<and>
    (fst (RigExecCanReuseRetainedPose u po vt_eq idx cached epoch requested overrides) \<and> compose_steps_once B \<longrightarrow>
      (\<forall>step \<in> set (pg_steps B). \<forall>path. reads_source B path step \<and> nm_path u path \<noteq> [] \<longrightarrow>
         \<not> sample_differs (rs_inputs cached) requested path \<and> \<not> layout_differs (rs_inputs cached) requested path \<and>
         \<not> constant_differs (rs_inputs cached) requested path))"
proof (intro conjI impI ballI allI, rule reuse_exact [OF assms], goal_cases)
  case (1 step path)
  then show ?case using reused_source_unchanged [OF assms] differing_sample_changed by blast
next
  case (2 step path)
  then show ?case using reused_source_unchanged [OF assms] differing_layout_changed by blast
next
  case (3 step path)
  then show ?case using reused_source_unchanged [OF assms] differing_constant_changed by blast
qed

text \<open>C40. The reuse decision overlooks a moved constraint target. Take a frame retained for a request with a
  native constraint frame, and the request again with one coordinate of one point of that
  frame replaced by a different number. Whenever the retained pose may serve the first request
  it may serve the second, although their control digests differ: the digest counts the move as a
  change of the controls, and the pose from before the move is served under the new digest.\<close>

theorem reuse_overlooks_moved_target:
  fixes was :: "'p::linorder timed_inputs"
  assumes "i < length (native_frames was)" "k < 12" "x \<noteq> coordinates (native_frames was ! i) ! k"
    and "coordinates moved = (coordinates (native_frames was ! i))[k := x]"
    and "pf_flags moved = pf_flags (native_frames was ! i)"
    and "new = with_native ((native_frames was)[i := moved]) was"
    and "rs_inputs cached = was" "fst (RigExecCanReuseRetainedPose u po vt_eq idx cached epoch was overrides)"
  shows "fst (RigExecCanReuseRetainedPose u po vt_eq idx cached epoch new overrides) \<and>
    ControlStateDigest u (frame_inputs.truncate new) overrides upstream \<noteq>
    ControlStateDigest u (frame_inputs.truncate was) overrides upstream"
proof
  show "fst (RigExecCanReuseRetainedPose u po vt_eq idx cached epoch new overrides)"
    using assms(8) by (simp add: assms(6) with_native_def reuse_seeds_irrelevant)
  have seeds: "fi_stageSeeds (frame_inputs.truncate was) = fi_stageSeeds was" by (simp add: frame_inputs.defs)
  have "frame_inputs.truncate new = with_native ((native_frames was)[i := moved]) (frame_inputs.truncate was)"
    by (simp add: assms(6) with_native_def frame_inputs.defs)
  then show "ControlStateDigest u (frame_inputs.truncate new) overrides upstream \<noteq>
      ControlStateDigest u (frame_inputs.truncate was) overrides upstream"
    using moved_native_digest [of i "frame_inputs.truncate was" k moved x, unfolded seeds, OF assms(1,2,4,5)] assms(3) by simp
qed

text \<open>C35. Invalidating an epoch empties both caches of that epoch and of nothing else. From a consistent
  frame cache and task-list cache, the call answers the number of frames held for the epoch;
  afterwards the frame cache holds, in the same order of use, exactly the entries of other
  epochs, the memo answers exactly its selections of other epochs, and both are consistent.\<close>

theorem invalidate_epoch_exact:
  assumes "cache_inv cache" "task_list_inv memo"
    and "RigExecInvalidateEpoch epoch cache memo = (dropped, cache', memo')"
  shows "dropped = length (filter (\<lambda>kv. epochDigest (fst kv) = epoch) (abs_cache cache)) \<and>
    abs_cache cache' = filter (\<lambda>kv. epochDigest (fst kv) \<noteq> epoch) (abs_cache cache) \<and>
    memo_of memo' = (memo_of memo |` {k. fst k \<noteq> epoch}) \<and> cache_inv cache' \<and> task_list_inv memo'"
proof -
  have parts: "dropped = fst (EvictEpoch epoch cache)" "cache' = snd (EvictEpoch epoch cache)"
    "memo' = snd (InvalidateEpoch_tasks epoch memo)"
    using assms(3) by (auto simp: RigExecInvalidateEpoch_def Let_def split: prod.splits)
  show ?thesis
    unfolding parts using EvictEpoch_result(1-3) [OF assms(1), of epoch] memo_of_steps(3) task_list_inv_steps(4) [OF assms(2)]
    by blast
qed

section \<open>Witnesses\<close>

definition demo_path_ops :: "string path_ops" where
  "demo_path_ops = \<lparr> po_isEmpty = (\<lambda>p. p = []), po_isProperty = (\<lambda>_. False), po_isPrim = (\<lambda>_. True), po_primPath = (\<lambda>p. p),
     po_hasPrefix = (\<lambda>_ _. False), po_appendProperty = (@) \<rparr>"

text \<open>One native frame, whose origin has the given first coordinate.\<close>

definition demo_frame :: "double_bits \<Rightarrow> point_frame" where
  "demo_frame x = \<lparr> pf_points = Vec4 (Vec3 x 0 0) (Vec3 1 0 0) (Vec3 0 1 0) (Vec3 0 0 1), pf_flags = 15 \<rparr>"

definition demo_timed :: "string timed_inputs" where
  "demo_timed = \<lparr> fi_values = [\<lparr> si_path = ''/a'',
       si_value = Some \<lparr>hv_type = Single T_double, hv_elements = [[0, 0, 0, 0, 0, 0, 0, 0]], hv_hash = None\<rparr>,
       si_hasValue = True, si_burstSampleRoute = burst_route_stage, si_valueBlocked = False, si_staticSample = - 1 \<rparr>],
     fi_layoutLeaves = [], fi_varyingLayoutRows = [], fi_varyingRevisionLeaves = [], fi_revisionLeaves = [],
     fi_stageSeeds = \<lparr> ss_xformBase = [], ss_xformFrames = [], ss_nativeOk = [1], ss_nativeFrames = [demo_frame 0],
       ss_deltaOk = [], ss_deltaBase = [], ss_intervening = [], ss_interveningReset = [] \<rparr>,
     fi_headLeafConstants = None, fi_staticSamples = None, fi_digestOrder = None, fi_upstream = [],
     ti_time = TimeValue (Fin 1), ti_layoutSourcePaths = [], ti_headTable = 0 \<rparr>"

definition demo_retained :: "string retained_state" where
  "demo_retained = RigExecCaptureRetainedState demo_timed [] 7 3 0"

lemma demo_recorded: "clusters_recorded demo_program"
  unfolding clusters_recorded_def demo_count
  by (auto simp: demo_program_def demo_step_def in_range_def less_Suc_eq numeral_3_eq_3)

abbreviation demo_index :: affected_index where
  "demo_index \<equiv> Build_index demo_path_names (RigExecBakedBuildCones [False, False, False] demo_program) 7"

lemma demo_unchanged: "RigExecChangedControls demo_path_names vt_eq demo_retained (demo_timed\<lparr>ti_time := time\<rparr>) [] = []"
proof -
  have "changed_samples demo_path_names demo_timed (demo_timed\<lparr>ti_time := time\<rparr>) = []"
    by (simp add: changed_samples_def changed_keys_def demo_timed_def first_samples_def omap_emplace_def omap_put_def
        omap_erase_def same_sample_def
        RigExecSameSourceValue_def RigExecExactSourceValueEqual_def exact_type_def exact_types_def)
  moreover have "changed_layouts demo_path_names demo_timed (demo_timed\<lparr>ti_time := time\<rparr>) = []"
    by (simp add: changed_layouts_def demo_timed_def)
  ultimately show ?thesis
    by (simp add: RigExecChangedControls_def demo_retained_def RigExecCaptureRetainedState_def changed_constants_def
        changed_overrides_def overrides_by_key_def changed_keys_def)
qed

lemma demo_still: "i < length (pg_steps demo_program) \<Longrightarrow>
    \<not> st_externalReads (pg_steps demo_program ! i) \<and> \<not> st_varyingInputs (pg_steps demo_program ! i) \<and> \<not> [False, False, False] ! i"
  by (auto simp: demo_program_def demo_step_def less_Suc_eq)

text \<open>The frame retained at one time serves the same request at another: no step of the demonstration reads
  at a time. It does not serve a request with another sample of the path a step reads.\<close>

theorem reuse_sees_every_input_witness:
  "fst (RigExecCanReuseRetainedPose demo_path_names demo_path_ops (=) demo_index demo_retained 7
      (demo_timed\<lparr>ti_time := TimeValue (Fin 2)\<rparr>) []) \<and>
   \<not> fst (RigExecCanReuseRetainedPose demo_path_names demo_path_ops (=) demo_index demo_retained 7
      (demo_timed\<lparr>fi_values := []\<rparr>) [])"
proof
  note claim = reuse_sees_every_input [OF demo_valid demo_recorded refl]
  show "fst (RigExecCanReuseRetainedPose demo_path_names demo_path_ops (=) demo_index demo_retained 7
      (demo_timed\<lparr>ti_time := TimeValue (Fin 2)\<rparr>) [])"
    unfolding claim [THEN conjunct1] demo_unchanged
    by (auto simp: demo_retained_def RigExecCaptureRetainedState_def demo_timed_def demo_count RigExecSameUpstream_def
        SameVaryingRevisionLeaves_def complete_layouts_def demo_still)
  have "demo_step 0 \<in> set (pg_steps demo_program)" "nm_path demo_path_names ''/a'' \<noteq> []"
    by (simp_all add: demo_program_def demo_path_names_def)
  moreover have "sample_differs (rs_inputs demo_retained) (demo_timed\<lparr>fi_values := []\<rparr>) ''/a''"
    by (simp add: sample_differs_def demo_retained_def RigExecCaptureRetainedState_def demo_timed_def differs_def)
  ultimately show "\<not> fst (RigExecCanReuseRetainedPose demo_path_names demo_path_ops (=) demo_index demo_retained 7
      (demo_timed\<lparr>fi_values := []\<rparr>) [])"
    using claim [THEN conjunct2] demo_once demo_reads by blast
qed

lemma demo_reusable: "fst (RigExecCanReuseRetainedPose demo_path_names demo_path_ops (=) demo_index demo_retained 7 demo_timed [])"
proof -
  have same: "demo_timed = demo_timed\<lparr>ti_time := TimeValue (Fin 1)\<rparr>" by (simp add: demo_timed_def)
  have "RigExecChangedControls demo_path_names (=) demo_retained demo_timed [] = []"
    by (subst same) (rule demo_unchanged)
  then show ?thesis
    unfolding reuse_exact [OF demo_valid demo_recorded refl]
    by (auto simp: demo_retained_def RigExecCaptureRetainedState_def demo_timed_def demo_count RigExecSameUpstream_def
        SameVaryingRevisionLeaves_def complete_layouts_def double_eq_finite)
qed

theorem reuse_overlooks_moved_target_witness:
  "fst (RigExecCanReuseRetainedPose demo_path_names demo_path_ops (=) demo_index demo_retained 7
      (with_native [demo_frame 5] demo_timed) []) \<and>
   ControlStateDigest demo_path_names (frame_inputs.truncate (with_native [demo_frame 5] demo_timed)) [] [] \<noteq>
   ControlStateDigest demo_path_names (frame_inputs.truncate demo_timed) [] []"
proof (rule reuse_overlooks_moved_target [where i = 0 and k = 0 and x = 5 and moved = "demo_frame 5" and was = demo_timed])
  show "fst (RigExecCanReuseRetainedPose demo_path_names demo_path_ops (=) demo_index demo_retained 7 demo_timed [])"
    by (rule demo_reusable)
qed (simp_all add: demo_timed_def demo_frame_def coordinates_def demo_retained_def RigExecCaptureRetainedState_def)

theorem invalidate_epoch_exact_witness:
  "let memo = Store_task 8 ''/b'' [2] (Store_task 7 ''/a'' [1] new_task_list);
       (dropped, cache', memo') = RigExecInvalidateEpoch 7 (start_cache :: (nat, nat) frame_cache) memo
   in memo_of memo' (7, ''/a'') = None \<and> memo_of memo' (8, ''/b'') = Some [2] \<and> abs_cache cache' = []"
proof -
  define memo where "memo = Store_task 8 ''/b'' [2] (Store_task 7 ''/a'' [1] new_task_list)"
  have "abs_state (start_cache :: (nat, nat) frame_cache) = (1280 * 1024 * 1024, [])" by (rule start_cache_inv)
  then have start: "cache_inv (start_cache :: (nat, nat) frame_cache)" "abs_cache (start_cache :: (nat, nat) frame_cache) = []"
    by (simp_all add: start_cache_inv abs_state_def)
  have memo: "task_list_inv memo" by (simp add: memo_def task_list_inv_steps)
  obtain dropped cache' memo' where run: "RigExecInvalidateEpoch 7 (start_cache :: (nat, nat) frame_cache) memo = (dropped, cache', memo')"
    using prod_cases3 by blast
  from invalidate_epoch_exact [OF start(1) memo run]
  have "memo_of memo' = memo_of memo |` {k. fst k \<noteq> 7}" "abs_cache cache' = []" by (simp_all add: start(2))
  moreover have "memo_of memo (8, ''/b'') = Some [2]" by (simp add: memo_def memo_of_steps)
  ultimately show ?thesis unfolding Let_def memo_def [symmetric] run by (simp add: restrict_map_def)
qed

end
