(* ===== verification/Pose_Compare.thy ===== *)
theory Pose_Compare
  imports Usd_Values
begin

text \<open>
  The comparison of two poses (\<open>RigExecComparePoses\<close> of \<open>bakedProgram.cpp\<close>) and the shadow
  mode of the frame cache that rests on it (\<open>RigExecVerifyHitWithLive\<close> of
  \<open>frameCacheSparsity.cpp\<close>): a hit is served only next to a live pose that agrees with it. The
  equalities of the scene description library (vectors, matrices, values, float arrays) are
  parameters. The output pose is another object than the two compared.
\<close>

section \<open>Numbers in messages\<close>

definition digit :: "nat \<Rightarrow> char" where
  "digit n = char_of (48 + n)"

function decimal :: "nat \<Rightarrow> string" where
  "decimal n = (if n < 10 then [digit n] else decimal (n div 10) @ [digit (n mod 10)])"
  by pat_completeness auto
termination
  by (relation "measure id") auto

declare decimal.simps [simp del]

section \<open>The comparison\<close>

record pose_equalities =
  pe_vec :: "double_bits vec3 \<Rightarrow> double_bits vec3 \<Rightarrow> bool"
  pe_matrix :: "matrix4 \<Rightarrow> matrix4 \<Rightarrow> bool"
  pe_value :: "vt_value \<Rightarrow> vt_value \<Rightarrow> bool"
  pe_floats :: "32 word list \<Rightarrow> 32 word list \<Rightarrow> bool"

fun same_points :: "('a \<Rightarrow> 'a \<Rightarrow> bool) \<Rightarrow> 'a vec4 \<Rightarrow> 'a vec4 \<Rightarrow> bool" where
  "same_points eq (Vec4 a b c d) (Vec4 a' b' c' d') \<longleftrightarrow> eq a a' \<and> eq b b' \<and> eq c c' \<and> eq d d'"

definition same_frame :: "pose_equalities \<Rightarrow> point_frame \<Rightarrow> point_frame \<Rightarrow> bool" where
  "same_frame E a b \<longleftrightarrow> pf_flags a = pf_flags b \<and> same_points (pe_vec E) (pf_points a) (pf_points b)"

definition same_frames :: "pose_equalities \<Rightarrow> point_frame list \<Rightarrow> point_frame list \<Rightarrow> bool" where
  "same_frames E a b \<longleftrightarrow> length a = length b \<and> (\<forall>i < length a. same_frame E (a ! i) (b ! i))"

definition same_weights :: "pose_equalities \<Rightarrow> 'p weight_field \<Rightarrow> 'p weight_field \<Rightarrow> bool" where
  "same_weights E a b \<longleftrightarrow> wfd_target a = wfd_target b \<and> pe_floats E (wfd_weights a) (wfd_weights b)"

definition note_difference :: "'p rig_pose \<Rightarrow> string \<Rightarrow> 'p rig_pose" where
  "note_difference out line = out\<lparr>rp_diagnostics := rp_diagnostics out @ [line],
     rp_comparisonMismatches := rp_comparisonMismatches out + 1\<rparr>"

text \<open>The loops of one domain: the entries of the reference, then the entries only the baked pose has.\<close>

definition compare_entry ::
  "('p \<Rightarrow> string) \<Rightarrow> string \<Rightarrow> ('v \<Rightarrow> 'v \<Rightarrow> bool) \<Rightarrow> ('p, 'v) omap \<Rightarrow> 'p rig_pose \<Rightarrow> 'p \<times> 'v \<Rightarrow> 'p rig_pose" where
  "compare_entry name what equal bakedMap out = (\<lambda>(path, v). case map_of bakedMap path of
       None \<Rightarrow> note_difference out (''baked parity: no '' @ what @ '' for '' @ name path)
     | Some found \<Rightarrow> if equal v found then out
         else note_difference out (''baked parity: '' @ what @ '' differs at '' @ name path))"

definition extra_entry :: "('p \<Rightarrow> string) \<Rightarrow> string \<Rightarrow> ('p, 'v) omap \<Rightarrow> 'p rig_pose \<Rightarrow> 'p \<times> 'v \<Rightarrow> 'p rig_pose" where
  "extra_entry name what referenceMap out = (\<lambda>(path, v).
     if map_of referenceMap path = None
     then note_difference out (''baked parity: unexpected '' @ what @ '' at '' @ name path) else out)"

definition compare_domain ::
  "('p \<Rightarrow> string) \<Rightarrow> string \<Rightarrow> ('v \<Rightarrow> 'v \<Rightarrow> bool) \<Rightarrow> ('p, 'v) omap \<Rightarrow> ('p, 'v) omap \<Rightarrow> 'p rig_pose \<Rightarrow> 'p rig_pose" where
  "compare_domain name what equal referenceMap bakedMap out =
     foldl (extra_entry name what referenceMap)
       (foldl (compare_entry name what equal bakedMap) out referenceMap) bakedMap"

definition compare_diagnostics :: "'p rig_pose \<Rightarrow> 'p rig_pose \<Rightarrow> 'p rig_pose \<Rightarrow> 'p rig_pose" where
  "compare_diagnostics reference baked out =
     (if rp_diagnostics reference = rp_diagnostics baked then out
      else note_difference out (''baked parity: diagnostics differ ('' @ decimal (length (rp_diagnostics reference)) @ '' vs ''
        @ decimal (length (rp_diagnostics baked)) @ '' line(s))''))"

definition RigExecComparePoses ::
  "('p \<Rightarrow> string) \<Rightarrow> pose_equalities \<Rightarrow> 'p rig_pose \<Rightarrow> 'p rig_pose \<Rightarrow> 'p rig_pose \<Rightarrow> 'p rig_pose" where
  "RigExecComparePoses name E reference baked out0 =
     (let out = compare_domain name ''base joint frame'' (same_frame E) (rp_jointFramesBase reference) (rp_jointFramesBase baked) out0;
          out = compare_domain name ''final joint frame'' (same_frame E) (rp_jointFramesFinal reference) (rp_jointFramesFinal baked) out;
          out = compare_domain name ''joint matrix'' (pe_matrix E) (rp_jointMatricesFinal reference) (rp_jointMatricesFinal baked) out;
          out = compare_domain name ''control frame'' (same_frame E) (rp_controlFrames reference) (rp_controlFrames baked) out;
          out = compare_domain name ''provider transform'' (pe_matrix E) (rp_providerXforms reference) (rp_providerXforms baked) out;
          out = compare_domain name ''provider base transform'' (pe_matrix E) (rp_providerBaseXforms reference) (rp_providerBaseXforms baked) out;
          out = compare_domain name ''moved property'' (pe_value E) (rp_movedProperties reference) (rp_movedProperties baked) out;
          out = compare_domain name ''solver frames'' (same_frames E) (rp_solverFrames reference) (rp_solverFrames baked) out;
          out = compare_domain name ''weight field'' (same_weights E) (rp_weightFields reference) (rp_weightFields baked) out;
          out = compare_domain name ''weight frame'' (pe_matrix E) (rp_weightFrames reference) (rp_weightFrames baked) out
      in compare_diagnostics reference baked out)"

section \<open>The shadow of a hit\<close>

record 'p shadow_verdict =
  sv_match :: bool
  sv_mismatches :: nat
  sv_poseToServe :: "'p rig_pose"
  sv_report :: string

text \<open>The live runner is the pose it answers, \<open>None\<close> when there is no runner.\<close>

definition RigExecVerifyHitWithLive ::
  "('p \<Rightarrow> string) \<Rightarrow> pose_equalities \<Rightarrow> 'p rig_pose \<Rightarrow> 'p rig_pose option \<Rightarrow> 'p shadow_verdict" where
  "RigExecVerifyHitWithLive name E cached live =
     (let verdict = \<lparr> sv_match = False, sv_mismatches = 0, sv_poseToServe = cached, sv_report = [] \<rparr>
      in case live of
          None \<Rightarrow> verdict\<lparr>sv_report := ''frame cache verify: no live runner, unverified''\<rparr>
        | Some run \<Rightarrow>
            if \<not> rp_valid run then verdict\<lparr>sv_report := ''frame cache verify: live eval failed, unverified''\<rparr>
            else let out = RigExecComparePoses name E run cached new_pose;
                     verdict = verdict\<lparr>sv_mismatches := rp_comparisonMismatches out,
                       sv_match := rp_comparisonMismatches out = 0\<rparr>
                 in if sv_match verdict then verdict
                    else verdict\<lparr>sv_poseToServe := run,
                           sv_report := concat (map (\<lambda>line. line @ [CHR 0x0A]) (rp_diagnostics out))\<rparr>)"

section \<open>What the comparison decides\<close>

text \<open>Two maps agree when they have the same keys and equal values under each.\<close>

definition domains_agree :: "('v \<Rightarrow> 'v \<Rightarrow> bool) \<Rightarrow> ('p, 'v) omap \<Rightarrow> ('p, 'v) omap \<Rightarrow> bool" where
  "domains_agree equal a b \<longleftrightarrow> set (map fst a) = set (map fst b) \<and>
     (\<forall>path \<in> set (map fst a). equal (the (map_of a path)) (the (map_of b path)))"

definition poses_agree :: "pose_equalities \<Rightarrow> 'p rig_pose \<Rightarrow> 'p rig_pose \<Rightarrow> bool" where
  "poses_agree E a b \<longleftrightarrow>
     domains_agree (same_frame E) (rp_jointFramesBase a) (rp_jointFramesBase b) \<and>
     domains_agree (same_frame E) (rp_jointFramesFinal a) (rp_jointFramesFinal b) \<and>
     domains_agree (pe_matrix E) (rp_jointMatricesFinal a) (rp_jointMatricesFinal b) \<and>
     domains_agree (same_frame E) (rp_controlFrames a) (rp_controlFrames b) \<and>
     domains_agree (pe_matrix E) (rp_providerXforms a) (rp_providerXforms b) \<and>
     domains_agree (pe_matrix E) (rp_providerBaseXforms a) (rp_providerBaseXforms b) \<and>
     domains_agree (pe_value E) (rp_movedProperties a) (rp_movedProperties b) \<and>
     domains_agree (same_frames E) (rp_solverFrames a) (rp_solverFrames b) \<and>
     domains_agree (same_weights E) (rp_weightFields a) (rp_weightFields b) \<and>
     domains_agree (pe_matrix E) (rp_weightFrames a) (rp_weightFrames b) \<and>
     rp_diagnostics a = rp_diagnostics b"

text \<open>Every map of a pose is an ordered map.\<close>

definition pose_wf :: "('p::linorder) rig_pose \<Rightarrow> bool" where
  "pose_wf p \<longleftrightarrow> omap_wf (rp_jointFramesBase p) \<and> omap_wf (rp_jointFramesFinal p) \<and> omap_wf (rp_jointMatricesFinal p) \<and>
     omap_wf (rp_controlFrames p) \<and> omap_wf (rp_providerXforms p) \<and> omap_wf (rp_providerBaseXforms p) \<and>
     omap_wf (rp_movedProperties p) \<and> omap_wf (rp_solverFrames p) \<and> omap_wf (rp_weightFields p) \<and> omap_wf (rp_weightFrames p)"

text \<open>A pass adds one mismatch per entry that differs.\<close>

lemma fold_notes:
  assumes "\<And>out e. rp_comparisonMismatches (f out e) = rp_comparisonMismatches out + (if P e then 0 else 1)"
  shows "rp_comparisonMismatches (foldl f out es) = rp_comparisonMismatches out + length (filter (\<lambda>e. \<not> P e) es)"
  by (induction es arbitrary: out) (simp_all add: assms)

lemma compare_entry_notes:
  "rp_comparisonMismatches (compare_entry name what equal bakedMap out e) = rp_comparisonMismatches out +
     (if case map_of bakedMap (fst e) of None \<Rightarrow> False | Some found \<Rightarrow> equal (snd e) found then 0 else 1)"
  by (cases e) (simp add: compare_entry_def note_difference_def split: option.split)

lemma extra_entry_notes:
  "rp_comparisonMismatches (extra_entry name what referenceMap out e) = rp_comparisonMismatches out +
     (if map_of referenceMap (fst e) \<noteq> None then 0 else 1)"
  by (cases e) (simp add: extra_entry_def note_difference_def)

text \<open>One domain is silent exactly when the maps agree.\<close>

lemma compare_domain_notes:
  fixes a b :: "('p::linorder, 'v) omap"
  assumes "omap_wf a"
  shows "\<exists>n. rp_comparisonMismatches (compare_domain name what equal a b out) = rp_comparisonMismatches out + n \<and>
    (n = 0 \<longleftrightarrow> domains_agree equal a b)"
proof -
  let ?same = "\<lambda>e. case map_of b (fst e) of None \<Rightarrow> False | Some found \<Rightarrow> equal (snd e) found"
  have count: "rp_comparisonMismatches (compare_domain name what equal a b out) = rp_comparisonMismatches out +
      (length (filter (\<lambda>e. \<not> ?same e) a) + length (filter (\<lambda>e. map_of a (fst e) = None) b))"
    unfolding compare_domain_def
    by (simp add: fold_notes [OF compare_entry_notes] fold_notes [OF extra_entry_notes])
  have look: "map_of a path = Some v" if "(path, v) \<in> set a" for path v
    using that omap_wf_mem_iff [OF assms] by blast
  have "(\<forall>e \<in> set a. ?same e) \<and> (\<forall>e \<in> set b. map_of a (fst e) \<noteq> None) \<longleftrightarrow> domains_agree equal a b"
  proof
    assume all: "(\<forall>e \<in> set a. ?same e) \<and> (\<forall>e \<in> set b. map_of a (fst e) \<noteq> None)"
    have in_b: "\<exists>found. map_of b path = Some found \<and> equal v found" if "(path, v) \<in> set a" for path v
      using that all by (fastforce split: option.splits)
    have "fst ` set b \<subseteq> fst ` set a" using all by (auto simp: map_of_eq_None_iff)
    moreover have "fst ` set a \<subseteq> fst ` set b"
      using in_b by (fastforce dest: map_of_SomeD intro: rev_image_eqI)
    moreover have "equal (the (map_of a path)) (the (map_of b path))" if path: "path \<in> fst ` set a" for path
    proof -
      obtain v where v: "(path, v) \<in> set a" using path by auto
      show ?thesis using in_b [OF v] look [OF v] by auto
    qed
    ultimately show "domains_agree equal a b" by (auto simp: domains_agree_def)
  next
    assume agree: "domains_agree equal a b"
    have "?same e" if e: "e \<in> set a" for e
    proof -
      have "fst e \<in> fst ` set b" "fst e \<in> fst ` set a" using agree e by (auto simp: domains_agree_def)
      then obtain found where "map_of b (fst e) = Some found" by (auto simp: map_of_eq_None_iff dest: weak_map_of_SomeI)
      moreover have "map_of a (fst e) = Some (snd e)" using look [of "fst e" "snd e"] e by simp
      moreover have "equal (the (map_of a (fst e))) (the (map_of b (fst e)))"
      proof -
        have "\<forall>path \<in> set (map fst a). equal (the (map_of a path)) (the (map_of b path))"
          using agree unfolding domains_agree_def by (rule conjunct2)
        moreover have "fst e \<in> set (map fst a)" using e by simp
        ultimately show ?thesis by blast
      qed
      ultimately show ?thesis by simp
    qed
    moreover have "map_of a (fst e) \<noteq> None" if "e \<in> set b" for e
      using agree that by (auto simp: domains_agree_def map_of_eq_None_iff)
    ultimately show "(\<forall>e \<in> set a. ?same e) \<and> (\<forall>e \<in> set b. map_of a (fst e) \<noteq> None)" by blast
  qed
  then show ?thesis unfolding count by (auto simp: filter_empty_conv)
qed

lemma compare_diagnostics_notes:
  "rp_comparisonMismatches (compare_diagnostics a b out) = rp_comparisonMismatches out +
     (if rp_diagnostics a = rp_diagnostics b then 0 else 1)"
  by (simp add: compare_diagnostics_def note_difference_def)

lemma RigExecComparePoses_zero:
  fixes reference baked :: "('p::linorder) rig_pose"
  assumes wf: "pose_wf reference"
  shows "rp_comparisonMismatches (RigExecComparePoses name E reference baked out) = rp_comparisonMismatches out \<longleftrightarrow>
    poses_agree E reference baked"
proof -
  let ?n = rp_comparisonMismatches
  have step: "(?n (compare_domain name what equal a b out') = ?n out \<longleftrightarrow> P \<and> domains_agree equal a b) \<and>
      ?n out \<le> ?n (compare_domain name what equal a b out')"
    if "omap_wf a" "(?n out' = ?n out \<longleftrightarrow> P) \<and> ?n out \<le> ?n out'"
    for what and equal :: "'v \<Rightarrow> 'v \<Rightarrow> bool" and a b :: "('p, 'v) omap" and out' :: "'p rig_pose" and P
    using compare_domain_notes [OF that(1), of name what equal b out'] that(2) by auto
  note w = wf [unfolded pose_wf_def]
  have start: "(?n out = ?n out \<longleftrightarrow> True) \<and> ?n out \<le> ?n out" by simp
  note s1 = step [OF conjunct1 [OF w] start]
  have fin: "?n (compare_diagnostics reference baked out') = ?n out \<longleftrightarrow> P \<and> rp_diagnostics reference = rp_diagnostics baked"
    if "(?n out' = ?n out \<longleftrightarrow> P) \<and> ?n out \<le> ?n out'" for out' P
    using that by (auto simp: compare_diagnostics_notes)
  show ?thesis
    unfolding RigExecComparePoses_def Let_def poses_agree_def
    by (subst fin, (rule step, simp add: w)+, rule start, simp add: conj_assoc)
qed

section \<open>Claim\<close>

text \<open>C34. The shadow of a cache hit is advisory and never serves a pose it knows to be wrong. Without a
  live runner, or when the live evaluation fails, the cached pose is served unverified; when
  the live pose agrees with the cached one in every compared domain (key sets, frames with
  their flags, matrices, values, weights, diagnostics) the cached pose is served as a match
  with an empty report; otherwise the live pose is served, with at least one mismatch counted.\<close>

theorem verify_serves_agreeing_pose:
  fixes cached :: "('p::linorder) rig_pose"
  assumes "case live of None \<Rightarrow> True | Some run \<Rightarrow> pose_wf run"
  shows "let verdict = RigExecVerifyHitWithLive name E cached live in
    case live of
      None \<Rightarrow> sv_poseToServe verdict = cached \<and> \<not> sv_match verdict \<and> sv_mismatches verdict = 0
    | Some run \<Rightarrow>
        if \<not> rp_valid run then sv_poseToServe verdict = cached \<and> \<not> sv_match verdict \<and> sv_mismatches verdict = 0
        else if poses_agree E run cached
        then sv_poseToServe verdict = cached \<and> sv_match verdict \<and> sv_mismatches verdict = 0 \<and> sv_report verdict = []
        else sv_poseToServe verdict = run \<and> \<not> sv_match verdict \<and> 0 < sv_mismatches verdict"
proof (cases live)
  case (Some run)
  have "rp_comparisonMismatches (RigExecComparePoses name E run cached new_pose) = 0 \<longleftrightarrow> poses_agree E run cached"
    using RigExecComparePoses_zero [of run name E cached new_pose] assms Some by (simp add: new_pose_def)
  then show ?thesis by (auto simp: Some RigExecVerifyHitWithLive_def Let_def)
qed (simp add: RigExecVerifyHitWithLive_def Let_def)

definition demo_equalities :: pose_equalities where
  "demo_equalities = \<lparr> pe_vec = (=), pe_matrix = (=), pe_value = (=), pe_floats = (=) \<rparr>"

theorem verify_serves_agreeing_pose_witness:
  "let cached = (new_pose :: nat rig_pose); run = new_pose\<lparr>rp_valid := True, rp_diagnostics := [''late'']\<rparr>;
       verdict = RigExecVerifyHitWithLive decimal demo_equalities cached (Some run)
   in sv_poseToServe verdict = run \<and> \<not> sv_match verdict \<and> 0 < sv_mismatches verdict"
proof -
  define run where "run = (new_pose :: nat rig_pose)\<lparr>rp_valid := True, rp_diagnostics := [''late'']\<rparr>"
  have wf: "case Some run of None \<Rightarrow> True | Some run \<Rightarrow> pose_wf run" by (simp add: run_def pose_wf_def new_pose_def)
  have diff: "\<not> poses_agree demo_equalities run new_pose" by (simp add: poses_agree_def run_def new_pose_def)
  have valid: "rp_valid run" by (simp add: run_def)
  show ?thesis
    using verify_serves_agreeing_pose [OF wf, of decimal demo_equalities new_pose] diff valid
    by (simp add: Let_def run_def [symmetric])
qed

end
