(* ===== verification/Spec2Isabelle.thy ===== *)
theory Spec2Isabelle
  imports Op_Exec_Claims Op_Async_Claims Op_Generations Affected_Claims Warm_Trigger Reuse_Claims Pose_Compare Frame_Props Frame_Claims
begin

text \<open>
  A verification development for usdRig, the scheduling and caching core of \<open>libs/rigExec\<close> and
  \<open>libs/rigExecGraph\<close>.

  \<^bold>\<open>The program.\<close> A rig is a set of operations (avars, solvers, constraints, deformers) that read
  and write values of a composed scene. The evaluator discovers them, bakes them into a program
  of steps, compiles the steps into a graph of operations and executes it once per frame. Around
  that stand a cache of evaluated frames, keyed by a digest of everything a frame depends on; an
  index that tells which clusters of the program an edited control reaches; caches that use the
  index to reuse a retained frame; and a background scheduler whose workers warm frames the user
  is likely to ask for. Five parts carry the logic, and are modelled here:

  \<^item> the operation graph (\<open>rigExecGraph/opGraph.h\<close>, \<open>opGraph.cpp\<close>): a backend hands over one
    descriptor per operation, the compiler resolves the producers of its inputs, reports
    cycles and sets them aside, orders the rest canonically and coarsens linear chains into
    clusters; the executor runs the clusters whose inputs changed, serially or as tasks;
  \<^item> the cones of the baked program (\<open>rigExec/bakedSchedule.cpp\<close>, \<open>bakedProgramImpl.h\<close>,
    \<open>bakedClusters.h\<close>) and the output-affected index over them
    (\<open>outputAffectedIndex.h\<close>, \<open>outputAffectedIndex.cpp\<close>);
  \<^item> the frame cache (\<open>frameCache.h\<close>, \<open>frameCache.cpp\<close>): the control digest that is half of a key,
    and the sharded least-recently-used store of poses;
  \<^item> reuse and verification of retained frames (\<open>frameCacheSparsity.cpp\<close>, \<open>taskListCache.cpp\<close>,
    \<open>bakedOpValues.cpp\<close>, the pose comparison of \<open>bakedProgram.cpp\<close>), which join the cones, the
    index and the frame cache;
  \<^item> the background scheduler and its generation fence (\<open>backgroundScheduler.cpp\<close>,
    \<open>generation.h\<close>), which decides which frames are evaluated ahead and whether their result
    may still be published to the frame cache.

  \<^bold>\<open>Shared theories.\<close> \<open>Rig_Prelude\<close> holds the containers: a vector made unique is a sorted list, a
  \<open>std::map\<close> a key-sorted association list (\<open>omap\<close>), with the locale \<open>key_map\<close> that states what
  clients rely on and its interpretation; the sharded table of the frame cache interprets the
  same locale. \<open>IEEE_Double\<close> is the C++ \<open>double\<close> as cost sums and time codes use it, \<open>Usd_Values\<close>
  the values of a scene that the caches pass around.

  \<^bold>\<open>The operation graph.\<close> \<open>Op_Graph\<close> has the records of \<open>opGraph.h\<close> and one constructor per message
  the compiler, the validator and the executor fail with. \<open>Op_Components\<close> is the component search
  (the iterative depth-first search, the sweep, \<open>Loop\<close>), \<open>Op_Compile\<close> the function
  \<open>RigExecCompileOpGraph\<close>, \<open>Op_Clusters\<close> the functions \<open>RigExecLowerOpClusters\<close> and
  \<open>RigExecValidateOpClusters\<close>, \<open>Op_Execute\<close> the functions \<open>RigExecOpAscending\<close>,
  \<open>RigExecOpResetExecution\<close> and the serial path of \<open>RigExecExecuteOpGraph\<close>, \<open>Op_Parallel\<close> its
  asynchronous path. A C++ call that returns \<open>false\<close> with a message is a value \<open>Inl\<close> of the message;
  the graph it has filled so far is part of the answer where a caller can see it. Indices are
  naturals: the compiler itself refuses more operations than an index can name.
  \<open>Op_Resolve\<close>, \<open>Op_Order\<close>, \<open>Op_Build\<close> and \<open>Op_Correct\<close> prove the compiler correct on the
  relation \<open>depends\<close> the descriptors state; \<open>Op_Props\<close> has its properties: it succeeds exactly on
  well-formed descriptors, what it sets aside is exactly what lies on a cycle or was retained,
  the order is the topological order that always takes the least ready key, every cycle reported
  is a closed walk, and whatever the lowering produces the validator accepts, the validator
  being equivalent to a declarative condition.

  \<open>Op_Reset\<close>, \<open>Op_Sweep\<close>, \<open>Op_Run\<close>, \<open>Op_Exec_Props\<close> and \<open>Op_Exec_Claims\<close> treat the serial executor
  over an arbitrary backend (a record of functions over a state): a run is one flat topological
  sweep of the bodies of the operations reachable from a seed, a failed body cancels everything
  after it, and the records it leaves make the next reset as good as a whole one.
  \<open>Op_Incremental\<close> and \<open>Op_Confluence\<close> instantiate the backend with a valuation and a set of changed
  values: an incremental run ends in the state of a full one, and any two topological sweeps end
  in the same state. \<open>Op_Parallel\<close> models the asynchronous path as an \<open>inductive\<close> relation over the
  multiset of unfinished tasks with one rule per atomic action; any interleaving is allowed, so
  nothing is assumed of the dispatcher. \<open>Op_Interleave\<close>, \<open>Op_Bodies\<close>, \<open>Op_Async\<close> and \<open>Op_Outcome\<close>
  carry the invariant, \<open>Op_Async_Claims\<close> the properties: bodies run once, after their
  predecessors, every interleaving joins, and a joined run without a failure leaves what the
  serial path leaves.

  \<^bold>\<open>Adapters and values.\<close> A backend does not write descriptors itself: it lists steps that read and
  write ranges of typed slots, and \<open>RigExecOpCompileAdapter\<close> (\<open>rigExecGraph/opValues.h\<close>) gives every
  slot a value id, calls the compiler and renumbers the values. \<open>Op_Adapter\<close> has that function,
  \<open>Op_Slots\<close>, \<open>Op_Canonical\<close>, \<open>Op_Adapter_Props\<close> and \<open>Op_Adapter_Tables\<close> follow its loops, and
  \<open>Op_Adapter_Errors\<close> says what each of its errors means for the steps, and
  \<open>Op_Adapter_Claims\<close> carries the properties of the compiler over to slots: when it succeeds and
  how it fails under either policy for cycles, what
  graph it makes, and that the order in which a backend lists its steps does not matter.
  \<open>Op_Values\<close> models what a backend keeps per value: the exact key, publication by either route, the
  change flags a run clears and gathers, the steps that hold output, and the bytes that key a
  provider's value. \<open>Op_Value_Claims\<close> shows keys exact (a small theory of prefix-free encodings)
  and follows one run, \<open>Op_Generations\<close> any sequence of runs of a compiled adapter. What is
  sampled for a slot is a parameter, and so is which leaves a run keys: the code skips a leaf only
  where an equal comparison would keep its key.

  \<^bold>\<open>Cones and the index.\<close> \<open>Cluster_Set\<close> is the bitset of \<open>bakedClusters.h\<close> on 64-bit words; the locale
  \<open>cluster_sets\<close> states what the index relies on and is interpreted on it. \<open>Baked_Program\<close> has the
  records, \<open>Baked_Cones\<close> the functions \<open>RigExecBakedClusterTopologicalOrder\<close> and
  \<open>RigExecBakedBuildCones\<close>, one definition per pass, \<open>Affected_Index\<close> the class
  \<open>RigExecOutputAffectedIndex\<close>. \<open>Baked_Closure\<close> shows that on an acyclic clustering the order is
  complete and a cone is the set of clusters reachable from its cluster; \<open>Affected_Props\<close> and
  \<open>Affected_Sources\<close> follow what each pass records to the tables, \<open>Affected_Flags\<close> the flags of
  the steps; \<open>Affected_Claims\<close> states that
  the answer to a query is exactly the set reachable from the seeds of the edited controls, and
  that an edited source reaches every cluster downstream of a step that reads it, for each
  family of sources \<open>Build\<close> admits by path (the relation \<open>reads_source\<close>, one rule per family). That
  a schedule has one compose step per provider, as \<open>bakedPose.cpp\<close> builds it, is a premise there.

  \<^bold>\<open>The frame cache.\<close> \<open>Frame_Digest\<close> and \<open>Frame_Control\<close> model the mixing of words and the digest of a
  frame's controls by its three routes (plain, recorded order, memo of a burst), reading storage
  little-endian. \<open>Frame_Mix\<close> shows every fold injective in the running hash, \<open>Frame_Routes\<close> relates
  the routes to one reference, \<open>Frame_Claims\<close> has the properties. \<open>Frame_Cache\<close> is the store, one
  function per method of the class, sizes as 64-bit words with wrap-around. \<open>Frame_Table\<close> gives
  the two abstractions (the shards as a map, the entries by last use as a list), \<open>Frame_LRU\<close>
  the specification and its simulation, operation by operation in \<open>Frame_Ops\<close>, \<open>Frame_Bulk\<close> and
  \<open>Frame_Evict\<close>; \<open>Frame_Props\<close> states the refinement for any sequence of calls and the account.

  \<^bold>\<open>Reuse.\<close> \<open>Task_List\<close> is the task-list cache, \<open>Frame_Reuse\<close> the decision whether a retained pose may be
  served (\<open>RigExecChangedControls\<close>, \<open>RigExecCanReuseRetainedPose\<close>), \<open>Reuse_Props\<close> what the two rest
  on, \<open>Reuse_Claims\<close> the properties: the decision exactly, what it compares of the sources the
  steps read, and the stage seeds it does not compare; \<open>Pose_Compare\<close> the comparison of two poses and the verdict of
  the shadow mode.

  \<^bold>\<open>The scheduler.\<close> \<open>Warm_Scheduler\<close> has one function per method and per critical section, \<open>Warm_Queue\<close>
  the invariant of the queue and its coalescing index, \<open>Warm_Pool\<close> the \<open>inductive\<close> relation of the
  scheduler together with the workers that hold a job. \<open>Warm_Props\<close>, \<open>Warm_Fence\<close> and \<open>Warm_Trigger\<close>
  have the properties: what an edit retires stays retired, queued jobs belong to the current
  generation, every job is accounted for, a drain ends; and the two situations in which a reset
  of a rig with a running job breaks that.

  \<^bold>\<open>Loops and bounds.\<close> The loops of the code are total functions with a measure: the depth-first
  searches by the nodes not yet visited and the edge slots left on the stack, the priority queue,
  the ready loops and the order of the clusters by the edges not yet released and the length of
  the queue. The one loop with a guard in the code, eviction, counts the guard down as the code
  does, and a lemma shows that the number of entries, which it starts from, is enough. Draining
  the scheduler may not end, since a job factory may enqueue again: it is a partial function,
  and a property says when it ends. The asynchronous run is a relation; a property bounds the
  number of actions of every run and shows that none gets stuck before all tasks are over.
  Sizes of the frame cache and its byte account are 64-bit words that wrap. Counters that only
  grow by one per event (the clock and the statistics of the frame cache, the sequence numbers and
  books of the scheduler, the statistics of the task-list cache, the walks of the index) are
  naturals: they differ from the code's 64-bit words after \<open>2 ^ 64\<close> events. The position on the
  stack of the component search is an integer where the code has 32 bits: it differs from \<open>2 ^ 31\<close>
  nodes on. A shard of the frame cache is ordered by key where the code has a hash table, whose
  order shows only in the order of a report; reports are compared as multisets.

  \<^bold>\<open>Parameters.\<close> What other libraries answer is an argument: the equalities and hashes of library
  values, vectors and matrices, the text of a path and its prefix test, the name of a type, the
  sizes of host types in the byte account, the order of a hash table, the answer of the rig to a
  scene notice, what a backend samples for a slot, and which steps read through resolved inputs,
  which depends on their bodies.
  The equality of two override values, which the burst digest asks of a recorded list, is such an argument
  too. A hypothesis about one of them is a premise of the property that needs it.

  \<^bold>\<open>Not modelled.\<close> Of the parts above: the refusal of \<open>RigExecExecuteOpGraph\<close> to start on a backend
  whose callbacks are missing (a record of functions has them all), profiling records, text of
  reports, thread priorities, condition variables and locks as objects (each critical section
  is one step), and interleavings inside one call of the frame cache. Of the program: the bodies
  of operations and the numerical kernels, which compute in floating point over vector types of
  another library; discovery, validation, sampling and lowering of scenes, whose statements are
  calls into the scene description library; the binary format and the standalone runtime that
  reads it; imaging, authoring, oracles, bindings, tools and tests.
\<close>

end
